(* ===== verification/Prelude.thy ===== *)
theory Prelude
  imports Main "HOL-Library.Word"
begin

text \<open>
  Shared vocabulary of the development: the machine-integer types of the kernel
  (kernel/types.h), the linear scan over a fixed array that nearly every table of the
  kernel performs (\<open>for(i = 0; i < MAX; i++) if(cond) ... break;\<close>), the conditional update
  of every slot of an array, and the fact collections the component theories fill.
\<close>

unbundle bit_operations_syntax

type_synonym u8 = "8 word"
type_synonym u16 = "16 word"
type_synonym u32 = "32 word"
type_synonym u64 = "64 word"

text \<open>Casts of C: an \<open>int\<close> stored in an unsigned 64-bit object, and a \<open>uint64\<close> cast
  to \<open>int\<close> (the low 32 bits, read as two's complement).\<close>

abbreviation u64_of_int :: "int \<Rightarrow> u64" where
  "u64_of_int i \<equiv> word_of_int i"

definition int_of_u64 :: "u64 \<Rightarrow> int" where
  "int_of_u64 w = sint (ucast w :: u32)"

named_theorems slot_simps \<open>scans and updates of fixed-size tables\<close>
named_theorems frame_simps \<open>fields that an operation leaves alone\<close>

subsection \<open>The first slot that satisfies a condition\<close>

primrec first_slot :: "('a \<Rightarrow> bool) \<Rightarrow> 'a list \<Rightarrow> nat option" where
  "first_slot P [] = None"
| "first_slot P (x # xs) = (if P x then Some 0 else map_option Suc (first_slot P xs))"

lemma first_slot_None [slot_simps]: "first_slot P xs = None \<longleftrightarrow> (\<forall>x \<in> set xs. \<not> P x)"
  by (induction xs) auto

lemma first_slot_SomeD:
  "first_slot P xs = Some i \<Longrightarrow> i < length xs \<and> P (xs ! i) \<and> (\<forall>j < i. \<not> P (xs ! j))"
proof (induction xs arbitrary: i)
  case Nil
  then show ?case by simp
next
  case (Cons x xs)
  show ?case
  proof (cases "P x")
    case True
    with Cons.prems show ?thesis by simp
  next
    case False
    with Cons.prems obtain k where k: "first_slot P xs = Some k" and i: "i = Suc k"
      by (cases "first_slot P xs") auto
    show ?thesis
      using Cons.IH [OF k] False i by (auto simp: nth_Cons split: nat.splits)
  qed
qed

lemma first_slot_less: "first_slot P xs = Some i \<Longrightarrow> i < length xs"
  by (simp add: first_slot_SomeD)

lemma first_slot_holds: "first_slot P xs = Some i \<Longrightarrow> P (xs ! i)"
  by (simp add: first_slot_SomeD)

lemma first_slot_before: "first_slot P xs = Some i \<Longrightarrow> j < i \<Longrightarrow> \<not> P (xs ! j)"
  by (simp add: first_slot_SomeD)

lemma first_slot_exists: "i < length xs \<Longrightarrow> P (xs ! i) \<Longrightarrow> \<exists>k. first_slot P xs = Some k"
  by (cases "first_slot P xs") (auto simp: first_slot_None)

lemma first_slotI:
  "i < length xs \<Longrightarrow> P (xs ! i) \<Longrightarrow> (\<And>j. j < i \<Longrightarrow> \<not> P (xs ! j)) \<Longrightarrow> first_slot P xs = Some i"
proof (induction xs arbitrary: i)
  case Nil
  then show ?case by simp
next
  case (Cons x xs)
  show ?case
  proof (cases i)
    case 0
    with Cons.prems show ?thesis by simp
  next
    case (Suc k)
    have "first_slot P xs = Some k"
    proof (rule Cons.IH)
      show "k < length xs" "P (xs ! k)" using Cons.prems Suc by auto
      show "\<not> P (xs ! j)" if "j < k" for j
        using Cons.prems(3) [of "Suc j"] that Suc by simp
    qed
    moreover have "\<not> P x" using Cons.prems(3) [of 0] Suc by simp
    ultimately show ?thesis using Suc by simp
  qed
qed

subsection \<open>Updating the slots of a table\<close>

definition map_slots :: "('a \<Rightarrow> bool) \<Rightarrow> ('a \<Rightarrow> 'a) \<Rightarrow> 'a list \<Rightarrow> 'a list" where
  "map_slots P f xs = map (\<lambda>x. if P x then f x else x) xs"

lemma length_map_slots [simp]: "length (map_slots P f xs) = length xs"
  by (simp add: map_slots_def)

lemma nth_map_slots [slot_simps]:
  "i < length xs \<Longrightarrow> map_slots P f xs ! i = (if P (xs ! i) then f (xs ! i) else xs ! i)"
  by (simp add: map_slots_def)

lemma set_map_slots:
  "x \<in> set (map_slots P f xs) \<Longrightarrow> (\<exists>y \<in> set xs. (P y \<and> x = f y) \<or> (\<not> P y \<and> x = y))"
  by (auto simp: map_slots_def)

lemma nth_list_update_if [slot_simps]:
  "j < length xs \<Longrightarrow> xs[i := x] ! j = (if i = j then x else xs ! j)"
  by (simp add: nth_list_update)

definition upd_slot :: "nat \<Rightarrow> ('a \<Rightarrow> 'a) \<Rightarrow> 'a list \<Rightarrow> 'a list" where
  "upd_slot i f xs = xs[i := f (xs ! i)]"

lemma length_upd_slot [simp]: "length (upd_slot i f xs) = length xs"
  by (simp add: upd_slot_def)

lemma nth_upd_slot [slot_simps]:
  "j < length xs \<Longrightarrow> upd_slot i f xs ! j = (if i = j then f (xs ! j) else xs ! j)"
  by (simp add: upd_slot_def nth_list_update)

lemma nth_upd_slot_same [simp]: "i < length xs \<Longrightarrow> upd_slot i f xs ! i = f (xs ! i)"
  by (simp add: upd_slot_def)

lemma nth_upd_slot_other [simp]: "i \<noteq> j \<Longrightarrow> upd_slot i f xs ! j = xs ! j"
  by (simp add: upd_slot_def)

subsection \<open>Unique keys among the used slots of a table\<close>

text \<open>No two used slots carry the same key: what makes "the" slot of a key well defined.\<close>

definition uniq_keys :: "('a \<Rightarrow> bool) \<Rightarrow> ('a \<Rightarrow> 'k) \<Rightarrow> 'a list \<Rightarrow> bool" where
  "uniq_keys used key xs \<longleftrightarrow>
     (\<forall>i < length xs. \<forall>j < length xs.
        used (xs ! i) \<longrightarrow> used (xs ! j) \<longrightarrow> key (xs ! i) = key (xs ! j) \<longrightarrow> i = j)"

lemma uniq_keysD:
  "uniq_keys used key xs \<Longrightarrow> i < length xs \<Longrightarrow> j < length xs \<Longrightarrow> used (xs ! i) \<Longrightarrow> used (xs ! j)
   \<Longrightarrow> key (xs ! i) = key (xs ! j) \<Longrightarrow> i = j"
  by (auto simp: uniq_keys_def)

lemma uniq_keys_replicate: "\<not> used b \<Longrightarrow> uniq_keys used key (replicate n b)"
  by (simp add: uniq_keys_def)

text \<open>An update that keeps keys and sets no new used flag keeps uniqueness.\<close>

lemma uniq_keys_shrink:
  assumes "uniq_keys used key xs" and "length ys = length xs"
    and "\<And>i. i < length xs \<Longrightarrow> used (ys ! i) \<Longrightarrow> used (xs ! i) \<and> key (ys ! i) = key (xs ! i)"
  shows "uniq_keys used key ys"
  using assms unfolding uniq_keys_def by metis

lemma uniq_keys_update_same:
  "uniq_keys used key xs \<Longrightarrow> (used x \<Longrightarrow> used (xs ! i) \<and> key x = key (xs ! i)) \<Longrightarrow>
   uniq_keys used key (xs[i := x])"
  by (rule uniq_keys_shrink [of used key xs]) (auto simp: nth_list_update_if split: if_splits)

text \<open>Writing a fresh key into a slot keeps uniqueness.\<close>

lemma uniq_keys_insert:
  assumes "uniq_keys used key xs"
    and "\<And>j. j < length xs \<Longrightarrow> j \<noteq> i \<Longrightarrow> used (xs ! j) \<Longrightarrow> key (xs ! j) \<noteq> key x"
  shows "uniq_keys used key (xs[i := x])"
  unfolding uniq_keys_def
proof (intro allI impI)
  fix a b
  assume ab: "a < length (xs[i := x])" "b < length (xs[i := x])"
    and u: "used (xs[i := x] ! a)" "used (xs[i := x] ! b)"
    and k: "key (xs[i := x] ! a) = key (xs[i := x] ! b)"
  have fresh: "False" if "c < length xs" "c \<noteq> i" "used (xs ! c)" "key (xs ! c) = key x" for c
    using assms(2) that by blast
  show "a = b"
    using ab u k fresh [of a] fresh [of b] uniq_keysD [OF assms(1), of a b]
    by (auto simp: nth_list_update_if split: if_splits)
qed

subsection \<open>Little-endian bytes\<close>

fun le_bytes :: "nat \<Rightarrow> nat \<Rightarrow> string" where
  "le_bytes 0 n = []"
| "le_bytes (Suc k) n = char_of (n mod 256) # le_bytes k (n div 256)"

fun le_value :: "string \<Rightarrow> nat" where
  "le_value [] = 0"
| "le_value (c # cs) = of_char c + 256 * le_value cs"

abbreviation le32 :: "u32 \<Rightarrow> string" where "le32 w \<equiv> le_bytes 4 (unat w)"
abbreviation le64 :: "u64 \<Rightarrow> string" where "le64 w \<equiv> le_bytes 8 (unat w)"

lemma length_le_bytes [simp]: "length (le_bytes k n) = k"
  by (induction k arbitrary: n) auto

lemma le_value_bytes: "n < 256 ^ k \<Longrightarrow> le_value (le_bytes k n) = n"
proof (induction k arbitrary: n)
  case 0
  then show ?case by simp
next
  case (Suc k)
  then have "n div 256 < 256 ^ k" by (simp add: div_less_iff_less_mult)
  with Suc.IH [of "n div 256"] show ?case by simp
qed

lemma le_value_less: "le_value bs < 256 ^ length bs"
proof (induction bs)
  case Nil
  then show ?case by simp
next
  case (Cons c bs)
  have step: "x + 256 * v < 256 * w" if "x < 256" "v < w" for x v w :: nat
    using that by linarith
  show ?case using step [OF nat_of_char_less_256 Cons] by simp
qed

lemma unat_u64_less: "unat (v :: u64) < 18446744073709551616"
  using unsigned_less [of v, where 'a = nat] by simp

lemma unat_u64_top: "unat (-1 :: u64) = 18446744073709551615"
  by (simp add: unsigned_minus_1_eq_mask mask_eq_exp_minus_1)

lemma u64_less_suc: "(v::u64) \<noteq> -1 \<Longrightarrow> v < v + 1 \<and> unat (v + 1) = unat v + 1"
proof -
  assume "v \<noteq> -1"
  then have "1 + v \<noteq> 0" by (metis add_eq_0_iff2 add.commute)
  then have "unat (v + 1) = unat v + 1" using unatSuc [of v] by (simp add: add.commute)
  then show ?thesis by (simp add: word_less_nat_alt)
qed

end
