(* ===== verification/CString.thy ===== *)
theory CString
  imports Prelude
begin

text \<open>
  kernel/string.c and the string helpers that agent.c, agent_context.c, agent_fs.c and
  agent_tool.c each carry a copy of (\<open>buf_putc\<close>, \<open>buf_puts\<close>, \<open>buf_putu\<close>, \<open>streq\<close>,
  \<open>param_value\<close>, ...). A C string is a list of characters; the end of the list reads as
  the terminating NUL, and a NUL inside the list terminates it too (\<open>cstr\<close> is the part the
  code can see). Destination buffers are lists of exactly the array's length. The target
  compiles \<open>char\<close> as unsigned, so a character is its code 0..255.
\<close>

abbreviation NUL :: char where
  "NUL \<equiv> CHR 0x00"

definition cstr :: "string \<Rightarrow> string" where
  "cstr s = takeWhile (\<lambda>c. c \<noteq> NUL) s"

definition ch :: "string \<Rightarrow> nat \<Rightarrow> char" where
  "ch s i = (if i < length s then s ! i else NUL)"

definition hd0 :: "string \<Rightarrow> char" where
  "hd0 s = (case s of [] \<Rightarrow> NUL | c # _ \<Rightarrow> c)"

definition uchar :: "char \<Rightarrow> int" where
  "uchar c = int (of_char c)"

lemma hd0_simps [simp]: "hd0 [] = NUL" "hd0 (c # s) = c"
  by (simp_all add: hd0_def)

lemma hd0_drop: "hd0 (drop i s) = ch s i"
  by (simp add: hd0_def ch_def split: list.splits)
     (metis Cons_nth_drop_Suc drop_all drop_eq_Nil leI list.distinct(1) list.inject)

lemma ch_simps [simp]: "ch [] i = NUL" "ch (c # s) 0 = c" "ch (c # s) (Suc i) = ch s i"
  by (simp_all add: ch_def)

lemma cstr_simps [simp]:
  "cstr [] = []" "cstr (c # s) = (if c = NUL then [] else c # cstr s)"
  by (simp_all add: cstr_def)

lemma cstr_cstr [simp]: "cstr (cstr s) = cstr s"
  by (induction s) auto

lemma cstr_no_NUL: "NUL \<notin> set (cstr s)"
  by (induction s) auto

lemma cstr_id: "NUL \<notin> set s \<Longrightarrow> cstr s = s"
  by (induction s) auto

lemma cstr_append_NUL: "NUL \<notin> set s \<Longrightarrow> cstr (s @ NUL # t) = s"
  by (induction s) auto

lemma cstr_append: "NUL \<notin> set s \<Longrightarrow> cstr (s @ t) = s @ cstr t"
  by (induction s) auto

lemma length_cstr_le: "length (cstr s) \<le> length s"
  by (induction s) auto

lemma cstr_take: "cstr (take n (cstr s)) = take n (cstr s)"
  by (rule cstr_id) (meson cstr_no_NUL in_set_takeD)

subsection \<open>kernel/string.c\<close>

fun strlen :: "string \<Rightarrow> nat" where
  "strlen [] = 0"
| "strlen (c # s) = (if c = NUL then 0 else Suc (strlen s))"

lemma strlen_cstr: "strlen s = length (cstr s)"
  by (induction s) auto

fun strncmp :: "string \<Rightarrow> string \<Rightarrow> nat \<Rightarrow> int" where
  "strncmp p q 0 = 0"
| "strncmp p q (Suc n) =
     (if hd0 p \<noteq> NUL \<and> hd0 p = hd0 q then strncmp (tl p) (tl q) n
      else uchar (hd0 p) - uchar (hd0 q))"

lemma uchar_inj: "uchar a = uchar b \<longleftrightarrow> a = b"
  unfolding uchar_def by simp

lemma strncmp_0_iff: "strncmp p q n = 0 \<longleftrightarrow> take n (cstr p) = take n (cstr q)"
proof (induction p q n rule: strncmp.induct)
  case (1 p q)
  then show ?case by simp
next
  case (2 p q n)
  then show ?case
    by (cases p; cases q) (auto simp: uchar_inj [of NUL] uchar_inj)
qed

text \<open>\<open>memset\<close> fills the first n bytes of the object.\<close>

fun memset :: "string \<Rightarrow> char \<Rightarrow> nat \<Rightarrow> string" where
  "memset d c 0 = d"
| "memset [] c (Suc n) = []"
| "memset (x # d) c (Suc n) = c # memset d c n"

lemma memset_spec: "n \<le> length d \<Longrightarrow> memset d c n = replicate n c @ drop n d"
  by (induction d c n rule: memset.induct) auto

fun memcmp :: "string \<Rightarrow> string \<Rightarrow> nat \<Rightarrow> int" where
  "memcmp v1 v2 0 = 0"
| "memcmp v1 v2 (Suc n) =
     (if hd0 v1 \<noteq> hd0 v2 then uchar (hd0 v1) - uchar (hd0 v2) else memcmp (tl v1) (tl v2) n)"

lemma memcmp_0_iff:
  "n \<le> length a \<Longrightarrow> n \<le> length b \<Longrightarrow> memcmp a b n = 0 \<longleftrightarrow> take n a = take n b"
  by (induction a b n rule: memcmp.induct) (auto simp: uchar_inj neq_Nil_conv Suc_le_length_iff)

text \<open>\<open>memmove\<close> on one memory \<open>m\<close>, destination \<open>d\<close> and source \<open>s\<close> given as
  indexes: backwards when the regions overlap with \<open>s < d\<close>, forwards otherwise.\<close>

fun memmove_fwd :: "string \<Rightarrow> nat \<Rightarrow> nat \<Rightarrow> nat \<Rightarrow> string" where
  "memmove_fwd m d s 0 = m"
| "memmove_fwd m d s (Suc n) = memmove_fwd (m[d := m ! s]) (Suc d) (Suc s) n"

fun memmove_bwd :: "string \<Rightarrow> nat \<Rightarrow> nat \<Rightarrow> nat \<Rightarrow> string" where
  "memmove_bwd m d s 0 = m"
| "memmove_bwd m d s (Suc n) = memmove_bwd (m[d + n := m ! (s + n)]) d s n"

definition memmove :: "string \<Rightarrow> nat \<Rightarrow> nat \<Rightarrow> nat \<Rightarrow> string" where
  "memmove m d s n =
     (if n = 0 then m
      else if s < d \<and> s + n > d then memmove_bwd m d s n
      else memmove_fwd m d s n)"

lemma length_memmove_fwd [simp]: "length (memmove_fwd m d s n) = length m"
  by (induction m d s n rule: memmove_fwd.induct) auto

lemma length_memmove_bwd [simp]: "length (memmove_bwd m d s n) = length m"
  by (induction m d s n rule: memmove_bwd.induct) auto

lemma nth_memmove_fwd:
  "d + n \<le> length m \<Longrightarrow> s + n \<le> length m \<Longrightarrow> d \<le> s \<or> s + n \<le> d \<Longrightarrow> i < length m \<Longrightarrow>
   memmove_fwd m d s n ! i = (if d \<le> i \<and> i < d + n then m ! (s + (i - d)) else m ! i)"
proof (induction m d s n rule: memmove_fwd.induct)
  case (1 m d s)
  then show ?case by auto
next
  case (2 m d s n)
  have IH: "memmove_fwd (m[d := m ! s]) (Suc d) (Suc s) n ! i =
      (if Suc d \<le> i \<and> i < Suc d + n then m[d := m ! s] ! (Suc s + (i - Suc d))
       else m[d := m ! s] ! i)"
    using "2.prems" by (intro "2.IH") auto
  show ?case
  proof (cases "i = d")
    case True
    with IH "2.prems" show ?thesis by simp
  next
    case False
    have eq: "Suc s + (i - Suc d) = s + (i - d)" if "d < i" using that by arith
    show ?thesis
      using False IH "2.prems" eq by (auto simp: nth_list_update)
  qed
qed

lemma nth_memmove_bwd:
  "d + n \<le> length m \<Longrightarrow> s < d \<Longrightarrow> i < length m \<Longrightarrow>
   memmove_bwd m d s n ! i = (if d \<le> i \<and> i < d + n then m ! (s + (i - d)) else m ! i)"
proof (induction m d s n rule: memmove_bwd.induct)
  case (1 m d s)
  then show ?case by auto
next
  case (2 m d s n)
  have IH: "memmove_bwd (m[d + n := m ! (s + n)]) d s n ! i =
      (if d \<le> i \<and> i < d + n then m[d + n := m ! (s + n)] ! (s + (i - d))
       else m[d + n := m ! (s + n)] ! i)"
    using "2.prems" by (intro "2.IH") auto
  then show ?case
    using "2.prems" by (auto simp: nth_list_update)
qed

text \<open>\<open>safestrcpy\<close> into a buffer of length \<open>n\<close>: note that after copying a NUL the code
  stores a second one behind it.\<close>

fun safestrcpy_loop :: "string \<Rightarrow> string \<Rightarrow> nat \<Rightarrow> string" where
  "safestrcpy_loop d t 0 = (case d of [] \<Rightarrow> [] | _ # d' \<Rightarrow> NUL # d')"
| "safestrcpy_loop d t (Suc n) =
     (case d of [] \<Rightarrow> []
      | _ # d' \<Rightarrow>
          if hd0 t \<noteq> NUL then hd0 t # safestrcpy_loop d' (tl t) n
          else NUL # (case d' of [] \<Rightarrow> [] | _ # d'' \<Rightarrow> NUL # d''))"

definition safestrcpy :: "string \<Rightarrow> string \<Rightarrow> int \<Rightarrow> string" where
  "safestrcpy d t n = (if n \<le> 0 then d else safestrcpy_loop d t (nat (n - 1)))"

fun strncpy_zero :: "string \<Rightarrow> nat \<Rightarrow> string" where
  "strncpy_zero d 0 = d"
| "strncpy_zero d (Suc n) = (case d of [] \<Rightarrow> [] | _ # d' \<Rightarrow> NUL # strncpy_zero d' n)"

fun strncpy :: "string \<Rightarrow> string \<Rightarrow> nat \<Rightarrow> string" where
  "strncpy d t 0 = d"
| "strncpy d t (Suc n) =
     (case d of [] \<Rightarrow> []
      | _ # d' \<Rightarrow>
          if hd0 t \<noteq> NUL then hd0 t # strncpy d' (tl t) n
          else NUL # strncpy_zero d' n)"

text \<open>The C string a \<open>char[n]\<close> array holds after \<open>safestrcpy(d, t, n)\<close>: fields that are
  char arrays are kept as this string in the state records of the development.\<close>

definition safestr :: "nat \<Rightarrow> string \<Rightarrow> string" where
  "safestr n t = take (n - 1) (cstr t)"

lemma cstr_safestrcpy_loop:
  "length d = Suc n \<Longrightarrow> cstr (safestrcpy_loop d t n) = take n (cstr t)"
proof (induction d t n rule: safestrcpy_loop.induct)
  case (1 d t)
  then show ?case by (cases d) auto
next
  case (2 d t n)
  then show ?case by (cases d; cases t) auto
qed

lemma length_safestrcpy_loop: "length (safestrcpy_loop d t n) = length d"
  by (induction d t n rule: safestrcpy_loop.induct) (auto split: list.splits)

lemma cstr_safestrcpy:
  "d \<noteq> [] \<Longrightarrow> cstr (safestrcpy d t (int (length d))) = safestr (length d) t"
  using cstr_safestrcpy_loop [of d "length d - 1" t]
  by (cases d) (auto simp: safestrcpy_def safestr_def)

lemma safestr_no_NUL: "NUL \<notin> set (safestr n t)"
  unfolding safestr_def by (meson cstr_no_NUL in_set_takeD)

lemma length_safestr: "0 < n \<Longrightarrow> length (safestr n t) < n"
  by (simp add: safestr_def)

lemma safestr_id: "length (cstr t) < n \<Longrightarrow> safestr n t = cstr t"
  by (simp add: safestr_def)

lemma cstr_safestr [simp]: "cstr (safestr n t) = safestr n t"
  by (rule cstr_id) (rule safestr_no_NUL)

subsection \<open>Comparison and search helpers\<close>

definition streq :: "string \<Rightarrow> string \<Rightarrow> bool" where
  "streq a b \<longleftrightarrow> strncmp a b (max (strlen a) (strlen b) + 1) = 0"

lemma streq_iff: "streq a b \<longleftrightarrow> cstr a = cstr b"
  unfolding streq_def strncmp_0_iff strlen_cstr by simp

lemma streq_refl [simp]: "streq a a"
  by (simp add: streq_iff)

lemma streq_sym: "streq a b = streq b a"
  by (auto simp: streq_iff)

fun str_contains_loop :: "string \<Rightarrow> string \<Rightarrow> bool" where
  "str_contains_loop [] needle = False"
| "str_contains_loop (c # s) needle =
     (if c = NUL then False
      else if strncmp (c # s) needle (strlen needle) = 0 then True
      else str_contains_loop s needle)"

definition str_contains :: "string \<Rightarrow> string \<Rightarrow> bool" where
  "str_contains s needle = (if strlen needle = 0 then True else str_contains_loop s needle)"

text \<open>\<open>str_find\<close>: the inner loop compares character by character, the outer one moves the
  start; the result is -1 when there is no match.\<close>

fun str_match :: "string \<Rightarrow> string \<Rightarrow> bool" where
  "str_match h [] = True"
| "str_match h (c # needle) = (if hd0 h = c then str_match (tl h) needle else False)"

fun str_find_loop :: "string \<Rightarrow> string \<Rightarrow> int \<Rightarrow> int" where
  "str_find_loop [] needle i = -1"
| "str_find_loop (c # h) needle i =
     (if c = NUL then -1
      else if str_match (c # h) (cstr needle) then i
      else str_find_loop h needle (i + 1))"

definition str_find :: "string \<Rightarrow> string \<Rightarrow> int" where
  "str_find haystack needle = (if strlen needle = 0 then 0 else str_find_loop haystack needle 0)"

lemma str_match_prefix:
  "NUL \<notin> set n \<Longrightarrow> str_match h n \<longleftrightarrow> take (length n) h = n"
proof (induction h n rule: str_match.induct)
  case (1 h)
  then show ?case by simp
next
  case (2 h c needle)
  then show ?case by (cases h) auto
qed

lemma str_find_loop_range: "str_find_loop h n i = -1 \<or> i \<le> str_find_loop h n i" if "-1 \<le> i"
  using that by (induction h n i rule: str_find_loop.induct) auto

lemma str_find_loop_hit:
  "0 \<le> i \<Longrightarrow> str_find_loop h n i = r \<Longrightarrow> r \<noteq> -1 \<Longrightarrow>
   take (length (cstr n)) (drop (nat (r - i)) h) = cstr n \<and> nat (r - i) < length (cstr h) \<and> i \<le> r"
proof (induction h n i rule: str_find_loop.induct)
  case (1 n i)
  then show ?case by simp
next
  case (2 c h n i)
  show ?case
  proof (cases "c = NUL \<or> str_match (c # h) (cstr n)")
    case True
    with 2 show ?thesis by (auto simp: str_match_prefix cstr_no_NUL split: if_splits)
  next
    case False
    have IH: "take (length (cstr n)) (drop (nat (r - (i + 1))) h) = cstr n \<and>
        nat (r - (i + 1)) < length (cstr h) \<and> i + 1 \<le> r"
      using 2 False by auto
    then have "nat (r - i) = Suc (nat (r - (i + 1)))" by arith
    with IH False show ?thesis by simp
  qed
qed

text \<open>A hit is the position of an occurrence of the needle.\<close>

lemma str_find_hit:
  assumes "str_find h n = r" "0 \<le> r"
  shows "take (length (cstr n)) (drop (nat r) h) = cstr n"
proof (cases "strlen n = 0")
  case True
  then show ?thesis by (simp add: strlen_cstr)
next
  case False
  with assms have "str_find_loop h n 0 = r" "r \<noteq> -1" by (auto simp: str_find_def)
  from str_find_loop_hit [OF _ this] show ?thesis by simp
qed

lemma str_find_bound: "str_find h n = r \<Longrightarrow> 0 \<le> r \<Longrightarrow> nat r \<le> length (cstr h)"
  using str_find_loop_hit [of 0 h n r] by (auto simp: str_find_def split: if_splits)

subsection \<open>Bounded output buffers: buf\_putc, buf\_puts, buf\_putu\<close>

text \<open>The writer's two variables: the text stored so far and \<open>left\<close>, the bytes left
  (the code keeps one byte for the NUL).\<close>

record sbuf =
  sb_str :: string
  sb_left :: int

definition sbuf_new :: "int \<Rightarrow> sbuf" where
  "sbuf_new n = \<lparr>sb_str = [], sb_left = n\<rparr>"

definition buf_putc :: "char \<Rightarrow> sbuf \<Rightarrow> sbuf" where
  "buf_putc c b =
     (if sb_left b \<le> 1 then b
      else b\<lparr>sb_str := sb_str b @ [c], sb_left := sb_left b - 1\<rparr>)"

fun buf_puts :: "string \<Rightarrow> sbuf \<Rightarrow> sbuf" where
  "buf_puts [] b = b"
| "buf_puts (c # s) b = (if c = NUL then b else buf_puts s (buf_putc c b))"

fun putu_digits :: "nat \<Rightarrow> u64 \<Rightarrow> string" where
  "putu_digits 0 v = []"
| "putu_digits (Suc k) v =
     (if 0 < v then char_of (48 + unat (v mod 10)) # putu_digits k (v div 10) else [])"

definition buf_putu :: "u64 \<Rightarrow> sbuf \<Rightarrow> sbuf" where
  "buf_putu v b =
     (if v = 0 then buf_putc (CHR ''0'') b
      else fold buf_putc (rev (putu_digits 24 v)) b)"

lemma buf_puts_spec:
  "buf_puts s b = \<lparr>sb_str = sb_str b @ take (nat (sb_left b - 1)) (cstr s),
      sb_left = sb_left b - int (length (take (nat (sb_left b - 1)) (cstr s)))\<rparr>"
proof (induction s b rule: buf_puts.induct)
  case (1 b)
  then show ?case by simp
next
  case (2 c s b)
  show ?case
  proof (cases "c = NUL \<or> sb_left b \<le> 1")
    case True
    with 2 show ?thesis by (auto simp: buf_putc_def)
  next
    case False
    then have "nat (sb_left b - 1) = Suc (nat (sb_left b - 2))" by arith
    with False 2 show ?thesis by (simp add: buf_putc_def)
  qed
qed

lemma fold_buf_putc: "NUL \<notin> set s \<Longrightarrow> fold buf_putc s b = buf_puts s b"
  by (induction s arbitrary: b) auto

text \<open>The invariant of a writer over a buffer of \<open>n\<close> bytes: text plus room is the size,
  and one byte is kept, so the result is always NUL-terminated inside the buffer.\<close>

definition sbuf_ok :: "int \<Rightarrow> sbuf \<Rightarrow> bool" where
  "sbuf_ok n b \<longleftrightarrow> int (length (sb_str b)) + sb_left b = n \<and> 1 \<le> sb_left b \<and> NUL \<notin> set (sb_str b)"

lemma sbuf_ok_new: "1 \<le> n \<Longrightarrow> sbuf_ok n (sbuf_new n)"
  by (simp add: sbuf_ok_def sbuf_new_def)

lemma sbuf_ok_putc: "sbuf_ok n b \<Longrightarrow> c \<noteq> NUL \<Longrightarrow> sbuf_ok n (buf_putc c b)"
  by (auto simp: sbuf_ok_def buf_putc_def)

lemma sbuf_ok_puts: "sbuf_ok n b \<Longrightarrow> sbuf_ok n (buf_puts s b)"
  by (induction s b rule: buf_puts.induct) (auto intro: sbuf_ok_putc)


text \<open>A sequence of \<open>buf_puts\<close>, \<open>buf_putu\<close> and \<open>buf_putc\<close> calls on the same buffer, in order.\<close>

datatype out = Str string | Num u64 | Chr char

primrec emit1 :: "out \<Rightarrow> sbuf \<Rightarrow> sbuf" where
  "emit1 (Str s) b = buf_puts s b"
| "emit1 (Num v) b = buf_putu v b"
| "emit1 (Chr c) b = buf_putc c b"

definition emit :: "out list \<Rightarrow> sbuf \<Rightarrow> sbuf" where
  "emit = fold emit1"

lemma emit_simps [simp]: "emit [] b = b" "emit (x # xs) b = emit xs (emit1 x b)" "emit (xs @ ys) b = emit ys (emit xs b)"
  by (simp_all add: emit_def)

end
