(* ===== verification/Params.thy ===== *)
theory Params
  imports CString
begin

text \<open>
  The textual protocol of the tool interface (kernel/agent\_tool.c and its copies): printing
  unsigned numbers, looking a key up in a \<open>k=v;k=v\<close> parameter string, parsing unsigned
  numbers, percent decoding. The main results: printing then parsing a 64-bit number is the
  identity, and the parameter lookup agrees with the association list the string encodes.
\<close>

subsection \<open>Decimal numbers\<close>

definition utoa :: "u64 \<Rightarrow> string" where
  "utoa v = (if v = 0 then ''0'' else rev (putu_digits 24 v))"

definition digit_code :: "char \<Rightarrow> int" where
  "digit_code c = uchar c - 48"

lemma unat_mod10: "unat ((v :: u64) mod 10) < 10"
  by (simp add: unat_mod)

lemma putu_digits_digit:
  "c \<in> set (putu_digits k v) \<Longrightarrow> \<exists>d < 10. c = char_of (48 + d :: nat)"
proof (induction k v rule: putu_digits.induct)
  case (1 v)
  then show ?case by simp
next
  case (2 k v)
  then show ?case using unat_mod10 [of v] by (auto split: if_splits)
qed

lemma of_char_digit: "d < 10 \<Longrightarrow> of_char (char_of (48 + d :: nat)) = (48 + d :: nat)"
  by simp

lemma digit_not_NUL: "d < 10 \<Longrightarrow> char_of (48 + d :: nat) \<noteq> NUL"
proof
  assume d: "d < 10" and "char_of (48 + d :: nat) = NUL"
  then have "of_char (char_of (48 + d :: nat)) = (of_char NUL :: nat)" by simp
  with d show False by simp
qed

lemma utoa_no_NUL: "NUL \<notin> set (utoa v)"
proof
  assume "NUL \<in> set (utoa v)"
  then have "NUL \<in> set (putu_digits 24 v)" by (auto simp: utoa_def split: if_splits)
  then obtain d :: nat where "d < 10" "NUL = char_of (48 + d)" using putu_digits_digit by blast
  then show False using digit_not_NUL [of d] by simp
qed

lemma buf_putu_utoa: "buf_putu v b = buf_puts (utoa v) b"
proof (cases "v = 0")
  case True
  then show ?thesis by (simp add: buf_putu_def utoa_def)
next
  case False
  with utoa_no_NUL [of v] have "NUL \<notin> set (rev (putu_digits 24 v))" by (simp add: utoa_def)
  from fold_buf_putc [OF this] False show ?thesis by (simp only: buf_putu_def utoa_def if_False)
qed

lemma length_putu_digits: "length (putu_digits k v) \<le> k"
  by (induction k v rule: putu_digits.induct) auto

text \<open>24 bytes are enough for every 64-bit number: the digit loop stops because the value is 0.\<close>

lemma putu_digits_less: "unat v < 10 ^ n \<Longrightarrow> n \<le> k \<Longrightarrow> length (putu_digits k v) \<le> n"
proof (induction k v arbitrary: n rule: putu_digits.induct)
  case (1 v)
  then show ?case by simp
next
  case (2 k v)
  show ?case
  proof (cases n)
    case 0
    with "2.prems" have "v = 0" by (simp add: unat_0_iff)
    then show ?thesis by simp
  next
    case (Suc m)
    with "2.prems" have "unat (v div 10) < 10 ^ m"
      by (simp add: unat_div less_mult_imp_div_less mult.commute)
    with "2.IH" [of m] "2.prems" Suc show ?thesis by simp
  qed
qed

lemma length_utoa: "length (utoa v) \<le> 20"
proof -
  have "unat v < 10 ^ 20" using unat_u64_less [of v] by simp
  then show ?thesis using putu_digits_less [of v 20 24] by (simp add: utoa_def)
qed

fun parse_digits :: "string \<Rightarrow> u64 \<Rightarrow> u64 option" where
  "parse_digits [] ret = Some ret"
| "parse_digits (c # s) ret =
     (if c = NUL then Some ret
      else if digit_code c < 0 \<or> 9 < digit_code c then None
      else parse_digits s (ret * 10 + of_nat (of_char c) - 48))"

lemma parse_digit_step:
  "d < 10 \<Longrightarrow> parse_digits (char_of (48 + d :: nat) # s) r = parse_digits s (r * 10 + of_nat d)"
proof -
  assume d: "d < 10"
  have u: "digit_code (char_of (48 + d :: nat)) = int d"
    unfolding digit_code_def uchar_def of_char_digit [OF d] by simp
  have w: "r * 10 + of_nat (of_char (char_of (48 + d :: nat))) - 48 = r * 10 + of_nat d"
    unfolding of_char_digit [OF d] by simp
  show ?thesis
    using d digit_not_NUL [OF d] by (simp only: parse_digits.simps u w) simp
qed

lemma word_div_mod_10: "(v div 10) * 10 + of_nat (unat (v mod 10)) = (v :: u64)"
  by (simp add: div_mult_mod_eq)

lemma parse_digits_putu:
  "unat v < 10 ^ k \<Longrightarrow>
   parse_digits (rev (putu_digits k v) @ s) r =
   parse_digits s (r * 10 ^ length (putu_digits k v) + v)"
proof (induction k v arbitrary: s r rule: putu_digits.induct)
  case (1 v)
  then show ?case by (simp add: unat_0_iff)
next
  case (2 k v)
  show ?case
  proof (cases "0 < v")
    case False
    then show ?thesis by (simp add: word_gt_0)
  next
    case True
    let ?n = "length (putu_digits k (v div 10))"
    have small: "unat (v div 10) < 10 ^ k"
      using "2.prems" by (simp add: unat_div less_mult_imp_div_less mult.commute)
    have "parse_digits (rev (putu_digits (Suc k) v) @ s) r =
        parse_digits (char_of (48 + unat (v mod 10)) # s) (r * 10 ^ ?n + v div 10)"
      using True "2.IH" [OF True small] by simp
    also have "\<dots> = parse_digits s ((r * 10 ^ ?n + v div 10) * 10 + of_nat (unat (v mod 10)))"
      by (rule parse_digit_step) (rule unat_mod10)
    also have "(r * 10 ^ ?n + v div 10) * 10 + of_nat (unat (v mod 10)) =
        r * 10 ^ Suc ?n + ((v div 10) * 10 + of_nat (unat (v mod 10)))"
      by (simp only: algebra_simps power_Suc)
    also have "\<dots> = r * 10 ^ Suc ?n + v"
      by (simp only: word_div_mod_10)
    finally show ?thesis using True by simp
  qed
qed

lemma parse_utoa: "parse_digits (utoa v) 0 = Some v"
proof (cases "v = 0")
  case True
  then show ?thesis by (simp add: utoa_def digit_code_def uchar_def)
next
  case False
  have "unat v < 10 ^ 24" using unat_u64_less [of v] by simp
  from parse_digits_putu [OF this, of "[]" 0] False show ?thesis by (simp add: utoa_def)
qed

subsection \<open>Looking a key up in a parameter string\<close>

definition stops :: "char \<Rightarrow> bool" where
  "stops c \<longleftrightarrow> c = NUL \<or> c = CHR '';''"

definition value_at :: "string \<Rightarrow> int \<Rightarrow> string" where
  "value_at p outsz = take (nat (outsz - 1)) (takeWhile (\<lambda>c. \<not> stops c) p)"

definition skip_param :: "string \<Rightarrow> string" where
  "skip_param p =
     (let q = dropWhile (\<lambda>c. \<not> stops c) p in if hd0 q = CHR '';'' then tl q else q)"

lemma length_dropWhile_le': "length (dropWhile P xs) \<le> length xs"
  by (induction xs) auto

lemma skip_param_le: "length (skip_param p) \<le> length p"
  unfolding skip_param_def Let_def
  using length_dropWhile_le' [of "\<lambda>c. \<not> stops c" p] by (simp add: le_diff_conv)

lemma skip_param_Cons:
  "skip_param (c # s) =
     (if stops c then (if c = CHR '';'' then s else c # s) else skip_param s)"
  by (simp add: skip_param_def)

lemma skip_param_less: "hd0 p \<noteq> NUL \<Longrightarrow> length (skip_param p) < length p"
  by (cases p) (auto simp: skip_param_Cons stops_def le_imp_less_Suc skip_param_le)

text \<open>The result is \<open>None\<close> for the code's -1 (\<open>out\<close> is then the empty string).\<close>

function param_value :: "string \<Rightarrow> string \<Rightarrow> int \<Rightarrow> string option" where
  "param_value p key outsz =
     (if hd0 p = NUL then None
      else if strncmp p key (strlen key) = 0 \<and> ch p (strlen key) = CHR ''=''
      then Some (value_at (drop (Suc (strlen key)) p) outsz)
      else param_value (skip_param p) key outsz)"
  by pat_completeness auto
termination
  by (relation "measure (\<lambda>(p, key, outsz). length p)") (auto simp: skip_param_less)

declare param_value.simps [simp del]

definition parse_uint_param :: "string \<Rightarrow> string \<Rightarrow> u64 option" where
  "parse_uint_param params key =
     (case param_value params key 32 of
        None \<Rightarrow> None
      | Some tmp \<Rightarrow> if hd0 tmp = NUL then None else parse_digits tmp 0)"

text \<open>The parameter string of an association list, as user programs write it.\<close>

fun render_params :: "(string \<times> string) list \<Rightarrow> string" where
  "render_params [] = []"
| "render_params ((k, v) # kvs) = k @ CHR ''='' # v @ CHR '';'' # render_params kvs"

definition plain_key :: "string \<Rightarrow> bool" where
  "plain_key k \<longleftrightarrow> k \<noteq> [] \<and> NUL \<notin> set k \<and> CHR ''='' \<notin> set k \<and> CHR '';'' \<notin> set k"

definition plain_value :: "string \<Rightarrow> bool" where
  "plain_value v \<longleftrightarrow> NUL \<notin> set v \<and> CHR '';'' \<notin> set v"

lemma skip_param_render:
  "plain_key k \<Longrightarrow> plain_value v \<Longrightarrow> skip_param (k @ CHR ''='' # v @ CHR '';'' # rest) = rest"
proof -
  assume kv: "plain_key k" "plain_value v"
  have *: "dropWhile (\<lambda>c. \<not> stops c) (xs @ CHR '';'' # rest) = CHR '';'' # rest"
    if "NUL \<notin> set xs" "CHR '';'' \<notin> set xs" for xs
    using that by (induction xs) (auto simp: stops_def)
  have "dropWhile (\<lambda>c. \<not> stops c) (k @ CHR ''='' # v @ CHR '';'' # rest) = CHR '';'' # rest"
    using kv * [of "k @ CHR ''='' # v"] by (simp add: plain_key_def plain_value_def)
  then show ?thesis by (simp add: skip_param_def)
qed

lemma value_at_render:
  "plain_value v \<Longrightarrow> value_at (v @ CHR '';'' # rest) n = take (nat (n - 1)) v"
proof -
  assume v: "plain_value v"
  have "takeWhile (\<lambda>c. \<not> stops c) (v @ CHR '';'' # rest) = v"
    using v by (induction v) (auto simp: stops_def plain_value_def)
  then show ?thesis by (simp add: value_at_def)
qed

text \<open>A key matches the head of a rendered string exactly when it is the first key.\<close>

lemma key_match_render:
  assumes k: "plain_key k" and key: "plain_key key"
  shows "strncmp (k @ CHR ''='' # rest) key (strlen key) = 0 \<and>
         ch (k @ CHR ''='' # rest) (strlen key) = CHR ''='' \<longleftrightarrow> k = key"
proof
  assume m: "strncmp (k @ CHR ''='' # rest) key (strlen key) = 0 \<and>
         ch (k @ CHR ''='' # rest) (strlen key) = CHR ''=''"
  let ?n = "length key"
  have kc: "cstr key = key" "strlen key = ?n"
    using key by (auto simp: plain_key_def cstr_id strlen_cstr)
  have pre: "take ?n (cstr (k @ CHR ''='' # rest)) = key"
    using m kc by (simp add: strncmp_0_iff)
  have "cstr (k @ CHR ''='' # rest) = k @ CHR ''='' # cstr rest"
    using k by (simp add: plain_key_def cstr_append)
  with pre have pre': "take ?n (k @ CHR ''='' # cstr rest) = key" by simp
  have le: "?n \<le> length k"
  proof (rule ccontr)
    assume "\<not> ?n \<le> length k"
    then have "CHR ''='' \<in> set (take ?n (k @ CHR ''='' # cstr rest))"
      by (simp add: take_Cons')
    with pre' key show False by (simp add: plain_key_def)
  qed
  moreover have "\<not> ?n < length k"
  proof
    assume lt: "?n < length k"
    with m kc have "k ! ?n = CHR ''=''" by (simp add: ch_def nth_append)
    with lt k show False unfolding plain_key_def by (metis nth_mem)
  qed
  ultimately show "k = key" using pre' by simp
next
  assume "k = key"
  with key show "strncmp (k @ CHR ''='' # rest) key (strlen key) = 0 \<and>
         ch (k @ CHR ''='' # rest) (strlen key) = CHR ''=''"
    by (auto simp: plain_key_def strncmp_0_iff strlen_cstr cstr_id cstr_append ch_def)
qed

lemma hd0_plain: "plain_key k \<Longrightarrow> hd0 (k @ s) \<noteq> NUL"
  by (cases k) (auto simp: plain_key_def)

lemma param_value_render:
  assumes "\<And>k v. (k, v) \<in> set kvs \<Longrightarrow> plain_key k \<and> plain_value v" and "plain_key key"
  shows "param_value (render_params kvs) key n = map_option (take (nat (n - 1))) (map_of kvs key)"
  using assms(1)
proof (induction kvs)
  case Nil
  then show ?case by (simp add: param_value.simps)
next
  case (Cons kv kvs)
  obtain k v where kv: "kv = (k, v)" by force
  have pl: "plain_key k" "plain_value v" using Cons.prems kv by auto
  have IH: "param_value (render_params kvs) key n = map_option (take (nat (n - 1))) (map_of kvs key)"
    using Cons.IH Cons.prems by auto
  let ?p = "k @ CHR ''='' # v @ CHR '';'' # render_params kvs"
  show ?case
  proof (cases "k = key")
    case True
    have "strlen key = length key" using assms(2) by (simp add: plain_key_def strlen_cstr cstr_id)
    then have "drop (Suc (strlen key)) ?p = v @ CHR '';'' # render_params kvs" using True by simp
    then have "param_value ?p key n = Some (value_at (v @ CHR '';'' # render_params kvs) n)"
      using key_match_render [OF pl(1) assms(2), of "v @ CHR '';'' # render_params kvs"]
        hd0_plain [OF pl(1)] True
      by (subst param_value.simps) (simp del: drop_append)
    with True pl kv show ?thesis by (simp add: value_at_render)
  next
    case False
    with pl kv IH show ?thesis
      using key_match_render [OF pl(1) assms(2), of "v @ CHR '';'' # render_params kvs"] hd0_plain [OF pl(1)]
      by (auto simp: param_value.simps [of ?p] skip_param_render)
  qed
qed

lemma param_value_bound: "param_value p key n = Some v \<Longrightarrow> 1 \<le> n \<Longrightarrow> int (length v) \<le> n - 1 \<and> NUL \<notin> set v"
proof (induction p key n rule: param_value.induct)
  case (1 p key n)
  have "NUL \<notin> set (value_at q n)" for q
    by (auto simp: value_at_def dest!: in_set_takeD set_takeWhileD simp: stops_def)
  with 1 show ?case
    by (auto simp: param_value.simps [of p] value_at_def split: if_splits)
qed

subsection \<open>Percent decoding\<close>

definition hexval :: "char \<Rightarrow> int" where
  "hexval c =
     (let u = uchar c in
      if 48 \<le> u \<and> u \<le> 57 then u - 48
      else if 97 \<le> u \<and> u \<le> 102 then u - 97 + 10
      else if 65 \<le> u \<and> u \<le> 70 then u - 65 + 10
      else -1)"

text \<open>The decoded characters, at most \<open>room\<close> of them; \<open>dst[i] = 0\<close> ends the string,
  so a decoded NUL cuts what later code sees.\<close>

fun percent_decode_loop :: "string \<Rightarrow> nat \<Rightarrow> string" where
  "percent_decode_loop [] room = []"
| "percent_decode_loop s 0 = []"
| "percent_decode_loop (c # s) (Suc room) =
     (if c = NUL then []
      else if c = CHR ''%'' \<and> ch s 0 \<noteq> NUL \<and> ch s 1 \<noteq> NUL \<and>
              0 \<le> hexval (ch s 0) \<and> 0 \<le> hexval (ch s 1)
      then char_of (nat (hexval (ch s 0)) * 16 + nat (hexval (ch s 1))) #
           percent_decode_loop (drop 2 s) room
      else (if c = CHR ''+'' then CHR '' '' else c) # percent_decode_loop s room)"

definition percent_decode :: "string \<Rightarrow> int \<Rightarrow> string" where
  "percent_decode src dstsz = (if dstsz \<le> 0 then [] else cstr (percent_decode_loop src (nat (dstsz - 1))))"

lemma length_percent_decode_loop: "length (percent_decode_loop s n) \<le> n"
  by (induction s n rule: percent_decode_loop.induct) auto

lemma percent_decode_bound: "0 < n \<Longrightarrow> int (length (percent_decode s n)) < n"
  using length_percent_decode_loop [of s "nat (n - 1)"] length_cstr_le [of "percent_decode_loop s (nat (n - 1))"]
  by (auto simp: percent_decode_def)

lemma percent_decode_plain:
  "\<forall>c \<in> set s. c \<noteq> NUL \<and> c \<noteq> CHR ''%'' \<and> c \<noteq> CHR ''+'' \<Longrightarrow> percent_decode_loop s n = take n s"
  by (induction s n rule: percent_decode_loop.induct) auto

text \<open>An encoder of the escapes the decoder understands: every character as \<open>%XY\<close>.\<close>

definition hexdigit :: "nat \<Rightarrow> char" where
  "hexdigit d = char_of (if d < 10 then 48 + d else 87 + d)"

fun percent_encode :: "string \<Rightarrow> string" where
  "percent_encode [] = []"
| "percent_encode (c # s) =
     CHR ''%'' # hexdigit (of_char c div 16) # hexdigit (of_char c mod 16) # percent_encode s"

lemma of_char_hexdigit: "d < 16 \<Longrightarrow> of_char (hexdigit d) = (if d < 10 then 48 + d else 87 + d :: nat)"
  unfolding hexdigit_def by simp

lemma hexval_hexdigit: "d < 16 \<Longrightarrow> hexval (hexdigit d) = int d"
  unfolding hexval_def uchar_def by (simp add: of_char_hexdigit)

lemma hexdigit_not_NUL: "d < 16 \<Longrightarrow> hexdigit d \<noteq> NUL"
  using of_char_hexdigit [of d] by (auto split: if_splits dest: arg_cong [of _ _ "of_char :: char \<Rightarrow> nat"])

lemma percent_decode_encode: "percent_decode_loop (percent_encode s) n = take n s"
proof (induction s arbitrary: n)
  case Nil
  then show ?case by simp
next
  case (Cons c s)
  have lt: "of_char c div 16 < (16 :: nat)" "of_char c mod 16 < (16 :: nat)"
    using nat_of_char_less_256 [of c] by (auto intro: less_mult_imp_div_less)
  have c: "char_of (of_char c div 16 * 16 + of_char c mod 16 :: nat) = c"
    by (simp only: div_mult_mod_eq) simp
  show ?case
    using Cons.IH lt c by (cases n) (simp_all add: hexval_hexdigit hexdigit_not_NUL)
qed

subsection \<open>Properties\<close>

text \<open>The text a sequence of writer calls stands for, in a buffer without end.\<close>

primrec out_text :: "out \<Rightarrow> string" where
  "out_text (Str s) = cstr s"
| "out_text (Num v) = utoa v"
| "out_text (Chr c) = [c]"

lemma emit1_out_text: "x \<noteq> Chr NUL \<Longrightarrow> emit1 x b = buf_puts (out_text x) b \<and> NUL \<notin> set (out_text x)"
proof (cases x)
  case (Str s)
  then show ?thesis by (simp add: cstr_no_NUL) (simp add: buf_puts_spec)
qed (simp_all add: buf_putu_utoa utoa_no_NUL)

lemma buf_puts_append: "NUL \<notin> set s \<Longrightarrow> buf_puts t (buf_puts s b) = buf_puts (s @ t) b"
  by (induction s arbitrary: b) auto

lemma emit_out_text:
  "Chr NUL \<notin> set xs \<Longrightarrow> emit xs b = buf_puts (concat (map out_text xs)) b \<and> NUL \<notin> set (concat (map out_text xs))"
proof (induction xs arbitrary: b)
  case Nil
  then show ?case by simp
next
  case (Cons x xs)
  then have x: "emit1 x b = buf_puts (out_text x) b" "NUL \<notin> set (out_text x)" using emit1_out_text by auto
  with Cons show ?case by (simp add: buf_puts_append)
qed

lemma emit_text:
  assumes "1 \<le> n" and "Chr NUL \<notin> set xs"
  shows "sb_str (emit xs (sbuf_new n)) = take (nat (n - 1)) (concat (map out_text xs))"
    "NUL \<notin> set (sb_str (emit xs (sbuf_new n)))" "sbuf_ok n (emit xs (sbuf_new n))"
proof -
  let ?t = "concat (map out_text xs)"
  have e: "emit xs (sbuf_new n) = buf_puts ?t (sbuf_new n)" "NUL \<notin> set ?t"
    using emit_out_text [OF assms(2), of "sbuf_new n"] by simp_all
  show "sbuf_ok n (emit xs (sbuf_new n))" unfolding e(1) by (rule sbuf_ok_puts [OF sbuf_ok_new [OF assms(1)]])
  show c: "sb_str (emit xs (sbuf_new n)) = take (nat (n - 1)) ?t"
    unfolding e(1) using e(2) by (simp add: buf_puts_spec sbuf_new_def cstr_id del: set_concat)
  show "NUL \<notin> set (sb_str (emit xs (sbuf_new n)))"
    unfolding c using e(2) by (auto dest: in_set_takeD simp del: set_concat)
qed

text \<open>C28 (emit_cut_to_buffer). The writers never leave their buffer and never lose a character that fits: any
  sequence of string, number and character writes into an empty buffer of \<open>n\<close> bytes leaves exactly the first
  \<open>n - 1\<close> characters of the full text, so there is room for the NUL.\<close>

theorem emit_cut_to_buffer:
  assumes "1 \<le> n" and "Chr NUL \<notin> set xs"
  shows "sb_str (emit xs (sbuf_new n)) = take (nat (n - 1)) (concat (map out_text xs)) \<and>
    int (length (sb_str (emit xs (sbuf_new n)))) + sb_left (emit xs (sbuf_new n)) = n \<and>
    1 \<le> sb_left (emit xs (sbuf_new n))"
  using emit_text [OF assms] unfolding sbuf_ok_def by simp

theorem emit_cut_to_buffer_witness:
  "sb_str (emit [Str ''id='', Num 42, Chr CHR ''}''] (sbuf_new 6)) = ''id=42''"
proof -
  have "utoa 42 = ''42''" by code_simp
  then show ?thesis
    using emit_cut_to_buffer [of 6 "[Str ''id='', Num 42, Chr CHR ''}'']"] by simp
qed

text \<open>C27 (params_roundtrip). A parameter string written from an association list of plain keys and values gives
  back, for every plain key, the value of its first binding (cut to the caller's buffer), and nothing for a key
  without one.\<close>

theorem params_roundtrip:
  assumes "\<forall>(k, v) \<in> set kvs. plain_key k \<and> plain_value v" and "plain_key key"
  shows "param_value (render_params kvs) key n = map_option (take (nat (n - 1))) (map_of kvs key)"
  using param_value_render [where kvs = kvs and key = key and n = n] assms by auto

theorem params_roundtrip_witness:
  "param_value (render_params [(''path'', ''a.c''), (''op'', ''replace'')]) ''op'' 16 = Some ''replace''"
  using params_roundtrip [of "[(''path'', ''a.c''), (''op'', ''replace'')]" "''op''" 16]
  by (simp add: plain_key_def plain_value_def)

lemma utoa_plain: "utoa w \<noteq> [] \<and> NUL \<notin> set (utoa w) \<and> CHR '';'' \<notin> set (utoa w)"
proof -
  have "utoa w \<noteq> []" by (auto simp: utoa_def word_gt_0 numeral_eq_Suc)
  moreover have "CHR '';'' \<notin> set (utoa w)"
  proof
    assume "CHR '';'' \<in> set (utoa w)"
    then have "CHR '';'' \<in> set (putu_digits 24 w)" by (auto simp: utoa_def split: if_splits)
    then obtain d :: nat where d: "d < 10" "CHR '';'' = char_of (48 + d)" using putu_digits_digit by blast
    then have "(of_char (CHR '';'') :: nat) = 48 + d" using of_char_digit [of d] by metis
    moreover have "(of_char (CHR '';'') :: nat) = 59" by simp
    ultimately show False using d(1) by linarith
  qed
  ultimately show ?thesis using utoa_no_NUL by blast
qed

text \<open>A number parameter written in decimal is read back as the same 64-bit number:
  printing with \<open>buf_putu\<close> and parsing with \<open>parse_uint_param\<close> are inverse for every value.\<close>

theorem uint_param_roundtrip:
  assumes "\<forall>(k, w) \<in> set kvs. plain_key k" and "plain_key key" and "map_of kvs key = Some v"
  shows "parse_uint_param (render_params (map (\<lambda>(k, w). (k, sb_str (buf_putu w (sbuf_new 32)))) kvs)) key = Some v"
proof -
  have digits: "utoa w \<noteq> [] \<and> NUL \<notin> set (utoa w) \<and> CHR '';'' \<notin> set (utoa w)" for w
    using utoa_plain by blast
  have t: "sb_str (buf_putu w (sbuf_new 32)) = utoa w" for w
    using length_utoa [of w] digits [of w] by (simp add: buf_putu_utoa buf_puts_spec sbuf_new_def cstr_id)
  let ?kvs = "map (\<lambda>(k, w). (k, utoa w)) kvs"
  have m: "map_of ?kvs key = Some (utoa v)" using assms(3) by (simp add: map_of_map)
  have pl: "\<And>k x. (k, x) \<in> set ?kvs \<Longrightarrow> plain_key k \<and> plain_value x"
    using assms(1) digits by (auto simp: plain_value_def)
  have "param_value (render_params ?kvs) key 32 = Some (utoa v)"
    using param_value_render [where kvs = ?kvs and n = 32, OF pl assms(2)] m length_utoa [of v] by simp
  moreover have "hd0 (utoa v) \<noteq> NUL" using digits [of v] by (cases "utoa v") auto
  ultimately show ?thesis by (simp add: parse_uint_param_def parse_utoa t)
qed

theorem uint_param_roundtrip_witness:
  "parse_uint_param (render_params [(''lease_id'', sb_str (buf_putu 18446744073709551615 (sbuf_new 32)))]) ''lease_id''
     = Some 18446744073709551615"
  using uint_param_roundtrip [of "[(''lease_id'', 18446744073709551615)]" "''lease_id''" 18446744073709551615]
  by (simp add: plain_key_def)

text \<open>Percent decoding undoes percent encoding for every string (all bytes but NUL, also
  \<open>%\<close>, \<open>+\<close>, \<open>;\<close> and \<open>=\<close>), cut to the size of the target.\<close>

theorem percent_roundtrip:
  assumes "0 < n" and "NUL \<notin> set s"
  shows "percent_decode (percent_encode s) n = take (nat (n - 1)) s"
proof -
  have "NUL \<notin> set (take (nat (n - 1)) s)" using assms(2) in_set_takeD by fastforce
  with assms(1) show ?thesis by (simp add: percent_decode_def percent_decode_encode cstr_id)
qed

theorem percent_roundtrip_witness: "percent_decode (percent_encode ''a=b;c%d'') 16 = ''a=b;c%d''"
  using percent_roundtrip [of 16 "''a=b;c%d''"] by simp

end
