(* ===== verification/AgentTypes.thy ===== *)
theory AgentTypes
  imports CString
begin

text \<open>
  The data of the kernel's agent subsystem: the constants and structures of kernel/agent.h, the
  process and the global agent state of kernel/proc.h, the tool tables of kernel/agent\_tool.c
  and the file index of kernel/agent\_fs.c. Char arrays are kept as the C string they hold, bit
  masks and unsigned fields as words of the C width, signed fields as integers (no field below
  can leave the range of \<open>int\<close>; where a cast matters it is written out in the code that does
  it). A pointer into \<open>proc[]\<close> is the index of the slot. Locks are not represented: every
  definition of the development is one critical section of the code, and the places where the
  code gives the processor away inside a function are separate steps.
\<close>

subsection \<open>Constants of kernel/agent.h, kernel/param.h and kernel/agent\_fs.c\<close>

abbreviation (input) AGENT_CONTEXT_REGION_SIZE :: nat where "AGENT_CONTEXT_REGION_SIZE \<equiv> 8192"
abbreviation (input) AGENT_CONTEXT_HEADER_MAGIC :: u32 where "AGENT_CONTEXT_HEADER_MAGIC \<equiv> 0x41474e54"
abbreviation (input) AGENT_CONTEXT_HEADER_VERSION :: u32 where "AGENT_CONTEXT_HEADER_VERSION \<equiv> 2"

abbreviation (input) AGENT_TYPE_NORMAL :: int where "AGENT_TYPE_NORMAL \<equiv> 0"
abbreviation (input) AGENT_TYPE_PRIMARY :: int where "AGENT_TYPE_PRIMARY \<equiv> 1"
abbreviation (input) AGENT_TYPE_WORKER :: int where "AGENT_TYPE_WORKER \<equiv> 2"

abbreviation (input) AGENT_LOOP_IDLE :: int where "AGENT_LOOP_IDLE \<equiv> 0"
abbreviation (input) AGENT_LOOP_READY :: int where "AGENT_LOOP_READY \<equiv> 1"
abbreviation (input) AGENT_LOOP_RUNNING :: int where "AGENT_LOOP_RUNNING \<equiv> 2"
abbreviation (input) AGENT_LOOP_WAITING :: int where "AGENT_LOOP_WAITING \<equiv> 3"
abbreviation (input) AGENT_LOOP_ROLLED_BACK :: int where "AGENT_LOOP_ROLLED_BACK \<equiv> 4"
abbreviation (input) AGENT_LOOP_DONE :: int where "AGENT_LOOP_DONE \<equiv> 5"

abbreviation (input) AGENT_EVENT_NONE :: u32 where "AGENT_EVENT_NONE \<equiv> 0"
abbreviation (input) AGENT_EVENT_HEARTBEAT :: u32 where "AGENT_EVENT_HEARTBEAT \<equiv> 1"
abbreviation (input) AGENT_EVENT_MESSAGE :: u32 where "AGENT_EVENT_MESSAGE \<equiv> 2"
abbreviation (input) AGENT_EVENT_FILEMOD :: u32 where "AGENT_EVENT_FILEMOD \<equiv> 4"
abbreviation (input) AGENT_EVENT_PARENT_GONE :: u32 where "AGENT_EVENT_PARENT_GONE \<equiv> 8"
abbreviation (input) AGENT_WATCH_MESSAGE :: u32 where "AGENT_WATCH_MESSAGE \<equiv> 2"
abbreviation (input) AGENT_WATCH_FILEMOD :: u32 where "AGENT_WATCH_FILEMOD \<equiv> 4"

abbreviation (input) AGENT_TOOL_FLAG_PUBLIC :: u32 where "AGENT_TOOL_FLAG_PUBLIC \<equiv> 1"
abbreviation (input) AGENT_TOOL_NAME_MAX :: nat where "AGENT_TOOL_NAME_MAX \<equiv> 32"
abbreviation (input) AGENT_TOOL_PARAM_MAX :: nat where "AGENT_TOOL_PARAM_MAX \<equiv> 128"
abbreviation (input) AGENT_TOOL_RESULT_MAX :: nat where "AGENT_TOOL_RESULT_MAX \<equiv> 512"
abbreviation (input) AGENT_CONTEXT_REQ_MAX :: nat where "AGENT_CONTEXT_REQ_MAX \<equiv> 96"
abbreviation (input) AGENT_CONTEXT_RES_MAX :: nat where "AGENT_CONTEXT_RES_MAX \<equiv> 160"
abbreviation (input) AGENT_CONTEXT_MAX_NODES :: nat where "AGENT_CONTEXT_MAX_NODES \<equiv> 16"
abbreviation (input) AGENT_MESSAGE_MAX :: nat where "AGENT_MESSAGE_MAX \<equiv> 128"
abbreviation (input) AGENT_DYNAMIC_TOOL_MAX :: nat where "AGENT_DYNAMIC_TOOL_MAX \<equiv> 8"
abbreviation (input) AGENT_DYNAMIC_REQUEST_MAX :: nat where "AGENT_DYNAMIC_REQUEST_MAX \<equiv> 8"
abbreviation (input) AGENT_MAILBOX_CAP :: int where "AGENT_MAILBOX_CAP \<equiv> 8"
abbreviation (input) AGENT_MESSAGE_TYPE_NORMAL :: int where "AGENT_MESSAGE_TYPE_NORMAL \<equiv> 0"
abbreviation (input) AGENT_MESSAGE_TYPE_SYSTEM :: int where "AGENT_MESSAGE_TYPE_SYSTEM \<equiv> 1"
abbreviation (input) AGENT_MAILBOX_SYSTEM_SLOTS :: int where "AGENT_MAILBOX_SYSTEM_SLOTS \<equiv> 2"
abbreviation (input) AGENT_LEASE_MAX :: nat where "AGENT_LEASE_MAX \<equiv> 8"
abbreviation (input) AGENT_LEASE_EXPIRY_TICKS :: u64 where "AGENT_LEASE_EXPIRY_TICKS \<equiv> 200"

abbreviation (input) AGENT_CAP_QUERY_PROCESS :: u64 where "AGENT_CAP_QUERY_PROCESS \<equiv> 1"
abbreviation (input) AGENT_CAP_QUERY_FILE :: u64 where "AGENT_CAP_QUERY_FILE \<equiv> 2"
abbreviation (input) AGENT_CAP_READ_FILE :: u64 where "AGENT_CAP_READ_FILE \<equiv> 4"
abbreviation (input) AGENT_CAP_PATCH_FILE :: u64 where "AGENT_CAP_PATCH_FILE \<equiv> 8"
abbreviation (input) AGENT_CAP_SEND_MESSAGE :: u64 where "AGENT_CAP_SEND_MESSAGE \<equiv> 16"
abbreviation (input) AGENT_CAP_WATCH_FILE :: u64 where "AGENT_CAP_WATCH_FILE \<equiv> 32"
abbreviation (input) AGENT_CAP_REGISTER_TOOL :: u64 where "AGENT_CAP_REGISTER_TOOL \<equiv> 64"
abbreviation (input) AGENT_CAP_SCHED_CONFIG :: u64 where "AGENT_CAP_SCHED_CONFIG \<equiv> 128"
abbreviation (input) AGENT_CAP_LEASE_ACQUIRE :: u64 where "AGENT_CAP_LEASE_ACQUIRE \<equiv> 256"
abbreviation (input) AGENT_CAP_WORKFLOW_CTRL :: u64 where "AGENT_CAP_WORKFLOW_CTRL \<equiv> 512"
abbreviation (input) AGENT_CAP_AUDIT_READ :: u64 where "AGENT_CAP_AUDIT_READ \<equiv> 1024"
abbreviation (input) AGENT_CAP_ALL :: u64 where "AGENT_CAP_ALL \<equiv> 2047"

abbreviation (input) AGENT_ROLE_UNSET :: int where "AGENT_ROLE_UNSET \<equiv> -1"
abbreviation (input) AGENT_ROLE_PLANNER :: int where "AGENT_ROLE_PLANNER \<equiv> 0"
abbreviation (input) AGENT_ROLE_TOOL_SERVICE :: int where "AGENT_ROLE_TOOL_SERVICE \<equiv> 5"

abbreviation (input) AGENT_CONTEXT_DIGEST_MAX :: nat where "AGENT_CONTEXT_DIGEST_MAX \<equiv> 16"
abbreviation (input) AGENT_CONTEXT_VALID :: int where "AGENT_CONTEXT_VALID \<equiv> 0"
abbreviation (input) AGENT_CONTEXT_STALE :: int where "AGENT_CONTEXT_STALE \<equiv> 1"
abbreviation (input) AGENT_CONTEXT_NO_DEP :: int where "AGENT_CONTEXT_NO_DEP \<equiv> 2"
abbreviation (input) AGENT_CONTEXT_NOT_FOUND :: int where "AGENT_CONTEXT_NOT_FOUND \<equiv> 3"
abbreviation (input) AGENT_CONTEXT_DELETED :: int where "AGENT_CONTEXT_DELETED \<equiv> 4"
abbreviation (input) AGENT_HEARTBEAT_WHEEL_BUCKETS :: int where "AGENT_HEARTBEAT_WHEEL_BUCKETS \<equiv> 64"
abbreviation (input) AGENT_HEARTBEAT_WHEEL_MASK :: u64 where "AGENT_HEARTBEAT_WHEEL_MASK \<equiv> 63"

abbreviation (input) AGENT_TOOL_OK :: int where "AGENT_TOOL_OK \<equiv> 0"
abbreviation (input) AGENT_TOOL_ERR_TOOL_NOT_FOUND :: int where "AGENT_TOOL_ERR_TOOL_NOT_FOUND \<equiv> -1"
abbreviation (input) AGENT_TOOL_ERR_BAD_PARAM :: int where "AGENT_TOOL_ERR_BAD_PARAM \<equiv> -2"
abbreviation (input) AGENT_TOOL_ERR_NOT_AGENT :: int where "AGENT_TOOL_ERR_NOT_AGENT \<equiv> -3"
abbreviation (input) AGENT_TOOL_ERR_NO_SPACE :: int where "AGENT_TOOL_ERR_NO_SPACE \<equiv> -4"
abbreviation (input) AGENT_TOOL_ERR_BUSY :: int where "AGENT_TOOL_ERR_BUSY \<equiv> -5"
abbreviation (input) AGENT_TOOL_ERR_PERMISSION :: int where "AGENT_TOOL_ERR_PERMISSION \<equiv> -6"
abbreviation (input) AGENT_TOOL_ERR_SERVICE_GONE :: int where "AGENT_TOOL_ERR_SERVICE_GONE \<equiv> -7"

abbreviation (input) AGENT_SCHED_PRIORITY_MIN :: int where "AGENT_SCHED_PRIORITY_MIN \<equiv> 1"
abbreviation (input) AGENT_SCHED_PRIORITY_MAX :: int where "AGENT_SCHED_PRIORITY_MAX \<equiv> 8"
abbreviation (input) AGENT_SCHED_QUOTA_MIN :: int where "AGENT_SCHED_QUOTA_MIN \<equiv> 1"
abbreviation (input) AGENT_SCHED_QUOTA_MAX :: int where "AGENT_SCHED_QUOTA_MAX \<equiv> 8"
abbreviation (input) AGENT_SCHED_BUDGET_REPLENISH_INTERVAL :: u64
  where "AGENT_SCHED_BUDGET_REPLENISH_INTERVAL \<equiv> 10"

abbreviation (input) AGENT_WAIT_MESSAGE :: int where "AGENT_WAIT_MESSAGE \<equiv> 1"
abbreviation (input) AGENT_WAIT_FILEMOD :: int where "AGENT_WAIT_FILEMOD \<equiv> 2"
abbreviation (input) AGENT_WAIT_HEARTBEAT :: int where "AGENT_WAIT_HEARTBEAT \<equiv> 3"
abbreviation (input) AGENT_WAIT_TIMEOUT :: int where "AGENT_WAIT_TIMEOUT \<equiv> 4"
abbreviation (input) AGENT_WAIT_CANCELLED :: int where "AGENT_WAIT_CANCELLED \<equiv> 5"
abbreviation (input) AGENT_WAIT_NO_SOURCE :: int where "AGENT_WAIT_NO_SOURCE \<equiv> 6"
abbreviation (input) AGENT_WAIT_PARENT_GONE :: int where "AGENT_WAIT_PARENT_GONE \<equiv> 7"

abbreviation (input) AGENT_WORKFLOW_MAX :: nat where "AGENT_WORKFLOW_MAX \<equiv> 16"
abbreviation (input) AGENT_WORKFLOW_MEMBER_MAX :: int where "AGENT_WORKFLOW_MEMBER_MAX \<equiv> 64"
abbreviation (input) AGENT_WORKFLOW_ACTIVE :: int where "AGENT_WORKFLOW_ACTIVE \<equiv> 1"
abbreviation (input) AGENT_WORKFLOW_TERMINATING :: int where "AGENT_WORKFLOW_TERMINATING \<equiv> 2"
abbreviation (input) AGENT_WORKFLOW_DEAD :: int where "AGENT_WORKFLOW_DEAD \<equiv> 3"
abbreviation (input) AGENT_CASCADE_PLANNER_EXIT :: int where "AGENT_CASCADE_PLANNER_EXIT \<equiv> 1"
abbreviation (input) AGENT_CASCADE_EXPLICIT :: int where "AGENT_CASCADE_EXPLICIT \<equiv> 2"
abbreviation (input) AGENT_CASCADE_FAILURE :: int where "AGENT_CASCADE_FAILURE \<equiv> 3"
abbreviation (input) AGENT_TOOL_BATCH_MAX :: int where "AGENT_TOOL_BATCH_MAX \<equiv> 8"
abbreviation (input) AGENT_DEFAULT_PRIORITY :: int where "AGENT_DEFAULT_PRIORITY \<equiv> 5"

abbreviation (input) NPROC :: nat where "NPROC \<equiv> 64"
abbreviation (input) PGSIZE :: nat where "PGSIZE \<equiv> 4096"

subsection \<open>Requests, responses, context nodes\<close>

record agent_tool_request =
  rq_tool :: string
  rq_params :: string

record agent_tool_response =
  rs_status :: int
  rs_result_len :: u32
  rs_result :: string

record agent_context_node =
  nd_timestamp_ms :: u64
  nd_sequence :: u64
  nd_request_id :: u64
  nd_span_id :: u64
  nd_cause_sequence :: u64
  nd_status :: int
  nd_request :: string
  nd_result :: string

record agent_context_validation =
  va_sequence :: u64
  va_dev :: u32
  va_inum :: u32
  va_recorded_version :: u64
  va_current_version :: u64
  va_state :: int

record agent_context_header =
  hd_magic :: u32
  hd_version :: u32
  hd_header_size :: u32
  hd_node_size :: u32
  hd_region_size :: u64
  hd_path_offset :: u64
  hd_path_length :: u64
  hd_node_count :: u64
  hd_dropped_nodes :: u64
  hd_generation :: u64
  hd_first_sequence :: u64
  hd_next_sequence :: u64
  hd_last_result_len :: u64
  hd_last_timestamp :: u64
  hd_last_tool :: string
  hd_last_result :: string

record agent_context_digest =
  dg_sequence :: u64
  dg_request_id :: u64
  dg_request_hash :: u64
  dg_result_hash :: u64
  dg_previous_hash :: u64
  dg_current_hash :: u64
  dg_status :: int

record agent_context_dep =
  dep_used :: bool
  dep_sequence :: u64
  dep_dev :: u32
  dep_inum :: u32
  dep_version :: u64

record agent_wait_event =
  ev_reason :: int
  ev_tick :: u64
  ev_sequence :: u64
  ev_request_id :: u64
  ev_from_pid :: int
  ev_msg_type :: int
  ev_msg_length :: int
  ev_message :: string
  ev_file :: string

subsection \<open>Mailboxes, leases, workflows\<close>

record agent_message =
  ms_from_pid :: int
  ms_type :: int
  ms_length :: int
  ms_sequence :: u64
  ms_request_id :: u64
  ms_payload :: string

record agent_mailbox =
  mb_queue :: "agent_message list"
  mb_head :: int
  mb_tail :: int
  mb_count :: int
  mb_normal_count :: int
  mb_system_count :: int
  mb_dropped :: u64
  mb_system_dropped :: u64
  mb_next_sequence :: u64

record agent_edit_lease =
  ls_used :: bool
  ls_dev :: u32
  ls_inum :: u32
  ls_owner_pid :: int
  ls_owner_generation :: u64
  ls_lease_id :: u64
  ls_base_version :: u64
  ls_expiry_tick :: u64

record agent_workflow_metrics =
  wm_tool_calls :: u64
  wm_syscalls :: u64
  wm_messages_received :: u64
  wm_query_file_calls :: u64
  wm_files_scanned :: u64
  wm_index_scanned :: u64
  wm_files_read :: u64
  wm_bytes_read :: u64
  wm_cache_hits :: u64
  wm_cache_misses :: u64
  wm_duplicate_queries :: u64
  wm_wait_calls :: u64
  wm_wait_ticks :: u64

record agent_workflow =
  wf_used :: bool
  wf_workflow_id :: u64
  wf_leader_pid :: int
  wf_leader_generation :: u64
  wf_state :: int
  wf_member_count :: int
  wf_terminate_tick :: u64
  wf_metrics :: agent_workflow_metrics

text \<open>The all-zero objects that \<open>memset(..., 0, ...)\<close> leaves.\<close>

definition zero_dep :: agent_context_dep where
  "zero_dep = \<lparr>dep_used = False, dep_sequence = 0, dep_dev = 0, dep_inum = 0, dep_version = 0\<rparr>"

definition zero_digest :: agent_context_digest where
  "zero_digest = \<lparr>dg_sequence = 0, dg_request_id = 0, dg_request_hash = 0, dg_result_hash = 0,
     dg_previous_hash = 0, dg_current_hash = 0, dg_status = 0\<rparr>"

definition zero_event :: agent_wait_event where
  "zero_event = \<lparr>ev_reason = 0, ev_tick = 0, ev_sequence = 0, ev_request_id = 0, ev_from_pid = 0,
     ev_msg_type = 0, ev_msg_length = 0, ev_message = [], ev_file = []\<rparr>"

definition zero_message :: agent_message where
  "zero_message = \<lparr>ms_from_pid = 0, ms_type = 0, ms_length = 0, ms_sequence = 0,
     ms_request_id = 0, ms_payload = []\<rparr>"

text \<open>\<open>memset(&p->mailbox, 0, sizeof(p->mailbox)); p->mailbox.next_sequence = 1;\<close>\<close>

definition empty_mailbox :: agent_mailbox where
  "empty_mailbox = \<lparr>mb_queue = replicate 8 zero_message, mb_head = 0, mb_tail = 0, mb_count = 0,
     mb_normal_count = 0, mb_system_count = 0, mb_dropped = 0, mb_system_dropped = 0,
     mb_next_sequence = 1\<rparr>"

definition zero_lease :: agent_edit_lease where
  "zero_lease = \<lparr>ls_used = False, ls_dev = 0, ls_inum = 0, ls_owner_pid = 0,
     ls_owner_generation = 0, ls_lease_id = 0, ls_base_version = 0, ls_expiry_tick = 0\<rparr>"

definition zero_metrics :: agent_workflow_metrics where
  "zero_metrics = \<lparr>wm_tool_calls = 0, wm_syscalls = 0, wm_messages_received = 0,
     wm_query_file_calls = 0, wm_files_scanned = 0, wm_index_scanned = 0, wm_files_read = 0,
     wm_bytes_read = 0, wm_cache_hits = 0, wm_cache_misses = 0, wm_duplicate_queries = 0,
     wm_wait_calls = 0, wm_wait_ticks = 0\<rparr>"

definition zero_workflow :: agent_workflow where
  "zero_workflow = \<lparr>wf_used = False, wf_workflow_id = 0, wf_leader_pid = 0,
     wf_leader_generation = 0, wf_state = 0, wf_member_count = 0, wf_terminate_tick = 0,
     wf_metrics = zero_metrics\<rparr>"

subsection \<open>Dynamic tools (kernel/agent\_tool.c)\<close>

record agent_dynamic_tool =
  dt_used :: bool
  dt_name :: string
  dt_owner_pid :: int
  dt_owner_group :: int
  dt_flags :: u32
  dt_required_cap :: u64

record agent_dynamic_request_slot =
  dr_used :: bool
  dr_delivered :: bool
  dr_replied :: bool
  dr_id :: int
  dr_caller_pid :: int
  dr_caller_group :: int
  dr_service_pid :: int
  dr_status :: int
  dr_span_id :: u64
  dr_deadline :: u64
  dr_tool :: string
  dr_params :: string
  dr_result :: string

record agent_dynamic_tool_request =
  dq_request_id :: int
  dq_caller_pid :: int
  dq_span_id :: u64
  dq_tool :: string
  dq_params :: string

record agent_tool_policy =
  po_name :: string
  po_required_cap :: u64
  po_group_policy :: int
  po_mutates_state :: bool
  po_audit_required :: bool

definition zero_tool :: agent_dynamic_tool where
  "zero_tool = \<lparr>dt_used = False, dt_name = [], dt_owner_pid = 0, dt_owner_group = 0,
     dt_flags = 0, dt_required_cap = 0\<rparr>"

definition zero_request :: agent_dynamic_request_slot where
  "zero_request = \<lparr>dr_used = False, dr_delivered = False, dr_replied = False, dr_id = 0,
     dr_caller_pid = 0, dr_caller_group = 0, dr_service_pid = 0, dr_status = 0, dr_span_id = 0,
     dr_deadline = 0, dr_tool = [], dr_params = [], dr_result = []\<rparr>"

subsection \<open>File metadata, postings, query cache and versions (kernel/agent\_fs.c, kernel/fs.h)\<close>

record inode_attr =
  at_key :: string
  at_value :: string

record agent_file_meta =
  fm_used :: bool
  fm_inum :: u32
  fm_dev :: u32
  fm_path :: string
  fm_attr_count :: int
  fm_summary :: string
  fm_attrs :: "inode_attr list"

record agent_file_posting =
  fp_used :: bool
  fp_entry_idx :: int
  fp_next :: int
  fp_key :: string
  fp_value :: string

record shared_query_cache =
  qc_used :: bool
  qc_query :: string
  qc_result :: string
  qc_owner_pid :: int
  qc_owner_group :: int
  qc_refcnt :: int
  qc_version :: u64

record agent_file_version =
  fv_used :: bool
  fv_dev :: u32
  fv_inum :: u32
  fv_version :: u64
  fv_deleted :: bool

definition zero_attr :: inode_attr where
  "zero_attr = \<lparr>at_key = [], at_value = []\<rparr>"

definition zero_meta :: agent_file_meta where
  "zero_meta = \<lparr>fm_used = False, fm_inum = 0, fm_dev = 0, fm_path = [], fm_attr_count = 0,
     fm_summary = [], fm_attrs = replicate 4 zero_attr\<rparr>"

definition zero_posting :: agent_file_posting where
  "zero_posting = \<lparr>fp_used = False, fp_entry_idx = 0, fp_next = 0, fp_key = [], fp_value = []\<rparr>"

definition zero_cache :: shared_query_cache where
  "zero_cache = \<lparr>qc_used = False, qc_query = [], qc_result = [], qc_owner_pid = 0,
     qc_owner_group = 0, qc_refcnt = 0, qc_version = 0\<rparr>"

definition zero_version :: agent_file_version where
  "zero_version = \<lparr>fv_used = False, fv_dev = 0, fv_inum = 0, fv_version = 0, fv_deleted = False\<rparr>"

end
