(* ===== verification/UserMem.thy ===== *)
theory UserMem
  imports CString
begin

text \<open>
  User memory as the kernel sees it (kernel/vm.c, kernel/kalloc.c). A user page table is the
  partial map from virtual pages to the frames mapped there, each with its physical address, its
  PTE flags and its 4096 bytes, together with the second- and third-level table pages the Sv39
  walk has allocated (frames are never shared between page tables in this kernel, so the bytes
  may live with the mapping). The free list of the page allocator is passed along. A function
  that can panic returns an option, \<open>None\<close> being the panic. The lemmas give \<open>copyout\<close> and
  \<open>copyin\<close> their meaning on single bytes: a copy that succeeds writes exactly the bytes of its
  range, and reading them back gives what was written.
\<close>

abbreviation (input) PTE_V :: u64 where "PTE_V \<equiv> 1"
abbreviation (input) PTE_R :: u64 where "PTE_R \<equiv> 2"
abbreviation (input) PTE_W :: u64 where "PTE_W \<equiv> 4"
abbreviation (input) PTE_X :: u64 where "PTE_X \<equiv> 8"
abbreviation (input) PTE_U :: u64 where "PTE_U \<equiv> 16"
abbreviation (input) MAXVA :: u64 where "MAXVA \<equiv> 0x4000000000"

definition PGROUNDUP :: "u64 \<Rightarrow> u64" where
  "PGROUNDUP sz = (sz + 4096 - 1) AND NOT (4096 - 1)"

definition PGROUNDDOWN :: "u64 \<Rightarrow> u64" where
  "PGROUNDDOWN a = a AND NOT (4096 - 1)"

record upage =
  pg_pa :: u64
  pg_flags :: u64
  pg_data :: string

record upagetable =
  pt_root :: u64
  pt_l1 :: "(u64 \<times> u64) list"
  pt_l0 :: "(u64 \<times> u64) list"
  pt_leaf :: "u64 \<Rightarrow> upage option"

subsection \<open>The page allocator\<close>

definition kalloc :: "u64 list \<Rightarrow> u64 option \<times> u64 list" where
  "kalloc fl = (case fl of [] \<Rightarrow> (None, []) | pa # rest \<Rightarrow> (Some pa, rest))"

definition kfree :: "u64 \<Rightarrow> u64 list \<Rightarrow> u64 list" where
  "kfree pa fl = pa # fl"

subsection \<open>Page tables\<close>

definition zero_page :: string where
  "zero_page = replicate 4096 NUL"

text \<open>\<open>walk(pagetable, va, 0)\<close>: the leaf entry, if its valid bit is set.\<close>

definition walk :: "upagetable \<Rightarrow> u64 \<Rightarrow> upage option" where
  "walk pt va = (case pt_leaf pt (PGROUNDDOWN va) of
     None \<Rightarrow> None | Some pg \<Rightarrow> if pg_flags pg AND PTE_V = 0 then None else Some pg)"

text \<open>\<open>walk(pagetable, va, 1)\<close>: the table pages on the way are allocated, the upper one first; a
  table allocated before the lower one fails stays.\<close>

definition walk_alloc :: "upagetable \<Rightarrow> u64 \<Rightarrow> u64 list \<Rightarrow> (bool \<times> upagetable \<times> u64 list) option" where
  "walk_alloc pt va fl =
     (if va \<ge> MAXVA then None
      else
        let (ok1, pt1, fl1) =
              (case map_of (pt_l1 pt) (drop_bit 30 va) of
                 Some _ \<Rightarrow> (True, pt, fl)
               | None \<Rightarrow> (case kalloc fl of
                    (None, fl') \<Rightarrow> (False, pt, fl')
                  | (Some pa, fl') \<Rightarrow> (True, pt\<lparr>pt_l1 := (drop_bit 30 va, pa) # pt_l1 pt\<rparr>, fl')))
        in if \<not> ok1 then Some (False, pt1, fl1)
           else (case map_of (pt_l0 pt1) (drop_bit 21 va) of
                   Some _ \<Rightarrow> Some (True, pt1, fl1)
                 | None \<Rightarrow> (case kalloc fl1 of
                      (None, fl') \<Rightarrow> Some (False, pt1, fl')
                    | (Some pa, fl') \<Rightarrow> Some (True, pt1\<lparr>pt_l0 := (drop_bit 21 va, pa) # pt_l0 pt1\<rparr>, fl'))))"

definition walkaddr :: "upagetable \<Rightarrow> u64 \<Rightarrow> upage option" where
  "walkaddr pt va =
     (if va \<ge> MAXVA then None
      else case walk pt va of
        None \<Rightarrow> None
      | Some pg \<Rightarrow> if pg_flags pg AND PTE_U = 0 then None else Some pg)"

text \<open>\<open>mappages\<close> for one page: a misaligned address or a valid entry panics.\<close>

definition mappages :: "upagetable \<Rightarrow> u64 \<Rightarrow> upage \<Rightarrow> u64 \<Rightarrow> u64 list \<Rightarrow> (bool \<times> upagetable \<times> u64 list) option" where
  "mappages pt va pg perm fl =
     (if va AND 4095 \<noteq> 0 then None
      else case walk_alloc pt va fl of
        None \<Rightarrow> None
      | Some (False, pt', fl') \<Rightarrow> Some (False, pt', fl')
      | Some (True, pt', fl') \<Rightarrow>
          if walk pt' va \<noteq> None then None
          else Some (True, pt'\<lparr>pt_leaf := (pt_leaf pt')(va \<mapsto> pg\<lparr>pg_flags := perm OR PTE_V\<rparr>)\<rparr>, fl'))"

text \<open>\<open>uvmunmap\<close>: entries that are absent, or that hold only the valid bit, are skipped.\<close>

fun uvmunmap_loop :: "upagetable \<Rightarrow> u64 \<Rightarrow> nat \<Rightarrow> bool \<Rightarrow> u64 list \<Rightarrow> (upagetable \<times> u64 list) option" where
  "uvmunmap_loop pt a 0 do_free fl = Some (pt, fl)"
| "uvmunmap_loop pt a (Suc n) do_free fl =
     (if a \<ge> MAXVA then None
      else case walk pt a of
        None \<Rightarrow> uvmunmap_loop pt (a + 4096) n do_free fl
      | Some pg \<Rightarrow>
          if pg_flags pg AND 0x3FF = PTE_V then uvmunmap_loop pt (a + 4096) n do_free fl
          else uvmunmap_loop (pt\<lparr>pt_leaf := (pt_leaf pt)(a := None)\<rparr>) (a + 4096) n do_free
                 (if do_free then kfree (pg_pa pg) fl else fl))"

definition uvmunmap :: "upagetable \<Rightarrow> u64 \<Rightarrow> nat \<Rightarrow> bool \<Rightarrow> u64 list \<Rightarrow> (upagetable \<times> u64 list) option" where
  "uvmunmap pt va npages do_free fl =
     (if va AND 4095 \<noteq> 0 then None else uvmunmap_loop pt va npages do_free fl)"

definition uvmdealloc :: "upagetable \<Rightarrow> u64 \<Rightarrow> u64 \<Rightarrow> u64 list \<Rightarrow> (u64 \<times> upagetable \<times> u64 list) option" where
  "uvmdealloc pt oldsz newsz fl =
     (if newsz \<ge> oldsz then Some (oldsz, pt, fl)
      else if PGROUNDUP newsz < PGROUNDUP oldsz
      then (case uvmunmap pt (PGROUNDUP newsz) (unat ((PGROUNDUP oldsz - PGROUNDUP newsz) div 4096)) True fl of
              None \<Rightarrow> None | Some (pt', fl') \<Rightarrow> Some (newsz, pt', fl'))
      else Some (newsz, pt, fl))"

text \<open>\<open>uvmalloc\<close>: the loop from the rounded old size; running out of memory at address \<open>a\<close> unmaps
  what this call mapped and returns 0. The loop ends because an address at or above MAXVA panics
  before it can wrap.\<close>

function uvmalloc_loop :: "upagetable \<Rightarrow> u64 \<Rightarrow> u64 \<Rightarrow> u64 \<Rightarrow> u64 \<Rightarrow> u64 list \<Rightarrow> (u64 \<times> upagetable \<times> u64 list) option" where
  "uvmalloc_loop pt oldsz a newsz xperm fl =
     (if a \<ge> newsz then Some (newsz, pt, fl)
      else case kalloc fl of
        (None, fl') \<Rightarrow>
          (case uvmdealloc pt a oldsz fl' of
             None \<Rightarrow> None | Some (_, pt', fl'') \<Rightarrow> Some (0, pt', fl''))
      | (Some pa, fl') \<Rightarrow>
          if a \<ge> MAXVA then None
          else (case mappages pt a \<lparr>pg_pa = pa, pg_flags = 0, pg_data = zero_page\<rparr> (PTE_R OR PTE_U OR xperm) fl' of
                  None \<Rightarrow> None
                | Some (False, pt', fl'') \<Rightarrow>
                    (case uvmdealloc pt' a oldsz (kfree pa fl'') of
                       None \<Rightarrow> None | Some (_, pt'', fl3) \<Rightarrow> Some (0, pt'', fl3))
                | Some (True, pt', fl'') \<Rightarrow> uvmalloc_loop pt' oldsz (a + 4096) newsz xperm fl''))"
  by pat_completeness auto
termination
  by (relation "measure (\<lambda>(pt, oldsz, a, newsz, xperm, fl). unat newsz - unat a)")
    (auto simp: word_less_nat_alt word_le_nat_alt unat_sub_if_size unat_word_ariths)

definition uvmalloc :: "upagetable \<Rightarrow> u64 \<Rightarrow> u64 \<Rightarrow> u64 \<Rightarrow> u64 list \<Rightarrow> (u64 \<times> upagetable \<times> u64 list) option" where
  "uvmalloc pt oldsz newsz xperm fl =
     (if newsz < oldsz then Some (oldsz, pt, fl)
      else uvmalloc_loop pt (PGROUNDUP oldsz) (PGROUNDUP oldsz) newsz xperm fl)"

text \<open>\<open>uvmclear\<close>: panics when the table pages of the address are missing.\<close>

definition uvmclear :: "upagetable \<Rightarrow> u64 \<Rightarrow> upagetable option" where
  "uvmclear pt va =
     (if va \<ge> MAXVA \<or> map_of (pt_l1 pt) (drop_bit 30 va) = None \<or> map_of (pt_l0 pt) (drop_bit 21 va) = None then None
      else Some (pt\<lparr>pt_leaf := (\<lambda>a. if a = PGROUNDDOWN va
             then map_option (\<lambda>pg. pg\<lparr>pg_flags := pg_flags pg AND NOT PTE_U\<rparr>) (pt_leaf pt a)
             else pt_leaf pt a)\<rparr>))"

text \<open>\<open>uvmcopy\<close>: an absent page panics; running out of memory at page \<open>i\<close> unmaps the \<open>i\<close> pages
  already copied and fails.\<close>

fun uvmcopy_loop :: "upagetable \<Rightarrow> upagetable \<Rightarrow> nat \<Rightarrow> nat \<Rightarrow> u64 list \<Rightarrow> (bool \<times> upagetable \<times> u64 list) option" where
  "uvmcopy_loop old new i 0 fl = Some (True, new, fl)"
| "uvmcopy_loop old new i (Suc n) fl =
     (let a = of_nat (4096 * i) :: u64; undo = (\<lambda>pt fl. case uvmunmap pt 0 i True fl of
                                       None \<Rightarrow> None | Some (pt', fl') \<Rightarrow> Some (False, pt', fl'))
      in if a \<ge> MAXVA then None
         else case walk old a of
           None \<Rightarrow> None
         | Some pg \<Rightarrow>
             (case kalloc fl of
                (None, fl') \<Rightarrow> undo new fl'
              | (Some pa, fl') \<Rightarrow>
                  (case mappages new a (pg\<lparr>pg_pa := pa\<rparr>) (pg_flags pg AND 0x3FF) fl' of
                     None \<Rightarrow> None
                   | Some (False, pt', fl'') \<Rightarrow> undo pt' (kfree pa fl'')
                   | Some (True, pt', fl'') \<Rightarrow> uvmcopy_loop old pt' (Suc i) n fl'')))"

definition uvmcopy :: "upagetable \<Rightarrow> upagetable \<Rightarrow> u64 \<Rightarrow> u64 list \<Rightarrow> (bool \<times> upagetable \<times> u64 list) option" where
  "uvmcopy old new sz fl = uvmcopy_loop old new 0 ((unat sz + 4095) div 4096) fl"

text \<open>\<open>freewalk\<close> gives back the table pages in the order of the recursion, the root last; a leaf that is
  still there is a panic. \<open>uvmfree\<close> unmaps the user part first.\<close>

definition freewalk_pages :: "upagetable \<Rightarrow> u64 list" where
  "freewalk_pages pt =
     concat (map (\<lambda>i. case map_of (pt_l1 pt) (of_nat i) of
         None \<Rightarrow> []
       | Some pa \<Rightarrow> concat (map (\<lambda>j. case map_of (pt_l0 pt) (of_nat (512 * i + j)) of
                        None \<Rightarrow> [] | Some pa0 \<Rightarrow> [pa0]) [0..<512]) @ [pa]) [0..<512]) @ [pt_root pt]"

definition leaf_left :: "upagetable \<Rightarrow> bool" where
  "leaf_left pt \<longleftrightarrow> list_ex (\<lambda>(k, _). list_ex (\<lambda>j. walk pt (push_bit 21 k + of_nat (4096 * j)) \<noteq> None) [0..<512]) (pt_l0 pt)"

definition freewalk :: "upagetable \<Rightarrow> u64 list \<Rightarrow> u64 list option" where
  "freewalk pt fl = (if leaf_left pt then None else Some (fold kfree (freewalk_pages pt) fl))"

definition uvmfree :: "upagetable \<Rightarrow> u64 \<Rightarrow> u64 list \<Rightarrow> u64 list option" where
  "uvmfree pt sz fl =
     (if sz > 0
      then (case uvmunmap pt 0 (unat (PGROUNDUP sz div 4096)) True fl of
              None \<Rightarrow> None | Some (pt', fl') \<Rightarrow> freewalk pt' fl')
      else freewalk pt fl)"

definition uvmcreate :: "u64 list \<Rightarrow> upagetable option \<times> u64 list" where
  "uvmcreate fl = (case kalloc fl of
     (None, fl') \<Rightarrow> (None, fl')
   | (Some pa, fl') \<Rightarrow> (Some \<lparr>pt_root = pa, pt_l1 = [], pt_l0 = [], pt_leaf = (\<lambda>_. None)\<rparr>, fl'))"

subsection \<open>Copying between kernel and user memory\<close>

definition store_bytes :: "nat \<Rightarrow> string \<Rightarrow> string \<Rightarrow> string" where
  "store_bytes off bs d = take off d @ bs @ drop (off + length bs) d"

definition set_page :: "upagetable \<Rightarrow> u64 \<Rightarrow> (string \<Rightarrow> string) \<Rightarrow> upagetable" where
  "set_page pt va0 f = pt\<lparr>pt_leaf := (\<lambda>a. if a = va0
     then map_option (\<lambda>pg. pg\<lparr>pg_data := f (pg_data pg)\<rparr>) (pt_leaf pt a) else pt_leaf pt a)\<rparr>"

lemma mask12: "(4095 :: u64) = mask 12"
  by (simp add: mask_eq_exp_minus_1)

lemma page_base_minus: "PGROUNDDOWN a = a - take_bit 12 a"
proof -
  have "a AND NOT (mask 12) = push_bit 12 (drop_bit 12 a)"
    by (rule bit_eqI) (auto simp: bit_simps)
  moreover have "push_bit 12 (drop_bit 12 a) + take_bit 12 a = a" by (rule bits_ident)
  ultimately show ?thesis by (simp add: PGROUNDDOWN_def mask12 eq_diff_eq)
qed

lemma unat_page_base: "unat (PGROUNDDOWN a) = 4096 * (unat a div 4096)"
proof -
  have l: "take_bit 12 a \<le> a" by (simp add: word_le_nat_alt take_bit_eq_mod unat_mod)
  have "unat (a - take_bit 12 a) = unat a - unat (take_bit 12 a)" using l by (rule unat_sub)
  also have "unat (take_bit 12 a) = unat a mod 4096" by (simp add: take_bit_eq_mod unat_mod)
  finally show ?thesis unfolding page_base_minus by (simp only: minus_mod_eq_mult_div)
qed

lemma unat_page_off: "unat (a - PGROUNDDOWN a) = unat a mod 4096"
proof -
  have "a - PGROUNDDOWN a = take_bit 12 a" unfolding page_base_minus by simp
  then show ?thesis by (simp add: take_bit_eq_mod unat_mod)
qed

text \<open>\<open>copyout\<close>: the result is \<open>True\<close> for 0 and \<open>False\<close> for -1; the pages written before a
  failure stay written.\<close>

function copyout :: "upagetable \<Rightarrow> u64 \<Rightarrow> string \<Rightarrow> bool \<times> upagetable" where
  "copyout pt dstva src =
     (if src = [] then (True, pt)
      else
        let va0 = PGROUNDDOWN dstva
        in if va0 \<ge> MAXVA then (False, pt)
           else case walk pt va0 of
             None \<Rightarrow> (False, pt)
           | Some pg \<Rightarrow>
               if pg_flags pg AND PTE_U = 0 \<or> pg_flags pg AND PTE_W = 0 then (False, pt)
               else let n = min (4096 - unat (dstva - va0)) (length src)
                    in copyout (set_page pt va0 (store_bytes (unat (dstva - va0)) (take n src)))
                         (va0 + 4096) (drop n src))"
  by pat_completeness auto
termination
  by (relation "measure (\<lambda>(pt, va, src). length src)") (auto simp: unat_page_off less_diff_conv)

text \<open>\<open>copyin\<close>: the bytes read, or \<open>None\<close> for -1 (no caller looks at what a failed copy left in
  the kernel buffer).\<close>

function copyin :: "upagetable \<Rightarrow> u64 \<Rightarrow> nat \<Rightarrow> string option" where
  "copyin pt srcva len =
     (if len = 0 then Some []
      else
        let va0 = PGROUNDDOWN srcva
        in case walkaddr pt va0 of
             None \<Rightarrow> None
           | Some pg \<Rightarrow>
               let n = min (4096 - unat (srcva - va0)) len
               in map_option (\<lambda>rest. take n (drop (unat (srcva - va0)) (pg_data pg)) @ rest)
                    (copyin pt (va0 + 4096) (len - n)))"
  by pat_completeness auto
termination
  by (relation "measure (\<lambda>(pt, va, len). len)") (auto simp: unat_page_off less_diff_conv)

text \<open>\<open>copyinstr\<close>: the string up to its NUL, or \<open>None\<close> when a page is missing or \<open>max\<close> bytes
  hold no NUL.\<close>

function copyinstr :: "upagetable \<Rightarrow> u64 \<Rightarrow> nat \<Rightarrow> string option" where
  "copyinstr pt srcva mx =
     (if mx = 0 then None
      else
        let va0 = PGROUNDDOWN srcva
        in case walkaddr pt va0 of
             None \<Rightarrow> None
           | Some pg \<Rightarrow>
               let n = min (4096 - unat (srcva - va0)) mx;
                   piece = take n (drop (unat (srcva - va0)) (pg_data pg))
               in if NUL \<in> set piece then Some (takeWhile (\<lambda>c. c \<noteq> NUL) piece)
                  else map_option (\<lambda>rest. piece @ rest) (copyinstr pt (va0 + 4096) (mx - n)))"
  by pat_completeness auto
termination
  by (relation "measure (\<lambda>(pt, va, mx). mx)") (auto simp: unat_page_off less_diff_conv)

declare copyout.simps [simp del] copyin.simps [simp del] copyinstr.simps [simp del]
  uvmalloc_loop.simps [simp del]

subsection \<open>What the copies do to single bytes\<close>

definition page_at :: "upagetable \<Rightarrow> nat \<Rightarrow> upage option" where
  "page_at pt n = (if n < 2 ^ 38 then walk pt (of_nat n) else None)"

definition user_byte :: "upagetable \<Rightarrow> nat \<Rightarrow> char option" where
  "user_byte pt n = (case page_at pt n of
     None \<Rightarrow> None
   | Some pg \<Rightarrow> if pg_flags pg AND PTE_U = 0 then None else Some (pg_data pg ! (n mod 4096)))"

definition writable :: "upagetable \<Rightarrow> nat \<Rightarrow> bool" where
  "writable pt n \<longleftrightarrow> (case page_at pt n of
     None \<Rightarrow> False
   | Some pg \<Rightarrow> pg_flags pg AND PTE_U \<noteq> 0 \<and> pg_flags pg AND PTE_W \<noteq> 0)"

definition pages_ok :: "upagetable \<Rightarrow> bool" where
  "pages_ok pt \<longleftrightarrow> (\<forall>n pg. page_at pt n = Some pg \<longrightarrow> length (pg_data pg) = 4096)"

lemma unat_of_nat64: "n < 2 ^ 64 \<Longrightarrow> unat (of_nat n :: u64) = n"
  by (simp add: unat_of_nat take_bit_eq_mod)

lemma page_base_of_nat:
  assumes "n < 2 ^ 64"
  shows "PGROUNDDOWN (of_nat n) = of_nat (4096 * (n div 4096))"
proof (rule word_unat_eq_iff [THEN iffD2])
  have "4096 * (n div 4096) < 2 ^ 64" using assms by (rule le_less_trans [rotated]) simp
  from unat_of_nat64 [OF this] assms
  show "unat (PGROUNDDOWN (of_nat n :: u64)) = unat (of_nat (4096 * (n div 4096)) :: u64)"
    unfolding unat_page_base by (simp only: unat_of_nat64)
qed

lemma maxva_nat: "MAXVA \<le> PGROUNDDOWN a \<longleftrightarrow> 2 ^ 38 \<le> unat a"
proof -
  have "2 ^ 38 \<le> 4096 * (unat a div 4096) \<longleftrightarrow> 2 ^ 38 \<le> unat a" by auto
  then show ?thesis by (simp add: word_le_nat_alt unat_page_base)
qed

lemma page_base_idem: "PGROUNDDOWN (PGROUNDDOWN a) = PGROUNDDOWN a"
  by (rule word_unat_eq_iff [THEN iffD2]) (simp add: unat_page_base)

lemma walk_page_at: "unat a < 2 ^ 38 \<Longrightarrow> walk pt (PGROUNDDOWN a) = page_at pt (unat a)"
  by (simp add: page_at_def walk_def page_base_idem)

lemma page_base_eq_iff:
  assumes "n < 2 ^ 38"
  shows "PGROUNDDOWN (of_nat n) = PGROUNDDOWN a \<longleftrightarrow> n div 4096 = unat a div 4096"
  using assms by (simp add: word_unat_eq_iff unat_page_base unat_of_nat64)

lemma page_at_set_page:
  "page_at (set_page pt (PGROUNDDOWN a) f) n =
     (if n div 4096 = unat a div 4096 then map_option (\<lambda>pg. pg\<lparr>pg_data := f (pg_data pg)\<rparr>) (page_at pt n)
      else page_at pt n)"
  by (auto simp: page_at_def walk_def set_page_def page_base_eq_iff split: option.splits)

lemma length_store_bytes [simp]:
  "off + length bs \<le> length d \<Longrightarrow> length (store_bytes off bs d) = length d"
  by (simp add: store_bytes_def)

lemma nth_store_bytes:
  assumes "off + length bs \<le> length d" "k < length d"
  shows "store_bytes off bs d ! k =
     (if off \<le> k \<and> k < off + length bs then bs ! (k - off) else d ! k)"
proof (cases "k < off")
  case True
  with assms show ?thesis by (simp add: store_bytes_def nth_append)
next
  case False
  with assms show ?thesis
    by (cases "k < off + length bs") (auto simp: store_bytes_def nth_append)
qed

lemma pages_okD: "pages_ok pt \<Longrightarrow> page_at pt n = Some pg \<Longrightarrow> length (pg_data pg) = 4096"
  by (simp add: pages_ok_def)

text \<open>Inside one page the flags are the same everywhere.\<close>

lemma page_at_same:
  fixes a :: u64
  assumes "n div 4096 = unat a div 4096"
  shows "page_at pt n = page_at pt (unat a)"
proof -
  have "m < 2 ^ 38 \<longleftrightarrow> m div 4096 < 67108864" for m :: nat
    by (simp add: div_less_iff_less_mult)
  with assms have b: "n < 2 ^ 38 \<longleftrightarrow> unat a < 2 ^ 38" by simp
  have "PGROUNDDOWN (of_nat n) = PGROUNDDOWN a" if "n < 2 ^ 38"
    using page_base_eq_iff [OF that] assms by simp
  with b show ?thesis by (simp add: page_at_def walk_def)
qed

lemma same_page_nat:
  assumes "(a :: nat) \<le> n" "n < a + b" "a mod 4096 + b \<le> 4096"
  shows "n div 4096 = a div 4096"
proof (rule div_nat_eqI)
  have "a = 4096 * (a div 4096) + a mod 4096" "4096 * Suc (a div 4096) = 4096 * (a div 4096) + 4096" by simp_all
  with assms show "4096 * (a div 4096) \<le> n" "n < 4096 * Suc (a div 4096)" by linarith+
qed

text \<open>One page of a copy.\<close>

lemma store_page:
  assumes ok: "pages_ok pt" and fit: "unat a mod 4096 + length bs \<le> 4096"
  defines "pt' \<equiv> set_page pt (PGROUNDDOWN a) (store_bytes (unat a mod 4096) bs)"
  shows "pages_ok pt'" and "writable pt' n = writable pt n"
    and "writable pt (unat a) \<Longrightarrow> user_byte pt' n =
       (if unat a \<le> n \<and> n < unat a + length bs then Some (bs ! (n - unat a)) else user_byte pt n)"
proof -
  show "pages_ok pt'"
    using ok fit by (auto simp: pages_ok_def pt'_def page_at_set_page split: if_splits)
  show "writable pt' n = writable pt n"
    by (auto simp: writable_def pt'_def page_at_set_page split: option.splits)
  assume w: "writable pt (unat a)"
  show "user_byte pt' n =
       (if unat a \<le> n \<and> n < unat a + length bs then Some (bs ! (n - unat a)) else user_byte pt n)"
  proof (cases "n div 4096 = unat a div 4096")
    case True
    obtain pg where pg: "page_at pt (unat a) = Some pg" "pg_flags pg AND PTE_U \<noteq> 0"
      using w by (auto simp: writable_def split: option.splits)
    have len: "length (pg_data pg) = 4096" using pages_okD [OF ok pg(1)] .
    have n: "n = 4096 * (unat a div 4096) + n mod 4096" using True by (metis mult_div_mod_eq)
    have a: "unat a = 4096 * (unat a div 4096) + unat a mod 4096" by simp
    have range: "unat a \<le> n \<and> n < unat a + length bs \<longleftrightarrow>
        unat a mod 4096 \<le> n mod 4096 \<and> n mod 4096 < unat a mod 4096 + length bs"
      and diff: "n - unat a = n mod 4096 - unat a mod 4096"
      using n a by linarith+
    show ?thesis
      using True page_at_same [OF True, of pt] pg len fit range
      by (simp add: user_byte_def pt'_def page_at_set_page nth_store_bytes diff)
  next
    case False
    have "\<not> (unat a \<le> n \<and> n < unat a + length bs)"
      using same_page_nat [of "unat a" n "length bs"] fit False by blast
    with False show ?thesis by (auto simp: user_byte_def pt'_def page_at_set_page)
  qed
qed

text \<open>\<open>copyout\<close> succeeds exactly when every byte of the range is mapped for the user and
  writable, and then exactly these bytes change.\<close>

lemma next_page:
  assumes "unat a < 2 ^ 38"
  shows "unat (PGROUNDDOWN a + 4096) = unat a + (4096 - unat a mod 4096)"
proof -
  have "4096 * (unat a div 4096) + 4096 < 2 ^ 64"
    using assms times_div_less_eq_dividend [of 4096 "unat a"] by simp
  then have "unat (PGROUNDDOWN a + 4096) = 4096 * (unat a div 4096) + 4096"
    by (simp add: unat_word_ariths unat_page_base)
  then show ?thesis by (simp add: minus_mod_eq_mult_div [symmetric])
qed

lemma writable_bound: "writable pt n \<Longrightarrow> n < 2 ^ 38"
  by (auto simp: writable_def page_at_def split: option.splits if_splits)

definition range_ok :: "(nat \<Rightarrow> bool) \<Rightarrow> nat \<Rightarrow> nat \<Rightarrow> bool" where
  "range_ok P a len \<longleftrightarrow> (\<forall>k < len. P (a + k))"

lemma range_ok_split:
  "n \<le> len \<Longrightarrow> range_ok P a len \<longleftrightarrow> range_ok P a n \<and> range_ok P (a + n) (len - n)"
  unfolding range_ok_def
proof safe
  fix k assume n: "n \<le> len" and 1: "\<forall>k<n. P (a + k)" and 2: "\<forall>k<len - n. P (a + n + k)" and k: "k < len"
  show "P (a + k)"
  proof (cases "k < n")
    case True with 1 show ?thesis by simp
  next
    case False
    with k n have "k - n < len - n" by simp
    with 2 have "P (a + n + (k - n))" by blast
    with False show ?thesis by simp
  qed
qed (auto simp: add.assoc)

lemma page_div: "k < 4096 - a mod 4096 \<Longrightarrow> (a + k) div 4096 = a div (4096 :: nat)"
  by (rule same_page_nat [where b = "Suc k"]) auto

lemma writable_page:
  fixes a :: u64
  assumes "k < 4096 - unat a mod 4096"
  shows "writable pt (unat a + k) = writable pt (unat a)"
  unfolding writable_def page_at_same [OF page_div [OF assms]] ..

lemma copyout_page:
  assumes src: "src \<noteq> []" and n: "n = min (4096 - unat va mod 4096) (length src)"
  shows "copyout pt va src =
    (if writable pt (unat va)
     then copyout (set_page pt (PGROUNDDOWN va) (store_bytes (unat va mod 4096) (take n src)))
            (PGROUNDDOWN va + 4096) (drop n src)
     else (False, pt))"
proof (cases "unat va < 2 ^ 38")
  case False
  then have "\<not> writable pt (unat va)" using writable_bound by blast
  moreover have "MAXVA \<le> PGROUNDDOWN va" using False by (simp only: maxva_nat not_less)
  ultimately show ?thesis using src by (subst copyout.simps) simp
next
  case True
  then have "\<not> MAXVA \<le> PGROUNDDOWN va" by (simp only: maxva_nat not_le)
  then show ?thesis
    using src n walk_page_at [OF True, of pt]
    by (subst copyout.simps) (auto simp: Let_def unat_page_off writable_def split: option.splits)
qed

lemma copyout_spec:
  assumes "pages_ok pt"
  shows "(fst (copyout pt va src) \<longleftrightarrow> range_ok (writable pt) (unat va) (length src)) \<and>
    pages_ok (snd (copyout pt va src)) \<and>
    (\<forall>m. writable (snd (copyout pt va src)) m = writable pt m) \<and>
    (fst (copyout pt va src) \<longrightarrow> (\<forall>m. user_byte (snd (copyout pt va src)) m =
       (if unat va \<le> m \<and> m < unat va + length src then Some (src ! (m - unat va)) else user_byte pt m)))"
  using assms
proof (induction "length src" arbitrary: pt va src rule: less_induct)
  case less
  show ?case
  proof (cases "src = []")
    case True
    with less.prems show ?thesis by (auto simp: copyout.simps range_ok_def)
  next
    case False
    define n where "n = min (4096 - unat va mod 4096) (length src)"
    define pt1 where "pt1 = set_page pt (PGROUNDDOWN va) (store_bytes (unat va mod 4096) (take n src))"
    note step = copyout_page [OF False n_def, of pt, folded pt1_def]
    have n0: "0 < n" "n \<le> length src" using False by (auto simp: n_def)
    show ?thesis
    proof (cases "writable pt (unat va)")
      case w: True
      have fit: "unat va mod 4096 + length (take n src) \<le> 4096" by (simp add: n_def)
      note st = store_page [OF less.prems fit, folded pt1_def]
      have page: "range_ok (writable pt) (unat va) n"
        using w writable_page [of _ va pt] by (auto simp: range_ok_def n_def)
      let ?R = "copyout pt1 (PGROUNDDOWN va + 4096) (drop n src)"
      have R: "copyout pt va src = ?R" using step w by simp
      note IH = less.hyps [of "drop n src" pt1 "PGROUNDDOWN va + 4096", OF _ st(1)]
      show ?thesis
      proof (cases "n = length src")
        case True
        then have "?R = (True, pt1)" by (simp add: copyout.simps)
        with R True page st w show ?thesis by simp
      next
        case short: False
        then have "n = 4096 - unat va mod 4096" by (simp add: n_def min_def split: if_splits)
        then have va1: "unat (PGROUNDDOWN va + 4096) = unat va + n"
          using next_page [OF writable_bound [OF w]] by simp
        have wr: "writable pt1 = writable pt" using st(2) by (simp add: fun_eq_iff)
        have "length (drop n src) < length src" using n0 by simp
        note IH = IH [OF this, unfolded va1 wr]
        have "fst ?R \<longleftrightarrow> range_ok (writable pt) (unat va) (length src)"
          using IH page range_ok_split [OF n0(2), of "writable pt" "unat va"] by simp
        moreover have "user_byte (snd ?R) m =
            (if unat va \<le> m \<and> m < unat va + length src then Some (src ! (m - unat va)) else user_byte pt m)"
          if ok: "fst ?R" for m
        proof -
          have "user_byte (snd ?R) m = (if unat va + n \<le> m \<and> m < unat va + n + length (drop n src)
              then Some (drop n src ! (m - (unat va + n))) else user_byte pt1 m)"
            using IH ok by blast
          then show ?thesis using st(3) [OF w, of m] n0 by auto
        qed
        ultimately show ?thesis using IH R by simp
      qed
    next
      case False
      have "\<not> range_ok (writable pt) (unat va) (length src)"
        using False \<open>src \<noteq> []\<close> by (auto simp: range_ok_def intro!: exI [of _ 0])
      with step False less.prems show ?thesis by simp
    qed
  qed
qed

text \<open>\<open>copyin\<close> reads exactly the bytes of its range.\<close>

lemma user_byte_bound: "user_byte pt n \<noteq> None \<Longrightarrow> n < 2 ^ 38"
  by (auto simp: user_byte_def page_at_def split: option.splits if_splits)

lemma user_byte_page:
  fixes a :: u64
  assumes "k < 4096 - unat a mod 4096"
  shows "user_byte pt (unat a + k) = map_option (\<lambda>pg. pg_data pg ! (unat a mod 4096 + k))
    (case page_at pt (unat a) of None \<Rightarrow> None
     | Some pg \<Rightarrow> if pg_flags pg AND PTE_U = 0 then None else Some pg)"
proof -
  have "(unat a + k) mod 4096 = unat a mod 4096 + k"
  proof -
    have "(unat a + k) mod 4096 = (unat a mod 4096 + k) mod 4096" by (simp add: mod_simps)
    then show ?thesis using assms by simp
  qed
  then show ?thesis
    by (simp add: user_byte_def page_at_same [OF page_div [OF assms]] split: option.splits)
qed

lemma walkaddr_page:
  "walkaddr pt (PGROUNDDOWN a) = (case page_at pt (unat a) of None \<Rightarrow> None
     | Some pg \<Rightarrow> if pg_flags pg AND PTE_U = 0 then None else Some pg)"
proof (cases "unat a < 2 ^ 38")
  case True
  then show ?thesis unfolding walkaddr_def maxva_nat walk_page_at [OF True] by simp
next
  case False
  then show ?thesis unfolding walkaddr_def maxva_nat by (simp add: page_at_def)
qed

definition read_bytes :: "upagetable \<Rightarrow> nat \<Rightarrow> nat \<Rightarrow> string" where
  "read_bytes pt a len = map (\<lambda>k. the (user_byte pt (a + k))) [0..<len]"

lemma length_read_bytes [simp]: "length (read_bytes pt a len) = len"
  by (simp add: read_bytes_def)

lemma nth_read_bytes [simp]: "k < len \<Longrightarrow> read_bytes pt a len ! k = the (user_byte pt (a + k))"
  by (simp add: read_bytes_def)

lemma read_bytes_split: "n \<le> len \<Longrightarrow> read_bytes pt a len = read_bytes pt a n @ read_bytes pt (a + n) (len - n)"
  by (rule nth_equalityI) (auto simp: nth_append)

lemma copyin_spec:
  assumes "pages_ok pt"
  shows "copyin pt va len =
    (if range_ok (\<lambda>m. user_byte pt m \<noteq> None) (unat va) len then Some (read_bytes pt (unat va) len) else None)"
proof (induction len arbitrary: va rule: less_induct)
  case (less len)
  show ?case
  proof (cases "len = 0")
    case True
    then show ?thesis by (simp add: copyin.simps range_ok_def read_bytes_def)
  next
    case False
    define n where "n = min (4096 - unat va mod 4096) len"
    have n0: "0 < n" "n \<le> len" "n \<le> 4096 - unat va mod 4096" using False by (auto simp: n_def)
    show ?thesis
    proof (cases "walkaddr pt (PGROUNDDOWN va)")
      case None
      then have "user_byte pt (unat va) = None" by (auto simp: walkaddr_page user_byte_def split: option.splits if_splits)
      then have "\<not> range_ok (\<lambda>m. user_byte pt m \<noteq> None) (unat va) len"
        using False by (auto simp: range_ok_def intro!: exI [of _ 0])
      with None False show ?thesis by (simp add: copyin.simps)
    next
      case (Some pg)
      then have pa: "page_at pt (unat va) = Some pg" by (auto simp: walkaddr_page split: option.splits if_splits)
      have len: "length (pg_data pg) = 4096" by (rule pages_okD [OF assms pa])
      have ub: "user_byte pt (unat va + k) = Some (pg_data pg ! (unat va mod 4096 + k))" if "k < n" for k
        using user_byte_page [of k va pt] that n0 Some by (simp add: walkaddr_page)
      have page: "range_ok (\<lambda>m. user_byte pt m \<noteq> None) (unat va) n" using ub by (simp add: range_ok_def)
      have piece: "take n (drop (unat va mod 4096) (pg_data pg)) = read_bytes pt (unat va) n"
        using ub len n0 by (intro nth_equalityI) auto
      have step: "copyin pt va len =
          map_option (\<lambda>rest. read_bytes pt (unat va) n @ rest) (copyin pt (PGROUNDDOWN va + 4096) (len - n))"
        using False Some piece by (subst copyin.simps) (simp add: unat_page_off n_def [symmetric])
      show ?thesis
      proof (cases "n = len")
        case True
        with step page show ?thesis by (simp add: copyin.simps)
      next
        case short: False
        then have "n = 4096 - unat va mod 4096" by (simp add: n_def min_def split: if_splits)
        moreover have "unat va < 2 ^ 38" using user_byte_bound [of pt "unat va"] ub [OF n0(1)] by simp
        ultimately have va1: "unat (PGROUNDDOWN va + 4096) = unat va + n" using next_page by simp
        have "len - n < len" using n0 False by simp
        note IH = less.IH [OF this, of "PGROUNDDOWN va + 4096", unfolded va1]
        from IH step page range_ok_split [OF n0(2), of "\<lambda>m. user_byte pt m \<noteq> None" "unat va"]
          read_bytes_split [OF n0(2), of pt "unat va"]
        show ?thesis by simp
      qed
    qed
  qed
qed

text \<open>The round trip: what \<open>copyout\<close> writes, \<open>copyin\<close> reads back.\<close>

lemma writable_user_byte: "writable pt n \<Longrightarrow> user_byte pt n \<noteq> None"
  by (auto simp: writable_def user_byte_def split: option.splits)

lemma copyout_copyin:
  assumes "pages_ok pt" "fst (copyout pt va src)"
  shows "copyin (snd (copyout pt va src)) va (length src) = Some src"
proof -
  note sp = copyout_spec [OF assms(1), of va src]
  let ?pt = "snd (copyout pt va src)"
  have b: "user_byte ?pt (unat va + k) = Some (src ! k)" if "k < length src" for k
    using sp assms(2) that by simp
  then have "range_ok (\<lambda>m. user_byte ?pt m \<noteq> None) (unat va) (length src)" by (simp add: range_ok_def)
  moreover have "read_bytes ?pt (unat va) (length src) = src"
    using b by (intro nth_equalityI) auto
  ultimately show ?thesis using copyin_spec [of ?pt va "length src"] sp by simp
qed

text \<open>A page table with one writable user page, for concrete states.\<close>

definition one_page :: "u64 \<Rightarrow> upagetable" where
  "one_page a = \<lparr>pt_root = 0x87fff000, pt_l1 = [], pt_l0 = [],
     pt_leaf = [a \<mapsto> \<lparr>pg_pa = 0x87ffe000, pg_flags = 23, pg_data = zero_page\<rparr>]\<rparr>"

lemma pages_ok_one_page: "pages_ok (one_page a)"
  by (auto simp: pages_ok_def page_at_def walk_def one_page_def zero_page_def split: if_splits)

lemma writable_one_page: "4096 \<le> n \<Longrightarrow> n < 8192 \<Longrightarrow> writable (one_page 4096) n"
proof -
  assume n: "4096 \<le> n" "n < 8192"
  then have "PGROUNDDOWN (of_nat n) = (4096 :: u64)"
  proof -
    have "n div 4096 = 1" using n by auto
    then show ?thesis using page_base_of_nat [of n] n by simp
  qed
  with n show ?thesis by (simp add: writable_def page_at_def walk_def one_page_def)
qed

text \<open>C22 (copyout_roundtrip). \<open>copyout\<close> succeeds exactly when every byte of the target range is on a
  mapped, writable user page; then \<open>copyin\<close> of the same range gives back exactly the bytes written, every
  byte outside the range is as before, and no permission has changed.\<close>

theorem copyout_roundtrip:
  assumes "pages_ok pt" and "copyout pt va src = (ok, pt')"
  shows "(ok \<longleftrightarrow> (\<forall>k < length src. writable pt (unat va + k))) \<and>
    (\<forall>m. writable pt' m = writable pt m) \<and>
    (ok \<longrightarrow> copyin pt' va (length src) = Some src \<and>
       (\<forall>m. \<not> (unat va \<le> m \<and> m < unat va + length src) \<longrightarrow> user_byte pt' m = user_byte pt m))"
  using copyout_spec [OF assms(1), of va src] copyout_copyin [OF assms(1), of va src] assms(2)
  by (simp add: range_ok_def)

theorem copyout_roundtrip_witness:
  "copyin (snd (copyout (one_page 4096) 5000 ''hello'')) 5000 (length ''hello'') = Some ''hello''"
proof -
  obtain ok pt' where r: "copyout (one_page 4096) 5000 ''hello'' = (ok, pt')" by force
  have "\<forall>k < length ''hello''. writable (one_page 4096) (unat (5000 :: u64) + k)"
    using writable_one_page by simp
  with copyout_roundtrip [OF pages_ok_one_page r] r show ?thesis by simp
qed

end
