(* ===== verification/SlotTable.thy ===== *)
theory SlotTable
  imports Prelude
begin

text \<open>
  The kernel keeps workflows, leases, file versions, tools and requests in fixed arrays of slots
  with a used flag, found by a linear scan on a key. A locale states what such a table promises:
  as long as no two used slots share a key, the array is a finite map from keys to slots, and the
  three things the code does to it - filling a free slot, clearing a slot, updating a slot in
  place - are the three updates of that map. Every table of the model interprets it.
\<close>

definition find_key :: "('a \<Rightarrow> bool) \<Rightarrow> ('a \<Rightarrow> 'k) \<Rightarrow> 'k \<Rightarrow> 'a list \<Rightarrow> nat option" where
  "find_key used key k xs = first_slot (\<lambda>x. used x \<and> key x = k) xs"

definition table_map :: "('a \<Rightarrow> bool) \<Rightarrow> ('a \<Rightarrow> 'k) \<Rightarrow> 'a list \<Rightarrow> 'k \<Rightarrow> 'a option" where
  "table_map used key xs k = map_option (nth xs) (find_key used key k xs)"

lemma find_keyD:
  "find_key used key k xs = Some i \<Longrightarrow> i < length xs \<and> used (xs ! i) \<and> key (xs ! i) = k"
  unfolding find_key_def by (drule first_slot_SomeD) simp

lemma find_key_None:
  "find_key used key k xs = None \<longleftrightarrow> (\<forall>i < length xs. used (xs ! i) \<longrightarrow> key (xs ! i) \<noteq> k)"
  by (auto simp: find_key_def first_slot_None all_set_conv_all_nth)

lemma find_key_uniq:
  assumes "uniq_keys used key xs" "i < length xs" "used (xs ! i)" "key (xs ! i) = k"
  shows "find_key used key k xs = Some i"
proof (cases "find_key used key k xs")
  case None
  with assms show ?thesis by (auto simp: find_key_None)
next
  case (Some j)
  with find_keyD [OF Some] assms uniq_keysD [OF assms(1), of j i] show ?thesis by auto
qed

lemma table_map_Some:
  assumes "uniq_keys used key xs"
  shows "table_map used key xs k = Some x \<longleftrightarrow> (\<exists>i < length xs. xs ! i = x \<and> used x \<and> key x = k)"
proof
  assume "table_map used key xs k = Some x"
  then obtain i where "find_key used key k xs = Some i" "xs ! i = x"
    by (auto simp: table_map_def)
  then show "\<exists>i < length xs. xs ! i = x \<and> used x \<and> key x = k"
    using find_keyD by metis
next
  assume "\<exists>i < length xs. xs ! i = x \<and> used x \<and> key x = k"
  then show "table_map used key xs k = Some x"
    using find_key_uniq [OF assms] by (auto simp: table_map_def)
qed

lemma table_map_eqI:
  assumes "uniq_keys used key xs"
    and "\<And>k x. m k = Some x \<longleftrightarrow> (\<exists>i < length xs. xs ! i = x \<and> used x \<and> key x = k)"
  shows "table_map used key xs = m"
proof
  fix k
  show "table_map used key xs k = m k"
    using table_map_Some [OF assms(1), of k] assms(2) [of k] by (metis not_None_eq)
qed

locale slot_table =
  fixes used :: "'a \<Rightarrow> bool"
    and key :: "'a \<Rightarrow> 'k"
    and blank :: 'a
  assumes blank_free: "\<not> used blank"
begin

lemma uniq_fill:
  assumes "uniq_keys used key xs" "find_key used key (key x) xs = None"
  shows "uniq_keys used key (xs[i := x])"
  using assms by (intro uniq_keys_insert) (auto simp: find_key_None)

lemma uniq_clear: "uniq_keys used key xs \<Longrightarrow> uniq_keys used key (xs[i := blank])"
  by (intro uniq_keys_update_same) (simp_all add: blank_free)

lemma uniq_clear_all: "uniq_keys used key xs \<Longrightarrow> uniq_keys used key (map_slots P (\<lambda>_. blank) xs)"
  by (rule uniq_keys_shrink [of used key xs]) (auto simp: nth_map_slots blank_free split: if_splits)

lemma map_empty: "table_map used key (replicate n blank) = (\<lambda>_. None)"
  by (rule table_map_eqI) (auto simp: uniq_keys_replicate blank_free)

lemma map_fill:
  assumes u: "uniq_keys used key xs" and fresh: "find_key used key (key x) xs = None"
    and i: "i < length xs" "\<not> used (xs ! i)" and x: "used x"
  shows "table_map used key (xs[i := x]) = (table_map used key xs)(key x \<mapsto> x)"
proof (rule table_map_eqI)
  show "uniq_keys used key (xs[i := x])" by (rule uniq_fill [OF u fresh])
  fix k y
  show "((table_map used key xs)(key x \<mapsto> x)) k = Some y \<longleftrightarrow>
        (\<exists>j < length (xs[i := x]). xs[i := x] ! j = y \<and> used y \<and> key y = k)"
    using i x fresh table_map_Some [OF u, of k y]
    by (auto simp: nth_list_update_if find_key_None split: if_splits)
qed

lemma map_clear:
  assumes u: "uniq_keys used key xs" and i: "i < length xs" "used (xs ! i)"
  shows "table_map used key (xs[i := blank]) = (table_map used key xs)(key (xs ! i) := None)"
proof (rule table_map_eqI)
  show "uniq_keys used key (xs[i := blank])" by (rule uniq_clear [OF u])
  fix k y
  show "((table_map used key xs)(key (xs ! i) := None)) k = Some y \<longleftrightarrow>
        (\<exists>j < length (xs[i := blank]). xs[i := blank] ! j = y \<and> used y \<and> key y = k)"
  proof (cases "k = key (xs ! i)")
    case True
    with blank_free show ?thesis
      by (auto simp: nth_list_update_if split: if_splits dest: uniq_keysD [OF u _ i(1) _ i(2)])
  next
    case False
    with i blank_free table_map_Some [OF u, of k y] show ?thesis
      by (auto simp: nth_list_update_if split: if_splits)
  qed
qed

lemma map_modify:
  assumes u: "uniq_keys used key xs" and i: "i < length xs" "used (xs ! i)"
    and x: "used x" "key x = key (xs ! i)"
  shows "table_map used key (xs[i := x]) = (table_map used key xs)(key x \<mapsto> x)"
proof (rule table_map_eqI)
  show "uniq_keys used key (xs[i := x])" using u x i by (intro uniq_keys_update_same) auto
  fix k y
  show "((table_map used key xs)(key x \<mapsto> x)) k = Some y \<longleftrightarrow>
        (\<exists>j < length (xs[i := x]). xs[i := x] ! j = y \<and> used y \<and> key y = k)"
  proof (cases "k = key x")
    case True
    with x i show ?thesis
      by (auto simp: nth_list_update_if split: if_splits dest: uniq_keysD [OF u _ i(1) _ i(2)])
  next
    case False
    with i x table_map_Some [OF u, of k y] show ?thesis
      by (auto simp: nth_list_update_if split: if_splits)
  qed
qed

lemma map_clear_all:
  assumes u: "uniq_keys used key xs"
  shows "table_map used key (map_slots P (\<lambda>_. blank) xs) k =
    (case table_map used key xs k of None \<Rightarrow> None | Some x \<Rightarrow> if P x then None else Some x)"
proof -
  have "table_map used key (map_slots P (\<lambda>_. blank) xs) =
    (\<lambda>k. case table_map used key xs k of None \<Rightarrow> None | Some x \<Rightarrow> if P x then None else Some x)"
  proof (rule table_map_eqI [OF uniq_clear_all [OF u]])
    fix k y
    show "(case table_map used key xs k of None \<Rightarrow> None | Some x \<Rightarrow> if P x then None else Some x) = Some y
      \<longleftrightarrow> (\<exists>i < length (map_slots P (\<lambda>_. blank) xs).
             map_slots P (\<lambda>_. blank) xs ! i = y \<and> used y \<and> key y = k)"
      using table_map_Some [OF u, of k y] blank_free
      by (auto simp: nth_map_slots split: option.splits if_splits)
  qed
  then show ?thesis by simp
qed

end

end
