(* ===== verification/FileSys.thy ===== *)
theory FileSys
  imports SlotTable AgentTypes UserMem "HOL-Library.Monad_Syntax"
begin

text \<open>
  The file system of kernel/fs.c: free bitmap, inodes, the in-memory inode table, file content,
  directories and path names. The disk is typed: the bitmap is a list of flags, the inode blocks
  are the list of on-disk inodes, every other block is its bytes. Reading a block (\<open>bread\<close>) and
  writing it through the log (\<open>log_write\<close>) are reading and updating the disk; the buffer cache and the
  log are \<open>BufCache\<close> and \<open>Log\<close>, below this model; the sleep locks are not part of it. \<open>None\<close> is a kernel panic. An inode pointer is
  the index of its slot of the inode table. One device: every inode has device 1 (ROOTDEV).
\<close>

abbreviation (input) T_DIR :: int where "T_DIR \<equiv> 1"
abbreviation (input) T_FILE :: int where "T_FILE \<equiv> 2"
abbreviation (input) T_DEVICE :: int where "T_DEVICE \<equiv> 3"
abbreviation (input) BSIZE :: nat where "BSIZE \<equiv> 1024"
abbreviation (input) NDIRECT :: nat where "NDIRECT \<equiv> 12"
abbreviation (input) NINDIRECT :: nat where "NINDIRECT \<equiv> 256"
abbreviation (input) MAXFILE :: nat where "MAXFILE \<equiv> 268"
abbreviation (input) ROOTDEV :: u32 where "ROOTDEV \<equiv> 1"
abbreviation (input) ROOTINO :: u32 where "ROOTINO \<equiv> 1"
abbreviation (input) DIRSIZ :: nat where "DIRSIZ \<equiv> 14"
abbreviation (input) DIRENT_SIZE :: nat where "DIRENT_SIZE \<equiv> 16"

record dinode =
  di_type :: int
  di_major :: int
  di_minor :: int
  di_nlink :: int
  di_size :: u32
  di_addrs :: "u32 list"
  di_attr_count :: int
  di_summary :: string
  di_attrs :: "inode_attr list"

text \<open>The in-memory copy: the disk inode's fields and the fields of the table.\<close>

record inode = dinode +
  in_dev :: u32
  in_inum :: u32
  in_ref :: int
  in_valid :: bool

record fsk =
  fk_bitmap :: "bool list"
  fk_dinodes :: "dinode list"
  fk_blocks :: "u32 \<Rightarrow> string"
  fk_itable :: "inode list"

record stat =
  st_dev :: u32
  st_ino :: u32
  st_type :: int
  st_nlink :: int
  st_size :: u32

definition zero_dinode :: dinode where
  "zero_dinode = \<lparr>di_type = 0, di_major = 0, di_minor = 0, di_nlink = 0, di_size = 0,
     di_addrs = replicate 13 0, di_attr_count = 0, di_summary = [], di_attrs = replicate 4 zero_attr\<rparr>"

definition zero_inode :: inode where
  "zero_inode = dinode.extend zero_dinode \<lparr>in_dev = 0, in_inum = 0, in_ref = 0, in_valid = False\<rparr>"

abbreviation ino :: "fsk \<Rightarrow> nat \<Rightarrow> inode" where
  "ino fs i \<equiv> fk_itable fs ! i"

definition upd_ino :: "nat \<Rightarrow> (inode \<Rightarrow> inode) \<Rightarrow> fsk \<Rightarrow> fsk" where
  "upd_ino i f fs = fs\<lparr>fk_itable := (fk_itable fs)[i := f (ino fs i)]\<rparr>"

subsection \<open>Blocks\<close>

definition bzero :: "u32 \<Rightarrow> fsk \<Rightarrow> fsk" where
  "bzero b fs = fs\<lparr>fk_blocks := (fk_blocks fs)(b := replicate BSIZE NUL)\<rparr>"

definition balloc :: "fsk \<Rightarrow> u32 \<times> fsk" where
  "balloc fs =
     (case first_slot (\<lambda>used. \<not> used) (fk_bitmap fs) of
        None \<Rightarrow> (0, fs)
      | Some b \<Rightarrow> (of_nat b, bzero (of_nat b) (fs\<lparr>fk_bitmap := (fk_bitmap fs)[b := True]\<rparr>)))"

text \<open>Freeing a block that is free is a panic; block numbers past the end of the disk do not occur
  in an inode.\<close>

definition bfree :: "u32 \<Rightarrow> fsk \<Rightarrow> fsk option" where
  "bfree b fs =
     (if unat b < length (fk_bitmap fs) \<and> fk_bitmap fs ! unat b
      then Some (fs\<lparr>fk_bitmap := (fk_bitmap fs)[unat b := False]\<rparr>) else None)"

subsection \<open>The inode table\<close>

definition in_used :: "inode \<Rightarrow> bool" where
  "in_used ip \<longleftrightarrow> in_ref ip > 0"

definition in_key :: "inode \<Rightarrow> u32 \<times> u32" where
  "in_key ip = (in_dev ip, in_inum ip)"

definition iget :: "u32 \<Rightarrow> u32 \<Rightarrow> fsk \<Rightarrow> (nat \<times> fsk) option" where
  "iget dev inum fs =
     (case find_key in_used in_key (dev, inum) (fk_itable fs) of
        Some i \<Rightarrow> Some (i, upd_ino i (\<lambda>ip. ip\<lparr>in_ref := in_ref ip + 1\<rparr>) fs)
      | None \<Rightarrow>
          (case first_slot (\<lambda>ip. in_ref ip = 0) (fk_itable fs) of
             None \<Rightarrow> None
           | Some i \<Rightarrow> Some (i, upd_ino i (\<lambda>ip. ip\<lparr>in_dev := dev, in_inum := inum, in_ref := 1, in_valid := False\<rparr>) fs)))"

definition idup :: "nat \<Rightarrow> fsk \<Rightarrow> fsk" where
  "idup i fs = upd_ino i (\<lambda>ip. ip\<lparr>in_ref := in_ref ip + 1\<rparr>) fs"

definition ialloc_slot :: "dinode list \<Rightarrow> nat option" where
  "ialloc_slot ds = map_option Suc (first_slot (\<lambda>d. di_type d = 0) (drop 1 ds))"

definition ialloc :: "int \<Rightarrow> fsk \<Rightarrow> (nat option \<times> fsk) option" where
  "ialloc type fs =
     (case ialloc_slot (fk_dinodes fs) of
        None \<Rightarrow> Some (None, fs)
      | Some n \<Rightarrow>
          do {
            (i, fs') \<leftarrow> iget ROOTDEV (of_nat n) (fs\<lparr>fk_dinodes := (fk_dinodes fs)[n := zero_dinode\<lparr>di_type := type\<rparr>]\<rparr>);
            Some (Some i, fs')
          })"

definition iupdate :: "nat \<Rightarrow> fsk \<Rightarrow> fsk" where
  "iupdate i fs = fs\<lparr>fk_dinodes := (fk_dinodes fs)[unat (in_inum (ino fs i)) := dinode.truncate (ino fs i)]\<rparr>"

text \<open>An inode number past the last inode is outside the typed disk: \<open>None\<close>.\<close>

definition ilock :: "nat \<Rightarrow> fsk \<Rightarrow> fsk option" where
  "ilock i fs =
     (if in_ref (ino fs i) < 1 then None
      else if in_valid (ino fs i) then Some fs
      else if unat (in_inum (ino fs i)) \<ge> length (fk_dinodes fs) then None
      else let d = fk_dinodes fs ! unat (in_inum (ino fs i))
           in if di_type d = 0 then None
              else Some (upd_ino i (\<lambda>ip. (dinode.extend d (dinode.more ip))\<lparr>in_valid := True\<rparr>) fs))"

definition iunlock :: "nat \<Rightarrow> fsk \<Rightarrow> fsk option" where
  "iunlock i fs = (if in_ref (ino fs i) < 1 then None else Some fs)"

subsection \<open>Truncating\<close>

definition indirect_entry :: "string \<Rightarrow> nat \<Rightarrow> u32" where
  "indirect_entry blk k = of_nat (le_value (take 4 (drop (4 * k) blk)))"

definition set_indirect :: "nat \<Rightarrow> u32 \<Rightarrow> string \<Rightarrow> string" where
  "set_indirect k a blk = store_bytes (4 * k) (le_bytes 4 (unat a)) blk"

fun free_direct :: "nat \<Rightarrow> nat list \<Rightarrow> fsk \<Rightarrow> fsk option" where
  "free_direct i [] fs = Some fs"
| "free_direct i (k # ks) fs =
     (let a = di_addrs (ino fs i) ! k
      in if a \<noteq> 0
         then (case bfree a fs of
                 None \<Rightarrow> None
               | Some fs' \<Rightarrow> free_direct i ks (upd_ino i (\<lambda>ip. ip\<lparr>di_addrs := (di_addrs ip)[k := 0]\<rparr>) fs'))
         else free_direct i ks fs)"

fun free_entries :: "u32 list \<Rightarrow> fsk \<Rightarrow> fsk option" where
  "free_entries [] fs = Some fs"
| "free_entries (a # as) fs =
     (if a \<noteq> 0 then (case bfree a fs of None \<Rightarrow> None | Some fs' \<Rightarrow> free_entries as fs')
      else free_entries as fs)"

definition itrunc :: "nat \<Rightarrow> fsk \<Rightarrow> fsk option" where
  "itrunc i fs =
     do {
       fs1 \<leftarrow> free_direct i [0..<NDIRECT] fs;
       fs2 \<leftarrow> (let a = di_addrs (ino fs1 i) ! NDIRECT
              in if a \<noteq> 0
                 then do {
                   f1 \<leftarrow> free_entries (map (indirect_entry (fk_blocks fs1 a)) [0..<NINDIRECT]) fs1;
                   f2 \<leftarrow> bfree a f1;
                   Some (upd_ino i (\<lambda>ip. ip\<lparr>di_addrs := (di_addrs ip)[NDIRECT := 0]\<rparr>) f2)
                 }
                 else Some fs1);
       Some (iupdate i (upd_ino i (\<lambda>ip. ip\<lparr>di_size := 0\<rparr>) fs2))
     }"

definition iput :: "nat \<Rightarrow> fsk \<Rightarrow> fsk option" where
  "iput i fs =
     do {
       fs1 \<leftarrow> (if in_ref (ino fs i) = 1 \<and> in_valid (ino fs i) \<and> di_nlink (ino fs i) = 0
              then do {
                f1 \<leftarrow> itrunc i fs;
                let f2 = upd_ino i (\<lambda>ip. ip\<lparr>di_type := 0, di_attr_count := 0, di_summary := [],
                           di_attrs := replicate 4 zero_attr\<rparr>) f1;
                Some (upd_ino i (\<lambda>ip. ip\<lparr>in_valid := False\<rparr>) (iupdate i f2))
              }
              else Some fs);
       Some (upd_ino i (\<lambda>ip. ip\<lparr>in_ref := in_ref ip - 1\<rparr>) fs1)
     }"

definition iunlockput :: "nat \<Rightarrow> fsk \<Rightarrow> fsk option" where
  "iunlockput i fs = do { fs1 \<leftarrow> iunlock i fs; iput i fs1 }"

subsection \<open>File content\<close>

definition bmap :: "nat \<Rightarrow> nat \<Rightarrow> fsk \<Rightarrow> (u32 \<times> fsk) option" where
  "bmap i bn fs =
     (if bn < NDIRECT then
        (if di_addrs (ino fs i) ! bn = 0
         then let (addr, fs1) = balloc fs
              in if addr = 0 then Some (0, fs1)
                 else Some (addr, upd_ino i (\<lambda>ip. ip\<lparr>di_addrs := (di_addrs ip)[bn := addr]\<rparr>) fs1)
         else Some (di_addrs (ino fs i) ! bn, fs))
      else if bn - NDIRECT < NINDIRECT then
        (let k = bn - NDIRECT;
             (ind, fs1) =
               (if di_addrs (ino fs i) ! NDIRECT = 0
                then let (addr, f1) = balloc fs
                     in if addr = 0 then (0, f1)
                        else (addr, upd_ino i (\<lambda>ip. ip\<lparr>di_addrs := (di_addrs ip)[NDIRECT := addr]\<rparr>) f1)
                else (di_addrs (ino fs i) ! NDIRECT, fs))
         in if ind = 0 then Some (0, fs1)
            else if indirect_entry (fk_blocks fs1 ind) k = 0
            then let (addr, f2) = balloc fs1
                 in if addr \<noteq> 0
                    then Some (addr, f2\<lparr>fk_blocks := (fk_blocks f2)(ind := set_indirect k addr (fk_blocks f2 ind))\<rparr>)
                    else Some (addr, f2)
            else Some (indirect_entry (fk_blocks fs1 ind) k, fs1))
      else None)"

definition stati :: "nat \<Rightarrow> fsk \<Rightarrow> stat" where
  "stati i fs = \<lparr>st_dev = in_dev (ino fs i), st_ino = in_inum (ino fs i), st_type = di_type (ino fs i),
     st_nlink = di_nlink (ino fs i), st_size = di_size (ino fs i)\<rparr>"

text \<open>\<open>readi\<close> copies each piece to its destination with \<open>either_copyout\<close>; the destination is the
  parameter \<open>put\<close>, a function of the bytes copied so far, which fails only for user memory. For a
  kernel destination the model returns the bytes (\<open>readi_kernel\<close>), for a user address it is
  \<open>copyout\<close> on the page table.\<close>

lemma div_step: "0 < m \<Longrightarrow> tot < n \<Longrightarrow> n - (tot + m) < n - (tot :: nat)"
  by simp

function readi_loop :: "(nat \<Rightarrow> string \<Rightarrow> 'd \<Rightarrow> bool \<times> 'd) \<Rightarrow> nat \<Rightarrow> nat \<Rightarrow> nat \<Rightarrow> nat \<Rightarrow> 'd \<Rightarrow> fsk \<Rightarrow> (int \<times> 'd \<times> fsk) option" where
  "readi_loop put i off n tot d fs =
     (if tot < n
      then case bmap i (off div BSIZE) fs of
             None \<Rightarrow> None
           | Some (addr, fs1) \<Rightarrow>
               if addr = 0 then Some (int tot, d, fs1)
               else let m = min (n - tot) (BSIZE - off mod BSIZE)
                    in (case put tot (take m (drop (off mod BSIZE) (fk_blocks fs1 addr))) d of
                          (False, d') \<Rightarrow> Some (-1, d', fs1)
                        | (True, d') \<Rightarrow> readi_loop put i (off + m) n (tot + m) d' fs1)
      else Some (int tot, d, fs))"
  by pat_completeness auto
termination
  by (relation "measure (\<lambda>(put, i, off, n, tot, d, fs). n - tot)") auto

declare readi_loop.simps [simp del]

definition readi :: "(nat \<Rightarrow> string \<Rightarrow> 'd \<Rightarrow> bool \<times> 'd) \<Rightarrow> nat \<Rightarrow> u32 \<Rightarrow> u32 \<Rightarrow> 'd \<Rightarrow> fsk \<Rightarrow> (int \<times> 'd \<times> fsk) option" where
  "readi put i off n d fs =
     (let size = di_size (ino fs i)
      in if off > size \<or> off + n < off then Some (0, d, fs)
         else let n' = (if off + n > size then size - off else n)
              in readi_loop put i (unat off) (unat n') 0 d fs)"

definition readi_kernel :: "nat \<Rightarrow> u32 \<Rightarrow> u32 \<Rightarrow> fsk \<Rightarrow> (int \<times> string \<times> fsk) option" where
  "readi_kernel i off n fs = readi (\<lambda>tot bs d. (True, d @ bs)) i off n [] fs"

text \<open>Reading a file may allocate blocks for its holes, but changes the size of no file.\<close>

lemma balloc_itable: "fk_itable (snd (balloc fs)) = fk_itable fs"
  by (simp add: balloc_def bzero_def split: option.split)

abbreviation sizes :: "fsk \<Rightarrow> u32 list" where
  "sizes fs \<equiv> map di_size (fk_itable fs)"

lemma sizes_upd_addrs [simp]: "sizes (upd_ino i (\<lambda>ip. ip\<lparr>di_addrs := f ip\<rparr>) fs) = sizes fs"
  by (cases "i < length (fk_itable fs)") (simp_all add: upd_ino_def map_update list_update_same_conv list_update_beyond)

lemma bmap_sizes: "bmap i bn fs = Some (a, fs') \<Longrightarrow> sizes fs' = sizes fs"
  unfolding bmap_def Let_def case_prod_beta by (auto simp: balloc_itable split: if_splits)

lemma readi_loop_sizes: "readi_loop put i off n tot d fs = Some (r, d', fs') \<Longrightarrow> sizes fs' = sizes fs"
proof (induction put i off n tot d fs rule: readi_loop.induct)
  case (1 put i off n tot d fs)
  show ?case
  proof (cases "tot < n")
    case False
    with "1.prems" show ?thesis by (simp add: readi_loop.simps)
  next
    case t: True
    then obtain a fs1 where b: "bmap i (off div BSIZE) fs = Some (a, fs1)"
      using "1.prems" by (auto simp: readi_loop.simps [of put i off n tot] split: option.splits)
    note s = bmap_sizes [OF b]
    show ?thesis
    proof (cases "a = 0")
      case True
      with "1.prems" t b s show ?thesis by (simp add: readi_loop.simps [of put i off n tot])
    next
      case False
      let ?m = "min (n - tot) (BSIZE - off mod BSIZE)"
      obtain ok d1 where p: "put tot (take ?m (drop (off mod BSIZE) (fk_blocks fs1 a))) d = (ok, d1)" by force
      show ?thesis
        using "1.prems" "1.IH" [OF t b HOL.refl False HOL.refl p [symmetric]] t b False p s
        by (cases ok) (simp_all add: readi_loop.simps [of put i off n tot] Let_def)
    qed
  qed
qed

lemma readi_kernel_frame: "readi_kernel i off n fs = Some (r, d, fs') \<Longrightarrow> sizes fs' = sizes fs"
  by (auto simp: readi_kernel_def readi_def Let_def split: if_splits dest: readi_loop_sizes)

definition readi_user :: "nat \<Rightarrow> u64 \<Rightarrow> u32 \<Rightarrow> u32 \<Rightarrow> upagetable \<Rightarrow> fsk \<Rightarrow> (int \<times> upagetable \<times> fsk) option" where
  "readi_user i dst off n pt fs = readi (\<lambda>tot bs pt. copyout pt (dst + of_nat tot) bs) i off n pt fs"

text \<open>\<open>writei\<close>: the source is the parameter \<open>get\<close>, from the number of bytes already written and
  the length of the piece to the bytes (\<open>None\<close> when user memory cannot be read).\<close>

function writei_loop :: "(nat \<Rightarrow> nat \<Rightarrow> string option) \<Rightarrow> nat \<Rightarrow> nat \<Rightarrow> nat \<Rightarrow> nat \<Rightarrow> fsk \<Rightarrow> (nat \<times> nat \<times> fsk) option" where
  "writei_loop get i off n tot fs =
     (if tot < n
      then case bmap i (off div BSIZE) fs of
             None \<Rightarrow> None
           | Some (addr, fs1) \<Rightarrow>
               if addr = 0 then Some (tot, off, fs1)
               else let m = min (n - tot) (BSIZE - off mod BSIZE)
                    in (case get tot m of
                          None \<Rightarrow> Some (tot, off, fs1)
                        | Some bs \<Rightarrow> writei_loop get i (off + m) n (tot + m)
                            (fs1\<lparr>fk_blocks := (fk_blocks fs1)(addr := store_bytes (off mod BSIZE) bs (fk_blocks fs1 addr))\<rparr>))
      else Some (tot, off, fs))"
  by pat_completeness auto
termination
  by (relation "measure (\<lambda>(get, i, off, n, tot, fs). n - tot)") auto

declare writei_loop.simps [simp del]

definition writei :: "(nat \<Rightarrow> nat \<Rightarrow> string option) \<Rightarrow> nat \<Rightarrow> u32 \<Rightarrow> u32 \<Rightarrow> fsk \<Rightarrow> (int \<times> fsk) option" where
  "writei get i off n fs =
     (if off > di_size (ino fs i) \<or> off + n < off then Some (-1, fs)
      else if unat (off + n) > MAXFILE * BSIZE then Some (-1, fs)
      else do {
        (tot, off', fs1) \<leftarrow> writei_loop get i (unat off) (unat n) 0 fs;
        let fs2 = (if off' > unat (di_size (ino fs1 i)) then upd_ino i (\<lambda>ip. ip\<lparr>di_size := of_nat off'\<rparr>) fs1 else fs1);
        Some (int tot, iupdate i fs2)
      })"

definition writei_kernel :: "nat \<Rightarrow> string \<Rightarrow> u32 \<Rightarrow> fsk \<Rightarrow> (int \<times> fsk) option" where
  "writei_kernel i data off fs = writei (\<lambda>tot m. Some (take m (drop tot data))) i off (of_nat (length data)) fs"

definition writei_user :: "nat \<Rightarrow> u64 \<Rightarrow> u32 \<Rightarrow> u32 \<Rightarrow> upagetable \<Rightarrow> fsk \<Rightarrow> (int \<times> fsk) option" where
  "writei_user i src off n pt fs = writei (\<lambda>tot m. copyin pt (src + of_nat tot) m) i off n fs"

subsection \<open>Directories\<close>

definition namecmp :: "string \<Rightarrow> string \<Rightarrow> int" where
  "namecmp s t = strncmp s t DIRSIZ"

definition dirent_inum :: "string \<Rightarrow> u16" where
  "dirent_inum de = of_nat (le_value (take 2 de))"

definition dirent_name :: "string \<Rightarrow> string" where
  "dirent_name de = cstr (take DIRSIZ (drop 2 de))"

text \<open>The loops over a directory, \<open>for(off = 0; off < dp->size; off += sizeof(de))\<close>; the size is read
  once because reading does not change it (\<open>readi_kernel_frame\<close>).\<close>

function dirlookup_loop :: "nat \<Rightarrow> string \<Rightarrow> nat \<Rightarrow> nat \<Rightarrow> fsk \<Rightarrow> ((u16 \<times> nat) option \<times> fsk) option" where
  "dirlookup_loop dp name sz off fs =
     (if off < sz
      then case readi_kernel dp (of_nat off) (of_nat DIRENT_SIZE) fs of
             None \<Rightarrow> None
           | Some (r, de, fs1) \<Rightarrow>
               if r \<noteq> int DIRENT_SIZE then None
               else if dirent_inum de \<noteq> 0 \<and> namecmp name (dirent_name de) = 0
               then Some (Some (dirent_inum de, off), fs1)
               else dirlookup_loop dp name sz (off + DIRENT_SIZE) fs1
      else Some (None, fs))"
  by pat_completeness auto
termination
  by (relation "measure (\<lambda>(dp, name, sz, off, fs). sz - off)") auto

declare dirlookup_loop.simps [simp del]

definition dirlookup :: "nat \<Rightarrow> string \<Rightarrow> fsk \<Rightarrow> ((nat \<times> nat) option \<times> fsk) option" where
  "dirlookup dp name fs =
     (if di_type (ino fs dp) \<noteq> T_DIR then None
      else do {
        (r, fs1) \<leftarrow> dirlookup_loop dp name (unat (di_size (ino fs dp))) 0 fs;
        (case r of
           None \<Rightarrow> Some (None, fs1)
         | Some (inum, off) \<Rightarrow>
             do { (i, fs2) \<leftarrow> iget (in_dev (ino fs1 dp)) (ucast inum) fs1; Some (Some (i, off), fs2) })
      })"

function dirlink_slot :: "nat \<Rightarrow> nat \<Rightarrow> nat \<Rightarrow> fsk \<Rightarrow> (nat \<times> fsk) option" where
  "dirlink_slot dp sz off fs =
     (if off < sz
      then case readi_kernel dp (of_nat off) (of_nat DIRENT_SIZE) fs of
             None \<Rightarrow> None
           | Some (r, de, fs1) \<Rightarrow>
               if r \<noteq> int DIRENT_SIZE then None
               else if dirent_inum de = 0 then Some (off, fs1)
               else dirlink_slot dp sz (off + DIRENT_SIZE) fs1
      else Some (off, fs))"
  by pat_completeness auto
termination
  by (relation "measure (\<lambda>(dp, sz, off, fs). sz - off)") auto

declare dirlink_slot.simps [simp del]

definition dirent_bytes :: "u16 \<Rightarrow> string \<Rightarrow> string" where
  "dirent_bytes inum name = le_bytes 2 (unat inum) @ strncpy (replicate DIRSIZ NUL) name DIRSIZ"

definition dirlink :: "nat \<Rightarrow> string \<Rightarrow> u32 \<Rightarrow> fsk \<Rightarrow> (int \<times> fsk) option" where
  "dirlink dp name inum fs =
     do {
       (r, fs1) \<leftarrow> dirlookup dp name fs;
       (case r of
          Some (i, _) \<Rightarrow> do { fs2 \<leftarrow> iput i fs1; Some (-1, fs2) }
        | None \<Rightarrow>
            do {
              (off, fs2) \<leftarrow> dirlink_slot dp (unat (di_size (ino fs1 dp))) 0 fs1;
              (w, fs3) \<leftarrow> writei_kernel dp (dirent_bytes (ucast inum) name) (of_nat off) fs2;
              Some (if w \<noteq> int DIRENT_SIZE then -1 else 0, fs3)
            })
     }"

subsection \<open>Path names\<close>

text \<open>\<open>skipelem\<close>: the rest of the path and the element, cut to fourteen bytes; \<open>None\<close> when no element is
  left.\<close>

definition skipelem :: "string \<Rightarrow> (string \<times> string) option" where
  "skipelem path =
     (let p = dropWhile (\<lambda>c. c = CHR ''/'') (cstr path)
      in if p = [] then None
         else let s = takeWhile (\<lambda>c. c \<noteq> CHR ''/'') p;
                  rest = dropWhile (\<lambda>c. c \<noteq> CHR ''/'') p
              in Some (dropWhile (\<lambda>c. c = CHR ''/'') rest, take DIRSIZ s))"

lemma skipelem_shorter: "skipelem path = Some (rest, name) \<Longrightarrow> length rest < length path"
proof -
  assume a: "skipelem path = Some (rest, name)"
  define p where "p = dropWhile (\<lambda>c. c = CHR ''/'') (cstr path)"
  from a have ne: "p \<noteq> []" and r: "rest = dropWhile (\<lambda>c. c = CHR ''/'') (dropWhile (\<lambda>c. c \<noteq> CHR ''/'') p)"
    by (auto simp: skipelem_def p_def Let_def split: if_splits)
  from ne have "hd p \<noteq> CHR ''/''" unfolding p_def by (rule hd_dropWhile)
  with ne obtain c q where p: "p = c # q" "c \<noteq> CHR ''/''" by (cases p) auto
  have "length rest \<le> length (dropWhile (\<lambda>c. c \<noteq> CHR ''/'') p)" using r length_dropWhile_le by metis
  also have "\<dots> \<le> length q" using p by (simp add: length_dropWhile_le)
  also have "\<dots> < length p" using p by simp
  also have "\<dots> \<le> length path" unfolding p_def using length_dropWhile_le length_cstr_le le_trans by metis
  finally show ?thesis .
qed

function namex_loop :: "bool \<Rightarrow> nat \<Rightarrow> string \<Rightarrow> string \<Rightarrow> fsk \<Rightarrow> (nat option \<times> string \<times> fsk) option" where
  "namex_loop parent i path name fs =
     (case skipelem path of
        None \<Rightarrow>
          if parent then (case iput i fs of None \<Rightarrow> None | Some fs1 \<Rightarrow> Some (None, name, fs1))
          else Some (Some i, name, fs)
      | Some (rest, elem) \<Rightarrow>
          (case ilock i fs of
             None \<Rightarrow> None
           | Some fs1 \<Rightarrow>
               if di_type (ino fs1 i) \<noteq> T_DIR
               then (case iunlockput i fs1 of None \<Rightarrow> None | Some fs2 \<Rightarrow> Some (None, elem, fs2))
               else if parent \<and> rest = []
               then (case iunlock i fs1 of None \<Rightarrow> None | Some fs2 \<Rightarrow> Some (Some i, elem, fs2))
               else (case dirlookup i elem fs1 of
                       None \<Rightarrow> None
                     | Some (None, fs2) \<Rightarrow>
                         (case iunlockput i fs2 of None \<Rightarrow> None | Some fs3 \<Rightarrow> Some (None, elem, fs3))
                     | Some (Some (j, _), fs2) \<Rightarrow>
                         (case iunlockput i fs2 of
                            None \<Rightarrow> None
                          | Some fs3 \<Rightarrow> namex_loop parent j rest elem fs3))))"
  by pat_completeness auto
termination
  by (relation "measure (\<lambda>(parent, i, path, name, fs). length path)") (auto dest: skipelem_shorter)

declare namex_loop.simps [simp del]

definition namex :: "nat \<Rightarrow> string \<Rightarrow> bool \<Rightarrow> fsk \<Rightarrow> (nat option \<times> string \<times> fsk) option" where
  "namex cwd path parent fs =
     (if hd0 path = CHR ''/''
      then do { (i, fs1) \<leftarrow> iget ROOTDEV ROOTINO fs; namex_loop parent i path [] fs1 }
      else namex_loop parent cwd path [] (idup cwd fs))"

definition namei :: "nat \<Rightarrow> string \<Rightarrow> fsk \<Rightarrow> (nat option \<times> fsk) option" where
  "namei cwd path fs = do { (r, _, fs1) \<leftarrow> namex cwd path False fs; Some (r, fs1) }"

definition nameiparent :: "nat \<Rightarrow> string \<Rightarrow> fsk \<Rightarrow> (nat option \<times> string \<times> fsk) option" where
  "nameiparent cwd path fs = namex cwd path True fs"

subsection \<open>The inode table as a table of slots\<close>

interpretation itb: slot_table in_used in_key zero_inode
  by unfold_locales (simp add: in_used_def zero_inode_def dinode.defs)

definition empty_fs :: fsk where
  "empty_fs = \<lparr>fk_bitmap = [], fk_dinodes = [], fk_blocks = (\<lambda>_. []), fk_itable = replicate 50 zero_inode\<rparr>"

end
