(* ===== verification/KernelState.thy ===== *)
theory KernelState
  imports AgentTypes UserMem FileSys
begin

text \<open>
  The process table entry (\<open>struct proc\<close>), the global agent state (\<open>struct agent_global_state\<close>)
  and the kernel state every component works on: the tick counter, the process table, the
  agent tables, the tool tables, the file index, the page allocator's free list and the kernel
  log. A page table or trapframe pointer of 0 is a page table with root 0, a trapframe at 0.
\<close>

datatype procstate = UNUSED | USED | SLEEPING | RUNNABLE | RUNNING | ZOMBIE

text \<open>What a process sleeps on: \<open>chan\<close> is an address; the addresses the agent code uses are
  the process itself, the tick counter and the dynamic request table.\<close>

datatype wchan = NoChan | ChanProc nat | ChanTicks | ChanRequests | ChanAddr u64 | ChanCons | ChanUart

text \<open>Open files (\<open>struct file\<close>), pipes (\<open>struct pipe\<close>, known by the address of its page) and mapped
  areas (\<open>struct vma\<close>); pointers to files and areas are indexes of their tables.\<close>

datatype fdtype = FD_NONE | FD_PIPE | FD_INODE | FD_DEVICE

record kfile =
  fl_type :: fdtype
  fl_ref :: int
  fl_readable :: bool
  fl_writable :: bool
  fl_pipe :: u64
  fl_ip :: nat
  fl_off :: u32
  fl_major :: int

record pipe =
  pi_data :: string
  pi_nread :: u32
  pi_nwrite :: u32
  pi_readopen :: bool
  pi_writeopen :: bool

record vma =
  vm_start :: u64
  vm_end :: u64
  vm_length :: u64
  vm_off :: u64
  vm_permission :: u64
  vm_flags :: int
  vm_file :: nat
  vm_next :: "nat option"

record xv6_proc =
  p_state :: procstate
  p_chan :: wchan
  p_killed :: bool
  p_xstate :: int
  p_pid :: int
  p_parent :: "nat option"
  p_sz :: u64
  p_trapframe :: u64
  p_pagetable :: upagetable
  p_ofile :: "nat option list"
  p_cwd :: "nat option"
  p_name :: string
  p_vma :: "nat option"

record proc = xv6_proc +
  agent_type :: int
  agent_role :: int
  agent_role_locked :: bool
  heartbeat_interval :: int
  resource_quota :: u64
  loop_state :: int
  context_region_start :: u64
  context_region_size :: u64
  context_path_len :: u64
  context_node_count :: u64
  context_dropped_nodes :: u64
  heartbeat_deadline :: u64
  heartbeat_wheel_next :: int
  heartbeat_wheel_bucket :: int
  heartbeat_wheel_active :: bool
  wakeup_tick :: u64
  runnable_since :: u64
  context_offsets :: "u16 list"
  context_lengths :: "u16 list"
  context_deps :: "agent_context_dep list"
  pending_context_dep :: bool
  pending_context_dev :: u32
  pending_context_inum :: u32
  pending_context_version :: u64
  watch_mask :: u32
  pending_events :: u32
  last_wakeup_reason :: u32
  agent_priority :: int
  agent_group :: int
  agent_capabilities :: u64
  workflow_id :: u64
  workflow_leader_pid :: int
  workflow_leader_generation :: u64
  agent_parent_pid :: int
  agent_parent_generation :: u64
  is_workflow_leader :: bool
  workflow_member_registered :: bool
  identity_generation :: u64
  mailbox :: agent_mailbox
  agent_watch_dev :: u32
  agent_watch_inum :: u32
  agent_watch_path :: string
  agent_sched_priority :: int
  agent_sched_quota :: int
  agent_sched_budget :: int
  agent_sched_boost :: int
  agent_sched_vruntime :: u64
  agent_sched_last_run :: u64
  agent_sched_budget_penalty :: int
  context_generation :: u64
  context_first_sequence :: u64
  context_next_sequence :: u64
  context_digests :: "agent_context_digest list"
  context_digest_head :: int
  context_digest_count :: int
  wait_generation :: u64
  wait_timeout_ticks :: int
  wait_deadline :: u64
  last_context_query :: u64
  context_reuse_hit :: int
  budget_replenish_deadline :: u64

record agent_global_state =
  gl_leases :: "agent_edit_lease list"
  gl_next_lease_id :: u64
  gl_next_identity_generation :: u64
  gl_heartbeat_wheel_heads :: "int list"
  gl_heartbeat_min_deadline :: u64
  gl_heartbeat_count :: int
  gl_heartbeat_tick_scanned :: u64
  gl_heartbeat_tick_wakeups :: u64
  gl_workflows :: "agent_workflow list"

text \<open>What the kernel prints: audit records (tick, actor pid, actor identity, target,
  capabilities, action, decision, status, cause) and the lifecycle lines of the cascade.\<close>

datatype klog =
    Audit u64 int u64 u64 u64 string bool int string
  | Terminating u64 int int
  | CascadeKilled int int

text \<open>The console input buffer and the transmit buffer of the UART. The transmitter is a device: it takes
  \<open>ua_room\<close> more bytes before it reports busy, and \<open>ua_out\<close> is what it was given so far.\<close>

record console =
  con_buf :: string
  con_r :: u32
  con_w :: u32
  con_e :: u32

record uart =
  ua_tx :: string
  ua_w :: u64
  ua_r :: u64
  ua_room :: nat
  ua_out :: string

definition zero_console :: console where
  "zero_console = \<lparr>con_buf = replicate 128 NUL, con_r = 0, con_w = 0, con_e = 0\<rparr>"

definition zero_uart :: uart where
  "zero_uart = \<lparr>ua_tx = replicate 32 NUL, ua_w = 0, ua_r = 0, ua_room = 0, ua_out = []\<rparr>"

record kst =
  ks_ticks :: u32
  ks_procs :: "proc list"
  ks_nextpid :: int
  ks_global :: agent_global_state
  ks_freelist :: "u64 list"
  ks_log :: "klog list"
  ks_dynamic_tools :: "agent_dynamic_tool list"
  ks_dynamic_requests :: "agent_dynamic_request_slot list"
  ks_next_request_id :: int
  ks_file_versions :: "agent_file_version list"
  ks_file_meta :: "agent_file_meta list"
  ks_file_postings :: "agent_file_posting list"
  ks_file_index :: "int list"
  ks_file_index_ready :: bool
  ks_agent_file_version :: u64
  ks_query_cache :: "shared_query_cache list"
  ks_cache_hits :: u64
  ks_cache_misses :: u64
  ks_fs :: fsk
  ks_files :: "kfile list"
  ks_pipes :: "u64 \<Rightarrow> pipe option"
  ks_vmas :: "vma list"
  ks_cons :: console
  ks_uart :: uart

subsection \<open>Reading and writing one process\<close>

abbreviation pr :: "kst \<Rightarrow> nat \<Rightarrow> proc" where
  "pr s i \<equiv> ks_procs s ! i"

definition upd_proc :: "nat \<Rightarrow> (proc \<Rightarrow> proc) \<Rightarrow> kst \<Rightarrow> kst" where
  "upd_proc i f s = s\<lparr>ks_procs := (ks_procs s)[i := f (pr s i)]\<rparr>"

definition upd_global :: "(agent_global_state \<Rightarrow> agent_global_state) \<Rightarrow> kst \<Rightarrow> kst" where
  "upd_global f s = s\<lparr>ks_global := f (ks_global s)\<rparr>"

text \<open>\<open>agent_now_safe\<close> and \<open>agent_now\<close>: the 32-bit tick counter, widened.\<close>

definition agent_now_safe :: "kst \<Rightarrow> u64" where
  "agent_now_safe s = ucast (ks_ticks s)"

lemma length_upd_proc [simp]: "length (ks_procs (upd_proc i f s)) = length (ks_procs s)"
  by (simp add: upd_proc_def)

lemma pr_upd_proc_same [simp]: "i < length (ks_procs s) \<Longrightarrow> pr (upd_proc i f s) i = f (pr s i)"
  by (simp add: upd_proc_def)

lemma pr_upd_proc_other [simp]: "i \<noteq> j \<Longrightarrow> pr (upd_proc i f s) j = pr s j"
  by (simp add: upd_proc_def)

lemma pr_upd_proc_if: "j < length (ks_procs s) \<Longrightarrow> pr (upd_proc i f s) j = (if i = j then f (pr s j) else pr s j)"
  by auto

lemma upd_proc_frame [simp]:
  "ks_ticks (upd_proc i f s) = ks_ticks s" "ks_nextpid (upd_proc i f s) = ks_nextpid s"
  "ks_global (upd_proc i f s) = ks_global s" "ks_freelist (upd_proc i f s) = ks_freelist s"
  "ks_log (upd_proc i f s) = ks_log s"
  "ks_dynamic_tools (upd_proc i f s) = ks_dynamic_tools s"
  "ks_dynamic_requests (upd_proc i f s) = ks_dynamic_requests s"
  "ks_next_request_id (upd_proc i f s) = ks_next_request_id s"
  "ks_file_versions (upd_proc i f s) = ks_file_versions s"
  "ks_file_meta (upd_proc i f s) = ks_file_meta s"
  "ks_file_postings (upd_proc i f s) = ks_file_postings s"
  "ks_file_index (upd_proc i f s) = ks_file_index s"
  "ks_file_index_ready (upd_proc i f s) = ks_file_index_ready s"
  "ks_agent_file_version (upd_proc i f s) = ks_agent_file_version s"
  "ks_query_cache (upd_proc i f s) = ks_query_cache s"
  "ks_cache_hits (upd_proc i f s) = ks_cache_hits s"
  "ks_cache_misses (upd_proc i f s) = ks_cache_misses s"
  "ks_fs (upd_proc i f s) = ks_fs s"
  "ks_files (upd_proc i f s) = ks_files s"
  "ks_pipes (upd_proc i f s) = ks_pipes s"
  "ks_vmas (upd_proc i f s) = ks_vmas s"
  by (simp_all add: upd_proc_def)

lemma upd_global_frame [simp]:
  "ks_ticks (upd_global f s) = ks_ticks s" "ks_nextpid (upd_global f s) = ks_nextpid s"
  "ks_procs (upd_global f s) = ks_procs s" "ks_global (upd_global f s) = f (ks_global s)"
  "ks_freelist (upd_global f s) = ks_freelist s" "ks_log (upd_global f s) = ks_log s"
  "ks_dynamic_tools (upd_global f s) = ks_dynamic_tools s"
  "ks_dynamic_requests (upd_global f s) = ks_dynamic_requests s"
  "ks_next_request_id (upd_global f s) = ks_next_request_id s"
  "ks_file_versions (upd_global f s) = ks_file_versions s"
  by (simp_all add: upd_global_def)

lemma agent_now_safe_upd [simp]:
  "agent_now_safe (upd_proc i f s) = agent_now_safe s"
  "agent_now_safe (upd_global g s) = agent_now_safe s"
  by (simp_all add: agent_now_safe_def)

subsection \<open>User memory of a process\<close>

definition copyout_proc :: "nat \<Rightarrow> u64 \<Rightarrow> string \<Rightarrow> kst \<Rightarrow> bool \<times> kst" where
  "copyout_proc i va bs s =
     (let (ok, pt) = copyout (p_pagetable (pr s i)) va bs
      in (ok, upd_proc i (\<lambda>p. p\<lparr>p_pagetable := pt\<rparr>) s))"

definition copyin_proc :: "nat \<Rightarrow> u64 \<Rightarrow> nat \<Rightarrow> kst \<Rightarrow> string option" where
  "copyin_proc i va n s = copyin (p_pagetable (pr s i)) va n"

lemma copyout_proc_frame [simp]:
  "ks_ticks (snd (copyout_proc i va bs s)) = ks_ticks s"
  "ks_global (snd (copyout_proc i va bs s)) = ks_global s"
  "ks_log (snd (copyout_proc i va bs s)) = ks_log s"
  "ks_freelist (snd (copyout_proc i va bs s)) = ks_freelist s"
  "ks_nextpid (snd (copyout_proc i va bs s)) = ks_nextpid s"
  "ks_dynamic_requests (snd (copyout_proc i va bs s)) = ks_dynamic_requests s"
  "ks_dynamic_tools (snd (copyout_proc i va bs s)) = ks_dynamic_tools s"
  "ks_file_versions (snd (copyout_proc i va bs s)) = ks_file_versions s"
  "length (ks_procs (snd (copyout_proc i va bs s))) = length (ks_procs s)"
  by (simp_all add: copyout_proc_def case_prod_beta Let_def)

lemma pr_copyout_proc:
  "i < length (ks_procs s) \<Longrightarrow> pr (snd (copyout_proc i va bs s)) j =
     (if i = j then (pr s j)\<lparr>p_pagetable := snd (copyout (p_pagetable (pr s i)) va bs)\<rparr> else pr s j)"
  by (simp add: copyout_proc_def case_prod_beta Let_def)

subsection \<open>The kernel log\<close>

definition agent_audit_record :: "nat \<Rightarrow> u64 \<Rightarrow> string \<Rightarrow> bool \<Rightarrow> int \<Rightarrow> string \<Rightarrow> kst \<Rightarrow> kst" where
  "agent_audit_record i target action decision status cause s =
     s\<lparr>ks_log := ks_log s @ [Audit (agent_now_safe s) (p_pid (pr s i)) (identity_generation (pr s i)) target
         (agent_capabilities (pr s i)) action decision status cause]\<rparr>"

lemma agent_audit_record_frame [simp]:
  "ks_ticks (agent_audit_record i t a d st c s) = ks_ticks s"
  "ks_procs (agent_audit_record i t a d st c s) = ks_procs s"
  "ks_global (agent_audit_record i t a d st c s) = ks_global s"
  "ks_freelist (agent_audit_record i t a d st c s) = ks_freelist s"
  "ks_dynamic_tools (agent_audit_record i t a d st c s) = ks_dynamic_tools s"
  "ks_dynamic_requests (agent_audit_record i t a d st c s) = ks_dynamic_requests s"
  by (simp_all add: agent_audit_record_def)

subsection \<open>Scans of the process table\<close>

text \<open>\<open>for(p = proc; p < &proc[NPROC]; p++)\<close> with a body that changes only \<open>*p\<close>.\<close>

definition for_procs :: "(proc \<Rightarrow> bool) \<Rightarrow> (proc \<Rightarrow> proc) \<Rightarrow> kst \<Rightarrow> kst" where
  "for_procs P f s = s\<lparr>ks_procs := map_slots P f (ks_procs s)\<rparr>"

lemma for_procs_frame [simp]:
  "ks_ticks (for_procs P f s) = ks_ticks s" "ks_global (for_procs P f s) = ks_global s"
  "ks_log (for_procs P f s) = ks_log s" "ks_nextpid (for_procs P f s) = ks_nextpid s"
  "length (ks_procs (for_procs P f s)) = length (ks_procs s)"
  "ks_dynamic_requests (for_procs P f s) = ks_dynamic_requests s"
  "ks_dynamic_tools (for_procs P f s) = ks_dynamic_tools s"
  "ks_file_versions (for_procs P f s) = ks_file_versions s"
  by (simp_all add: for_procs_def)

lemma pr_for_procs [slot_simps]:
  "i < length (ks_procs s) \<Longrightarrow> pr (for_procs P f s) i = (if P (pr s i) then f (pr s i) else pr s i)"
  by (simp add: for_procs_def nth_map_slots)

text \<open>The same scan when the body or the condition compares pointers into \<open>proc[]\<close>.\<close>

definition for_procs_idx :: "(nat \<Rightarrow> proc \<Rightarrow> bool) \<Rightarrow> (nat \<Rightarrow> proc \<Rightarrow> proc) \<Rightarrow> kst \<Rightarrow> kst" where
  "for_procs_idx P f s = s\<lparr>ks_procs :=
     map (\<lambda>i. if P i (pr s i) then f i (pr s i) else pr s i) [0..<length (ks_procs s)]\<rparr>"

lemma for_procs_idx_frame [simp]:
  "ks_ticks (for_procs_idx P f s) = ks_ticks s" "ks_global (for_procs_idx P f s) = ks_global s"
  "ks_log (for_procs_idx P f s) = ks_log s" "ks_nextpid (for_procs_idx P f s) = ks_nextpid s"
  "length (ks_procs (for_procs_idx P f s)) = length (ks_procs s)"
  "ks_dynamic_requests (for_procs_idx P f s) = ks_dynamic_requests s"
  "ks_dynamic_tools (for_procs_idx P f s) = ks_dynamic_tools s"
  "ks_file_versions (for_procs_idx P f s) = ks_file_versions s"
  by (simp_all add: for_procs_idx_def)

lemma pr_for_procs_idx [slot_simps]:
  "i < length (ks_procs s) \<Longrightarrow>
   pr (for_procs_idx P f s) i = (if P i (pr s i) then f i (pr s i) else pr s i)"
  by (simp add: for_procs_idx_def)

subsection \<open>The kernel's memory at boot\<close>

text \<open>Static storage is zero. Small process tables with a few live entries, built from these,
  are the concrete states of the witnesses.\<close>

definition null_pagetable :: upagetable where
  "null_pagetable = \<lparr>pt_root = 0, pt_l1 = [], pt_l0 = [], pt_leaf = (\<lambda>_. None)\<rparr>"

definition zero_proc :: proc where
  "zero_proc = \<lparr>p_state = UNUSED, p_chan = NoChan, p_killed = False, p_xstate = 0, p_pid = 0,
     p_parent = None, p_sz = 0, p_trapframe = 0, p_pagetable = null_pagetable, p_ofile = replicate 16 None, p_cwd = None,
     p_name = [], p_vma = None, agent_type = 0, agent_role = 0, agent_role_locked = False,
     heartbeat_interval = 0, resource_quota = 0, loop_state = 0, context_region_start = 0,
     context_region_size = 0, context_path_len = 0, context_node_count = 0,
     context_dropped_nodes = 0, heartbeat_deadline = 0, heartbeat_wheel_next = 0,
     heartbeat_wheel_bucket = 0, heartbeat_wheel_active = False, wakeup_tick = 0,
     runnable_since = 0, context_offsets = replicate 16 0, context_lengths = replicate 16 0,
     context_deps = replicate 16 zero_dep, pending_context_dep = False, pending_context_dev = 0,
     pending_context_inum = 0, pending_context_version = 0, watch_mask = 0, pending_events = 0,
     last_wakeup_reason = 0, agent_priority = 0, agent_group = 0, agent_capabilities = 0,
     workflow_id = 0, workflow_leader_pid = 0, workflow_leader_generation = 0,
     agent_parent_pid = 0, agent_parent_generation = 0, is_workflow_leader = False,
     workflow_member_registered = False, identity_generation = 0, mailbox = empty_mailbox,
     agent_watch_dev = 0, agent_watch_inum = 0, agent_watch_path = [], agent_sched_priority = 0,
     agent_sched_quota = 0, agent_sched_budget = 0, agent_sched_boost = 0,
     agent_sched_vruntime = 0, agent_sched_last_run = 0, agent_sched_budget_penalty = 0,
     context_generation = 0, context_first_sequence = 0, context_next_sequence = 0,
     context_digests = replicate 16 zero_digest, context_digest_head = 0,
     context_digest_count = 0, wait_generation = 0, wait_timeout_ticks = 0, wait_deadline = 0,
     last_context_query = 0, context_reuse_hit = 0, budget_replenish_deadline = 0\<rparr>"

definition zero_file :: kfile where
  "zero_file = \<lparr>fl_type = FD_NONE, fl_ref = 0, fl_readable = False, fl_writable = False, fl_pipe = 0,
     fl_ip = 0, fl_off = 0, fl_major = 0\<rparr>"

definition zero_vma :: vma where
  "zero_vma = \<lparr>vm_start = 0, vm_end = 0, vm_length = 0, vm_off = 0, vm_permission = 0, vm_flags = 0,
     vm_file = 0, vm_next = None\<rparr>"

definition zero_global :: agent_global_state where
  "zero_global = \<lparr>gl_leases = replicate 8 zero_lease, gl_next_lease_id = 0,
     gl_next_identity_generation = 0, gl_heartbeat_wheel_heads = replicate 64 0,
     gl_heartbeat_min_deadline = 0, gl_heartbeat_count = 0, gl_heartbeat_tick_scanned = 0,
     gl_heartbeat_tick_wakeups = 0, gl_workflows = replicate 16 zero_workflow\<rparr>"

definition boot_kst :: "proc list \<Rightarrow> kst" where
  "boot_kst ps = \<lparr>ks_ticks = 0, ks_procs = ps, ks_nextpid = 1, ks_global = zero_global,
     ks_freelist = [], ks_log = [], ks_dynamic_tools = replicate 8 zero_tool,
     ks_dynamic_requests = replicate 8 zero_request, ks_next_request_id = 1,
     ks_file_versions = replicate 256 zero_version, ks_file_meta = replicate 160 zero_meta,
     ks_file_postings = replicate 640 zero_posting, ks_file_index = replicate 67 0,
     ks_file_index_ready = False, ks_agent_file_version = 1,
     ks_query_cache = replicate 8 zero_cache, ks_cache_hits = 0, ks_cache_misses = 0, ks_fs = empty_fs,
     ks_files = replicate 100 zero_file, ks_pipes = (\<lambda>_. None), ks_vmas = replicate 16 zero_vma,
     ks_cons = zero_console, ks_uart = zero_uart\<rparr>"

lemma boot_kst_simps [simp]:
  "ks_ticks (boot_kst ps) = 0" "ks_procs (boot_kst ps) = ps" "ks_global (boot_kst ps) = zero_global"
  "ks_log (boot_kst ps) = []" "ks_freelist (boot_kst ps) = []"
  "ks_dynamic_tools (boot_kst ps) = replicate 8 zero_tool"
  "ks_dynamic_requests (boot_kst ps) = replicate 8 zero_request"
  "ks_next_request_id (boot_kst ps) = 1"
  "ks_file_versions (boot_kst ps) = replicate 256 zero_version"
  by (simp_all add: boot_kst_def)

definition wf_kst :: "kst \<Rightarrow> bool" where
  "wf_kst s \<longleftrightarrow> length (ks_procs s) = NPROC"

end
