(* ===== verification/Digest.thy ===== *)
theory Digest
  imports KernelState
begin

text \<open>
  The kernel's digest of an agent's Context (kernel/agent.c): FNV-1a over request and result, and
  a ring of sixteen entries in which each entry hashes its predecessor's hash. The ring refines a
  list of at most sixteen entries; \<open>agent_context_digest_verify\<close> accepts exactly the lists that
  are hash chains with consecutive sequence numbers, appending keeps a chain a chain, and changing
  any one field of an entry breaks it, because every step of the hash is injective.
\<close>

definition FNV_OFFSET :: u64 where "FNV_OFFSET = 14695981039346656037"
definition FNV_PRIME :: u64 where "FNV_PRIME = 1099511628211"

definition hash_step :: "u64 \<Rightarrow> u64 \<Rightarrow> u64" where
  "hash_step x h = (h XOR x) * FNV_PRIME"

definition agent_hash_bytes :: "string \<Rightarrow> nat \<Rightarrow> u64" where
  "agent_hash_bytes data len = fold (\<lambda>c. hash_step (of_char c)) (take len (cstr data)) FNV_OFFSET"

definition status_word :: "int \<Rightarrow> u64" where
  "status_word status = ucast (word_of_int status :: u32)"

definition digest_hash :: "u64 \<Rightarrow> u64 \<Rightarrow> u64 \<Rightarrow> u64 \<Rightarrow> u64 \<Rightarrow> int \<Rightarrow> u64" where
  "digest_hash sequence request_id request_hash result_hash prev_hash status =
     hash_step (status_word status) (hash_step prev_hash (hash_step result_hash
       (hash_step request_hash (hash_step request_id (hash_step sequence FNV_OFFSET)))))"

definition agent_context_digest_push :: "u64 \<Rightarrow> u64 \<Rightarrow> string \<Rightarrow> string \<Rightarrow> int \<Rightarrow> proc \<Rightarrow> proc" where
  "agent_context_digest_push sequence request_id request result status p =
     (let prev_hash = (if context_digest_count p > 0
            then let prev = context_digest_head p - 1; prev = (if prev < 0 then 15 else prev)
                 in dg_current_hash (context_digests p ! nat prev)
            else 0);
          rqh = agent_hash_bytes request (strlen request);
          rsh = agent_hash_bytes result (strlen result);
          d = \<lparr>dg_sequence = sequence, dg_request_id = request_id, dg_request_hash = rqh,
               dg_result_hash = rsh, dg_previous_hash = prev_hash,
               dg_current_hash = digest_hash sequence request_id rqh rsh prev_hash status,
               dg_status = status\<rparr>
      in p\<lparr>context_digests := (context_digests p)[nat (context_digest_head p) := d],
            context_digest_head := (context_digest_head p + 1) mod 16,
            context_digest_count := (if context_digest_count p < 16 then context_digest_count p + 1
                                     else context_digest_count p)\<rparr>)"

text \<open>The loop of \<open>agent_context_digest_verify\<close>, \<open>n\<close> entries to go.\<close>

fun digest_verify_loop :: "agent_context_digest list \<Rightarrow> int \<Rightarrow> nat \<Rightarrow> nat \<Rightarrow> u64 \<Rightarrow> u64 \<Rightarrow> int" where
  "digest_verify_loop ds first i 0 expected_prev previous_sequence = 0"
| "digest_verify_loop ds first i (Suc n) expected_prev previous_sequence =
     (let d = ds ! nat ((first + int i) mod 16)
      in if 0 < i \<and> dg_previous_hash d \<noteq> expected_prev then -1
         else if 0 < i \<and> dg_sequence d \<noteq> previous_sequence + 1 then -1
         else if digest_hash (dg_sequence d) (dg_request_id d) (dg_request_hash d) (dg_result_hash d)
                   (dg_previous_hash d) (dg_status d) \<noteq> dg_current_hash d then -1
         else digest_verify_loop ds first (Suc i) n (dg_current_hash d) (dg_sequence d))"

definition agent_context_digest_verify :: "proc \<Rightarrow> int" where
  "agent_context_digest_verify p =
     (if context_digest_count p < 0 \<or> context_digest_count p > 16 \<or>
         context_digest_head p < 0 \<or> context_digest_head p \<ge> 16 then -1
      else if context_digest_count p = 0 then 0
      else let first = context_digest_head p - context_digest_count p;
               first = (if first < 0 then first + 16 else first)
           in digest_verify_loop (context_digests p) first 0 (nat (context_digest_count p)) 0 0)"

text \<open>\<open>memset(p->context_digests, 0, ...); head = count = 0\<close>\<close>

definition digest_clear :: "proc \<Rightarrow> proc" where
  "digest_clear p = p\<lparr>context_digests := replicate 16 zero_digest, context_digest_head := 0,
     context_digest_count := 0\<rparr>"

subsection \<open>The hash is injective in every argument\<close>

lemma fnv_prime_inverse: "FNV_PRIME * 14886173955864302971 = 1"
  by (simp add: FNV_PRIME_def)

lemma mult_prime_inj: "a * FNV_PRIME = b * FNV_PRIME \<longleftrightarrow> a = b"
proof
  assume "a * FNV_PRIME = b * FNV_PRIME"
  then have "a * FNV_PRIME * 14886173955864302971 = b * FNV_PRIME * 14886173955864302971"
    by (rule arg_cong)
  then show "a = b" by (simp only: mult.assoc fnv_prime_inverse mult_1_right)
qed simp

lemma xor_inj: "(a :: u64) XOR b = c XOR b \<longleftrightarrow> a = c"
proof
  assume "a XOR b = c XOR b"
  then have "(a XOR b) XOR b = (c XOR b) XOR b" by (rule arg_cong)
  then show "a = c" by (simp add: xor.assoc)
qed simp

lemma hash_step_inj [simp]: "hash_step x h = hash_step y h \<longleftrightarrow> x = y" "hash_step x h = hash_step x k \<longleftrightarrow> h = k"
  unfolding hash_step_def mult_prime_inj
  using xor_inj [of x h y] xor_inj [of h x k] by (simp_all add: xor.commute)

lemma status_word_inj:
  assumes "-(2^31) \<le> s" "s < 2^31" "-(2^31) \<le> t" "t < 2^31"
  shows "status_word s = status_word t \<longleftrightarrow> s = t"
proof
  assume eq: "status_word s = status_word t"
  have u: "uint (status_word r) = uint (word_of_int r :: u32)" for r
    using uint_lt2p [of "word_of_int r :: u32"]
    by (simp add: status_word_def unsigned_ucast_eq take_bit_int_eq_self)
  have "(word_of_int s :: u32) = word_of_int t"
    using eq u [of s] u [of t] by (simp add: word_uint_eq_iff)
  then have "sint (word_of_int s :: u32) = sint (word_of_int t :: u32)" by simp
  with assms show "s = t" by (simp add: sint_sbintrunc' signed_take_bit_int_eq_self)
qed simp

subsection \<open>The ring as a list\<close>

definition digest_wf :: "proc \<Rightarrow> bool" where
  "digest_wf p \<longleftrightarrow> length (context_digests p) = 16 \<and> 0 \<le> context_digest_head p \<and> context_digest_head p < 16 \<and>
     0 \<le> context_digest_count p \<and> context_digest_count p \<le> 16"

definition digest_list :: "proc \<Rightarrow> agent_context_digest list" where
  "digest_list p = map (\<lambda>k. context_digests p ! nat ((context_digest_head p - context_digest_count p + int k) mod 16))
     [0..<nat (context_digest_count p)]"

definition digest_valid :: "agent_context_digest \<Rightarrow> bool" where
  "digest_valid d \<longleftrightarrow> digest_hash (dg_sequence d) (dg_request_id d) (dg_request_hash d) (dg_result_hash d)
     (dg_previous_hash d) (dg_status d) = dg_current_hash d"

definition digest_linked :: "agent_context_digest \<Rightarrow> agent_context_digest \<Rightarrow> bool" where
  "digest_linked d e \<longleftrightarrow> dg_previous_hash e = dg_current_hash d \<and> dg_sequence e = dg_sequence d + 1"

definition chain_ok :: "agent_context_digest list \<Rightarrow> bool" where
  "chain_ok ds \<longleftrightarrow> (\<forall>k < length ds. digest_valid (ds ! k)) \<and>
     (\<forall>k. Suc k < length ds \<longrightarrow> digest_linked (ds ! k) (ds ! Suc k))"

lemma length_digest_list [simp]: "length (digest_list p) = nat (context_digest_count p)"
  by (simp add: digest_list_def)

lemma verify_loop_range: "digest_verify_loop ds first i n e q = 0 \<or> digest_verify_loop ds first i n e q = -1"
  by (induction ds first i n e q rule: digest_verify_loop.induct) (auto simp: Let_def)

lemma verify_loop_iff:
  assumes "\<And>k. k < n \<Longrightarrow> ds ! nat ((first + int (i + k)) mod 16) = D (i + k)"
    and "0 < i \<Longrightarrow> e = dg_current_hash (D (i - 1)) \<and> q = dg_sequence (D (i - 1))"
  shows "digest_verify_loop ds first i n e q = 0 \<longleftrightarrow>
    (\<forall>k. i \<le> k \<and> k < i + n \<longrightarrow> digest_valid (D k) \<and> (0 < k \<longrightarrow> digest_linked (D (k - 1)) (D k)))"
  using assms
proof (induction n arbitrary: i e q)
  case 0
  have "\<not> (i \<le> k \<and> k < i + 0)" for k by simp
  then show ?case by (simp only: digest_verify_loop.simps) simp
next
  case (Suc n)
  have d: "ds ! nat ((first + int i) mod 16) = D i" using Suc.prems(1) [of 0] by simp
  have IH: "digest_verify_loop ds first (Suc i) n (dg_current_hash (D i)) (dg_sequence (D i)) = 0 \<longleftrightarrow>
      (\<forall>k. Suc i \<le> k \<and> k < Suc i + n \<longrightarrow> digest_valid (D k) \<and> (0 < k \<longrightarrow> digest_linked (D (k - 1)) (D k)))"
    using Suc.prems(1) [of "Suc _"] by (intro Suc.IH) simp_all
  have ex: "(i \<le> k \<and> k < i + Suc n) = (k = i \<or> (Suc i \<le> k \<and> k < Suc i + n))" for k by arith
  have split: "(\<forall>k. i \<le> k \<and> k < i + Suc n \<longrightarrow> P k) \<longleftrightarrow> P i \<and> (\<forall>k. Suc i \<le> k \<and> k < Suc i + n \<longrightarrow> P k)" for P
    by (simp only: ex imp_disjL all_conj_distrib simp_thms)
  define Q where "Q \<longleftrightarrow> (\<forall>k. Suc i \<le> k \<and> k < Suc i + n \<longrightarrow> digest_valid (D k) \<and> (0 < k \<longrightarrow> digest_linked (D (k - 1)) (D k)))"
  show ?case
    unfolding split Q_def [symmetric] using IH [folded Q_def] d Suc.prems(2)
    by (cases "i = 0") (auto simp: Let_def digest_valid_def digest_linked_def)
qed

lemma verify_iff_chain:
  assumes "digest_wf p"
  shows "agent_context_digest_verify p = 0 \<longleftrightarrow> chain_ok (digest_list p)"
proof -
  let ?n = "nat (context_digest_count p)" and ?D = "\<lambda>k. digest_list p ! k"
  let ?f = "context_digest_head p - context_digest_count p"
  let ?first = "if ?f < 0 then ?f + 16 else ?f"
  have D: "context_digests p ! nat ((?first + int (0 + k)) mod 16) = ?D (0 + k)" if "k < ?n" for k
  proof -
    have "(?f + int k + 16) mod 16 = (?f + int k) mod 16" by (rule mod_add_self2)
    with that show ?thesis by (simp add: digest_list_def algebra_simps)
  qed
  have "agent_context_digest_verify p = 0 \<longleftrightarrow> digest_verify_loop (context_digests p) ?first 0 ?n 0 0 = 0"
    using assms by (auto simp: agent_context_digest_verify_def digest_wf_def Let_def)
  also have "\<dots> \<longleftrightarrow> (\<forall>k. 0 \<le> k \<and> k < 0 + ?n \<longrightarrow> digest_valid (?D k) \<and> (0 < k \<longrightarrow> digest_linked (?D (k - 1)) (?D k)))"
    by (rule verify_loop_iff [OF D]) auto
  also have "\<dots> \<longleftrightarrow> chain_ok (digest_list p)"
  proof -
    have "(\<forall>k < ?n. 0 < k \<longrightarrow> digest_linked (?D (k - 1)) (?D k)) \<longleftrightarrow> (\<forall>k. Suc k < ?n \<longrightarrow> digest_linked (?D k) (?D (Suc k)))"
      by (metis Suc_pred diff_Suc_1 zero_less_Suc)
    then show ?thesis by (auto simp: chain_ok_def)
  qed
  finally show ?thesis .
qed

subsection \<open>Appending an entry\<close>

definition digest_entry :: "u64 \<Rightarrow> u64 \<Rightarrow> string \<Rightarrow> string \<Rightarrow> int \<Rightarrow> u64 \<Rightarrow> agent_context_digest" where
  "digest_entry sequence request_id request result status prev_hash =
     (let rqh = agent_hash_bytes request (strlen request); rsh = agent_hash_bytes result (strlen result)
      in \<lparr>dg_sequence = sequence, dg_request_id = request_id, dg_request_hash = rqh, dg_result_hash = rsh,
          dg_previous_hash = prev_hash,
          dg_current_hash = digest_hash sequence request_id rqh rsh prev_hash status, dg_status = status\<rparr>)"

lemma digest_entry_simps [simp]:
  "digest_valid (digest_entry q r rq rs st ph)" "dg_previous_hash (digest_entry q r rq rs st ph) = ph"
  "dg_sequence (digest_entry q r rq rs st ph) = q"
  by (simp_all add: digest_entry_def digest_valid_def Let_def)

lemma digest_list_nth:
  "k < nat (context_digest_count p) \<Longrightarrow>
   digest_list p ! k = context_digests p ! nat ((context_digest_head p - context_digest_count p + int k) mod 16)"
  by (simp add: digest_list_def)

lemma last_digest:
  assumes "digest_wf p" "0 < context_digest_count p"
  shows "last (digest_list p) = context_digests p ! nat (if context_digest_head p - 1 < 0 then 15 else context_digest_head p - 1)"
proof -
  have "digest_list p \<noteq> []" using assms(2) by (metis length_digest_list length_greater_0_conv zero_less_nat_eq)
  then have "last (digest_list p) = digest_list p ! (nat (context_digest_count p) - 1)"
    by (simp add: last_conv_nth)
  also have "\<dots> = context_digests p ! nat ((context_digest_head p - 1) mod 16)"
    using assms by (subst digest_list_nth) (auto simp: nat_diff_distrib')
  also have "(context_digest_head p - 1) mod 16 = (if context_digest_head p - 1 < 0 then 15 else context_digest_head p - 1)"
    using assms(1) by (cases "context_digest_head p = 0") (auto simp: digest_wf_def)
  finally show ?thesis .
qed

lemma digest_push_simps:
  assumes "digest_wf p"
  shows "agent_context_digest_push q r rq rs st p =
    p\<lparr>context_digests := (context_digests p)[nat (context_digest_head p) :=
          digest_entry q r rq rs st (if digest_list p = [] then 0 else dg_current_hash (last (digest_list p)))],
      context_digest_head := (context_digest_head p + 1) mod 16,
      context_digest_count := (if context_digest_count p < 16 then context_digest_count p + 1 else context_digest_count p)\<rparr>"
proof -
  have "digest_list p = [] \<longleftrightarrow> \<not> 0 < context_digest_count p"
    by (metis length_digest_list length_0_conv nat_eq_iff2 nat_0_iff not_less)
  then show ?thesis
    using last_digest [OF assms]
    by (simp add: agent_context_digest_push_def digest_entry_def Let_def)
qed

lemma digest_wf_push: "digest_wf p \<Longrightarrow> digest_wf (agent_context_digest_push q r rq rs st p)"
  by (simp add: digest_push_simps) (auto simp: digest_wf_def)

lemma ring_shift: "((h + 1) mod 16 - c + k) mod 16 = (h - (c - 1 - k)) mod (16 :: int)"
proof -
  have "((h + 1) mod 16 + (k - c)) mod 16 = (h + 1 + (k - c)) mod 16" by (rule mod_add_left_eq)
  then show ?thesis by (simp add: algebra_simps)
qed

lemma ring_mod_neq: "0 < m \<Longrightarrow> m < 16 \<Longrightarrow> (h - m) mod 16 \<noteq> (h :: int) mod 16"
proof
  assume m: "0 < m" "m < 16" and "(h - m) mod 16 = h mod 16"
  then have "16 dvd m" by (metis mod_eq_dvd_iff dvd_diff_commute diff_diff_eq2 add_diff_cancel_left')
  with m show False using zdvd_imp_le by fastforce
qed

lemma digest_list_push:
  assumes wf: "digest_wf p"
  shows "digest_list (agent_context_digest_push q r rq rs st p) =
    (if length (digest_list p) = 16 then tl (digest_list p) else digest_list p) @
      [digest_entry q r rq rs st (if digest_list p = [] then 0 else dg_current_hash (last (digest_list p)))]"
proof -
  define e where "e = digest_entry q r rq rs st (if digest_list p = [] then 0 else dg_current_hash (last (digest_list p)))"
  define p' where "p' = agent_context_digest_push q r rq rs st p"
  define c where "c = context_digest_count p"
  define h where "h = context_digest_head p"
  define c' where "c' = (if c < 16 then c + 1 else c)"
  define old where "old = (if length (digest_list p) = 16 then tl (digest_list p) else digest_list p)"
  have w: "length (context_digests p) = 16" "0 \<le> h" "h < 16" "0 \<le> c" "c \<le> 16"
    using wf by (simp_all add: digest_wf_def c_def h_def)
  have p': "context_digests p' = (context_digests p)[nat h := e]" "context_digest_head p' = (h + 1) mod 16"
    "context_digest_count p' = c'"
    by (simp_all add: p'_def e_def digest_push_simps [OF wf] h_def c_def c'_def)
  have len: "length (digest_list p) = nat c" by (simp add: c_def)
  have c': "1 \<le> c'" "c' \<le> 16" using w by (auto simp: c'_def)
  have old: "length old = nat (c' - 1)" using w len by (auto simp: old_def c'_def)
  have at: "digest_list p' ! k = (context_digests p)[nat h := e] ! nat ((h - (c' - 1 - int k)) mod 16)" if "k < nat c'" for k
    using that digest_list_nth [of k p'] by (simp add: p' ring_shift)
  have hm: "h mod 16 = h" using w by simp
  have hd: "digest_list p' ! k = old ! k" if k: "k < nat (c' - 1)" for k
  proof -
    define m where "m = c' - 1 - int k"
    have m: "0 < m" "m < 16" using k c' by (auto simp: m_def)
    have "(h - m) mod 16 \<noteq> h" using ring_mod_neq [OF m, of h] hm by simp
    then have "nat ((h - m) mod 16) \<noteq> nat h" using w by (subst eq_nat_nat_iff) simp_all
    then have "digest_list p' ! k = context_digests p ! nat ((h - m) mod 16)"
      using at [of k] k by (simp add: m_def)
    also have "\<dots> = old ! k"
    proof (cases "c < 16")
      case True
      then have "old ! k = digest_list p ! k" using len w by (auto simp: old_def)
      moreover have "k < nat c" using True k by (simp add: c'_def)
      moreover have eq: "h - m = h - c + int k" using True by (simp add: m_def c'_def)
      ultimately show ?thesis unfolding eq using digest_list_nth [of k p, folded c_def h_def] by simp
    next
      case False
      then have c16: "c = 16" using w by simp
      then have "old ! k = digest_list p ! Suc k" using len k by (simp add: old_def nth_tl c'_def)
      moreover have "Suc k < nat c" using c16 k by (simp add: c'_def)
      moreover have eq: "h - m = h - c + int (Suc k)" using c16 by (simp add: m_def c'_def)
      ultimately show ?thesis unfolding eq using digest_list_nth [of "Suc k" p, folded c_def h_def] by simp
    qed
    finally show ?thesis .
  qed
  have lst: "digest_list p' ! nat (c' - 1) = e"
  proof -
    have "nat (c' - 1) < nat c'" "c' - 1 - int (nat (c' - 1)) = 0" using c' by auto
    moreover have "nat h < length (context_digests p)" using w by auto
    ultimately show ?thesis using at [of "nat (c' - 1)"] hm c' by simp
  qed
  have "digest_list p' = old @ [e]"
  proof (rule nth_equalityI)
    show "length (digest_list p') = length (old @ [e])" using old c' by (simp add: p')
    fix k assume "k < length (digest_list p')"
    then have "k < nat (c' - 1) \<or> k = nat (c' - 1)" by (auto simp: p')
    then show "digest_list p' ! k = (old @ [e]) ! k" using hd lst old by (auto simp: nth_append)
  qed
  then show ?thesis by (simp add: p'_def old_def e_def)
qed

lemma chain_ok_tl: "chain_ok ds \<Longrightarrow> chain_ok (tl ds)"
  by (cases ds) (auto simp: chain_ok_def)

lemma chain_ok_snoc:
  assumes "chain_ok ds" "digest_valid d" "ds \<noteq> [] \<Longrightarrow> digest_linked (last ds) d"
  shows "chain_ok (ds @ [d])"
proof -
  have "digest_linked ((ds @ [d]) ! k) ((ds @ [d]) ! Suc k)" if "Suc k < length (ds @ [d])" for k
  proof (cases "Suc k < length ds")
    case True
    with assms(1) show ?thesis by (simp add: chain_ok_def nth_append)
  next
    case False
    with that have k: "Suc k = length ds" by simp
    then have "last ds = ds ! k" by (metis diff_Suc_1 last_conv_nth length_0_conv nat.distinct(1))
    moreover have "ds \<noteq> []" using k by auto
    ultimately show ?thesis using assms(3) k by (auto simp: nth_append)
  qed
  with assms(1,2) show ?thesis by (auto simp: chain_ok_def nth_append less_Suc_eq)
qed

subsection \<open>Properties\<close>

lemma verify_cases: "agent_context_digest_verify p = 0 \<or> agent_context_digest_verify p = -1"
  using verify_loop_range by (auto simp: agent_context_digest_verify_def Let_def)

lemma digest_wf_clear: "digest_wf (digest_clear p)"
  by (simp add: digest_wf_def digest_clear_def)

lemma digest_list_clear [simp]: "digest_list (digest_clear p) = []"
  by (simp add: digest_list_def digest_clear_def)

text \<open>Pushing a list of (request id, request, result, status) with consecutive sequence numbers.\<close>

fun push_all :: "u64 \<Rightarrow> (u64 \<times> string \<times> string \<times> int) list \<Rightarrow> proc \<Rightarrow> proc" where
  "push_all q [] p = p"
| "push_all q ((r, rq, rs, st) # xs) p = push_all (q + 1) xs (agent_context_digest_push q r rq rs st p)"

lemma push_all_chain:
  assumes "digest_wf p" "chain_ok (digest_list p)" "digest_list p \<noteq> [] \<Longrightarrow> dg_sequence (last (digest_list p)) + 1 = q"
  shows "digest_wf (push_all q xs p) \<and> chain_ok (digest_list (push_all q xs p))"
  using assms
proof (induction q xs p rule: push_all.induct)
  case (1 q p)
  then show ?case by simp
next
  case (2 q r rq rs st xs p)
  let ?p' = "agent_context_digest_push q r rq rs st p"
  let ?e = "digest_entry q r rq rs st (if digest_list p = [] then 0 else dg_current_hash (last (digest_list p)))"
  let ?old = "if length (digest_list p) = 16 then tl (digest_list p) else digest_list p"
  have dl: "digest_list ?p' = ?old @ [?e]" by (rule digest_list_push [OF "2.prems"(1)])
  have last_old: "last ?old = last (digest_list p)" if "?old \<noteq> []"
    using that by (auto simp: last_tl split: if_splits)
  have "chain_ok (?old @ [?e])"
  proof (rule chain_ok_snoc)
    show "chain_ok ?old" using "2.prems"(2) chain_ok_tl by simp
    show "digest_valid ?e" by simp
    assume ne: "?old \<noteq> []"
    then have "digest_list p \<noteq> []" by (auto split: if_splits)
    with "2.prems"(3) last_old [OF ne] show "digest_linked (last ?old) ?e"
      by (simp add: digest_linked_def)
  qed
  then have "chain_ok (digest_list ?p')" using dl by simp
  moreover have "dg_sequence (last (digest_list ?p')) + 1 = q + 1" using dl by simp
  ultimately show ?case
    using "2.IH" [OF digest_wf_push [OF "2.prems"(1)]] by simp
qed

lemma drop_shift:
  assumes "length ids \<le> 16"
  shows "drop ((if length ids = 16 then 16 else Suc (length ids)) + m - 16) ((if length ids = 16 then tl ids else ids) @ r # ys) =
    drop (length ids + Suc m - 16) (ids @ r # ys)"
proof (cases "length ids = 16")
  case True
  then show ?thesis by (cases ids) auto
next
  case False
  then show ?thesis by simp
qed

lemma push_all_requests:
  assumes "digest_wf p"
  shows "map dg_request_id (digest_list (push_all q xs p)) =
    drop (length (digest_list p) + length xs - 16) (map dg_request_id (digest_list p) @ map fst xs)"
  using assms
proof (induction q xs p rule: push_all.induct)
  case (1 q p)
  have "length (digest_list p) \<le> 16" using "1.prems" by (simp add: digest_wf_def nat_le_iff)
  then show ?case by (simp del: length_digest_list)
next
  case (2 q r rq rs st xs p)
  let ?p' = "agent_context_digest_push q r rq rs st p"
  define ids where "ids = map dg_request_id (digest_list p)"
  have l: "length ids \<le> 16" using "2.prems" by (simp add: ids_def digest_wf_def nat_le_iff)
  have n: "length (digest_list p) = length ids" unfolding ids_def by (simp del: length_digest_list)
  have e: "dg_request_id (digest_entry q r rq rs st h) = r" for h by (simp add: digest_entry_def Let_def)
  have d: "map dg_request_id (digest_list ?p') = (if length ids = 16 then tl ids else ids) @ [r]"
    unfolding digest_list_push [OF "2.prems"] by (simp del: length_digest_list add: n e) (simp add: ids_def map_tl)
  have d2: "length (digest_list ?p') = (if length ids = 16 then 16 else Suc (length ids))"
    using arg_cong [OF d, of length] by (simp del: length_digest_list split: if_splits)
  show ?case
    using "2.IH" [OF digest_wf_push [OF "2.prems"]] drop_shift [OF l, of "length xs" r "map fst xs"]
    by (simp del: length_digest_list add: d d2 n ids_def [symmetric])
qed


text \<open>Two entries that differ in exactly one of the seven fields.\<close>

definition one_field_changed :: "agent_context_digest \<Rightarrow> agent_context_digest \<Rightarrow> bool" where
  "one_field_changed d d' \<longleftrightarrow>
     (\<exists>x. x \<noteq> dg_sequence d \<and> d' = d\<lparr>dg_sequence := x\<rparr>) \<or>
     (\<exists>x. x \<noteq> dg_request_id d \<and> d' = d\<lparr>dg_request_id := x\<rparr>) \<or>
     (\<exists>x. x \<noteq> dg_request_hash d \<and> d' = d\<lparr>dg_request_hash := x\<rparr>) \<or>
     (\<exists>x. x \<noteq> dg_result_hash d \<and> d' = d\<lparr>dg_result_hash := x\<rparr>) \<or>
     (\<exists>x. x \<noteq> dg_previous_hash d \<and> d' = d\<lparr>dg_previous_hash := x\<rparr>) \<or>
     (\<exists>x. x \<noteq> dg_current_hash d \<and> d' = d\<lparr>dg_current_hash := x\<rparr>) \<or>
     (\<exists>x. x \<noteq> dg_status d \<and> d' = d\<lparr>dg_status := x\<rparr> \<and> -(2^31) \<le> x \<and> x < 2^31 \<and>
        -(2^31) \<le> dg_status d \<and> dg_status d < 2^31)"

lemma one_field_invalid:
  assumes "one_field_changed d d'" "digest_valid d"
  shows "\<not> digest_valid d'"
proof -
  have c: "dg_current_hash d = digest_hash (dg_sequence d) (dg_request_id d) (dg_request_hash d)
      (dg_result_hash d) (dg_previous_hash d) (dg_status d)"
    using assms(2) by (simp add: digest_valid_def)
  show ?thesis
    using assms(1) unfolding one_field_changed_def
    by (elim disjE exE conjE) (simp_all add: digest_valid_def c digest_hash_def status_word_inj)
qed

text \<open>C9 (digest_tampering_detected). If the ring verifies and then any one field of any one of
  its live entries is changed, verification returns -1.\<close>

theorem digest_tampering_detected:
  assumes wf: "digest_wf p" and ok: "agent_context_digest_verify p = 0"
    and k: "k < nat (context_digest_count p)"
    and slot: "j = nat ((context_digest_head p - context_digest_count p + int k) mod 16)"
    and ch: "one_field_changed (context_digests p ! j) d'"
  shows "agent_context_digest_verify (p\<lparr>context_digests := (context_digests p)[j := d']\<rparr>) = -1"
proof -
  let ?p' = "p\<lparr>context_digests := (context_digests p)[j := d']\<rparr>"
  have wf': "digest_wf ?p'" using wf by (simp add: digest_wf_def)
  have j: "j < length (context_digests p)"
    using wf slot by (auto simp: digest_wf_def nat_less_iff)
  have "digest_valid (context_digests p ! j)"
    using ok k verify_iff_chain [OF wf] slot by (auto simp: chain_ok_def digest_list_nth)
  then have "\<not> digest_valid (digest_list ?p' ! k)"
    using one_field_invalid [OF ch] k j slot by (simp add: digest_list_nth)
  then have "\<not> chain_ok (digest_list ?p')" using k by (auto simp: chain_ok_def)
  with verify_iff_chain [OF wf'] verify_cases show ?thesis by metis
qed

theorem digest_tampering_detected_witness:
  "\<exists>d'. agent_context_digest_verify
     ((agent_context_digest_push 1 7 ''req'' ''res'' 0 (digest_clear zero_proc))\<lparr>context_digests :=
        (context_digests (agent_context_digest_push 1 7 ''req'' ''res'' 0 (digest_clear zero_proc)))[0 := d']\<rparr>) = -1"
proof -
  let ?p = "agent_context_digest_push 1 7 ''req'' ''res'' 0 (digest_clear zero_proc)"
  have wf: "digest_wf ?p" by (intro digest_wf_push digest_wf_clear)
  have ok: "agent_context_digest_verify ?p = 0"
    using push_all_chain [OF digest_wf_clear, of zero_proc 1 "[(7, ''req'', ''res'', 0)]"]
      verify_iff_chain [OF wf] by (simp add: chain_ok_def)
  have hc: "context_digest_count ?p = 1" "context_digest_head ?p = 1"
    by (simp_all add: digest_push_simps [OF digest_wf_clear]) (simp_all add: digest_clear_def)
  let ?d = "context_digests ?p ! 0"
  have "one_field_changed ?d (?d\<lparr>dg_request_id := dg_request_id ?d + 1\<rparr>)"
    unfolding one_field_changed_def
    by (rule disjI2, rule disjI1, rule exI [of _ "dg_request_id ?d + 1"]) simp
  from digest_tampering_detected [OF wf ok, of 0 0, OF _ _ this] hc show ?thesis by auto
qed

end
