(* ===== verification/FileVersions.thy ===== *)
theory FileVersions
  imports KernelState SlotTable
begin

text \<open>
  The version table of kernel/agent\_fs.c: one entry per (device, inode) that was ever asked
  about, with a version that grows with every content write and a deleted mark. The table is a
  \<open>slot_table\<close> with at most 256 entries that are never given back; when it is full an unknown file
  has version 0, which every reader takes for "deleted".
\<close>

definition fv_key :: "agent_file_version \<Rightarrow> u32 \<times> u32" where
  "fv_key e = (fv_dev e, fv_inum e)"

text \<open>One pass over the table: the entry of the key, else the first free slot.\<close>

fun file_version_scan :: "u32 \<Rightarrow> u32 \<Rightarrow> nat \<Rightarrow> nat option \<Rightarrow> agent_file_version list \<Rightarrow> nat option + nat" where
  "file_version_scan dev inum i free [] = Inl free"
| "file_version_scan dev inum i free (e # es) =
     (if fv_used e \<and> fv_dev e = dev \<and> fv_inum e = inum then Inr i
      else file_version_scan dev inum (Suc i)
             (if \<not> fv_used e \<and> free = None then Some i else free) es)"

definition file_version_find_locked :: "u32 \<Rightarrow> u32 \<Rightarrow> bool \<Rightarrow> agent_file_version list \<Rightarrow> nat option \<times> agent_file_version list" where
  "file_version_find_locked dev inum create es =
     (case file_version_scan dev inum 0 None es of
        Inr i \<Rightarrow> (Some i, es)
      | Inl None \<Rightarrow> (None, es)
      | Inl (Some k) \<Rightarrow>
          if \<not> create then (None, es)
          else (Some k, es[k := zero_version\<lparr>fv_used := True, fv_dev := dev, fv_inum := inum, fv_version := 1\<rparr>]))"

definition next_version :: "u64 \<Rightarrow> u64" where
  "next_version v = (if v + 1 = 0 then 1 else v + 1)"

definition agentfs_inode_version_get :: "u32 \<Rightarrow> u32 \<Rightarrow> agent_file_version list \<Rightarrow> u64 \<times> agent_file_version list" where
  "agentfs_inode_version_get dev inum es =
     (case file_version_find_locked dev inum True es of
        (None, es') \<Rightarrow> (0, es')
      | (Some i, es') \<Rightarrow> (if fv_deleted (es' ! i) then 0 else fv_version (es' ! i), es'))"

definition agentfs_inode_version_bump :: "u32 \<Rightarrow> u32 \<Rightarrow> agent_file_version list \<Rightarrow> u64 \<times> agent_file_version list" where
  "agentfs_inode_version_bump dev inum es =
     (case file_version_find_locked dev inum True es of
        (None, es') \<Rightarrow> (0, es')
      | (Some i, es') \<Rightarrow>
          let e = (es' ! i)\<lparr>fv_deleted := False, fv_version := next_version (fv_version (es' ! i))\<rparr>
          in (fv_version e, es'[i := e]))"

definition agentfs_inode_version_remove :: "u32 \<Rightarrow> u32 \<Rightarrow> agent_file_version list \<Rightarrow> agent_file_version list" where
  "agentfs_inode_version_remove dev inum es =
     (case file_version_find_locked dev inum True es of
        (None, es') \<Rightarrow> es'
      | (Some i, es') \<Rightarrow>
          es'[i := (es' ! i)\<lparr>fv_version := next_version (fv_version (es' ! i)), fv_deleted := True\<rparr>])"

interpretation fvt: slot_table fv_used fv_key zero_version
  by unfold_locales (simp add: zero_version_def)

subsection \<open>The table as a map\<close>

definition versions_ok :: "agent_file_version list \<Rightarrow> bool" where
  "versions_ok es \<longleftrightarrow> uniq_keys fv_used fv_key es \<and> (\<forall>e \<in> set es. fv_used e \<longrightarrow> fv_version e \<noteq> 0)"

abbreviation version_map :: "agent_file_version list \<Rightarrow> u32 \<times> u32 \<Rightarrow> agent_file_version option" where
  "version_map \<equiv> table_map fv_used fv_key"

lemma file_version_scan_spec:
  "file_version_scan dev inum i free es =
     (case find_key fv_used fv_key (dev, inum) es of
        Some k \<Rightarrow> Inr (i + k)
      | None \<Rightarrow> Inl (case free of Some f \<Rightarrow> Some f | None \<Rightarrow> map_option (\<lambda>k. i + k) (first_slot (\<lambda>e. \<not> fv_used e) es)))"
proof (induction dev inum i free es rule: file_version_scan.induct)
  case (1 dev inum i free)
  then show ?case by (simp add: find_key_def split: option.splits)
next
  case (2 dev inum i free e es)
  show ?case
  proof (cases "fv_used e \<and> fv_dev e = dev \<and> fv_inum e = inum")
    case True
    then show ?thesis by (simp add: find_key_def fv_key_def)
  next
    case False
    then have nk: "\<not> (fv_used e \<and> fv_key e = (dev, inum))" by (auto simp: fv_key_def)
    show ?thesis
      using "2.IH" [OF False] False nk
      by (cases "first_slot (\<lambda>x. fv_used x \<and> fv_key x = (dev, inum)) es";
          cases "first_slot (\<lambda>e. \<not> fv_used e) es")
        (auto simp: find_key_def split: option.splits)
  qed
qed

lemma file_version_find_spec:
  "file_version_find_locked dev inum True es =
     (case find_key fv_used fv_key (dev, inum) es of
        Some k \<Rightarrow> (Some k, es)
      | None \<Rightarrow> (case first_slot (\<lambda>e. \<not> fv_used e) es of
          None \<Rightarrow> (None, es)
        | Some k \<Rightarrow> (Some k, es[k := zero_version\<lparr>fv_used := True, fv_dev := dev, fv_inum := inum, fv_version := 1\<rparr>])))"
  by (simp add: file_version_find_locked_def file_version_scan_spec split: option.splits)

text \<open>Finding with \<open>create\<close>: the entry there was, or a fresh one at version 1, or the table is
  full.\<close>

lemma file_version_find_map:
  assumes ok: "versions_ok es" and run: "file_version_find_locked dev inum True es = (r, es')"
  shows "versions_ok es' \<and> length es' = length es \<and>
    (case r of
       None \<Rightarrow> es' = es \<and> version_map es (dev, inum) = None \<and> (\<forall>e \<in> set es. fv_used e)
     | Some i \<Rightarrow> i < length es' \<and> fv_used (es' ! i) \<and> fv_key (es' ! i) = (dev, inum) \<and> fv_version (es' ! i) \<noteq> 0 \<and>
         version_map es' = (version_map es)((dev, inum) \<mapsto> es' ! i) \<and>
         (case version_map es (dev, inum) of
            Some e \<Rightarrow> es' ! i = e
          | None \<Rightarrow> fv_version (es' ! i) = 1 \<and> \<not> fv_deleted (es' ! i)))"
proof (cases "find_key fv_used fv_key (dev, inum) es")
  case (Some k)
  with run have r: "r = Some k" "es' = es" by (simp_all add: file_version_find_spec)
  note d = find_keyD [OF Some]
  have "version_map es (dev, inum) = Some (es ! k)" using Some by (simp add: table_map_def)
  with r d ok show ?thesis by (auto simp: versions_ok_def)
next
  case None
  have vm: "version_map es (dev, inum) = None" using None by (simp add: table_map_def)
  show ?thesis
  proof (cases "first_slot (\<lambda>e. \<not> fv_used e) es")
    case full: None
    with None run have "r = None" "es' = es" by (simp_all add: file_version_find_spec)
    with full ok vm show ?thesis by (simp add: first_slot_None)
  next
    case (Some k)
    let ?e = "zero_version\<lparr>fv_used := True, fv_dev := dev, fv_inum := inum, fv_version := 1\<rparr>"
    note k = first_slot_less [OF Some] first_slot_holds [OF Some]
    from Some None run have r: "r = Some k" "es' = es[k := ?e]" by (simp_all add: file_version_find_spec)
    have key: "fv_key ?e = (dev, inum)" by (simp add: fv_key_def)
    have u: "uniq_keys fv_used fv_key es" using ok by (simp add: versions_ok_def)
    have fresh: "find_key fv_used fv_key (fv_key ?e) es = None" using None key by simp
    have "version_map es' = (version_map es)((dev, inum) \<mapsto> ?e)"
      using fvt.map_fill [OF u fresh k] key r by simp
    moreover have "versions_ok es'"
      using fvt.uniq_fill [OF u fresh, of k] ok r set_update_subset_insert [of es k ?e]
      by (auto simp: versions_ok_def)
    moreover have "\<not> fv_deleted ?e" by (simp add: zero_version_def)
    ultimately show ?thesis using r k key vm by simp
  qed
qed


lemma versions_ok_upd:
  assumes "versions_ok es" "i < length es" "fv_used (es ! i)" "fv_key e = fv_key (es ! i)" "fv_used e" "fv_version e \<noteq> 0"
  shows "versions_ok (es[i := e])" "version_map (es[i := e]) = (version_map es)(fv_key e \<mapsto> e)"
proof -
  have u: "uniq_keys fv_used fv_key es" using assms(1) by (simp add: versions_ok_def)
  show "version_map (es[i := e]) = (version_map es)(fv_key e \<mapsto> e)"
    by (rule fvt.map_modify [OF u assms(2,3,5,4)])
  have "uniq_keys fv_used fv_key (es[i := e])"
    using assms by (intro uniq_keys_update_same [OF u]) auto
  then show "versions_ok (es[i := e])"
    using assms set_update_subset_insert [of es i e] by (auto simp: versions_ok_def)
qed

lemma next_version_nonzero [simp]: "next_version v \<noteq> 0"
  by (simp add: next_version_def)

text \<open>The three operations on the map: an unknown file enters at version 1, unless the table is
  full.\<close>

definition entered :: "u32 \<times> u32 \<Rightarrow> agent_file_version list \<Rightarrow> agent_file_version" where
  "entered k es = (case version_map es k of Some e \<Rightarrow> e
     | None \<Rightarrow> zero_version\<lparr>fv_used := True, fv_dev := fst k, fv_inum := snd k, fv_version := 1\<rparr>)"

definition version_room :: "u32 \<times> u32 \<Rightarrow> agent_file_version list \<Rightarrow> bool" where
  "version_room k es \<longleftrightarrow> version_map es k \<noteq> None \<or> (\<exists>e \<in> set es. \<not> fv_used e)"

lemma file_version_find_enter:
  assumes ok: "versions_ok es"
  shows "\<exists>r es'. file_version_find_locked dev inum True es = (r, es') \<and> versions_ok es' \<and>
    (if version_room (dev, inum) es
     then (\<exists>i. r = Some i \<and> i < length es' \<and> es' ! i = entered (dev, inum) es \<and> fv_used (es' ! i) \<and>
            fv_key (es' ! i) = (dev, inum) \<and> version_map es' = (version_map es)((dev, inum) \<mapsto> entered (dev, inum) es))
     else r = None \<and> es' = es)"
proof (cases "find_key fv_used fv_key (dev, inum) es")
  case (Some k)
  have vm: "version_map es (dev, inum) = Some (es ! k)" using Some by (simp add: table_map_def)
  have "file_version_find_locked dev inum True es = (Some k, es)" using Some by (simp add: file_version_find_spec)
  with find_keyD [OF Some] vm ok show ?thesis by (simp add: version_room_def entered_def fun_upd_idem)
next
  case None
  have vm: "version_map es (dev, inum) = None" using None by (simp add: table_map_def)
  show ?thesis
  proof (cases "first_slot (\<lambda>e. \<not> fv_used e) es")
    case full: None
    have "file_version_find_locked dev inum True es = (None, es)" using None full by (simp add: file_version_find_spec)
    moreover have "\<not> version_room (dev, inum) es" using full vm by (auto simp: version_room_def first_slot_None)
    ultimately show ?thesis using ok by simp
  next
    case (Some k)
    then have ex: "\<exists>e \<in> set es. \<not> fv_used e"
      using first_slot_less [OF Some] first_slot_holds [OF Some] nth_mem by blast
    obtain es' where run: "file_version_find_locked dev inum True es = (Some k, es')"
      and e: "es' = es[k := entered (dev, inum) es]"
      using None Some vm by (simp add: file_version_find_spec entered_def)
    from file_version_find_map [OF ok run] run e ex vm first_slot_less [OF Some] show ?thesis
      by (simp add: version_room_def)
  qed
qed

lemma get_spec:
  assumes ok: "versions_ok es"
  shows "versions_ok (snd (agentfs_inode_version_get dev inum es)) \<and>
    (if version_room (dev, inum) es
     then agentfs_inode_version_get dev inum es =
            ((if fv_deleted (entered (dev, inum) es) then 0 else fv_version (entered (dev, inum) es)),
             snd (agentfs_inode_version_get dev inum es)) \<and>
          version_map (snd (agentfs_inode_version_get dev inum es)) = (version_map es)((dev, inum) \<mapsto> entered (dev, inum) es)
     else agentfs_inode_version_get dev inum es = (0, es))"
  using file_version_find_enter [OF ok, of dev inum]
  by (auto simp: agentfs_inode_version_get_def split: if_splits)

lemma get_fst:
  "versions_ok es \<Longrightarrow> version_room (dev, inum) es \<Longrightarrow> fst (agentfs_inode_version_get dev inum es) =
     (if fv_deleted (entered (dev, inum) es) then 0 else fv_version (entered (dev, inum) es))"
  using get_spec [of es dev inum] by (cases "agentfs_inode_version_get dev inum es") simp

lemma bump_spec:
  assumes ok: "versions_ok es"
  shows "versions_ok (snd (agentfs_inode_version_bump dev inum es)) \<and>
    (if version_room (dev, inum) es
     then (let e = entered (dev, inum) es;
               e' = e\<lparr>fv_deleted := False, fv_version := next_version (fv_version e)\<rparr>
           in fst (agentfs_inode_version_bump dev inum es) = fv_version e' \<and>
              version_map (snd (agentfs_inode_version_bump dev inum es)) = (version_map es)((dev, inum) \<mapsto> e'))
     else agentfs_inode_version_bump dev inum es = (0, es))"
proof -
  obtain r es' where run: "file_version_find_locked dev inum True es = (r, es')" and ok': "versions_ok es'"
    and c: "if version_room (dev, inum) es
     then (\<exists>i. r = Some i \<and> i < length es' \<and> es' ! i = entered (dev, inum) es \<and> fv_used (es' ! i) \<and>
            fv_key (es' ! i) = (dev, inum) \<and> version_map es' = (version_map es)((dev, inum) \<mapsto> entered (dev, inum) es))
     else r = None \<and> es' = es"
    using file_version_find_enter [OF ok, of dev inum] by blast
  show ?thesis
  proof (cases "version_room (dev, inum) es")
    case False
    with c run ok show ?thesis by (simp add: agentfs_inode_version_bump_def)
  next
    case True
    with c obtain i where i: "r = Some i" "i < length es'" "es' ! i = entered (dev, inum) es" "fv_used (es' ! i)"
      "fv_key (es' ! i) = (dev, inum)" "version_map es' = (version_map es)((dev, inum) \<mapsto> entered (dev, inum) es)" by auto
    let ?e = "(es' ! i)\<lparr>fv_deleted := False, fv_version := next_version (fv_version (es' ! i))\<rparr>"
    have k: "fv_key ?e = fv_key (es' ! i)" by (simp add: fv_key_def)
    have "versions_ok (es'[i := ?e])" "version_map (es'[i := ?e]) = (version_map es')(fv_key ?e \<mapsto> ?e)"
      using versions_ok_upd [OF ok' i(2,4) k] i(4) by simp_all
    with True i k run show ?thesis by (simp add: agentfs_inode_version_bump_def Let_def)
  qed
qed

lemma remove_spec:
  assumes ok: "versions_ok es"
  shows "versions_ok (agentfs_inode_version_remove dev inum es) \<and>
    (if version_room (dev, inum) es
     then (let e = entered (dev, inum) es
           in version_map (agentfs_inode_version_remove dev inum es) =
                (version_map es)((dev, inum) \<mapsto> e\<lparr>fv_version := next_version (fv_version e), fv_deleted := True\<rparr>))
     else agentfs_inode_version_remove dev inum es = es)"
proof -
  obtain r es' where run: "file_version_find_locked dev inum True es = (r, es')" and ok': "versions_ok es'"
    and c: "if version_room (dev, inum) es
     then (\<exists>i. r = Some i \<and> i < length es' \<and> es' ! i = entered (dev, inum) es \<and> fv_used (es' ! i) \<and>
            fv_key (es' ! i) = (dev, inum) \<and> version_map es' = (version_map es)((dev, inum) \<mapsto> entered (dev, inum) es))
     else r = None \<and> es' = es"
    using file_version_find_enter [OF ok, of dev inum] by blast
  show ?thesis
  proof (cases "version_room (dev, inum) es")
    case False
    with c run ok show ?thesis by (simp add: agentfs_inode_version_remove_def)
  next
    case True
    with c obtain i where i: "r = Some i" "i < length es'" "es' ! i = entered (dev, inum) es" "fv_used (es' ! i)"
      "fv_key (es' ! i) = (dev, inum)" "version_map es' = (version_map es)((dev, inum) \<mapsto> entered (dev, inum) es)" by auto
    let ?e = "(es' ! i)\<lparr>fv_version := next_version (fv_version (es' ! i)), fv_deleted := True\<rparr>"
    have k: "fv_key ?e = fv_key (es' ! i)" by (simp add: fv_key_def)
    have "versions_ok (es'[i := ?e])" "version_map (es'[i := ?e]) = (version_map es')(fv_key ?e \<mapsto> ?e)"
      using versions_ok_upd [OF ok' i(2,4) k] i(4) by simp_all
    with True i k run show ?thesis by (simp add: agentfs_inode_version_remove_def Let_def)
  qed
qed

subsection \<open>Histories of the table\<close>

datatype version_op = VGet u32 u32 | VBump u32 u32 | VRemove u32 u32

primrec run_version_op :: "version_op \<Rightarrow> agent_file_version list \<Rightarrow> agent_file_version list" where
  "run_version_op (VGet d i) es = snd (agentfs_inode_version_get d i es)"
| "run_version_op (VBump d i) es = snd (agentfs_inode_version_bump d i es)"
| "run_version_op (VRemove d i) es = agentfs_inode_version_remove d i es"

fun writes_file :: "u32 \<times> u32 \<Rightarrow> version_op \<Rightarrow> bool" where
  "writes_file k (VGet d i) = False"
| "writes_file k (VBump d i) = (k = (d, i))"
| "writes_file k (VRemove d i) = (k = (d, i))"

text \<open>One operation seen from a file that has an entry.\<close>

lemma run_version_op_step:
  assumes ok: "versions_ok es" and e: "version_map es k = Some e"
  shows "versions_ok (run_version_op vop es) \<and>
    (\<exists>e'. version_map (run_version_op vop es) k = Some e' \<and>
       (if writes_file k vop then fv_version e' = next_version (fv_version e)
        else e' = e))"
proof (cases vop)
  case (VGet d i)
  with get_spec [OF ok, of d i] e show ?thesis by (auto simp: entered_def split: if_splits)
next
  case (VBump d i)
  then show ?thesis
  proof (cases "k = (d, i)")
    case True
    then have "version_room (d, i) es" "entered (d, i) es = e" using e by (simp_all add: version_room_def entered_def)
    with bump_spec [OF ok, of d i] True VBump show ?thesis by (simp add: Let_def)
  next
    case False
    with bump_spec [OF ok, of d i] VBump e show ?thesis
      by (cases "version_room (d, i) es") (simp_all add: Let_def ok)
  qed
next
  case (VRemove d i)
  then show ?thesis
  proof (cases "k = (d, i)")
    case True
    then have "version_room (d, i) es" "entered (d, i) es = e" using e by (simp_all add: version_room_def entered_def)
    with remove_spec [OF ok, of d i] True VRemove show ?thesis by (simp add: Let_def)
  next
    case False
    with remove_spec [OF ok, of d i] VRemove e show ?thesis
      by (cases "version_room (d, i) es") (simp_all add: Let_def ok)
  qed
qed

lemma run_version_ops:
  assumes "versions_ok es" "version_map es k = Some e"
  shows "versions_ok (fold run_version_op ops es) \<and>
    (\<exists>e'. version_map (fold run_version_op ops es) k = Some e' \<and>
       fv_version e' = (next_version ^^ length (filter (writes_file k) ops)) (fv_version e) \<and>
       (filter (writes_file k) ops = [] \<longrightarrow> e' = e))"
  using assms
proof (induction ops arbitrary: es e)
  case Nil
  then show ?case by simp
next
  case (Cons vop ops)
  obtain e1 where ok1: "versions_ok (run_version_op vop es)"
    and e1: "version_map (run_version_op vop es) k = Some e1"
    and w: "if writes_file k vop then fv_version e1 = next_version (fv_version e) else e1 = e"
    using run_version_op_step [OF Cons.prems, of vop] by blast
  show ?case
    using Cons.IH [OF ok1 e1] w by (cases "writes_file k vop") (auto simp: funpow_swap1)
qed

lemma unat_next_version:
  assumes "v \<noteq> 0"
  shows "unat (next_version v) = unat v mod (2 ^ 64 - 1) + 1"
proof (cases "v + 1 = 0")
  case True
  then have "v = word_of_int (2 ^ 64 - 1)" by (simp add: add_eq_0_iff2)
  then have "unat v = 2 ^ 64 - 1" by simp
  with True show ?thesis by (simp add: next_version_def)
next
  case False
  have b: "unat v < 2 ^ 64" using unat_u64_less [of v] by simp
  have "unat v \<noteq> 2 ^ 64 - 1"
  proof
    assume "unat v = 2 ^ 64 - 1"
    then have "of_nat (unat v) = (of_nat (2 ^ 64 - 1) :: u64)" by simp
    then show False using False by simp
  qed
  moreover have "unat (v + 1) = Suc (unat v)" using unatSuc [of v] False by (simp add: add.commute)
  ultimately show ?thesis using b False by (simp add: next_version_def)
qed

lemma unat_next_version_pow:
  assumes "v \<noteq> 0"
  shows "(next_version ^^ n) v \<noteq> 0 \<and> unat ((next_version ^^ n) v) = (unat v - 1 + n) mod (2 ^ 64 - 1) + 1"
proof (induction n)
  case 0
  have "0 < unat v" "unat v < 2 ^ 64" using assms unat_u64_less [of v] by (simp_all add: unat_gt_0)
  then show ?case using assms by simp
next
  case (Suc n)
  let ?w = "(next_version ^^ n) v"
  have "unat (next_version ?w) = ((unat v - 1 + n) mod (2 ^ 64 - 1) + 1) mod (2 ^ 64 - 1) + 1"
    using unat_next_version [of ?w] Suc.IH by simp
  also have "\<dots> = (unat v - 1 + Suc n) mod (2 ^ 64 - 1) + 1"
    by (metis Suc_eq_plus1 add_Suc_right mod_Suc_eq)
  finally show ?case by simp
qed

lemma next_version_pow_differs:
  assumes "v \<noteq> 0" "0 < n" "n < 2 ^ 64 - 1"
  shows "(next_version ^^ n) v \<noteq> v"
proof
  assume eq: "(next_version ^^ n) v = v"
  have a: "0 < unat v" "unat v < 2 ^ 64" using assms(1) unat_u64_less [of v] by (simp_all add: unat_gt_0)
  have "unat v = (unat v - 1 + n) mod (2 ^ 64 - 1) + 1"
    using unat_next_version_pow [OF assms(1), of n] eq by metis
  then have e: "unat v - 1 = (unat v - 1 + n) mod (2 ^ 64 - 1)" by linarith
  show False
  proof (cases "unat v - 1 + n < 2 ^ 64 - 1")
    case True
    with e assms(2) show False by simp
  next
    case False
    have "(unat v - 1 + n) mod (2 ^ 64 - 1) = (unat v - 1 + n - (2 ^ 64 - 1)) mod (2 ^ 64 - 1)"
      by (rule le_mod_geq) (use False in simp)
    also have "\<dots> = unat v - 1 + n - (2 ^ 64 - 1)" using a assms(3) by simp
    finally show False using e False assms(3) a by linarith
  qed
qed

lemma version_change_iff:
  assumes "versions_ok es"
    and "agentfs_inode_version_get dev inum es = (v, es1)" and "v \<noteq> 0"
    and "length ops < 2 ^ 64 - 1"
  shows "fst (agentfs_inode_version_get dev inum (fold run_version_op ops es1)) = v
    \<longleftrightarrow> filter (writes_file (dev, inum)) ops = []"
proof -
  let ?k = "(dev, inum)" and ?ops = "filter (writes_file (dev, inum)) ops"
  have room: "version_room ?k es" using get_spec [OF assms(1), of dev inum] assms(2,3) by (auto split: if_splits)
  from room get_spec [OF assms(1), of dev inum] assms(2,3)
  have ok1: "versions_ok es1" and e1: "version_map es1 ?k = Some (entered ?k es)"
    and v: "v = fv_version (entered ?k es)" "\<not> fv_deleted (entered ?k es)"
    by (auto split: if_splits)
  obtain e2 where ok2: "versions_ok (fold run_version_op ops es1)"
    and e2: "version_map (fold run_version_op ops es1) ?k = Some e2"
    and ver: "fv_version e2 = (next_version ^^ length ?ops) v" and same: "?ops = [] \<longrightarrow> e2 = entered ?k es"
    using run_version_ops [OF ok1 e1, of ops] v by auto
  have r2: "version_room ?k (fold run_version_op ops es1)" and e: "entered ?k (fold run_version_op ops es1) = e2"
    using e2 by (simp_all add: version_room_def entered_def)
  have got: "fst (agentfs_inode_version_get dev inum (fold run_version_op ops es1)) = (if fv_deleted e2 then 0 else fv_version e2)"
    using get_fst [OF ok2 r2] unfolding e .
  have l: "length ?ops < 2 ^ 64 - 1" using length_filter_le [of "writes_file ?k" ops] assms(4) by linarith
  show ?thesis
  proof (cases "?ops = []")
    case True
    with got same v show ?thesis by simp
  next
    case False
    then have "(next_version ^^ length ?ops) v \<noteq> v" using next_version_pow_differs [OF assms(3) _ l] by simp
    with got ver assms(3) False show ?thesis by simp
  qed
qed



end
