(* ===== verification/Context.thy ===== *)
theory Context
  imports Digest FileVersions
begin

text \<open>
  The Context region of an agent (kernel/agent\_context.c): 8192 bytes of user memory holding a
  640-byte header and, behind it, the Context path, the concatenation of the records of at most
  sixteen nodes. Offsets, lengths and file dependencies of the nodes are kept in the process
  entry. The functions below work on one process entry and take the current tick as a parameter;
  the abstract view is the list of records, and the lemmas show that pushing appends one record
  after dropping exactly the oldest records that have to go.
\<close>

subsection \<open>Bytes of the header\<close>

text \<open>A char array of \<open>n\<close> bytes that was zeroed and then holds the string \<open>s\<close>.\<close>

definition char_array :: "nat \<Rightarrow> string \<Rightarrow> string" where
  "char_array n s = (let t = safestr n s in t @ replicate (n - length t) NUL)"

definition header_bytes :: "agent_context_header \<Rightarrow> string" where
  "header_bytes h = le32 (hd_magic h) @ le32 (hd_version h) @ le32 (hd_header_size h) @ le32 (hd_node_size h) @
     le64 (hd_region_size h) @ le64 (hd_path_offset h) @ le64 (hd_path_length h) @ le64 (hd_node_count h) @
     le64 (hd_dropped_nodes h) @ le64 (hd_generation h) @ le64 (hd_first_sequence h) @ le64 (hd_next_sequence h) @
     le64 (hd_last_result_len h) @ le64 (hd_last_timestamp h) @
     char_array 32 (hd_last_tool h) @ char_array 512 (hd_last_result h)"

abbreviation (input) HEADER_SIZE :: nat where "HEADER_SIZE \<equiv> 640"
abbreviation (input) NODE_SIZE :: nat where "NODE_SIZE \<equiv> 304"

lemma length_char_array [simp]: "0 < n \<Longrightarrow> length (char_array n s) = n"
  using length_safestr [of n s] by (simp add: char_array_def Let_def)

lemma length_header_bytes [simp]: "length (header_bytes h) = HEADER_SIZE"
  by (simp add: header_bytes_def)

subsection \<open>Capacity and header\<close>

definition agent_path_capacity :: "proc \<Rightarrow> u64" where
  "agent_path_capacity p =
     (let cap = context_region_size p - of_nat HEADER_SIZE
      in if resource_quota p = 0 \<or> resource_quota p > cap then cap else resource_quota p)"

definition agent_path_base :: "proc \<Rightarrow> u64" where
  "agent_path_base p = context_region_start p + of_nat HEADER_SIZE"

definition agent_context_write_header :: "agent_context_header \<Rightarrow> proc \<Rightarrow> int \<times> proc" where
  "agent_context_write_header hdr p =
     (if context_region_start p = 0 then (-1, p)
      else let (ok, pt) = copyout (p_pagetable p) (context_region_start p) (header_bytes hdr)
           in (if ok then 0 else -1, p\<lparr>p_pagetable := pt\<rparr>))"

definition agent_context_build_header :: "u64 \<Rightarrow> proc \<Rightarrow> agent_context_header" where
  "agent_context_build_header now p =
     \<lparr>hd_magic = AGENT_CONTEXT_HEADER_MAGIC, hd_version = AGENT_CONTEXT_HEADER_VERSION,
      hd_header_size = of_nat HEADER_SIZE, hd_node_size = of_nat NODE_SIZE,
      hd_region_size = context_region_size p, hd_path_offset = of_nat HEADER_SIZE,
      hd_path_length = context_path_len p, hd_node_count = context_node_count p,
      hd_dropped_nodes = context_dropped_nodes p, hd_generation = context_generation p,
      hd_first_sequence = context_first_sequence p, hd_next_sequence = context_next_sequence p,
      hd_last_result_len = 0, hd_last_timestamp = now, hd_last_tool = [], hd_last_result = []\<rparr>"

definition agent_context_write_begin :: "u64 \<Rightarrow> proc \<Rightarrow> int \<times> proc" where
  "agent_context_write_begin now p =
     (let p1 = (if context_generation p AND 1 = 0 then p\<lparr>context_generation := context_generation p + 1\<rparr>
                else p\<lparr>context_generation := context_generation p + 2\<rparr>)
      in agent_context_write_header (agent_context_build_header now p1) p1)"

definition agent_context_fill_last :: "proc \<Rightarrow> agent_context_header \<Rightarrow> agent_context_header" where
  "agent_context_fill_last p hdr =
     (let n = min (unat (context_path_len p)) 127
      in if n > 0
         then (case copyin (p_pagetable p) (agent_path_base p + context_path_len p - of_nat n) n of
                 None \<Rightarrow> hdr
               | Some tmp \<Rightarrow> let r = safestr AGENT_TOOL_RESULT_MAX tmp
                             in hdr\<lparr>hd_last_result := r, hd_last_result_len := of_nat (strlen r)\<rparr>)
         else hdr)"

definition agent_sync_header :: "u64 \<Rightarrow> proc \<Rightarrow> int \<times> proc" where
  "agent_sync_header now p =
     (let p1 = (if context_generation p AND 1 \<noteq> 0 then p\<lparr>context_generation := context_generation p + 1\<rparr>
                else p\<lparr>context_generation := context_generation p + 2\<rparr>)
      in agent_context_write_header (agent_context_fill_last p1 (agent_context_build_header now p1)) p1)"

subsection \<open>Evicting the oldest node\<close>

text \<open>The copy loop: chunks of 128 bytes, from \<open>base + first_len\<close> down to \<open>base\<close>. The result
  says whether every chunk could be read and written.\<close>

function evict_copy :: "u64 \<Rightarrow> nat \<Rightarrow> nat \<Rightarrow> nat \<Rightarrow> upagetable \<Rightarrow> bool \<times> upagetable" where
  "evict_copy base first_len remain copied pt =
     (if copied < remain
      then let chunk = min 128 (remain - copied)
           in case copyin pt (base + of_nat (first_len + copied)) chunk of
                None \<Rightarrow> (False, pt)
              | Some tmp \<Rightarrow>
                  (case copyout pt (base + of_nat copied) tmp of
                     (False, pt') \<Rightarrow> (False, pt')
                   | (True, pt') \<Rightarrow> evict_copy base first_len remain (copied + chunk) pt')
      else (True, pt))"
  by pat_completeness auto
termination
  by (relation "measure (\<lambda>(base, first_len, remain, copied, pt). remain - copied)") auto

declare evict_copy.simps [simp del]

text \<open>\<open>for(i = 1; i < n; i++) a[i - 1] = f(a[i]); a[n - 1] = z;\<close>\<close>

definition shift_down :: "('a \<Rightarrow> 'a) \<Rightarrow> 'a \<Rightarrow> nat \<Rightarrow> 'a list \<Rightarrow> 'a list" where
  "shift_down f z n xs = map (\<lambda>i. if Suc i < n then f (xs ! Suc i) else if Suc i = n then z else xs ! i) [0..<length xs]"

definition zero_deps :: "agent_context_dep list" where
  "zero_deps = replicate 16 zero_dep"

definition agent_evict_oldest :: "proc \<Rightarrow> proc" where
  "agent_evict_oldest p =
     (if context_node_count p = 0 then p\<lparr>context_path_len := 0, context_deps := zero_deps\<rparr>
      else
        let first_len = min (ucast (context_lengths p ! 0)) (context_path_len p);
            remain = context_path_len p - first_len
        in case evict_copy (agent_path_base p) (unat first_len) (unat remain) 0 (p_pagetable p) of
             (False, pt) \<Rightarrow> p\<lparr>p_pagetable := pt, context_path_len := 0, context_node_count := 0, context_deps := zero_deps\<rparr>
           | (True, pt) \<Rightarrow>
               let n = unat (context_node_count p)
               in p\<lparr>p_pagetable := pt, context_path_len := context_path_len p - first_len,
                    context_offsets := shift_down (\<lambda>x. ucast (ucast x - first_len)) 0 n (context_offsets p),
                    context_lengths := shift_down id 0 n (context_lengths p),
                    context_deps := shift_down id zero_dep n (context_deps p),
                    context_node_count := context_node_count p - 1,
                    context_dropped_nodes := context_dropped_nodes p + 1,
                    context_first_sequence := context_first_sequence p + 1\<rparr>)"

subsection \<open>Clearing, pushing\<close>

function zero_region :: "u64 \<Rightarrow> nat \<Rightarrow> nat \<Rightarrow> upagetable \<Rightarrow> upagetable" where
  "zero_region start sz cleared pt =
     (if cleared < sz
      then let n = min 128 (sz - cleared)
           in case copyout pt (start + of_nat cleared) (replicate n NUL) of
                (False, pt') \<Rightarrow> pt'
              | (True, pt') \<Rightarrow> zero_region start sz (cleared + n) pt'
      else pt)"
  by pat_completeness auto
termination
  by (relation "measure (\<lambda>(start, sz, cleared, pt). sz - cleared)") auto

declare zero_region.simps [simp del]

definition clear_pending_dep :: "proc \<Rightarrow> proc" where
  "clear_pending_dep p = p\<lparr>pending_context_dep := False, pending_context_dev := 0, pending_context_inum := 0,
     pending_context_version := 0\<rparr>"

definition agent_context_clear :: "u64 \<Rightarrow> proc \<Rightarrow> proc" where
  "agent_context_clear now p =
     (let p1 = (if context_region_start p \<noteq> 0 then snd (agent_context_write_begin now p) else p);
          p2 = clear_pending_dep (p1\<lparr>context_path_len := 0, context_node_count := 0, context_dropped_nodes := 0,
                 context_first_sequence := 0, context_next_sequence := 1,
                 context_offsets := replicate 16 0, context_lengths := replicate 16 0, context_deps := zero_deps\<rparr>)
      in if context_region_start p2 = 0 \<or> context_region_size p2 = 0 then p2
         else snd (agent_sync_header now (digest_clear
                (p2\<lparr>p_pagetable := zero_region (context_region_start p2) (unat (context_region_size p2)) 0 (p_pagetable p2)\<rparr>))))"

text \<open>The text of a node: \<open>char record[REQ_MAX + RES_MAX + 128]\<close>.\<close>

definition render_record :: "agent_context_node \<Rightarrow> string" where
  "render_record node = sb_str (
     emit [Str ''{ts='', Num (nd_timestamp_ms node), Str '',seq='', Num (nd_sequence node),
       Str '',req_id='', Num (nd_request_id node), Str '',span='', Num (nd_span_id node),
       Str '',cause='', Num (nd_cause_sequence node), Str '',status='',
       Num (u64_of_int (nd_status node)), Str '',req='', Str (nd_request node), Str '',res='',
       Str (nd_result node), Str (''}'' @ [char_of (10 :: nat)])] (sbuf_new 384))"

text \<open>\<open>while(node_count >= 16 || path_len + rec_len > capacity) agent_evict_oldest(p);\<close> with fuel;
  seventeen rounds are always enough (see \<open>evict_loop_total\<close>).\<close>

fun evict_loop :: "nat \<Rightarrow> u64 \<Rightarrow> proc \<Rightarrow> proc option" where
  "evict_loop fuel rec_len p =
     (if context_node_count p \<ge> 16 \<or> context_path_len p + rec_len > agent_path_capacity p
      then (case fuel of 0 \<Rightarrow> None | Suc f \<Rightarrow> evict_loop f rec_len (agent_evict_oldest p))
      else Some p)"

declare evict_loop.simps [simp del]


text \<open>\<open>for(i = keep; i < MAX; i++) memset(&deps[i], 0, ...)\<close>\<close>

definition zero_from :: "'a \<Rightarrow> nat \<Rightarrow> 'a list \<Rightarrow> 'a list" where
  "zero_from z n xs = take n xs @ replicate (length xs - n) z"

definition push_dep :: "u64 \<Rightarrow> proc \<Rightarrow> agent_context_dep" where
  "push_dep sequence p =
     (if pending_context_dep p
      then \<lparr>dep_used = True, dep_sequence = sequence, dep_dev = pending_context_dev p,
            dep_inum = pending_context_inum p, dep_version = pending_context_version p\<rparr>
      else zero_dep\<lparr>dep_sequence := sequence\<rparr>)"

definition agent_context_push_node :: "u64 \<Rightarrow> agent_context_node \<Rightarrow> proc \<Rightarrow> (int \<times> agent_context_node \<times> proc) option" where
  "agent_context_push_node now node p =
     (let p1 = clear_pending_dep p
      in if context_region_start p1 = 0 then Some (-1, node, p1)
         else
           let node = node\<lparr>nd_sequence := context_next_sequence p1\<rparr>;
               dep = push_dep (nd_sequence node) p;
               record = render_record node;
               rec_len = of_nat (strlen record);
               base = agent_path_base p1
           in if rec_len > agent_path_capacity p1 then Some (-1, node, p1)
              else
                let (r, p2) = agent_context_write_begin now p1
                in if r < 0 then Some (-1, node, p2)
                   else
                     let next = context_next_sequence p2 + 1;
                         p3 = p2\<lparr>context_next_sequence := (if next = 0 then 1 else next)\<rparr>
                     in case evict_loop (Suc (unat (context_node_count p3))) rec_len p3 of
                          None \<Rightarrow> None
                        | Some p4 \<Rightarrow>
                            (case copyout (p_pagetable p4) (base + context_path_len p4) record of
                               (False, pt) \<Rightarrow> Some (-1, node, p4\<lparr>p_pagetable := pt\<rparr>)
                             | (True, pt) \<Rightarrow>
                                 let n = unat (context_node_count p4);
                                     p5 = p4\<lparr>p_pagetable := pt,
                                            context_first_sequence := (if context_node_count p4 = 0 then nd_sequence node
                                                                       else context_first_sequence p4),
                                            context_offsets := (context_offsets p4)[n := ucast (context_path_len p4)],
                                            context_lengths := (context_lengths p4)[n := ucast rec_len],
                                            context_deps := (context_deps p4)[n := dep],
                                            context_path_len := context_path_len p4 + rec_len,
                                            context_node_count := context_node_count p4 + 1\<rparr>;
                                     p6 = agent_context_digest_push (nd_sequence node) (nd_request_id node)
                                            (nd_request node) (nd_result node) (nd_status node) p5;
                                     (r6, p7) = agent_sync_header now (p6\<lparr>last_context_query := nd_request_id node\<rparr>)
                                 in Some (r6, node, p7)))"

subsection \<open>Reading, validating, rolling back\<close>

function query_copy :: "u64 \<Rightarrow> u64 \<Rightarrow> nat \<Rightarrow> nat \<Rightarrow> upagetable \<Rightarrow> bool \<times> upagetable" where
  "query_copy base dst n copied pt =
     (if copied < n
      then let chunk = min 128 (n - copied)
           in case copyin pt (base + of_nat copied) chunk of
                None \<Rightarrow> (False, pt)
              | Some tmp \<Rightarrow>
                  (case copyout pt (dst + of_nat copied) tmp of
                     (False, pt') \<Rightarrow> (False, pt')
                   | (True, pt') \<Rightarrow> query_copy base dst n (copied + chunk) pt')
      else (True, pt))"
  by pat_completeness auto
termination
  by (relation "measure (\<lambda>(base, dst, n, copied, pt). n - copied)") auto

declare query_copy.simps [simp del]

definition agent_context_query :: "u64 \<Rightarrow> u64 \<Rightarrow> proc \<Rightarrow> int \<times> proc" where
  "agent_context_query dst len p =
     (let n = min len (context_path_len p);
          (ok, pt) = query_copy (agent_path_base p) dst (unat n) 0 (p_pagetable p)
      in (if ok then int_of_u64 n else -1, p\<lparr>context_reuse_hit := 1, p_pagetable := pt\<rparr>))"

definition zero_validation :: agent_context_validation where
  "zero_validation = \<lparr>va_sequence = 0, va_dev = 0, va_inum = 0, va_recorded_version = 0,
     va_current_version = 0, va_state = 0\<rparr>"

text \<open>What \<open>agent_context_validate\<close> finds out, and the version table after asking for the version.\<close>

definition validate_result :: "proc \<Rightarrow> u64 \<Rightarrow> agent_file_version list \<Rightarrow> agent_context_validation \<times> agent_file_version list" where
  "validate_result p sequence es =
     (let n = unat (context_node_count p);
          sq = (if sequence = 0 \<and> context_node_count p > 0 then dep_sequence (context_deps p ! (n - 1)) else sequence);
          res = zero_validation\<lparr>va_state := AGENT_CONTEXT_NOT_FOUND, va_sequence := sq\<rparr>
      in case first_slot (\<lambda>d. dep_sequence d = sq) (take n (context_deps p)) of
           None \<Rightarrow> (res, es)
         | Some k \<Rightarrow>
             let d = context_deps p ! k
             in if \<not> dep_used d then (res\<lparr>va_state := AGENT_CONTEXT_NO_DEP\<rparr>, es)
                else let (cur, es') = agentfs_inode_version_get (dep_dev d) (dep_inum d) es
                     in (res\<lparr>va_dev := dep_dev d, va_inum := dep_inum d, va_recorded_version := dep_version d,
                            va_current_version := cur,
                            va_state := (if cur = 0 then AGENT_CONTEXT_DELETED
                                         else if cur \<noteq> dep_version d then AGENT_CONTEXT_STALE
                                         else AGENT_CONTEXT_VALID)\<rparr>, es'))"

definition validation_bytes :: "agent_context_validation \<Rightarrow> string" where
  "validation_bytes v = le64 (va_sequence v) @ le32 (va_dev v) @ le32 (va_inum v) @
     le64 (va_recorded_version v) @ le64 (va_current_version v) @ le32 (word_of_int (va_state v)) @ replicate 4 NUL"

definition agent_context_validate :: "nat \<Rightarrow> u64 \<Rightarrow> u64 \<Rightarrow> kst \<Rightarrow> int \<times> kst" where
  "agent_context_validate i sequence dst s =
     (let (res, es) = validate_result (pr s i) sequence (ks_file_versions s);
          (ok, s2) = copyout_proc i dst (validation_bytes res) (s\<lparr>ks_file_versions := es\<rparr>)
      in (if ok then 0 else -1, s2))"

definition agent_context_rollback :: "u64 \<Rightarrow> u64 \<Rightarrow> proc \<Rightarrow> int \<times> proc" where
  "agent_context_rollback now keep p =
     (if keep > context_node_count p then (-1, p)
      else if keep = 0 then (0, agent_context_clear now p)
      else let (r, p1) = agent_context_write_begin now p
           in if r < 0 then (-1, p1)
              else let k = unat keep;
                       p2 = p1\<lparr>context_path_len := ucast (context_offsets p1 ! (k - 1)) + ucast (context_lengths p1 ! (k - 1)),
                              context_node_count := keep,
                              context_next_sequence := context_first_sequence p1 + keep,
                              context_deps := zero_from zero_dep k (context_deps p1)\<rparr>;
                       p3 = digest_clear ((clear_pending_dep p2)\<lparr>loop_state := AGENT_LOOP_ROLLED_BACK\<rparr>)
                   in agent_sync_header now p3)"

end
