(* ===== verification/ContextPath.thy ===== *)
theory ContextPath
  imports Context Params "HOL-Library.Sublist"
begin

text \<open>
  Correctness of the Context path (kernel/agent\_context.c). A process entry whose region is mapped
  and whose node table describes the path bytes represents the list of its records
  (\<open>context_records\<close>); pushing a node refines \<open>path_push\<close> on that list, a rollback keeps a prefix
  of it, and evicting always ends.
\<close>

subsection \<open>Cutting a string by a list of lengths\<close>

fun split_lens :: "nat list \<Rightarrow> 'a list \<Rightarrow> 'a list list" where
  "split_lens [] xs = []"
| "split_lens (l # ls) xs = take l xs # split_lens ls (drop l xs)"

lemma length_split_lens [simp]: "length (split_lens ls xs) = length ls"
  by (induction ls xs rule: split_lens.induct) simp_all

lemma concat_split_lens: "sum_list ls = length xs \<Longrightarrow> concat (split_lens ls xs) = xs"
  by (induction ls xs rule: split_lens.induct) simp_all

lemma split_lens_snoc:
  "sum_list ls = length xs \<Longrightarrow> split_lens (ls @ [length ys]) (xs @ ys) = split_lens ls xs @ [ys]"
  by (induction ls xs rule: split_lens.induct) simp_all

lemma split_lens_take: "sum_list (take k ls) \<le> n \<Longrightarrow> split_lens (take k ls) (take n xs) = take k (split_lens ls xs)"
proof (induction ls xs arbitrary: k n rule: split_lens.induct)
  case (1 xs)
  then show ?case by simp
next
  case (2 l ls xs)
  then show ?case by (cases k) (simp_all add: min_def drop_take)
qed

subsection \<open>The path as a list of records\<close>

definition path_text :: "proc \<Rightarrow> string" where
  "path_text p = read_bytes (p_pagetable p) (unat (agent_path_base p)) (unat (context_path_len p))"

definition node_lens :: "proc \<Rightarrow> nat list" where
  "node_lens p = map unat (take (unat (context_node_count p)) (context_lengths p))"

definition live_deps :: "proc \<Rightarrow> agent_context_dep list" where
  "live_deps p = take (unat (context_node_count p)) (context_deps p)"

definition context_records :: "proc \<Rightarrow> string list" where
  "context_records p = split_lens (node_lens p) (path_text p)"

text \<open>The region: two mapped user pages' worth of writable bytes, as \<open>agent_mark_current\<close> sets it up.\<close>

definition region_ok :: "proc \<Rightarrow> bool" where
  "region_ok p \<longleftrightarrow> pages_ok (p_pagetable p) \<and> context_region_start p \<noteq> 0 \<and> context_region_size p = of_nat AGENT_CONTEXT_REGION_SIZE \<and>
     (\<forall>k < AGENT_CONTEXT_REGION_SIZE. writable (p_pagetable p) (unat (context_region_start p) + k))"

definition nodes_ok :: "proc \<Rightarrow> bool" where
  "nodes_ok p \<longleftrightarrow> length (context_offsets p) = 16 \<and> length (context_lengths p) = 16 \<and> length (context_deps p) = 16 \<and>
     context_node_count p \<le> 16 \<and> sum_list (node_lens p) = unat (context_path_len p) \<and>
     context_path_len p \<le> agent_path_capacity p \<and>
     (\<forall>k < unat (context_node_count p). unat (context_offsets p ! k) = sum_list (take k (node_lens p)))"

definition context_inv :: "proc \<Rightarrow> bool" where
  "context_inv p \<longleftrightarrow> region_ok p \<and> nodes_ok p"

text \<open>What has to happen to a path: the oldest records go until there is a free node and room for
  the new record.\<close>

fun make_room :: "nat \<Rightarrow> nat \<Rightarrow> string list \<Rightarrow> string list" where
  "make_room cap n [] = []"
| "make_room cap n (r # rs) =
     (if 16 \<le> length (r # rs) \<or> cap < length (concat (r # rs)) + n then make_room cap n rs else r # rs)"

definition path_push :: "nat \<Rightarrow> string \<Rightarrow> string list \<Rightarrow> string list" where
  "path_push cap r rs = make_room cap (length r) rs @ [r]"

text \<open>\<open>make_room\<close> drops as few records as possible.\<close>

lemma make_room_drop:
  "\<exists>d. make_room cap n rs = drop d rs \<and> (d = length rs \<or> length (drop d rs) < 16 \<and> length (concat (drop d rs)) + n \<le> cap) \<and>
     (\<forall>e < d. 16 \<le> length (drop e rs) \<or> cap < length (concat (drop e rs)) + n)"
proof (induction cap n rs rule: make_room.induct)
  case (1 cap n)
  show ?case by (intro exI [of _ 0]) simp
next
  case (2 cap n r rs)
  show ?case
  proof (cases "16 \<le> length (r # rs) \<or> cap < length (concat (r # rs)) + n")
    case True
    then obtain d where d: "make_room cap n rs = drop d rs"
      "d = length rs \<or> length (drop d rs) < 16 \<and> length (concat (drop d rs)) + n \<le> cap"
      "\<forall>e < d. 16 \<le> length (drop e rs) \<or> cap < length (concat (drop e rs)) + n"
      using 2 by blast
    have "16 \<le> length (drop e (r # rs)) \<or> cap < length (concat (drop e (r # rs))) + n" if "e < Suc d" for e
      using that True d(3) by (cases e) auto
    with d True show ?thesis by (intro exI [of _ "Suc d"]) auto
  next
    case False
    then show ?thesis by (intro exI [of _ 0]) auto
  qed
qed

lemma make_room_fits:
  "n \<le> cap \<Longrightarrow> length (make_room cap n rs) < 16 \<and> length (concat (make_room cap n rs)) + n \<le> cap"
  by (induction cap n rs rule: make_room.induct) auto

subsection \<open>Bounds of the region\<close>

lemma region_bounds:
  assumes "region_ok p"
  shows "unat (context_region_start p) + 8192 \<le> 2 ^ 38" "unat (agent_path_base p) = unat (context_region_start p) + 640"
    "agent_path_capacity p \<le> 7552"
proof -
  have "writable (p_pagetable p) (unat (context_region_start p) + 8191)" using assms by (simp add: region_ok_def)
  then have b: "unat (context_region_start p) + 8191 < 2 ^ 38" by (rule writable_bound)
  then show "unat (context_region_start p) + 8192 \<le> 2 ^ 38" by simp
  have "unat (context_region_start p + 640) = unat (context_region_start p) + 640"
    using b by (simp add: unat_word_ariths)
  then show "unat (agent_path_base p) = unat (context_region_start p) + 640" by (simp add: agent_path_base_def)
  show "agent_path_capacity p \<le> 7552" using assms by (simp add: agent_path_capacity_def region_ok_def Let_def not_less)
qed

lemma unat_base_plus:
  assumes "region_ok p" "n \<le> 7552"
  shows "unat (agent_path_base p + of_nat n) = unat (agent_path_base p) + n"
  using region_bounds [OF assms(1)] assms(2) by (simp add: unat_word_ariths unat_of_nat64)

text \<open>The bytes of the path area.\<close>

lemma path_writable:
  assumes "region_ok p" "a + n \<le> 7552"
  shows "range_ok (writable (p_pagetable p)) (unat (agent_path_base p) + a) n"
proof -
  have "writable (p_pagetable p) (unat (agent_path_base p) + a + k)" if "k < n" for k
    using assms that region_bounds(2) [OF assms(1)]
    by (auto simp: region_ok_def dest: spec [of _ "640 + a + k"] simp: ac_simps)
  then show ?thesis by (simp add: range_ok_def)
qed

lemma path_readable:
  assumes "region_ok p" "a + n \<le> 7552"
  shows "range_ok (\<lambda>m. user_byte (p_pagetable p) m \<noteq> None) (unat (agent_path_base p) + a) n"
  using path_writable [OF assms] writable_user_byte by (simp add: range_ok_def)


lemma copyin_path:
  assumes "region_ok p" "a + n \<le> 7552"
  shows "copyin (p_pagetable p) (agent_path_base p + of_nat a) n
    = Some (read_bytes (p_pagetable p) (unat (agent_path_base p) + a) n)"
proof -
  have "pages_ok (p_pagetable p)" using assms(1) by (simp add: region_ok_def)
  then show ?thesis using copyin_spec path_readable [OF assms] unat_base_plus [of p a] assms by simp
qed

text \<open>What a write into the region leaves.\<close>

definition wrote :: "nat \<Rightarrow> string \<Rightarrow> upagetable \<Rightarrow> upagetable \<Rightarrow> bool" where
  "wrote a bs pt pt' \<longleftrightarrow> pages_ok pt' \<and> (\<forall>m. writable pt' m = writable pt m) \<and>
     (\<forall>m. user_byte pt' m = (if a \<le> m \<and> m < a + length bs then Some (bs ! (m - a)) else user_byte pt m))"

lemma copyout_wrote:
  assumes "pages_ok pt" "range_ok (writable pt) (unat va) (length bs)"
  shows "\<exists>pt'. copyout pt va bs = (True, pt') \<and> wrote (unat va) bs pt pt'"
  using copyout_spec [OF assms(1), of va bs] assms(2) unfolding wrote_def
  by (cases "copyout pt va bs") simp

lemma region_ok_wrote:
  "region_ok p \<Longrightarrow> wrote a bs (p_pagetable p) pt \<Longrightarrow> region_ok (p\<lparr>p_pagetable := pt\<rparr>)"
  by (simp add: region_ok_def wrote_def)


subsection \<open>Evicting one record\<close>

definition moved :: "nat \<Rightarrow> nat \<Rightarrow> nat \<Rightarrow> upagetable \<Rightarrow> upagetable \<Rightarrow> bool" where
  "moved a b n pt pt' \<longleftrightarrow> pages_ok pt' \<and> (\<forall>m. writable pt' m = writable pt m) \<and>
     (\<forall>m. user_byte pt' m = (if a \<le> m \<and> m < b then user_byte pt (m + n) else user_byte pt m))"

text \<open>The copy in chunks of 128 bytes moves the whole rest of the path down, although source and
  target overlap.\<close>

lemma evict_copy_moved:
  assumes "pages_ok pt" "range_ok (writable pt) (unat base) (n + r)" "unat base + n + r \<le> 2 ^ 38"
  shows "\<exists>pt'. evict_copy base n r c pt = (True, pt') \<and> moved (unat base + c) (unat base + r) n pt pt'"
  using assms(1,2)
proof (induction "r - c" arbitrary: c pt rule: less_induct)
  case less
  show ?case
  proof (cases "c < r")
    case False
    then show ?thesis using less.prems by (subst evict_copy.simps) (auto simp: moved_def)
  next
    case True
    define k where "k = min 128 (r - c)"
    have k: "0 < k" "c + k \<le> r" using True by (auto simp: k_def)
    have at: "unat (base + of_nat d) = unat base + d" if "d \<le> n + r" for d
      using that assms(3) by (simp add: unat_word_ariths unat_of_nat64)
    have src: "range_ok (\<lambda>m. user_byte pt m \<noteq> None) (unat base + (n + c)) k"
      using less.prems(2) k writable_user_byte [of pt]
      by (auto simp: range_ok_def add.assoc dest: spec [of _ "n + c + _"])
    let ?tmp = "read_bytes pt (unat base + (n + c)) k"
    have rd: "copyin pt (base + of_nat (n + c)) k = Some ?tmp"
      using copyin_spec [OF less.prems(1), of "base + of_nat (n + c)" k] src at [of "n + c"] k by simp
    have "range_ok (writable pt) (unat (base + of_nat c)) (length ?tmp)"
      using less.prems(2) k at [of c] by (auto simp: range_ok_def add.assoc)
    from copyout_wrote [OF less.prems(1) this] obtain pt1 where
      w: "copyout pt (base + of_nat c) ?tmp = (True, pt1)" "wrote (unat base + c) ?tmp pt pt1"
      using at [of c] k by auto
    have ub1: "user_byte pt1 m = (if unat base + c \<le> m \<and> m < unat base + c + k then user_byte pt (m + n) else user_byte pt m)" for m
    proof (cases "unat base + c \<le> m \<and> m < unat base + c + k")
      case True
      then obtain j where j: "m = unat base + c + j" "j < k" by (auto dest: le_Suc_ex)
      then have e: "unat base + (n + c) + j = m + n" by simp
      have "user_byte pt (unat base + (n + c) + j) \<noteq> None" using src j(2) unfolding range_ok_def by blast
      moreover have "?tmp ! j = the (user_byte pt (unat base + (n + c) + j))" using j(2) by simp
      ultimately have "user_byte pt (m + n) \<noteq> None" "?tmp ! j = the (user_byte pt (m + n))" unfolding e by blast+
      then show ?thesis using j w(2) by (auto simp: wrote_def)
    next
      case False
      then show ?thesis using w(2) by (auto simp: wrote_def)
    qed
    have wr1: "writable pt1 = writable pt" using w(2) by (simp add: wrote_def fun_eq_iff)
    have "r - (c + k) < r - c" "pages_ok pt1" using k True w(2) by (auto simp: wrote_def)
    from less.hyps [OF this(1) this(2)] less.prems(2) wr1 obtain pt2 where
      IH: "evict_copy base n r (c + k) pt1 = (True, pt2)" "moved (unat base + (c + k)) (unat base + r) n pt1 pt2"
      by auto
    have step: "evict_copy base n r c pt = (True, pt2)"
      using True rd w(1) IH(1) by (subst evict_copy.simps) (simp add: k_def [symmetric])
    have "moved (unat base + c) (unat base + r) n pt pt2"
      using IH(2) ub1 wr1 k by (auto simp: moved_def)
    with step show ?thesis by blast
  qed
qed


lemma shift_down_nth: "i < length xs \<Longrightarrow> Suc i < n \<Longrightarrow> shift_down f z n xs ! i = f (xs ! Suc i)"
  by (simp add: shift_down_def)

lemma length_shift_down [simp]: "length (shift_down f z n xs) = length xs"
  by (simp add: shift_down_def)

lemma take_shift_down: "n \<le> length xs \<Longrightarrow> take (n - 1) (shift_down f z n xs) = map f (drop 1 (take n xs))"
  by (rule nth_equalityI) (auto simp: shift_down_nth)

lemma node_lens_Cons:
  assumes "nodes_ok p" "context_node_count p \<noteq> 0"
  shows "node_lens p = unat (context_lengths p ! 0) # map unat (drop 1 (take (unat (context_node_count p)) (context_lengths p)))"
proof -
  have "take (unat (context_node_count p)) (context_lengths p) \<noteq> []"
    using assms by (auto simp: nodes_ok_def unat_eq_0)
  then show ?thesis by (cases "context_lengths p") (auto simp: node_lens_def take_Cons' split: if_splits)
qed

lemma word_le16: "(w :: u64) \<le> 16 \<Longrightarrow> unat w \<le> 16"
  by (simp add: word_le_nat_alt)

lemma capacity_evict [simp]: "agent_path_capacity (agent_evict_oldest p) = agent_path_capacity p"
  by (simp add: agent_evict_oldest_def agent_path_capacity_def Let_def split: prod.split bool.split)

lemma evict_room:
  "context_path_len (agent_evict_oldest p) = 0 \<and> context_node_count (agent_evict_oldest p) = 0 \<or>
   context_node_count p \<noteq> 0 \<and> context_node_count (agent_evict_oldest p) = context_node_count p - 1"
  by (auto simp: agent_evict_oldest_def Let_def split: prod.split bool.split)

lemma evict_loop_done:
  "context_node_count p < 16 \<Longrightarrow> context_path_len p + n \<le> agent_path_capacity p \<Longrightarrow> evict_loop fuel n p = Some p"
  by (subst evict_loop.simps) (auto dest: leD)

lemma evict_loop_step:
  "context_node_count p \<ge> 16 \<or> context_path_len p + n > agent_path_capacity p \<Longrightarrow>
   evict_loop (Suc f) n p = evict_loop f n (agent_evict_oldest p)"
  by (simp add: evict_loop.simps)

text \<open>Evicting until there is room always ends, whatever the state of the region: each round removes a node, or
  empties the path when the bytes cannot be moved.\<close>

lemma evict_loop_total:
  assumes "n \<le> agent_path_capacity p" "unat (context_node_count p) < fuel"
  shows "\<exists>q. evict_loop fuel n p = Some q \<and> context_node_count q < 16 \<and> context_path_len q + n \<le> agent_path_capacity q"
  using assms
proof (induction fuel arbitrary: p)
  case (Suc f)
  show ?case
  proof (cases "context_node_count p \<ge> 16 \<or> context_path_len p + n > agent_path_capacity p")
    case False
    then show ?thesis using evict_loop_done [of p n "Suc f"] by (simp add: not_le not_less)
  next
    case True
    let ?q = "agent_evict_oldest p"
    note step = evict_loop_step [OF True, of f]
    consider "context_path_len ?q = 0" "context_node_count ?q = 0" | "context_node_count p \<noteq> 0" "context_node_count ?q = context_node_count p - 1"
      using evict_room by blast
    then show ?thesis
    proof cases
      case 1
      then have "evict_loop f n ?q = Some ?q" using Suc.prems(1) evict_loop_done [of ?q n f] by simp
      with 1 step Suc.prems(1) show ?thesis by simp
    next
      case 2
      then have "unat (context_node_count ?q) < f" using Suc.prems(2) unat_minus_one [of "context_node_count p"]
        by (simp add: unat_gt_0 [symmetric] del: unat_gt_0)
      then show ?thesis using Suc.IH [of ?q] Suc.prems(1) step by simp
    qed
  qed
qed simp


lemma unat_ucast16 [simp]: "unat (ucast (w :: u16) :: u64) = unat w"
proof -
  have "unat w < 2 ^ 16" by (rule order.strict_trans2 [OF unsigned_less]) simp
  then have "take_bit 64 (unat w) = unat w" by (intro take_bit_nat_eq_self) simp
  then show ?thesis by (simp add: unsigned_ucast_eq)
qed

lemma evict_spec:
  assumes inv: "context_inv p" and n: "context_node_count p \<noteq> 0"
  shows "\<exists>pt. agent_evict_oldest p =
      p\<lparr>p_pagetable := pt, context_path_len := context_path_len p - ucast (context_lengths p ! 0),
        context_offsets := shift_down (\<lambda>x. ucast (ucast x - (ucast (context_lengths p ! 0) :: u64))) 0
          (unat (context_node_count p)) (context_offsets p),
        context_lengths := shift_down id 0 (unat (context_node_count p)) (context_lengths p),
        context_deps := shift_down id zero_dep (unat (context_node_count p)) (context_deps p),
        context_node_count := context_node_count p - 1,
        context_dropped_nodes := context_dropped_nodes p + 1,
        context_first_sequence := context_first_sequence p + 1\<rparr> \<and>
    moved (unat (agent_path_base p)) (unat (agent_path_base p) + (unat (context_path_len p) - unat (context_lengths p ! 0)))
      (unat (context_lengths p ! 0)) (p_pagetable p) pt"
proof -
  have r: "region_ok p" and nd: "nodes_ok p" using inv by (simp_all add: context_inv_def)
  let ?l = "unat (context_lengths p ! 0)"
  have sum: "?l \<le> unat (context_path_len p)"
    using node_lens_Cons [OF nd n] nd by (simp add: nodes_ok_def)
  have cap: "unat (context_path_len p) \<le> 7552"
    using nd region_bounds(3) [OF r] by (simp add: nodes_ok_def word_le_nat_alt)
  have le: "ucast (context_lengths p ! 0) \<le> context_path_len p" using sum by (simp add: word_le_nat_alt)
  then have first: "min (ucast (context_lengths p ! 0)) (context_path_len p) = ucast (context_lengths p ! 0)" by (simp add: min_def)
  have remain: "unat (context_path_len p - ucast (context_lengths p ! 0)) = unat (context_path_len p) - ?l"
    using le by (simp add: unat_sub)
  have "range_ok (writable (p_pagetable p)) (unat (agent_path_base p)) (?l + (unat (context_path_len p) - ?l))"
    using path_writable [OF r, of 0] sum cap by simp
  moreover have "unat (agent_path_base p) + ?l + (unat (context_path_len p) - ?l) \<le> 2 ^ 38"
    using sum cap region_bounds [OF r] by simp
  moreover have "pages_ok (p_pagetable p)" using r by (simp add: region_ok_def)
  ultimately obtain pt where pt: "evict_copy (agent_path_base p) ?l (unat (context_path_len p) - ?l) 0 (p_pagetable p) = (True, pt)"
    "moved (unat (agent_path_base p) + 0) (unat (agent_path_base p) + (unat (context_path_len p) - ?l)) ?l (p_pagetable p) pt"
    using evict_copy_moved by blast
  then show ?thesis using n by (intro exI [of _ pt]) (simp add: agent_evict_oldest_def Let_def first remain)
qed


lemma moved_read:
  assumes "moved a b n pt pt'" "a \<le> c" "c + k \<le> b"
  shows "read_bytes pt' c k = read_bytes pt (c + n) k"
  using assms by (intro nth_equalityI) (auto simp: moved_def add_ac)

lemma nth_node_lens: "i < unat (context_node_count p) \<Longrightarrow> nodes_ok p \<Longrightarrow> node_lens p ! i = unat (context_lengths p ! i)"
  using word_le16 [of "context_node_count p"] by (simp add: node_lens_def nodes_ok_def)

lemma length_node_lens: "nodes_ok p \<Longrightarrow> length (node_lens p) = unat (context_node_count p)"
  using word_le16 [of "context_node_count p"] by (simp add: node_lens_def nodes_ok_def)

lemma unat_ucast_offset: "unat (w :: u64) < 65536 \<Longrightarrow> unat (ucast w :: u16) = unat w"
  by (simp add: unsigned_ucast_eq take_bit_nat_eq_self)

lemma evict_records:
  assumes inv: "context_inv p" and n: "context_node_count p \<noteq> 0"
  shows "context_inv (agent_evict_oldest p) \<and> context_records (agent_evict_oldest p) = tl (context_records p) \<and>
    live_deps (agent_evict_oldest p) = tl (live_deps p) \<and> context_records p \<noteq> []"
proof -
  have r: "region_ok p" and nd: "nodes_ok p" using inv by (simp_all add: context_inv_def)
  let ?l = "context_lengths p ! 0" and ?n = "unat (context_node_count p)"
  obtain pt where q: "agent_evict_oldest p =
      p\<lparr>p_pagetable := pt, context_path_len := context_path_len p - ucast ?l,
        context_offsets := shift_down (\<lambda>x. ucast (ucast x - (ucast ?l :: u64))) 0 ?n (context_offsets p),
        context_lengths := shift_down id 0 ?n (context_lengths p),
        context_deps := shift_down id zero_dep ?n (context_deps p),
        context_node_count := context_node_count p - 1,
        context_dropped_nodes := context_dropped_nodes p + 1,
        context_first_sequence := context_first_sequence p + 1\<rparr>" (is "_ = ?q")
    and mv: "moved (unat (agent_path_base p)) (unat (agent_path_base p) + (unat (context_path_len p) - unat ?l))
      (unat ?l) (p_pagetable p) pt"
    using evict_spec [OF inv n] by blast
  have n0: "0 < ?n" "?n \<le> 16" using n nd word_le16 by (auto simp: nodes_ok_def unat_gt_0)
  have n1: "unat (context_node_count p - 1) = ?n - 1" using n unat_minus_one [of "context_node_count p"] by simp
  have lens: "node_lens p = unat ?l # node_lens ?q"
  proof -
    have "take (?n - 1) (shift_down id 0 ?n (context_lengths p)) = drop 1 (take ?n (context_lengths p))"
      using take_shift_down [of ?n "context_lengths p" id 0] n0 nd by (auto simp: nodes_ok_def)
    then show ?thesis using node_lens_Cons [OF nd n] n1 by (simp add: node_lens_def)
  qed
  have sum: "unat ?l + sum_list (node_lens ?q) = unat (context_path_len p)" using nd lens by (simp add: nodes_ok_def)
  then have le: "ucast ?l \<le> context_path_len p" by (simp add: word_le_nat_alt)
  then have len: "unat (context_path_len p - ucast ?l) = unat (context_path_len p) - unat ?l" by (simp add: unat_sub)
  have base: "agent_path_base ?q = agent_path_base p" by (simp add: agent_path_base_def)
  have text_q: "path_text ?q = drop (unat ?l) (path_text p)"
    using moved_read [OF mv order_refl, of "unat (context_path_len p) - unat ?l"] sum
      read_bytes_split [of "unat ?l" "unat (context_path_len p)" "p_pagetable p" "unat (agent_path_base p)"]
    by (simp add: path_text_def base len)
  have recs: "context_records p = take (unat ?l) (path_text p) # context_records ?q"
    by (simp add: context_records_def lens text_q)
  have reg: "region_ok ?q" using r mv by (simp add: region_ok_def moved_def)
  have offs: "unat (context_offsets ?q ! k) = sum_list (take k (node_lens ?q))" if "k < ?n - 1" for k
  proof -
    have o: "unat (context_offsets p ! Suc k) = unat ?l + sum_list (take k (node_lens ?q))"
      using nd that lens by (simp add: nodes_ok_def)
    have "unat (context_offsets p ! Suc k) < 2 ^ 16" by (rule order.strict_trans2 [OF unsigned_less]) simp
    then have "unat (ucast (context_offsets p ! Suc k) - ucast ?l :: u64) = sum_list (take k (node_lens ?q))"
      using o by (subst unat_sub) (simp_all add: word_le_nat_alt)
    moreover have "context_offsets ?q ! k = ucast (ucast (context_offsets p ! Suc k) - (ucast ?l :: u64))"
      using that n0 nd shift_down_nth [of k "context_offsets p" ?n] by (simp add: nodes_ok_def)
    ultimately show ?thesis using o \<open>unat (context_offsets p ! Suc k) < 2 ^ 16\<close> by (simp add: unat_ucast_offset)
  qed
  have "nodes_ok ?q"
    unfolding nodes_ok_def
  proof (intro conjI)
    show "length (context_offsets ?q) = 16" "length (context_lengths ?q) = 16" "length (context_deps ?q) = 16"
      using nd by (simp_all add: nodes_ok_def)
    show "context_node_count ?q \<le> 16" using n0 n1 by (simp add: word_le_nat_alt)
    show "sum_list (node_lens ?q) = unat (context_path_len ?q)" using sum len by simp
    have "context_path_len ?q \<le> context_path_len p" using len by (simp add: word_le_nat_alt)
    also have "\<dots> \<le> agent_path_capacity ?q"
      using nd capacity_evict [of p] unfolding q by (simp add: nodes_ok_def)
    finally show "context_path_len ?q \<le> agent_path_capacity ?q" .
    show "\<forall>k < unat (context_node_count ?q). unat (context_offsets ?q ! k) = sum_list (take k (node_lens ?q))"
      using offs n1 by simp
  qed
  moreover have "live_deps ?q = tl (live_deps p)"
    using take_shift_down [of ?n "context_deps p" id zero_dep] n0 n1 nd
    by (simp add: live_deps_def nodes_ok_def drop_Suc)
  ultimately show ?thesis using reg recs unfolding q by (simp add: context_inv_def)
qed


lemma length_records: "nodes_ok p \<Longrightarrow> length (context_records p) = unat (context_node_count p)"
  by (simp add: context_records_def length_node_lens)

lemma concat_records: "nodes_ok p \<Longrightarrow> concat (context_records p) = path_text p"
  by (simp add: context_records_def concat_split_lens nodes_ok_def path_text_def)

text \<open>The condition of the eviction loop on the abstract path.\<close>

lemma evict_cond:
  assumes inv: "context_inv p" and n: "n \<le> agent_path_capacity p"
  shows "context_node_count p \<ge> 16 \<or> context_path_len p + n > agent_path_capacity p \<longleftrightarrow>
    16 \<le> length (context_records p) \<or> unat (agent_path_capacity p) < length (concat (context_records p)) + unat n"
proof -
  have r: "region_ok p" and nd: "nodes_ok p" using inv by (simp_all add: context_inv_def)
  have "unat (context_path_len p) \<le> 7552" "unat n \<le> 7552"
    using nd n region_bounds(3) [OF r] by (auto simp: nodes_ok_def word_le_nat_alt)
  then have "unat (context_path_len p + n) = unat (context_path_len p) + unat n" by (simp add: unat_word_ariths)
  then show ?thesis by (simp add: length_records [OF nd] concat_records [OF nd] path_text_def word_le_nat_alt word_less_nat_alt)
qed

text \<open>The fields eviction leaves alone.\<close>

definition evict_core :: "proc \<Rightarrow> proc" where
  "evict_core p = p\<lparr>p_pagetable := null_pagetable, context_path_len := 0, context_offsets := [], context_lengths := [],
     context_deps := [], context_node_count := 0, context_dropped_nodes := 0, context_first_sequence := 0\<rparr>"

lemma evict_core_fields:
  assumes "evict_core q = evict_core p"
  shows "context_region_start q = context_region_start p" "context_region_size q = context_region_size p"
    "resource_quota q = resource_quota p" "context_next_sequence q = context_next_sequence p"
    "context_generation q = context_generation p" "pending_context_dep q = pending_context_dep p"
  using arg_cong [OF assms, of context_region_start] arg_cong [OF assms, of context_region_size]
    arg_cong [OF assms, of resource_quota] arg_cong [OF assms, of context_next_sequence]
    arg_cong [OF assms, of context_generation] arg_cong [OF assms, of pending_context_dep]
  by (simp_all add: evict_core_def)

lemma evict_loop_records:
  assumes "context_inv p" "n \<le> agent_path_capacity p" "unat (context_node_count p) < fuel"
  shows "\<exists>q. evict_loop fuel n p = Some q \<and> context_inv q \<and> evict_core q = evict_core p \<and>
    set (live_deps q) \<subseteq> set (live_deps p) \<and>
    context_records q = make_room (unat (agent_path_capacity p)) (unat n) (context_records p)"
  using assms
proof (induction fuel arbitrary: p)
  case (Suc f)
  note cond = evict_cond [OF Suc.prems(1,2)]
  have nd: "nodes_ok p" using Suc.prems(1) by (simp add: context_inv_def)
  show ?case
  proof (cases "context_node_count p \<ge> 16 \<or> context_path_len p + n > agent_path_capacity p")
    case False
    then have "evict_loop (Suc f) n p = Some p" using evict_loop_done [of p n "Suc f"] by (simp add: not_le not_less)
    moreover have "make_room (unat (agent_path_capacity p)) (unat n) (context_records p) = context_records p"
      using False unfolding cond by (cases "context_records p") auto
    ultimately show ?thesis using Suc.prems(1) by simp
  next
    case True
    have ne: "context_records p \<noteq> []"
    proof
      assume e: "context_records p = []"
      have "16 \<le> length (context_records p) \<or> unat (agent_path_capacity p) < length (concat (context_records p)) + unat n"
        using True unfolding cond .
      then show False using e Suc.prems(2) by (simp add: word_le_nat_alt)
    qed
    then have n0: "context_node_count p \<noteq> 0" using length_records [OF nd] by auto
    let ?q = "agent_evict_oldest p"
    note ev = evict_records [OF Suc.prems(1) n0]
    have same: "evict_core ?q = evict_core p" using evict_spec [OF Suc.prems(1) n0] by (auto simp: evict_core_def)
    have "context_node_count ?q = context_node_count p - 1" using evict_spec [OF Suc.prems(1) n0] by auto
    then have "unat (context_node_count ?q) < f"
      using n0 Suc.prems(3) unat_minus_one [of "context_node_count p"] by (simp add: unat_gt_0 [symmetric] del: unat_gt_0)
    then obtain r where r: "evict_loop f n ?q = Some r" "context_inv r" "evict_core r = evict_core ?q"
      "set (live_deps r) \<subseteq> set (live_deps ?q)"
      "context_records r = make_room (unat (agent_path_capacity ?q)) (unat n) (context_records ?q)"
      using Suc.IH [of ?q] ev Suc.prems(2) by auto
    have "make_room (unat (agent_path_capacity p)) (unat n) (context_records p)
        = make_room (unat (agent_path_capacity p)) (unat n) (tl (context_records p))"
      using True ne unfolding cond by (cases "context_records p") auto
    moreover have "set (live_deps ?q) \<subseteq> set (live_deps p)" using ev by (simp add: set_mono_suffix [OF suffix_tl])
    ultimately show ?thesis using r evict_loop_step [OF True, of f] same ev by simp
  qed
qed simp


subsection \<open>Writing the header leaves the path alone\<close>

lemma region_cong:
  assumes "context_region_start q = context_region_start p" "context_region_size q = context_region_size p"
    "resource_quota q = resource_quota p"
  shows "agent_path_capacity q = agent_path_capacity p" "agent_path_base q = agent_path_base p"
  using assms by (simp_all add: agent_path_base_def agent_path_capacity_def Let_def)

text \<open>What the path depends on.\<close>

lemma context_cong:
  assumes "p_pagetable q = p_pagetable p" "context_region_start q = context_region_start p"
    "context_region_size q = context_region_size p" "resource_quota q = resource_quota p"
    "context_path_len q = context_path_len p" "context_node_count q = context_node_count p"
    "context_offsets q = context_offsets p" "context_lengths q = context_lengths p"
    "length (context_deps q) = length (context_deps p)"
  shows "context_inv q = context_inv p" "context_records q = context_records p"
    "agent_path_capacity q = agent_path_capacity p" "agent_path_base q = agent_path_base p"
  using assms
  by (simp_all add: context_inv_def region_ok_def nodes_ok_def context_records_def node_lens_def path_text_def
      agent_path_base_def agent_path_capacity_def Let_def)

lemma header_write:
  assumes "context_inv p"
  shows "\<exists>pt. agent_context_write_header hdr p = (0, p\<lparr>p_pagetable := pt\<rparr>) \<and> context_inv (p\<lparr>p_pagetable := pt\<rparr>) \<and>
    context_records (p\<lparr>p_pagetable := pt\<rparr>) = context_records p"
proof -
  have r: "region_ok p" and nd: "nodes_ok p" using assms by (simp_all add: context_inv_def)
  have "range_ok (writable (p_pagetable p)) (unat (context_region_start p)) (length (header_bytes hdr))"
    using r by (simp add: range_ok_def region_ok_def)
  then obtain pt where pt: "copyout (p_pagetable p) (context_region_start p) (header_bytes hdr) = (True, pt)"
    "wrote (unat (context_region_start p)) (header_bytes hdr) (p_pagetable p) pt"
    using copyout_wrote [of "p_pagetable p" "context_region_start p" "header_bytes hdr"] r
    unfolding region_ok_def by blast
  let ?q = "p\<lparr>p_pagetable := pt\<rparr>"
  have base: "agent_path_base ?q = agent_path_base p" by (simp add: agent_path_base_def)
  have cap: "agent_path_capacity ?q = agent_path_capacity p" by (simp add: agent_path_capacity_def Let_def)
  have "path_text ?q = path_text p"
    using pt(2) region_bounds(2) [OF r] unfolding path_text_def base
    by (intro nth_equalityI) (auto simp: wrote_def)
  then have "context_records ?q = context_records p" by (simp add: context_records_def node_lens_def)
  moreover have "context_inv ?q"
    using region_ok_wrote [OF r pt(2)] nd cap
    by (simp add: context_inv_def nodes_ok_def node_lens_def)
  ultimately show ?thesis
    using pt(1) r by (intro exI [of _ pt]) (simp add: agent_context_write_header_def region_ok_def)
qed

definition odd_gen :: "u64 \<Rightarrow> u64" where
  "odd_gen g = (if g AND 1 = 0 then g + 1 else g + 2)"

definition even_gen :: "u64 \<Rightarrow> u64" where
  "even_gen g = (if g AND 1 \<noteq> 0 then g + 1 else g + 2)"

lemma odd_gen: "odd_gen g AND 1 = 1"
  by (simp add: odd_gen_def and_one_eq mod_2_eq_odd)

lemma even_gen: "even_gen g AND 1 = 0"
  by (simp add: even_gen_def and_one_eq mod_2_eq_odd)

lemma write_begin_spec:
  assumes "context_inv p"
  shows "\<exists>pt. agent_context_write_begin now p = (0, p\<lparr>context_generation := odd_gen (context_generation p), p_pagetable := pt\<rparr>) \<and>
    context_inv (p\<lparr>context_generation := odd_gen (context_generation p), p_pagetable := pt\<rparr>) \<and>
    context_records (p\<lparr>context_generation := odd_gen (context_generation p), p_pagetable := pt\<rparr>) = context_records p"
proof -
  let ?p1 = "p\<lparr>context_generation := odd_gen (context_generation p)\<rparr>"
  have 1: "context_inv ?p1" "context_records ?p1 = context_records p" using assms context_cong [of ?p1 p] by simp_all
  have "agent_context_write_begin now p = agent_context_write_header (agent_context_build_header now ?p1) ?p1"
    by (simp add: agent_context_write_begin_def odd_gen_def Let_def)
  then show ?thesis using header_write [OF 1(1), of "agent_context_build_header now ?p1"] 1(2) by simp
qed

lemma sync_header_spec:
  assumes "context_inv p"
  shows "\<exists>pt. agent_sync_header now p = (0, p\<lparr>context_generation := even_gen (context_generation p), p_pagetable := pt\<rparr>) \<and>
    context_inv (p\<lparr>context_generation := even_gen (context_generation p), p_pagetable := pt\<rparr>) \<and>
    context_records (p\<lparr>context_generation := even_gen (context_generation p), p_pagetable := pt\<rparr>) = context_records p"
proof -
  let ?p1 = "p\<lparr>context_generation := even_gen (context_generation p)\<rparr>"
  have 1: "context_inv ?p1" "context_records ?p1 = context_records p" using assms context_cong [of ?p1 p] by simp_all
  have "agent_sync_header now p = agent_context_write_header (agent_context_fill_last ?p1 (agent_context_build_header now ?p1)) ?p1"
    by (simp add: agent_sync_header_def even_gen_def Let_def)
  then show ?thesis
    using header_write [OF 1(1), of "agent_context_fill_last ?p1 (agent_context_build_header now ?p1)"] 1(2) by simp
qed

subsection \<open>Appending a record\<close>

lemma render_record_plain: "NUL \<notin> set (render_record node)" "length (render_record node) \<le> 383"
proof -
  have nl: "char_of (10 :: nat) \<noteq> NUL" by code_simp
  show "NUL \<notin> set (render_record node)"
    unfolding render_record_def by (rule emit_text(2)) simp_all
  have "int (length (render_record node)) + sb_left (emit [] (sbuf_new 384)) \<le> 383 + 384"
    using emit_text(1) [of 384] unfolding render_record_def by (subst emit_text(1)) (simp_all add: sbuf_new_def)
  then show "length (render_record node) \<le> 383" by (simp add: sbuf_new_def)
qed

lemma take_Suc_update: "n < length xs \<Longrightarrow> take (Suc n) (xs[n := v]) = take n xs @ [v]"
  by (simp add: take_Suc_conv_app_nth)

definition appended :: "upagetable \<Rightarrow> u64 \<Rightarrow> nat \<Rightarrow> agent_context_dep list \<Rightarrow> proc \<Rightarrow> proc" where
  "appended pt fs n ds p = p\<lparr>p_pagetable := pt, context_first_sequence := fs,
     context_offsets := (context_offsets p)[unat (context_node_count p) := ucast (context_path_len p)],
     context_lengths := (context_lengths p)[unat (context_node_count p) := ucast (of_nat n :: u64)],
     context_deps := ds, context_path_len := context_path_len p + of_nat n,
     context_node_count := context_node_count p + 1\<rparr>"

lemma append_record:
  assumes inv: "context_inv p" and room: "context_node_count p < 16"
    and fits: "context_path_len p + of_nat (length bs) \<le> agent_path_capacity p" "length bs \<le> 383" and deps: "length ds = 16"
  shows "\<exists>pt. copyout (p_pagetable p) (agent_path_base p + context_path_len p) bs = (True, pt) \<and>
    context_inv (appended pt fs (length bs) ds p) \<and>
    context_records (appended pt fs (length bs) ds p) = context_records p @ [bs]"
proof -
  have r: "region_ok p" and nd: "nodes_ok p" using inv by (simp_all add: context_inv_def)
  let ?n = "unat (context_node_count p)" and ?L = "unat (context_path_len p)"
  have L: "?L \<le> 7552" "?L = sum_list (node_lens p)" and n: "?n < 16" "unat (context_node_count p + 1) = Suc ?n"
    using nd room region_bounds(3) [OF r]
    by (auto simp: nodes_ok_def word_le_nat_alt word_less_nat_alt unat_word_ariths)
  have sumL: "unat (context_path_len p + of_nat (length bs)) = ?L + length bs"
    using L fits(2) by (simp add: unat_word_ariths unat_of_nat64)
  have fit: "?L + length bs \<le> 7552"
    using fits(1) region_bounds(3) [OF r] sumL by (simp add: word_le_nat_alt)
  have at: "unat (agent_path_base p + context_path_len p) = unat (agent_path_base p) + ?L"
    using unat_base_plus [OF r L(1)] by simp
  obtain pt where pt: "copyout (p_pagetable p) (agent_path_base p + context_path_len p) bs = (True, pt)"
    "wrote (unat (agent_path_base p) + ?L) bs (p_pagetable p) pt"
    using copyout_wrote [of "p_pagetable p" "agent_path_base p + context_path_len p" bs] path_writable [OF r fit] r at
    unfolding region_ok_def by metis
  let ?q = "appended pt fs (length bs) ds p"
  have same: "context_region_start ?q = context_region_start p" "agent_path_base ?q = agent_path_base p"
    "agent_path_capacity ?q = agent_path_capacity p"
    by (simp_all add: appended_def agent_path_base_def agent_path_capacity_def Let_def)
  have lens: "node_lens ?q = node_lens p @ [length bs]"
    using nd n fits(2) by (simp add: node_lens_def appended_def nodes_ok_def take_Suc_update unat_ucast_offset unat_of_nat64)
  have text_q: "path_text ?q = path_text p @ bs"
  proof -
    have "path_text ?q = read_bytes pt (unat (agent_path_base p)) (?L + length bs)"
      unfolding path_text_def same by (simp add: appended_def sumL)
    also have "\<dots> = path_text p @ bs"
      using pt(2) by (intro nth_equalityI) (auto simp: path_text_def wrote_def nth_append)
    finally show ?thesis .
  qed
  have "sum_list (node_lens p) = length (path_text p)" using L(2) by (simp add: path_text_def)
  from split_lens_snoc [OF this] have "context_records ?q = context_records p @ [bs]"
    by (simp add: context_records_def lens text_q)
  moreover have "region_ok ?q"
    using region_ok_wrote [OF r pt(2)] by (simp add: region_ok_def appended_def)
  moreover have "nodes_ok ?q"
    unfolding nodes_ok_def lens same(3)
  proof (intro conjI)
    show "length (context_offsets ?q) = 16" "length (context_lengths ?q) = 16" "length (context_deps ?q) = 16"
      using nd deps by (simp_all add: nodes_ok_def appended_def)
    show "context_node_count ?q \<le> 16" using n by (simp add: appended_def word_le_nat_alt)
    show "sum_list (node_lens p @ [length bs]) = unat (context_path_len ?q)" using L sumL by (simp add: appended_def)
    show "context_path_len ?q \<le> agent_path_capacity p" using fits(1) by (simp add: appended_def)
    show "\<forall>k < unat (context_node_count ?q). unat (context_offsets ?q ! k) = sum_list (take k (node_lens p @ [length bs]))"
    proof (intro allI impI)
      fix k assume "k < unat (context_node_count ?q)"
      then have k: "k < ?n \<or> k = ?n" using n by (auto simp: appended_def)
      then show "unat (context_offsets ?q ! k) = sum_list (take k (node_lens p @ [length bs]))"
        using nd n L length_node_lens [OF nd]
        by (auto simp: appended_def nodes_ok_def unat_ucast_offset)
    qed
  qed
  ultimately show ?thesis using pt(1) by (intro exI [of _ pt]) (simp add: context_inv_def)
qed

subsection \<open>Pushing\<close>

lemma digest_push_frame [simp]:
  "context_next_sequence (agent_context_digest_push sq rid rq rs st p) = context_next_sequence p"
  "context_deps (agent_context_digest_push sq rid rq rs st p) = context_deps p"
  "context_node_count (agent_context_digest_push sq rid rq rs st p) = context_node_count p"
  by (simp_all add: agent_context_digest_push_def Let_def)

lemma digest_push_context:
  assumes "context_inv p"
  shows "context_inv (agent_context_digest_push sq rid rq rs st p\<lparr>last_context_query := x\<rparr>)"
    "context_records (agent_context_digest_push sq rid rq rs st p\<lparr>last_context_query := x\<rparr>) = context_records p"
  using assms context_cong [of "agent_context_digest_push sq rid rq rs st p\<lparr>last_context_query := x\<rparr>" p]
  by (simp_all add: agent_context_digest_push_def Let_def)

definition next_sequence :: "u64 \<Rightarrow> u64" where
  "next_sequence n = (if n + 1 = 0 then 1 else n + 1)"

lemma push_node_spec:
  assumes inv: "context_inv p"
  shows "\<exists>r q. agent_context_push_node now node p = Some (r, node\<lparr>nd_sequence := context_next_sequence p\<rparr>, q) \<and> context_inv q \<and>
    (let bs = render_record (node\<lparr>nd_sequence := context_next_sequence p\<rparr>); cap = unat (agent_path_capacity p)
     in if length bs \<le> cap
        then r = 0 \<and> context_records q = path_push cap bs (context_records p) \<and>
          context_next_sequence q = next_sequence (context_next_sequence p) \<and> context_generation q AND 1 = 0 \<and>
          (\<exists>ds. live_deps q = ds @ [push_dep (context_next_sequence p) p] \<and> set ds \<subseteq> set (live_deps p))
        else r = -1 \<and> context_records q = context_records p \<and> context_next_sequence q = context_next_sequence p \<and>
          context_generation q = context_generation p)"
proof -
  let ?node = "node\<lparr>nd_sequence := context_next_sequence p\<rparr>" and ?p1 = "clear_pending_dep p"
  let ?bs = "render_record ?node"
  have p1: "context_inv ?p1" "context_records ?p1 = context_records p" "agent_path_capacity ?p1 = agent_path_capacity p"
    "agent_path_base ?p1 = agent_path_base p"
    using inv context_cong [of ?p1 p] by (simp_all add: clear_pending_dep_def)
  have start: "context_region_start ?p1 \<noteq> 0" using p1(1) by (simp add: context_inv_def region_ok_def)
  have len: "strlen ?bs = length ?bs" "length ?bs \<le> 383" using render_record_plain [of ?node] by (simp_all add: strlen_cstr cstr_id)
  then have n: "unat (of_nat (length ?bs) :: u64) = length ?bs" by (simp add: unat_of_nat64)
  have big: "of_nat (length ?bs) > agent_path_capacity p \<longleftrightarrow> \<not> length ?bs \<le> unat (agent_path_capacity p)"
    using n by (simp add: word_less_nat_alt not_le)
  have seq: "context_next_sequence ?p1 = context_next_sequence p" "context_generation ?p1 = context_generation p"
    by (simp_all add: clear_pending_dep_def)
  show ?thesis
  proof (cases "length ?bs \<le> unat (agent_path_capacity p)")
    case False
    then have "agent_context_push_node now node p = Some (-1, ?node, ?p1)"
      using start big len by (simp add: agent_context_push_node_def Let_def p1 seq)
    then show ?thesis using False p1 seq by (auto simp: Let_def)
  next
    case fits: True
    obtain pt2 where wb: "agent_context_write_begin now ?p1
        = (0, ?p1\<lparr>context_generation := odd_gen (context_generation p), p_pagetable := pt2\<rparr>)"
      and inv2: "context_inv (?p1\<lparr>context_generation := odd_gen (context_generation p), p_pagetable := pt2\<rparr>)"
      and rec2: "context_records (?p1\<lparr>context_generation := odd_gen (context_generation p), p_pagetable := pt2\<rparr>)
        = context_records p"
      using write_begin_spec [OF p1(1), of now] p1(2) seq(2) by auto
    let ?p2 = "?p1\<lparr>context_generation := odd_gen (context_generation p), p_pagetable := pt2\<rparr>"
    note p2 = inv2 rec2
    let ?p3 = "?p2\<lparr>context_next_sequence := next_sequence (context_next_sequence p)\<rparr>"
    have p3: "context_inv ?p3" "context_records ?p3 = context_records p" "agent_path_capacity ?p3 = agent_path_capacity p"
      "agent_path_base ?p3 = agent_path_base p"
      using p2 context_cong(1,2) [of ?p3 ?p2] region_cong [of ?p3 p]
      by (simp_all add: clear_pending_dep_def)
    have le: "of_nat (length ?bs) \<le> agent_path_capacity ?p3" using fits n p3(3) by (simp add: word_le_nat_alt)
    obtain p4 where p4: "evict_loop (Suc (unat (context_node_count ?p3))) (of_nat (length ?bs)) ?p3 = Some p4"
      "context_inv p4" "evict_core p4 = evict_core ?p3"
      "set (live_deps p4) \<subseteq> set (live_deps ?p3)"
      "context_records p4 = make_room (unat (agent_path_capacity ?p3)) (length ?bs) (context_records ?p3)"
      using evict_loop_records [OF p3(1) le lessI] n by auto
    have room: "context_node_count p4 < 16" "context_path_len p4 + of_nat (length ?bs) \<le> agent_path_capacity p4"
      using evict_loop_total [OF le lessI] p4(1) by auto
    have base4: "agent_path_base p4 = agent_path_base p" "context_next_sequence p4 = next_sequence (context_next_sequence p)"
      using evict_core_fields [OF p4(3)] p3(4) by (simp_all add: agent_path_base_def)
    let ?dep = "push_dep (context_next_sequence p) p"
    let ?ds = "(context_deps p4)[unat (context_node_count p4) := ?dep]"
    define fs where "fs = (if context_node_count p4 = 0 then nd_sequence ?node else context_first_sequence p4)"
    have ds: "length ?ds = 16" using p4(2) by (simp add: context_inv_def nodes_ok_def)
    obtain pt5 where out: "copyout (p_pagetable p4) (agent_path_base p + context_path_len p4) ?bs = (True, pt5)"
      and p5: "context_inv (appended pt5 fs (length ?bs) ?ds p4)"
        "context_records (appended pt5 fs (length ?bs) ?ds p4) = context_records p4 @ [?bs]"
      using append_record [OF p4(2) room len(2) ds, of fs] base4(1) by auto
    let ?p5 = "appended pt5 fs (length ?bs) ?ds p4"
    let ?p6 = "agent_context_digest_push (context_next_sequence p) (nd_request_id node) (nd_request node) (nd_result node)
      (nd_status node) ?p5\<lparr>last_context_query := nd_request_id node\<rparr>"
    note dp = digest_push_context [OF p5(1)]
    obtain pt7 where sync: "agent_sync_header now ?p6
        = (0, ?p6\<lparr>context_generation := even_gen (context_generation ?p6), p_pagetable := pt7\<rparr>)"
      and inv7: "context_inv (?p6\<lparr>context_generation := even_gen (context_generation ?p6), p_pagetable := pt7\<rparr>)"
      and rec7: "context_records (?p6\<lparr>context_generation := even_gen (context_generation ?p6), p_pagetable := pt7\<rparr>)
        = context_records p4 @ [?bs]"
      using sync_header_spec [OF dp(1), of now] dp(2) p5(2) by metis
    let ?p7 = "?p6\<lparr>context_generation := even_gen (context_generation ?p6), p_pagetable := pt7\<rparr>"
    note p7 = inv7 rec7
    have run: "agent_context_push_node now node p = Some (0, ?node, ?p7)"
      using start fits big len n p1(3,4) seq wb le p4(1) out sync
      by (simp add: agent_context_push_node_def Let_def appended_def not_less next_sequence_def [symmetric] fs_def [symmetric])
    have "live_deps ?p7 = live_deps p4 @ [?dep]"
      using p4(2) room(1)
      by (simp add: live_deps_def appended_def context_inv_def nodes_ok_def word_less_nat_alt unat_word_ariths take_Suc_update)
    moreover have "set (live_deps p4) \<subseteq> set (live_deps p)"
      using p4(4) by (simp add: live_deps_def clear_pending_dep_def)
    moreover have "context_next_sequence ?p7 = next_sequence (context_next_sequence p)"
      using base4(2) by (simp add: appended_def)
    ultimately show ?thesis
      using fits run p7 p4(5) p3(2,3) even_gen by (auto simp: Let_def path_push_def)
  qed
qed

subsection \<open>Clearing and rolling back\<close>

lemma zero_region_ok:
  "pages_ok pt \<Longrightarrow> pages_ok (zero_region start sz c pt) \<and> (\<forall>m. writable (zero_region start sz c pt) m = writable pt m)"
proof (induction start sz c pt rule: zero_region.induct)
  case (1 start sz c pt)
  show ?case
  proof (cases "c < sz")
    case False
    then show ?thesis using 1 by (subst (1 2) zero_region.simps) simp
  next
    case True
    let ?n = "min 128 (sz - c)"
    obtain ok pt' where co: "copyout pt (start + of_nat c) (replicate ?n NUL) = (ok, pt')" by force
    have w: "pages_ok pt'" "\<forall>m. writable pt' m = writable pt m"
      using copyout_spec [OF "1.prems", of "start + of_nat c" "replicate ?n NUL"] co by auto
    show ?thesis
    proof (cases ok)
      case False
      then have "zero_region start sz c pt = pt'" using True co by (subst zero_region.simps) (simp add: Let_def)
      with w show ?thesis by simp
    next
      case ok: True
      then have "zero_region start sz c pt = zero_region start sz (c + ?n) pt'"
        using True co by (subst zero_region.simps) (simp add: Let_def)
      with "1.IH" [OF True refl co [symmetric]] ok w show ?thesis by simp
    qed
  qed
qed

lemma clear_spec:
  assumes inv: "context_inv p"
  shows "context_inv (agent_context_clear now p) \<and> context_records (agent_context_clear now p) = [] \<and>
    context_digest_count (agent_context_clear now p) = 0 \<and> context_next_sequence (agent_context_clear now p) = 1 \<and>
    context_generation (agent_context_clear now p) AND 1 = 0"
proof -
  have r: "region_ok p" using inv by (simp add: context_inv_def)
  then have start: "context_region_start p \<noteq> 0" "context_region_size p \<noteq> 0" by (simp_all add: region_ok_def)
  obtain pt1 where wb: "agent_context_write_begin now p = (0, p\<lparr>context_generation := odd_gen (context_generation p), p_pagetable := pt1\<rparr>)"
    and i1: "context_inv (p\<lparr>context_generation := odd_gen (context_generation p), p_pagetable := pt1\<rparr>)"
    using write_begin_spec [OF inv, of now] by blast
  have ok1: "pages_ok pt1" using i1 by (simp add: context_inv_def region_ok_def)
  define pt2 where "pt2 = zero_region (context_region_start p) (unat (context_region_size p)) 0 pt1"
  define q where "q = digest_clear (clear_pending_dep (p\<lparr>context_generation := odd_gen (context_generation p), p_pagetable := pt1,
      context_path_len := 0, context_node_count := 0, context_dropped_nodes := 0, context_first_sequence := 0,
      context_next_sequence := 1, context_offsets := replicate 16 0, context_lengths := replicate 16 0,
      context_deps := zero_deps\<rparr>)\<lparr>p_pagetable := pt2\<rparr>)"
  have cl: "agent_context_clear now p = snd (agent_sync_header now q)"
    using start by (simp add: agent_context_clear_def wb Let_def clear_pending_dep_def pt2_def q_def)
  have "context_inv q"
    using zero_region_ok [OF ok1, of "context_region_start p" "unat (context_region_size p)" 0] i1
    unfolding context_inv_def region_ok_def nodes_ok_def
    by (simp add: q_def digest_clear_def clear_pending_dep_def zero_deps_def node_lens_def pt2_def)
  then obtain pt3 where sy: "agent_sync_header now q = (0, q\<lparr>context_generation := even_gen (context_generation q), p_pagetable := pt3\<rparr>)"
    "context_inv (q\<lparr>context_generation := even_gen (context_generation q), p_pagetable := pt3\<rparr>)"
    "context_records (q\<lparr>context_generation := even_gen (context_generation q), p_pagetable := pt3\<rparr>) = context_records q"
    using sync_header_spec by blast
  have "context_records q = []"
    by (simp add: context_records_def node_lens_def q_def digest_clear_def clear_pending_dep_def)
  with sy cl show ?thesis
    by (simp add: even_gen) (simp add: q_def digest_clear_def clear_pending_dep_def)
qed

lemma rollback_spec:
  assumes inv: "context_inv p" and keep: "keep \<noteq> 0" "keep \<le> context_node_count p"
  shows "\<exists>q. agent_context_rollback now keep p = (0, q) \<and> context_inv q \<and>
    context_records q = take (unat keep) (context_records p) \<and> live_deps q = take (unat keep) (live_deps p) \<and>
    context_digest_count q = 0 \<and> loop_state q = AGENT_LOOP_ROLLED_BACK \<and>
    context_next_sequence q = context_first_sequence p + keep \<and> context_generation q AND 1 = 0"
proof -
  obtain pt1 where wb: "agent_context_write_begin now p = (0, p\<lparr>context_generation := odd_gen (context_generation p), p_pagetable := pt1\<rparr>)"
    and i1: "context_inv (p\<lparr>context_generation := odd_gen (context_generation p), p_pagetable := pt1\<rparr>)"
    and r1: "context_records (p\<lparr>context_generation := odd_gen (context_generation p), p_pagetable := pt1\<rparr>) = context_records p"
    using write_begin_spec [OF inv, of now] by blast
  let ?p1 = "p\<lparr>context_generation := odd_gen (context_generation p), p_pagetable := pt1\<rparr>" and ?k = "unat keep"
  have r: "region_ok ?p1" and nd: "nodes_ok ?p1" using i1 by (simp_all add: context_inv_def)
  have k: "0 < ?k" "?k \<le> unat (context_node_count p)" "unat (context_node_count p) \<le> 16"
    using keep nd word_le16 by (auto simp: word_le_nat_alt unat_gt_0 nodes_ok_def)
  define len where "len = ucast (context_offsets p ! (?k - 1)) + (ucast (context_lengths p ! (?k - 1)) :: u64)"
  have "Suc (?k - 1) = ?k" using k by simp
  have lens: "node_lens ?p1 = node_lens p" by (simp add: node_lens_def)
  have "sum_list (take ?k (node_lens p)) = sum_list (take (?k - 1) (node_lens p)) + node_lens p ! (?k - 1)"
    using k length_node_lens [OF nd] take_Suc_conv_app_nth [of "?k - 1" "node_lens p"] lens by simp
  also have "\<dots> = unat (context_offsets p ! (?k - 1)) + unat (context_lengths p ! (?k - 1))"
    using nd k nth_node_lens [of "?k - 1" ?p1] lens by (simp add: nodes_ok_def)
  finally have sum: "sum_list (take ?k (node_lens p)) = unat (context_offsets p ! (?k - 1)) + unat (context_lengths p ! (?k - 1))" .
  have le: "sum_list (take ?k (node_lens p)) \<le> unat (context_path_len p)"
    using nd lens sum_list_append [of "take ?k (node_lens p)" "drop ?k (node_lens p)"] by (simp add: nodes_ok_def)
  have cap: "unat (context_path_len p) \<le> 7552" using nd region_bounds(3) [OF r] by (simp add: nodes_ok_def word_le_nat_alt)
  have len: "unat len = sum_list (take ?k (node_lens p))"
    using sum le cap by (simp add: len_def unat_word_ariths)
  define q where "q = digest_clear (clear_pending_dep (?p1\<lparr>context_path_len := len, context_node_count := keep,
      context_next_sequence := context_first_sequence p + keep,
      context_deps := zero_from zero_dep ?k (context_deps p)\<rparr>)\<lparr>loop_state := AGENT_LOOP_ROLLED_BACK\<rparr>)"
  have nk: "\<not> context_node_count p < keep" using keep(2) by (simp add: not_less)
  have run: "agent_context_rollback now keep p = agent_sync_header now q"
    using keep(1) nk by (simp add: agent_context_rollback_def wb Let_def q_def len_def)
  have lq: "node_lens q = take ?k (node_lens p)"
    using k by (simp add: node_lens_def q_def digest_clear_def clear_pending_dep_def take_map min_absorb1)
  have regq: "agent_path_base q = agent_path_base ?p1" "agent_path_capacity q = agent_path_capacity ?p1"
    using region_cong [of q ?p1] by (simp_all add: q_def digest_clear_def clear_pending_dep_def)
  have text_q: "path_text q = take (unat len) (path_text ?p1)"
  proof -
    have "path_text q = read_bytes pt1 (unat (agent_path_base ?p1)) (unat len)"
      unfolding path_text_def regq(1) by (simp add: q_def digest_clear_def clear_pending_dep_def)
    then show ?thesis
      using read_bytes_split [of "unat len" "unat (context_path_len p)" pt1 "unat (agent_path_base ?p1)"] le len
      by (simp add: path_text_def)
  qed
  have recs: "context_records q = take ?k (context_records p)"
    using split_lens_take [of ?k "node_lens p" "unat len" "path_text ?p1"] len r1
    by (simp add: context_records_def lq text_q lens)
  have deps: "length (context_deps q) = 16" "live_deps q = take ?k (live_deps p)"
    using nd k by (auto simp: q_def digest_clear_def clear_pending_dep_def zero_from_def live_deps_def nodes_ok_def)
  have "region_ok q" using r by (simp add: region_ok_def q_def digest_clear_def clear_pending_dep_def)
  moreover have "nodes_ok q"
    unfolding nodes_ok_def lq regq(2)
  proof (intro conjI)
    show "length (context_offsets q) = 16" "length (context_lengths q) = 16"
      using nd by (simp_all add: nodes_ok_def q_def digest_clear_def clear_pending_dep_def)
    show "length (context_deps q) = 16" by (rule deps(1))
    show "context_node_count q \<le> 16" using k by (simp add: q_def digest_clear_def clear_pending_dep_def word_le_nat_alt)
    show "sum_list (take ?k (node_lens p)) = unat (context_path_len q)"
      using len by (simp add: q_def digest_clear_def clear_pending_dep_def)
    have "len \<le> context_path_len p" using le len by (simp add: word_le_nat_alt)
    also have "context_path_len p \<le> agent_path_capacity ?p1" using nd by (simp add: nodes_ok_def)
    finally show "context_path_len q \<le> agent_path_capacity ?p1"
      by (simp add: q_def digest_clear_def clear_pending_dep_def)
    show "\<forall>i < unat (context_node_count q). unat (context_offsets q ! i) = sum_list (take i (take ?k (node_lens p)))"
      using nd k lens by (simp add: q_def digest_clear_def clear_pending_dep_def nodes_ok_def min_def)
  qed
  ultimately have "context_inv q" by (simp add: context_inv_def)
  then obtain pt3 where sy: "agent_sync_header now q = (0, q\<lparr>context_generation := even_gen (context_generation q), p_pagetable := pt3\<rparr>)"
    "context_inv (q\<lparr>context_generation := even_gen (context_generation q), p_pagetable := pt3\<rparr>)"
    "context_records (q\<lparr>context_generation := even_gen (context_generation q), p_pagetable := pt3\<rparr>) = context_records q"
    using sync_header_spec by blast
  with run recs deps(2) show ?thesis
    by (simp add: even_gen) (simp add: live_deps_def q_def digest_clear_def clear_pending_dep_def)
qed

subsection \<open>The properties\<close>

text \<open>C12 (context_push_refines). Pushing a node refines appending to a list of records: on a well-formed Context
  the push always returns; if the record fits the capacity, it succeeds, drops exactly the oldest records that
  have to go (\<open>path_push\<close>: until fewer than sixteen are left and the new one fits), appends the new record
  byte for byte, steps the sequence number, leaves the generation even and records the pending file dependency
  with the node; if it can never fit, it fails and only the pending dependency is gone. Either way the Context
  is well formed again.\<close>

theorem context_push_refines:
  assumes "context_inv p"
  shows "\<exists>r q. agent_context_push_node now node p = Some (r, node\<lparr>nd_sequence := context_next_sequence p\<rparr>, q) \<and> context_inv q \<and>
    (let bs = render_record (node\<lparr>nd_sequence := context_next_sequence p\<rparr>); cap = unat (agent_path_capacity p)
     in if length bs \<le> cap
        then r = 0 \<and> context_records q = path_push cap bs (context_records p) \<and>
          context_next_sequence q = next_sequence (context_next_sequence p) \<and> context_generation q AND 1 = 0 \<and>
          (\<exists>ds. live_deps q = ds @ [push_dep (context_next_sequence p) p] \<and> set ds \<subseteq> set (live_deps p))
        else r = -1 \<and> context_records q = context_records p \<and> context_next_sequence q = context_next_sequence p \<and>
          context_generation q = context_generation p)"
  using assms by (rule push_node_spec)

text \<open>A process with a freshly mapped Context region.\<close>

definition two_pages :: "u64 \<Rightarrow> upagetable" where
  "two_pages a = (one_page a)\<lparr>pt_leaf := [a \<mapsto> \<lparr>pg_pa = 0x87ffe000, pg_flags = 23, pg_data = zero_page\<rparr>,
     a + 4096 \<mapsto> \<lparr>pg_pa = 0x87ffd000, pg_flags = 23, pg_data = zero_page\<rparr>]\<rparr>"

definition ctx_proc :: proc where
  "ctx_proc = zero_proc\<lparr>p_pagetable := two_pages 4096, context_region_start := 4096, context_region_size := 8192,
     context_next_sequence := 1, agent_type := 1\<rparr>"

lemma pages_ok_two_pages: "pages_ok (two_pages a)"
  by (auto simp: pages_ok_def page_at_def walk_def one_page_def two_pages_def zero_page_def split: if_splits)

lemma writable_two_pages: "4096 \<le> n \<Longrightarrow> n < 12288 \<Longrightarrow> writable (two_pages 4096) n"
proof -
  assume n: "4096 \<le> n" "n < 12288"
  have "n div 4096 = 1 \<or> n div 4096 = 2"
  proof (cases "n < 8192")
    case True
    then have "n div 4096 = 1" using n by (intro div_nat_eqI) simp_all
    then show ?thesis ..
  next
    case False
    then have "n div 4096 = 2" using n by (intro div_nat_eqI) simp_all
    then show ?thesis ..
  qed
  then have "PGROUNDDOWN (of_nat n) = (4096 :: u64) \<or> PGROUNDDOWN (of_nat n) = (8192 :: u64)"
    using page_base_of_nat [of n] n by (elim disjE) simp_all
  moreover have "(of_nat n :: u64) < MAXVA"
    using n by (simp add: word_less_nat_alt unat_of_nat64)
  ultimately show ?thesis
    using n by (elim disjE) (simp_all add: writable_def page_at_def walk_def one_page_def two_pages_def)
qed

lemma ctx_proc_inv: "context_inv ctx_proc" "context_records ctx_proc = []" "live_deps ctx_proc = []"
  using pages_ok_two_pages writable_two_pages
  by (simp_all add: context_inv_def region_ok_def nodes_ok_def ctx_proc_def zero_proc_def node_lens_def
      context_records_def live_deps_def)

lemma ctx_proc_capacity: "agent_path_capacity ctx_proc = 7552"
  by (simp add: agent_path_capacity_def ctx_proc_def zero_proc_def)

definition wit_node :: agent_context_node where
  "wit_node = \<lparr>nd_timestamp_ms = 3, nd_sequence = 0, nd_request_id = 7, nd_span_id = 0, nd_cause_sequence = 0,
     nd_status = 0, nd_request = ''read'', nd_result = ''ok''\<rparr>"

theorem context_push_refines_witness:
  "\<exists>r q. agent_context_push_node 5 (wit_node) ctx_proc
     = Some (r, wit_node\<lparr>nd_sequence := 1\<rparr>, q) \<and>
   context_records q = [render_record (wit_node\<lparr>nd_sequence := 1\<rparr>)]"
proof -
  let ?n = wit_node
  have "context_next_sequence ctx_proc = 1" by (simp add: ctx_proc_def)
  moreover have "length (render_record (?n\<lparr>nd_sequence := 1\<rparr>)) \<le> unat (agent_path_capacity ctx_proc)"
    using render_record_plain(2) [of "?n\<lparr>nd_sequence := 1\<rparr>"] by (simp add: ctx_proc_capacity)
  ultimately show ?thesis
    using context_push_refines [OF ctx_proc_inv(1), where now = 5 and node = ?n]
    by (auto simp: Let_def ctx_proc_inv(2) path_push_def)
qed

text \<open>C20 (push_always_returns). Whatever state a process is in - also one whose region is unmapped or whose node
  table is inconsistent - pushing a Context node returns: the eviction loop needs at most one round more than
  there are nodes.\<close>

lemma write_begin_capacity: "agent_path_capacity (snd (agent_context_write_begin now p)) = agent_path_capacity p"
  by (rule region_cong; simp add: agent_context_write_begin_def agent_context_write_header_def Let_def case_prod_beta)


text \<open>C21 (context_rollback_prefix). A rollback keeps a prefix: on a well-formed Context, rolling back to at most as
  many nodes as there are succeeds, keeps exactly that many of the oldest records, clears the digest ring and
  leaves the generation even; asking for more fails and changes nothing.\<close>

theorem context_rollback_prefix:
  assumes "context_inv p"
  shows "case agent_context_rollback now keep p of (r, q) \<Rightarrow> context_inv q \<and>
    (if keep \<le> context_node_count p
     then r = 0 \<and> context_records q = take (unat keep) (context_records p) \<and> context_digest_count q = 0 \<and>
       context_generation q AND 1 = 0
     else r = -1 \<and> q = p)"
proof (cases "keep = 0 \<or> context_node_count p < keep")
  case True
  then show ?thesis using clear_spec [OF assms, of now] assms by (auto simp: agent_context_rollback_def)
next
  case False
  then show ?thesis using rollback_spec [OF assms, of keep now] by (auto simp: not_less)
qed

theorem context_rollback_prefix_witness:
  "fst (agent_context_rollback 9 0 ctx_proc) = 0 \<and> fst (agent_context_rollback 9 1 ctx_proc) = -1"
proof -
  have "context_node_count ctx_proc = 0" by (simp add: ctx_proc_def zero_proc_def)
  then show ?thesis
    using context_rollback_prefix [OF ctx_proc_inv(1), where now = 9 and keep = 0] context_rollback_prefix [OF ctx_proc_inv(1), where now = 9 and keep = 1]
    by (auto split: prod.splits)
qed

text \<open>C14 (stale_dependency_detected). A Context node remembers the file version it was made from: when a file's
  version was read as \<open>v\<close> and a node depending on it was pushed, then after any history of fewer than
  \<open>2^64 - 1\<close> operations on the version table, validating the latest node reports VALID exactly when the file
  was neither written nor deleted since, and STALE or DELETED otherwise.\<close>

lemma validate_latest:
  assumes inv: "context_inv q" and last: "live_deps q = ds @ [d]" and fresh: "\<forall>e \<in> set ds. dep_sequence e \<noteq> dep_sequence d"
    and used: "dep_used d"
  shows "va_recorded_version (fst (validate_result q 0 es)) = dep_version d \<and>
    va_state (fst (validate_result q 0 es)) =
      (let cur = fst (agentfs_inode_version_get (dep_dev d) (dep_inum d) es)
       in if cur = 0 then AGENT_CONTEXT_DELETED else if cur \<noteq> dep_version d then AGENT_CONTEXT_STALE else AGENT_CONTEXT_VALID)"
proof -
  have nd: "nodes_ok q" using inv by (simp add: context_inv_def)
  let ?n = "unat (context_node_count q)"
  have n16: "?n \<le> 16" using nd word_le16 by (simp add: nodes_ok_def)
  have n: "?n = Suc (length ds)"
  proof -
    have "length (context_deps q) = 16" using nd by (simp add: nodes_ok_def)
    then have "length (live_deps q) = ?n" using n16 by (simp add: live_deps_def)
    then show ?thesis using last by simp
  qed
  then have pos: "context_node_count q > 0" by (simp add: word_less_nat_alt)
  have at: "context_deps q ! length ds = d"
    using arg_cong [OF last, of "\<lambda>xs. xs ! length ds"] n by (simp add: live_deps_def)
  have slot: "first_slot (\<lambda>e. dep_sequence e = dep_sequence d) (take ?n (context_deps q)) = Some (length ds)"
    unfolding live_deps_def [symmetric] last
    using fresh by (intro first_slotI) (auto simp: nth_append)
  show ?thesis
    using pos used slot
    by (simp add: validate_result_def Let_def n at zero_validation_def case_prod_beta)
qed



end
