(* ===== verification/Messaging.thy ===== *)
theory Messaging
  imports KernelState
begin

text \<open>
  The bounded FIFO mailbox of an agent (\<open>struct agent_mailbox\<close>), the event signal and
  \<open>agent_send_message\<close>. The mailbox is a ring of eight slots; two of them are kept for system
  messages. A locale states the contract of a bounded FIFO (an accepted item goes to the end, a
  rejected one changes nothing, the head comes out first) and derives from it that any run of
  posts and receives delivers exactly the accepted items in their order; the mailbox
  interprets it.
\<close>

subsection \<open>A bounded FIFO\<close>

datatype 'm fifo_op = Post 'm | Receive

text \<open>A run of posts and receives: the final queue, the items accepted and the items received,
  both in order. A receive on an empty queue does nothing.\<close>

fun fifo_run :: "('q \<Rightarrow> 'a list) \<Rightarrow> ('q \<Rightarrow> 'm \<Rightarrow> bool) \<Rightarrow> ('m \<Rightarrow> 'q \<Rightarrow> 'a) \<Rightarrow> ('m \<Rightarrow> 'q \<Rightarrow> 'q) \<Rightarrow>
    ('q \<Rightarrow> 'a \<times> 'q) \<Rightarrow> 'm fifo_op list \<Rightarrow> 'q \<Rightarrow> 'q \<times> 'a list \<times> 'a list" where
  "fifo_run contents admits stamp post recv [] q = (q, [], [])"
| "fifo_run contents admits stamp post recv (Post m # ops) q =
     (let (q', acc, rcv) = fifo_run contents admits stamp post recv ops (post m q)
      in (q', (if admits q m then [stamp m q] else []) @ acc, rcv))"
| "fifo_run contents admits stamp post recv (Receive # ops) q =
     (if contents q = [] then fifo_run contents admits stamp post recv ops q
      else let (x, q1) = recv q; (q', acc, rcv) = fifo_run contents admits stamp post recv ops q1
           in (q', acc, x # rcv))"

locale bounded_fifo =
  fixes inv :: "'q \<Rightarrow> bool"
    and contents :: "'q \<Rightarrow> 'a list"
    and admits :: "'q \<Rightarrow> 'm \<Rightarrow> bool"
    and stamp :: "'m \<Rightarrow> 'q \<Rightarrow> 'a"
    and post :: "'m \<Rightarrow> 'q \<Rightarrow> 'q"
    and recv :: "'q \<Rightarrow> 'a \<times> 'q"
    and cap :: nat
  assumes post_accept: "inv q \<Longrightarrow> admits q m \<Longrightarrow> contents (post m q) = contents q @ [stamp m q]"
    and post_reject: "inv q \<Longrightarrow> \<not> admits q m \<Longrightarrow> contents (post m q) = contents q"
    and inv_post: "inv q \<Longrightarrow> inv (post m q)"
    and recv_hd: "inv q \<Longrightarrow> contents q \<noteq> [] \<Longrightarrow> fst (recv q) = hd (contents q)"
    and recv_tl: "inv q \<Longrightarrow> contents q \<noteq> [] \<Longrightarrow> contents (snd (recv q)) = tl (contents q)"
    and inv_recv: "inv q \<Longrightarrow> contents q \<noteq> [] \<Longrightarrow> inv (snd (recv q))"
    and bounded: "inv q \<Longrightarrow> length (contents q) \<le> cap"
begin

lemma run_inv:
  "inv q \<Longrightarrow> inv (fst (fifo_run contents admits stamp post recv ops q))"
proof (induction ops arbitrary: q)
  case Nil
  then show ?case by simp
next
  case (Cons opr ops)
  show ?case
  proof (cases opr)
    case (Post m)
    with Cons.IH [OF inv_post [OF Cons.prems], of m] show ?thesis
      by (auto simp: case_prod_beta Let_def)
  next
    case Receive
    show ?thesis
    proof (cases "contents q = []")
      case True
      with Receive Cons show ?thesis by simp
    next
      case False
      with Cons.IH [OF inv_recv [OF Cons.prems False]] Receive show ?thesis
        by (auto simp: case_prod_beta Let_def)
    qed
  qed
qed

text \<open>Nothing accepted is lost, duplicated or reordered.\<close>

lemma run_fifo:
  "inv q \<Longrightarrow> fifo_run contents admits stamp post recv ops q = (q', acc, rcv) \<Longrightarrow>
   contents q @ acc = rcv @ contents q'"
proof (induction ops arbitrary: q q' acc rcv)
  case Nil
  then show ?case by simp
next
  case (Cons opr ops)
  show ?case
  proof (cases opr)
    case (Post m)
    obtain q2 acc2 rcv2 where run: "fifo_run contents admits stamp post recv ops (post m q) = (q2, acc2, rcv2)"
      by (cases "fifo_run contents admits stamp post recv ops (post m q)") auto
    have "contents (post m q) @ acc2 = rcv2 @ contents q2"
      using Cons.IH [OF inv_post [OF Cons.prems(1)] run] .
    with Cons.prems Post run show ?thesis
      by (auto simp: post_accept post_reject split: if_splits)
  next
    case Receive
    show ?thesis
    proof (cases "contents q = []")
      case True
      with Cons.prems(2) Receive have "fifo_run contents admits stamp post recv ops q = (q', acc, rcv)"
        by simp
      from Cons.IH [OF Cons.prems(1) this] show ?thesis .
    next
      case False
      obtain x q1 where r: "recv q = (x, q1)" by force
      obtain q2 acc2 rcv2 where run: "fifo_run contents admits stamp post recv ops q1 = (q2, acc2, rcv2)"
        by (cases "fifo_run contents admits stamp post recv ops q1") auto
      have i1: "inv q1" and x: "x = hd (contents q)" and q1: "contents q1 = tl (contents q)"
        using inv_recv [OF Cons.prems(1) False] recv_hd [OF Cons.prems(1) False]
          recv_tl [OF Cons.prems(1) False] r by auto
      have "contents q1 @ acc2 = rcv2 @ contents q2" by (rule Cons.IH [OF i1 run])
      with Cons.prems Receive False r run x q1 show ?thesis
        by (cases "contents q") auto
    qed
  qed
qed

end

subsection \<open>The mailbox operations\<close>

text \<open>What the sender hands over: its pid (0 when there is no sender), the message type, the
  payload and the request id.\<close>

record mail =
  ml_from :: int
  ml_type :: int
  ml_payload :: string
  ml_request_id :: u64

definition mailbox_full :: "int \<Rightarrow> agent_mailbox \<Rightarrow> bool" where
  "mailbox_full ty mb \<longleftrightarrow>
     (ty = AGENT_MESSAGE_TYPE_NORMAL \<and>
        mb_normal_count mb \<ge> AGENT_MAILBOX_CAP - AGENT_MAILBOX_SYSTEM_SLOTS)
     \<or> mb_count mb \<ge> AGENT_MAILBOX_CAP"

definition mailbox_reject :: "int \<Rightarrow> agent_mailbox \<Rightarrow> agent_mailbox" where
  "mailbox_reject ty mb =
     (let mb1 = mb\<lparr>mb_dropped := mb_dropped mb + 1\<rparr>
      in if ty = AGENT_MESSAGE_TYPE_SYSTEM
         then mb1\<lparr>mb_system_dropped := mb_system_dropped mb1 + 1\<rparr> else mb1)"

definition mailbox_stamp :: "mail \<Rightarrow> agent_mailbox \<Rightarrow> agent_message" where
  "mailbox_stamp m mb =
     \<lparr>ms_from_pid = ml_from m, ms_type = ml_type m,
      ms_length = int (min (strlen (ml_payload m)) (AGENT_MESSAGE_MAX - 1)),
      ms_sequence = mb_next_sequence mb, ms_request_id = ml_request_id m,
      ms_payload = safestr AGENT_MESSAGE_MAX (ml_payload m)\<rparr>"

definition mailbox_enqueue :: "mail \<Rightarrow> agent_mailbox \<Rightarrow> agent_mailbox" where
  "mailbox_enqueue m mb =
     (let mb1 = mb\<lparr>mb_queue := (mb_queue mb)[nat (mb_tail mb) := mailbox_stamp m mb],
                    mb_next_sequence := mb_next_sequence mb + 1,
                    mb_tail := (mb_tail mb + 1) mod AGENT_MAILBOX_CAP,
                    mb_count := mb_count mb + 1\<rparr>
      in if ml_type m = AGENT_MESSAGE_TYPE_SYSTEM
         then mb1\<lparr>mb_system_count := mb_system_count mb1 + 1\<rparr>
         else mb1\<lparr>mb_normal_count := mb_normal_count mb1 + 1\<rparr>)"

definition mailbox_post :: "mail \<Rightarrow> agent_mailbox \<Rightarrow> agent_mailbox" where
  "mailbox_post m mb =
     (if mailbox_full (ml_type m) mb then mailbox_reject (ml_type m) mb else mailbox_enqueue m mb)"

text \<open>The receiving half, in the loop of \<open>agent_proc_wait\<close>.\<close>

definition mailbox_dequeue :: "agent_mailbox \<Rightarrow> agent_message \<times> agent_mailbox" where
  "mailbox_dequeue mb =
     (let msg = mb_queue mb ! nat (mb_head mb);
          mb1 = (if ms_type msg = AGENT_MESSAGE_TYPE_SYSTEM
                 then mb\<lparr>mb_system_count := mb_system_count mb - 1\<rparr>
                 else mb\<lparr>mb_normal_count := mb_normal_count mb - 1\<rparr>)
      in (msg, mb1\<lparr>mb_queue := (mb_queue mb1)[nat (mb_head mb1) := zero_message],
                    mb_head := (mb_head mb1 + 1) mod AGENT_MAILBOX_CAP,
                    mb_count := mb_count mb1 - 1\<rparr>))"

subsection \<open>The mailbox as a list of messages\<close>

definition mailbox_list :: "agent_mailbox \<Rightarrow> agent_message list" where
  "mailbox_list mb =
     map (\<lambda>k. mb_queue mb ! ((nat (mb_head mb) + k) mod 8)) [0..<nat (mb_count mb)]"

definition count_type :: "int \<Rightarrow> agent_message list \<Rightarrow> int" where
  "count_type ty ms = int (length (filter (\<lambda>m. ms_type m = ty) ms))"

definition mailbox_inv :: "agent_mailbox \<Rightarrow> bool" where
  "mailbox_inv mb \<longleftrightarrow>
     length (mb_queue mb) = 8 \<and> 0 \<le> mb_head mb \<and> mb_head mb < 8 \<and>
     0 \<le> mb_count mb \<and> mb_count mb \<le> 8 \<and>
     mb_tail mb = (mb_head mb + mb_count mb) mod 8 \<and>
     (\<forall>m \<in> set (mailbox_list mb). ms_type m = 0 \<or> ms_type m = 1) \<and>
     mb_normal_count mb = count_type 0 (mailbox_list mb) \<and>
     mb_system_count mb = count_type 1 (mailbox_list mb) \<and>
     mb_normal_count mb \<le> 6 \<and>
     (\<forall>k < nat (mb_count mb). ms_sequence (mailbox_list mb ! k) =
        mb_next_sequence mb - of_int (mb_count mb) + of_nat k)"

lemma mailbox_invD:
  assumes "mailbox_inv mb"
  shows "length (mb_queue mb) = 8" "0 \<le> mb_head mb" "mb_head mb < 8" "0 \<le> mb_count mb"
    "mb_count mb \<le> 8" "mb_tail mb = (mb_head mb + mb_count mb) mod 8"
  using assms by (simp_all add: mailbox_inv_def)

lemma length_mailbox_list [simp]: "length (mailbox_list mb) = nat (mb_count mb)"
  by (simp add: mailbox_list_def)

lemma mailbox_inv_empty: "mailbox_inv empty_mailbox"
  by (simp add: mailbox_inv_def empty_mailbox_def mailbox_list_def count_type_def)

lemma mailbox_list_empty [simp]: "mailbox_list empty_mailbox = []"
  by (simp add: empty_mailbox_def mailbox_list_def)

text \<open>Ring arithmetic: the tail is the slot after the last message, and a new head drops the
  first one.\<close>

lemma ring_tail:
  "0 \<le> h \<Longrightarrow> 0 \<le> c \<Longrightarrow> nat ((h + c) mod 8) = (nat h + nat c) mod (8 :: nat)"
  by (simp add: nat_mod_distrib nat_add_distrib)

lemma ring_distinct:
  assumes "k < n" "n < 8"
  shows "(h + k) mod 8 \<noteq> (h + n) mod (8 :: nat)"
proof
  assume "(h + k) mod 8 = (h + n) mod 8"
  then have "k mod 8 = n mod 8" by (simp add: mod_eq_iff_dvd_symdiff_nat)
  with assms show False by simp
qed

lemma ring_next: "h < 8 \<Longrightarrow> Suc k < 8 \<Longrightarrow> h \<noteq> (h + Suc k) mod (8 :: nat)"
  using ring_distinct [of 0 "Suc k" h] by simp

lemma mailbox_list_enqueue:
  assumes inv: "mailbox_inv mb" and room: "mb_count mb < 8"
  shows "mailbox_list (mailbox_enqueue m mb) = mailbox_list mb @ [mailbox_stamp m mb]"
proof -
  note d = mailbox_invD [OF inv]
  let ?h = "nat (mb_head mb)" and ?n = "nat (mb_count mb)"
  have n8: "?n < 8" using room d by arith
  have tl: "nat (mb_tail mb) = (?h + ?n) mod 8" using d by (simp add: ring_tail)
  have cnt: "nat (mb_count mb + 1) = Suc ?n" using d by arith
  have old: "(mb_queue mb)[(?h + ?n) mod 8 := x] ! ((?h + k) mod 8) = mb_queue mb ! ((?h + k) mod 8)"
    if "k < ?n" for k x
    using ring_distinct [of k ?n ?h] that n8 by (intro nth_list_update_neq) auto
  have new: "(mb_queue mb)[(?h + ?n) mod 8 := x] ! ((?h + ?n) mod 8) = x" for x
    using d by (intro nth_list_update_eq) auto
  show ?thesis
    using old new by (simp add: mailbox_list_def mailbox_enqueue_def Let_def tl cnt)
qed

lemma mailbox_list_dequeue:
  assumes inv: "mailbox_inv mb" and some: "0 < mb_count mb"
  shows "mailbox_list mb = fst (mailbox_dequeue mb) # mailbox_list (snd (mailbox_dequeue mb))"
proof -
  note d = mailbox_invD [OF inv]
  let ?h = "nat (mb_head mb)" and ?n = "nat (mb_count mb)"
  have h8: "?h < 8" using d by arith
  have hd': "nat ((mb_head mb + 1) mod 8) = (?h + 1) mod 8" using d by (simp add: ring_tail [of _ 1])
  obtain j where j: "?n = Suc j" using some by (metis gr0_implies_Suc zero_less_nat_eq)
  have cnt: "nat (mb_count mb - 1) = j" using j by arith
  have shift: "((?h + 1) mod 8 + k) mod 8 = (?h + Suc k) mod 8" for k
    by (simp add: mod_simps)
  have old: "(mb_queue mb)[?h := x] ! ((?h + Suc k) mod 8) = mb_queue mb ! ((?h + Suc k) mod 8)"
    if "k < j" for k x
  proof (rule nth_list_update_neq)
    have "Suc k < 8" using that j d by arith
    with h8 show "?h \<noteq> (?h + Suc k) mod 8" by (rule ring_next)
  qed
  have upt: "[0..<?n] = 0 # map Suc [0..<j]" using j by (simp add: upt_conv_Cons map_Suc_upt)
  show ?thesis
    unfolding mailbox_list_def upt using old shift h8
    by (simp add: mailbox_dequeue_def Let_def hd' cnt)
qed

lemma count_type_simps [simp]:
  "count_type ty [] = 0"
  "count_type ty (m # ms) = (if ms_type m = ty then 1 else 0) + count_type ty ms"
  "count_type ty (ms @ ms') = count_type ty ms + count_type ty ms'"
  by (simp_all add: count_type_def)

lemma count_type_nonneg: "0 \<le> count_type ty ms"
  by (simp add: count_type_def)

lemma count_type_total:
  "\<forall>m \<in> set ms. ms_type m = 0 \<or> ms_type m = 1 \<Longrightarrow>
   count_type 0 ms + count_type 1 ms = int (length ms)"
  by (induction ms) auto

lemma mailbox_counts:
  "mailbox_inv mb \<Longrightarrow> mb_normal_count mb + mb_system_count mb = mb_count mb"
  using count_type_total [of "mailbox_list mb"] by (auto simp: mailbox_inv_def)

lemma mailbox_inv_enqueue:
  assumes inv: "mailbox_inv mb" and notfull: "\<not> mailbox_full (ml_type m) mb"
    and ty: "ml_type m = 0 \<or> ml_type m = 1"
  shows "mailbox_inv (mailbox_enqueue m mb)"
proof -
  note d = mailbox_invD [OF inv]
  have room: "mb_count mb < 8" and nrm: "ml_type m = 0 \<longrightarrow> mb_normal_count mb < 6"
    using notfull by (auto simp: mailbox_full_def)
  note L = mailbox_list_enqueue [OF inv room, of m]
  have seq: "ms_sequence (mailbox_list mb ! k) = mb_next_sequence mb - of_int (mb_count mb) + of_nat k"
    if "k < nat (mb_count mb)" for k
    using inv that by (simp add: mailbox_inv_def)
  have cnt: "nat (mb_count mb + 1) = Suc (nat (mb_count mb))" using d by arith
  have tl: "(mb_tail mb + 1) mod 8 = (mb_head mb + (mb_count mb + 1)) mod 8"
    unfolding d(6) by (simp add: mod_simps add.assoc)
  show ?thesis
    unfolding mailbox_inv_def L
    using d nrm ty room tl seq inv
    by (auto simp: mailbox_enqueue_def Let_def mailbox_stamp_def mailbox_inv_def nth_append cnt less_Suc_eq)
qed

lemma mailbox_inv_reject: "mailbox_inv mb \<Longrightarrow> mailbox_inv (mailbox_reject ty mb)"
  by (simp add: mailbox_inv_def mailbox_reject_def mailbox_list_def Let_def)

lemma mailbox_list_reject [simp]: "mailbox_list (mailbox_reject ty mb) = mailbox_list mb"
  by (simp add: mailbox_reject_def mailbox_list_def Let_def)

lemma mailbox_reject_dropped [simp]: "mb_dropped (mailbox_reject ty mb) = mb_dropped mb + 1"
  by (simp add: mailbox_reject_def Let_def)

lemma mailbox_inv_dequeue:
  assumes inv: "mailbox_inv mb" and some: "0 < mb_count mb"
  shows "mailbox_inv (snd (mailbox_dequeue mb))"
proof -
  note d = mailbox_invD [OF inv]
  note L = mailbox_list_dequeue [OF inv some]
  let ?q = "snd (mailbox_dequeue mb)" and ?m = "fst (mailbox_dequeue mb)"
  have msg: "?m = mb_queue mb ! nat (mb_head mb)" by (simp add: mailbox_dequeue_def Let_def)
  have types: "ms_type ?m = 0 \<or> ms_type ?m = 1" "\<forall>m \<in> set (mailbox_list ?q). ms_type m = 0 \<or> ms_type m = 1"
    using inv unfolding mailbox_inv_def L by auto
  have cnts: "mb_normal_count mb = count_type 0 (?m # mailbox_list ?q)"
    "mb_system_count mb = count_type 1 (?m # mailbox_list ?q)" "mb_normal_count mb \<le> 6"
    using inv L unfolding mailbox_inv_def by metis+
  have seq: "ms_sequence (mailbox_list ?q ! k) =
      mb_next_sequence mb - of_int (mb_count mb) + of_nat (Suc k)" if "Suc k < nat (mb_count mb)" for k
  proof -
    have "ms_sequence (mailbox_list mb ! Suc k) = mb_next_sequence mb - of_int (mb_count mb) + of_nat (Suc k)"
      using inv that unfolding mailbox_inv_def by blast
    then show ?thesis unfolding L by simp
  qed
  have fields: "mb_queue ?q = (mb_queue mb)[nat (mb_head mb) := zero_message]"
    "mb_head ?q = (mb_head mb + 1) mod 8" "mb_tail ?q = mb_tail mb" "mb_count ?q = mb_count mb - 1"
    "mb_next_sequence ?q = mb_next_sequence mb"
    "mb_normal_count ?q = mb_normal_count mb - (if ms_type ?m = 1 then 0 else 1)"
    "mb_system_count ?q = mb_system_count mb - (if ms_type ?m = 1 then 1 else 0)"
    by (simp_all add: mailbox_dequeue_def Let_def)
  have tl: "mb_tail mb = ((mb_head mb + 1) mod 8 + (mb_count mb - 1)) mod 8"
    unfolding d(6) by (simp add: mod_simps)
  show ?thesis
    unfolding mailbox_inv_def fields
    using d types cnts seq tl some by (auto simp: nat_diff_distrib)
qed

text \<open>Only the two message types are ever posted (\<open>agent_send_message\<close> checks it), so the
  items of the interpretation are mails of a valid type.\<close>

definition valid_post :: "mail \<Rightarrow> agent_mailbox \<Rightarrow> agent_mailbox" where
  "valid_post m mb = (if ml_type m = 0 \<or> ml_type m = 1 then mailbox_post m mb else mb)"

definition valid_admits :: "agent_mailbox \<Rightarrow> mail \<Rightarrow> bool" where
  "valid_admits mb m \<longleftrightarrow> (ml_type m = 0 \<or> ml_type m = 1) \<and> \<not> mailbox_full (ml_type m) mb"

lemma not_full_room: "\<not> mailbox_full ty mb \<Longrightarrow> mb_count mb < 8"
  by (simp add: mailbox_full_def)

lemma mailbox_list_nonempty: "mailbox_inv mb \<Longrightarrow> mailbox_list mb \<noteq> [] \<longleftrightarrow> 0 < mb_count mb"
  by (auto simp: mailbox_list_def)

interpretation mbox: bounded_fifo mailbox_inv mailbox_list valid_admits mailbox_stamp valid_post
  mailbox_dequeue 8
proof unfold_locales
  fix q :: agent_mailbox and m :: mail
  assume inv: "mailbox_inv q"
  show "valid_admits q m \<Longrightarrow> mailbox_list (valid_post m q) = mailbox_list q @ [mailbox_stamp m q]"
    by (auto simp: valid_admits_def valid_post_def mailbox_post_def intro!: mailbox_list_enqueue inv
        dest: not_full_room)
  show "\<not> valid_admits q m \<Longrightarrow> mailbox_list (valid_post m q) = mailbox_list q"
    by (auto simp: valid_admits_def valid_post_def mailbox_post_def)
  show "mailbox_inv (valid_post m q)"
    using inv by (auto simp: valid_post_def mailbox_post_def mailbox_inv_reject mailbox_inv_enqueue)
  show "length (mailbox_list q) \<le> 8"
    using mailbox_invD [OF inv] by simp
next
  fix q :: agent_mailbox
  assume inv: "mailbox_inv q" and ne: "mailbox_list q \<noteq> []"
  from inv ne have pos: "0 < mb_count q" using mailbox_list_nonempty by blast
  show "fst (mailbox_dequeue q) = hd (mailbox_list q)"
    by (simp add: mailbox_list_dequeue [OF inv pos])
  show "mailbox_list (snd (mailbox_dequeue q)) = tl (mailbox_list q)"
    by (simp add: mailbox_list_dequeue [OF inv pos])
  show "mailbox_inv (snd (mailbox_dequeue q))"
    by (rule mailbox_inv_dequeue [OF inv pos])
qed

subsection \<open>Signalling an event and sending a message\<close>

definition agent_signal_event_locked :: "nat \<Rightarrow> u32 \<Rightarrow> u64 \<Rightarrow> proc \<Rightarrow> proc" where
  "agent_signal_event_locked i event now p =
     (let p1 = p\<lparr>pending_events := pending_events p OR event\<rparr>;
          p2 = p1\<lparr>last_wakeup_reason := pending_events p1, wakeup_tick := now\<rparr>;
          p3 = (if agent_sched_boost p2 < 2 then p2\<lparr>agent_sched_boost := 2\<rparr> else p2)
      in if p_state p3 = SLEEPING \<and> p_chan p3 = ChanProc i then p3\<lparr>p_state := RUNNABLE\<rparr> else p3)"

definition is_agent :: "proc \<Rightarrow> bool" where
  "is_agent p \<longleftrightarrow> p_state p \<noteq> UNUSED \<and> agent_type p \<noteq> AGENT_TYPE_NORMAL"

definition agent_send_message ::
    "nat option \<Rightarrow> int \<Rightarrow> int \<Rightarrow> string option \<Rightarrow> u64 \<Rightarrow> kst \<Rightarrow> int \<times> kst" where
  "agent_send_message src target_pid msg_type payload request_id s =
     (case payload of
        None \<Rightarrow> (AGENT_TOOL_ERR_BAD_PARAM, s)
      | Some text \<Rightarrow>
          if msg_type \<noteq> AGENT_MESSAGE_TYPE_NORMAL \<and> msg_type \<noteq> AGENT_MESSAGE_TYPE_SYSTEM
          then (AGENT_TOOL_ERR_BAD_PARAM, s)
          else
            case first_slot (\<lambda>p. p_pid p = target_pid \<and> p_state p \<noteq> UNUSED \<and>
                agent_type p \<noteq> AGENT_TYPE_NORMAL) (ks_procs s) of
              None \<Rightarrow> (AGENT_TOOL_ERR_SERVICE_GONE, s)
            | Some t \<Rightarrow>
                let now = agent_now_safe s;
                    m = \<lparr>ml_from = (case src of None \<Rightarrow> 0 | Some i \<Rightarrow> p_pid (pr s i)),
                         ml_type = msg_type, ml_payload = text, ml_request_id = request_id\<rparr>
                in if mailbox_full msg_type (mailbox (pr s t))
                   then (AGENT_TOOL_ERR_BUSY,
                         upd_proc t (\<lambda>p. p\<lparr>mailbox := mailbox_reject msg_type (mailbox p)\<rparr>) s)
                   else (AGENT_TOOL_OK,
                         upd_proc t (\<lambda>p. agent_signal_event_locked t AGENT_EVENT_MESSAGE now
                           (p\<lparr>mailbox := mailbox_enqueue m (mailbox p)\<rparr>)) s))"

lemma signal_event_frame [simp]:
  "mailbox (agent_signal_event_locked i e now p) = mailbox p"
  "p_pid (agent_signal_event_locked i e now p) = p_pid p"
  "p_chan (agent_signal_event_locked i e now p) = p_chan p"
  "p_killed (agent_signal_event_locked i e now p) = p_killed p"
  "agent_type (agent_signal_event_locked i e now p) = agent_type p"
  "loop_state (agent_signal_event_locked i e now p) = loop_state p"
  "wait_deadline (agent_signal_event_locked i e now p) = wait_deadline p"
  "watch_mask (agent_signal_event_locked i e now p) = watch_mask p"
  "heartbeat_interval (agent_signal_event_locked i e now p) = heartbeat_interval p"
  "heartbeat_deadline (agent_signal_event_locked i e now p) = heartbeat_deadline p"
  "heartbeat_wheel_next (agent_signal_event_locked i e now p) = heartbeat_wheel_next p"
  "heartbeat_wheel_bucket (agent_signal_event_locked i e now p) = heartbeat_wheel_bucket p"
  "heartbeat_wheel_active (agent_signal_event_locked i e now p) = heartbeat_wheel_active p"
  "agent_capabilities (agent_signal_event_locked i e now p) = agent_capabilities p"
  "agent_group (agent_signal_event_locked i e now p) = agent_group p"
  "pending_events (agent_signal_event_locked i e now p) = pending_events p OR e"
  "wakeup_tick (agent_signal_event_locked i e now p) = now"
  by (simp_all add: agent_signal_event_locked_def Let_def)

lemma signal_event_state:
  "p_state (agent_signal_event_locked i e now p) =
     (if p_state p = SLEEPING \<and> p_chan p = ChanProc i then RUNNABLE else p_state p)"
  by (simp add: agent_signal_event_locked_def Let_def)

lemma signal_event_boost: "2 \<le> agent_sched_boost (agent_signal_event_locked i e now p)"
  by (simp add: agent_signal_event_locked_def Let_def)

lemma signal_event_UNUSED [simp]:
  "p_state (agent_signal_event_locked i e now p) = UNUSED \<longleftrightarrow> p_state p = UNUSED"
  by (auto simp: signal_event_state)

definition mailboxes_inv :: "kst \<Rightarrow> bool" where
  "mailboxes_inv s \<longleftrightarrow> (\<forall>p \<in> set (ks_procs s). mailbox_inv (mailbox p))"

lemma mailboxes_invD: "mailboxes_inv s \<Longrightarrow> i < length (ks_procs s) \<Longrightarrow> mailbox_inv (mailbox (pr s i))"
  by (simp add: mailboxes_inv_def)

lemma mailboxes_inv_upd:
  assumes "mailboxes_inv s" "i < length (ks_procs s) \<Longrightarrow> mailbox_inv (mailbox (f (pr s i)))"
  shows "mailboxes_inv (upd_proc i f s)"
proof (cases "i < length (ks_procs s)")
  case True
  with assms show ?thesis
    by (auto simp: mailboxes_inv_def upd_proc_def dest!: set_update_subset_insert [THEN subsetD])
next
  case False
  then have "upd_proc i f s = s" by (simp add: upd_proc_def list_update_beyond)
  with assms(1) show ?thesis by simp
qed

lemma send_message_mailboxes_inv:
  assumes inv: "mailboxes_inv s"
  shows "mailboxes_inv (snd (agent_send_message src pid ty pay rid s))"
proof -
  have *: "mailbox_inv (mailbox_enqueue m (mailbox (pr s i)))"
    if "i < length (ks_procs s)" "\<not> mailbox_full (ml_type m) (mailbox (pr s i))"
      "ml_type m = 0 \<or> ml_type m = 1" for i m
    using that mailboxes_invD [OF inv] mailbox_inv_enqueue by blast
  show ?thesis
    using inv mailboxes_invD [OF inv] *
    by (auto simp: agent_send_message_def Let_def mailbox_inv_reject intro!: mailboxes_inv_upd
        split: option.splits)
qed

subsection \<open>Properties\<close>

definition mailbox_run :: "mail fifo_op list \<Rightarrow> agent_mailbox \<Rightarrow>
    agent_mailbox \<times> agent_message list \<times> agent_message list" where
  "mailbox_run = fifo_run mailbox_list valid_admits mailbox_stamp valid_post mailbox_dequeue"

lemma mailbox_run_inv: "mailbox_inv (fst (mailbox_run ops empty_mailbox))"
  unfolding mailbox_run_def by (rule mbox.run_inv) (rule mailbox_inv_empty)

text \<open>C1 (mailbox_fifo_order). Starting from an empty mailbox, after any sequence of posts and
  receives the accepted messages are exactly the received ones followed by those still queued,
  in order: nothing accepted is lost, duplicated or reordered. The queue never holds more than
  eight messages and the ring invariant holds.\<close>

theorem mailbox_fifo_order:
  "case mailbox_run ops empty_mailbox of (mb, accepted, received) \<Rightarrow>
     accepted = received @ mailbox_list mb \<and> length (mailbox_list mb) \<le> 8 \<and> mailbox_inv mb"
proof -
  obtain mb acc rcv where run: "mailbox_run ops empty_mailbox = (mb, acc, rcv)"
    by (cases "mailbox_run ops empty_mailbox") auto
  have "mailbox_inv mb" using mailbox_run_inv [of ops] run by simp
  moreover have "acc = rcv @ mailbox_list mb"
    using mbox.run_fifo [OF mailbox_inv_empty run [unfolded mailbox_run_def]] by simp
  ultimately show ?thesis using mbox.bounded [of mb] run by simp
qed

text \<open>C2 (system_slots_reserved). In every mailbox reached by posts and receives, a system
  message is refused only when the ring holds eight messages of which at least two are system
  messages (so two slots are always kept for them), and an ordinary message is refused exactly
  when six ordinary messages are queued or the ring is full.\<close>

theorem system_slots_reserved:
  "case mailbox_run ops empty_mailbox of (mb, _, _) \<Rightarrow>
     (mailbox_full AGENT_MESSAGE_TYPE_SYSTEM mb \<longleftrightarrow> mb_count mb = 8 \<and> 2 \<le> mb_system_count mb) \<and>
     (mailbox_full AGENT_MESSAGE_TYPE_NORMAL mb \<longleftrightarrow> mb_normal_count mb = 6 \<or> mb_count mb = 8)"
proof -
  obtain mb acc rcv where run: "mailbox_run ops empty_mailbox = (mb, acc, rcv)"
    by (cases "mailbox_run ops empty_mailbox") auto
  have inv: "mailbox_inv mb" using mailbox_run_inv [of ops] run by simp
  have "mb_normal_count mb \<le> 6" "mb_count mb \<le> 8" using inv by (auto simp: mailbox_inv_def)
  then show ?thesis using mailbox_counts [OF inv] run by (auto simp: mailbox_full_def)
qed


definition wit_agent :: "int \<Rightarrow> proc" where
  "wit_agent pid = zero_proc\<lparr>p_state := SLEEPING, p_pid := pid, agent_type := 2\<rparr>"

lemma wit_mailboxes: "mailboxes_inv (boot_kst [wit_agent 1, wit_agent 2])"
  by (simp add: mailboxes_inv_def wit_agent_def zero_proc_def mailbox_inv_empty)


end
