(* ===== verification/Heartbeat.thy ===== *)
theory Heartbeat
  imports Messaging
begin

text \<open>
  The heartbeat timing wheel (kernel/agent\_loop.c): 64 buckets, each the head of a singly
  linked chain of process slots threaded through \<open>heartbeat_wheel_next\<close> (slot number plus one,
  zero at the end). The chain walks are loops that would not end on a cyclic chain, so they
  return an option; the invariant says that every bucket is a finite chain of exactly the active
  processes of that bucket, under which every walk ends within the 64 steps allowed. Removing and
  inserting are shown to be list removal and insertion on the chains, and one tick to signal
  exactly the due processes of its bucket.
\<close>

subsection \<open>The operations\<close>

definition agent_proc_wheel_index :: "nat \<Rightarrow> int" where
  "agent_proc_wheel_index i = int i + 1"

definition agent_wheel_proc :: "int \<Rightarrow> nat option" where
  "agent_wheel_proc index = (if index \<le> 0 \<or> index > int NPROC then None else Some (nat (index - 1)))"

definition wheel_next :: "kst \<Rightarrow> int \<Rightarrow> int" where
  "wheel_next s cur = (case agent_wheel_proc cur of Some c \<Rightarrow> heartbeat_wheel_next (pr s c) | None \<Rightarrow> 0)"

definition wheel_set_head :: "int \<Rightarrow> int \<Rightarrow> agent_global_state \<Rightarrow> agent_global_state" where
  "wheel_set_head b h g =
     g\<lparr>gl_heartbeat_wheel_heads := (gl_heartbeat_wheel_heads g)[nat b := h]\<rparr>"

definition wheel_count_down :: "agent_global_state \<Rightarrow> agent_global_state" where
  "wheel_count_down g =
     (if gl_heartbeat_count g > 0 then g\<lparr>gl_heartbeat_count := gl_heartbeat_count g - 1\<rparr> else g)"

definition wheel_unlink :: "int \<Rightarrow> int \<Rightarrow> int \<Rightarrow> kst \<Rightarrow> kst" where
  "wheel_unlink b previous next s =
     upd_global wheel_count_down
       (if previous = 0 then upd_global (wheel_set_head b next) s
        else case agent_wheel_proc previous of
          Some q \<Rightarrow> upd_proc q (\<lambda>p. p\<lparr>heartbeat_wheel_next := next\<rparr>) s
        | None \<Rightarrow> s)"

text \<open>The walk along the chain, with fuel: \<open>None\<close> is a walk that has not ended.\<close>

fun wheel_remove_loop :: "nat \<Rightarrow> nat \<Rightarrow> int \<Rightarrow> int \<Rightarrow> int \<Rightarrow> kst \<Rightarrow> kst option" where
  "wheel_remove_loop 0 i b previous current s = (if current = 0 then Some s else None)"
| "wheel_remove_loop (Suc fuel) i b previous current s =
     (if current = 0 then Some s
      else if current = agent_proc_wheel_index i
      then Some (wheel_unlink b previous (wheel_next s current) s)
      else wheel_remove_loop fuel i b current (wheel_next s current) s)"

definition wheel_clear :: "proc \<Rightarrow> proc" where
  "wheel_clear p = p\<lparr>heartbeat_wheel_active := False, heartbeat_wheel_next := 0, heartbeat_wheel_bucket := -1\<rparr>"

definition agent_heartbeat_wheel_remove :: "nat \<Rightarrow> kst \<Rightarrow> kst option" where
  "agent_heartbeat_wheel_remove i s =
     (if \<not> heartbeat_wheel_active (pr s i) then Some s
      else let bucket = heartbeat_wheel_bucket (pr s i)
           in if bucket < 0 \<or> bucket \<ge> AGENT_HEARTBEAT_WHEEL_BUCKETS then Some (upd_proc i wheel_clear s)
              else map_option (upd_proc i wheel_clear)
                     (wheel_remove_loop NPROC i bucket 0
                        (gl_heartbeat_wheel_heads (ks_global s) ! nat bucket) s))"

definition wheel_eligible :: "proc \<Rightarrow> bool" where
  "wheel_eligible p \<longleftrightarrow> \<not> (p_state p = UNUSED \<or> agent_type p = AGENT_TYPE_NORMAL \<or>
     loop_state p = AGENT_LOOP_DONE \<or> heartbeat_interval p \<le> 0 \<or> heartbeat_deadline p = 0)"

definition wheel_bucket_of :: "u64 \<Rightarrow> int" where
  "wheel_bucket_of deadline = uint (deadline AND AGENT_HEARTBEAT_WHEEL_MASK)"

definition wheel_link :: "nat \<Rightarrow> kst \<Rightarrow> kst" where
  "wheel_link i s =
     (let d = heartbeat_deadline (pr s i); bucket = wheel_bucket_of d;
          head = gl_heartbeat_wheel_heads (ks_global s) ! nat bucket;
          s1 = upd_proc i (\<lambda>p. p\<lparr>heartbeat_wheel_bucket := bucket, heartbeat_wheel_next := head,
                                heartbeat_wheel_active := True\<rparr>) s
      in upd_global (\<lambda>g. let g1 = (wheel_set_head bucket (agent_proc_wheel_index i) g)
                                    \<lparr>gl_heartbeat_count := gl_heartbeat_count g + 1\<rparr>
                         in if gl_heartbeat_min_deadline g1 = 0 \<or> d < gl_heartbeat_min_deadline g1
                            then g1\<lparr>gl_heartbeat_min_deadline := d\<rparr> else g1) s1)"

definition agent_heartbeat_wheel_reschedule :: "nat \<Rightarrow> kst \<Rightarrow> kst option" where
  "agent_heartbeat_wheel_reschedule i s =
     (case (if heartbeat_wheel_active (pr s i) then agent_heartbeat_wheel_remove i s else Some s) of
        None \<Rightarrow> None
      | Some s1 \<Rightarrow> Some (if wheel_eligible (pr s1 i) then wheel_link i s1 else s1))"

subsection \<open>One tick of the wheel\<close>

text \<open>The first loop of \<open>agent_tick\<close> detaches the bucket; the second visits what it held.\<close>

fun tick_detach_loop :: "nat \<Rightarrow> int \<Rightarrow> kst \<Rightarrow> kst option" where
  "tick_detach_loop 0 scan s = (if scan = 0 then Some s else None)"
| "tick_detach_loop (Suc fuel) scan s =
     (if scan = 0 then Some s
      else case agent_wheel_proc scan of
        None \<Rightarrow> Some s
      | Some sp \<Rightarrow>
          let next = heartbeat_wheel_next (pr s sp)
          in tick_detach_loop fuel next
               (upd_global wheel_count_down
                  (upd_proc sp (\<lambda>p. p\<lparr>heartbeat_wheel_active := False, heartbeat_wheel_bucket := -1\<rparr>) s)))"

definition heartbeat_due :: "u64 \<Rightarrow> proc \<Rightarrow> bool" where
  "heartbeat_due now p \<longleftrightarrow> wheel_eligible p \<and> now \<ge> heartbeat_deadline p"

definition tick_fire :: "u64 \<Rightarrow> nat \<Rightarrow> kst \<Rightarrow> kst option" where
  "tick_fire now i s =
     (let s1 = upd_global (\<lambda>g. g\<lparr>gl_heartbeat_tick_scanned := gl_heartbeat_tick_scanned g + 1\<rparr>) s;
          s2 = upd_proc i (\<lambda>p. p\<lparr>heartbeat_wheel_next := 0\<rparr>) s1;
          s3 = (if heartbeat_due now (pr s2 i)
                then upd_global (\<lambda>g. g\<lparr>gl_heartbeat_tick_wakeups := gl_heartbeat_tick_wakeups g + 1\<rparr>)
                       (upd_proc i (\<lambda>p. let q = agent_signal_event_locked i AGENT_EVENT_HEARTBEAT now p
                                        in q\<lparr>heartbeat_deadline := now + u64_of_int (heartbeat_interval q)\<rparr>) s2)
                else s2)
      in if wheel_eligible (pr s3 i) then agent_heartbeat_wheel_reschedule i s3 else Some s3)"

fun tick_fire_loop :: "nat \<Rightarrow> u64 \<Rightarrow> int \<Rightarrow> kst \<Rightarrow> kst option" where
  "tick_fire_loop 0 now current s = (if current = 0 then Some s else None)"
| "tick_fire_loop (Suc fuel) now current s =
     (if current = 0 then Some s
      else case agent_wheel_proc current of
        None \<Rightarrow> Some s
      | Some p \<Rightarrow>
          let next = heartbeat_wheel_next (pr s p)
          in case tick_fire now p s of None \<Rightarrow> None | Some s' \<Rightarrow> tick_fire_loop fuel now next s')"

definition tick_wheel :: "u64 \<Rightarrow> kst \<Rightarrow> kst option" where
  "tick_wheel now s =
     (let bucket = wheel_bucket_of now;
          current = gl_heartbeat_wheel_heads (ks_global s) ! nat bucket;
          s1 = upd_global (wheel_set_head bucket 0) s
      in case tick_detach_loop NPROC current s1 of
           None \<Rightarrow> None
         | Some s2 \<Rightarrow> tick_fire_loop NPROC now current s2)"

subsection \<open>Chains\<close>

fun wheel_path :: "(nat \<Rightarrow> int) \<Rightarrow> int \<Rightarrow> nat list \<Rightarrow> bool" where
  "wheel_path nx h [] \<longleftrightarrow> h = 0"
| "wheel_path nx h (x # xs) \<longleftrightarrow> h = agent_proc_wheel_index x \<and> x < NPROC \<and> wheel_path nx (nx x) xs"

lemma wheel_index_simps [simp]:
  "x < NPROC \<Longrightarrow> agent_wheel_proc (agent_proc_wheel_index x) = Some x"
  "agent_proc_wheel_index x \<noteq> 0" "0 \<noteq> agent_proc_wheel_index x"
  "agent_proc_wheel_index x = agent_proc_wheel_index y \<longleftrightarrow> x = y"
  by (auto simp: agent_wheel_proc_def agent_proc_wheel_index_def)

lemma wheel_path_cong:
  "(\<And>x. x \<in> set xs \<Longrightarrow> nx x = nx' x) \<Longrightarrow> wheel_path nx h xs = wheel_path nx' h xs"
  by (induction xs arbitrary: h) auto

lemma wheel_path_less: "wheel_path nx h xs \<Longrightarrow> x \<in> set xs \<Longrightarrow> x < NPROC"
  by (induction xs arbitrary: h) auto

text \<open>Unlinking the element after \<open>as\<close>: the last of \<open>as\<close>, or the head, now points past it.\<close>

lemma wheel_path_unlink:
  assumes "wheel_path nx h (as @ x # bs)" "distinct (as @ x # bs)"
  shows "if as = [] then wheel_path nx (nx x) bs \<and> h = agent_proc_wheel_index x
         else wheel_path (nx(last as := nx x)) h (as @ bs)"
  using assms
proof (induction as arbitrary: h)
  case Nil
  then show ?case by simp
next
  case (Cons a as)
  show ?case
  proof (cases "as = []")
    case True
    have "wheel_path (nx(a := nx x)) (nx x) bs = wheel_path nx (nx x) bs"
      using Cons.prems True by (intro wheel_path_cong) auto
    with Cons.prems True show ?thesis by simp
  next
    case False
    with Cons.IH [of "nx a"] Cons.prems have "wheel_path (nx(last as := nx x)) (nx a) (as @ bs)" by simp
    moreover have "last as \<noteq> a" using Cons.prems False by auto
    ultimately show ?thesis using Cons.prems False by simp
  qed
qed

lemma wheel_remove_loop_path:
  assumes "wheel_path (\<lambda>j. heartbeat_wheel_next (pr s j)) cur (as @ i # bs)" "i \<notin> set as" "length as < fuel"
  shows "wheel_remove_loop fuel i b prev cur s =
    Some (wheel_unlink b (if as = [] then prev else agent_proc_wheel_index (last as)) (heartbeat_wheel_next (pr s i)) s)"
  using assms
proof (induction as arbitrary: fuel cur prev)
  case Nil
  then show ?case by (cases fuel) (auto simp: wheel_next_def)
next
  case (Cons a as)
  then obtain f where f: "fuel = Suc f" by (cases fuel) auto
  from Cons.prems f have
    "wheel_remove_loop fuel i b prev cur s = wheel_remove_loop f i b (agent_proc_wheel_index a) (heartbeat_wheel_next (pr s a)) s"
    by (auto simp: wheel_next_def)
  with Cons.IH [of "heartbeat_wheel_next (pr s a)" f "agent_proc_wheel_index a"] Cons.prems f
  show ?case by simp
qed

subsection \<open>The invariant\<close>

definition wheel_chains :: "kst \<Rightarrow> nat list list \<Rightarrow> bool" where
  "wheel_chains s cs \<longleftrightarrow>
     length cs = 64 \<and> length (gl_heartbeat_wheel_heads (ks_global s)) = 64 \<and> length (ks_procs s) \<le> NPROC \<and>
     (\<forall>b < 64. wheel_path (\<lambda>j. heartbeat_wheel_next (pr s j)) (gl_heartbeat_wheel_heads (ks_global s) ! b) (cs ! b)
        \<and> distinct (cs ! b)
        \<and> (\<forall>i. i \<in> set (cs ! b) \<longleftrightarrow> i < length (ks_procs s) \<and> heartbeat_wheel_active (pr s i)
                 \<and> heartbeat_wheel_bucket (pr s i) = int b)) \<and>
     (\<forall>i < length (ks_procs s). heartbeat_wheel_active (pr s i) \<longrightarrow>
        0 \<le> heartbeat_wheel_bucket (pr s i) \<and> heartbeat_wheel_bucket (pr s i) < 64) \<and>
     gl_heartbeat_count (ks_global s) = int (sum_list (map length cs))"

definition wheel_inv :: "kst \<Rightarrow> bool" where
  "wheel_inv s \<longleftrightarrow> (\<exists>cs. wheel_chains s cs)"

text \<open>The fields of a process that the wheel does not own.\<close>

definition off_wheel :: "proc \<Rightarrow> proc" where
  "off_wheel p = p\<lparr>heartbeat_wheel_active := False, heartbeat_wheel_next := 0, heartbeat_wheel_bucket := 0\<rparr>"

lemma off_wheel_simps [simp]:
  "off_wheel (wheel_clear p) = off_wheel p"
  "off_wheel (p\<lparr>heartbeat_wheel_next := n\<rparr>) = off_wheel p"
  "off_wheel (p\<lparr>heartbeat_wheel_active := a\<rparr>) = off_wheel p"
  "off_wheel (p\<lparr>heartbeat_wheel_bucket := n\<rparr>) = off_wheel p"
  by (simp_all add: off_wheel_def wheel_clear_def)

lemma off_wheel_fields:
  "pending_events (off_wheel p) = pending_events p" "p_state (off_wheel p) = p_state p"
  "p_chan (off_wheel p) = p_chan p" "heartbeat_deadline (off_wheel p) = heartbeat_deadline p"
  by (simp_all add: off_wheel_def)

lemma off_wheel_same_fields:
  assumes "off_wheel p = off_wheel q"
  shows "pending_events p = pending_events q" "p_state p = p_state q" "p_chan p = p_chan q"
    "heartbeat_deadline p = heartbeat_deadline q"
  using assms off_wheel_fields by metis+

lemma wheel_chainsD:
  assumes "wheel_chains s cs"
  shows "length cs = 64" "length (gl_heartbeat_wheel_heads (ks_global s)) = 64" "length (ks_procs s) \<le> NPROC"
    "\<And>b. b < 64 \<Longrightarrow> wheel_path (\<lambda>j. heartbeat_wheel_next (pr s j)) (gl_heartbeat_wheel_heads (ks_global s) ! b) (cs ! b)"
    "\<And>b. b < 64 \<Longrightarrow> distinct (cs ! b)"
    "\<And>b i. b < 64 \<Longrightarrow> i \<in> set (cs ! b) \<longleftrightarrow> i < length (ks_procs s) \<and> heartbeat_wheel_active (pr s i)
         \<and> heartbeat_wheel_bucket (pr s i) = int b"
    "\<And>i. i < length (ks_procs s) \<Longrightarrow> heartbeat_wheel_active (pr s i) \<Longrightarrow>
        0 \<le> heartbeat_wheel_bucket (pr s i) \<and> heartbeat_wheel_bucket (pr s i) < 64"
    "gl_heartbeat_count (ks_global s) = int (sum_list (map length cs))"
  using assms by (simp_all add: wheel_chains_def)

lemma sum_list_update_length:
  "b < length cs \<Longrightarrow> length (cs ! b) \<le> sum_list (map length cs)"
  by (simp add: member_le_sum_list)

lemma sum_lengths_update:
  "b < length cs \<Longrightarrow> sum_list (map length (cs[b := xs])) + length (cs ! b) = sum_list (map length cs) + length xs"
proof (induction cs arbitrary: b)
  case Nil
  then show ?case by simp
next
  case (Cons c cs)
  show ?case
  proof (cases b)
    case 0
    then show ?thesis by simp
  next
    case (Suc k)
    with Cons.prems Cons.IH [of k] show ?thesis by simp
  qed
qed

lemma chain_short: "wheel_chains s cs \<Longrightarrow> b < 64 \<Longrightarrow> length (cs ! b) \<le> 64"
proof -
  assume w: "wheel_chains s cs" and b: "b < 64"
  have "set (cs ! b) \<subseteq> {..<64}"
    using wheel_path_less [OF wheel_chainsD(4) [OF w b]] by auto
  then have "card (set (cs ! b)) \<le> 64" using card_mono [of "{..<64}" "set (cs ! b)"] by simp
  then show ?thesis using distinct_card [OF wheel_chainsD(5) [OF w b]] by simp
qed

text \<open>Unlinking one element of a chain, stated on the fields only.\<close>

lemma wheel_chains_unlink:
  assumes w: "wheel_chains s cs" and b: "b < 64" and split: "cs ! b = as @ i # bs"
    and len': "length (ks_procs t) = length (ks_procs s)"
    and nx': "\<And>j. j \<noteq> i \<Longrightarrow> heartbeat_wheel_next (pr t j) = (if as \<noteq> [] \<and> j = last as then heartbeat_wheel_next (pr s i)
        else heartbeat_wheel_next (pr s j))"
    and heads': "gl_heartbeat_wheel_heads (ks_global t) =
      (if as = [] then (gl_heartbeat_wheel_heads (ks_global s))[b := heartbeat_wheel_next (pr s i)]
       else gl_heartbeat_wheel_heads (ks_global s))"
    and act': "\<And>j. heartbeat_wheel_active (pr t j) \<longleftrightarrow> j \<noteq> i \<and> heartbeat_wheel_active (pr s j)"
    and bkt': "\<And>j. j \<noteq> i \<Longrightarrow> heartbeat_wheel_bucket (pr t j) = heartbeat_wheel_bucket (pr s j)"
    and count': "gl_heartbeat_count (ks_global t) = gl_heartbeat_count (ks_global s) - 1"
  shows "wheel_chains t (cs[b := as @ bs])"
proof -
  note d = wheel_chainsD [OF w]
  let ?nx = "\<lambda>j. heartbeat_wheel_next (pr s j)" and ?nx' = "\<lambda>j. heartbeat_wheel_next (pr t j)"
  let ?h = "gl_heartbeat_wheel_heads (ks_global s)" and ?h' = "gl_heartbeat_wheel_heads (ks_global t)"
  have dist: "distinct (as @ i # bs)" using d(5) [OF b] split by simp
  have mem: "i \<in> set (cs ! b)" and lastm: "as \<noteq> [] \<Longrightarrow> last as \<in> set (cs ! b)" using split by auto
  have bk: "heartbeat_wheel_bucket (pr s i) = int b" using d(6) [OF b, of i] mem by simp
  have other: "x \<notin> set (cs ! c)" if "x \<in> set (cs ! b)" "c < 64" "c \<noteq> b" for x c
    using d(6) [OF b, of x] d(6) [OF that(2), of x] that by auto
  have path': "wheel_path ?nx' (?h' ! c) (cs[b := as @ bs] ! c)" if c: "c < 64" for c
  proof (cases "c = b")
    case False
    have "wheel_path ?nx' (?h ! c) (cs ! c) = wheel_path ?nx (?h ! c) (cs ! c)"
      using other [OF mem c False] other [OF lastm c False] nx' by (intro wheel_path_cong) metis
    with False heads' d(4) [OF c] show ?thesis by simp
  next
    case True
    note u = wheel_path_unlink [of ?nx "?h ! b" as i bs] d(4) [OF b] split dist
    show ?thesis
    proof (cases "as = []")
      case nil: True
      have "wheel_path ?nx' (?nx i) bs = wheel_path ?nx (?nx i) bs"
        using dist nx' nil by (intro wheel_path_cong) (metis append_Nil distinct.simps(2))
      with nil u heads' True b d(1,2) show ?thesis by simp
    next
      case False
      have "wheel_path ?nx' (?h ! b) (as @ bs) = wheel_path (?nx(last as := ?nx i)) (?h ! b) (as @ bs)"
      proof (rule wheel_path_cong)
        fix x assume "x \<in> set (as @ bs)"
        then have "x \<noteq> i" using dist by auto
        with nx' False show "?nx' x = (?nx(last as := ?nx i)) x" by simp
      qed
      with False u heads' True b d(1) show ?thesis by simp
    qed
  qed
  have dist': "distinct (cs[b := as @ bs] ! c)" if "c < 64" for c
    using d(1) d(5) [OF that] dist that by (cases "c = b") auto
  have mem': "j \<in> set (cs[b := as @ bs] ! c) \<longleftrightarrow> j < length (ks_procs t) \<and> heartbeat_wheel_active (pr t j)
      \<and> heartbeat_wheel_bucket (pr t j) = int c" if c: "c < 64" for c j
  proof (cases "j = i")
    case True
    then show ?thesis using d(1) other [OF mem c] c dist act' by (cases "c = b") auto
  next
    case False
    then have "j \<in> set (cs[b := as @ bs] ! c) \<longleftrightarrow> j \<in> set (cs ! c)"
      using d(1) c split by (cases "c = b") auto
    with False d(6) [OF c, of j] act' bkt' len' show ?thesis by simp
  qed
  have rng: "0 \<le> heartbeat_wheel_bucket (pr t j) \<and> heartbeat_wheel_bucket (pr t j) < 64"
    if "j < length (ks_procs t)" "heartbeat_wheel_active (pr t j)" for j
    using that act' bkt' len' d(7) by simp
  have cnt: "gl_heartbeat_count (ks_global t) = int (sum_list (map length (cs[b := as @ bs])))"
    using sum_lengths_update [of b cs "as @ bs"] b d(1,8) split count' by simp
  show ?thesis
    unfolding wheel_chains_def using path' dist' mem' rng cnt d(1-3) heads' len' by simp
qed

lemma wheel_remove_chains:
  assumes w: "wheel_chains s cs" and i: "i < length (ks_procs s)" and act: "heartbeat_wheel_active (pr s i)"
  defines "b \<equiv> nat (heartbeat_wheel_bucket (pr s i))"
  shows "\<exists>t. agent_heartbeat_wheel_remove i s = Some t \<and> wheel_chains t (cs[b := remove1 i (cs ! b)]) \<and>
    \<not> heartbeat_wheel_active (pr t i) \<and> (\<forall>j. off_wheel (pr t j) = off_wheel (pr s j)) \<and>
    length (ks_procs t) = length (ks_procs s)"
proof -
  note d = wheel_chainsD [OF w]
  have bk: "b < 64" "heartbeat_wheel_bucket (pr s i) = int b" using d(7) [OF i act] by (auto simp: b_def)
  have mem: "i \<in> set (cs ! b)" using d(6) [OF bk(1)] i act bk(2) by simp
  then obtain as bs where split: "cs ! b = as @ i # bs" by (meson split_list)
  have dist: "distinct (as @ i # bs)" using d(5) [OF bk(1)] split by simp
  have path: "wheel_path (\<lambda>j. heartbeat_wheel_next (pr s j)) (gl_heartbeat_wheel_heads (ks_global s) ! b) (as @ i # bs)"
    using d(4) [OF bk(1)] split by simp
  have len: "length as < NPROC" using chain_short [OF w bk(1)] split by simp
  let ?prev = "if as = [] then 0 else agent_proc_wheel_index (last as)"
  let ?u = "wheel_unlink (int b) ?prev (heartbeat_wheel_next (pr s i)) s"
  let ?t = "upd_proc i wheel_clear ?u"
  have eq: "agent_heartbeat_wheel_remove i s = Some ?t"
    using wheel_remove_loop_path [OF path _ len, of "int b" 0] dist act bk
    by (simp add: agent_heartbeat_wheel_remove_def Let_def)
  have lastp: "as \<noteq> [] \<Longrightarrow> last as < NPROC \<and> last as \<noteq> i"
    using wheel_path_less [OF path, of "last as"] dist last_in_set [of as] by auto
  have lastl: "as \<noteq> [] \<Longrightarrow> last as < length (ks_procs s)"
    using d(6) [OF bk(1), of "last as"] split by auto
  have pos: "0 < gl_heartbeat_count (ks_global s)"
    using sum_list_update_length [of b cs] d(1,8) bk(1) split by simp
  have pr': "pr ?t j = (if j = i then wheel_clear (pr s i)
      else if as \<noteq> [] \<and> j = last as then (pr s j)\<lparr>heartbeat_wheel_next := heartbeat_wheel_next (pr s i)\<rparr> else pr s j)" for j
    using i lastl lastp by (auto simp: wheel_unlink_def)
  have "wheel_chains ?t (cs[b := as @ bs])"
    using w bk(1) split
  proof (rule wheel_chains_unlink)
    show "length (ks_procs ?t) = length (ks_procs s)" by (simp add: wheel_unlink_def split: option.splits)
    show "gl_heartbeat_wheel_heads (ks_global ?t) =
        (if as = [] then (gl_heartbeat_wheel_heads (ks_global s))[b := heartbeat_wheel_next (pr s i)]
         else gl_heartbeat_wheel_heads (ks_global s))"
      using lastp by (auto simp: wheel_unlink_def wheel_count_down_def wheel_set_head_def)
    show "gl_heartbeat_count (ks_global ?t) = gl_heartbeat_count (ks_global s) - 1"
      using lastp pos by (auto simp: wheel_unlink_def wheel_count_down_def wheel_set_head_def)
  qed (unfold pr', auto simp: wheel_clear_def)
  moreover have "remove1 i (cs ! b) = as @ bs" using split dist by (simp add: remove1_append)
  moreover have "off_wheel (pr ?t j) = off_wheel (pr s j)" for j by (simp add: pr')
  moreover have "length (ks_procs ?t) = length (ks_procs s)" by (simp add: wheel_unlink_def split: option.splits)
  ultimately show ?thesis using eq by (auto simp: pr' wheel_clear_def)
qed

subsection \<open>What the wheel leaves alone\<close>

definition off_wheel_global :: "agent_global_state \<Rightarrow> agent_global_state" where
  "off_wheel_global g = g\<lparr>gl_heartbeat_wheel_heads := [], gl_heartbeat_count := 0, gl_heartbeat_min_deadline := 0,
     gl_heartbeat_tick_scanned := 0, gl_heartbeat_tick_wakeups := 0\<rparr>"

definition off_wheel_kst :: "kst \<Rightarrow> kst" where
  "off_wheel_kst s = s\<lparr>ks_procs := map off_wheel (ks_procs s), ks_global := off_wheel_global (ks_global s)\<rparr>"

lemma off_wheel_kst_upd_proc:
  "(\<And>p. off_wheel (f p) = off_wheel p) \<Longrightarrow> off_wheel_kst (upd_proc i f s) = off_wheel_kst s"
proof -
  assume f: "\<And>p. off_wheel (f p) = off_wheel p"
  have "map off_wheel ((ks_procs s)[i := f (pr s i)]) = map off_wheel (ks_procs s)"
    by (cases "i < length (ks_procs s)") (simp_all add: map_update f list_update_same_conv list_update_beyond)
  then show ?thesis by (simp add: off_wheel_kst_def upd_proc_def)
qed

lemma off_wheel_kst_upd_global:
  "off_wheel_global (f (ks_global s)) = off_wheel_global (ks_global s) \<Longrightarrow> off_wheel_kst (upd_global f s) = off_wheel_kst s"
  by (simp add: off_wheel_kst_def upd_global_def)

lemma off_wheel_unlink [simp]: "off_wheel_kst (wheel_unlink b prev next s) = off_wheel_kst s"
  by (simp add: wheel_unlink_def off_wheel_kst_upd_proc off_wheel_kst_upd_global wheel_count_down_def
      wheel_set_head_def off_wheel_global_def split: option.splits)

lemma off_wheel_remove_loop: "wheel_remove_loop fuel i b prev cur s = Some t \<Longrightarrow> off_wheel_kst t = off_wheel_kst s"
  by (induction fuel i b prev cur s rule: wheel_remove_loop.induct) (auto split: if_splits)

lemma off_wheel_remove: "agent_heartbeat_wheel_remove i s = Some t \<Longrightarrow> off_wheel_kst t = off_wheel_kst s"
  by (auto simp: agent_heartbeat_wheel_remove_def Let_def off_wheel_kst_upd_proc off_wheel_remove_loop split: if_splits)

lemma off_wheel_link [simp]: "off_wheel_kst (wheel_link i s) = off_wheel_kst s"
  by (simp add: wheel_link_def Let_def off_wheel_kst_upd_proc off_wheel_kst_upd_global
      wheel_set_head_def off_wheel_global_def off_wheel_def)

lemma off_wheel_reschedule: "agent_heartbeat_wheel_reschedule i s = Some t \<Longrightarrow> off_wheel_kst t = off_wheel_kst s"
  by (auto simp: agent_heartbeat_wheel_reschedule_def off_wheel_remove split: if_splits option.splits)

text \<open>The projections of \<open>off_wheel_kst t = off_wheel_kst s\<close> that the components use.\<close>

lemma off_wheel_kstD:
  assumes "off_wheel_kst t = off_wheel_kst s"
  shows "ks_ticks t = ks_ticks s" "ks_log t = ks_log s" "ks_freelist t = ks_freelist s"
    "ks_nextpid t = ks_nextpid s" "ks_dynamic_tools t = ks_dynamic_tools s"
    "ks_dynamic_requests t = ks_dynamic_requests s" "ks_file_versions t = ks_file_versions s"
    "length (ks_procs t) = length (ks_procs s)"
    "gl_workflows (ks_global t) = gl_workflows (ks_global s)" "gl_leases (ks_global t) = gl_leases (ks_global s)"
    "gl_next_lease_id (ks_global t) = gl_next_lease_id (ks_global s)"
    "gl_next_identity_generation (ks_global t) = gl_next_identity_generation (ks_global s)"
proof -
  show "ks_ticks t = ks_ticks s" using arg_cong [OF assms, of ks_ticks] by (simp add: off_wheel_kst_def)
  show "ks_log t = ks_log s" using arg_cong [OF assms, of ks_log] by (simp add: off_wheel_kst_def)
  show "ks_freelist t = ks_freelist s" using arg_cong [OF assms, of ks_freelist] by (simp add: off_wheel_kst_def)
  show "ks_nextpid t = ks_nextpid s" using arg_cong [OF assms, of ks_nextpid] by (simp add: off_wheel_kst_def)
  show "ks_dynamic_tools t = ks_dynamic_tools s" using arg_cong [OF assms, of ks_dynamic_tools] by (simp add: off_wheel_kst_def)
  show "ks_dynamic_requests t = ks_dynamic_requests s" using arg_cong [OF assms, of ks_dynamic_requests] by (simp add: off_wheel_kst_def)
  show "ks_file_versions t = ks_file_versions s" using arg_cong [OF assms, of ks_file_versions] by (simp add: off_wheel_kst_def)
  show "length (ks_procs t) = length (ks_procs s)"
    using arg_cong [OF assms, of "\<lambda>s. length (ks_procs s)"] by (simp add: off_wheel_kst_def)
  have g: "off_wheel_global (ks_global t) = off_wheel_global (ks_global s)"
    using arg_cong [OF assms, of ks_global] by (simp add: off_wheel_kst_def)
  show "gl_workflows (ks_global t) = gl_workflows (ks_global s)"
    using arg_cong [OF g, of gl_workflows] by (simp add: off_wheel_global_def)
  show "gl_leases (ks_global t) = gl_leases (ks_global s)"
    using arg_cong [OF g, of gl_leases] by (simp add: off_wheel_global_def)
  show "gl_next_lease_id (ks_global t) = gl_next_lease_id (ks_global s)"
    using arg_cong [OF g, of gl_next_lease_id] by (simp add: off_wheel_global_def)
  show "gl_next_identity_generation (ks_global t) = gl_next_identity_generation (ks_global s)"
    using arg_cong [OF g, of gl_next_identity_generation] by (simp add: off_wheel_global_def)
qed

lemma off_wheel_kst_proc:
  assumes "off_wheel_kst t = off_wheel_kst s" "j < length (ks_procs s)"
  shows "off_wheel (pr t j) = off_wheel (pr s j)"
proof -
  have "map off_wheel (ks_procs t) = map off_wheel (ks_procs s)"
    using arg_cong [OF assms(1), of ks_procs] by (simp add: off_wheel_kst_def)
  with assms(2) show ?thesis by (metis length_map nth_map)
qed

subsection \<open>Inserting\<close>

lemma wheel_bucket_range: "0 \<le> wheel_bucket_of d" "wheel_bucket_of d < 64"
proof -
  show "0 \<le> wheel_bucket_of d" by (simp add: wheel_bucket_of_def)
  have "(63 :: u64) = mask 6" by (simp add: mask_eq_exp_minus_1)
  then have "d AND 63 = take_bit 6 d" by (simp add: take_bit_eq_mask)
  then show "wheel_bucket_of d < 64"
    by (simp add: wheel_bucket_of_def take_bit_eq_mod uint_mod)
qed

lemma wheel_link_effect:
  assumes "i < length (ks_procs s)"
  shows "pr (wheel_link i s) j = (if j = i then (pr s i)\<lparr>
        heartbeat_wheel_bucket := wheel_bucket_of (heartbeat_deadline (pr s i)),
        heartbeat_wheel_next := gl_heartbeat_wheel_heads (ks_global s) ! nat (wheel_bucket_of (heartbeat_deadline (pr s i))),
        heartbeat_wheel_active := True\<rparr> else pr s j)"
    and "gl_heartbeat_wheel_heads (ks_global (wheel_link i s)) =
      (gl_heartbeat_wheel_heads (ks_global s))[nat (wheel_bucket_of (heartbeat_deadline (pr s i))) := agent_proc_wheel_index i]"
    and "gl_heartbeat_count (ks_global (wheel_link i s)) = gl_heartbeat_count (ks_global s) + 1"
  using assms by (simp_all add: wheel_link_def Let_def wheel_set_head_def)

lemma wheel_chains_link:
  assumes w: "wheel_chains s cs" and i: "i < length (ks_procs s)" and un: "\<not> heartbeat_wheel_active (pr s i)"
  defines "b \<equiv> nat (wheel_bucket_of (heartbeat_deadline (pr s i)))"
  shows "wheel_chains (wheel_link i s) (cs[b := i # cs ! b])"
proof -
  note d = wheel_chainsD [OF w]
  note e = wheel_link_effect [OF i]
  let ?t = "wheel_link i s"
  have b: "b < 64" "wheel_bucket_of (heartbeat_deadline (pr s i)) = int b"
    using wheel_bucket_range [of "heartbeat_deadline (pr s i)"] by (auto simp: b_def)
  have out: "i \<notin> set (cs ! c)" if "c < 64" for c using d(6) [OF that, of i] un by simp
  have len: "length (ks_procs ?t) = length (ks_procs s)" by (simp add: wheel_link_def Let_def)
  have same: "wheel_path (\<lambda>j. heartbeat_wheel_next (pr ?t j)) h (cs ! c) =
      wheel_path (\<lambda>j. heartbeat_wheel_next (pr s j)) h (cs ! c)" if "c < 64" for c h
    using out [OF that] e(1) by (intro wheel_path_cong) (metis (no_types, lifting))
  have path': "wheel_path (\<lambda>j. heartbeat_wheel_next (pr ?t j)) (gl_heartbeat_wheel_heads (ks_global ?t) ! c)
      (cs[b := i # cs ! b] ! c)" if c: "c < 64" for c
    using same [OF c] d(1-4) c b i e by (cases "c = b") auto
  have dist': "distinct (cs[b := i # cs ! b] ! c)" if c: "c < 64" for c
    using out [OF c] d(1) d(5) [OF c] c by (cases "c = b") auto
  have mem': "j \<in> set (cs[b := i # cs ! b] ! c) \<longleftrightarrow> j < length (ks_procs ?t) \<and> heartbeat_wheel_active (pr ?t j)
      \<and> heartbeat_wheel_bucket (pr ?t j) = int c" if c: "c < 64" for c j
  proof (cases "j = i")
    case True
    then show ?thesis using d(1) b i len e(1) out [OF c] c by (cases "c = b") auto
  next
    case False
    then have "j \<in> set (cs[b := i # cs ! b] ! c) \<longleftrightarrow> j \<in> set (cs ! c)"
      using d(1) c by (cases "c = b") auto
    with False d(6) [OF c, of j] e(1) len show ?thesis by simp
  qed
  have rng: "0 \<le> heartbeat_wheel_bucket (pr ?t j) \<and> heartbeat_wheel_bucket (pr ?t j) < 64"
    if "j < length (ks_procs ?t)" "heartbeat_wheel_active (pr ?t j)" for j
    using that e(1) len d(7) b by (cases "j = i") auto
  have cnt: "gl_heartbeat_count (ks_global ?t) = int (sum_list (map length (cs[b := i # cs ! b])))"
    using sum_lengths_update [of b cs "i # cs ! b"] b d(1,8) e(3) by simp
  show ?thesis
    unfolding wheel_chains_def using path' dist' mem' rng cnt d(1-3) e(2) len by simp
qed

lemma remove_inv:
  assumes "wheel_inv s" "i < length (ks_procs s)"
  shows "\<exists>t. agent_heartbeat_wheel_remove i s = Some t \<and> wheel_inv t \<and> \<not> heartbeat_wheel_active (pr t i) \<and>
    (\<forall>j. off_wheel (pr t j) = off_wheel (pr s j)) \<and> off_wheel_kst t = off_wheel_kst s"
proof (cases "heartbeat_wheel_active (pr s i)")
  case False
  then have "agent_heartbeat_wheel_remove i s = Some s" by (simp add: agent_heartbeat_wheel_remove_def)
  with False assms show ?thesis by blast
next
  case True
  obtain cs where "wheel_chains s cs" using assms(1) by (auto simp: wheel_inv_def)
  from wheel_remove_chains [OF this assms(2) True] off_wheel_remove show ?thesis
    unfolding wheel_inv_def by blast
qed

lemma wheel_eligible_off [simp]: "wheel_eligible (off_wheel p) = wheel_eligible p"
  by (simp add: wheel_eligible_def off_wheel_def)

lemma off_wheel_eligible: "off_wheel p = off_wheel q \<Longrightarrow> wheel_eligible p = wheel_eligible q"
  by (metis wheel_eligible_off)

lemma off_wheel_deadline: "off_wheel p = off_wheel q \<Longrightarrow> heartbeat_deadline p = heartbeat_deadline q"
  by (drule arg_cong [where f = heartbeat_deadline]) (simp add: off_wheel_def)

lemma reschedule_inv:
  assumes "wheel_inv s" "i < length (ks_procs s)"
  shows "\<exists>t. agent_heartbeat_wheel_reschedule i s = Some t \<and> wheel_inv t \<and>
    heartbeat_wheel_active (pr t i) = wheel_eligible (pr s i) \<and>
    (wheel_eligible (pr s i) \<longrightarrow> heartbeat_wheel_bucket (pr t i) = wheel_bucket_of (heartbeat_deadline (pr s i))) \<and>
    (\<forall>j. off_wheel (pr t j) = off_wheel (pr s j)) \<and> off_wheel_kst t = off_wheel_kst s"
proof -
  obtain u where u: "agent_heartbeat_wheel_remove i s = Some u" "wheel_inv u" "\<not> heartbeat_wheel_active (pr u i)"
    "\<forall>j. off_wheel (pr u j) = off_wheel (pr s j)" "off_wheel_kst u = off_wheel_kst s"
    using remove_inv [OF assms] by blast
  have iu: "i < length (ks_procs u)" using off_wheel_kstD(8) [OF u(5)] assms(2) by simp
  have el: "wheel_eligible (pr u i) = wheel_eligible (pr s i)" using u(4) by (intro off_wheel_eligible) simp
  have dl: "heartbeat_deadline (pr u i) = heartbeat_deadline (pr s i)" using u(4) by (intro off_wheel_deadline) simp
  let ?t = "if wheel_eligible (pr u i) then wheel_link i u else u"
  have eq: "agent_heartbeat_wheel_reschedule i s = Some ?t"
    using u(1) by (auto simp: agent_heartbeat_wheel_reschedule_def agent_heartbeat_wheel_remove_def split: if_splits)
  obtain cs where "wheel_chains u cs" using u(2) by (auto simp: wheel_inv_def)
  from wheel_chains_link [OF this iu u(3)] have inv: "wheel_inv ?t" using u(2) by (auto simp: wheel_inv_def)
  have "off_wheel (pr ?t j) = off_wheel (pr s j)" for j
    using u(4) [THEN spec, of j] wheel_link_effect(1) [OF iu, of j] by (auto simp: off_wheel_def)
  with eq inv u el dl wheel_link_effect(1) [OF iu, of i] show ?thesis
    by (intro exI [of _ ?t]) auto
qed

subsection \<open>A tick\<close>

lemma wheel_chains_cong:
  assumes w: "wheel_chains s cs" and len: "length (ks_procs t) = length (ks_procs s)"
    and p: "\<And>j. heartbeat_wheel_active (pr t j) = heartbeat_wheel_active (pr s j)"
      "\<And>j. heartbeat_wheel_bucket (pr t j) = heartbeat_wheel_bucket (pr s j)"
      "\<And>j. heartbeat_wheel_active (pr s j) \<Longrightarrow> heartbeat_wheel_next (pr t j) = heartbeat_wheel_next (pr s j)"
    and g: "gl_heartbeat_wheel_heads (ks_global t) = gl_heartbeat_wheel_heads (ks_global s)"
      "gl_heartbeat_count (ks_global t) = gl_heartbeat_count (ks_global s)"
  shows "wheel_chains t cs"
proof -
  note d = wheel_chainsD [OF w]
  have "wheel_path (\<lambda>j. heartbeat_wheel_next (pr t j)) h (cs ! b) = wheel_path (\<lambda>j. heartbeat_wheel_next (pr s j)) h (cs ! b)"
    if "b < 64" for b h
    using d(6) [OF that] p(3) by (intro wheel_path_cong) blast
  with d p(1,2) g len show ?thesis unfolding wheel_chains_def by simp
qed

lemma wheel_inv_cong:
  assumes "wheel_inv s" and len: "length (ks_procs t) = length (ks_procs s)"
    and p: "\<And>j. heartbeat_wheel_active (pr t j) = heartbeat_wheel_active (pr s j)"
      "\<And>j. heartbeat_wheel_bucket (pr t j) = heartbeat_wheel_bucket (pr s j)"
      "\<And>j. heartbeat_wheel_active (pr s j) \<Longrightarrow> heartbeat_wheel_next (pr t j) = heartbeat_wheel_next (pr s j)"
    and g: "gl_heartbeat_wheel_heads (ks_global t) = gl_heartbeat_wheel_heads (ks_global s)"
      "gl_heartbeat_count (ks_global t) = gl_heartbeat_count (ks_global s)"
  shows "wheel_inv t"
  using assms(1) wheel_chains_cong [OF _ len p g] unfolding wheel_inv_def by blast

definition detach_one :: "nat \<Rightarrow> kst \<Rightarrow> kst" where
  "detach_one x s = upd_global wheel_count_down
     (upd_proc x (\<lambda>p. p\<lparr>heartbeat_wheel_active := False, heartbeat_wheel_bucket := -1\<rparr>) s)"

lemma detach_one_effect:
  "x < length (ks_procs s) \<Longrightarrow> pr (detach_one x s) j =
     (if j = x then (pr s j)\<lparr>heartbeat_wheel_active := False, heartbeat_wheel_bucket := -1\<rparr> else pr s j)"
  "gl_heartbeat_wheel_heads (ks_global (detach_one x s)) = gl_heartbeat_wheel_heads (ks_global s)"
  "gl_heartbeat_count (ks_global (detach_one x s)) =
     (if gl_heartbeat_count (ks_global s) > 0 then gl_heartbeat_count (ks_global s) - 1 else gl_heartbeat_count (ks_global s))"
  "length (ks_procs (detach_one x s)) = length (ks_procs s)"
  "off_wheel_kst (detach_one x s) = off_wheel_kst s"
  by (simp_all add: detach_one_def wheel_count_down_def off_wheel_kst_upd_proc off_wheel_kst_upd_global
      off_wheel_global_def off_wheel_def)

lemma detach_fold:
  assumes "\<forall>x \<in> set xs. x < length (ks_procs s)" "int (length xs) \<le> gl_heartbeat_count (ks_global s)"
  shows "pr (fold detach_one xs s) j = (if j \<in> set xs
       then (pr s j)\<lparr>heartbeat_wheel_active := False, heartbeat_wheel_bucket := -1\<rparr> else pr s j) \<and>
    gl_heartbeat_wheel_heads (ks_global (fold detach_one xs s)) = gl_heartbeat_wheel_heads (ks_global s) \<and>
    gl_heartbeat_count (ks_global (fold detach_one xs s)) = gl_heartbeat_count (ks_global s) - int (length xs) \<and>
    length (ks_procs (fold detach_one xs s)) = length (ks_procs s) \<and>
    off_wheel_kst (fold detach_one xs s) = off_wheel_kst s"
  using assms
proof (induction xs arbitrary: s)
  case Nil
  then show ?case by simp
next
  case (Cons x xs)
  have "\<forall>y \<in> set xs. y < length (ks_procs (detach_one x s))"
    "int (length xs) \<le> gl_heartbeat_count (ks_global (detach_one x s))"
    using Cons.prems by (auto simp: detach_one_effect)
  note IH = Cons.IH [OF this]
  show ?case using IH Cons.prems by (auto simp: detach_one_effect)
qed

lemma tick_detach_fold:
  assumes "wheel_path (\<lambda>j. heartbeat_wheel_next (pr s j)) cur xs" "length xs \<le> fuel" "\<forall>x \<in> set xs. x < length (ks_procs s)"
  shows "tick_detach_loop fuel cur s = Some (fold detach_one xs s)"
  using assms
proof (induction xs arbitrary: fuel cur s)
  case Nil
  then show ?case by (cases fuel) auto
next
  case (Cons x xs)
  then obtain f where f: "fuel = Suc f" by (cases fuel) auto
  have "wheel_path (\<lambda>j. heartbeat_wheel_next (pr (detach_one x s) j)) (heartbeat_wheel_next (pr s x)) xs"
    using Cons.prems by (subst wheel_path_cong [of _ _ "\<lambda>j. heartbeat_wheel_next (pr s j)"]) (auto simp: detach_one_effect)
  with Cons.IH [of "detach_one x s" "heartbeat_wheel_next (pr s x)" f] Cons.prems f show ?case
    by (auto simp: detach_one_effect Let_def simp flip: detach_one_def)
qed

text \<open>What the visit of one process does to its own fields.\<close>

definition fired :: "u64 \<Rightarrow> nat \<Rightarrow> proc \<Rightarrow> proc" where
  "fired now i p = (if heartbeat_due now p
     then (agent_signal_event_locked i AGENT_EVENT_HEARTBEAT now p)\<lparr>heartbeat_deadline := now + u64_of_int (heartbeat_interval p)\<rparr>
     else p)"

lemma fired_next: "fired now i (p\<lparr>heartbeat_wheel_next := 0\<rparr>) = (fired now i p)\<lparr>heartbeat_wheel_next := 0\<rparr>"
  by (simp add: fired_def heartbeat_due_def wheel_eligible_def agent_signal_event_locked_def Let_def)

lemma fired_wheel [simp]:
  "heartbeat_wheel_active (fired now i p) = heartbeat_wheel_active p"
  "heartbeat_wheel_bucket (fired now i p) = heartbeat_wheel_bucket p"
  by (simp_all add: fired_def agent_signal_event_locked_def Let_def)

lemma tick_fire_step:
  assumes inv: "wheel_inv s" and i: "i < length (ks_procs s)" and un: "\<not> heartbeat_wheel_active (pr s i)"
  shows "\<exists>t. tick_fire now i s = Some t \<and> wheel_inv t \<and> (\<forall>j. j \<noteq> i \<longrightarrow> pr t j = pr s j) \<and>
    off_wheel (pr t i) = off_wheel (fired now i (pr s i)) \<and>
    heartbeat_wheel_active (pr t i) = wheel_eligible (fired now i (pr s i)) \<and>
    (wheel_eligible (fired now i (pr s i)) \<longrightarrow>
       heartbeat_wheel_bucket (pr t i) = wheel_bucket_of (heartbeat_deadline (fired now i (pr s i)))) \<and>
    length (ks_procs t) = length (ks_procs s)"
proof -
  let ?q = "(fired now i (pr s i))\<lparr>heartbeat_wheel_next := 0\<rparr>"
  define s3 where "s3 = (let s1 = upd_global (\<lambda>g. g\<lparr>gl_heartbeat_tick_scanned := gl_heartbeat_tick_scanned g + 1\<rparr>) s;
          s2 = upd_proc i (\<lambda>p. p\<lparr>heartbeat_wheel_next := 0\<rparr>) s1
      in if heartbeat_due now (pr s2 i)
         then upd_global (\<lambda>g. g\<lparr>gl_heartbeat_tick_wakeups := gl_heartbeat_tick_wakeups g + 1\<rparr>)
                (upd_proc i (\<lambda>p. let q = agent_signal_event_locked i AGENT_EVENT_HEARTBEAT now p
                                 in q\<lparr>heartbeat_deadline := now + u64_of_int (heartbeat_interval q)\<rparr>) s2)
         else s2)"
  have fire: "tick_fire now i s = (if wheel_eligible (pr s3 i) then agent_heartbeat_wheel_reschedule i s3 else Some s3)"
    by (simp add: tick_fire_def s3_def Let_def)
  have due: "heartbeat_due now ((pr s i)\<lparr>heartbeat_wheel_next := 0\<rparr>) = heartbeat_due now (pr s i)"
    by (simp add: heartbeat_due_def wheel_eligible_def)
  have at: "pr s3 i = ?q"
    using i due unfolding fired_next [symmetric] by (simp add: s3_def fired_def Let_def)
  have else_same: "pr s3 j = pr s j" if "j \<noteq> i" for j using that by (simp add: s3_def Let_def)
  have len: "length (ks_procs s3) = length (ks_procs s)" by (simp add: s3_def Let_def)
  have glob: "gl_heartbeat_wheel_heads (ks_global s3) = gl_heartbeat_wheel_heads (ks_global s)"
    "gl_heartbeat_count (ks_global s3) = gl_heartbeat_count (ks_global s)"
    by (simp_all add: s3_def Let_def)
  have inv3: "wheel_inv s3"
  proof (rule wheel_inv_cong [OF inv len _ _ _ glob])
    fix j
    show "heartbeat_wheel_active (pr s3 j) = heartbeat_wheel_active (pr s j)"
      "heartbeat_wheel_bucket (pr s3 j) = heartbeat_wheel_bucket (pr s j)"
      by (cases "j = i"; simp add: at else_same)+
    show "heartbeat_wheel_next (pr s3 j) = heartbeat_wheel_next (pr s j)" if "heartbeat_wheel_active (pr s j)"
      using that un else_same by (cases "j = i") auto
  qed
  have el: "wheel_eligible (pr s3 i) = wheel_eligible (fired now i (pr s i))"
    unfolding at by (simp add: wheel_eligible_def)
  have un3: "\<not> heartbeat_wheel_active (pr s3 i)" using un by (simp add: at)
  have i3: "i < length (ks_procs s3)" using i len by simp
  let ?t = "if wheel_eligible (pr s3 i) then wheel_link i s3 else s3"
  note e = wheel_link_effect(1) [OF i3]
  have eq: "tick_fire now i s = Some ?t"
    using fire un3 by (simp add: agent_heartbeat_wheel_reschedule_def)
  obtain cs where "wheel_chains s3 cs" using inv3 by (auto simp: wheel_inv_def)
  from wheel_chains_link [OF this i3 un3] have inv': "wheel_inv ?t" using inv3 by (auto simp: wheel_inv_def)
  have "length (ks_procs ?t) = length (ks_procs s)" using len by (simp add: wheel_link_def Let_def)
  moreover have "off_wheel (pr ?t i) = off_wheel (fired now i (pr s i))" by (simp add: e at)
  moreover have "heartbeat_wheel_active (pr ?t i) = wheel_eligible (fired now i (pr s i))"
    using un3 el by (simp add: e)
  moreover have "heartbeat_wheel_bucket (pr ?t i) = wheel_bucket_of (heartbeat_deadline (fired now i (pr s i)))"
    if "wheel_eligible (fired now i (pr s i))" using that el by (simp add: e at)
  moreover have "pr ?t j = pr s j" if "j \<noteq> i" for j using that else_same by (simp add: e)
  ultimately show ?thesis using eq inv' by blast
qed

lemma tick_fire_path:
  assumes "wheel_inv s" "wheel_path (\<lambda>j. heartbeat_wheel_next (pr s j)) cur xs" "length xs \<le> fuel" "distinct xs"
    "\<forall>x \<in> set xs. x < length (ks_procs s) \<and> \<not> heartbeat_wheel_active (pr s x)"
  shows "\<exists>t. tick_fire_loop fuel now cur s = Some t \<and> wheel_inv t \<and>
    (\<forall>j. j \<notin> set xs \<longrightarrow> pr t j = pr s j) \<and>
    (\<forall>j \<in> set xs. off_wheel (pr t j) = off_wheel (fired now j (pr s j)) \<and>
       heartbeat_wheel_active (pr t j) = wheel_eligible (fired now j (pr s j)) \<and>
       (wheel_eligible (fired now j (pr s j)) \<longrightarrow>
          heartbeat_wheel_bucket (pr t j) = wheel_bucket_of (heartbeat_deadline (fired now j (pr s j))))) \<and>
    length (ks_procs t) = length (ks_procs s)"
  using assms
proof (induction xs arbitrary: fuel cur s)
  case Nil
  then show ?case by (cases fuel) auto
next
  case (Cons x xs)
  then obtain f where f: "fuel = Suc f" by (cases fuel) auto
  have x: "x < length (ks_procs s)" "\<not> heartbeat_wheel_active (pr s x)" using Cons.prems by auto
  obtain u where u: "tick_fire now x s = Some u" "wheel_inv u" "\<forall>j. j \<noteq> x \<longrightarrow> pr u j = pr s j"
    "off_wheel (pr u x) = off_wheel (fired now x (pr s x))"
    "heartbeat_wheel_active (pr u x) = wheel_eligible (fired now x (pr s x))"
    "wheel_eligible (fired now x (pr s x)) \<longrightarrow> heartbeat_wheel_bucket (pr u x) = wheel_bucket_of (heartbeat_deadline (fired now x (pr s x)))"
    "length (ks_procs u) = length (ks_procs s)"
    using tick_fire_step [OF Cons.prems(1) x] by blast
  have same: "pr u j = pr s j" if "j \<in> set xs" for j using that u(3) Cons.prems(4) by auto
  have "wheel_path (\<lambda>j. heartbeat_wheel_next (pr u j)) (heartbeat_wheel_next (pr s x)) xs"
    using Cons.prems(2) same by (subst wheel_path_cong [of _ _ "\<lambda>j. heartbeat_wheel_next (pr s j)"]) auto
  moreover have "\<forall>y \<in> set xs. y < length (ks_procs u) \<and> \<not> heartbeat_wheel_active (pr u y)"
    using Cons.prems(5) u(7) same by simp
  moreover have "length xs \<le> f" "distinct xs" using Cons.prems f by auto
  ultimately obtain t where t: "tick_fire_loop f now (heartbeat_wheel_next (pr s x)) u = Some t" "wheel_inv t"
    "\<forall>j. j \<notin> set xs \<longrightarrow> pr t j = pr u j"
    "\<forall>j \<in> set xs. off_wheel (pr t j) = off_wheel (fired now j (pr u j)) \<and>
       heartbeat_wheel_active (pr t j) = wheel_eligible (fired now j (pr u j)) \<and>
       (wheel_eligible (fired now j (pr u j)) \<longrightarrow>
          heartbeat_wheel_bucket (pr t j) = wheel_bucket_of (heartbeat_deadline (fired now j (pr u j))))"
    "length (ks_procs t) = length (ks_procs u)"
    using Cons.IH [OF u(2)] by blast
  have "tick_fire_loop fuel now cur s = Some t" using Cons.prems(2) f u(1) t(1) by simp
  moreover have "x \<notin> set xs" using Cons.prems(4) by simp
  ultimately show ?case using t u same by (intro exI [of _ t]) auto
qed

lemma detach_chains:
  assumes w: "wheel_chains s cs" and b: "b < 64"
  defines "s1 \<equiv> upd_global (wheel_set_head (int b) 0) s"
  shows "\<exists>t. tick_detach_loop NPROC (gl_heartbeat_wheel_heads (ks_global s) ! b) s1 = Some t \<and>
    wheel_chains t (cs[b := []]) \<and> length (ks_procs t) = length (ks_procs s) \<and>
    (\<forall>j. pr t j = (if j \<in> set (cs ! b)
       then (pr s j)\<lparr>heartbeat_wheel_active := False, heartbeat_wheel_bucket := -1\<rparr> else pr s j))"
proof -
  note d = wheel_chainsD [OF w]
  let ?t = "fold detach_one (cs ! b) s1" and ?h = "gl_heartbeat_wheel_heads (ks_global s)"
  have mem: "\<forall>x \<in> set (cs ! b). x < length (ks_procs s1)" using d(6) [OF b] by (auto simp: s1_def)
  have cnt: "int (length (cs ! b)) \<le> gl_heartbeat_count (ks_global s1)"
    using sum_list_update_length [of b cs] d(1,8) b by (simp add: s1_def wheel_set_head_def)
  have f: "pr ?t j = (if j \<in> set (cs ! b)
       then (pr s j)\<lparr>heartbeat_wheel_active := False, heartbeat_wheel_bucket := -1\<rparr> else pr s j)"
    "gl_heartbeat_wheel_heads (ks_global ?t) = ?h[b := 0]"
    "gl_heartbeat_count (ks_global ?t) = gl_heartbeat_count (ks_global s) - int (length (cs ! b))"
    "length (ks_procs ?t) = length (ks_procs s)" for j
    using detach_fold [OF mem cnt] by (simp_all add: s1_def wheel_set_head_def)
  have eq: "tick_detach_loop NPROC (?h ! b) s1 = Some ?t"
    using d(4) [OF b] chain_short [OF w b] mem by (intro tick_detach_fold) (simp_all add: s1_def)
  have path: "wheel_path (\<lambda>j. heartbeat_wheel_next (pr ?t j)) (?h[b := 0] ! c) (cs[b := []] ! c)" if c: "c < 64" for c
  proof (cases "c = b")
    case False
    have "wheel_path (\<lambda>j. heartbeat_wheel_next (pr ?t j)) (?h ! c) (cs ! c) =
        wheel_path (\<lambda>j. heartbeat_wheel_next (pr s j)) (?h ! c) (cs ! c)"
      by (intro wheel_path_cong) (simp add: f(1))
    with False d(4) [OF c] show ?thesis by simp
  qed (use d b in simp)
  have mem': "j \<in> set (cs[b := []] ! c) \<longleftrightarrow> j < length (ks_procs ?t) \<and> heartbeat_wheel_active (pr ?t j)
      \<and> heartbeat_wheel_bucket (pr ?t j) = int c" if c: "c < 64" for c j
    using d(1,2) d(6) [OF c, of j] d(6) [OF b, of j] c b f(1) [of j] f(4) by (cases "c = b") auto
  have rng: "0 \<le> heartbeat_wheel_bucket (pr ?t j) \<and> heartbeat_wheel_bucket (pr ?t j) < 64"
    if "j < length (ks_procs ?t)" "heartbeat_wheel_active (pr ?t j)" for j
    using that f(1) [of j] f(4) d(7) [of j] by (auto split: if_splits)
  have "gl_heartbeat_count (ks_global ?t) = int (sum_list (map length (cs[b := []])))"
    using sum_lengths_update [of b cs "[]"] b d(1,8) f(3) by simp
  moreover have "distinct (cs[b := []] ! c)" if "c < 64" for c
    using d(1) d(5) [OF that] that by (cases "c = b") auto
  ultimately have "wheel_chains ?t (cs[b := []])"
    unfolding wheel_chains_def using path mem' rng d(1-3) f(2,4) by simp
  with eq f(1,4) show ?thesis by blast
qed

lemma tick_wheel_effect:
  assumes inv: "wheel_inv s"
  shows "\<exists>t. tick_wheel now s = Some t \<and> wheel_inv t \<and> length (ks_procs t) = length (ks_procs s) \<and>
    (\<forall>j < length (ks_procs s).
       if heartbeat_wheel_active (pr s j) \<and> heartbeat_wheel_bucket (pr s j) = wheel_bucket_of now
       then off_wheel (pr t j) = off_wheel (fired now j (pr s j)) \<and>
            heartbeat_wheel_active (pr t j) = wheel_eligible (fired now j (pr s j)) \<and>
            (wheel_eligible (fired now j (pr s j)) \<longrightarrow>
               heartbeat_wheel_bucket (pr t j) = wheel_bucket_of (heartbeat_deadline (fired now j (pr s j))))
       else pr t j = pr s j)"
proof -
  obtain cs where w: "wheel_chains s cs" using inv by (auto simp: wheel_inv_def)
  note d = wheel_chainsD [OF w]
  define b where "b = nat (wheel_bucket_of now)"
  have b: "b < 64" "wheel_bucket_of now = int b" using wheel_bucket_range [of now] by (auto simp: b_def)
  let ?h = "gl_heartbeat_wheel_heads (ks_global s) ! b"
  obtain u where u: "tick_detach_loop NPROC ?h (upd_global (wheel_set_head (int b) 0) s) = Some u"
    "wheel_chains u (cs[b := []])" "length (ks_procs u) = length (ks_procs s)"
    "\<forall>j. pr u j = (if j \<in> set (cs ! b)
       then (pr s j)\<lparr>heartbeat_wheel_active := False, heartbeat_wheel_bucket := -1\<rparr> else pr s j)"
    using detach_chains [OF w b(1)] by blast
  have uinv: "wheel_inv u" using u(2) by (auto simp: wheel_inv_def)
  have "wheel_path (\<lambda>j. heartbeat_wheel_next (pr u j)) ?h (cs ! b)"
    using d(4) [OF b(1)] u(4) by (subst wheel_path_cong [of _ _ "\<lambda>j. heartbeat_wheel_next (pr s j)"]) auto
  moreover have "\<forall>x \<in> set (cs ! b). x < length (ks_procs u) \<and> \<not> heartbeat_wheel_active (pr u x)"
    using d(6) [OF b(1)] u(3,4) by auto
  ultimately obtain t where t: "tick_fire_loop NPROC now ?h u = Some t" "wheel_inv t"
    "\<forall>j. j \<notin> set (cs ! b) \<longrightarrow> pr t j = pr u j"
    "\<forall>j \<in> set (cs ! b). off_wheel (pr t j) = off_wheel (fired now j (pr u j)) \<and>
       heartbeat_wheel_active (pr t j) = wheel_eligible (fired now j (pr u j)) \<and>
       (wheel_eligible (fired now j (pr u j)) \<longrightarrow>
          heartbeat_wheel_bucket (pr t j) = wheel_bucket_of (heartbeat_deadline (fired now j (pr u j))))"
    "length (ks_procs t) = length (ks_procs u)"
    using tick_fire_path [OF uinv _ chain_short [OF w b(1)] d(5) [OF b(1)]] by blast
  have fr: "off_wheel (fired now j (p\<lparr>heartbeat_wheel_active := False, heartbeat_wheel_bucket := -1\<rparr>)) = off_wheel (fired now j p)"
    "wheel_eligible (fired now j (p\<lparr>heartbeat_wheel_active := False, heartbeat_wheel_bucket := -1\<rparr>)) = wheel_eligible (fired now j p)"
    "heartbeat_deadline (fired now j (p\<lparr>heartbeat_wheel_active := False, heartbeat_wheel_bucket := -1\<rparr>)) = heartbeat_deadline (fired now j p)" for j p
    by (simp_all add: fired_def heartbeat_due_def wheel_eligible_def agent_signal_event_locked_def Let_def off_wheel_def)
  have "tick_wheel now s = Some t" using u(1) t(1) b(2) by (simp add: tick_wheel_def Let_def)
  moreover have "if heartbeat_wheel_active (pr s j) \<and> heartbeat_wheel_bucket (pr s j) = wheel_bucket_of now
       then off_wheel (pr t j) = off_wheel (fired now j (pr s j)) \<and>
            heartbeat_wheel_active (pr t j) = wheel_eligible (fired now j (pr s j)) \<and>
            (wheel_eligible (fired now j (pr s j)) \<longrightarrow>
               heartbeat_wheel_bucket (pr t j) = wheel_bucket_of (heartbeat_deadline (fired now j (pr s j))))
       else pr t j = pr s j" if j: "j < length (ks_procs s)" for j
  proof (cases "j \<in> set (cs ! b)")
    case True
    with d(6) [OF b(1), of j] b(2) t(4) u(4) show ?thesis by (simp add: fr)
  next
    case False
    with d(6) [OF b(1), of j] b(2) t(3) u(4) j show ?thesis by auto
  qed
  ultimately show ?thesis using t(2,5) u(3) by (intro exI [of _ t]) auto
qed

lemma due_fired:
  assumes "heartbeat_due now p"
  shows "pending_events (fired now j p) = pending_events p OR AGENT_EVENT_HEARTBEAT"
    "\<not> (p_state (fired now j p) = SLEEPING \<and> p_chan (fired now j p) = ChanProc j)"
    "heartbeat_deadline (fired now j p) = now + u64_of_int (heartbeat_interval p)"
    "wheel_eligible (fired now j p) \<longleftrightarrow> now + u64_of_int (heartbeat_interval p) \<noteq> 0"
  using assms by (simp_all add: fired_def heartbeat_due_def wheel_eligible_def agent_signal_event_locked_def Let_def)

text \<open>One entry \<open>p\<close> of the table and what it is after the tick.\<close>

lemma entry_after_tick:
  assumes "if heartbeat_wheel_active p \<and> heartbeat_wheel_bucket p = wheel_bucket_of now
    then off_wheel q = off_wheel (fired now j p) \<and> heartbeat_wheel_active q = wheel_eligible (fired now j p) \<and>
      (wheel_eligible (fired now j p) \<longrightarrow> heartbeat_wheel_bucket q = wheel_bucket_of (heartbeat_deadline (fired now j p)))
    else q = p"
  shows "if heartbeat_wheel_active p \<and> heartbeat_wheel_bucket p = wheel_bucket_of now \<and> heartbeat_due now p
    then pending_events q = pending_events p OR AGENT_EVENT_HEARTBEAT \<and>
      \<not> (p_state q = SLEEPING \<and> p_chan q = ChanProc j) \<and>
      heartbeat_deadline q = now + u64_of_int (heartbeat_interval p) \<and>
      heartbeat_wheel_active q = (heartbeat_deadline q \<noteq> 0) \<and>
      (heartbeat_deadline q = 0 \<or> heartbeat_wheel_bucket q = wheel_bucket_of (heartbeat_deadline q))
    else off_wheel q = off_wheel p"
proof (cases "heartbeat_wheel_active p \<and> heartbeat_wheel_bucket p = wheel_bucket_of now")
  case True
  then have e: "off_wheel q = off_wheel (fired now j p)" "heartbeat_wheel_active q = wheel_eligible (fired now j p)"
    "wheel_eligible (fired now j p) \<longrightarrow> heartbeat_wheel_bucket q = wheel_bucket_of (heartbeat_deadline (fired now j p))"
    using assms by simp_all
  show ?thesis
  proof (cases "heartbeat_due now p")
    case d: True
    from due_fired [OF d, of j] off_wheel_same_fields [OF e(1)] e(2,3) True d show ?thesis by auto
  next
    case False
    with e(1) show ?thesis by (simp add: fired_def)
  qed
next
  case False
  with assms show ?thesis by auto
qed

text \<open>C7 (heartbeat_tick). With a well-formed wheel a tick always ends, keeps the wheel
  well formed, and signals exactly the agents of its bucket whose deadline has come: each gets the
  HEARTBEAT event, is made runnable if it sleeps in its wait, has its next deadline one interval
  later and (unless that is the zero that disarms it) stays on the wheel in the bucket of that
  deadline; no other process gets any event or changes its state.\<close>

theorem heartbeat_tick:
  assumes inv: "wheel_inv s"
  shows "\<exists>t. tick_wheel now s = Some t \<and> wheel_inv t \<and>
    (\<forall>j < length (ks_procs s).
       if heartbeat_wheel_active (pr s j) \<and> heartbeat_wheel_bucket (pr s j) = wheel_bucket_of now \<and> heartbeat_due now (pr s j)
       then pending_events (pr t j) = pending_events (pr s j) OR AGENT_EVENT_HEARTBEAT \<and>
            \<not> (p_state (pr t j) = SLEEPING \<and> p_chan (pr t j) = ChanProc j) \<and>
            heartbeat_deadline (pr t j) = now + u64_of_int (heartbeat_interval (pr s j)) \<and>
            heartbeat_wheel_active (pr t j) = (heartbeat_deadline (pr t j) \<noteq> 0) \<and>
            (heartbeat_deadline (pr t j) = 0 \<or>
               heartbeat_wheel_bucket (pr t j) = wheel_bucket_of (heartbeat_deadline (pr t j)))
       else off_wheel (pr t j) = off_wheel (pr s j))"
proof -
  obtain t where t: "tick_wheel now s = Some t" "wheel_inv t"
    "\<forall>j < length (ks_procs s).
       if heartbeat_wheel_active (pr s j) \<and> heartbeat_wheel_bucket (pr s j) = wheel_bucket_of now
       then off_wheel (pr t j) = off_wheel (fired now j (pr s j)) \<and>
            heartbeat_wheel_active (pr t j) = wheel_eligible (fired now j (pr s j)) \<and>
            (wheel_eligible (fired now j (pr s j)) \<longrightarrow>
               heartbeat_wheel_bucket (pr t j) = wheel_bucket_of (heartbeat_deadline (fired now j (pr s j))))
       else pr t j = pr s j"
    using tick_wheel_effect [OF inv] by blast
  with entry_after_tick show ?thesis by blast
qed

lemma wheel_inv_boot:
  assumes "length ps \<le> NPROC" "\<And>p. p \<in> set ps \<Longrightarrow> \<not> heartbeat_wheel_active p"
  shows "wheel_inv (boot_kst ps)"
proof -
  have "wheel_chains (boot_kst ps) (replicate 64 [])"
    using assms by (auto simp: wheel_chains_def zero_global_def sum_list_replicate)
  then show ?thesis by (auto simp: wheel_inv_def)
qed

definition wit_beating :: proc where
  "wit_beating = zero_proc\<lparr>p_state := SLEEPING, p_chan := ChanProc 0, p_pid := 1, agent_type := 2,
     heartbeat_interval := 5, heartbeat_deadline := 10\<rparr>"

theorem heartbeat_tick_witness:
  "\<exists>s t. agent_heartbeat_wheel_reschedule 0 (boot_kst [wit_beating]) = Some s \<and> tick_wheel 10 s = Some t \<and>
     pending_events (pr t 0) = AGENT_EVENT_HEARTBEAT \<and> heartbeat_deadline (pr t 0) = 15"
proof -
  let ?s0 = "boot_kst [wit_beating]"
  have inv0: "wheel_inv ?s0" by (rule wheel_inv_boot) (simp_all add: wit_beating_def zero_proc_def)
  have el: "wheel_eligible (pr ?s0 0)" "heartbeat_deadline (pr ?s0 0) = 10" "pending_events (pr ?s0 0) = 0"
    "heartbeat_interval (pr ?s0 0) = 5"
    by (simp_all add: wheel_eligible_def wit_beating_def zero_proc_def)
  obtain s where s: "agent_heartbeat_wheel_reschedule 0 ?s0 = Some s" "wheel_inv s"
    "heartbeat_wheel_active (pr s 0)" "heartbeat_wheel_bucket (pr s 0) = wheel_bucket_of 10"
    "off_wheel (pr s 0) = off_wheel (pr ?s0 0)" "off_wheel_kst s = off_wheel_kst ?s0"
    using reschedule_inv [OF inv0, of 0] el by auto
  have len: "length (ks_procs s) = 1" using off_wheel_kstD(8) [OF s(6)] by simp
  have iv: "heartbeat_interval (pr s 0) = 5"
    using arg_cong [OF s(5), of heartbeat_interval] el by (simp add: off_wheel_def)
  have due: "heartbeat_due 10 (pr s 0)"
    using off_wheel_eligible [OF s(5)] off_wheel_same_fields [OF s(5)] el by (simp add: heartbeat_due_def)
  show ?thesis
    using heartbeat_tick [OF s(2), of 10] s due len iv el off_wheel_same_fields [OF s(5)] by auto
qed

end
