(* ===== verification/Workflow.thy ===== *)
theory Workflow
  imports Messaging SlotTable
begin

text \<open>
  The workflow table (kernel/agent.c): finding, creating, joining and leaving a workflow, the
  identity counter, and the cascade that terminates every member; and the metrics that
  kernel/workflow.c aggregates per workflow. The invariant ties the table to the processes:
  keys are unique, a used entry counts exactly the registered processes that carry its key, and
  every registered process has an entry.
\<close>

subsection \<open>Identities\<close>

definition agent_next_identity :: "agent_global_state \<Rightarrow> u64 \<times> agent_global_state" where
  "agent_next_identity g =
     (let g1 = g\<lparr>gl_next_identity_generation := gl_next_identity_generation g + 1\<rparr>
      in if gl_next_identity_generation g1 = 0
         then let g2 = g1\<lparr>gl_next_identity_generation := gl_next_identity_generation g1 + 1\<rparr>
              in (gl_next_identity_generation g2, g2)
         else (gl_next_identity_generation g1, g1))"

lemma agent_next_identity_nonzero: "fst (agent_next_identity g) \<noteq> 0"
  by (simp add: agent_next_identity_def Let_def)

lemma agent_next_identity_frame [simp]:
  "gl_workflows (snd (agent_next_identity g)) = gl_workflows g"
  "gl_leases (snd (agent_next_identity g)) = gl_leases g"
  "gl_heartbeat_wheel_heads (snd (agent_next_identity g)) = gl_heartbeat_wheel_heads g"
  "gl_heartbeat_count (snd (agent_next_identity g)) = gl_heartbeat_count g"
  by (simp_all add: agent_next_identity_def Let_def)

subsection \<open>The workflow table\<close>

definition wf_key :: "agent_workflow \<Rightarrow> u64 \<times> u64" where
  "wf_key w = (wf_workflow_id w, wf_leader_generation w)"

definition agent_workflow_find_locked :: "u64 \<Rightarrow> u64 \<Rightarrow> agent_global_state \<Rightarrow> nat option" where
  "agent_workflow_find_locked wid gen g =
     first_slot (\<lambda>w. wf_used w \<and> wf_workflow_id w = wid \<and> wf_leader_generation w = gen)
       (gl_workflows g)"

definition upd_wf :: "nat \<Rightarrow> (agent_workflow \<Rightarrow> agent_workflow) \<Rightarrow> agent_global_state \<Rightarrow> agent_global_state" where
  "upd_wf k f g = g\<lparr>gl_workflows := upd_slot k f (gl_workflows g)\<rparr>"

definition agent_workflow_create_locked :: "proc \<Rightarrow> agent_global_state \<Rightarrow> int \<times> agent_global_state" where
  "agent_workflow_create_locked p g =
     (case agent_workflow_find_locked (workflow_id p) (workflow_leader_generation p) g of
        Some k \<Rightarrow>
          if wf_state (gl_workflows g ! k) = AGENT_WORKFLOW_TERMINATING then (AGENT_TOOL_ERR_BUSY, g)
          else (AGENT_TOOL_OK, upd_wf k (\<lambda>w. w\<lparr>wf_leader_pid := workflow_leader_pid p,
                  wf_member_count := wf_member_count w + 1\<rparr>) g)
      | None \<Rightarrow>
          (case first_slot (\<lambda>w. \<not> wf_used w) (gl_workflows g) of
             Some k \<Rightarrow> (AGENT_TOOL_OK, upd_wf k (\<lambda>_. zero_workflow\<lparr>wf_used := True,
                  wf_workflow_id := workflow_id p, wf_leader_pid := workflow_leader_pid p,
                  wf_leader_generation := workflow_leader_generation p,
                  wf_state := AGENT_WORKFLOW_ACTIVE, wf_member_count := 1\<rparr>) g)
           | None \<Rightarrow> (AGENT_TOOL_ERR_NO_SPACE, g)))"

definition agent_workflow_join_locked :: "proc \<Rightarrow> agent_global_state \<Rightarrow> int \<times> agent_global_state" where
  "agent_workflow_join_locked p g =
     (if workflow_id p = 0 \<or> workflow_leader_generation p = 0 then (AGENT_TOOL_OK, g)
      else case agent_workflow_find_locked (workflow_id p) (workflow_leader_generation p) g of
        None \<Rightarrow> (AGENT_TOOL_ERR_SERVICE_GONE, g)
      | Some k \<Rightarrow>
          if wf_state (gl_workflows g ! k) = AGENT_WORKFLOW_TERMINATING then (AGENT_TOOL_ERR_BUSY, g)
          else if wf_member_count (gl_workflows g ! k) \<ge> AGENT_WORKFLOW_MEMBER_MAX
          then (AGENT_TOOL_ERR_NO_SPACE, g)
          else (AGENT_TOOL_OK, upd_wf k (\<lambda>w. w\<lparr>wf_member_count := wf_member_count w + 1\<rparr>) g))"

definition agent_workflow_begin_terminate_locked ::
    "u64 \<Rightarrow> u64 \<Rightarrow> u64 \<Rightarrow> agent_global_state \<Rightarrow> int \<times> agent_global_state" where
  "agent_workflow_begin_terminate_locked now wid gen g =
     (case agent_workflow_find_locked wid gen g of
        None \<Rightarrow> (AGENT_TOOL_ERR_SERVICE_GONE, g)
      | Some k \<Rightarrow>
          if wf_state (gl_workflows g ! k) = AGENT_WORKFLOW_TERMINATING then (AGENT_TOOL_OK, g)
          else if wf_state (gl_workflows g ! k) \<noteq> AGENT_WORKFLOW_ACTIVE
          then (AGENT_TOOL_ERR_SERVICE_GONE, g)
          else (AGENT_TOOL_OK, upd_wf k (\<lambda>w. w\<lparr>wf_state := AGENT_WORKFLOW_TERMINATING,
                  wf_terminate_tick := now\<rparr>) g))"

text \<open>One member leaves entry \<open>k\<close>: the count drops, and the entry is cleared with the last one.\<close>

definition workflow_drop_member :: "agent_workflow \<Rightarrow> agent_workflow" where
  "workflow_drop_member w =
     (let w1 = (if wf_member_count w > 0 then w\<lparr>wf_member_count := wf_member_count w - 1\<rparr> else w)
      in if wf_member_count w1 \<le> 0 then zero_workflow else w1)"

definition agent_workflow_leave :: "nat \<Rightarrow> kst \<Rightarrow> kst" where
  "agent_workflow_leave i s =
     (let p = pr s i
      in if \<not> workflow_member_registered p \<or> workflow_id p = 0 \<or> workflow_leader_generation p = 0
         then s
         else let s1 = (case agent_workflow_find_locked (workflow_id p) (workflow_leader_generation p) (ks_global s) of
                          None \<Rightarrow> s
                        | Some k \<Rightarrow> upd_global (upd_wf k workflow_drop_member) s)
              in upd_proc i (\<lambda>p. p\<lparr>workflow_member_registered := False\<rparr>) s1)"

subsection \<open>Cascading termination\<close>

definition cascade_target :: "nat \<Rightarrow> bool \<Rightarrow> u64 \<Rightarrow> u64 \<Rightarrow> nat \<Rightarrow> proc \<Rightarrow> bool" where
  "cascade_target leader include_leader wid gen i p \<longleftrightarrow>
     p_state p \<noteq> UNUSED \<and> agent_type p \<noteq> AGENT_TYPE_NORMAL \<and> workflow_id p = wid \<and>
     workflow_leader_generation p = gen \<and> (include_leader \<or> i \<noteq> leader)"

definition cascade_kill :: "u64 \<Rightarrow> nat \<Rightarrow> proc \<Rightarrow> proc" where
  "cascade_kill now i p =
     (let p1 = p\<lparr>p_killed := True, loop_state := AGENT_LOOP_DONE, heartbeat_interval := 0,
             heartbeat_deadline := 0, watch_mask := 0,
             pending_events := pending_events p OR AGENT_EVENT_PARENT_GONE,
             last_wakeup_reason := AGENT_EVENT_PARENT_GONE, wakeup_tick := now, wait_deadline := 0,
             agent_watch_dev := 0, agent_watch_inum := 0, agent_watch_path := []\<rparr>
      in if p_state p1 = SLEEPING \<and> p_chan p1 = ChanProc i then p1\<lparr>p_state := RUNNABLE\<rparr>
         else if p_state p1 = SLEEPING then p1\<lparr>p_state := RUNNABLE\<rparr> else p1)"

definition agent_cascade_terminate :: "nat option \<Rightarrow> int \<Rightarrow> bool \<Rightarrow> kst \<Rightarrow> int \<times> kst" where
  "agent_cascade_terminate leader reason include_leader s =
     (case leader of
        None \<Rightarrow> (AGENT_TOOL_ERR_NOT_AGENT, s)
      | Some l \<Rightarrow>
          let p = pr s l; now = agent_now_safe s
          in if agent_type p = AGENT_TYPE_NORMAL then (AGENT_TOOL_ERR_NOT_AGENT, s)
             else if \<not> is_workflow_leader p \<and> agent_capabilities p AND AGENT_CAP_WORKFLOW_CTRL = 0
             then (AGENT_TOOL_ERR_PERMISSION, s)
             else if workflow_id p = 0 \<or> workflow_leader_generation p = 0
             then (AGENT_TOOL_ERR_BAD_PARAM, s)
             else
               let wid = workflow_id p; gen = workflow_leader_generation p;
                   (ret, g) = agent_workflow_begin_terminate_locked now wid gen (ks_global s);
                   s1 = upd_global (\<lambda>_. g) s
               in if ret \<noteq> AGENT_TOOL_OK \<and> ret \<noteq> AGENT_TOOL_ERR_SERVICE_GONE then (ret, s1)
                  else
                    let s2 = s1\<lparr>ks_log := ks_log s1 @ Terminating wid (workflow_leader_pid p) reason #
                              [CascadeKilled (p_pid (pr s1 i)) (agent_role (pr s1 i)).
                                i \<leftarrow> [0..<length (ks_procs s1)],
                                cascade_target l include_leader wid gen i (pr s1 i)]\<rparr>
                    in (AGENT_TOOL_OK,
                        for_procs_idx (cascade_target l include_leader wid gen) (cascade_kill now) s2))"

subsection \<open>Workflow metrics (kernel/workflow.c)\<close>

definition workflow_find_locked :: "proc \<Rightarrow> agent_global_state \<Rightarrow> nat option" where
  "workflow_find_locked p g =
     (if workflow_id p = 0 \<or> workflow_leader_generation p = 0 then None
      else first_slot (\<lambda>w. wf_used w \<and> wf_workflow_id w = workflow_id p \<and>
             wf_leader_generation w = workflow_leader_generation p) (gl_workflows g))"

definition upd_metrics :: "(agent_workflow_metrics \<Rightarrow> agent_workflow_metrics) \<Rightarrow> nat \<Rightarrow> kst \<Rightarrow> kst" where
  "upd_metrics f i s =
     (case workflow_find_locked (pr s i) (ks_global s) of
        None \<Rightarrow> s
      | Some k \<Rightarrow> upd_global (upd_wf k (\<lambda>w. w\<lparr>wf_metrics := f (wf_metrics w)\<rparr>)) s)"

definition agent_workflow_metric_syscall :: "nat \<Rightarrow> kst \<Rightarrow> kst" where
  "agent_workflow_metric_syscall = upd_metrics (\<lambda>m. m\<lparr>wm_syscalls := wm_syscalls m + 1\<rparr>)"

definition agent_workflow_metric_tool_call :: "bool \<Rightarrow> nat \<Rightarrow> kst \<Rightarrow> kst" where
  "agent_workflow_metric_tool_call query_file = upd_metrics (\<lambda>m.
     let m1 = m\<lparr>wm_tool_calls := wm_tool_calls m + 1\<rparr>
     in if query_file then m1\<lparr>wm_query_file_calls := wm_query_file_calls m1 + 1\<rparr> else m1)"

definition agent_workflow_metric_query :: "u64 \<Rightarrow> u64 \<Rightarrow> bool \<Rightarrow> nat \<Rightarrow> kst \<Rightarrow> kst" where
  "agent_workflow_metric_query files_scanned index_scanned cache_hit = upd_metrics (\<lambda>m.
     let m1 = m\<lparr>wm_files_scanned := wm_files_scanned m + files_scanned,
                wm_index_scanned := wm_index_scanned m + index_scanned\<rparr>
     in if cache_hit
        then m1\<lparr>wm_cache_hits := wm_cache_hits m1 + 1,
                wm_duplicate_queries := wm_duplicate_queries m1 + 1\<rparr>
        else m1\<lparr>wm_cache_misses := wm_cache_misses m1 + 1\<rparr>)"

definition agent_workflow_metric_file_read :: "u64 \<Rightarrow> nat \<Rightarrow> kst \<Rightarrow> kst" where
  "agent_workflow_metric_file_read bytes_read = upd_metrics (\<lambda>m.
     m\<lparr>wm_files_read := wm_files_read m + 1, wm_bytes_read := wm_bytes_read m + bytes_read\<rparr>)"

definition agent_workflow_metric_wait :: "u64 \<Rightarrow> bool \<Rightarrow> nat \<Rightarrow> kst \<Rightarrow> kst" where
  "agent_workflow_metric_wait wait_ticks message_received = upd_metrics (\<lambda>m.
     let m1 = m\<lparr>wm_wait_calls := wm_wait_calls m + 1, wm_wait_ticks := wm_wait_ticks m + wait_ticks\<rparr>
     in if message_received then m1\<lparr>wm_messages_received := wm_messages_received m1 + 1\<rparr> else m1)"

definition agent_workflow_metrics_get :: "nat \<Rightarrow> kst \<Rightarrow> int + agent_workflow_metrics" where
  "agent_workflow_metrics_get i s =
     (if agent_type (pr s i) = AGENT_TYPE_NORMAL then Inl AGENT_TOOL_ERR_NOT_AGENT
      else case workflow_find_locked (pr s i) (ks_global s) of
        None \<Rightarrow> Inl AGENT_TOOL_ERR_SERVICE_GONE
      | Some k \<Rightarrow> Inr (wf_metrics (gl_workflows (ks_global s) ! k)))"

subsection \<open>The table and the processes agree\<close>

text \<open>What the table has to know of a process: whether it is registered, and its key.\<close>

definition member_tag :: "proc \<Rightarrow> bool \<times> u64 \<times> u64" where
  "member_tag p = (workflow_member_registered p, workflow_id p, workflow_leader_generation p)"

definition members :: "u64 \<times> u64 \<Rightarrow> (bool \<times> u64 \<times> u64) list \<Rightarrow> nat" where
  "members k ts = length (filter (\<lambda>t. t = (True, k)) ts)"

definition entry_ok :: "(bool \<times> u64 \<times> u64) list \<Rightarrow> agent_workflow \<Rightarrow> bool" where
  "entry_ok ts w \<longleftrightarrow>
     (wf_state w = AGENT_WORKFLOW_ACTIVE \<or> wf_state w = AGENT_WORKFLOW_TERMINATING) \<and>
     wf_workflow_id w \<noteq> 0 \<and> wf_leader_generation w \<noteq> 0 \<and>
     1 \<le> wf_member_count w \<and> wf_member_count w = int (members (wf_key w) ts)"

definition workflow_ok :: "(bool \<times> u64 \<times> u64) list \<Rightarrow> agent_workflow list \<Rightarrow> bool" where
  "workflow_ok ts ws \<longleftrightarrow>
     uniq_keys wf_used wf_key ws \<and>
     (\<forall>w \<in> set ws. wf_used w \<longrightarrow> entry_ok ts w) \<and>
     (\<forall>k. (True, k) \<in> set ts \<longrightarrow> find_key wf_used wf_key k ws \<noteq> None)"

definition workflow_inv :: "kst \<Rightarrow> bool" where
  "workflow_inv s \<longleftrightarrow> workflow_ok (map member_tag (ks_procs s)) (gl_workflows (ks_global s))"

lemma wf_key_zero [simp]: "\<not> wf_used zero_workflow"
  by (simp add: zero_workflow_def)

interpretation wft: slot_table wf_used wf_key zero_workflow
  by unfold_locales simp

lemma workflow_find_key:
  "agent_workflow_find_locked wid gen g = find_key wf_used wf_key (wid, gen) (gl_workflows g)"
  by (simp add: agent_workflow_find_locked_def find_key_def wf_key_def)

lemma workflow_find_locked_key:
  "workflow_find_locked p g = (if workflow_id p = 0 \<or> workflow_leader_generation p = 0 then None
     else find_key wf_used wf_key (workflow_id p, workflow_leader_generation p) (gl_workflows g))"
  by (simp add: workflow_find_locked_def find_key_def wf_key_def)

lemma members_simps [simp]:
  "members k [] = 0" "members k (t # ts) = (if t = (True, k) then 1 else 0) + members k ts"
  by (simp_all add: members_def)

lemma members_update:
  "i < length ts \<Longrightarrow> int (members k (ts[i := t])) =
     int (members k ts) - (if ts ! i = (True, k) then 1 else 0) + (if t = (True, k) then 1 else 0)"
proof (induction ts arbitrary: i)
  case Nil
  then show ?case by simp
next
  case (Cons a ts)
  show ?case
  proof (cases i)
    case 0
    then show ?thesis by simp
  next
    case (Suc n)
    with Cons.prems Cons.IH [of n] show ?thesis by simp
  qed
qed

lemma members_pos: "(True, k) \<in> set ts \<Longrightarrow> 1 \<le> members k ts"
  unfolding members_def by (induction ts) auto

lemma workflow_ok_entry:
  "workflow_ok ts ws \<Longrightarrow> find_key wf_used wf_key k ws = Some j \<Longrightarrow>
     j < length ws \<and> wf_used (ws ! j) \<and> wf_key (ws ! j) = k \<and>
     (wf_state (ws ! j) = 1 \<or> wf_state (ws ! j) = 2) \<and> fst k \<noteq> 0 \<and> snd k \<noteq> 0 \<and>
     1 \<le> wf_member_count (ws ! j) \<and> wf_member_count (ws ! j) = int (members k ts)"
  using find_keyD [of wf_used wf_key k ws j] nth_mem [of j ws]
  unfolding workflow_ok_def entry_ok_def wf_key_def by fastforce

lemma workflow_ok_fresh:
  "workflow_ok ts ws \<Longrightarrow> find_key wf_used wf_key k ws = None \<Longrightarrow> members k ts = 0"
proof -
  assume "workflow_ok ts ws" "find_key wf_used wf_key k ws = None"
  then have "(True, k) \<notin> set ts" unfolding workflow_ok_def by blast
  then show "members k ts = 0" by (auto simp: members_def filter_empty_conv)
qed

lemma workflow_ok_found:
  assumes "workflow_ok ts ws" "(True, k) \<in> set ts"
  obtains j where "find_key wf_used wf_key k ws = Some j"
  using assms unfolding workflow_ok_def by blast

text \<open>The tags of other keys keep their counts, so entry \<open>j\<close> is all there is to check when the
  tag of one process and one entry change together.\<close>

lemma workflow_ok_modify:
  assumes ok: "workflow_ok ts ws" and j: "j < length ws" "wf_used (ws ! j) \<Longrightarrow> wf_key (ws ! j) = k"
    "\<not> wf_used (ws ! j) \<Longrightarrow> find_key wf_used wf_key k ws = None"
    and i: "i < length ts" and old: "ts ! i = (True, k) \<or> \<not> fst (ts ! i)"
    and new: "t = (True, k) \<or> \<not> fst t"
    and w: "wf_used w" "wf_key w = k" "wf_state w = 1 \<or> wf_state w = 2" "fst k \<noteq> 0" "snd k \<noteq> 0"
      "1 \<le> wf_member_count w" "wf_member_count w = int (members k (ts[i := t]))"
  shows "workflow_ok (ts[i := t]) (ws[j := w])"
proof -
  have u: "uniq_keys wf_used wf_key ws" using ok by (simp add: workflow_ok_def)
  have other: "members k' (ts[i := t]) = members k' ts" if "k' \<noteq> k" for k'
    using members_update [OF i, of k' t] old new that by (cases t; cases "ts ! i") (auto split: if_splits)
  have nokey: "wf_key (ws ! l) \<noteq> k" if "l < length ws" "wf_used (ws ! l)" "l \<noteq> j" for l
    using that j find_key_None uniq_keysD [OF u that(1) j(1) that(2)] by metis
  have uniq: "uniq_keys wf_used wf_key (ws[j := w])"
    using u nokey w by (intro uniq_keys_insert) auto
  have entry: "entry_ok (ts[i := t]) x"
    if x: "x \<in> set (ws[j := w])" "wf_used x" for x
  proof -
    obtain l where l: "l < length ws" "x = ws[j := w] ! l" using x by (auto simp: in_set_conv_nth)
    show ?thesis
    proof (cases "l = j")
      case True
      with l j w show ?thesis by (auto simp: entry_ok_def wf_key_def)
    next
      case False
      with l have "x = ws ! l" by simp
      with False l x(2) nokey other ok nth_mem [OF l(1)] show ?thesis by (auto simp: workflow_ok_def entry_ok_def)
    qed
  qed
  have found: "find_key wf_used wf_key k' (ws[j := w]) \<noteq> None" if "(True, k') \<in> set (ts[i := t])" for k'
  proof (cases "k' = k")
    case True
    with find_key_uniq [OF uniq, of j k] w j show ?thesis by simp
  next
    case False
    have "(True, k') \<in> set ts"
      using that False new set_update_subset_insert [of ts i t] by auto
    then obtain l where l: "find_key wf_used wf_key k' ws = Some l"
      by (rule workflow_ok_found [OF ok])
    note d = find_keyD [OF l]
    have "l \<noteq> j" using d j(2) False by auto
    with find_key_uniq [OF uniq, of l k'] d show ?thesis by simp
  qed
  show ?thesis unfolding workflow_ok_def using uniq entry found by blast
qed

lemma workflow_ok_drop:
  assumes ok: "workflow_ok ts ws" and j: "find_key wf_used wf_key k ws = Some j"
    and i: "i < length ts" "ts ! i = (True, k)" and new: "\<not> fst t"
    and last: "members k ts = 1"
  shows "workflow_ok (ts[i := t]) (ws[j := zero_workflow])"
proof -
  have u: "uniq_keys wf_used wf_key ws" using ok by (simp add: workflow_ok_def)
  note d = find_keyD [OF j]
  have u': "uniq_keys wf_used wf_key (ws[j := zero_workflow])" by (rule wft.uniq_clear [OF u])
  have cnt: "members k' (ts[i := t]) = (if k' = k then 0 else members k' ts)" for k'
    using members_update [OF i(1), of k' t] i(2) new last by (cases t) (auto split: if_splits)
  have none: "(True, k) \<notin> set (ts[i := t])" using members_pos [of k "ts[i := t]"] cnt [of k] by auto
  have entry: "entry_ok (ts[i := t]) x"
    if x: "x \<in> set (ws[j := zero_workflow])" "wf_used x" for x
  proof -
    obtain l where l: "l < length ws" "x = ws ! l" "l \<noteq> j"
      using x d by (auto simp: in_set_conv_nth nth_list_update_if split: if_splits)
    have "wf_key x \<noteq> k" using l x d uniq_keysD [OF u l(1), of j] by auto
    with cnt x(2) l ok nth_mem [OF l(1)] show ?thesis by (auto simp: workflow_ok_def entry_ok_def)
  qed
  have found: "find_key wf_used wf_key k' (ws[j := zero_workflow]) \<noteq> None"
    if t': "(True, k') \<in> set (ts[i := t])" for k'
  proof -
    have k': "k' \<noteq> k" using t' none by auto
    have "(True, k') \<in> set ts" using t' new set_update_subset_insert [of ts i t] by auto
    then obtain l where l: "find_key wf_used wf_key k' ws = Some l"
      by (rule workflow_ok_found [OF ok])
    note e = find_keyD [OF l]
    have "l \<noteq> j" using e d k' by auto
    with find_key_uniq [OF u', of l k'] e show ?thesis by simp
  qed
  show ?thesis unfolding workflow_ok_def using u' entry found by blast
qed

text \<open>\<open>acquire(&agent_global.lock); if(op(p) == AGENT_TOOL_OK) p->workflow_member_registered = 1;\<close>:
  the registration step that agent creation and fork share.\<close>

definition workflow_register :: "(proc \<Rightarrow> agent_global_state \<Rightarrow> int \<times> agent_global_state) \<Rightarrow> nat \<Rightarrow> kst \<Rightarrow> int \<times> kst" where
  "workflow_register opn i s =
     (let (r, g) = opn (pr s i) (ks_global s); s1 = upd_global (\<lambda>_. g) s
      in (r, if r = AGENT_TOOL_OK then upd_proc i (\<lambda>p. p\<lparr>workflow_member_registered := True\<rparr>) s1 else s1))"

lemma upd_wf_workflows [simp]: "gl_workflows (upd_wf k f g) = upd_slot k f (gl_workflows g)"
  by (simp add: upd_wf_def)

lemma upd_wf_frame [frame_simps]:
  "gl_leases (upd_wf k f g) = gl_leases g"
  "gl_heartbeat_wheel_heads (upd_wf k f g) = gl_heartbeat_wheel_heads g"
  "gl_heartbeat_count (upd_wf k f g) = gl_heartbeat_count g"
  "gl_next_identity_generation (upd_wf k f g) = gl_next_identity_generation g"
  "gl_next_lease_id (upd_wf k f g) = gl_next_lease_id g"
  by (simp_all add: upd_wf_def)

lemma map_member_tag_upd:
  "map member_tag (ks_procs (upd_proc i f s)) = (map member_tag (ks_procs s))[i := member_tag (f (pr s i))]"
  by (simp add: upd_proc_def map_update)

lemma workflow_inv_cong:
  "gl_workflows (ks_global t) = gl_workflows (ks_global s) \<Longrightarrow>
   map member_tag (ks_procs t) = map member_tag (ks_procs s) \<Longrightarrow> workflow_inv t = workflow_inv s"
  by (simp add: workflow_inv_def)

lemma workflow_inv_upd_proc:
  assumes "workflow_inv s" "i < length (ks_procs s) \<Longrightarrow> member_tag (f (pr s i)) = member_tag (pr s i)"
  shows "workflow_inv (upd_proc i f s)"
proof -
  have "map member_tag (ks_procs (upd_proc i f s)) = map member_tag (ks_procs s)"
    using assms(2) unfolding map_member_tag_upd
    by (metis length_map list_update_beyond list_update_id not_le_imp_less nth_map)
  with assms(1) show ?thesis by (simp add: workflow_inv_def)
qed

lemma workflow_inv_upd_global:
  "workflow_inv s \<Longrightarrow> gl_workflows (f (ks_global s)) = gl_workflows (ks_global s) \<Longrightarrow>
   workflow_inv (upd_global f s)"
  by (simp add: workflow_inv_def)

lemma workflow_inv_for_procs:
  "workflow_inv s \<Longrightarrow> (\<And>p. member_tag (f p) = member_tag p) \<Longrightarrow> workflow_inv (for_procs P f s)"
  by (subst workflow_inv_cong) (auto simp: for_procs_def map_slots_def)

lemma workflow_inv_for_procs_idx:
  assumes "workflow_inv s" "\<And>i p. member_tag (f i p) = member_tag p"
  shows "workflow_inv (for_procs_idx P f s)"
proof -
  have "map member_tag (ks_procs (for_procs_idx P f s)) = map member_tag (ks_procs s)"
    using assms(2) by (intro nth_equalityI) (auto simp: pr_for_procs_idx)
  with assms(1) show ?thesis by (simp add: workflow_inv_def)
qed

lemma workflow_inv_log [simp]: "workflow_inv (s\<lparr>ks_log := l\<rparr>) = workflow_inv s"
  by (simp add: workflow_inv_def)

lemma workflow_inv_boot: "(\<And>p. p \<in> set ps \<Longrightarrow> \<not> workflow_member_registered p) \<Longrightarrow> workflow_inv (boot_kst ps)"
  by (auto simp: workflow_inv_def workflow_ok_def member_tag_def zero_global_def zero_workflow_def uniq_keys_def)

subsection \<open>The operations keep the table in agreement\<close>

lemma upd_slot_eq: "upd_slot j f xs = xs[j := f (xs ! j)]"
  by (simp add: upd_slot_def)

lemma workflow_register_frame:
  "(workflow_register opn i s) = (r, t) \<Longrightarrow>
     length (ks_procs t) = length (ks_procs s) \<and> (\<forall>j. j \<noteq> i \<longrightarrow> pr t j = pr s j) \<and>
     ks_log t = ks_log s \<and> ks_ticks t = ks_ticks s"
  by (auto simp: workflow_register_def Let_def case_prod_beta split: if_splits)

lemma register_step:
  assumes inv: "workflow_inv s" and i: "i < length (ks_procs s)"
    and un: "\<not> workflow_member_registered (pr s i)"
    and k: "(workflow_id (pr s i), workflow_leader_generation (pr s i)) = k" "fst k \<noteq> 0" "snd k \<noteq> 0"
    and j: "j < length (gl_workflows (ks_global s))"
      "wf_used (gl_workflows (ks_global s) ! j) \<Longrightarrow> wf_key (gl_workflows (ks_global s) ! j) = k"
      "\<not> wf_used (gl_workflows (ks_global s) ! j) \<Longrightarrow>
         find_key wf_used wf_key k (gl_workflows (ks_global s)) = None"
    and w: "wf_used w" "wf_key w = k" "wf_state w = 1 \<or> wf_state w = 2"
      "wf_member_count w = int (members k (map member_tag (ks_procs s))) + 1"
    and t: "ks_procs t = ks_procs s" "gl_workflows (ks_global t) = (gl_workflows (ks_global s))[j := w]"
  shows "workflow_inv (upd_proc i (\<lambda>p. p\<lparr>workflow_member_registered := True\<rparr>) t)"
proof -
  let ?ts = "map member_tag (ks_procs s)"
  have old: "\<not> fst (?ts ! i)" using un i by (simp add: member_tag_def)
  have i': "i < length ?ts" using i by simp
  have "?ts ! i \<noteq> (True, k)" using old by (cases "?ts ! i") auto
  with members_update [OF i', of k "(True, k)"]
  have cnt: "int (members k (?ts[i := (True, k)])) = int (members k ?ts) + 1"
    by simp
  have "workflow_ok (?ts[i := (True, k)]) ((gl_workflows (ks_global s))[j := w])"
    using inv j i old w k cnt by (intro workflow_ok_modify) (auto simp: workflow_inv_def)
  moreover have "map member_tag (ks_procs (upd_proc i (\<lambda>p. p\<lparr>workflow_member_registered := True\<rparr>) t)) = ?ts[i := (True, k)]"
    using k(1) t(1) by (simp add: map_member_tag_upd member_tag_def)
  ultimately show ?thesis using t by (simp add: workflow_inv_def)
qed

lemma create_inv:
  assumes inv: "workflow_inv s" and i: "i < length (ks_procs s)"
    and un: "\<not> workflow_member_registered (pr s i)"
    and k: "workflow_id (pr s i) \<noteq> 0" "workflow_leader_generation (pr s i) \<noteq> 0"
  shows "workflow_inv (snd (workflow_register agent_workflow_create_locked i s))"
proof -
  let ?k = "(workflow_id (pr s i), workflow_leader_generation (pr s i))"
  let ?ws = "gl_workflows (ks_global s)"
  have ok: "workflow_ok (map member_tag (ks_procs s)) ?ws" using inv by (simp add: workflow_inv_def)
  show ?thesis
  proof (cases "find_key wf_used wf_key ?k ?ws")
    case (Some j)
    note e = workflow_ok_entry [OF ok Some]
    show ?thesis
    proof (cases "wf_state (?ws ! j) = 2")
      case True
      with Some inv show ?thesis
        by (simp add: workflow_register_def agent_workflow_create_locked_def workflow_find_key workflow_inv_def)
    next
      case False
      with Some e inv i un k show ?thesis
        unfolding workflow_register_def agent_workflow_create_locked_def workflow_find_key
        by (simp add: Let_def)
          (rule register_step [where j = j and s = s and k = ?k], auto simp: upd_slot_eq wf_key_def)
    qed
  next
    case None
    show ?thesis
    proof (cases "first_slot (\<lambda>w. \<not> wf_used w) ?ws")
      case none: None
      with None inv show ?thesis
        by (simp add: workflow_register_def agent_workflow_create_locked_def workflow_find_key workflow_inv_def)
    next
      case (Some j)
      note f = first_slot_less [OF Some] first_slot_holds [OF Some]
      have "members ?k (map member_tag (ks_procs s)) = 0" by (rule workflow_ok_fresh [OF ok None])
      with None Some f inv i un k show ?thesis
        unfolding workflow_register_def agent_workflow_create_locked_def workflow_find_key
        by (simp add: Let_def)
          (rule register_step [where j = j and s = s and k = ?k], auto simp: upd_slot_eq wf_key_def)
    qed
  qed
qed

lemma join_inv:
  assumes inv: "workflow_inv s" and i: "i < length (ks_procs s)"
    and un: "\<not> workflow_member_registered (pr s i)"
    and k: "workflow_id (pr s i) \<noteq> 0" "workflow_leader_generation (pr s i) \<noteq> 0"
  shows "workflow_inv (snd (workflow_register agent_workflow_join_locked i s))"
proof -
  let ?k = "(workflow_id (pr s i), workflow_leader_generation (pr s i))"
  let ?ws = "gl_workflows (ks_global s)"
  have ok: "workflow_ok (map member_tag (ks_procs s)) ?ws" using inv by (simp add: workflow_inv_def)
  show ?thesis
  proof (cases "find_key wf_used wf_key ?k ?ws")
    case None
    with inv k show ?thesis
      by (simp add: workflow_register_def agent_workflow_join_locked_def workflow_find_key workflow_inv_def)
  next
    case (Some j)
    note e = workflow_ok_entry [OF ok Some]
    show ?thesis
    proof (cases "wf_state (?ws ! j) = 2 \<or> wf_member_count (?ws ! j) \<ge> 64")
      case True
      with Some inv k show ?thesis
        by (auto simp: workflow_register_def agent_workflow_join_locked_def workflow_find_key workflow_inv_def Let_def)
    next
      case False
      with Some e inv i un k show ?thesis
        unfolding workflow_register_def agent_workflow_join_locked_def workflow_find_key
        by (simp add: Let_def)
          (rule register_step [where j = j and s = s and k = ?k], auto simp: upd_slot_eq wf_key_def)
    qed
  qed
qed

lemma leave_inv:
  assumes inv: "workflow_inv s" and i: "i < length (ks_procs s)"
  shows "workflow_inv (agent_workflow_leave i s)"
proof (cases "workflow_member_registered (pr s i) \<and> workflow_id (pr s i) \<noteq> 0 \<and> workflow_leader_generation (pr s i) \<noteq> 0")
  case False
  with inv show ?thesis by (auto simp: agent_workflow_leave_def Let_def)
next
  case True
  let ?k = "(workflow_id (pr s i), workflow_leader_generation (pr s i))"
  let ?ws = "gl_workflows (ks_global s)" and ?ts = "map member_tag (ks_procs s)"
  let ?t = "(False, ?k)"
  have ok: "workflow_ok ?ts ?ws" using inv by (simp add: workflow_inv_def)
  have i': "i < length ?ts" and at: "?ts ! i = (True, ?k)" using i True by (simp_all add: member_tag_def)
  have "(True, ?k) \<in> set ?ts" using at i' nth_mem by metis
  then obtain j where j: "find_key wf_used wf_key ?k ?ws = Some j" by (rule workflow_ok_found [OF ok])
  note e = workflow_ok_entry [OF ok j]
  have cnt: "int (members ?k (?ts[i := ?t])) = int (members ?k ?ts) - 1"
    using members_update [OF i', of ?k ?t] at by simp
  have tags: "map member_tag (ks_procs (agent_workflow_leave i s)) = ?ts[i := ?t]"
    using True j by (simp add: agent_workflow_leave_def workflow_find_key Let_def map_member_tag_upd member_tag_def)
  have glob: "gl_workflows (ks_global (agent_workflow_leave i s)) = ?ws[j := workflow_drop_member (?ws ! j)]"
    using True j by (simp add: agent_workflow_leave_def workflow_find_key Let_def upd_slot_eq)
  show ?thesis
  proof (cases "members ?k ?ts = 1")
    case last: True
    then have "workflow_drop_member (?ws ! j) = zero_workflow"
      using e by (simp add: workflow_drop_member_def Let_def)
    with workflow_ok_drop [OF ok j i' at _ last, of ?t] tags glob show ?thesis
      by (simp add: workflow_inv_def)
  next
    case False
    with e have drop: "workflow_drop_member (?ws ! j) = (?ws ! j)\<lparr>wf_member_count := wf_member_count (?ws ! j) - 1\<rparr>"
      by (simp add: workflow_drop_member_def Let_def)
    have "workflow_ok (?ts[i := ?t]) (?ws[j := workflow_drop_member (?ws ! j)])"
      using ok e i' at cnt False unfolding drop
      by (intro workflow_ok_modify [where k = ?k]) (auto simp: wf_key_def)
    with tags glob show ?thesis by (simp add: workflow_inv_def)
  qed
qed

text \<open>Rewriting an entry without touching its key, state class or count.\<close>

lemma workflow_ok_same_entry:
  assumes ok: "workflow_ok ts ws" and j: "find_key wf_used wf_key k ws = Some j"
    and w: "wf_used w" "wf_key w = k" "wf_state w = 1 \<or> wf_state w = 2"
      "wf_member_count w = wf_member_count (ws ! j)"
  shows "workflow_ok ts (ws[j := w])"
proof -
  note e = workflow_ok_entry [OF ok j]
  have u: "uniq_keys wf_used wf_key (ws[j := w])"
    using ok e w by (intro uniq_keys_update_same) (auto simp: workflow_ok_def)
  have found: "find_key wf_used wf_key k' (ws[j := w]) \<noteq> None" if "(True, k') \<in> set ts" for k'
  proof -
    obtain l where "find_key wf_used wf_key k' ws = Some l" by (rule workflow_ok_found [OF ok \<open>(True, k') \<in> set ts\<close>])
    note d = find_keyD [OF this]
    then have "wf_used (ws[j := w] ! l) \<and> wf_key (ws[j := w] ! l) = k'"
      using e w by (cases "l = j") auto
    with find_key_uniq [OF u, of l k'] d show ?thesis by simp
  qed
  have "entry_ok ts w" using e w by (auto simp: entry_ok_def wf_key_def)
  moreover have "x \<in> set (ws[j := w]) \<Longrightarrow> x = w \<or> x \<in> set ws" for x
    using set_update_subset_insert [of ws j w] by auto
  ultimately have "entry_ok ts x" if "x \<in> set (ws[j := w])" "wf_used x" for x
    using that ok unfolding workflow_ok_def by blast
  with u found show ?thesis unfolding workflow_ok_def by blast
qed

lemma begin_terminate_inv:
  assumes "workflow_inv s"
  shows "workflow_inv (upd_global (\<lambda>_. snd (agent_workflow_begin_terminate_locked now wid gen (ks_global s))) s)"
proof (cases "find_key wf_used wf_key (wid, gen) (gl_workflows (ks_global s))")
  case None
  with assms show ?thesis
    by (simp add: agent_workflow_begin_terminate_locked_def workflow_find_key workflow_inv_def)
next
  case (Some j)
  have ok: "workflow_ok (map member_tag (ks_procs s)) (gl_workflows (ks_global s))"
    using assms by (simp add: workflow_inv_def)
  note e = workflow_ok_entry [OF ok Some]
  show ?thesis
    using ok Some e
    by (auto simp: agent_workflow_begin_terminate_locked_def workflow_find_key workflow_inv_def upd_slot_eq
        wf_key_def intro!: workflow_ok_same_entry [OF ok Some])
qed

lemma cascade_kill_tag [simp]: "member_tag (cascade_kill now i p) = member_tag p"
  by (simp add: cascade_kill_def member_tag_def Let_def)

lemma cascade_inv:
  assumes "workflow_inv s"
  shows "workflow_inv (snd (agent_cascade_terminate l reason incl s))"
  using assms begin_terminate_inv [OF assms]
  by (auto simp: agent_cascade_terminate_def Let_def case_prod_beta split: option.splits
      intro!: workflow_inv_for_procs_idx)

lemma upd_metrics_inv:
  assumes "workflow_inv s"
  shows "workflow_inv (upd_metrics f i s)"
proof (cases "workflow_find_locked (pr s i) (ks_global s)")
  case None
  with assms show ?thesis by (simp add: upd_metrics_def)
next
  case (Some j)
  have ok: "workflow_ok (map member_tag (ks_procs s)) (gl_workflows (ks_global s))"
    using assms by (simp add: workflow_inv_def)
  let ?k = "(workflow_id (pr s i), workflow_leader_generation (pr s i))"
  have j: "find_key wf_used wf_key ?k (gl_workflows (ks_global s)) = Some j"
    using Some by (simp add: workflow_find_locked_key split: if_splits)
  note e = workflow_ok_entry [OF ok j]
  from e ok Some show ?thesis
    by (auto simp: upd_metrics_def workflow_inv_def upd_slot_eq wf_key_def intro!: workflow_ok_same_entry [OF ok j])
qed

lemma upd_metrics_frame [simp]:
  "ks_procs (upd_metrics f i s) = ks_procs s" "ks_ticks (upd_metrics f i s) = ks_ticks s"
  "ks_freelist (upd_metrics f i s) = ks_freelist s" "ks_log (upd_metrics f i s) = ks_log s"
  "gl_leases (ks_global (upd_metrics f i s)) = gl_leases (ks_global s)"
  "gl_heartbeat_wheel_heads (ks_global (upd_metrics f i s)) = gl_heartbeat_wheel_heads (ks_global s)"
  by (simp_all add: upd_metrics_def frame_simps split: option.splits)

subsection \<open>What a cascade does\<close>

lemma begin_terminate_state:
  assumes "workflow_inv s" "agent_workflow_begin_terminate_locked now wid gen (ks_global s) = (r, g)"
  shows "(r = AGENT_TOOL_OK \<or> r = AGENT_TOOL_ERR_SERVICE_GONE) \<and>
    (\<forall>k. agent_workflow_find_locked wid gen g = Some k \<longrightarrow> wf_state (gl_workflows g ! k) = AGENT_WORKFLOW_TERMINATING)"
proof (cases "find_key wf_used wf_key (wid, gen) (gl_workflows (ks_global s))")
  case None
  with assms(2) show ?thesis
    by (auto simp: agent_workflow_begin_terminate_locked_def workflow_find_key)
next
  case (Some j)
  have ok: "workflow_ok (map member_tag (ks_procs s)) (gl_workflows (ks_global s))"
    using assms(1) by (simp add: workflow_inv_def)
  note e = workflow_ok_entry [OF ok Some]
  let ?w = "(gl_workflows (ks_global s) ! j)\<lparr>wf_state := AGENT_WORKFLOW_TERMINATING, wf_terminate_tick := now\<rparr>"
  have u: "uniq_keys wf_used wf_key ((gl_workflows (ks_global s))[j := ?w])"
    using ok e by (intro uniq_keys_update_same) (auto simp: workflow_ok_def wf_key_def)
  have "find_key wf_used wf_key (wid, gen) ((gl_workflows (ks_global s))[j := ?w]) = Some j"
    using find_key_uniq [OF u, of j "(wid, gen)"] e by (simp add: wf_key_def)
  with assms(2) Some e show ?thesis
    by (auto simp: agent_workflow_begin_terminate_locked_def workflow_find_key upd_slot_eq split: if_splits)
qed

lemma cascade_kill_effect:
  "p_killed (cascade_kill now i p)" "loop_state (cascade_kill now i p) = AGENT_LOOP_DONE"
  "p_state (cascade_kill now i p) \<noteq> SLEEPING"
  "pending_events (cascade_kill now i p) = pending_events p OR AGENT_EVENT_PARENT_GONE"
  "heartbeat_interval (cascade_kill now i p) = 0" "watch_mask (cascade_kill now i p) = 0"
  by (simp_all add: cascade_kill_def Let_def)


definition wit_leader :: "int \<Rightarrow> proc" where
  "wit_leader pid = zero_proc\<lparr>p_state := RUNNING, p_pid := pid, agent_type := 1, is_workflow_leader := True,
     workflow_id := 7, workflow_leader_pid := pid, workflow_leader_generation := 3\<rparr>"

definition wit_worker :: "int \<Rightarrow> proc" where
  "wit_worker pid = zero_proc\<lparr>p_state := SLEEPING, p_chan := ChanTicks, p_pid := pid, agent_type := 2,
     workflow_id := 7, workflow_leader_generation := 3\<rparr>"


end
