(* ===== verification/KernelCalls.thy ===== *)
theory KernelCalls
  imports KernelState
begin

text \<open>
  What the agent code uses of the rest of the kernel. The file system calls of a process: the operations of \<open>FileSys\<close> applied to the file system of the
  kernel state, with the process' current directory for relative paths, and the opening sequence
  \<open>begin_op(); ip = namei(path); ilock(ip); if(ip->type != T_FILE) ...\<close> that the agent code repeats. The
  pages that functions allocate to work in. Printing lists into a buffer and copying text to the user.
\<close>

definition on_fs :: "(fsk \<Rightarrow> fsk option) \<Rightarrow> kst \<Rightarrow> kst option" where
  "on_fs f s = map_option (\<lambda>fs. s\<lparr>ks_fs := fs\<rparr>) (f (ks_fs s))"

definition fs_namei :: "nat \<Rightarrow> string \<Rightarrow> kst \<Rightarrow> (nat option \<times> kst) option" where
  "fs_namei i path s =
     (case p_cwd (pr s i) of
        None \<Rightarrow> None
      | Some cwd \<Rightarrow> map_option (\<lambda>(r, fs). (r, s\<lparr>ks_fs := fs\<rparr>)) (namei cwd path (ks_fs s)))"

abbreviation fs_ino :: "kst \<Rightarrow> nat \<Rightarrow> inode" where
  "fs_ino s ip \<equiv> ino (ks_fs s) ip"

text \<open>The file of a path, locked: \<open>Inl True\<close> if no such path, \<open>Inl False\<close> (and the inode put back) if it
  is not a plain file.\<close>

definition open_file :: "nat \<Rightarrow> string \<Rightarrow> kst \<Rightarrow> ((bool + nat) \<times> kst) option" where
  "open_file i path s =
     do {
       (r, s1) \<leftarrow> fs_namei i path s;
       (case r of
          None \<Rightarrow> Some (Inl True, s1)
        | Some ip \<Rightarrow>
            do {
              s2 \<leftarrow> on_fs (ilock ip) s1;
              if di_type (fs_ino s2 ip) \<noteq> T_FILE
              then do { s3 \<leftarrow> on_fs (iunlockput ip) s2; Some (Inl False, s3) }
              else Some (Inr ip, s2)
            })
     }"

text \<open>None of these touches anything but the file system.\<close>

definition same_but_fs :: "kst \<Rightarrow> kst \<Rightarrow> bool" where
  "same_but_fs s s' \<longleftrightarrow> (\<exists>fs. s' = s\<lparr>ks_fs := fs\<rparr>)"

lemma same_but_fs_refl [simp]: "same_but_fs s s"
  unfolding same_but_fs_def by (rule exI [of _ "ks_fs s"]) simp

lemma same_but_fs_trans: "same_but_fs s t \<Longrightarrow> same_but_fs t u \<Longrightarrow> same_but_fs s u"
  by (auto simp: same_but_fs_def)

lemma on_fs_frame: "on_fs f s = Some s' \<Longrightarrow> same_but_fs s s'"
  by (auto simp: on_fs_def same_but_fs_def)

lemma fs_namei_frame: "fs_namei i path s = Some (r, s') \<Longrightarrow> same_but_fs s s'"
  by (auto simp: fs_namei_def same_but_fs_def split: option.splits)

lemma open_file_frame: "open_file i path s = Some (r, s') \<Longrightarrow> same_but_fs s s'"
  by (auto simp: open_file_def bind_eq_Some_conv split: option.splits if_splits
      dest!: fs_namei_frame on_fs_frame) (meson same_but_fs_trans)+

lemma same_but_fsD:
  assumes "same_but_fs s s'"
  shows "ks_procs s' = ks_procs s" "ks_global s' = ks_global s" "ks_ticks s' = ks_ticks s" "ks_log s' = ks_log s"
    "ks_freelist s' = ks_freelist s" "ks_file_versions s' = ks_file_versions s" "agent_now_safe s' = agent_now_safe s"
  using assms by (auto simp: same_but_fs_def agent_now_safe_def)

subsection \<open>Buffers and pages\<close>

text \<open>A list of items separated by commas, with their number: the loops that print processes.\<close>

definition put_items :: "('a \<Rightarrow> sbuf \<Rightarrow> sbuf) \<Rightarrow> 'a list \<Rightarrow> sbuf \<Rightarrow> sbuf" where
  "put_items f xs b = snd (fold (\<lambda>x (n, b). (Suc n, f x (if n > 0 then buf_putc CHR '','' b else b))) xs (0, b))"

text \<open>\<open>n = MIN(strlen(text), len); copyout(dst, text, n); return n;\<close>\<close>

definition copy_text :: "nat \<Rightarrow> u64 \<Rightarrow> u64 \<Rightarrow> string \<Rightarrow> kst \<Rightarrow> int \<times> kst" where
  "copy_text i dst len text s =
     (let n = min (of_nat (strlen text)) len
      in case copyout_proc i dst (take (unat n) text) s of
           (False, s1) \<Rightarrow> (-1, s1)
         | (True, s1) \<Rightarrow> (int_of_u64 n, s1))"

text \<open>Allocating the one page a function works in, and giving it back; the page's bytes are the local
  buffer of the model.\<close>

definition with_page :: "'a \<Rightarrow> (kst \<Rightarrow> 'a \<times> kst) \<Rightarrow> kst \<Rightarrow> 'a \<times> kst" where
  "with_page no_memory f s =
     (case kalloc (ks_freelist s) of
        (None, _) \<Rightarrow> (no_memory, s)
      | (Some pa, fl) \<Rightarrow>
          let (r, s1) = f (s\<lparr>ks_freelist := fl\<rparr>)
          in (r, s1\<lparr>ks_freelist := kfree pa (ks_freelist s1)\<rparr>))"

text \<open>Several pages at once: when one is missing, those already taken are given back and nothing has
  changed.\<close>

definition alloc_pages :: "nat \<Rightarrow> kst \<Rightarrow> (u64 list \<times> kst) option" where
  "alloc_pages n s =
     (if length (ks_freelist s) < n then None
      else Some (take n (ks_freelist s), s\<lparr>ks_freelist := drop n (ks_freelist s)\<rparr>))"

definition free_pages :: "u64 list \<Rightarrow> kst \<Rightarrow> kst" where
  "free_pages pas s = s\<lparr>ks_freelist := fold kfree pas (ks_freelist s)\<rparr>"

end
