(* ===== verification/Leases.thy ===== *)
theory Leases
  imports KernelCalls
begin

text \<open>
  Edit leases (kernel/agent.c): at most eight at a time, each on one inode, owned by one process
  incarnation, expiring 200 ticks after it was taken. The table is a \<open>slot_table\<close> twice: by the inode
  it protects and by the lease id.
\<close>

definition ls_inode :: "agent_edit_lease \<Rightarrow> u32 \<times> u32" where
  "ls_inode l = (ls_dev l, ls_inum l)"

definition clear_leases :: "(agent_edit_lease \<Rightarrow> bool) \<Rightarrow> agent_global_state \<Rightarrow> agent_global_state" where
  "clear_leases P g = g\<lparr>gl_leases := map_slots (\<lambda>l. ls_used l \<and> P l) (\<lambda>_. zero_lease) (gl_leases g)\<rparr>"

definition clear_lease :: "nat \<Rightarrow> agent_global_state \<Rightarrow> agent_global_state" where
  "clear_lease k g = g\<lparr>gl_leases := (gl_leases g)[k := zero_lease]\<rparr>"

definition agent_lease_reap_expired :: "u64 \<Rightarrow> agent_global_state \<Rightarrow> agent_global_state" where
  "agent_lease_reap_expired now = clear_leases (\<lambda>l. ls_expiry_tick l \<le> now)"

definition agent_lease_reap_pid :: "int \<Rightarrow> agent_global_state \<Rightarrow> agent_global_state" where
  "agent_lease_reap_pid pid = clear_leases (\<lambda>l. ls_owner_pid l = pid)"

text \<open>The critical section of \<open>agent_proc_lease_begin\<close>.\<close>

definition lease_acquire :: "u64 \<Rightarrow> u32 \<Rightarrow> u32 \<Rightarrow> int \<Rightarrow> u64 \<Rightarrow> agent_global_state \<Rightarrow> (int + u64 \<times> u64) \<times> agent_global_state" where
  "lease_acquire now dev inum pid gen g =
     (let g1 = clear_leases (\<lambda>l. ls_expiry_tick l \<le> now) g
      in if \<exists>l \<in> set (gl_leases g1). ls_used l \<and> ls_dev l = dev \<and> ls_inum l = inum \<and> ls_expiry_tick l > now
         then (Inl AGENT_TOOL_ERR_BUSY, g1)
         else (case first_slot (\<lambda>l. \<not> ls_used l) (gl_leases g1) of
                 None \<Rightarrow> (Inl AGENT_TOOL_ERR_NO_SPACE, g1)
               | Some k \<Rightarrow>
                   let lid = gl_next_lease_id g1 + 1
                   in (Inr (lid, 0), g1\<lparr>gl_next_lease_id := lid,
                        gl_leases := (gl_leases g1)[k := \<lparr>ls_used = True, ls_dev = dev, ls_inum = inum,
                          ls_owner_pid = pid, ls_owner_generation = gen, ls_lease_id = lid,
                          ls_base_version = 0, ls_expiry_tick = now + AGENT_LEASE_EXPIRY_TICKS\<rparr>]\<rparr>)))"

definition agent_proc_lease_begin :: "nat \<Rightarrow> string \<Rightarrow> kst \<Rightarrow> ((int + u64 \<times> u64) \<times> kst) option" where
  "agent_proc_lease_begin i path s =
     (if agent_capabilities (pr s i) AND AGENT_CAP_LEASE_ACQUIRE = 0 \<and>
         agent_capabilities (pr s i) AND AGENT_CAP_PATCH_FILE = 0
      then Some (Inl AGENT_TOOL_ERR_PERMISSION, s)
      else do {
        (f, s1) \<leftarrow> open_file i path s;
        (case f of
           Inl _ \<Rightarrow> Some (Inl AGENT_TOOL_ERR_BAD_PARAM, s1)
         | Inr ip \<Rightarrow>
             let inum = in_inum (fs_ino s1 ip);
                 (r, g) = lease_acquire (agent_now_safe s1) (in_dev (fs_ino s1 ip)) inum (p_pid (pr s1 i))
                            (identity_generation (pr s1 i)) (ks_global s1);
                 s2 = s1\<lparr>ks_global := g\<rparr>
             in do {
                  s3 \<leftarrow> on_fs (iunlockput ip) s2;
                  Some (r, (case r of
                      Inl _ \<Rightarrow> s3
                    | Inr _ \<Rightarrow> agent_audit_record i (ucast inum) ''lease_begin'' True AGENT_TOOL_OK [] s3))
                })
      })"

definition lease_commit :: "u64 \<Rightarrow> int \<Rightarrow> u64 \<Rightarrow> u64 \<Rightarrow> agent_global_state \<Rightarrow> int \<times> agent_global_state" where
  "lease_commit now pid gen lid g =
     (case first_slot (\<lambda>l. ls_used l \<and> ls_lease_id l = lid) (gl_leases g) of
        None \<Rightarrow> (AGENT_TOOL_ERR_PERMISSION, g)
      | Some k \<Rightarrow>
          if ls_owner_pid (gl_leases g ! k) \<noteq> pid \<or> ls_owner_generation (gl_leases g ! k) \<noteq> gen
          then (AGENT_TOOL_ERR_PERMISSION, g)
          else if ls_expiry_tick (gl_leases g ! k) \<le> now then (AGENT_TOOL_ERR_BAD_PARAM, g)
          else (AGENT_TOOL_OK, clear_lease k g))"

definition agent_proc_lease_commit :: "nat \<Rightarrow> u64 \<Rightarrow> u64 \<Rightarrow> kst \<Rightarrow> int \<times> kst" where
  "agent_proc_lease_commit i lid expected_version s =
     (let (r, g) = lease_commit (agent_now_safe s) (p_pid (pr s i)) (identity_generation (pr s i)) lid (ks_global s);
          s1 = s\<lparr>ks_global := g\<rparr>
      in (r, if r = AGENT_TOOL_OK then agent_audit_record i lid ''lease_commit'' True AGENT_TOOL_OK [] s1 else s1))"

definition lease_abort :: "int \<Rightarrow> u64 \<Rightarrow> u64 \<Rightarrow> agent_global_state \<Rightarrow> int \<times> agent_global_state" where
  "lease_abort pid gen lid g =
     (case first_slot (\<lambda>l. ls_used l \<and> ls_lease_id l = lid \<and> ls_owner_pid l = pid \<and> ls_owner_generation l = gen) (gl_leases g) of
        None \<Rightarrow> (AGENT_TOOL_ERR_PERMISSION, g)
      | Some k \<Rightarrow> (AGENT_TOOL_OK, clear_lease k g))"

definition agent_proc_lease_abort :: "nat \<Rightarrow> u64 \<Rightarrow> kst \<Rightarrow> int \<times> kst" where
  "agent_proc_lease_abort i lid s =
     (let (r, g) = lease_abort (p_pid (pr s i)) (identity_generation (pr s i)) lid (ks_global s)
      in (r, s\<lparr>ks_global := g\<rparr>))"

lemma zero_lease_unused [simp]: "\<not> ls_used zero_lease"
  by (simp add: zero_lease_def)

interpretation lsi: slot_table ls_used ls_inode zero_lease
  by unfold_locales (simp add: zero_lease_def)

interpretation lsd: slot_table ls_used ls_lease_id zero_lease
  by unfold_locales (simp add: zero_lease_def)

subsection \<open>The invariant of the table\<close>

definition lease_inv :: "agent_global_state \<Rightarrow> bool" where
  "lease_inv g \<longleftrightarrow> uniq_keys ls_used ls_inode (gl_leases g) \<and> uniq_keys ls_used ls_lease_id (gl_leases g) \<and>
     (\<forall>l \<in> set (gl_leases g). ls_used l \<longrightarrow> ls_lease_id l \<le> gl_next_lease_id g)"

abbreviation lease_of :: "agent_global_state \<Rightarrow> u32 \<times> u32 \<Rightarrow> agent_edit_lease option" where
  "lease_of g \<equiv> table_map ls_used ls_inode (gl_leases g)"

lemma clear_leases_inv: "lease_inv g \<Longrightarrow> lease_inv (clear_leases P g)"
  unfolding lease_inv_def clear_leases_def
  by (auto simp: lsi.uniq_clear_all lsd.uniq_clear_all dest!: set_map_slots)

lemma clear_lease_inv: "lease_inv g \<Longrightarrow> lease_inv (clear_lease k g)"
  unfolding lease_inv_def clear_lease_def
  using set_update_subset_insert [of "gl_leases g" k zero_lease]
  by (auto simp: lsi.uniq_clear lsd.uniq_clear)

lemma clear_leases_map:
  "lease_inv g \<Longrightarrow> lease_of (clear_leases P g) k =
     (case lease_of g k of None \<Rightarrow> None | Some l \<Rightarrow> if P l then None else Some l)"
proof -
  assume inv: "lease_inv g"
  then have u: "uniq_keys ls_used ls_inode (gl_leases g)" by (simp add: lease_inv_def)
  have "lease_of g k = Some l \<Longrightarrow> ls_used l" for l using table_map_Some [OF u, of k l] by auto
  then show ?thesis
    using lsi.map_clear_all [OF u, of "\<lambda>l. ls_used l \<and> P l" k] by (auto simp: clear_leases_def split: option.splits)
qed

lemma lease_of_Some:
  "lease_inv g \<Longrightarrow> lease_of g k = Some l \<longleftrightarrow> l \<in> set (gl_leases g) \<and> ls_used l \<and> ls_inode l = k"
  unfolding lease_inv_def in_set_conv_nth using table_map_Some [of ls_used ls_inode "gl_leases g" k l] by auto

definition new_lease :: "u64 \<Rightarrow> u32 \<Rightarrow> u32 \<Rightarrow> int \<Rightarrow> u64 \<Rightarrow> u64 \<Rightarrow> agent_edit_lease" where
  "new_lease now dev inum pid gen lid = \<lparr>ls_used = True, ls_dev = dev, ls_inum = inum, ls_owner_pid = pid,
     ls_owner_generation = gen, ls_lease_id = lid, ls_base_version = 0, ls_expiry_tick = now + AGENT_LEASE_EXPIRY_TICKS\<rparr>"

text \<open>The three outcomes of an acquisition, in terms of the live leases.\<close>

definition live_lease :: "u64 \<Rightarrow> agent_global_state \<Rightarrow> u32 \<times> u32 \<Rightarrow> agent_edit_lease option" where
  "live_lease now g k = (case lease_of g k of None \<Rightarrow> None | Some l \<Rightarrow> if ls_expiry_tick l \<le> now then None else Some l)"

definition table_full :: "u64 \<Rightarrow> agent_global_state \<Rightarrow> bool" where
  "table_full now g \<longleftrightarrow> (\<forall>l \<in> set (gl_leases g). ls_used l \<and> now < ls_expiry_tick l)"

lemma table_full_clear:
  "(\<forall>l \<in> set (gl_leases (clear_leases (\<lambda>l. ls_expiry_tick l \<le> now) g)). ls_used l) \<longleftrightarrow> table_full now g"
proof -
  have ball_map: "(\<forall>y \<in> set (map f xs). P y) \<longleftrightarrow> (\<forall>x \<in> set xs. P (f x))" for P f and xs :: "agent_edit_lease list"
    by simp
  have sel: "gl_leases (g\<lparr>gl_leases := ls\<rparr>) = ls" for ls by simp
  have "(\<forall>l \<in> set (gl_leases (clear_leases (\<lambda>l. ls_expiry_tick l \<le> now) g)). ls_used l) \<longleftrightarrow>
      (\<forall>l \<in> set (gl_leases g). ls_used (if ls_used l \<and> ls_expiry_tick l \<le> now then zero_lease else l))"
    by (simp only: clear_leases_def map_slots_def sel ball_map)
  also have "\<dots> \<longleftrightarrow> table_full now g"
    unfolding table_full_def by (rule ball_cong) (auto simp: not_le)
  finally show ?thesis .
qed

lemma lease_acquire_spec:
  assumes inv: "lease_inv g" and fresh: "gl_next_lease_id g \<noteq> -1"
    and run: "lease_acquire now dev inum pid gen g = (r, g')"
  shows "lease_inv g' \<and>
    (case live_lease now g (dev, inum) of
       Some l \<Rightarrow> r = Inl AGENT_TOOL_ERR_BUSY \<and> lease_of g' = live_lease now g \<and> gl_next_lease_id g' = gl_next_lease_id g
     | None \<Rightarrow>
         if table_full now g then r = Inl AGENT_TOOL_ERR_NO_SPACE \<and> lease_of g' = live_lease now g \<and> gl_next_lease_id g' = gl_next_lease_id g
         else r = Inr (gl_next_lease_id g + 1, 0) \<and> gl_next_lease_id g' = gl_next_lease_id g + 1 \<and>
              lease_of g' = (live_lease now g)((dev, inum) \<mapsto> new_lease now dev inum pid gen (gl_next_lease_id g + 1)))"
proof -
  let ?g1 = "clear_leases (\<lambda>l. ls_expiry_tick l \<le> now) g"
  have inv1: "lease_inv ?g1" by (rule clear_leases_inv [OF inv])
  have map1: "lease_of ?g1 = live_lease now g" by (rule ext) (simp add: clear_leases_map [OF inv] live_lease_def)
  have next1: "gl_next_lease_id ?g1 = gl_next_lease_id g" by (simp add: clear_leases_def)
  have busy: "(\<exists>l \<in> set (gl_leases ?g1). ls_used l \<and> ls_dev l = dev \<and> ls_inum l = inum \<and> ls_expiry_tick l > now)
      \<longleftrightarrow> live_lease now g (dev, inum) \<noteq> None" (is "?B \<longleftrightarrow> _")
  proof
    assume ?B
    then obtain l where l: "l \<in> set (gl_leases ?g1)" "ls_used l" "ls_inode l = (dev, inum)"
      by (auto simp: ls_inode_def)
    then have "lease_of ?g1 (dev, inum) = Some l" using lease_of_Some [OF inv1] by blast
    then show "live_lease now g (dev, inum) \<noteq> None" by (simp add: map1)
  next
    assume "live_lease now g (dev, inum) \<noteq> None"
    then obtain l where l: "live_lease now g (dev, inum) = Some l" by auto
    then have "lease_of ?g1 (dev, inum) = Some l" by (simp add: map1)
    then have "l \<in> set (gl_leases ?g1)" "ls_used l" "ls_inode l = (dev, inum)" using lease_of_Some [OF inv1] by auto
    moreover have "ls_expiry_tick l > now" using l by (auto simp: live_lease_def not_le split: option.splits if_splits)
    ultimately show ?B by (auto simp: ls_inode_def)
  qed
  show ?thesis
  proof (cases "live_lease now g (dev, inum)")
    case (Some l)
    then have "r = Inl AGENT_TOOL_ERR_BUSY" "g' = ?g1" using run busy by (simp_all add: lease_acquire_def Let_def)
    then show ?thesis using Some inv1 map1 next1 by simp
  next
    case None
    show ?thesis
    proof (cases "first_slot (\<lambda>l. \<not> ls_used l) (gl_leases ?g1)")
      case full: None
      then have "r = Inl AGENT_TOOL_ERR_NO_SPACE" "g' = ?g1"
        using run busy None by (simp_all add: lease_acquire_def Let_def)
      moreover have "table_full now g" using full table_full_clear [of now g] by (simp add: first_slot_None)
      ultimately show ?thesis using None inv1 map1 next1 by simp
    next
      case (Some k)
      let ?lid = "gl_next_lease_id g + 1" and ?l = "new_lease now dev inum pid gen (gl_next_lease_id g + 1)"
      have r: "r = Inr (?lid, 0)" and g': "g' = ?g1\<lparr>gl_next_lease_id := ?lid, gl_leases := (gl_leases ?g1)[k := ?l]\<rparr>"
        using run busy None Some by (simp_all add: lease_acquire_def Let_def next1 new_lease_def)
      note k = first_slot_less [OF Some] first_slot_holds [OF Some]
      have nf: "\<not> table_full now g" using k table_full_clear [of now g] nth_mem by blast
      have ui: "uniq_keys ls_used ls_inode (gl_leases ?g1)" and ud: "uniq_keys ls_used ls_lease_id (gl_leases ?g1)"
        using inv1 by (auto simp: lease_inv_def)
      have key: "ls_inode ?l = (dev, inum)" "ls_lease_id ?l = ?lid" "ls_used ?l"
        by (simp_all add: ls_inode_def new_lease_def)
      have fi: "find_key ls_used ls_inode (ls_inode ?l) (gl_leases ?g1) = None"
        using None map1 key by (metis (mono_tags) map_option_is_None table_map_def)
      have lt: "gl_next_lease_id g < ?lid" using u64_less_suc [OF fresh] by simp
      have le: "\<forall>l \<in> set (gl_leases ?g1). ls_used l \<longrightarrow> ls_lease_id l \<le> gl_next_lease_id g"
        using inv1 next1 by (auto simp: lease_inv_def)
      have fd: "find_key ls_used ls_lease_id (ls_lease_id ?l) (gl_leases ?g1) = None"
        using le lt key by (fastforce simp: find_key_None)
      have "ls_lease_id l \<le> ?lid" if "l \<in> set ((gl_leases ?g1)[k := ?l])" "ls_used l" for l
      proof (cases "l = ?l")
        case False
        with that set_update_subset_insert [of "gl_leases ?g1" k ?l] have "l \<in> set (gl_leases ?g1)" by auto
        with le that(2) have "ls_lease_id l \<le> gl_next_lease_id g" by auto
        with lt show ?thesis by order
      qed (simp add: key(2))
      then have "lease_inv g'"
        using lsi.uniq_fill [OF ui fi, of k] lsd.uniq_fill [OF ud fd, of k] by (simp add: lease_inv_def g')
      moreover have "lease_of g' = (live_lease now g)((dev, inum) \<mapsto> ?l)"
        using lsi.map_fill [OF ui fi k key(3)] map1 key(1) by (simp add: g')
      ultimately show ?thesis using None nf r by (simp add: g')
    qed
  qed
qed


subsection \<open>Histories of the lease table\<close>

datatype lease_op =
    LBegin u64 u32 u32 int u64
  | LCommit u64 int u64 u64
  | LAbort int u64 u64
  | LReapExpired u64
  | LReapPid int

primrec run_lease_op :: "lease_op \<Rightarrow> agent_global_state \<Rightarrow> agent_global_state" where
  "run_lease_op (LBegin now dev inum pid gen) g = snd (lease_acquire now dev inum pid gen g)"
| "run_lease_op (LCommit now pid gen lid) g = snd (lease_commit now pid gen lid g)"
| "run_lease_op (LAbort pid gen lid) g = snd (lease_abort pid gen lid g)"
| "run_lease_op (LReapExpired now) g = agent_lease_reap_expired now g"
| "run_lease_op (LReapPid pid) g = agent_lease_reap_pid pid g"

text \<open>The operations that may end the lease \<open>l\<close>: its owner's commit or abort, the exit of its owner, and
  anything that happens at or after its expiry tick.\<close>

primrec ends_lease :: "agent_edit_lease \<Rightarrow> lease_op \<Rightarrow> bool" where
  "ends_lease l (LBegin now dev inum pid gen) = (ls_expiry_tick l \<le> now)"
| "ends_lease l (LCommit now pid gen lid) = (pid = ls_owner_pid l \<and> gen = ls_owner_generation l \<and> lid = ls_lease_id l)"
| "ends_lease l (LAbort pid gen lid) = (pid = ls_owner_pid l \<and> gen = ls_owner_generation l \<and> lid = ls_lease_id l)"
| "ends_lease l (LReapExpired now) = (ls_expiry_tick l \<le> now)"
| "ends_lease l (LReapPid pid) = (pid = ls_owner_pid l)"

lemma clear_leases_keeps: "l \<in> set (gl_leases g) \<Longrightarrow> \<not> P l \<Longrightarrow> l \<in> set (gl_leases (clear_leases P g))"
  by (auto simp: clear_leases_def map_slots_def)

lemma clear_lease_keeps:
  "l \<in> set (gl_leases g) \<Longrightarrow> gl_leases g ! k \<noteq> l \<Longrightarrow> l \<in> set (gl_leases (clear_lease k g))"
  by (auto simp: clear_lease_def in_set_conv_nth nth_list_update) (metis nth_list_update_neq)

lemma lease_acquire_next:
  "gl_next_lease_id (snd (lease_acquire now dev inum pid gen g)) = gl_next_lease_id g \<or>
   gl_next_lease_id (snd (lease_acquire now dev inum pid gen g)) = gl_next_lease_id g + 1"
  by (simp add: lease_acquire_def Let_def clear_leases_def split: option.splits)

lemma run_lease_op_keeps:
  assumes inv: "lease_inv g" and fresh: "gl_next_lease_id g \<noteq> -1"
  shows "lease_inv (run_lease_op op g)"
    and "lease_of g k = Some l \<Longrightarrow> \<not> ends_lease l op \<Longrightarrow> lease_of (run_lease_op op g) k = Some l"
    and "gl_next_lease_id (run_lease_op op g) = gl_next_lease_id g \<or> gl_next_lease_id (run_lease_op op g) = gl_next_lease_id g + 1"
proof -
  have "lease_inv (run_lease_op op g) \<and>
    (lease_of g k = Some l \<longrightarrow> \<not> ends_lease l op \<longrightarrow> lease_of (run_lease_op op g) k = Some l) \<and>
    (gl_next_lease_id (run_lease_op op g) = gl_next_lease_id g \<or> gl_next_lease_id (run_lease_op op g) = gl_next_lease_id g + 1)"
  proof (cases op)
    case (LBegin now dev inum pid gen)
    obtain r g' where run: "lease_acquire now dev inum pid gen g = (r, g')" by fastforce
    note sp = lease_acquire_spec [OF inv fresh run]
    have "lease_of g' k = Some l" if "lease_of g k = Some l" "\<not> ls_expiry_tick l \<le> now"
    proof -
      have live: "live_lease now g k = Some l" using that by (simp add: live_lease_def)
      show ?thesis
      proof (cases "live_lease now g (dev, inum)")
        case None
        then have "k \<noteq> (dev, inum)" using live by auto
        with None sp live show ?thesis by (simp split: if_splits)
      next
        case (Some l')
        with sp live show ?thesis by simp
      qed
    qed
    then show ?thesis using sp lease_acquire_next [of now dev inum pid gen g] LBegin run by simp
  next
    case (LCommit now pid gen lid)
    show ?thesis
    proof (cases "first_slot (\<lambda>l. ls_used l \<and> ls_lease_id l = lid) (gl_leases g)")
      case None
      with LCommit inv show ?thesis by (simp add: lease_commit_def)
    next
      case (Some n)
      have "lease_of (clear_lease n g) k = Some l"
        if "lease_of g k = Some l" "\<not> ends_lease l op" "ls_owner_pid (gl_leases g ! n) = pid" "ls_owner_generation (gl_leases g ! n) = gen"
        using that first_slot_holds [OF Some] clear_lease_keeps [of l g n] LCommit clear_lease_inv [OF inv, of n]
          lease_of_Some [OF inv] lease_of_Some [OF clear_lease_inv [OF inv, of n]] by auto
      with Some LCommit inv clear_lease_inv [OF inv, of n] show ?thesis
        by (auto simp: lease_commit_def clear_lease_def)
    qed
  next
    case (LAbort pid gen lid)
    show ?thesis
    proof (cases "first_slot (\<lambda>l. ls_used l \<and> ls_lease_id l = lid \<and> ls_owner_pid l = pid \<and> ls_owner_generation l = gen) (gl_leases g)")
      case None
      with LAbort inv show ?thesis by (simp add: lease_abort_def)
    next
      case (Some n)
      have "lease_of (clear_lease n g) k = Some l" if "lease_of g k = Some l" "\<not> ends_lease l op"
        using that first_slot_holds [OF Some] clear_lease_keeps [of l g n] LAbort
          lease_of_Some [OF inv] lease_of_Some [OF clear_lease_inv [OF inv, of n]] by auto
      with Some LAbort clear_lease_inv [OF inv, of n] show ?thesis
        by (auto simp: lease_abort_def clear_lease_def)
    qed
  next
    case (LReapExpired now)
    then show ?thesis using clear_leases_inv [OF inv] clear_leases_map [OF inv]
      by (auto simp: agent_lease_reap_expired_def clear_leases_def)
  next
    case (LReapPid pid)
    then show ?thesis using clear_leases_inv [OF inv] clear_leases_map [OF inv]
      by (auto simp: agent_lease_reap_pid_def clear_leases_def)
  qed
  then show "lease_inv (run_lease_op op g)"
    and "lease_of g k = Some l \<Longrightarrow> \<not> ends_lease l op \<Longrightarrow> lease_of (run_lease_op op g) k = Some l"
    and "gl_next_lease_id (run_lease_op op g) = gl_next_lease_id g \<or> gl_next_lease_id (run_lease_op op g) = gl_next_lease_id g + 1"
    by blast+
qed

lemma run_lease_ops:
  assumes "lease_inv g" "unat (gl_next_lease_id g) + length ops < 2 ^ 64"
    and "lease_of g k = Some l" "\<forall>op \<in> set ops. \<not> ends_lease l op"
  shows "lease_inv (fold run_lease_op ops g) \<and> lease_of (fold run_lease_op ops g) k = Some l \<and>
    unat (gl_next_lease_id (fold run_lease_op ops g)) \<le> unat (gl_next_lease_id g) + length ops"
  using assms
proof (induction ops arbitrary: g)
  case Nil
  then show ?case by simp
next
  case (Cons op ops)
  have fresh: "gl_next_lease_id g \<noteq> -1"
  proof
    assume "gl_next_lease_id g = -1"
    then have "unat (gl_next_lease_id g) = 18446744073709551615" by (simp add: unat_u64_top)
    with Cons.prems(2) show False by simp
  qed
  note keep = run_lease_op_keeps [OF Cons.prems(1) fresh, where op = op]
  have n1: "unat (gl_next_lease_id (run_lease_op op g)) \<le> unat (gl_next_lease_id g) + 1"
    using keep(3) u64_less_suc [OF fresh] by auto
  have l1: "lease_of (run_lease_op op g) k = Some l" using keep(2) [of k l] Cons.prems(3,4) by simp
  have b: "unat (gl_next_lease_id (run_lease_op op g)) + length ops < 2 ^ 64" using n1 Cons.prems(2) by simp
  show ?case using Cons.IH [OF keep(1) b l1] Cons.prems(4) n1 by simp
qed

text \<open>C11 (lease_mutual_exclusion). Mutual exclusion of edit leases: while a lease on an inode is held - no
  commit or abort by its owner, its owner has not exited, and nothing happens at or after its expiry tick -
  every attempt to take a lease on the same inode, by anyone, is refused with BUSY, whatever else happens to
  the table.\<close>

theorem lease_mutual_exclusion:
  assumes "lease_inv g" "unat (gl_next_lease_id g) + length ops < 2 ^ 64 - 1"
    and "lease_of g (dev, inum) = Some l"
    and "\<forall>op \<in> set ops. \<not> ends_lease l op" and "now < ls_expiry_tick l"
  shows "fst (lease_acquire now dev inum pid gen (fold run_lease_op ops g)) = Inl AGENT_TOOL_ERR_BUSY"
proof -
  let ?g = "fold run_lease_op ops g"
  have h: "lease_inv ?g" "lease_of ?g (dev, inum) = Some l"
    "unat (gl_next_lease_id ?g) \<le> unat (gl_next_lease_id g) + length ops"
    using run_lease_ops [OF assms(1) _ assms(3,4)] assms(2) by auto
  have "gl_next_lease_id ?g \<noteq> -1"
  proof
    assume "gl_next_lease_id ?g = -1"
    then have "unat (gl_next_lease_id ?g) = 18446744073709551615" by (simp add: unat_u64_top)
    with h(3) assms(2) show False by simp
  qed
  moreover obtain r g' where run: "lease_acquire now dev inum pid gen ?g = (r, g')" by fastforce
  moreover have "live_lease now ?g (dev, inum) = Some l" using h(2) assms(5) by (simp add: live_lease_def not_le)
  ultimately show ?thesis using lease_acquire_spec [OF h(1) _ run] by simp
qed

lemma zero_global_lease_inv: "lease_inv zero_global"
  by (simp add: lease_inv_def zero_global_def uniq_keys_replicate)

theorem lease_mutual_exclusion_witness:
  "fst (lease_acquire 180 1 7 30 3 (fold run_lease_op [LBegin 100 1 8 30 3, LReapExpired 150, LCommit 160 30 3 1]
     (snd (lease_acquire 5 1 7 20 2 zero_global)))) = Inl AGENT_TOOL_ERR_BUSY"
proof -
  let ?l = "new_lease 5 1 7 20 2 1"
  obtain r g where run: "lease_acquire 5 1 7 20 2 zero_global = (r, g)" by fastforce
  have "gl_next_lease_id zero_global \<noteq> -1" by (simp add: zero_global_def)
  note sp = lease_acquire_spec [OF zero_global_lease_inv this run]
  have m: "lease_of zero_global = (\<lambda>_. None)" by (simp add: zero_global_def lsi.map_empty)
  have "live_lease 5 zero_global = (\<lambda>_. None)" by (rule ext) (simp add: live_lease_def m)
  moreover have "\<not> table_full 5 zero_global" by (simp add: table_full_def zero_global_def)
  moreover have "gl_next_lease_id zero_global = 0" by (simp add: zero_global_def)
  ultimately have g: "lease_inv g" "gl_next_lease_id g = 1" "lease_of g (1, 7) = Some ?l" using sp by auto
  have a: "unat (gl_next_lease_id g) + length [LBegin 100 1 8 30 3, LReapExpired 150, LCommit 160 30 3 1] < 2 ^ 64 - 1"
    by (simp add: g(2))
  have b: "\<forall>op \<in> set [LBegin 100 1 8 30 3, LReapExpired 150, LCommit 160 30 3 1]. \<not> ends_lease ?l op"
    by (simp add: new_lease_def)
  have c: "(180 :: u64) < ls_expiry_tick ?l" by (simp add: new_lease_def)
  have "snd (lease_acquire 5 1 7 20 2 zero_global) = g" by (simp add: run)
  with lease_mutual_exclusion [OF g(1) a g(3) b c, of 30 3] show ?thesis by (simp only:)
qed

end
