(* ===== verification/AgentLoop.thy ===== *)
theory AgentLoop
  imports Heartbeat Workflow Leases Context
begin

text \<open>
  The agent loop (kernel/agent\_loop.c): heartbeats, watches and scheduling parameters, waiting for
  events, the scheduling score, the clock tick and file notifications. \<open>agent_proc_wait\<close> gives the
  processor away inside its loop; it is split at \<open>sched()\<close>: \<open>wait_enter\<close> runs up to the loop,
  \<open>wait_iter\<close> is one round of it, ending in a return or asleep, \<open>wait_wake\<close> is what follows
  \<open>sched()\<close>.
\<close>

subsection \<open>Parameters of a process\<close>

definition agent_signal_filemod :: "kst \<Rightarrow> kst" where
  "agent_signal_filemod s =
     (let now = agent_now_safe s
      in for_procs_idx (\<lambda>i p. p_state p \<noteq> UNUSED \<and> agent_type p \<noteq> AGENT_TYPE_NORMAL \<and>
             loop_state p \<noteq> AGENT_LOOP_DONE \<and> watch_mask p AND AGENT_WATCH_FILEMOD \<noteq> 0)
           (\<lambda>i. agent_signal_event_locked i AGENT_EVENT_FILEMOD now) s)"

definition clear_heartbeat_event :: "proc \<Rightarrow> proc" where
  "clear_heartbeat_event p =
     (let p1 = p\<lparr>pending_events := pending_events p AND NOT AGENT_EVENT_HEARTBEAT\<rparr>
      in if last_wakeup_reason p1 = AGENT_EVENT_HEARTBEAT then p1\<lparr>last_wakeup_reason := AGENT_EVENT_NONE\<rparr> else p1)"

definition set_ready :: "proc \<Rightarrow> proc" where
  "set_ready p = (if loop_state p \<noteq> AGENT_LOOP_DONE then p\<lparr>loop_state := AGENT_LOOP_READY\<rparr> else p)"

definition agent_proc_heartbeat_set :: "nat \<Rightarrow> int \<Rightarrow> kst \<Rightarrow> (int \<times> kst) option" where
  "agent_proc_heartbeat_set i interval s =
     (if agent_type (pr s i) = AGENT_TYPE_NORMAL then Some (AGENT_TOOL_ERR_NOT_AGENT, s)
      else if interval \<le> 0 then Some (-1, s)
      else let now = agent_now_safe s;
               s1 = upd_proc i (\<lambda>p. set_ready (clear_heartbeat_event
                      (p\<lparr>heartbeat_interval := interval, heartbeat_deadline := now + u64_of_int interval + 1\<rparr>))) s
           in map_option (Pair 0) (agent_heartbeat_wheel_reschedule i s1))"

definition agent_proc_heartbeat_stop :: "nat \<Rightarrow> kst \<Rightarrow> (int \<times> kst) option" where
  "agent_proc_heartbeat_stop i s =
     (if agent_type (pr s i) = AGENT_TYPE_NORMAL then Some (AGENT_TOOL_ERR_NOT_AGENT, s)
      else map_option (\<lambda>s1. (0, upd_proc i (\<lambda>p. clear_heartbeat_event
             (p\<lparr>heartbeat_interval := 0, heartbeat_deadline := 0\<rparr>)) s1)) (agent_heartbeat_wheel_remove i s))"

definition agent_proc_priority_set :: "nat \<Rightarrow> int \<Rightarrow> kst \<Rightarrow> int \<times> kst" where
  "agent_proc_priority_set i priority s =
     (if agent_type (pr s i) = AGENT_TYPE_NORMAL then (AGENT_TOOL_ERR_NOT_AGENT, s)
      else if priority < 0 \<or> priority > 10 then (-1, s)
      else (0, upd_proc i (\<lambda>p. let p1 = p\<lparr>agent_priority := priority\<rparr>
             in if priority \<ge> AGENT_SCHED_PRIORITY_MIN \<and> priority \<le> AGENT_SCHED_PRIORITY_MAX
                then p1\<lparr>agent_sched_priority := priority\<rparr> else p1) s))"

definition agent_proc_watch :: "nat \<Rightarrow> u32 \<Rightarrow> kst \<Rightarrow> int \<times> kst" where
  "agent_proc_watch i m s =
     (if agent_type (pr s i) = AGENT_TYPE_NORMAL then (AGENT_TOOL_ERR_NOT_AGENT, s)
      else if m AND NOT (AGENT_WATCH_MESSAGE OR AGENT_WATCH_FILEMOD) \<noteq> 0 then (-1, s)
      else (0, upd_proc i (\<lambda>p. set_ready (p\<lparr>watch_mask := watch_mask p OR m\<rparr>)) s))"

definition agent_proc_unwatch :: "nat \<Rightarrow> u32 \<Rightarrow> kst \<Rightarrow> int \<times> kst" where
  "agent_proc_unwatch i m s =
     (if agent_type (pr s i) = AGENT_TYPE_NORMAL then (AGENT_TOOL_ERR_NOT_AGENT, s)
      else (0, upd_proc i (\<lambda>p.
             let p1 = p\<lparr>watch_mask := (if m = 0 then 0 else watch_mask p AND NOT m)\<rparr>;
                 p2 = (if watch_mask p1 AND AGENT_WATCH_MESSAGE = 0
                       then p1\<lparr>pending_events := pending_events p1 AND NOT AGENT_EVENT_MESSAGE\<rparr> else p1)
             in if watch_mask p2 AND AGENT_WATCH_FILEMOD = 0
                then p2\<lparr>pending_events := pending_events p2 AND NOT AGENT_EVENT_FILEMOD,
                       agent_watch_dev := 0, agent_watch_inum := 0, agent_watch_path := []\<rparr> else p2) s))"

definition agent_proc_watch_file :: "nat \<Rightarrow> u64 \<Rightarrow> kst \<Rightarrow> (int \<times> kst) option" where
  "agent_proc_watch_file i upath s =
     (if agent_type (pr s i) = AGENT_TYPE_NORMAL then Some (AGENT_TOOL_ERR_NOT_AGENT, s)
      else case copyinstr (p_pagetable (pr s i)) upath AGENT_MESSAGE_MAX of
             None \<Rightarrow> Some (-1, s)
           | Some path \<Rightarrow>
               do {
                 (f, s1) \<leftarrow> open_file i path s;
                 (case f of
                    Inl _ \<Rightarrow> Some (-1, s1)
                  | Inr ip \<Rightarrow>
                      let dev = in_dev (fs_ino s1 ip); inum = in_inum (fs_ino s1 ip)
                      in do {
                           s2 \<leftarrow> on_fs (iunlockput ip) s1;
                           Some (0, upd_proc i (\<lambda>p. set_ready (p\<lparr>watch_mask := watch_mask p OR AGENT_WATCH_FILEMOD,
                             agent_watch_dev := dev, agent_watch_inum := inum,
                             agent_watch_path := safestr AGENT_MESSAGE_MAX path\<rparr>)) s2)
                         })
               })"

definition agent_proc_sched_set :: "nat \<Rightarrow> int \<Rightarrow> int \<Rightarrow> kst \<Rightarrow> int \<times> kst" where
  "agent_proc_sched_set i priority quota s =
     (if agent_type (pr s i) = AGENT_TYPE_NORMAL then (AGENT_TOOL_ERR_NOT_AGENT, s)
      else if priority < AGENT_SCHED_PRIORITY_MIN \<or> priority > AGENT_SCHED_PRIORITY_MAX then (-1, s)
      else if quota < AGENT_SCHED_QUOTA_MIN \<or> quota > AGENT_SCHED_QUOTA_MAX then (-1, s)
      else (0, upd_proc i (\<lambda>p.
             let p1 = p\<lparr>agent_sched_priority := priority, agent_sched_quota := quota\<rparr>;
                 p2 = (if agent_sched_budget p1 > quota then p1\<lparr>agent_sched_budget := quota\<rparr> else p1);
                 p3 = (if agent_sched_budget p2 \<le> 0 then p2\<lparr>agent_sched_budget := quota\<rparr> else p2)
             in p3\<lparr>budget_replenish_deadline := agent_now_safe s + AGENT_SCHED_BUDGET_REPLENISH_INTERVAL\<rparr>) s))"

subsection \<open>Waiting for events\<close>

definition event_bytes :: "agent_wait_event \<Rightarrow> string" where
  "event_bytes e = le32 (word_of_int (ev_reason e)) @ le32 0 @ le64 (ev_tick e) @ le64 (ev_sequence e) @
     le64 (ev_request_id e) @ le32 (word_of_int (ev_from_pid e)) @ le32 (word_of_int (ev_msg_type e)) @
     le32 (word_of_int (ev_msg_length e)) @ char_array 128 (ev_message e) @ char_array 128 (ev_file e) @ replicate 4 NUL"

text \<open>\<open>continue_loop == 0\<close>: the agent leaves its loop for good.\<close>

definition wait_leave :: "proc \<Rightarrow> proc" where
  "wait_leave p = p\<lparr>loop_state := AGENT_LOOP_DONE, heartbeat_interval := 0, heartbeat_deadline := 0,
     watch_mask := 0, pending_events := 0, last_wakeup_reason := AGENT_EVENT_NONE,
     mailbox := empty_mailbox, agent_watch_dev := 0, agent_watch_inum := 0, agent_watch_path := [],
     agent_sched_boost := 0, wait_generation := 0, wait_deadline := 0\<rparr>"

text \<open>Up to the loop: a result, or the tick the wait started at.\<close>

definition wait_enter :: "nat \<Rightarrow> bool \<Rightarrow> int \<Rightarrow> kst \<Rightarrow> (int + u64) \<times> kst" where
  "wait_enter i continue_loop timeout s =
     (let p = pr s i
      in if agent_type p = AGENT_TYPE_NORMAL then (Inl AGENT_TOOL_ERR_NOT_AGENT, s)
         else if \<not> continue_loop then (Inl 0, upd_proc i wait_leave s)
         else if heartbeat_interval p = 0 \<and> watch_mask p = 0 \<and> mb_count (mailbox p) = 0 \<and> timeout \<le> 0
         then (Inl AGENT_WAIT_NO_SOURCE, s)
         else (Inr (agent_now_safe s),
               upd_proc i (\<lambda>p. p\<lparr>loop_state := AGENT_LOOP_WAITING, wait_generation := wait_generation p + 1,
                 wait_timeout_ticks := (if timeout > 0 then timeout else 0),
                 wait_deadline := (if timeout > 0 then agent_now_safe s + u64_of_int timeout else 0)\<rparr>) s))"

text \<open>Every return of the loop: the process entry is left in \<open>p'\<close>, the waiting time is counted, the event
  is copied to the caller.\<close>

definition wait_return :: "nat \<Rightarrow> u64 \<Rightarrow> u64 \<Rightarrow> bool \<Rightarrow> (proc \<Rightarrow> proc) \<Rightarrow> agent_wait_event \<Rightarrow> int \<Rightarrow> kst \<Rightarrow> int \<times> kst" where
  "wait_return i wait_start uevent message f ev result s =
     (let s1 = upd_proc i (\<lambda>p. f p\<lparr>wait_generation := wait_generation p + 1\<rparr>) s;
          s2 = agent_workflow_metric_wait (agent_now_safe s1 - wait_start) message i s1
      in if uevent = 0 then (result, s2)
         else case copyout_proc i uevent (event_bytes ev) s2 of
                (False, s3) \<Rightarrow> (-1, s3)
              | (True, s3) \<Rightarrow> (result, s3))"

definition wait_tick :: "proc \<Rightarrow> kst \<Rightarrow> u64" where
  "wait_tick p s = (if wakeup_tick p \<noteq> 0 then wakeup_tick p else agent_now_safe s)"

definition message_event :: "agent_message \<Rightarrow> u64 \<Rightarrow> agent_wait_event" where
  "message_event msg tick = zero_event\<lparr>ev_reason := AGENT_WAIT_MESSAGE, ev_tick := tick,
     ev_sequence := ms_sequence msg, ev_request_id := ms_request_id msg, ev_from_pid := ms_from_pid msg,
     ev_msg_type := ms_type msg, ev_msg_length := ms_length msg, ev_message := safestr AGENT_MESSAGE_MAX (ms_payload msg)\<rparr>"

definition take_message :: "proc \<Rightarrow> proc" where
  "take_message p =
     (let p1 = p\<lparr>mailbox := snd (mailbox_dequeue (mailbox p))\<rparr>
      in p1\<lparr>pending_events := (if mb_count (mailbox p1) > 0 then pending_events p1 OR AGENT_EVENT_MESSAGE
                               else pending_events p1 AND NOT AGENT_EVENT_MESSAGE),
            last_wakeup_reason := AGENT_EVENT_MESSAGE, loop_state := AGENT_LOOP_READY\<rparr>)"

text \<open>One round of the loop: \<open>Inl\<close> it returned, \<open>Inr\<close> it sleeps in \<open>sched()\<close>.\<close>

definition wait_iter :: "nat \<Rightarrow> u64 \<Rightarrow> u64 \<Rightarrow> kst \<Rightarrow> (int \<times> kst) + kst" where
  "wait_iter i wait_start uevent s =
     (let p = pr s i; reason = pending_events p; now = agent_now_safe s
      in if reason AND AGENT_EVENT_PARENT_GONE \<noteq> 0 then
           Inl (wait_return i wait_start uevent False
             (\<lambda>p. p\<lparr>pending_events := pending_events p AND NOT AGENT_EVENT_PARENT_GONE,
                    last_wakeup_reason := AGENT_EVENT_PARENT_GONE, loop_state := AGENT_LOOP_DONE\<rparr>)
             (zero_event\<lparr>ev_reason := AGENT_WAIT_PARENT_GONE, ev_tick := wait_tick p s\<rparr>) AGENT_WAIT_PARENT_GONE s)
         else if mb_count (mailbox p) > 0 then
           Inl (wait_return i wait_start uevent True take_message
             (message_event (fst (mailbox_dequeue (mailbox p))) (wait_tick p s)) AGENT_WAIT_MESSAGE s)
         else if reason AND AGENT_EVENT_FILEMOD \<noteq> 0 then
           Inl (wait_return i wait_start uevent False
             (\<lambda>p. p\<lparr>pending_events := pending_events p AND NOT AGENT_EVENT_FILEMOD,
                    last_wakeup_reason := AGENT_EVENT_FILEMOD, loop_state := AGENT_LOOP_READY\<rparr>)
             (zero_event\<lparr>ev_reason := AGENT_WAIT_FILEMOD, ev_tick := wait_tick p s,
                ev_file := safestr AGENT_MESSAGE_MAX (agent_watch_path p)\<rparr>) AGENT_WAIT_FILEMOD s)
         else if reason AND AGENT_EVENT_HEARTBEAT \<noteq> 0 then
           Inl (wait_return i wait_start uevent False
             (\<lambda>p. p\<lparr>pending_events := pending_events p AND NOT AGENT_EVENT_HEARTBEAT,
                    last_wakeup_reason := AGENT_EVENT_HEARTBEAT, loop_state := AGENT_LOOP_READY\<rparr>)
             (zero_event\<lparr>ev_reason := AGENT_WAIT_HEARTBEAT, ev_tick := wait_tick p s\<rparr>) AGENT_WAIT_HEARTBEAT s)
         else if wait_deadline p > 0 \<and> now \<ge> wait_deadline p then
           Inl (wait_return i wait_start uevent False (\<lambda>p. p\<lparr>loop_state := AGENT_LOOP_READY\<rparr>)
             (zero_event\<lparr>ev_reason := AGENT_WAIT_TIMEOUT, ev_tick := now\<rparr>) AGENT_WAIT_TIMEOUT s)
         else if p_killed p then
           Inl (wait_return i wait_start uevent False (\<lambda>p. p\<lparr>loop_state := AGENT_LOOP_DONE\<rparr>)
             (zero_event\<lparr>ev_reason := AGENT_WAIT_CANCELLED, ev_tick := now\<rparr>) (-1) s)
         else Inr (upd_proc i (\<lambda>p. p\<lparr>p_chan := ChanProc i, p_state := SLEEPING\<rparr>) s))"

definition wait_wake :: "nat \<Rightarrow> kst \<Rightarrow> kst" where
  "wait_wake i s = upd_proc i (\<lambda>p. p\<lparr>p_chan := NoChan\<rparr>) s"

subsection \<open>Scheduling\<close>

definition agent_event_weight :: "u32 \<Rightarrow> int" where
  "agent_event_weight pending =
     (if pending AND AGENT_EVENT_MESSAGE \<noteq> 0 then 30
      else if pending AND AGENT_EVENT_PARENT_GONE \<noteq> 0 then 25
      else if pending AND AGENT_EVENT_FILEMOD \<noteq> 0 then 20
      else if pending AND AGENT_EVENT_HEARTBEAT \<noteq> 0 then 10
      else 0)"

definition sched_aging :: "u64 \<Rightarrow> u64 \<Rightarrow> int" where
  "sched_aging now since =
     (let aging = (if now > since then int_of_u64 ((now - since) div 5) else 0)
      in if aging > 20 then 20 else aging)"

definition sched_bonus :: "u64 \<Rightarrow> proc \<Rightarrow> int" where
  "sched_bonus now p =
     agent_event_weight (pending_events p) + agent_sched_boost p * 10
     - (if agent_sched_vruntime p > 0 then int_of_u64 (agent_sched_vruntime p div 4) else 0)
     - (if agent_sched_budget p \<le> 0 then 5 else 0)
     + (if wait_deadline p > 0 \<and> wait_deadline p \<le> now + 5 then 15 else 0)"

definition agent_schedule_score :: "u64 \<Rightarrow> proc \<Rightarrow> int \<times> proc" where
  "agent_schedule_score now p =
     (if p_state p \<noteq> RUNNABLE then (-1, p)
      else
        let p1 = (if runnable_since p = 0 then p\<lparr>runnable_since := (if now \<noteq> 0 then now else 1)\<rparr> else p);
            aging = sched_aging now (runnable_since p1)
        in if agent_type p1 = AGENT_TYPE_NORMAL then (AGENT_DEFAULT_PRIORITY * 10 + aging, p1)
           else (max (agent_priority p1) (agent_sched_priority p1) * 10 + aging + sched_bonus now p1,
                 if agent_sched_budget p1 \<le> 0
                 then p1\<lparr>agent_sched_budget_penalty := agent_sched_budget_penalty p1 + 1\<rparr> else p1))"

definition agent_replenish_budgets :: "u64 \<Rightarrow> kst \<Rightarrow> kst" where
  "agent_replenish_budgets now =
     for_procs (\<lambda>p. p_state p \<noteq> UNUSED \<and> agent_type p \<noteq> AGENT_TYPE_NORMAL \<and> agent_sched_quota p > 0 \<and>
            budget_replenish_deadline p > 0 \<and> now \<ge> budget_replenish_deadline p)
       (\<lambda>p. p\<lparr>agent_sched_budget := agent_sched_quota p,
             budget_replenish_deadline := now + AGENT_SCHED_BUDGET_REPLENISH_INTERVAL\<rparr>)"

subsection \<open>The clock tick, file notifications\<close>

definition tick_timeouts :: "u64 \<Rightarrow> kst \<Rightarrow> kst" where
  "tick_timeouts now =
     for_procs_idx (\<lambda>i p. p_state p = SLEEPING \<and> p_chan p = ChanProc i \<and> agent_type p \<noteq> AGENT_TYPE_NORMAL \<and>
            loop_state p = AGENT_LOOP_WAITING \<and> wait_deadline p > 0 \<and> now \<ge> wait_deadline p)
       (\<lambda>i p. p\<lparr>wakeup_tick := now, p_state := RUNNABLE\<rparr>)"

definition agent_tick :: "u64 \<Rightarrow> kst \<Rightarrow> kst option" where
  "agent_tick now s =
     map_option (tick_timeouts now)
       (tick_wheel now (upd_global (agent_lease_reap_expired now) (agent_replenish_budgets now s)))"

definition agent_notify_file_modified :: "u32 \<Rightarrow> u32 \<Rightarrow> kst \<Rightarrow> kst" where
  "agent_notify_file_modified dev inum s =
     (let now = agent_now_safe s;
          s1 = s\<lparr>ks_file_versions := snd (agentfs_inode_version_bump dev inum (ks_file_versions s))\<rparr>
      in for_procs_idx (\<lambda>i p. p_state p \<noteq> UNUSED \<and> agent_type p \<noteq> AGENT_TYPE_NORMAL \<and>
             watch_mask p AND AGENT_WATCH_FILEMOD \<noteq> 0 \<and> agent_watch_inum p = inum \<and> agent_watch_dev p = dev)
           (\<lambda>i. agent_signal_event_locked i AGENT_EVENT_FILEMOD now) s1)"

definition agent_needs_sched_boost :: "proc \<Rightarrow> bool" where
  "agent_needs_sched_boost p \<longleftrightarrow> agent_type p \<noteq> AGENT_TYPE_NORMAL \<and> pending_events p \<noteq> AGENT_EVENT_NONE"

subsection \<open>Properties of waiting\<close>

text \<open>Nothing that would end the wait is there.\<close>

definition wait_idle :: "u64 \<Rightarrow> proc \<Rightarrow> bool" where
  "wait_idle now p \<longleftrightarrow>
     pending_events p AND AGENT_EVENT_PARENT_GONE = 0 \<and> mb_count (mailbox p) \<le> 0 \<and>
     pending_events p AND AGENT_EVENT_FILEMOD = 0 \<and> pending_events p AND AGENT_EVENT_HEARTBEAT = 0 \<and>
     \<not> (wait_deadline p > 0 \<and> now \<ge> wait_deadline p) \<and> \<not> p_killed p"

lemma wait_iter_idle:
  "wait_iter i st uevent s = Inr s1 \<longleftrightarrow>
     wait_idle (agent_now_safe s) (pr s i) \<and> s1 = upd_proc i (\<lambda>p. p\<lparr>p_chan := ChanProc i, p_state := SLEEPING\<rparr>) s"
  by (auto simp: wait_iter_def Let_def wait_idle_def not_le)

lemma wait_iter_busy: "\<not> wait_idle (agent_now_safe s) (pr s i) \<Longrightarrow> \<exists>r t. wait_iter i st uevent s = Inl (r, t)"
  by (cases "wait_iter i st uevent s") (auto simp: wait_iter_idle)



lemma bit_or_and: "(x OR a) AND b = (x AND b) OR (a AND b)" for x :: u32
  by (rule bit.conj_disj_distrib2)

lemma wait_idle_message:
  assumes "wait_idle now p" "0 < mb_count mb"
  shows "pending_events p AND AGENT_EVENT_PARENT_GONE = 0"
  using assms by (simp add: wait_idle_def)

text \<open>The process a message finds asleep in its wait, after the message.\<close>

definition woken_by :: "mail \<Rightarrow> u64 \<Rightarrow> nat \<Rightarrow> proc \<Rightarrow> proc" where
  "woken_by m now i p = agent_signal_event_locked i AGENT_EVENT_MESSAGE now
     (p\<lparr>p_chan := ChanProc i, p_state := SLEEPING, mailbox := mailbox_enqueue m (mailbox p)\<rparr>)"

lemma send_to_sleeper:
  fixes k :: nat and payload :: string and rid :: u64
  assumes inv: "mailboxes_inv s" and i: "i < length (ks_procs s)" "is_agent (pr s i)"
    and first: "\<forall>j < i. is_agent (pr s j) \<longrightarrow> p_pid (pr s j) \<noteq> p_pid (pr s i)"
    and empty: "mb_count (mailbox (pr s i)) = 0" and ty: "ty = 0 \<or> ty = 1"
  defines "s1 \<equiv> upd_proc i (\<lambda>p. p\<lparr>p_chan := ChanProc i, p_state := SLEEPING\<rparr>) s"
    and "m \<equiv> \<lparr>ml_from = p_pid (pr s k), ml_type = ty, ml_payload = payload, ml_request_id = rid\<rparr>"
  shows "agent_send_message (Some k) (p_pid (pr s i)) ty (Some payload) rid s1 =
      (AGENT_TOOL_OK, upd_proc i (\<lambda>_. woken_by m (agent_now_safe s1) i (pr s i)) s1)"
    "mailbox_inv (mailbox (woken_by m now i (pr s i)))"
    "mailbox_list (mailbox (woken_by m now i (pr s i))) = [mailbox_stamp m (mailbox (pr s i))]"
proof -
  have mb: "mailbox_inv (mailbox (pr s i))" by (rule mailboxes_invD [OF inv i(1)])
  have nf: "\<not> mailbox_full ty (mailbox (pr s i))"
    using empty mailbox_counts [OF mb] mb by (auto simp: mailbox_full_def mailbox_list_def count_type_def mailbox_inv_def)
  have pid: "p_pid (pr s1 k) = p_pid (pr s k)" using i(1) by (cases "k = i") (simp_all add: s1_def)
  have slot: "first_slot (\<lambda>p. p_pid p = p_pid (pr s i) \<and> p_state p \<noteq> UNUSED \<and> agent_type p \<noteq> 0) (ks_procs s1) = Some i"
  proof (rule first_slotI)
    show "i < length (ks_procs s1)" using i(1) by (simp add: s1_def)
    show "p_pid (pr s1 i) = p_pid (pr s i) \<and> p_state (pr s1 i) \<noteq> UNUSED \<and> agent_type (pr s1 i) \<noteq> 0"
      using i by (simp add: s1_def is_agent_def)
    show "\<not> (p_pid (pr s1 j) = p_pid (pr s i) \<and> p_state (pr s1 j) \<noteq> UNUSED \<and> agent_type (pr s1 j) \<noteq> 0)" if "j < i" for j
      using first that by (auto simp: s1_def is_agent_def)
  qed
  have q: "pr s1 i = (pr s i)\<lparr>p_chan := ChanProc i, p_state := SLEEPING\<rparr>" using i(1) by (simp add: s1_def)
  have "agent_send_message (Some k) (p_pid (pr s i)) ty (Some payload) rid s1 = (AGENT_TOOL_OK, upd_proc i (\<lambda>p.
      agent_signal_event_locked i AGENT_EVENT_MESSAGE (agent_now_safe s1) (p\<lparr>mailbox := mailbox_enqueue m (mailbox p)\<rparr>)) s1)"
    using slot ty nf q pid by (simp add: agent_send_message_def Let_def m_def)
  then show "agent_send_message (Some k) (p_pid (pr s i)) ty (Some payload) rid s1 =
      (AGENT_TOOL_OK, upd_proc i (\<lambda>_. woken_by m (agent_now_safe s1) i (pr s i)) s1)"
    by (simp add: upd_proc_def q woken_by_def)
  show "mailbox_inv (mailbox (woken_by m now i (pr s i)))"
    using mailbox_inv_enqueue [OF mb, of m] nf ty by (simp add: woken_by_def m_def)
  show "mailbox_list (mailbox (woken_by m now i (pr s i))) = [mailbox_stamp m (mailbox (pr s i))]"
    using mailbox_list_enqueue [OF mb, of m] empty by (simp add: woken_by_def mailbox_list_def [of "mailbox (pr s i)"])
qed

text \<open>The round of a wait that finds one message and whose parent is there.\<close>

lemma round_with_message:
  assumes "pending_events (pr w i) AND AGENT_EVENT_PARENT_GONE = 0" "mailbox_inv (mailbox (pr w i))" "mailbox_list (mailbox (pr w i)) = [m]"
  shows "wait_iter i st uevent w =
    Inl (wait_return i st uevent True take_message (message_event m (wait_tick (pr w i) w)) AGENT_WAIT_MESSAGE w)"
proof -
  have some: "0 < mb_count (mailbox (pr w i))" using mailbox_list_nonempty [OF assms(2)] assms(3) by simp
  have "fst (mailbox_dequeue (mailbox (pr w i))) = m" using mailbox_list_dequeue [OF assms(2) some] assms(3) by simp
  with assms(1) some show ?thesis by (simp add: wait_iter_def Let_def)
qed

text \<open>C15 (message_wakes_waiter). No message is lost to a sleeping agent: when an agent has gone to sleep in its
  wait and a valid message is then sent to it, the send succeeds, the agent is runnable, and its next round
  returns MESSAGE with exactly that message (sender, type, request id and text cut to 127 characters).\<close>

theorem message_wakes_waiter:
  assumes inv: "mailboxes_inv s" and i: "i < length (ks_procs s)" "is_agent (pr s i)"
    and first: "\<forall>j < i. is_agent (pr s j) \<longrightarrow> p_pid (pr s j) \<noteq> p_pid (pr s i)"
    and asleep: "wait_iter i st uevent s = Inr s1" and ty: "ty = 0 \<or> ty = 1"
    and send: "agent_send_message (Some k) (p_pid (pr s i)) ty (Some text) rid s1 = (r, s2)"
  shows "r = AGENT_TOOL_OK \<and> p_state (pr s2 i) = RUNNABLE \<and>
    (\<exists>msg. ms_from_pid msg = p_pid (pr s k) \<and> ms_type msg = ty \<and> ms_request_id msg = rid \<and>
       ms_payload msg = take 127 (cstr text) \<and>
       wait_iter i st uevent (wait_wake i s2) =
         Inl (wait_return i st uevent True take_message (message_event msg (wait_tick (pr s2 i) s2)) AGENT_WAIT_MESSAGE
                (wait_wake i s2)))"
proof -
  define m where "m = \<lparr>ml_from = p_pid (pr s k), ml_type = ty, ml_payload = text, ml_request_id = rid\<rparr>"
  have idle: "wait_idle (agent_now_safe s) (pr s i)"
    and s1: "s1 = upd_proc i (\<lambda>p. p\<lparr>p_chan := ChanProc i, p_state := SLEEPING\<rparr>) s"
    using asleep by (simp_all add: wait_iter_idle)
  have zero: "mb_count (mailbox (pr s i)) = 0"
    using idle mailbox_invD(4) [OF mailboxes_invD [OF inv i(1)]] by (simp add: wait_idle_def)
  note d = send_to_sleeper [OF inv i first zero ty, of k "text" rid, folded s1 m_def]
  define p2 where "p2 = woken_by m (agent_now_safe s1) i (pr s i)"
  have res: "r = AGENT_TOOL_OK" "s2 = upd_proc i (\<lambda>_. p2) s1" using d(1) send by (simp_all add: p2_def)
  let ?w = "wait_wake i s2"
  have p2: "pr s2 i = p2" using i(1) by (simp add: res s1)
  have w: "pr ?w i = p2\<lparr>p_chan := NoChan\<rparr>" "agent_now_safe ?w = agent_now_safe s2"
    using i(1) by (simp_all add: wait_wake_def res s1 p2_def woken_by_def)
  have gone: "pending_events (pr ?w i) AND AGENT_EVENT_PARENT_GONE = 0"
    using idle by (simp add: w p2_def woken_by_def wait_idle_def bit_or_and)
  have "wait_iter i st uevent ?w = Inl (wait_return i st uevent True take_message
      (message_event (mailbox_stamp m (mailbox (pr s i))) (wait_tick (pr ?w i) ?w)) AGENT_WAIT_MESSAGE ?w)"
    by (rule round_with_message [OF gone]) (simp_all add: w d(2,3) p2_def)
  moreover have "wait_tick (pr ?w i) ?w = wait_tick (pr s2 i) s2" by (simp add: w p2 wait_tick_def)
  moreover have "p_state (pr s2 i) = RUNNABLE" by (simp add: p2 p2_def woken_by_def signal_event_state)
  ultimately show ?thesis
    using res(1) by (intro conjI exI [of _ "mailbox_stamp m (mailbox (pr s i))"])
      (simp_all add: mailbox_stamp_def m_def safestr_def)
qed

theorem message_wakes_waiter_witness:
  "let s = boot_kst [wit_agent 1, wit_agent 2]; s1 = (case wait_iter 1 0 0 s of Inr t \<Rightarrow> t | Inl _ \<Rightarrow> s)
   in p_state (pr (snd (agent_send_message (Some 0) 2 0 (Some ''hi'') 7 s1)) 1) = RUNNABLE"
proof -
  let ?s = "boot_kst [wit_agent 1, wit_agent 2]"
  let ?s1 = "upd_proc 1 (\<lambda>p. p\<lparr>p_chan := ChanProc 1, p_state := SLEEPING\<rparr>) ?s"
  have w: "wait_iter 1 0 0 ?s = Inr ?s1"
    by (simp add: wait_iter_idle wait_idle_def wit_agent_def zero_proc_def empty_mailbox_def)
  obtain r s2 where send: "agent_send_message (Some 0) 2 0 (Some ''hi'') 7 ?s1 = (r, s2)" by force
  have "p_state (pr s2 1) = RUNNABLE"
    using message_wakes_waiter [OF wit_mailboxes _ _ _ w _, of 0 0 "''hi''" 7 r s2] send
    by (simp add: is_agent_def wit_agent_def zero_proc_def)
  then show ?thesis using w send by (simp add: Let_def)
qed

text \<open>C24 (timeout_wakes_waiter). A wait with a timeout ends: when an agent sleeps in its wait and a tick comes at
  or after its deadline, the tick makes it runnable, and its next round returns.\<close>

theorem timeout_wakes_waiter:
  assumes i: "i < length (ks_procs s)" and ty: "agent_type (pr s i) \<noteq> AGENT_TYPE_NORMAL"
    and wait: "loop_state (pr s i) = AGENT_LOOP_WAITING" and asleep: "wait_iter i st uevent s = Inr s1"
    and deadline: "0 < wait_deadline (pr s i)" "wait_deadline (pr s i) \<le> now" and clock: "now = ucast n"
  shows "p_state (pr (tick_timeouts now (s1\<lparr>ks_ticks := n\<rparr>)) i) = RUNNABLE \<and>
    (\<exists>r t. wait_iter i st uevent (wait_wake i (tick_timeouts now (s1\<lparr>ks_ticks := n\<rparr>))) = Inl (r, t))"
proof -
  have s1: "s1 = upd_proc i (\<lambda>p. p\<lparr>p_chan := ChanProc i, p_state := SLEEPING\<rparr>) s"
    using asleep by (simp add: wait_iter_idle)
  let ?t = "tick_timeouts now (s1\<lparr>ks_ticks := n\<rparr>)"
  have p: "pr ?t i = (pr s i)\<lparr>p_chan := ChanProc i, wakeup_tick := now, p_state := RUNNABLE\<rparr>"
    using i ty wait deadline by (simp add: tick_timeouts_def pr_for_procs_idx s1)
  have "length (ks_procs ?t) = length (ks_procs s)" by (simp add: tick_timeouts_def s1)
  then have w: "pr (wait_wake i ?t) i = (pr ?t i)\<lparr>p_chan := NoChan\<rparr>" using i by (simp add: wait_wake_def)
  have "agent_now_safe (wait_wake i ?t) = now"
    by (simp add: wait_wake_def tick_timeouts_def agent_now_safe_def clock)
  then have "\<not> wait_idle (agent_now_safe (wait_wake i ?t)) (pr (wait_wake i ?t) i)"
    using deadline by (simp add: wait_idle_def w p)
  from wait_iter_busy [OF this] p show ?thesis by simp
qed

theorem timeout_wakes_waiter_witness:
  "let s = boot_kst [(wit_agent 1)\<lparr>loop_state := AGENT_LOOP_WAITING, wait_deadline := 5\<rparr>];
       s1 = (case wait_iter 0 0 0 s of Inr t \<Rightarrow> t | Inl _ \<Rightarrow> s)
   in p_state (pr (tick_timeouts 6 (s1\<lparr>ks_ticks := 6\<rparr>)) 0) = RUNNABLE"
proof -
  let ?s = "boot_kst [(wit_agent 1)\<lparr>loop_state := AGENT_LOOP_WAITING, wait_deadline := 5\<rparr>]"
  let ?s1 = "upd_proc 0 (\<lambda>p. p\<lparr>p_chan := ChanProc 0, p_state := SLEEPING\<rparr>) ?s"
  have w: "wait_iter 0 0 0 ?s = Inr ?s1"
    by (simp add: wait_iter_idle wait_idle_def wit_agent_def zero_proc_def empty_mailbox_def agent_now_safe_def)
  have "p_state (pr (tick_timeouts 6 (?s1\<lparr>ks_ticks := 6\<rparr>)) 0) = RUNNABLE"
    by (rule conjunct1 [OF timeout_wakes_waiter [OF _ _ _ w]]) (simp_all add: wit_agent_def zero_proc_def)
  then show ?thesis using w by (simp add: Let_def)
qed

end
