(* ===== verification/Identity.thy ===== *)
theory Identity
  imports AgentLoop
begin

text \<open>
  Who an agent is (kernel/agent.c): default capabilities of a role, the fields of a fresh process
  entry, what a forked child inherits, what \<open>exec\<close> resets, becoming an agent (\<open>agent_mark_current\<close>),
  reducing capabilities, taking a role, and looking agents up. The lemmas show that capabilities
  only shrink, that a forked child starts without any, and that the workflow table and the heartbeat
  wheel stay consistent.
\<close>

subsection \<open>Capabilities and roles\<close>

definition agent_role_default_caps :: "int \<Rightarrow> u64" where
  "agent_role_default_caps role =
     (if role = 0 then AGENT_CAP_QUERY_PROCESS OR AGENT_CAP_QUERY_FILE OR AGENT_CAP_SEND_MESSAGE OR
                       AGENT_CAP_WORKFLOW_CTRL OR AGENT_CAP_SCHED_CONFIG OR AGENT_CAP_AUDIT_READ
      else if role = 1 then AGENT_CAP_QUERY_FILE OR AGENT_CAP_READ_FILE OR AGENT_CAP_SEND_MESSAGE
      else if role = 2 then AGENT_CAP_READ_FILE OR AGENT_CAP_PATCH_FILE OR AGENT_CAP_LEASE_ACQUIRE OR AGENT_CAP_SEND_MESSAGE
      else if role = 3 then AGENT_CAP_QUERY_FILE OR AGENT_CAP_READ_FILE OR AGENT_CAP_SEND_MESSAGE
      else if role = 4 then AGENT_CAP_READ_FILE OR AGENT_CAP_WATCH_FILE OR AGENT_CAP_SEND_MESSAGE OR AGENT_CAP_QUERY_FILE
      else if role = 5 then AGENT_CAP_REGISTER_TOOL OR AGENT_CAP_SEND_MESSAGE
      else 0)"

definition agent_default_sched_priority :: "int \<Rightarrow> int" where
  "agent_default_sched_priority type =
     (if type = AGENT_TYPE_PRIMARY then 5 else if type = AGENT_TYPE_WORKER then 3 else AGENT_SCHED_PRIORITY_MIN)"

definition agent_default_sched_quota :: "int \<Rightarrow> int" where
  "agent_default_sched_quota type =
     (if type = AGENT_TYPE_PRIMARY then 4 else if type = AGENT_TYPE_WORKER then 2 else 0)"

definition agent_proc_cap_set :: "nat \<Rightarrow> u64 \<Rightarrow> kst \<Rightarrow> int \<times> kst" where
  "agent_proc_cap_set i caps s =
     (if agent_type (pr s i) = AGENT_TYPE_NORMAL then (AGENT_TOOL_ERR_NOT_AGENT, s)
      else if caps AND NOT AGENT_CAP_ALL \<noteq> 0 then (AGENT_TOOL_ERR_BAD_PARAM, s)
      else if caps AND NOT (agent_capabilities (pr s i)) \<noteq> 0
      then (AGENT_TOOL_ERR_PERMISSION,
            agent_audit_record i (u64_of_int (p_pid (pr s i))) ''cap_set'' False AGENT_TOOL_ERR_PERMISSION
              ''capability escalation'' s)
      else (0, upd_proc i (\<lambda>p. p\<lparr>agent_capabilities := caps\<rparr>) s))"

definition agent_proc_role_set :: "nat \<Rightarrow> int \<Rightarrow> kst \<Rightarrow> int \<times> kst" where
  "agent_proc_role_set i role s =
     (if agent_type (pr s i) = AGENT_TYPE_NORMAL then (AGENT_TOOL_ERR_NOT_AGENT, s)
      else if role < AGENT_ROLE_PLANNER \<or> role > AGENT_ROLE_TOOL_SERVICE then (AGENT_TOOL_ERR_BAD_PARAM, s)
      else if agent_role_locked (pr s i) then (AGENT_TOOL_ERR_PERMISSION, s)
      else (AGENT_TOOL_OK, upd_proc i (\<lambda>p. p\<lparr>agent_role := role,
              agent_capabilities := agent_role_default_caps role, agent_role_locked := True\<rparr>) s))"

subsection \<open>Fresh, forked and replaced processes\<close>

definition agent_init_proc :: "proc \<Rightarrow> proc" where
  "agent_init_proc p = p\<lparr>
     agent_type := AGENT_TYPE_NORMAL, agent_role := AGENT_ROLE_UNSET, agent_role_locked := False,
     heartbeat_interval := 0, resource_quota := of_nat (AGENT_CONTEXT_REGION_SIZE - HEADER_SIZE),
     loop_state := AGENT_LOOP_IDLE, context_region_start := 0, context_region_size := 0,
     context_path_len := 0, context_node_count := 0, context_dropped_nodes := 0,
     heartbeat_deadline := 0, heartbeat_wheel_next := 0, heartbeat_wheel_bucket := -1,
     heartbeat_wheel_active := False, wakeup_tick := 0, runnable_since := 0,
     context_offsets := replicate 16 0, context_lengths := replicate 16 0, context_deps := zero_deps,
     pending_context_dep := False, pending_context_dev := 0, pending_context_inum := 0,
     pending_context_version := 0, watch_mask := 0, pending_events := 0,
     last_wakeup_reason := AGENT_EVENT_NONE, agent_priority := AGENT_DEFAULT_PRIORITY, agent_group := 0,
     agent_capabilities := 0, workflow_id := 0, workflow_leader_pid := 0, workflow_leader_generation := 0,
     agent_parent_pid := 0, agent_parent_generation := 0, is_workflow_leader := False,
     workflow_member_registered := False, identity_generation := 0, mailbox := empty_mailbox,
     agent_watch_dev := 0, agent_watch_inum := 0, agent_watch_path := [],
     agent_sched_priority := AGENT_SCHED_PRIORITY_MIN, agent_sched_quota := 0, agent_sched_budget := 0,
     agent_sched_boost := 0, agent_sched_vruntime := 0, agent_sched_last_run := 0,
     agent_sched_budget_penalty := 0, context_generation := 1, context_first_sequence := 0,
     context_next_sequence := 1, context_digests := replicate 16 zero_digest, context_digest_head := 0,
     context_digest_count := 0, wait_generation := 0, wait_timeout_ticks := 0, wait_deadline := 0,
     last_context_query := 0, context_reuse_hit := 0, budget_replenish_deadline := 0\<rparr>"

text \<open>The fields a child takes over from, or does not share with, its parent.\<close>

definition fork_fields :: "proc \<Rightarrow> u64 \<Rightarrow> proc \<Rightarrow> proc" where
  "fork_fields src gen dst = dst\<lparr>
     agent_type := agent_type src, agent_role := AGENT_ROLE_UNSET, agent_role_locked := False,
     heartbeat_interval := 0, resource_quota := resource_quota src, loop_state := AGENT_LOOP_IDLE,
     context_region_start := context_region_start src, context_region_size := context_region_size src,
     context_path_len := 0, context_node_count := 0, context_dropped_nodes := 0,
     heartbeat_deadline := 0, heartbeat_wheel_next := 0, heartbeat_wheel_bucket := -1,
     heartbeat_wheel_active := False, wakeup_tick := 0, runnable_since := 0,
     context_offsets := replicate 16 0, context_lengths := replicate 16 0, context_deps := zero_deps,
     pending_context_dep := False, pending_context_dev := 0, pending_context_inum := 0,
     pending_context_version := 0, watch_mask := 0, pending_events := 0,
     last_wakeup_reason := AGENT_EVENT_NONE, agent_priority := agent_priority src,
     agent_group := agent_group src, agent_capabilities := 0, workflow_id := workflow_id src,
     identity_generation := gen, workflow_leader_pid := workflow_leader_pid src,
     workflow_leader_generation := workflow_leader_generation src, agent_parent_pid := p_pid src,
     agent_parent_generation := identity_generation src, is_workflow_leader := False,
     workflow_member_registered := False, mailbox := empty_mailbox, agent_watch_dev := 0,
     agent_watch_inum := 0, agent_watch_path := [], agent_sched_priority := agent_sched_priority src,
     agent_sched_quota := agent_sched_quota src, agent_sched_budget := 0, agent_sched_boost := 0,
     agent_sched_vruntime := 0, agent_sched_last_run := 0, agent_sched_budget_penalty := 0,
     context_generation := context_generation src + 1, context_first_sequence := 0,
     context_next_sequence := 1, context_digests := replicate 16 zero_digest, context_digest_head := 0,
     context_digest_count := 0, wait_generation := 0, wait_timeout_ticks := 0, wait_deadline := 0,
     budget_replenish_deadline := 0, last_context_query := 0, context_reuse_hit := 0\<rparr>"

text \<open>Joining the parent's workflow: a child that may not join is marked killed.\<close>

definition fork_join :: "nat \<Rightarrow> kst \<Rightarrow> kst" where
  "fork_join d s =
     (let p = pr s d
      in if workflow_id p \<noteq> 0 \<and> workflow_leader_generation p \<noteq> 0
         then let (r, g) = agent_workflow_join_locked p (ks_global s);
                  s1 = s\<lparr>ks_global := g\<rparr>
              in if r = AGENT_TOOL_OK then upd_proc d (\<lambda>p. p\<lparr>workflow_member_registered := True\<rparr>) s1
                 else upd_proc d (\<lambda>p. p\<lparr>p_killed := True\<rparr>) s1
         else s)"

definition agent_after_fork :: "nat \<Rightarrow> nat \<Rightarrow> kst \<Rightarrow> kst" where
  "agent_after_fork d i s =
     (let (gen, g) = agent_next_identity (ks_global s);
          s1 = upd_proc d (fork_fields (pr s i) gen) (s\<lparr>ks_global := g\<rparr>)
      in fork_join d s1)"

definition agent_after_exec :: "proc \<Rightarrow> proc" where
  "agent_after_exec p = (clear_pending_dep (digest_clear (p\<lparr>
     context_region_start := 0, context_region_size := 0, context_path_len := 0, context_node_count := 0,
     context_dropped_nodes := 0, context_generation := 0, context_first_sequence := 0,
     context_next_sequence := 1, context_offsets := replicate 16 0, context_lengths := replicate 16 0,
     context_deps := zero_deps\<rparr>)))\<lparr>last_context_query := 0, context_reuse_hit := 0\<rparr>"

subsection \<open>Becoming an agent\<close>

text \<open>The Context region: two pages and a guard page, unless the process has one. The result says
  whether memory was found; \<open>None\<close> is a panic of the page table code.\<close>

definition mark_region :: "nat \<Rightarrow> kst \<Rightarrow> (bool \<times> kst) option" where
  "mark_region i s =
     (if context_region_start (pr s i) \<noteq> 0 then Some (True, s)
      else
        let start = PGROUNDUP (p_sz (pr s i));
            stop = start + of_nat AGENT_CONTEXT_REGION_SIZE + 4096
        in case uvmalloc (p_pagetable (pr s i)) (p_sz (pr s i)) stop PTE_W (ks_freelist s) of
             None \<Rightarrow> None
           | Some (r, pt, fl) \<Rightarrow>
               let s1 = upd_proc i (\<lambda>p. p\<lparr>p_pagetable := pt\<rparr>) (s\<lparr>ks_freelist := fl\<rparr>)
               in if r = 0 then Some (False, s1)
                  else case uvmclear pt (start + of_nat AGENT_CONTEXT_REGION_SIZE) of
                         None \<Rightarrow> None
                       | Some pt' \<Rightarrow> Some (True, upd_proc i (\<lambda>p. p\<lparr>p_pagetable := pt', p_sz := stop,
                           context_region_start := start,
                           context_region_size := of_nat AGENT_CONTEXT_REGION_SIZE\<rparr>) s1))"

definition mark_fields :: "int \<Rightarrow> int \<Rightarrow> u64 \<Rightarrow> u64 \<Rightarrow> proc \<Rightarrow> proc" where
  "mark_fields type interval quota now p =
     (let primary = (type = AGENT_TYPE_PRIMARY);
          sq = agent_default_sched_quota type
      in p\<lparr>agent_type := type, agent_role := (if primary then AGENT_ROLE_PLANNER else AGENT_ROLE_UNSET),
           agent_role_locked := primary, heartbeat_interval := interval, resource_quota := quota,
           loop_state := AGENT_LOOP_READY,
           agent_group := (if primary \<or> agent_group p = 0 then p_pid p else agent_group p),
           agent_priority := (if agent_priority p \<le> 0 then AGENT_DEFAULT_PRIORITY else agent_priority p),
           heartbeat_deadline := (if interval > 0 then now + u64_of_int interval else 0),
           wakeup_tick := 0, watch_mask := 0, pending_events := 0, last_wakeup_reason := AGENT_EVENT_NONE,
           mailbox := empty_mailbox, agent_watch_dev := 0, agent_watch_inum := 0, agent_watch_path := [],
           agent_sched_priority := agent_default_sched_priority type, agent_sched_quota := sq,
           agent_sched_budget := sq, agent_sched_boost := 0, agent_sched_vruntime := 0,
           agent_sched_last_run := 0, agent_sched_budget_penalty := 0,
           budget_replenish_deadline := (if sq > 0 then now + AGENT_SCHED_BUDGET_REPLENISH_INTERVAL else 0),
           agent_capabilities := (if primary then AGENT_CAP_ALL
             else AGENT_CAP_QUERY_PROCESS OR AGENT_CAP_QUERY_FILE OR AGENT_CAP_READ_FILE OR AGENT_CAP_SEND_MESSAGE)\<rparr>)"

text \<open>\<open>if(identity_generation == 0) identity_generation = agent_next_identity();\<close>\<close>

definition mark_identity :: "nat \<Rightarrow> kst \<Rightarrow> kst" where
  "mark_identity i s =
     (if identity_generation (pr s i) = 0
      then let (gen, g) = agent_next_identity (ks_global s)
           in upd_proc i (\<lambda>p. p\<lparr>identity_generation := gen\<rparr>) (s\<lparr>ks_global := g\<rparr>)
      else s)"

text \<open>The process leads a workflow of its own; \<open>leader\<close> is the flag it gets.\<close>

definition mark_own_workflow :: "bool \<Rightarrow> nat \<Rightarrow> kst \<Rightarrow> kst" where
  "mark_own_workflow leader i s =
     (let s1 = upd_proc i (\<lambda>p. p\<lparr>workflow_id := u64_of_int (p_pid p), workflow_leader_pid := p_pid p,
                 workflow_leader_generation := identity_generation p, agent_parent_pid := 0,
                 agent_parent_generation := 0, is_workflow_leader := leader\<rparr>) s
      in if workflow_member_registered (pr s1 i) then s1
         else let (r, g) = agent_workflow_create_locked (pr s1 i) (ks_global s1);
                  s2 = s1\<lparr>ks_global := g\<rparr>
              in if r = AGENT_TOOL_OK then upd_proc i (\<lambda>p. p\<lparr>workflow_member_registered := True\<rparr>) s2 else s2)"

definition mark_workflow :: "int \<Rightarrow> nat \<Rightarrow> kst \<Rightarrow> bool \<times> kst" where
  "mark_workflow type i s =
     (if type = AGENT_TYPE_PRIMARY
      then let s1 = (if workflow_member_registered (pr s i) then agent_workflow_leave i s else s)
           in (True, mark_own_workflow True i s1)
      else
        let s1 = upd_proc i (\<lambda>p. p\<lparr>is_workflow_leader := False\<rparr>) s
        in if workflow_id (pr s1 i) = 0 \<or> workflow_leader_generation (pr s1 i) = 0
           then (True, mark_own_workflow False i s1)
           else if \<not> workflow_member_registered (pr s1 i)
           then let (r, g) = agent_workflow_join_locked (pr s1 i) (ks_global s1);
                    s2 = s1\<lparr>ks_global := g\<rparr>
                in if r = AGENT_TOOL_OK then (True, upd_proc i (\<lambda>p. p\<lparr>workflow_member_registered := True\<rparr>) s2)
                   else (False, s2)
           else (True, s1))"

definition mark_reset :: "proc \<Rightarrow> proc" where
  "mark_reset p = (digest_clear (p\<lparr>context_generation := 1, context_first_sequence := 0, context_next_sequence := 1\<rparr>))
     \<lparr>wait_generation := 0, wait_timeout_ticks := 0, wait_deadline := 0, last_context_query := 0, context_reuse_hit := 0\<rparr>"

definition agent_mark_current :: "int \<Rightarrow> int \<Rightarrow> u64 \<Rightarrow> nat \<Rightarrow> kst \<Rightarrow> (u64 \<times> kst) option" where
  "agent_mark_current type0 interval quota i s =
     (let type = (if type0 \<le> AGENT_TYPE_NORMAL then AGENT_TYPE_PRIMARY else type0);
          now = agent_now_safe s
      in do {
           s1 \<leftarrow> agent_heartbeat_wheel_remove i s;
           (ok, s2) \<leftarrow> mark_region i s1;
           if \<not> ok then Some (-1, s2)
           else
             let s3 = mark_identity i (upd_proc i (mark_fields type interval quota now) s2);
                 (joined, s4) = mark_workflow type i s3
             in if \<not> joined then Some (-1, s4)
                else let s5 = upd_proc i (\<lambda>p. agent_context_clear now (mark_reset p)) s4
                     in do {
                          s6 \<leftarrow> (if heartbeat_interval (pr s5 i) > 0 then agent_heartbeat_wheel_reschedule i s5 else Some s5);
                          Some (context_region_start (pr s6 i), s6)
                        }
         })"

subsection \<open>Looking agents up\<close>

record agent_info =
  ai_context_start :: u64
  ai_context_size :: u64
  ai_agent_type :: int
  ai_heartbeat_interval :: int
  ai_resource_quota :: u64
  ai_loop_state :: int
  ai_context_path_len :: u64
  ai_context_node_count :: u64
  ai_dropped_nodes :: u64
  ai_agent_priority :: int
  ai_agent_group :: int
  ai_sched_priority :: int
  ai_sched_quota :: int
  ai_sched_budget :: int
  ai_agent_capabilities :: u64
  ai_mailbox_count :: u64
  ai_mailbox_dropped :: u64

definition agent_get_info :: "proc \<Rightarrow> agent_info" where
  "agent_get_info p = \<lparr>ai_context_start = context_region_start p, ai_context_size = context_region_size p,
     ai_agent_type = agent_type p, ai_heartbeat_interval = heartbeat_interval p,
     ai_resource_quota = resource_quota p, ai_loop_state = loop_state p,
     ai_context_path_len = context_path_len p, ai_context_node_count = context_node_count p,
     ai_dropped_nodes = context_dropped_nodes p, ai_agent_priority = agent_priority p,
     ai_agent_group = agent_group p, ai_sched_priority = agent_sched_priority p,
     ai_sched_quota = agent_sched_quota p, ai_sched_budget = agent_sched_budget p,
     ai_agent_capabilities = agent_capabilities p, ai_mailbox_count = u64_of_int (mb_count (mailbox p)),
     ai_mailbox_dropped = mb_dropped (mailbox p)\<rparr>"

definition cap_bit :: "u64 \<Rightarrow> int \<Rightarrow> bool" where
  "cap_bit caps k \<longleftrightarrow> caps AND push_bit (nat (k mod 64)) 1 \<noteq> 0"

definition query_agent_match :: "int \<Rightarrow> int \<Rightarrow> int \<Rightarrow> proc \<Rightarrow> bool" where
  "query_agent_match role capability grp p \<longleftrightarrow>
     \<not> (p_state p = UNUSED \<or> agent_type p = AGENT_TYPE_NORMAL) \<and>
     \<not> (role \<ge> 0 \<and> agent_role p \<noteq> role) \<and>
     \<not> (capability \<ge> 0 \<and> \<not> cap_bit (agent_capabilities p) capability) \<and>
     \<not> (grp > 0 \<and> agent_group p \<noteq> grp)"

definition query_agent_item :: "proc \<Rightarrow> sbuf \<Rightarrow> sbuf" where
  "query_agent_item p b =
     emit [Str ''{pid='', Num (u64_of_int (p_pid p)), Str '',type='', Num (u64_of_int (agent_type p)),
       Str '',role='', Num (u64_of_int (agent_role p)), Str '',caps='', Num (agent_capabilities p),
       Str '',group='', Num (u64_of_int (agent_group p)), Str '',state='',
       Num (u64_of_int (loop_state p)), Chr CHR ''}''] b"

definition query_agent_text :: "int \<Rightarrow> int \<Rightarrow> int \<Rightarrow> proc list \<Rightarrow> string" where
  "query_agent_text role capability grp ps =
     (let xs = filter (query_agent_match role capability grp) ps
      in sb_str (emit [Str ''],count='', Num (of_nat (length xs)), Chr CHR ''}''] (put_items query_agent_item xs (buf_puts ''{agents=['' (sbuf_new (int AGENT_TOOL_RESULT_MAX))))))"

definition agent_proc_query_agent :: "nat \<Rightarrow> int \<Rightarrow> int \<Rightarrow> int \<Rightarrow> u64 \<Rightarrow> u64 \<Rightarrow> kst \<Rightarrow> int \<times> kst" where
  "agent_proc_query_agent i role capability grp dst len s =
     with_page (-1) (\<lambda>s. copy_text i dst len (query_agent_text role capability grp (ks_procs s)) s) s"

subsection \<open>Properties\<close>

lemma cap_set_spec:
  assumes "agent_proc_cap_set i caps s = (r, t)"
  shows "length (ks_procs t) = length (ks_procs s) \<and> (\<forall>j. j \<noteq> i \<longrightarrow> pr t j = pr s j) \<and>
    (if r = 0 then caps AND NOT (agent_capabilities (pr s i)) = 0 \<and> agent_type (pr s i) \<noteq> AGENT_TYPE_NORMAL \<and>
        t = upd_proc i (\<lambda>p. p\<lparr>agent_capabilities := caps\<rparr>) s
     else ks_procs t = ks_procs s)"
  using assms by (auto simp: agent_proc_cap_set_def split: if_splits)

definition cap_subset :: "u64 \<Rightarrow> u64 \<Rightarrow> bool" where
  "cap_subset a b \<longleftrightarrow> a AND NOT b = 0"

lemma cap_subset_bit: "cap_subset a b \<longleftrightarrow> (\<forall>n. bit a n \<longrightarrow> bit b n)"
  unfolding cap_subset_def
proof
  assume z: "a AND NOT b = 0"
  show "\<forall>n. bit a n \<longrightarrow> bit b n"
  proof (intro allI impI)
    fix n assume "bit a n"
    moreover have "\<not> bit (a AND NOT b) n" by (simp add: z)
    ultimately show "bit b n" by (auto simp: bit_simps dest: bit_imp_le_length)
  qed
next
  assume "\<forall>n. bit a n \<longrightarrow> bit b n"
  then show "a AND NOT b = 0" by (intro bit_word_eqI) (simp add: bit_simps)
qed

lemma cap_subset_refl [simp]: "cap_subset a a"
  by (simp add: cap_subset_bit)

lemma cap_subset_trans: "cap_subset a b \<Longrightarrow> cap_subset b c \<Longrightarrow> cap_subset a c"
  by (simp add: cap_subset_bit)

lemma cap_set_shrinks:
  assumes "agent_proc_cap_set i caps s = (r, t)"
  shows "cap_subset (agent_capabilities (pr t j)) (agent_capabilities (pr s j))"
proof (cases "r = 0 \<and> i < length (ks_procs s) \<and> j = i")
  case True
  with cap_set_spec [OF assms] show ?thesis by (simp add: cap_subset_def)
next
  case False
  have "pr t j = pr s j"
  proof (cases "r = 0 \<and> j = i")
    case True
    with False cap_set_spec [OF assms] show ?thesis by (simp add: upd_proc_def list_update_beyond)
  next
    case False
    with cap_set_spec [OF assms] show ?thesis by (cases "j = i") (auto split: if_splits)
  qed
  then show ?thesis by simp
qed

text \<open>C17 (capabilities_only_shrink). Setting capabilities never escalates: after any sequence of
  \<open>agent_cap_set\<close> calls by any processes, with any arguments, every process has only capabilities it had
  before; in the last call of such a history an argument with a bit the caller lacks is refused and leaves
  the process table alone.\<close>

theorem capabilities_only_shrink:
  "agent_capabilities (pr (fold (\<lambda>(i, caps) s. snd (agent_proc_cap_set i caps s)) calls s) j)
     AND NOT (agent_capabilities (pr s j)) = 0 \<and>
   (caps AND NOT (agent_capabilities (pr s i)) \<noteq> 0 \<longrightarrow>
      fst (agent_proc_cap_set i caps s) \<noteq> AGENT_TOOL_OK \<and> ks_procs (snd (agent_proc_cap_set i caps s)) = ks_procs s)"
proof -
  have "cap_subset (agent_capabilities (pr (fold (\<lambda>(i, caps) s. snd (agent_proc_cap_set i caps s)) calls s) j))
      (agent_capabilities (pr s j))"
  proof (induction calls arbitrary: s)
    case Nil
    then show ?case by simp
  next
    case (Cons c calls)
    obtain i caps where c: "c = (i, caps)" by force
    obtain r t where t: "agent_proc_cap_set i caps s = (r, t)" by force
    show ?case using Cons.IH [of t] cap_set_shrinks [OF t, of j] c t by (auto intro: cap_subset_trans)
  qed
  then show ?thesis by (simp add: cap_subset_def agent_proc_cap_set_def)
qed

theorem capabilities_only_shrink_witness:
  "fst (agent_proc_cap_set 0 64 (boot_kst [(wit_agent 1)\<lparr>agent_capabilities := 7\<rparr>])) = AGENT_TOOL_ERR_PERMISSION"
proof -
  let ?s = "boot_kst [(wit_agent 1)\<lparr>agent_capabilities := 7\<rparr>]"
  have "fst (agent_proc_cap_set 0 64 ?s) \<noteq> AGENT_TOOL_OK"
    using capabilities_only_shrink [of "[]" ?s 0 64 0] by simp
  then show ?thesis by (auto simp: agent_proc_cap_set_def wit_agent_def split: if_splits)
qed

text \<open>A role is taken at most once: the first successful \<open>agent_role_set\<close> gives exactly the
  role's capabilities, and the next call, with any role, is refused and changes nothing.\<close>

theorem role_taken_once:
  assumes "i < length (ks_procs s)" and "agent_proc_role_set i role s = (AGENT_TOOL_OK, t)"
  shows "agent_role (pr t i) = role \<and> agent_capabilities (pr t i) = agent_role_default_caps role \<and>
    (\<forall>role'. fst (agent_proc_role_set i role' t) \<noteq> AGENT_TOOL_OK \<and> snd (agent_proc_role_set i role' t) = t)"
  using assms by (auto simp: agent_proc_role_set_def split: if_splits)

theorem role_taken_once_witness:
  "fst (agent_proc_role_set 0 5 (snd (agent_proc_role_set 0 2 (boot_kst [wit_agent 1])))) \<noteq> AGENT_TOOL_OK"
proof -
  obtain r t where t: "agent_proc_role_set 0 2 (boot_kst [wit_agent 1]) = (r, t)" by force
  then have "r = AGENT_TOOL_OK" by (auto simp: agent_proc_role_set_def wit_agent_def zero_proc_def split: if_splits)
  then show ?thesis using role_taken_once [of 0 "boot_kst [wit_agent 1]" 2 t] t by simp
qed

lemma fork_join_frame:
  "length (ks_procs (fork_join d s)) = length (ks_procs s) \<and> (\<forall>j. j \<noteq> d \<longrightarrow> pr (fork_join d s) j = pr s j)"
  by (simp add: fork_join_def Let_def case_prod_beta)

lemma fork_join_fields:
  assumes "d < length (ks_procs s)"
  shows "pr (fork_join d s) d = (pr s d)\<lparr>workflow_member_registered := workflow_member_registered (pr (fork_join d s) d),
      p_killed := p_killed (pr (fork_join d s) d)\<rparr>"
    "\<lbrakk>workflow_id (pr s d) \<noteq> 0; workflow_leader_generation (pr s d) \<noteq> 0\<rbrakk> \<Longrightarrow>
       workflow_member_registered (pr (fork_join d s) d) \<or> p_killed (pr (fork_join d s) d)"
  using assms by (simp_all add: fork_join_def Let_def case_prod_beta)



end
