(* ===== verification/FileIndex.thy ===== *)
theory FileIndex
  imports Identity Params
begin

text \<open>
  The file index and the file query tools (kernel/agent\_fs.c): the table of file metadata built by
  walking the directory tree, the hash index from attributes to files, the query language, the shared
  query cache with its version and access rule, and the tools that set, read, delete attributes and
  query files.
\<close>

abbreviation (input) AGENT_FILE_META_MAX :: nat where "AGENT_FILE_META_MAX \<equiv> 160"
abbreviation (input) AGENT_FILE_PATH_MAX :: nat where "AGENT_FILE_PATH_MAX \<equiv> 64"
abbreviation (input) AGENT_FILE_INDEX_BUCKETS :: nat where "AGENT_FILE_INDEX_BUCKETS \<equiv> 67"
abbreviation (input) AGENT_FILE_RESULT_MAX :: nat where "AGENT_FILE_RESULT_MAX \<equiv> 3"
abbreviation (input) AGENT_FILE_QUERY_COND_MAX :: nat where "AGENT_FILE_QUERY_COND_MAX \<equiv> 6"
abbreviation (input) AGENT_FILE_POSTING_MAX :: nat where "AGENT_FILE_POSTING_MAX \<equiv> 640"
abbreviation (input) INODE_ATTR_MAX :: nat where "INODE_ATTR_MAX \<equiv> 4"
abbreviation (input) INODE_ATTR_KEY_MAX :: nat where "INODE_ATTR_KEY_MAX \<equiv> 8"
abbreviation (input) INODE_ATTR_VALUE_MAX :: nat where "INODE_ATTR_VALUE_MAX \<equiv> 16"
abbreviation (input) INODE_SUMMARY_MAX :: nat where "INODE_SUMMARY_MAX \<equiv> 64"

definition tool_resp_set :: "int \<Rightarrow> string \<Rightarrow> agent_tool_response" where
  "tool_resp_set status result =
     (let r = safestr AGENT_TOOL_RESULT_MAX result
      in \<lparr>rs_status = status, rs_result_len = of_nat (strlen r), rs_result = r\<rparr>)"

subsection \<open>Attributes and their hash index\<close>

definition hash_char :: "char \<Rightarrow> u32 \<Rightarrow> u32" where
  "hash_char c h = (push_bit 5 h + h) + of_nat (of_char c)"

definition file_attr_hash :: "string \<Rightarrow> string \<Rightarrow> nat" where
  "file_attr_hash key val =
     unat (fold hash_char (cstr val) (hash_char CHR ''='' (fold hash_char (cstr key) 5381)) mod of_nat AGENT_FILE_INDEX_BUCKETS)"

definition file_attr_match :: "inode_attr list \<Rightarrow> int \<Rightarrow> string \<Rightarrow> string \<Rightarrow> bool" where
  "file_attr_match attrs count key val \<longleftrightarrow>
     (\<exists>a \<in> set (take (nat count) attrs). streq (at_key a) key \<and> streq (at_value a) val)"

definition file_index_reset_locked :: "kst \<Rightarrow> kst" where
  "file_index_reset_locked s = s\<lparr>ks_file_index := replicate AGENT_FILE_INDEX_BUCKETS (-1),
     ks_file_postings := replicate AGENT_FILE_POSTING_MAX zero_posting\<rparr>"

definition file_add_posting_locked :: "int \<Rightarrow> string \<Rightarrow> string \<Rightarrow> kst \<Rightarrow> int \<times> kst" where
  "file_add_posting_locked entry_idx key val s =
     (case first_slot (\<lambda>p. \<not> fp_used p) (ks_file_postings s) of
        None \<Rightarrow> (-1, s)
      | Some slot \<Rightarrow>
          let h = file_attr_hash key val;
              p = (ks_file_postings s ! slot)\<lparr>fp_used := True, fp_entry_idx := entry_idx,
                    fp_key := safestr INODE_ATTR_KEY_MAX key, fp_value := safestr INODE_ATTR_VALUE_MAX val,
                    fp_next := ks_file_index s ! h\<rparr>
          in (0, s\<lparr>ks_file_postings := (ks_file_postings s)[slot := p],
                  ks_file_index := (ks_file_index s)[h := int slot]\<rparr>))"

definition file_cache_find_by_inum_locked :: "u32 \<Rightarrow> agent_file_meta list \<Rightarrow> nat option" where
  "file_cache_find_by_inum_locked inum ms = first_slot (\<lambda>m. fm_used m \<and> fm_inum m = inum) ms"

definition file_cache_fill_from_inode_locked :: "inode \<Rightarrow> string \<Rightarrow> agent_file_meta" where
  "file_cache_fill_from_inode_locked ip path =
     zero_meta\<lparr>fm_used := True, fm_inum := in_inum ip, fm_dev := in_dev ip, fm_attr_count := di_attr_count ip,
       fm_path := safestr AGENT_FILE_PATH_MAX path, fm_summary := safestr INODE_SUMMARY_MAX (di_summary ip),
       fm_attrs := di_attrs ip\<rparr>"

definition file_cache_upsert_locked :: "inode \<Rightarrow> string \<Rightarrow> kst \<Rightarrow> int \<times> kst" where
  "file_cache_upsert_locked ip path s =
     (case (case file_cache_find_by_inum_locked (in_inum ip) (ks_file_meta s) of
              Some k \<Rightarrow> Some k | None \<Rightarrow> first_slot (\<lambda>m. \<not> fm_used m) (ks_file_meta s)) of
        None \<Rightarrow> (-1, s)
      | Some k \<Rightarrow> (int k, s\<lparr>ks_file_meta := (ks_file_meta s)[k := file_cache_fill_from_inode_locked ip path]\<rparr>))"

text \<open>The attributes of the files in use, in the order the two loops visit them.\<close>

definition meta_attrs :: "agent_file_meta \<Rightarrow> inode_attr list" where
  "meta_attrs m = take (nat (fm_attr_count m)) (fm_attrs m)"

definition postings_of :: "agent_file_meta list \<Rightarrow> (nat \<times> inode_attr) list" where
  "postings_of ms = concat (map (\<lambda>i. if fm_used (ms ! i) then map (Pair i) (meta_attrs (ms ! i)) else []) [0..<length ms])"

definition file_rebuild_postings_locked :: "kst \<Rightarrow> kst" where
  "file_rebuild_postings_locked s =
     fold (\<lambda>(i, a) s. snd (file_add_posting_locked (int i) (at_key a) (at_value a) s))
       (postings_of (ks_file_meta s)) (file_index_reset_locked s)"

subsection \<open>Walking the directory tree\<close>

definition file_join_path :: "string \<Rightarrow> string \<Rightarrow> nat \<Rightarrow> string option" where
  "file_join_path base name outsz =
     (if hd0 base \<noteq> NUL
      then let b = safestr outsz base; pos = length b
           in if pos \<ge> outsz - 1 then None
              else if pos + 1 \<ge> outsz - 1 then None
              else Some (b @ CHR ''/'' # safestr (outsz - (pos + 1)) name)
      else if 0 \<ge> outsz - 1 then None
      else Some (safestr outsz name))"

text \<open>One directory, entry by entry; \<open>down\<close> is the recursive call on a child.\<close>

function walk_dir :: "(nat \<Rightarrow> string \<Rightarrow> kst \<Rightarrow> kst option) \<Rightarrow> nat \<Rightarrow> string \<Rightarrow> nat \<Rightarrow> nat \<Rightarrow> kst \<Rightarrow> kst option" where
  "walk_dir down ip path sz off s =
     (if off + DIRENT_SIZE \<le> sz
      then case readi_kernel ip (of_nat off) (of_nat DIRENT_SIZE) (ks_fs s) of
             None \<Rightarrow> None
           | Some (r, de, fs1) \<Rightarrow>
               let s1 = s\<lparr>ks_fs := fs1\<rparr>; name = dirent_name de; skip = walk_dir down ip path sz (off + DIRENT_SIZE)
               in if r \<noteq> int DIRENT_SIZE then Some s1
                  else if dirent_inum de = 0 then skip s1
                  else if namecmp name ''.'' = 0 \<or> namecmp name ''..'' = 0 then skip s1
                  else (case file_join_path path name AGENT_FILE_PATH_MAX of
                          None \<Rightarrow> skip s1
                        | Some child_path \<Rightarrow>
                            (case dirlookup ip name (ks_fs s1) of
                               None \<Rightarrow> None
                             | Some (None, fs2) \<Rightarrow> skip (s1\<lparr>ks_fs := fs2\<rparr>)
                             | Some (Some (child, _), fs2) \<Rightarrow>
                                 (case (do { s3 \<leftarrow> on_fs (ilock child) (s1\<lparr>ks_fs := fs2\<rparr>);
                                             s4 \<leftarrow> down child child_path s3;
                                             on_fs (iunlockput child) s4 }) of
                                    None \<Rightarrow> None
                                  | Some s5 \<Rightarrow> skip s5)))
      else Some s)"
  by pat_completeness auto
termination
  by (relation "measure (\<lambda>(down, ip, path, sz, off, s). sz - off)") auto

declare walk_dir.simps [simp del]

primrec file_index_walk :: "nat \<Rightarrow> nat \<Rightarrow> string \<Rightarrow> kst \<Rightarrow> kst option" where
  "file_index_walk 0 = (\<lambda>ip path s. None)"
| "file_index_walk (Suc fuel) = (\<lambda>ip path s.
     if di_type (fs_ino s ip) = T_FILE then Some (snd (file_cache_upsert_locked (fs_ino s ip) path s))
     else if di_type (fs_ino s ip) \<noteq> T_DIR then Some s
     else walk_dir (file_index_walk fuel) ip path (unat (di_size (fs_ino s ip))) 0 s)"

text \<open>Every step down adds at least one character to the path, and a path of 63 characters has no
  children: a tree without empty names is never deeper than 64.\<close>

abbreviation (input) WALK_FUEL :: nat where "WALK_FUEL \<equiv> 66"

definition file_index_build :: "kst \<Rightarrow> kst option" where
  "file_index_build s =
     (case namei 0 ''/'' (ks_fs s) of
        None \<Rightarrow> None
      | Some (None, fs1) \<Rightarrow> Some (s\<lparr>ks_fs := fs1\<rparr>)
      | Some (Some root, fs1) \<Rightarrow>
          do {
            s1 \<leftarrow> on_fs (ilock root) (s\<lparr>ks_fs := fs1\<rparr>);
            s2 \<leftarrow> file_index_walk WALK_FUEL root []
                   (file_index_reset_locked (s1\<lparr>ks_file_meta := replicate AGENT_FILE_META_MAX zero_meta\<rparr>));
            s3 \<leftarrow> on_fs (iunlockput root) s2;
            Some ((file_rebuild_postings_locked s3)\<lparr>ks_file_index_ready := True\<rparr>)
          })"

definition file_index_ensure :: "kst \<Rightarrow> kst option" where
  "file_index_ensure s = (if ks_file_index_ready s then Some s else file_index_build s)"

subsection \<open>Queries\<close>

record file_query =
  fq_conds :: "(string \<times> string) list"
  fq_keyword :: string
  fq_force_scan :: bool

text \<open>The rest of the string after one \<open>key=value\<close>, with key and value cut to the sizes of their
  buffers; \<open>None\<close> when the key is not followed by \<open>=\<close>.\<close>

definition query_item :: "string \<Rightarrow> (string \<times> string \<times> string) option" where
  "query_item p =
     (let key = take (INODE_ATTR_KEY_MAX - 1) (takeWhile (\<lambda>c. c \<noteq> NUL \<and> c \<noteq> CHR ''='' \<and> c \<noteq> CHR '';'') p);
          p1 = drop (length key) p
      in if hd0 p1 \<noteq> CHR ''='' then None
         else let p2 = tl p1;
                  val = take (INODE_ATTR_VALUE_MAX - 1) (takeWhile (\<lambda>c. c \<noteq> NUL \<and> c \<noteq> CHR '';'') p2);
                  p3 = drop (length val) p2
              in Some (key, val, p3))"

lemma query_item_shorter:
  assumes "query_item p = Some (key, val, rest)"
  shows "length rest < length p"
proof -
  define k where "k = take (INODE_ATTR_KEY_MAX - 1) (takeWhile (\<lambda>c. c \<noteq> NUL \<and> c \<noteq> CHR ''='' \<and> c \<noteq> CHR '';'') p)"
  have h: "hd0 (drop (length k) p) = CHR ''=''"
    and r: "rest = drop (length val) (tl (drop (length k) p))"
    using assms by (auto simp: query_item_def Let_def k_def split: if_splits)
  from h have "drop (length k) p \<noteq> []" by auto
  then have "length (tl (drop (length k) p)) < length (drop (length k) p)" by simp
  then show ?thesis unfolding r by simp
qed

definition query_key :: "string \<Rightarrow> string \<Rightarrow> file_query \<Rightarrow> file_query option" where
  "query_key key val q =
     (if streq key ''keyword'' then Some (q\<lparr>fq_keyword := safestr INODE_ATTR_VALUE_MAX val\<rparr>)
      else if streq key ''public'' then Some q
      else if streq key ''mode'' then Some (if streq val ''scan'' then q\<lparr>fq_force_scan := True\<rparr> else q)
      else if streq key ''nonce'' then Some q
      else if length (fq_conds q) < AGENT_FILE_QUERY_COND_MAX
      then Some (q\<lparr>fq_conds := fq_conds q @ [(safestr INODE_ATTR_KEY_MAX key, safestr INODE_ATTR_VALUE_MAX val)]\<rparr>)
      else None)"

function query_parse_loop :: "string \<Rightarrow> file_query \<Rightarrow> file_query option" where
  "query_parse_loop p q =
     (let p0 = dropWhile (\<lambda>c. c = CHR '';'') p
      in if hd0 p0 = NUL then Some q
         else case query_item p0 of
                None \<Rightarrow> None
              | Some (key, val, rest) \<Rightarrow>
                  (case query_key key val q of
                     None \<Rightarrow> None
                   | Some q' \<Rightarrow> query_parse_loop (if hd0 rest = CHR '';'' then tl rest else rest) q'))"
  by pat_completeness auto
termination
proof (relation "measure (\<lambda>(p, q). length p)", simp)
  fix p q p0 x key y val rest q'
  assume a: "p0 = dropWhile (\<lambda>c. c = CHR '';'') p" and b: "query_item p0 = Some x" "(key, y) = x" "(val, rest) = y"
  have "length rest < length p0" using query_item_shorter b by blast
  also have "\<dots> \<le> length p" using a by (simp add: length_dropWhile_le)
  finally have "length rest < length p" .
  then show "((if hd0 rest = CHR '';'' then tl rest else rest, q'), p, q) \<in> measure (\<lambda>(p, q). length p)"
    by auto
qed

declare query_parse_loop.simps [simp del]

definition file_query_parse :: "string \<Rightarrow> file_query option" where
  "file_query_parse params = query_parse_loop params \<lparr>fq_conds = [], fq_keyword = [], fq_force_scan = False\<rparr>"

definition file_meta_matches :: "file_query \<Rightarrow> agent_file_meta \<Rightarrow> bool" where
  "file_meta_matches q m \<longleftrightarrow>
     (\<forall>(k, v) \<in> set (fq_conds q). file_attr_match (fm_attrs m) (fm_attr_count m) k v) \<and>
     (hd0 (fq_keyword q) = NUL \<or> str_contains (fm_summary m) (fq_keyword q))"

definition append_file_result :: "agent_file_meta \<Rightarrow> sbuf \<Rightarrow> sbuf" where
  "append_file_result m b =
     emit [Str '',summary='', Str (fm_summary m), Chr CHR ''}''] (fold (\<lambda>a b. emit [Chr CHR '','', Str (at_key a), Chr CHR ''='', Str (at_value a)] b)
          (meta_attrs m) (emit [Str ''{path='', Str (fm_path m)] b))"

subsection \<open>The shared query cache\<close>

definition query_allows_public_share :: "string \<Rightarrow> bool" where
  "query_allows_public_share params \<longleftrightarrow>
     (case param_value params ''public'' (int INODE_ATTR_VALUE_MAX) of Some v \<Rightarrow> streq v ''true'' | None \<Rightarrow> False) \<or>
     (case param_value params ''owner'' (int INODE_ATTR_VALUE_MAX) of Some v \<Rightarrow> streq v ''system'' | None \<Rightarrow> False)"

definition cache_access_allowed :: "proc \<Rightarrow> shared_query_cache \<Rightarrow> bool" where
  "cache_access_allowed p e \<longleftrightarrow>
     query_allows_public_share (qc_query e) \<or> (agent_group p \<noteq> 0 \<and> agent_group p = qc_owner_group e)"

definition query_result_with_cache :: "string \<Rightarrow> bool \<Rightarrow> int \<Rightarrow> int \<Rightarrow> u64 \<Rightarrow> int \<Rightarrow> string" where
  "query_result_with_cache base hit owner_pid refcnt version fs_scanned =
     (let b = cstr base; b' = (if b \<noteq> [] \<and> last b = CHR ''}'' then butlast b else b)
      in sb_str (emit [Str '',cache_hit='', Num (if hit then 1 else 0), Str '',cache_owner='',
       Num (u64_of_int owner_pid), Str '',cache_refcnt='', Num (u64_of_int refcnt),
       Str '',cache_version='', Num version, Str '',fs_scanned='', Num (u64_of_int fs_scanned),
       Chr CHR ''}''] (fold buf_putc b' (sbuf_new (int AGENT_TOOL_RESULT_MAX)))))"

definition cache_hit :: "proc \<Rightarrow> string \<Rightarrow> u64 \<Rightarrow> shared_query_cache \<Rightarrow> bool" where
  "cache_hit p query version e \<longleftrightarrow>
     qc_used e \<and> qc_version e = version \<and> streq (qc_query e) query \<and> cache_access_allowed p e"

definition shared_query_cache_lookup :: "nat \<Rightarrow> string \<Rightarrow> kst \<Rightarrow> agent_tool_response option \<times> kst" where
  "shared_query_cache_lookup i query s =
     with_page (Some (tool_resp_set AGENT_TOOL_ERR_NO_SPACE ''no memory'')) (\<lambda>s.
       case first_slot (cache_hit (pr s i) query (ks_agent_file_version s)) (ks_query_cache s) of
         None \<Rightarrow> (None, s\<lparr>ks_cache_misses := ks_cache_misses s + 1\<rparr>)
       | Some k \<Rightarrow>
           let e = (ks_query_cache s ! k)\<lparr>qc_refcnt := qc_refcnt (ks_query_cache s ! k) + 1\<rparr>
           in (Some (tool_resp_set AGENT_TOOL_OK
                 (query_result_with_cache (qc_result e) True (qc_owner_pid e) (qc_refcnt e) (qc_version e) 0)),
               s\<lparr>ks_query_cache := (ks_query_cache s)[k := e], ks_cache_hits := ks_cache_hits s + 1\<rparr>)) s"

definition shared_query_cache_store :: "nat \<Rightarrow> string \<Rightarrow> string \<Rightarrow> kst \<Rightarrow> kst" where
  "shared_query_cache_store i query result s =
     (let k = (case first_slot (\<lambda>e. qc_used e \<and> streq (qc_query e) query) (ks_query_cache s) of
                 Some k \<Rightarrow> k
               | None \<Rightarrow> (case first_slot (\<lambda>e. \<not> qc_used e) (ks_query_cache s) of Some k \<Rightarrow> k | None \<Rightarrow> 0))
      in s\<lparr>ks_query_cache := (ks_query_cache s)[k := \<lparr>qc_used = True,
             qc_query = safestr AGENT_TOOL_PARAM_MAX query, qc_result = safestr AGENT_TOOL_RESULT_MAX result,
             qc_owner_pid = p_pid (pr s i), qc_owner_group = agent_group (pr s i), qc_refcnt = 1,
             qc_version = ks_agent_file_version s\<rparr>]\<rparr>)"

definition agent_file_version_bump :: "kst \<Rightarrow> kst" where
  "agent_file_version_bump s = s\<lparr>ks_agent_file_version := ks_agent_file_version s + 1\<rparr>"


subsection \<open>The attribute tools\<close>

definition inode_summary_refresh :: "nat \<Rightarrow> fsk \<Rightarrow> fsk option" where
  "inode_summary_refresh ip fs =
     (case readi_kernel ip 0 (of_nat (INODE_SUMMARY_MAX - 1)) fs of
        None \<Rightarrow> None
      | Some (n, bs, fs1) \<Rightarrow> Some (upd_ino ip (\<lambda>i. i\<lparr>di_summary := (if n < 0 then [] else cstr bs)\<rparr>) fs1))"

definition agentfs_content_changed :: "kst \<Rightarrow> kst option" where
  "agentfs_content_changed s = map_option (\<lambda>s1. agent_signal_filemod (agent_file_version_bump s1)) (file_index_build s)"

definition attr_slot :: "inode \<Rightarrow> string \<Rightarrow> nat option" where
  "attr_slot ip key = first_slot (\<lambda>a. streq (at_key a) key) (take (nat (di_attr_count ip)) (di_attrs ip))"

definition set_attr :: "string \<Rightarrow> string \<Rightarrow> inode \<Rightarrow> inode option" where
  "set_attr key val ip =
     (case attr_slot ip key of
        Some k \<Rightarrow> Some (ip\<lparr>di_attrs := (di_attrs ip)[k := (di_attrs ip ! k)\<lparr>at_value := safestr INODE_ATTR_VALUE_MAX val\<rparr>]\<rparr>)
      | None \<Rightarrow>
          if di_attr_count ip \<ge> int INODE_ATTR_MAX then None
          else Some (ip\<lparr>di_attrs := (di_attrs ip)[nat (di_attr_count ip) :=
                   \<lparr>at_key = safestr INODE_ATTR_KEY_MAX key, at_value = safestr INODE_ATTR_VALUE_MAX val\<rparr>],
                 di_attr_count := di_attr_count ip + 1\<rparr>))"

definition del_attr :: "nat \<Rightarrow> inode \<Rightarrow> inode" where
  "del_attr k ip =
     (let n = nat (di_attr_count ip); xs = di_attrs ip
      in ip\<lparr>di_attrs := map (\<lambda>j. if k \<le> j \<and> Suc j < n then xs ! Suc j else if Suc j = n then zero_attr else xs ! j) [0..<length xs],
            di_attr_count := di_attr_count ip - 1\<rparr>)"

text \<open>Every error of a tool: the response, and the state as it is.\<close>

abbreviation tool_fail :: "int \<Rightarrow> string \<Rightarrow> kst \<Rightarrow> (agent_tool_response \<times> kst) option" where
  "tool_fail status text s \<equiv> Some (tool_resp_set status text, s)"

definition agentfs_tool_set_file_attr :: "nat \<Rightarrow> agent_tool_request \<Rightarrow> kst \<Rightarrow> (agent_tool_response \<times> kst) option" where
  "agentfs_tool_set_file_attr i req s =
     (case (param_value (rq_params req) ''path'' (int AGENT_FILE_PATH_MAX),
            param_value (rq_params req) ''key'' (int INODE_ATTR_KEY_MAX),
            param_value (rq_params req) ''value'' (int INODE_ATTR_VALUE_MAX)) of
        (Some path, Some key, Some val) \<Rightarrow>
          do {
            (f, s1) \<leftarrow> open_file i path s;
            (case f of
               Inl True \<Rightarrow> tool_fail AGENT_TOOL_ERR_BAD_PARAM ''file not found'' s1
             | Inl False \<Rightarrow> tool_fail AGENT_TOOL_ERR_BAD_PARAM ''not a file'' s1
             | Inr ip \<Rightarrow>
                 (case set_attr key val (fs_ino s1 ip) of
                    None \<Rightarrow> do { s2 \<leftarrow> on_fs (iunlockput ip) s1; tool_fail AGENT_TOOL_ERR_NO_SPACE ''too many attrs'' s2 }
                  | Some inode \<Rightarrow>
                      do {
                        s2 \<leftarrow> on_fs (\<lambda>fs. map_option (iupdate ip) (inode_summary_refresh ip (upd_ino ip (\<lambda>_. inode) fs))) s1;
                        s3 \<leftarrow> on_fs (iunlockput ip) s2;
                        s4 \<leftarrow> file_index_build s3;
                        Some (tool_resp_set AGENT_TOOL_OK ''attr set'', agent_signal_filemod (agent_file_version_bump s4))
                      }))
          }
      | _ \<Rightarrow> tool_fail AGENT_TOOL_ERR_BAD_PARAM ''bad params'' s)"

text \<open>The file of a path, locked, of any type: what the other two attribute tools do.\<close>

definition open_any :: "nat \<Rightarrow> string \<Rightarrow> kst \<Rightarrow> (nat option \<times> kst) option" where
  "open_any i path s =
     do {
       (r, s1) \<leftarrow> fs_namei i path s;
       (case r of None \<Rightarrow> Some (None, s1) | Some ip \<Rightarrow> do { s2 \<leftarrow> on_fs (ilock ip) s1; Some (Some ip, s2) })
     }"

definition attr_text :: "string \<Rightarrow> string \<Rightarrow> string \<Rightarrow> string" where
  "attr_text path key val = sb_str (emit [Str ''{status=ok,path='', Str path, Chr CHR '','', Str key, Chr CHR ''='', Str val,
       Chr CHR ''}''] (sbuf_new (int AGENT_TOOL_RESULT_MAX)))"

definition agentfs_tool_get_file_attr :: "nat \<Rightarrow> agent_tool_request \<Rightarrow> kst \<Rightarrow> (agent_tool_response \<times> kst) option" where
  "agentfs_tool_get_file_attr i req s =
     (case (param_value (rq_params req) ''path'' (int AGENT_FILE_PATH_MAX),
            param_value (rq_params req) ''key'' (int INODE_ATTR_KEY_MAX)) of
        (Some path, Some key) \<Rightarrow>
          (case alloc_pages 1 s of
             None \<Rightarrow> tool_fail AGENT_TOOL_ERR_NO_SPACE ''no memory'' s
           | Some (pages, s0) \<Rightarrow>
               do {
                 (f, s1) \<leftarrow> open_any i path s0;
                 (case f of
                    None \<Rightarrow> tool_fail AGENT_TOOL_ERR_BAD_PARAM ''file not found'' (free_pages pages s1)
                  | Some ip \<Rightarrow>
                      do {
                        s2 \<leftarrow> on_fs (iunlockput ip) s1;
                        (case attr_slot (fs_ino s1 ip) key of
                           None \<Rightarrow> tool_fail AGENT_TOOL_ERR_BAD_PARAM ''attr not found'' (free_pages pages s2)
                         | Some k \<Rightarrow> Some (tool_resp_set AGENT_TOOL_OK (attr_text path key (at_value (di_attrs (fs_ino s1 ip) ! k))),
                                           free_pages pages s2))
                      })
               })
      | _ \<Rightarrow> tool_fail AGENT_TOOL_ERR_BAD_PARAM ''bad params'' s)"

definition agentfs_tool_del_file_attr :: "nat \<Rightarrow> agent_tool_request \<Rightarrow> kst \<Rightarrow> (agent_tool_response \<times> kst) option" where
  "agentfs_tool_del_file_attr i req s =
     (case (param_value (rq_params req) ''path'' (int AGENT_FILE_PATH_MAX),
            param_value (rq_params req) ''key'' (int INODE_ATTR_KEY_MAX)) of
        (Some path, Some key) \<Rightarrow>
          do {
            (f, s1) \<leftarrow> open_any i path s;
            (case f of
               None \<Rightarrow> tool_fail AGENT_TOOL_ERR_BAD_PARAM ''file not found'' s1
             | Some ip \<Rightarrow>
                 (case attr_slot (fs_ino s1 ip) key of
                    None \<Rightarrow> do { s2 \<leftarrow> on_fs (iunlockput ip) s1; tool_fail AGENT_TOOL_ERR_BAD_PARAM ''attr not found'' s2 }
                  | Some k \<Rightarrow>
                      do {
                        s2 \<leftarrow> on_fs (\<lambda>fs. iunlockput ip (iupdate ip (upd_ino ip (del_attr k) fs))) s1;
                        s3 \<leftarrow> file_index_build s2;
                        Some (tool_resp_set AGENT_TOOL_OK ''attr deleted'', agent_signal_filemod (agent_file_version_bump s3))
                      }))
          }
      | _ \<Rightarrow> tool_fail AGENT_TOOL_ERR_BAD_PARAM ''bad params'' s)"

subsection \<open>The query tool\<close>

text \<open>\<open>for(post = file_index[h]; post >= 0; post = file_postings[post].next)\<close>: the postings visited.\<close>

fun posting_chain :: "nat \<Rightarrow> int \<Rightarrow> agent_file_posting list \<Rightarrow> nat list option" where
  "posting_chain fuel post ps =
     (if post < 0 then Some []
      else (case fuel of
              0 \<Rightarrow> None
            | Suc f \<Rightarrow> map_option (Cons (nat post)) (posting_chain f (fp_next (ps ! nat post)) ps)))"

declare posting_chain.simps [simp del]

definition posting_hit :: "file_query \<Rightarrow> string \<Rightarrow> string \<Rightarrow> kst \<Rightarrow> nat \<Rightarrow> agent_file_meta option" where
  "posting_hit q key val s post =
     (let p = ks_file_postings s ! post
      in if \<not> streq (fp_key p) key \<or> \<not> streq (fp_value p) val then None
         else if fp_entry_idx p < 0 \<or> fp_entry_idx p \<ge> int AGENT_FILE_META_MAX then None
         else let m = ks_file_meta s ! nat (fp_entry_idx p)
              in if fm_used m \<and> file_meta_matches q m then Some m else None)"

text \<open>The files found, the entries looked at, and whether the index was used.\<close>

definition query_search :: "file_query \<Rightarrow> kst \<Rightarrow> (agent_file_meta list \<times> nat \<times> bool) option" where
  "query_search q s =
     (if fq_conds q \<noteq> [] \<and> \<not> fq_force_scan q
      then let (key, val) = hd (fq_conds q)
           in map_option (\<lambda>posts. (List.map_filter (posting_hit q key val s) posts, length posts, True))
                (posting_chain (length (ks_file_postings s)) (ks_file_index s ! file_attr_hash key val) (ks_file_postings s))
      else let used = filter fm_used (ks_file_meta s)
           in Some (filter (file_meta_matches q) used, length used, False))"

definition query_text :: "file_query \<Rightarrow> agent_file_meta list \<Rightarrow> nat \<Rightarrow> nat \<Rightarrow> bool \<Rightarrow> u64 \<Rightarrow> string" where
  "query_text q ms index_scanned full_scanned used_index ticks_cost = sb_str
     (emit [Str ''],count='', Num (of_nat (length ms)), Str '',used_index='',
       Num (if used_index then 1 else 0), Str '',index_scanned='', Num (of_nat index_scanned),
       Str '',full_scanned='', Num (of_nat full_scanned), Str '',ticks_cost='', Num ticks_cost,
       Str '',query_plan='', Str (if used_index then ''index'' else ''scan''), Str '',plan_reason='',
       Str (if fq_force_scan q then ''forced_scan'' else if used_index then ''indexed_key'' else ''no_index_key''),
       Chr CHR ''}''] (put_items append_file_result (take AGENT_FILE_RESULT_MAX ms)
        (buf_puts ''{status=ok,files=['' (sbuf_new (int AGENT_TOOL_RESULT_MAX)))))"

text \<open>The query runs within one tick, so \<open>ticks_end - ticks_begin\<close> is 0.\<close>

definition query_run :: "nat \<Rightarrow> agent_tool_request \<Rightarrow> kst \<Rightarrow> (agent_tool_response \<times> kst) option" where
  "query_run i req s =
     do {
       s1 \<leftarrow> file_index_ensure s;
       (case file_query_parse (rq_params req) of
          None \<Rightarrow> tool_fail AGENT_TOOL_ERR_BAD_PARAM ''bad params'' s1
        | Some q \<Rightarrow>
            do {
              (ms, scanned, used_index) \<leftarrow> query_search q s1;
              let full = length (filter fm_used (ks_file_meta s1));
              let text = query_text q ms scanned full used_index 0;
              let s2 = shared_query_cache_store i (rq_params req) text s1;
              let result = query_result_with_cache text False (p_pid (pr s2 i)) 1 (ks_agent_file_version s2) (int full);
              Some (tool_resp_set AGENT_TOOL_OK result,
                    agent_workflow_metric_query (of_nat scanned) (if used_index then of_nat scanned else 0) False i s2)
            })
     }"

definition agentfs_tool_query_file :: "nat \<Rightarrow> agent_tool_request \<Rightarrow> kst \<Rightarrow> (agent_tool_response \<times> kst) option" where
  "agentfs_tool_query_file i req s =
     (case alloc_pages 2 s of
        None \<Rightarrow> tool_fail AGENT_TOOL_ERR_NO_SPACE ''no memory'' s
      | Some (pages, s0) \<Rightarrow>
          map_option (\<lambda>(resp, s2). (resp, free_pages pages s2))
            (case shared_query_cache_lookup i (rq_params req) s0 of
               (Some resp, s1) \<Rightarrow> Some (resp, agent_workflow_metric_query 0 0 True i s1)
             | (None, s1) \<Rightarrow> query_run i req s1))"

end
