(* ===== verification/FileQueries.thy ===== *)
theory FileQueries
  imports FileIndex
begin

text \<open>
  Correctness of the file index and of the query cache (kernel/agent\_fs.c). The attributes of an
  inode are a finite map, kept by the attribute tools; the hash index built from the metadata table
  answers a query with exactly the files the full scan finds; a cached answer is served only for the
  same query, to an agent that may see it, while no file has changed.
\<close>

subsection \<open>The attributes of an inode are a map\<close>

definition attrs_ok :: "int \<Rightarrow> inode_attr list \<Rightarrow> bool" where
  "attrs_ok n as \<longleftrightarrow> 0 \<le> n \<and> n \<le> int INODE_ATTR_MAX \<and> length as = INODE_ATTR_MAX \<and>
     distinct (map at_key (take (nat n) as)) \<and>
     (\<forall>a \<in> set (take (nat n) as). safestr INODE_ATTR_KEY_MAX (at_key a) = at_key a \<and>
        safestr INODE_ATTR_VALUE_MAX (at_value a) = at_value a)"

definition attr_map :: "inode \<Rightarrow> string \<Rightarrow> string option" where
  "attr_map ip = map_of (map (\<lambda>a. (at_key a, at_value a)) (take (nat (di_attr_count ip)) (di_attrs ip)))"

abbreviation inode_attrs_ok :: "inode \<Rightarrow> bool" where
  "inode_attrs_ok ip \<equiv> attrs_ok (di_attr_count ip) (di_attrs ip)"

lemma safestr_idem: "safestr n s = s \<Longrightarrow> cstr s = s"
  by (metis cstr_safestr)

lemma map_of_first_slot:
  "map_of (map (\<lambda>a. (f a, g a)) xs) k = map_option (\<lambda>i. g (xs ! i)) (first_slot (\<lambda>a. f a = k) xs)"
  by (induction xs) (auto simp: option.map_comp comp_def)

lemma first_slot_cong: "(\<And>x. x \<in> set xs \<Longrightarrow> P x = Q x) \<Longrightarrow> first_slot P xs = first_slot Q xs"
  by (induction xs) simp_all

lemma fst_nth_neq: "x \<notin> fst ` set kv \<Longrightarrow> k < length kv \<Longrightarrow> fst (kv ! k) \<noteq> x"
  by (metis image_eqI nth_mem)

lemma map_of_list_update:
  "distinct (map fst kv) \<Longrightarrow> k < length kv \<Longrightarrow> map_of (kv[k := (fst (kv ! k), v)]) = (map_of kv)(fst (kv ! k) \<mapsto> v)"
proof (induction kv arbitrary: k)
  case (Cons x kv)
  then show ?case by (cases k) (auto simp: fun_eq_iff dest: fst_nth_neq)
qed simp

lemma map_of_list_remove:
  "distinct (map fst kv) \<Longrightarrow> k < length kv \<Longrightarrow> map_of (take k kv @ drop (Suc k) kv) = (map_of kv)(fst (kv ! k) := None)"
proof (induction kv arbitrary: k)
  case (Cons x kv)
  show ?case
  proof (cases k)
    case 0
    then show ?thesis using Cons.prems by (auto simp: fun_eq_iff map_of_eq_None_iff)
  next
    case (Suc j)
    then show ?thesis using Cons by (auto simp: fun_eq_iff dest: fst_nth_neq)
  qed
qed simp

lemma map_of_list_snoc: "k \<notin> fst ` set kv \<Longrightarrow> map_of (kv @ [(k, v)]) = (map_of kv)(k \<mapsto> v)"
  by (induction kv) (auto simp: fun_eq_iff)

lemma attr_slot_key:
  assumes "inode_attrs_ok ip" "cstr key = key"
  shows "attr_slot ip key = first_slot (\<lambda>a. at_key a = key) (take (nat (di_attr_count ip)) (di_attrs ip))"
proof -
  have "streq (at_key a) key \<longleftrightarrow> at_key a = key" if "a \<in> set (take (nat (di_attr_count ip)) (di_attrs ip))" for a
    using assms that safestr_idem [of 8 "at_key a"] by (simp add: streq_iff attrs_ok_def)
  then show ?thesis unfolding attr_slot_def by (rule first_slot_cong)
qed


lemma attr_slot_map:
  assumes "inode_attrs_ok ip" "cstr key = key"
  shows "case attr_slot ip key of
      None \<Rightarrow> attr_map ip key = None
    | Some k \<Rightarrow> k < nat (di_attr_count ip) \<and> at_key (di_attrs ip ! k) = key \<and> attr_map ip key = Some (at_value (di_attrs ip ! k))"
proof (cases "first_slot (\<lambda>a. at_key a = key) (take (nat (di_attr_count ip)) (di_attrs ip))")
  case None
  then show ?thesis using attr_slot_key [OF assms] by (simp add: attr_map_def map_of_first_slot)
next
  case (Some k)
  then show ?thesis
    using attr_slot_key [OF assms] first_slot_less [OF Some] first_slot_holds [OF Some]
    by (simp add: attr_map_def map_of_first_slot)
qed

definition key_ok :: "string \<Rightarrow> bool" where
  "key_ok key \<longleftrightarrow> safestr INODE_ATTR_KEY_MAX key = key"

text \<open>The bindings as a list.\<close>

definition attr_pairs :: "int \<Rightarrow> inode_attr list \<Rightarrow> (string \<times> string) list" where
  "attr_pairs n as = map (\<lambda>a. (at_key a, at_value a)) (take (nat n) as)"

lemma attr_map_pairs: "attr_map ip = map_of (attr_pairs (di_attr_count ip) (di_attrs ip))"
  by (simp add: attr_map_def attr_pairs_def)

lemma attr_pairs_fst: "map fst (attr_pairs n as) = map at_key (take (nat n) as)"
  by (simp add: attr_pairs_def)

lemma safestr_safestr [simp]: "0 < n \<Longrightarrow> safestr n (safestr n s) = safestr n s"
  using safestr_id [of "safestr n s" n] length_safestr [of n s] by simp

lemma set_attr_map:
  assumes ok: "inode_attrs_ok ip" and key: "key_ok key"
  shows "case set_attr key val ip of
      None \<Rightarrow> attr_map ip key = None \<and> card (dom (attr_map ip)) = INODE_ATTR_MAX
    | Some ip' \<Rightarrow> inode_attrs_ok ip' \<and> attr_map ip' = (attr_map ip)(key \<mapsto> safestr INODE_ATTR_VALUE_MAX val)"
proof -
  let ?as = "di_attrs ip" and ?n = "nat (di_attr_count ip)" and ?v = "safestr INODE_ATTR_VALUE_MAX val"
  have n: "?n \<le> 4" "length ?as = 4" "0 \<le> di_attr_count ip" using ok by (auto simp: attrs_ok_def)
  have ck: "cstr key = key" using key safestr_idem by (simp add: key_ok_def)
  have d: "distinct (map fst (attr_pairs (di_attr_count ip) ?as))" using ok by (simp add: attr_pairs_fst attrs_ok_def)
  note sl = attr_slot_map [OF ok ck]
  show ?thesis
  proof (cases "attr_slot ip key")
    case (Some k)
    with sl have k: "k < ?n" "at_key (?as ! k) = key" by simp_all
    let ?a = "(?as ! k)\<lparr>at_value := ?v\<rparr>"
    have up: "take ?n (?as[k := ?a]) = (take ?n ?as)[k := ?a]" by (simp add: take_update_swap)
    have "map at_key (take ?n (?as[k := ?a])) = map at_key (take ?n ?as)"
      unfolding up using k n by (intro nth_equalityI) (auto simp: nth_list_update)
    then have "attrs_ok (di_attr_count ip) (?as[k := ?a])"
      using ok key k unfolding attrs_ok_def up by (auto simp: key_ok_def dest!: set_update_subset_insert [THEN subsetD])
    moreover have "attr_pairs (di_attr_count ip) (?as[k := ?a]) =
        (attr_pairs (di_attr_count ip) ?as)[k := (fst (attr_pairs (di_attr_count ip) ?as ! k), ?v)]"
      using k n by (simp add: attr_pairs_def up map_update)
    then have "map_of (attr_pairs (di_attr_count ip) (?as[k := ?a])) = (attr_map ip)(key \<mapsto> ?v)"
      using map_of_list_update [OF d, of k ?v] k n by (simp add: attr_map_pairs attr_pairs_def)
    ultimately show ?thesis using Some by (simp add: set_attr_def attr_map_pairs)
  next
    case None
    then have new: "attr_map ip key = None" using sl by simp
    then have nk: "key \<notin> fst ` set (attr_pairs (di_attr_count ip) ?as)" by (simp add: attr_map_pairs map_of_eq_None_iff)
    show ?thesis
    proof (cases "di_attr_count ip \<ge> 4")
      case True
      then have "?n = 4" using n by simp
      then have "length (attr_pairs (di_attr_count ip) ?as) = 4" using n by (simp add: attr_pairs_def)
      then have "card (dom (attr_map ip)) = 4"
        using distinct_card [OF d] by (simp add: attr_map_pairs dom_map_of_conv_image_fst)
      then show ?thesis using None True new by (simp add: set_attr_def)
    next
      case False
      then have n4: "?n < 4" using n by simp
      let ?a = "\<lparr>at_key = safestr INODE_ATTR_KEY_MAX key, at_value = ?v\<rparr>"
      have up: "take (nat (di_attr_count ip + 1)) (?as[?n := ?a]) = take ?n ?as @ [?a]"
        using n n4 by (simp add: nat_add_distrib take_Suc_conv_app_nth)
      have "attrs_ok (di_attr_count ip + 1) (?as[?n := ?a])"
        using ok key nk False unfolding attrs_ok_def up
        by (auto simp: key_ok_def attr_pairs_def image_iff)
      moreover have "attr_pairs (di_attr_count ip + 1) (?as[?n := ?a]) = attr_pairs (di_attr_count ip) ?as @ [(key, ?v)]"
        using key unfolding attr_pairs_def up by (simp add: key_ok_def)
      ultimately show ?thesis
        using None False map_of_list_snoc [OF nk, of ?v] by (simp add: set_attr_def attr_map_pairs)
    qed
  qed
qed

lemma del_attr_map:
  assumes ok: "inode_attrs_ok ip" and key: "key_ok key" and slot: "attr_slot ip key = Some k"
  shows "inode_attrs_ok (del_attr k ip) \<and> attr_map (del_attr k ip) = (attr_map ip)(key := None)"
proof -
  let ?as = "di_attrs ip" and ?n = "nat (di_attr_count ip)"
  have n: "?n \<le> 4" "length ?as = 4" "0 \<le> di_attr_count ip" using ok by (auto simp: attrs_ok_def)
  have ck: "cstr key = key" using key safestr_idem by (simp add: key_ok_def)
  have d: "distinct (map fst (attr_pairs (di_attr_count ip) ?as))" using ok by (simp add: attr_pairs_fst attrs_ok_def)
  have k: "k < ?n" "at_key (?as ! k) = key" using attr_slot_map [OF ok ck] slot by simp_all
  define bs where "bs = di_attrs (del_attr k ip)"
  have len: "length bs = 4" using n by (simp add: bs_def del_attr_def Let_def)
  have cnt: "di_attr_count (del_attr k ip) = di_attr_count ip - 1" by (simp add: del_attr_def Let_def)
  have up: "take (nat (di_attr_count ip - 1)) bs = take k (take ?n ?as) @ drop (Suc k) (take ?n ?as)"
  proof (rule nth_equalityI)
    show "length (take (nat (di_attr_count ip - 1)) bs) = length (take k (take ?n ?as) @ drop (Suc k) (take ?n ?as))"
      using n k len by simp
    fix i assume "i < length (take (nat (di_attr_count ip - 1)) bs)"
    then have i: "i < ?n - 1" using n len by simp
    then show "take (nat (di_attr_count ip - 1)) bs ! i = (take k (take ?n ?as) @ drop (Suc k) (take ?n ?as)) ! i"
      using n k by (auto simp: bs_def del_attr_def Let_def nth_append)
  qed
  have sub: "set (take k (take ?n ?as) @ drop (Suc k) (take ?n ?as)) \<subseteq> set (take ?n ?as)"
    using set_take_subset [of k "take ?n ?as"] set_drop_subset [of "Suc k" "take ?n ?as"] by auto
  have "distinct (map at_key (take k (take ?n ?as) @ drop (Suc k) (take ?n ?as)))"
  proof -
    have "map at_key (take k (take ?n ?as) @ drop (Suc k) (take ?n ?as)) =
        take k (map at_key (take ?n ?as)) @ drop (Suc k) (map at_key (take ?n ?as))"
      by (simp add: take_map drop_map)
    moreover have "distinct (take k xs @ drop (Suc k) xs)" if "distinct xs" for xs :: "string list"
      using that set_take_disj_set_drop_if_distinct [OF that, of k "Suc k"] by simp
    ultimately show ?thesis using ok by (metis attrs_ok_def)
  qed
  then have "attrs_ok (di_attr_count ip - 1) bs"
    using ok sub k len unfolding attrs_ok_def up by (auto 0 3)
  moreover have "attr_pairs (di_attr_count ip - 1) bs =
      take k (attr_pairs (di_attr_count ip) ?as) @ drop (Suc k) (attr_pairs (di_attr_count ip) ?as)"
    unfolding attr_pairs_def up by (simp add: take_map drop_map)
  moreover have "fst (attr_pairs (di_attr_count ip) ?as ! k) = key" "k < length (attr_pairs (di_attr_count ip) ?as)"
    using k n by (simp_all add: attr_pairs_def)
  ultimately show ?thesis
    using map_of_list_remove [OF d, of k] by (simp add: attr_map_pairs cnt bs_def [symmetric])
qed

text \<open>C25 (attributes_are_a_map). The attribute tools keep a map: setting a key binds it to the value cut to
  fifteen characters, in place or in a new entry, and fails only when the key is new and all four entries are
  taken; deleting a key that is there removes exactly its binding; both keep the keys distinct and in bounds.\<close>

theorem attributes_are_a_map:
  assumes ok: "inode_attrs_ok ip" and key: "key_ok key"
  shows "(case set_attr key val ip of
      None \<Rightarrow> attr_map ip key = None \<and> card (dom (attr_map ip)) = INODE_ATTR_MAX
    | Some ip' \<Rightarrow> inode_attrs_ok ip' \<and> attr_map ip' = (attr_map ip)(key \<mapsto> safestr INODE_ATTR_VALUE_MAX val)) \<and>
    (case attr_slot ip key of
      None \<Rightarrow> attr_map ip key = None
    | Some k \<Rightarrow> attr_map ip key = Some (at_value (di_attrs ip ! k)) \<and>
        inode_attrs_ok (del_attr k ip) \<and> attr_map (del_attr k ip) = (attr_map ip)(key := None))"
proof -
  have "cstr key = key" using key safestr_idem by (simp add: key_ok_def)
  then show ?thesis
    using set_attr_map [OF ok key, of val] attr_slot_map [OF ok, of key] del_attr_map [OF ok key]
    by (cases "attr_slot ip key") simp_all
qed

theorem attributes_are_a_map_witness:
  "\<exists>ip. set_attr ''kind'' ''rule'' zero_inode = Some ip \<and> attr_map ip ''kind'' = Some ''rule''"
proof -
  have ok: "inode_attrs_ok zero_inode"
    by (simp add: attrs_ok_def zero_inode_def zero_dinode_def dinode.defs)
  have k: "key_ok ''kind''" "safestr INODE_ATTR_VALUE_MAX ''rule'' = ''rule''" by (simp_all add: key_ok_def safestr_def)
  have "di_attr_count zero_inode = 0" by (simp add: zero_inode_def zero_dinode_def dinode.defs)
  then have "set_attr ''kind'' ''rule'' zero_inode \<noteq> None"
    by (simp add: set_attr_def attr_slot_def)
  then show ?thesis
    using conjunct1 [OF attributes_are_a_map [OF ok k(1), of "''rule''"]] k(2)
    by (cases "set_attr ''kind'' ''rule'' zero_inode") auto
qed

end
