(* ===== verification/IndexQuery.thy ===== *)
theory IndexQuery
  imports FileQueries
begin

text \<open>
  The hash index of kernel/agent\_fs.c answers queries like the full scan. Building it fills the
  postings in order and threads each of them into the chain of its bucket; the lemmas below say
  which postings a chain holds, and that the postings of one attribute value are exactly the files
  that have it.
\<close>

subsection \<open>Chains of postings\<close>

fun is_chain :: "agent_file_posting list \<Rightarrow> int \<Rightarrow> nat list \<Rightarrow> bool" where
  "is_chain ps post [] \<longleftrightarrow> post < 0"
| "is_chain ps post (j # js) \<longleftrightarrow> post = int j \<and> is_chain ps (fp_next (ps ! j)) js"

lemma is_chain_update: "n \<notin> set js \<Longrightarrow> is_chain (ps[n := x]) post js = is_chain ps post js"
  by (induction js arbitrary: post) auto

lemma posting_chain_is: "is_chain ps post js \<Longrightarrow> length js \<le> fuel \<Longrightarrow> posting_chain fuel post ps = Some js"
proof (induction js arbitrary: post fuel)
  case Nil
  then show ?case by (simp add: posting_chain.simps)
next
  case (Cons j js)
  then obtain f where "fuel = Suc f" by (cases fuel) auto
  with Cons show ?case by (subst posting_chain.simps) simp
qed

subsection \<open>Building the index\<close>

abbreviation posting_hash :: "nat \<times> inode_attr \<Rightarrow> nat" where
  "posting_hash x \<equiv> file_attr_hash (at_key (snd x)) (at_value (snd x))"

definition bucket :: "(nat \<times> inode_attr) list \<Rightarrow> nat \<Rightarrow> nat list" where
  "bucket L h = filter (\<lambda>j. posting_hash (L ! j) = h) [0..<length L]"

definition indexed :: "(nat \<times> inode_attr) list \<Rightarrow> kst \<Rightarrow> bool" where
  "indexed L s \<longleftrightarrow> length (ks_file_index s) = AGENT_FILE_INDEX_BUCKETS \<and>
     length (ks_file_postings s) = AGENT_FILE_POSTING_MAX \<and> length L \<le> AGENT_FILE_POSTING_MAX \<and>
     (\<forall>j < AGENT_FILE_POSTING_MAX. fp_used (ks_file_postings s ! j) \<longleftrightarrow> j < length L) \<and>
     (\<forall>j < length L. fp_entry_idx (ks_file_postings s ! j) = int (fst (L ! j)) \<and>
        fp_key (ks_file_postings s ! j) = safestr INODE_ATTR_KEY_MAX (at_key (snd (L ! j))) \<and>
        fp_value (ks_file_postings s ! j) = safestr INODE_ATTR_VALUE_MAX (at_value (snd (L ! j)))) \<and>
     (\<forall>h < AGENT_FILE_INDEX_BUCKETS. is_chain (ks_file_postings s) (ks_file_index s ! h) (rev (bucket L h)))"

lemma file_attr_hash_less: "file_attr_hash key val < AGENT_FILE_INDEX_BUCKETS"
proof -
  have "unat (x mod 67) < 67" for x :: u32
    using word_mod_less_divisor [of 67 x] by (simp add: word_less_nat_alt)
  then show ?thesis by (simp add: file_attr_hash_def)
qed

lemma indexed_reset: "indexed [] (file_index_reset_locked s)"
  by (simp add: indexed_def file_index_reset_locked_def bucket_def zero_posting_def)

lemma bucket_snoc: "bucket (L @ [x]) h = bucket L h @ (if posting_hash x = h then [length L] else [])"
proof -
  have "filter (\<lambda>j. posting_hash ((L @ [x]) ! j) = h) [0..<length L] = bucket L h"
    unfolding bucket_def by (rule filter_cong) (simp_all add: nth_append)
  then show ?thesis by (simp add: bucket_def nth_append)
qed

lemma bucket_less: "j \<in> set (bucket L h) \<Longrightarrow> j < length L"
  by (simp add: bucket_def)

lemma indexed_add:
  assumes I: "indexed L s" and room: "length L < AGENT_FILE_POSTING_MAX"
  shows "indexed (L @ [(i, a)]) (snd (file_add_posting_locked (int i) (at_key a) (at_value a) s)) \<and>
    ks_file_meta (snd (file_add_posting_locked (int i) (at_key a) (at_value a) s)) = ks_file_meta s"
proof -
  let ?n = "length L" and ?h = "file_attr_hash (at_key a) (at_value a)"
  have len: "length (ks_file_postings s) = 640" "length (ks_file_index s) = 67" using I by (simp_all add: indexed_def)
  have slot: "first_slot (\<lambda>p. \<not> fp_used p) (ks_file_postings s) = Some ?n"
    using I room len by (intro first_slotI) (auto simp: indexed_def)
  define p where "p = (ks_file_postings s ! ?n)\<lparr>fp_used := True, fp_entry_idx := int i,
    fp_key := safestr INODE_ATTR_KEY_MAX (at_key a), fp_value := safestr INODE_ATTR_VALUE_MAX (at_value a),
    fp_next := ks_file_index s ! ?h\<rparr>"
  let ?s = "s\<lparr>ks_file_postings := (ks_file_postings s)[?n := p], ks_file_index := (ks_file_index s)[?h := int ?n]\<rparr>"
  have add: "snd (file_add_posting_locked (int i) (at_key a) (at_value a) s) = ?s"
    by (simp add: file_add_posting_locked_def slot Let_def p_def)
  have nb: "?n \<notin> set (rev (bucket L h))" for h using bucket_less [of ?n L h] by auto
  have hl: "?h < 67" using file_attr_hash_less .
  have "is_chain (ks_file_postings ?s) (ks_file_index ?s ! h) (rev (bucket (L @ [(i, a)]) h))" if h: "h < 67" for h
  proof -
    have old: "is_chain (ks_file_postings s) (ks_file_index s ! h) (rev (bucket L h))" using I h by (simp add: indexed_def)
    show ?thesis
    proof (cases "?h = h")
      case True
      have "fp_next ((ks_file_postings s)[?n := p] ! ?n) = ks_file_index s ! h" using room len True by (simp add: p_def)
      then show ?thesis using True old hl len is_chain_update [OF nb] by (simp add: bucket_snoc)
    next
      case False
      then show ?thesis using old h len is_chain_update [OF nb] by (simp add: bucket_snoc)
    qed
  qed
  moreover have "fp_used ((ks_file_postings s)[?n := p] ! j) \<longleftrightarrow> j < Suc ?n" if "j < 640" for j
    using I that len by (cases "j = ?n") (auto simp: indexed_def p_def)
  moreover have "fp_entry_idx ((ks_file_postings s)[?n := p] ! j) = int (fst ((L @ [(i, a)]) ! j)) \<and>
      fp_key ((ks_file_postings s)[?n := p] ! j) = safestr INODE_ATTR_KEY_MAX (at_key (snd ((L @ [(i, a)]) ! j))) \<and>
      fp_value ((ks_file_postings s)[?n := p] ! j) = safestr INODE_ATTR_VALUE_MAX (at_value (snd ((L @ [(i, a)]) ! j)))"
    if "j < Suc ?n" for j
    using I that len room by (cases "j = ?n") (auto simp: indexed_def nth_append p_def)
  ultimately show ?thesis
    unfolding add using room len by (simp add: indexed_def)
qed

lemma indexed_fold:
  assumes "indexed L s" "length L + length xs \<le> AGENT_FILE_POSTING_MAX"
  shows "indexed (L @ xs) (fold (\<lambda>(i, a) s. snd (file_add_posting_locked (int i) (at_key a) (at_value a) s)) xs s) \<and>
    ks_file_meta (fold (\<lambda>(i, a) s. snd (file_add_posting_locked (int i) (at_key a) (at_value a) s)) xs s) = ks_file_meta s"
  using assms
proof (induction xs arbitrary: L s)
  case (Cons x xs)
  obtain i a where x: "x = (i, a)" by force
  have "length L < 640" using Cons.prems(2) by simp
  from indexed_add [OF Cons.prems(1) this, of i a]
  have 1: "indexed (L @ [(i, a)]) (snd (file_add_posting_locked (int i) (at_key a) (at_value a) s))"
    "ks_file_meta (snd (file_add_posting_locked (int i) (at_key a) (at_value a) s)) = ks_file_meta s" by simp_all
  show ?case using Cons.IH [OF 1(1)] Cons.prems(2) 1(2) x by simp
qed simp


subsection \<open>The files of the metadata table\<close>

definition metas_ok :: "agent_file_meta list \<Rightarrow> bool" where
  "metas_ok ms \<longleftrightarrow> length ms = AGENT_FILE_META_MAX \<and> (\<forall>m \<in> set ms. fm_used m \<longrightarrow> attrs_ok (fm_attr_count m) (fm_attrs m))"

definition file_attrs :: "agent_file_meta list \<Rightarrow> nat \<Rightarrow> (nat \<times> inode_attr) list" where
  "file_attrs ms i = (if fm_used (ms ! i) then map (Pair i) (meta_attrs (ms ! i)) else [])"

lemma postings_of_files: "postings_of ms = concat (map (file_attrs ms) [0..<length ms])"
  by (simp add: postings_of_def file_attrs_def [abs_def])

lemma file_attrs_length:
  assumes "metas_ok ms" "i < length ms"
  shows "length (file_attrs ms i) \<le> INODE_ATTR_MAX"
  using assms by (auto simp: file_attrs_def metas_ok_def meta_attrs_def attrs_ok_def)

text \<open>Every attribute of every file fits into the posting table.\<close>

lemma postings_fit:
  assumes "metas_ok ms"
  shows "length (postings_of ms) \<le> AGENT_FILE_POSTING_MAX"
proof -
  have "sum_list (map (\<lambda>i. length (file_attrs ms i)) [0..<length ms]) \<le> sum_list (map (\<lambda>i. 4) [0..<length ms])"
    using file_attrs_length [OF assms] by (intro sum_list_mono) simp
  then show ?thesis using assms by (simp add: postings_of_files length_concat comp_def sum_list_triv metas_ok_def)
qed

lemma indexed_rebuild:
  assumes "metas_ok (ks_file_meta s)"
  shows "indexed (postings_of (ks_file_meta s)) (file_rebuild_postings_locked s)"
    "ks_file_meta (file_rebuild_postings_locked s) = ks_file_meta s"
proof -
  have m: "ks_file_meta (file_index_reset_locked s) = ks_file_meta s" by (simp add: file_index_reset_locked_def)
  from indexed_fold [OF indexed_reset, of "postings_of (ks_file_meta s)" s] postings_fit [OF assms] m
  show "indexed (postings_of (ks_file_meta s)) (file_rebuild_postings_locked s)"
    "ks_file_meta (file_rebuild_postings_locked s) = ks_file_meta s"
    by (simp_all add: file_rebuild_postings_locked_def)
qed


subsection \<open>Index query and scan find the same files\<close>

lemma map_filter_append: "List.map_filter f (xs @ ys) = List.map_filter f xs @ List.map_filter f ys"
  by (simp add: List.map_filter_def)

lemma map_filter_concat: "List.map_filter f (concat xss) = concat (map (List.map_filter f) xss)"
  by (induction xss) (simp_all add: map_filter_append)

lemma map_filter_rev: "List.map_filter f (rev xs) = rev (List.map_filter f xs)"
  by (induction xs) (simp_all add: map_filter_append split: option.splits)

lemma map_filter_filter: "(\<And>x. x \<in> set xs \<Longrightarrow> f x \<noteq> None \<Longrightarrow> P x) \<Longrightarrow> List.map_filter f (filter P xs) = List.map_filter f xs"
  by (induction xs) (auto split: option.splits)

lemma map_filter_nth: "List.map_filter (\<lambda>j. f (xs ! j)) [0..<length xs] = List.map_filter f xs"
proof -
  have "List.map_filter (\<lambda>j. f (xs ! j)) [0..<length xs] = List.map_filter f (map ((!) xs) [0..<length xs])"
    by (simp add: List.map_filter_def comp_def filter_map)
  then show ?thesis by (simp add: map_nth)
qed

lemma map_filter_cong: "(\<And>x. x \<in> set xs \<Longrightarrow> f x = g x) \<Longrightarrow> List.map_filter f xs = List.map_filter g xs"
  by (induction xs) (simp_all split: option.splits)

text \<open>What a posting contributes to a query on one attribute value.\<close>

definition attr_hit :: "file_query \<Rightarrow> string \<Rightarrow> string \<Rightarrow> agent_file_meta list \<Rightarrow> nat \<times> inode_attr \<Rightarrow> agent_file_meta option" where
  "attr_hit q key val ms x =
     (if streq (at_key (snd x)) key \<and> streq (at_value (snd x)) val \<and> file_meta_matches q (ms ! fst x)
      then Some (ms ! fst x) else None)"

lemma distinct_key_hits:
  assumes "distinct (map at_key as)" "\<forall>a \<in> set as. cstr (at_key a) = at_key a"
  shows "List.map_filter (\<lambda>a. if streq (at_key a) key \<and> streq (at_value a) val then Some m else None) as
    = (if \<exists>a \<in> set as. streq (at_key a) key \<and> streq (at_value a) val then [m] else [])"
  using assms
proof (induction as)
  case Nil
  then show ?case by simp
next
  case (Cons b as)
  have same: "\<not> streq (at_key a) key" if "streq (at_key b) key" "a \<in> set as" for a
  proof
    assume "streq (at_key a) key"
    then have "at_key a = at_key b" using that Cons.prems(2) by (simp add: streq_iff)
    then show False using that(2) Cons.prems(1) by (metis distinct.simps(2) image_eqI list.set_map list.simps(9))
  qed
  then show ?case using Cons by auto
qed

lemma file_hits:
  assumes ok: "metas_ok ms" and i: "i < length ms" and q: "fq_conds q = (key, val) # conds"
  shows "List.map_filter (attr_hit q key val ms) (file_attrs ms i)
    = (if fm_used (ms ! i) \<and> file_meta_matches q (ms ! i) then [ms ! i] else [])"
proof (cases "fm_used (ms ! i) \<and> file_meta_matches q (ms ! i)")
  case False
  then show ?thesis
    by (auto simp: file_attrs_def attr_hit_def List.map_filter_def)
next
  case True
  then have ao: "attrs_ok (fm_attr_count (ms ! i)) (fm_attrs (ms ! i))" using ok i by (simp add: metas_ok_def)
  have "List.map_filter (attr_hit q key val ms) (file_attrs ms i) =
      List.map_filter (\<lambda>a. if streq (at_key a) key \<and> streq (at_value a) val then Some (ms ! i) else None) (meta_attrs (ms ! i))"
    using True by (simp add: file_attrs_def attr_hit_def List.map_filter_def filter_map comp_def)
  also have "\<dots> = (if \<exists>a \<in> set (meta_attrs (ms ! i)). streq (at_key a) key \<and> streq (at_value a) val then [ms ! i] else [])"
    using ao safestr_idem by (intro distinct_key_hits) (auto simp: meta_attrs_def attrs_ok_def)
  also have "\<dots> = [ms ! i]"
  proof -
    have "(\<exists>a \<in> set (meta_attrs (ms ! i)). streq (at_key a) key \<and> streq (at_value a) val)"
      using True q by (simp add: file_meta_matches_def file_attr_match_def meta_attrs_def)
    then show ?thesis by simp
  qed
  finally show ?thesis using True by simp
qed

lemma filter_as_concat: "concat (map (\<lambda>i. if P (ms ! i) then [ms ! i] else []) [0..<length ms]) = filter P ms"
proof -
  have "concat (map (\<lambda>i. if P (ms ! i) then [ms ! i] else []) [0..<length ms])
      = concat (map (\<lambda>m. if P m then [m] else []) (map ((!) ms) [0..<length ms]))"
    by (simp add: comp_def)
  also have "\<dots> = filter P ms" unfolding map_nth by (induction ms) simp_all
  finally show ?thesis .
qed

lemma all_hits:
  assumes ok: "metas_ok ms" and q: "fq_conds q = (key, val) # conds"
  shows "List.map_filter (attr_hit q key val ms) (postings_of ms) = filter (\<lambda>m. fm_used m \<and> file_meta_matches q m) ms"
proof -
  have "map (List.map_filter (attr_hit q key val ms)) (map (file_attrs ms) [0..<length ms])
      = map (\<lambda>i. if fm_used (ms ! i) \<and> file_meta_matches q (ms ! i) then [ms ! i] else []) [0..<length ms]"
    using file_hits [OF ok _ q] by simp
  then show ?thesis
    using filter_as_concat [of "\<lambda>m. fm_used m \<and> file_meta_matches q m" ms]
    by (simp add: postings_of_files map_filter_concat del: map_map)
qed

lemma posting_hit_attr:
  assumes I: "indexed (postings_of (ks_file_meta s)) s" and ok: "metas_ok (ks_file_meta s)"
    and j: "j < length (postings_of (ks_file_meta s))"
  shows "posting_hit q key val s j = attr_hit q key val (ks_file_meta s) (postings_of (ks_file_meta s) ! j)"
proof -
  let ?ms = "ks_file_meta s" and ?L = "postings_of (ks_file_meta s)"
  have "?L ! j \<in> set ?L" using j by simp
  then obtain i a where x: "?L ! j = (i, a)" and i: "i < length ?ms" "fm_used (?ms ! i)" "a \<in> set (meta_attrs (?ms ! i))"
    by (auto simp: postings_of_def split: if_splits)
  then have "attrs_ok (fm_attr_count (?ms ! i)) (fm_attrs (?ms ! i))" using ok by (simp add: metas_ok_def)
  then have a: "safestr INODE_ATTR_KEY_MAX (at_key a) = at_key a" "safestr INODE_ATTR_VALUE_MAX (at_value a) = at_value a"
    using i(3) by (auto simp: attrs_ok_def meta_attrs_def)
  have p: "fp_entry_idx (ks_file_postings s ! j) = int i" "fp_key (ks_file_postings s ! j) = at_key a"
    "fp_value (ks_file_postings s ! j) = at_value a"
    using I j x a by (simp_all add: indexed_def)
  have "i < 160" using i(1) ok by (simp add: metas_ok_def)
  then show ?thesis using x p i(2) by (simp add: posting_hit_def attr_hit_def Let_def)
qed

lemma hash_streq: "streq k key \<Longrightarrow> streq v val \<Longrightarrow> file_attr_hash k v = file_attr_hash key val"
  by (simp add: file_attr_hash_def streq_iff)

text \<open>C29 (index_query_equals_scan). The index answers like the scan: right after the index has been rebuilt from a
  well-formed metadata table, a query with a key condition walks one bucket to its end and finds exactly the
  files the scan of the whole table finds, each once - in the opposite order. All attributes of all files fit
  into the index.\<close>

theorem index_query_equals_scan:
  assumes ok: "metas_ok (ks_file_meta s)" and key: "fq_conds q \<noteq> []" "\<not> fq_force_scan q"
  shows "\<exists>n m found. query_search (q\<lparr>fq_force_scan := True\<rparr>) (file_rebuild_postings_locked s) = Some (found, m, False) \<and>
    query_search q (file_rebuild_postings_locked s) = Some (rev found, n, True) \<and>
    found = filter (\<lambda>f. fm_used f \<and> file_meta_matches q f) (ks_file_meta s)"
proof -
  let ?t = "file_rebuild_postings_locked s" and ?L = "postings_of (ks_file_meta s)"
  obtain key val conds where q: "fq_conds q = (key, val) # conds" using key(1) by (cases "fq_conds q") auto
  note I = indexed_rebuild(1) [OF ok] and meta = indexed_rebuild(2) [OF ok]
  let ?h = "file_attr_hash key val"
  have len: "length (ks_file_postings ?t) = 640" "length (bucket ?L ?h) \<le> 640"
    using I length_filter_le [of "\<lambda>j. posting_hash (?L ! j) = ?h" "[0..<length ?L]"] by (simp_all add: indexed_def bucket_def)
  have chain: "posting_chain (length (ks_file_postings ?t)) (ks_file_index ?t ! ?h) (ks_file_postings ?t) = Some (rev (bucket ?L ?h))"
    using I file_attr_hash_less len by (intro posting_chain_is) (simp_all add: indexed_def)
  have "List.map_filter (posting_hit q key val ?t) (bucket ?L ?h) = List.map_filter (\<lambda>j. attr_hit q key val (ks_file_meta s) (?L ! j)) (bucket ?L ?h)"
    using posting_hit_attr [of ?t] I ok meta bucket_less by (intro map_filter_cong) simp
  also have "\<dots> = List.map_filter (\<lambda>j. attr_hit q key val (ks_file_meta s) (?L ! j)) [0..<length ?L]"
    unfolding bucket_def by (rule map_filter_filter) (auto simp: attr_hit_def hash_streq split: if_splits)
  also have "\<dots> = filter (\<lambda>f. fm_used f \<and> file_meta_matches q f) (ks_file_meta s)"
    unfolding map_filter_nth by (rule all_hits [OF ok q])
  finally have hits: "List.map_filter (posting_hit q key val ?t) (rev (bucket ?L ?h))
      = rev (filter (\<lambda>f. fm_used f \<and> file_meta_matches q f) (ks_file_meta s))"
    by (simp add: map_filter_rev)
  have idx: "query_search q ?t = Some (rev (filter (\<lambda>f. fm_used f \<and> file_meta_matches q f) (ks_file_meta s)), length (bucket ?L ?h), True)"
    using key q chain hits by (simp add: query_search_def)
  have "file_meta_matches (q\<lparr>fq_force_scan := True\<rparr>) = file_meta_matches q" by (simp add: file_meta_matches_def fun_eq_iff)
  then have "query_search (q\<lparr>fq_force_scan := True\<rparr>) ?t
      = Some (filter (\<lambda>f. fm_used f \<and> file_meta_matches q f) (ks_file_meta s), length (filter fm_used (ks_file_meta s)), False)"
    using meta by (simp add: query_search_def conj_commute)
  with idx show ?thesis by blast
qed

theorem index_query_equals_scan_witness:
  "\<exists>n. query_search \<lparr>fq_conds = [(''kind'', ''rule'')], fq_keyword = [], fq_force_scan = False\<rparr>
     (file_rebuild_postings_locked ((boot_kst [])\<lparr>ks_file_meta :=
        zero_meta\<lparr>fm_used := True, fm_attr_count := 1, fm_path := ''a.txt'',
          fm_attrs := \<lparr>at_key = ''kind'', at_value = ''rule''\<rparr> # replicate 3 zero_attr\<rparr> # replicate 159 zero_meta\<rparr>))
     = Some ([zero_meta\<lparr>fm_used := True, fm_attr_count := 1, fm_path := ''a.txt'',
          fm_attrs := \<lparr>at_key = ''kind'', at_value = ''rule''\<rparr> # replicate 3 zero_attr\<rparr>], n, True)"
proof -
  let ?m = "zero_meta\<lparr>fm_used := True, fm_attr_count := 1, fm_path := ''a.txt'',
          fm_attrs := \<lparr>at_key = ''kind'', at_value = ''rule''\<rparr> # replicate 3 zero_attr\<rparr>"
  let ?s = "(boot_kst [])\<lparr>ks_file_meta := ?m # replicate 159 zero_meta\<rparr>"
  let ?q = "\<lparr>fq_conds = [(''kind'', ''rule'')], fq_keyword = [], fq_force_scan = False\<rparr>"
  have z: "\<not> fm_used zero_meta" by (simp add: zero_meta_def)
  have ok: "metas_ok (ks_file_meta ?s)"
    by (simp add: metas_ok_def z attrs_ok_def safestr_def)
  have "file_meta_matches ?q ?m" by (simp add: file_meta_matches_def file_attr_match_def)
  then have "filter (\<lambda>f. fm_used f \<and> file_meta_matches ?q f) (ks_file_meta ?s) = [?m]" by (simp add: z)
  then show ?thesis using index_query_equals_scan [OF ok, of ?q] by auto
qed

end
