(* ===== verification/QueryCache.thy ===== *)
theory QueryCache
  imports FileIndex KernelCalls
begin

text \<open>
  The shared query cache (kernel/agent\_fs.c) over histories of lookups, stores and file changes: an
  answer comes out of the cache only for the query it was stored for, only to an agent that may see
  it, and only as long as no file has changed since it was stored.
\<close>

datatype cache_op = CLookup nat string | CStore nat string string | CBump

primrec run_cache_op :: "cache_op \<Rightarrow> kst \<Rightarrow> kst" where
  "run_cache_op (CLookup i q) s = snd (shared_query_cache_lookup i q s)"
| "run_cache_op (CStore i q r) s = shared_query_cache_store i q r s"
| "run_cache_op CBump s = agent_file_version_bump s"

definition bumps :: "cache_op list \<Rightarrow> nat" where
  "bumps ops = length (filter (\<lambda>x. x = CBump) ops)"

text \<open>Where an entry comes from.\<close>

definition stored_by :: "kst \<Rightarrow> cache_op list \<Rightarrow> shared_query_cache \<Rightarrow> bool" where
  "stored_by s0 ops e \<longleftrightarrow> (\<exists>pre j q r post. ops = pre @ CStore j q r # post \<and>
     qc_query e = safestr AGENT_TOOL_PARAM_MAX q \<and> qc_result e = safestr AGENT_TOOL_RESULT_MAX r \<and>
     qc_owner_pid e = p_pid (pr s0 j) \<and> qc_owner_group e = agent_group (pr s0 j) \<and>
     qc_version e = ks_agent_file_version s0 + of_nat (bumps pre))"

lemma stored_by_later: "stored_by s0 ops e \<Longrightarrow> stored_by s0 (ops @ [x]) e"
  unfolding stored_by_def by (metis append_Cons append_assoc)

lemma stored_by_refcnt: "stored_by s0 ops (e\<lparr>qc_refcnt := n\<rparr>) = stored_by s0 ops e"
  by (simp add: stored_by_def)

definition cache_hist :: "kst \<Rightarrow> cache_op list \<Rightarrow> kst \<Rightarrow> bool" where
  "cache_hist s0 ops t \<longleftrightarrow> ks_procs t = ks_procs s0 \<and>
     ks_agent_file_version t = ks_agent_file_version s0 + of_nat (bumps ops) \<and>
     (\<forall>e \<in> set (ks_query_cache t). qc_used e \<longrightarrow> stored_by s0 ops e)"

lemma tool_resp_status [simp]: "rs_status (tool_resp_set st text) = st"
  by (simp add: tool_resp_set_def Let_def)

text \<open>What a lookup does: it counts, and steps the reference count of the entry it hits.\<close>

lemma lookup_cases:
  assumes "shared_query_cache_lookup i q s = (res, t)"
  shows "ks_procs t = ks_procs s \<and> ks_agent_file_version t = ks_agent_file_version s \<and>
    (case res of
       Some resp \<Rightarrow> rs_status resp = AGENT_TOOL_ERR_NO_SPACE \<and> t = s \<or>
         (\<exists>k e. k < length (ks_query_cache s) \<and> e = ks_query_cache s ! k \<and> cache_hit (pr s i) q (ks_agent_file_version s) e \<and>
            ks_query_cache t = (ks_query_cache s)[k := e\<lparr>qc_refcnt := qc_refcnt e + 1\<rparr>] \<and>
            resp = tool_resp_set AGENT_TOOL_OK (query_result_with_cache (qc_result e) True (qc_owner_pid e) (qc_refcnt e + 1) (qc_version e) 0))
     | None \<Rightarrow> ks_query_cache t = ks_query_cache s)"
proof (cases "ks_freelist s")
  case Nil
  then show ?thesis using assms
    by (auto simp: shared_query_cache_lookup_def with_page_def kalloc_def)
next
  case (Cons pa fl)
  show ?thesis
  proof (cases "first_slot (cache_hit (pr s i) q (ks_agent_file_version s)) (ks_query_cache s)")
    case None
    then show ?thesis using assms Cons by (auto simp: shared_query_cache_lookup_def with_page_def kalloc_def)
  next
    case (Some k)
    note k = first_slot_less [OF Some] first_slot_holds [OF Some]
    show ?thesis using assms Cons Some k
      by (auto simp: shared_query_cache_lookup_def with_page_def kalloc_def Let_def intro!: exI [of _ k])
  qed
qed

lemma run_cache_op_hist:
  assumes H: "cache_hist s0 ops t"
  shows "cache_hist s0 (ops @ [x]) (run_cache_op x t)"
proof (cases x)
  case (CLookup i q)
  obtain res u where u: "shared_query_cache_lookup i q t = (res, u)" by force
  have old: "stored_by s0 (ops @ [x]) e" if "e \<in> set (ks_query_cache t)" "qc_used e" for e
    using H that stored_by_later by (simp add: cache_hist_def)
  have "stored_by s0 (ops @ [x]) e" if e: "e \<in> set (ks_query_cache u)" "qc_used e" for e
  proof -
    consider "ks_query_cache u = ks_query_cache t"
      | k where "k < length (ks_query_cache t)" "cache_hit (pr t i) q (ks_agent_file_version t) (ks_query_cache t ! k)"
        "ks_query_cache u = (ks_query_cache t)[k := (ks_query_cache t ! k)\<lparr>qc_refcnt := qc_refcnt (ks_query_cache t ! k) + 1\<rparr>]"
      using lookup_cases [OF u] by (cases res) auto
    then show ?thesis
    proof cases
      case 1
      then show ?thesis using old e by simp
    next
      case 2
      then have "e \<in> set (ks_query_cache t) \<or> e = (ks_query_cache t ! k)\<lparr>qc_refcnt := qc_refcnt (ks_query_cache t ! k) + 1\<rparr>"
        using e(1) set_update_subset_insert [of "ks_query_cache t" k] by auto
      then show ?thesis using old e(2) 2(1,2) stored_by_refcnt by (auto simp: cache_hit_def)
    qed
  qed
  then show ?thesis using H lookup_cases [OF u] CLookup u by (simp add: cache_hist_def bumps_def)
next
  case (CStore i q r)
  let ?e = "\<lparr>qc_used = True, qc_query = safestr AGENT_TOOL_PARAM_MAX q, qc_result = safestr AGENT_TOOL_RESULT_MAX r,
     qc_owner_pid = p_pid (pr t i), qc_owner_group = agent_group (pr t i), qc_refcnt = 1, qc_version = ks_agent_file_version t\<rparr>"
  have st: "\<exists>k. shared_query_cache_store i q r t = t\<lparr>ks_query_cache := (ks_query_cache t)[k := ?e]\<rparr>"
    unfolding shared_query_cache_store_def Let_def by blast
  then obtain k where k: "run_cache_op x t = t\<lparr>ks_query_cache := (ks_query_cache t)[k := ?e]\<rparr>" using CStore by auto
  have new: "stored_by s0 (ops @ [x]) ?e"
    unfolding stored_by_def CStore using H by (intro exI [of _ ops] exI [of _ i] exI [of _ q] exI [of _ r] exI [of _ "[]"]) (simp add: cache_hist_def)
  have "stored_by s0 (ops @ [x]) e" if "e \<in> set ((ks_query_cache t)[k := ?e])" "qc_used e" for e
  proof -
    have "e = ?e \<or> e \<in> set (ks_query_cache t)" using that(1) set_update_subset_insert by fastforce
    then show ?thesis using new that(2) H stored_by_later by (auto simp: cache_hist_def)
  qed
  then show ?thesis using H by (simp add: k) (simp add: cache_hist_def bumps_def CStore)
next
  case CBump
  then show ?thesis using H stored_by_later
    by (simp add: cache_hist_def bumps_def agent_file_version_bump_def)
qed

lemma run_cache_ops_hist: "cache_hist s0 ops t \<Longrightarrow> cache_hist s0 (ops @ later) (fold run_cache_op later t)"
proof (induction later arbitrary: ops t)
  case (Cons x later)
  from Cons.IH [OF run_cache_op_hist [OF Cons.prems, of x]] show ?case by simp
qed simp



end
