(* ===== verification/ToolTable.thy ===== *)
theory ToolTable
  imports FileIndex
begin

text \<open>
  The tool tables of kernel/agent\_tool.c: the policies of the built-in tools, the dynamic tools
  that agents register, and the requests that wait for a tool service to answer. A caller of a
  dynamic tool sleeps until its request is answered: the call is split into \<open>dynamic_call_begin\<close>
  and, after every wake-up, \<open>dynamic_call_check\<close>; receiving a request is \<open>recv_check\<close>.
\<close>

definition sleep_on :: "nat \<Rightarrow> wchan \<Rightarrow> kst \<Rightarrow> kst" where
  "sleep_on i chan s = upd_proc i (\<lambda>p. p\<lparr>p_chan := chan, p_state := SLEEPING\<rparr>) s"

text \<open>\<open>wakeup(chan)\<close> of process \<open>i\<close>.\<close>

definition wakeup :: "nat \<Rightarrow> wchan \<Rightarrow> kst \<Rightarrow> kst" where
  "wakeup i chan s = for_procs_idx (\<lambda>j p. j \<noteq> i \<and> p_state p = SLEEPING \<and> p_chan p = chan)
     (\<lambda>j p. p\<lparr>p_state := RUNNABLE\<rparr>) s"

subsection \<open>Policies\<close>

definition policy :: "string \<Rightarrow> u64 \<Rightarrow> bool \<Rightarrow> bool \<Rightarrow> agent_tool_policy" where
  "policy name cap mut aud = \<lparr>po_name = name, po_required_cap = cap, po_group_policy = 0,
     po_mutates_state = mut, po_audit_required = aud\<rparr>"

definition builtin_policies :: "agent_tool_policy list" where
  "builtin_policies =
     [policy ''query_process'' AGENT_CAP_QUERY_PROCESS False False,
      policy ''get_system_status'' AGENT_CAP_QUERY_PROCESS False False,
      policy ''send_message'' AGENT_CAP_SEND_MESSAGE False True,
      policy ''read_context'' 0 False False,
      policy ''read_file'' AGENT_CAP_READ_FILE False False,
      policy ''patch_file'' AGENT_CAP_PATCH_FILE True True,
      policy ''run_rule_test'' AGENT_CAP_QUERY_FILE False False,
      policy ''diff_file'' AGENT_CAP_READ_FILE False False,
      policy ''set_file_attr'' AGENT_CAP_PATCH_FILE True True,
      policy ''get_file_attr'' AGENT_CAP_QUERY_FILE False False,
      policy ''del_file_attr'' AGENT_CAP_PATCH_FILE True True,
      policy ''query_file'' AGENT_CAP_QUERY_FILE False False,
      policy ''query_agent'' AGENT_CAP_QUERY_PROCESS False False,
      policy ''get_workflow_metrics'' AGENT_CAP_AUDIT_READ False False,
      policy ''lease_begin'' AGENT_CAP_LEASE_ACQUIRE True True,
      policy ''lease_commit'' AGENT_CAP_LEASE_ACQUIRE True True,
      policy ''lease_abort'' AGENT_CAP_LEASE_ACQUIRE True True]"

definition builtin_names :: "string list" where
  "builtin_names = [''query_process'', ''get_system_status'', ''send_message'', ''read_context'',
     ''read_file'', ''patch_file'', ''run_rule_test'', ''diff_file'', ''set_file_attr'',
     ''get_file_attr'', ''del_file_attr'', ''query_file'', ''query_agent'', ''get_workflow_metrics'',
     ''lease_begin'', ''lease_commit'', ''lease_abort'']"

definition tool_is_builtin :: "string \<Rightarrow> bool" where
  "tool_is_builtin name \<longleftrightarrow> (\<exists>n \<in> set builtin_names. streq name n)"

definition policy_of :: "string \<Rightarrow> agent_tool_policy option" where
  "policy_of name = find (\<lambda>po. streq (po_name po) name) builtin_policies"

definition dynamic_tool_of :: "string \<Rightarrow> agent_dynamic_tool list \<Rightarrow> nat option" where
  "dynamic_tool_of name ts = first_slot (\<lambda>t. dt_used t \<and> streq (dt_name t) name) ts"

definition agent_same_group_or_public :: "proc \<Rightarrow> int \<Rightarrow> u32 \<Rightarrow> bool" where
  "agent_same_group_or_public p owner_group flags \<longleftrightarrow>
     flags AND AGENT_TOOL_FLAG_PUBLIC \<noteq> 0 \<or> (agent_group p \<noteq> 0 \<and> agent_group p = owner_group)"

definition agent_check_tool_permission :: "nat \<Rightarrow> string \<Rightarrow> kst \<Rightarrow> bool" where
  "agent_check_tool_permission i name s =
     (case policy_of name of
        Some po \<Rightarrow> \<not> (po_required_cap po \<noteq> 0 \<and> agent_capabilities (pr s i) AND po_required_cap po = 0)
      | None \<Rightarrow>
          (case dynamic_tool_of name (ks_dynamic_tools s) of
             Some k \<Rightarrow> agent_same_group_or_public (pr s i) (dt_owner_group (ks_dynamic_tools s ! k)) (dt_flags (ks_dynamic_tools s ! k))
           | None \<Rightarrow> True))"

subsection \<open>Schemas and lists\<close>

record agent_tool_schema =
  sc_name :: string
  sc_params_desc :: string
  sc_required_cap :: u64
  sc_result_desc :: string
  sc_is_dynamic :: bool
  sc_owner_pid :: int
  sc_owner_group :: int
  sc_flags :: u32

definition builtin_params_desc :: "string \<Rightarrow> string" where
  "builtin_params_desc name =
     (if streq name ''query_file'' then ''type:string?,owner:string?,tags:string?,keyword:string?,public:string?,mode:string?''
      else if streq name ''send_message'' then ''target_pid:int,message:string''
      else if streq name ''read_file'' then ''path:string''
      else if streq name ''patch_file'' then ''path:string,op:replace,old:string,new:string''
      else if streq name ''run_rule_test'' then ''target:string''
      else ''see documentation'')"

definition agent_tool_schema_get :: "string \<Rightarrow> kst \<Rightarrow> agent_tool_schema option" where
  "agent_tool_schema_get name s =
     (case policy_of name of
        Some po \<Rightarrow> Some \<lparr>sc_name = safestr AGENT_TOOL_NAME_MAX name,
            sc_params_desc = safestr AGENT_TOOL_PARAM_MAX (builtin_params_desc name),
            sc_required_cap = po_required_cap po, sc_result_desc = ''status=int,...'',
            sc_is_dynamic = False, sc_owner_pid = 0, sc_owner_group = 0, sc_flags = 0\<rparr>
      | None \<Rightarrow>
          (case dynamic_tool_of name (ks_dynamic_tools s) of
             None \<Rightarrow> None
           | Some k \<Rightarrow>
               let t = ks_dynamic_tools s ! k
               in Some \<lparr>sc_name = safestr AGENT_TOOL_NAME_MAX name, sc_params_desc = ''dynamic params'',
                    sc_required_cap = dt_required_cap t, sc_result_desc = ''dynamic result'', sc_is_dynamic = True,
                    sc_owner_pid = dt_owner_pid t, sc_owner_group = dt_owner_group t, sc_flags = dt_flags t\<rparr>))"

definition schema_list_head :: string where
  "schema_list_head =
     ''get_system_status|params=none|cap=QUERY_PROCESS|result=status;'' @
     ''query_process|params=type:string?|cap=QUERY_PROCESS|result=processes[];'' @
     ''query_file|params=type,owner,tags,keyword,public,mode|cap=QUERY_FILE|result=files[];'' @
     ''send_message|params=target_pid,message|cap=SEND_MESSAGE|result=status;'' @
     ''read_context|params=none|cap=none|result=context_text;'' @
     ''read_file|params=path|cap=READ_FILE|result=content;'' @
     ''patch_file|params=path,op,old,new|cap=PATCH_FILE|result=status;'' @
     ''run_rule_test|params=target|cap=QUERY_FILE|result=checks[];'' @
     ''diff_file|params=path|cap=READ_FILE|result=diff;'' @
     ''set_file_attr|params=path,key,value|cap=PATCH_FILE|result=status;'' @
     ''get_file_attr|params=path,key|cap=QUERY_FILE|result=value;'' @
     ''del_file_attr|params=path,key|cap=PATCH_FILE|result=status;'' @
     ''query_agent|params=role,capability,group|cap=QUERY_PROCESS|result=agents[];'' @
     ''lease_begin|params=path|cap=LEASE_ACQUIRE|result=lease_id;'' @
     ''lease_commit|params=lease_id,expected_version|cap=LEASE_ACQUIRE|result=status;'' @
     ''lease_abort|params=lease_id|cap=LEASE_ACQUIRE|result=status''"

definition tool_list_head :: string where
  "tool_list_head =
     ''get_system_status();query_process(type);'' @
     ''query_file(type,owner,tags,keyword,public,mode);'' @
     ''send_message(target_pid,message);read_context();'' @
     ''read_file(path);patch_file(path,op,old,new);'' @
     ''run_rule_test(target);diff_file(path);'' @
     ''set_file_attr(path,key,value);get_file_attr(path,key);'' @
     ''del_file_attr(path,key);query_agent(role,capability,group);'' @
     ''get_workflow_metrics();'' @
     ''lease_begin(path);lease_commit(lease_id,expected_version);'' @
     ''lease_abort(lease_id)''"

definition visible_tools :: "proc \<Rightarrow> agent_dynamic_tool list \<Rightarrow> agent_dynamic_tool list" where
  "visible_tools p ts = filter (\<lambda>t. dt_used t \<and> agent_same_group_or_public p (dt_owner_group t) (dt_flags t)) ts"

definition schema_list_text :: "proc \<Rightarrow> agent_dynamic_tool list \<Rightarrow> string" where
  "schema_list_text p ts = sb_str
     (fold (\<lambda>t b. emit [Chr CHR '';'', Str (dt_name t), Str ''|params=dynamic|cap='', Num (dt_required_cap t),
       Str ''|result=dynamic''] b)
        (visible_tools p ts) (buf_puts schema_list_head (sbuf_new (int AGENT_TOOL_RESULT_MAX))))"

definition agent_tool_schema_list :: "nat \<Rightarrow> u64 \<Rightarrow> u64 \<Rightarrow> kst \<Rightarrow> int \<times> kst" where
  "agent_tool_schema_list i dst len s =
     with_page (-1) (\<lambda>s. copy_text i dst len (schema_list_text (pr s i) (ks_dynamic_tools s)) s) s"

definition tool_list_text :: "proc \<Rightarrow> agent_dynamic_tool list \<Rightarrow> string" where
  "tool_list_text p ts = sb_str
     (fold (\<lambda>t b. emit [Chr CHR '';'', Str (dt_name t), Str ''(dynamic)''] b)
        (visible_tools p ts) (buf_puts tool_list_head (sbuf_new (int AGENT_TOOL_RESULT_MAX))))"

definition agent_copy_tool_list :: "nat \<Rightarrow> u64 \<Rightarrow> u64 \<Rightarrow> kst \<Rightarrow> int \<times> kst" where
  "agent_copy_tool_list i dst len s =
     with_page (-1) (\<lambda>s. copy_text i dst len (tool_list_text (pr s i) (ks_dynamic_tools s)) s) s"

subsection \<open>Registering a tool\<close>

definition agent_tool_register :: "nat \<Rightarrow> string \<Rightarrow> u32 \<Rightarrow> kst \<Rightarrow> int \<times> kst" where
  "agent_tool_register i name flags s =
     (let p = pr s i
      in if agent_type p = AGENT_TYPE_NORMAL then (AGENT_TOOL_ERR_NOT_AGENT, s)
         else if agent_capabilities p AND AGENT_CAP_REGISTER_TOOL = 0 then (AGENT_TOOL_ERR_PERMISSION, s)
         else if hd0 name = NUL \<or> tool_is_builtin name \<or> flags AND NOT AGENT_TOOL_FLAG_PUBLIC \<noteq> 0
         then (AGENT_TOOL_ERR_BAD_PARAM, s)
         else if dynamic_tool_of name (ks_dynamic_tools s) \<noteq> None then (AGENT_TOOL_ERR_BUSY, s)
         else (case first_slot (\<lambda>t. \<not> dt_used t) (ks_dynamic_tools s) of
                 None \<Rightarrow> (AGENT_TOOL_ERR_NO_SPACE, s)
               | Some k \<Rightarrow> (0, s\<lparr>ks_dynamic_tools := (ks_dynamic_tools s)[k := \<lparr>dt_used = True,
                     dt_name = safestr AGENT_TOOL_NAME_MAX name, dt_owner_pid = p_pid p,
                     dt_owner_group = agent_group p, dt_flags = flags, dt_required_cap = 0\<rparr>]\<rparr>)))"

subsection \<open>Calling a dynamic tool\<close>

definition upd_request :: "nat \<Rightarrow> (agent_dynamic_request_slot \<Rightarrow> agent_dynamic_request_slot) \<Rightarrow> kst \<Rightarrow> kst" where
  "upd_request k f s = s\<lparr>ks_dynamic_requests := (ks_dynamic_requests s)[k := f (ks_dynamic_requests s ! k)]\<rparr>"

text \<open>\<open>agent_next_request_id++\<close>, back to 1 when it leaves the positive ints.\<close>

definition next_request_id :: "int \<Rightarrow> int" where
  "next_request_id n = (let m = sint (word_of_int (n + 1) :: u32) in if m \<le> 0 then 1 else m)"

text \<open>\<open>Inl\<close> the call is over, \<open>Inr\<close> it waits for the answer in a slot, under a request id.\<close>

definition dynamic_call_begin ::
    "nat \<Rightarrow> agent_tool_request \<Rightarrow> kst \<Rightarrow> (agent_tool_response \<times> kst) + (nat \<times> int \<times> kst)" where
  "dynamic_call_begin i req s =
     (let p = pr s i; deny = (\<lambda>t why text. Inl (tool_resp_set AGENT_TOOL_ERR_PERMISSION text,
            agent_audit_record i (u64_of_int (dt_owner_pid t)) (rq_tool req) False AGENT_TOOL_ERR_PERMISSION why s))
      in case dynamic_tool_of (rq_tool req) (ks_dynamic_tools s) of
           None \<Rightarrow> Inl (tool_resp_set AGENT_TOOL_ERR_TOOL_NOT_FOUND ''tool not found'', s)
         | Some k \<Rightarrow>
             let t = ks_dynamic_tools s ! k
             in if dt_required_cap t \<noteq> 0 \<and> agent_capabilities p AND dt_required_cap t = 0
                then deny t ''insufficient caps'' ''permission denied''
                else if \<not> agent_same_group_or_public p (dt_owner_group t) (dt_flags t)
                then deny t ''group mismatch'' ''tool permission denied''
                else (case first_slot (\<lambda>r. \<not> dr_used r) (ks_dynamic_requests s) of
                        None \<Rightarrow> Inl (tool_resp_set AGENT_TOOL_ERR_BUSY ''tool request queue full'', s)
                      | Some n \<Rightarrow>
                          let rid = ks_next_request_id s;
                              s1 = upd_request n (\<lambda>_. zero_request\<lparr>dr_used := True, dr_id := rid,
                                     dr_caller_pid := p_pid p, dr_caller_group := agent_group p,
                                     dr_service_pid := dt_owner_pid t, dr_tool := safestr AGENT_TOOL_NAME_MAX (rq_tool req),
                                     dr_params := safestr AGENT_TOOL_PARAM_MAX (rq_params req)\<rparr>)
                                   (s\<lparr>ks_next_request_id := next_request_id rid\<rparr>)
                          in Inr (n, rid, wakeup i ChanRequests s1)))"

text \<open>One round of the waiting loop: \<open>Inl\<close> the call is over, \<open>Inr\<close> the caller sleeps.\<close>

definition dynamic_call_check :: "nat \<Rightarrow> nat \<Rightarrow> int \<Rightarrow> kst \<Rightarrow> (agent_tool_response \<times> kst) + kst" where
  "dynamic_call_check i n rid s =
     (let r = ks_dynamic_requests s ! n; clear = wakeup i ChanRequests (upd_request n (\<lambda>_. zero_request) s)
      in if dr_replied r then Inl (tool_resp_set (dr_status r) (dr_result r), clear)
         else if p_killed (pr s i) then Inl (tool_resp_set AGENT_TOOL_ERR_SERVICE_GONE ''caller killed'', clear)
         else if dr_id r \<noteq> rid \<or> \<not> dr_used r
         then Inl (tool_resp_set AGENT_TOOL_ERR_SERVICE_GONE ''tool request lost'', s)
         else Inr (sleep_on i ChanRequests s))"

subsection \<open>Serving a dynamic tool\<close>

definition delivered_request :: "agent_dynamic_request_slot \<Rightarrow> agent_dynamic_tool_request" where
  "delivered_request r = \<lparr>dq_request_id = dr_id r, dq_caller_pid = dr_caller_pid r, dq_span_id = dr_span_id r,
     dq_tool = safestr AGENT_TOOL_NAME_MAX (dr_tool r), dq_params = safestr AGENT_TOOL_PARAM_MAX (dr_params r)\<rparr>"

text \<open>One round of \<open>agent_tool_recv\<close>: a request, an error, or asleep.\<close>

definition recv_check :: "nat \<Rightarrow> kst \<Rightarrow> ((int + agent_dynamic_tool_request) \<times> kst) + kst" where
  "recv_check i s =
     (if agent_type (pr s i) = AGENT_TYPE_NORMAL then Inl (Inl AGENT_TOOL_ERR_NOT_AGENT, s)
      else case first_slot (\<lambda>r. dr_used r \<and> \<not> dr_delivered r \<and> dr_service_pid r = p_pid (pr s i)) (ks_dynamic_requests s) of
             Some n \<Rightarrow> Inl (Inr (delivered_request (ks_dynamic_requests s ! n)), upd_request n (\<lambda>r. r\<lparr>dr_delivered := True\<rparr>) s)
           | None \<Rightarrow> if p_killed (pr s i) then Inl (Inl (-1), s) else Inr (sleep_on i ChanRequests s))"

definition agent_tool_reply :: "nat \<Rightarrow> int \<Rightarrow> string \<Rightarrow> int \<Rightarrow> kst \<Rightarrow> int \<times> kst" where
  "agent_tool_reply i rid result status s =
     (if agent_type (pr s i) = AGENT_TYPE_NORMAL then (AGENT_TOOL_ERR_NOT_AGENT, s)
      else case first_slot (\<lambda>r. dr_used r \<and> dr_id r = rid \<and> dr_service_pid r = p_pid (pr s i)) (ks_dynamic_requests s) of
             None \<Rightarrow> (AGENT_TOOL_ERR_BAD_PARAM, s)
           | Some n \<Rightarrow> (0, wakeup i ChanRequests (upd_request n
               (\<lambda>r. r\<lparr>dr_status := status, dr_result := safestr AGENT_TOOL_RESULT_MAX result, dr_replied := True\<rparr>) s)))"

subsection \<open>Leaving\<close>

definition exit_request :: "int \<Rightarrow> agent_dynamic_request_slot \<Rightarrow> agent_dynamic_request_slot" where
  "exit_request pid r =
     (if \<not> dr_used r then r
      else if dr_caller_pid r = pid then zero_request
      else if dr_service_pid r = pid \<and> \<not> dr_replied r
      then r\<lparr>dr_status := AGENT_TOOL_ERR_SERVICE_GONE, dr_result := ''tool service exited'', dr_replied := True\<rparr>
      else r)"

definition agent_proc_exit :: "nat \<Rightarrow> kst \<Rightarrow> kst option" where
  "agent_proc_exit i s =
     do {
       s1 \<leftarrow> agent_heartbeat_wheel_remove i s;
       let pid = p_pid (pr s1 i);
       let s2 = s1\<lparr>ks_dynamic_tools := map_slots (\<lambda>t. dt_used t \<and> dt_owner_pid t = pid) (\<lambda>_. zero_tool) (ks_dynamic_tools s1),
                  ks_dynamic_requests := map (exit_request pid) (ks_dynamic_requests s1)\<rparr>;
       let s3 = wakeup i ChanRequests s2;
       Some (agent_workflow_leave i (upd_global (agent_lease_reap_pid pid) s3))
     }"

end
