(* ===== verification/DynamicTools.thy ===== *)
theory DynamicTools
  imports ToolTable
begin

text \<open>
  The protocol of dynamic tools (kernel/agent\_tool.c): registering keeps names unique and apart from
  the built-in ones; a call travels to the service and its answer back to the caller; when the
  service leaves, every caller waiting for it is answered and woken.
\<close>

subsection \<open>Registration\<close>

definition tool_key :: "agent_dynamic_tool \<Rightarrow> string" where
  "tool_key t = cstr (dt_name t)"

definition tools_inv :: "agent_dynamic_tool list \<Rightarrow> bool" where
  "tools_inv ts \<longleftrightarrow> uniq_keys dt_used tool_key ts \<and>
     (\<forall>t \<in> set ts. dt_used t \<longrightarrow> dt_name t \<noteq> [] \<and> \<not> tool_is_builtin (dt_name t))"

interpretation dyn: slot_table dt_used tool_key zero_tool
  by unfold_locales (simp add: zero_tool_def)

abbreviation tool_map :: "agent_dynamic_tool list \<Rightarrow> string \<Rightarrow> agent_dynamic_tool option" where
  "tool_map \<equiv> table_map dt_used tool_key"

lemma dynamic_tool_of_key: "dynamic_tool_of name ts = find_key dt_used tool_key (cstr name) ts"
  by (simp add: dynamic_tool_of_def find_key_def tool_key_def streq_iff)


lemma tools_inv_uniq: "tools_inv ts \<Longrightarrow> uniq_keys dt_used tool_key ts"
  by (simp add: tools_inv_def)

definition new_tool :: "proc \<Rightarrow> string \<Rightarrow> u32 \<Rightarrow> agent_dynamic_tool" where
  "new_tool p name flags = \<lparr>dt_used = True, dt_name = cstr name, dt_owner_pid = p_pid p,
     dt_owner_group = agent_group p, dt_flags = flags, dt_required_cap = 0\<rparr>"

lemma register_spec:
  assumes inv: "tools_inv (ks_dynamic_tools s)" and len: "length (cstr name) < AGENT_TOOL_NAME_MAX"
    and r: "agent_tool_register i name flags s = (r, t)"
  shows "tools_inv (ks_dynamic_tools t) \<and>
    (if r = AGENT_TOOL_OK
     then tool_map (ks_dynamic_tools s) (cstr name) = None \<and>
       tool_map (ks_dynamic_tools t) = (tool_map (ks_dynamic_tools s))(cstr name \<mapsto> new_tool (pr s i) name flags)
     else t = s)"
proof -
  let ?ts = "ks_dynamic_tools s"
  have nm: "safestr AGENT_TOOL_NAME_MAX name = cstr name" using len by (rule safestr_id)
  show ?thesis
  proof (cases "agent_type (pr s i) = AGENT_TYPE_NORMAL \<or> agent_capabilities (pr s i) AND AGENT_CAP_REGISTER_TOOL = 0 \<or>
      hd0 name = NUL \<or> tool_is_builtin name \<or> flags AND NOT AGENT_TOOL_FLAG_PUBLIC \<noteq> 0 \<or>
      dynamic_tool_of name ?ts \<noteq> None \<or> first_slot (\<lambda>t. \<not> dt_used t) ?ts = None")
    case True
    then have "t = s \<and> r \<noteq> AGENT_TOOL_OK" using r by (auto simp: agent_tool_register_def Let_def split: if_splits)
    with inv show ?thesis by simp
  next
    case False
    then obtain k where k: "first_slot (\<lambda>t. \<not> dt_used t) ?ts = Some k" by auto
    have t: "r = AGENT_TOOL_OK" "ks_dynamic_tools t = ?ts[k := new_tool (pr s i) name flags]"
      using r False k by (auto simp: agent_tool_register_def Let_def new_tool_def nm)
    have key: "tool_key (new_tool (pr s i) name flags) = cstr name" by (simp add: tool_key_def new_tool_def)
    have fresh: "find_key dt_used tool_key (tool_key (new_tool (pr s i) name flags)) ?ts = None"
      using False unfolding key dynamic_tool_of_key by simp
    have "cstr name \<noteq> []" using False by (cases name) auto
    moreover have "\<not> tool_is_builtin (cstr name)" using False by (simp add: tool_is_builtin_def streq_iff)
    ultimately have "tools_inv (ks_dynamic_tools t)"
      using inv dyn.uniq_fill [OF tools_inv_uniq [OF inv] fresh, of k] set_update_subset_insert [of ?ts k "new_tool (pr s i) name flags"]
      unfolding t(2) tools_inv_def by (auto simp: new_tool_def)
    moreover have "tool_map (ks_dynamic_tools t) = (tool_map ?ts)(cstr name \<mapsto> new_tool (pr s i) name flags)"
      using dyn.map_fill [OF tools_inv_uniq [OF inv] fresh first_slot_less [OF k] first_slot_holds [OF k]]
      unfolding t(2) key by (simp add: new_tool_def)
    moreover have "tool_map ?ts (cstr name) = None" using fresh key by (simp add: table_map_def)
    ultimately show ?thesis using t(1) by simp
  qed
qed

text \<open>C31 (registration_refines_map). Registering a tool is an insertion into a map from names to tools: it succeeds
  only for a name that is neither built in nor taken, binds it to the caller's tool and changes no other name;
  every refusal changes nothing. Names stay unique and apart from the built-in ones.\<close>

theorem registration_refines_map:
  assumes "tools_inv (ks_dynamic_tools s)" and "length (cstr name) < AGENT_TOOL_NAME_MAX"
    and "agent_tool_register i name flags s = (r, t)"
  shows "tools_inv (ks_dynamic_tools t) \<and>
    (if r = AGENT_TOOL_OK
     then tool_map (ks_dynamic_tools s) (cstr name) = None \<and>
       tool_map (ks_dynamic_tools t) = (tool_map (ks_dynamic_tools s))(cstr name \<mapsto> new_tool (pr s i) name flags)
     else t = s)"
  using assms by (rule register_spec)

lemma tools_inv_boot: "tools_inv (replicate n zero_tool)"
  by (simp add: tools_inv_def zero_tool_def uniq_keys_replicate)

theorem registration_refines_map_witness:
  "\<exists>t. agent_tool_register 0 ''lint'' 0 (boot_kst [(wit_agent 4)\<lparr>agent_capabilities := AGENT_CAP_REGISTER_TOOL\<rparr>]) = (AGENT_TOOL_OK, t) \<and>
     map_option dt_owner_pid (tool_map (ks_dynamic_tools t) ''lint'') = Some 4"
proof -
  let ?s = "boot_kst [(wit_agent 4)\<lparr>agent_capabilities := AGENT_CAP_REGISTER_TOOL\<rparr>]"
  have inv: "tools_inv (ks_dynamic_tools ?s)" by (simp add: tools_inv_boot)
  have n: "\<not> tool_is_builtin ''lint''" by (simp add: tool_is_builtin_def builtin_names_def streq_iff)
  obtain r t where r: "agent_tool_register 0 ''lint'' 0 ?s = (r, t)" by force
  have z: "\<not> dt_used zero_tool" by (simp add: zero_tool_def)
  have d: "dynamic_tool_of ''lint'' (replicate 8 zero_tool) = None" by (simp add: dynamic_tool_of_def first_slot_None z)
  have f: "first_slot (\<lambda>t. \<not> dt_used t) (replicate 8 zero_tool) = Some 0" by (rule first_slotI) (simp_all add: z)
  have "r = AGENT_TOOL_OK"
    using r n d f by (auto simp: agent_tool_register_def wit_agent_def Let_def split: if_splits)
  then show ?thesis
    using registration_refines_map [OF inv _ r] r by (simp add: new_tool_def wit_agent_def)
qed


subsection \<open>A call and its answer\<close>

lemma safestr_safestr_fit: "0 < n \<Longrightarrow> safestr n (safestr n s) = safestr n s"
  using safestr_id [of "safestr n s" n] length_safestr [of n s] by simp

lemma upd_request_simps [simp]:
  "ks_procs (upd_request k f s) = ks_procs s" "ks_dynamic_tools (upd_request k f s) = ks_dynamic_tools s"
  "ks_next_request_id (upd_request k f s) = ks_next_request_id s"
  "length (ks_dynamic_requests (upd_request k f s)) = length (ks_dynamic_requests s)"
  by (simp_all add: upd_request_def)

lemma wakeup_simps [simp]:
  "ks_dynamic_requests (wakeup i c s) = ks_dynamic_requests s" "ks_dynamic_tools (wakeup i c s) = ks_dynamic_tools s"
  "length (ks_procs (wakeup i c s)) = length (ks_procs s)"
  by (simp_all add: wakeup_def)

lemma pr_wakeup:
  "j < length (ks_procs s) \<Longrightarrow> pr (wakeup i c s) j =
     (if j \<noteq> i \<and> p_state (pr s j) = SLEEPING \<and> p_chan (pr s j) = c then (pr s j)\<lparr>p_state := RUNNABLE\<rparr> else pr s j)"
  by (simp add: wakeup_def pr_for_procs_idx)

lemma wakeup_fields [simp]:
  assumes "j < length (ks_procs s)"
  shows "agent_type (pr (wakeup i c s) j) = agent_type (pr s j)" "p_pid (pr (wakeup i c s) j) = p_pid (pr s j)"
    "p_killed (pr (wakeup i c s) j) = p_killed (pr s j)"
  using assms by (simp_all add: pr_wakeup)

lemma sleep_on_simps [simp]:
  "ks_dynamic_requests (sleep_on i c s) = ks_dynamic_requests s" "length (ks_procs (sleep_on i c s)) = length (ks_procs s)"
  "ks_dynamic_tools (sleep_on i c s) = ks_dynamic_tools s"
  by (simp_all add: sleep_on_def)

definition call_slot :: "nat \<Rightarrow> agent_tool_request \<Rightarrow> int \<Rightarrow> agent_dynamic_tool \<Rightarrow> kst \<Rightarrow> agent_dynamic_request_slot" where
  "call_slot i req rid t s = zero_request\<lparr>dr_used := True, dr_id := rid, dr_caller_pid := p_pid (pr s i),
     dr_caller_group := agent_group (pr s i), dr_service_pid := dt_owner_pid t,
     dr_tool := safestr AGENT_TOOL_NAME_MAX (rq_tool req), dr_params := safestr AGENT_TOOL_PARAM_MAX (rq_params req)\<rparr>"

lemma call_begin_spec:
  assumes "dynamic_call_begin i req s = Inr (n, rid, s1)"
  shows "\<exists>k. dynamic_tool_of (rq_tool req) (ks_dynamic_tools s) = Some k \<and> n < length (ks_dynamic_requests s) \<and>
    \<not> dr_used (ks_dynamic_requests s ! n) \<and> rid = ks_next_request_id s \<and>
    ks_dynamic_requests s1 = (ks_dynamic_requests s)[n := call_slot i req rid (ks_dynamic_tools s ! k) s] \<and>
    ks_procs s1 = ks_procs (wakeup i ChanRequests s)"
proof -
  obtain k where k: "dynamic_tool_of (rq_tool req) (ks_dynamic_tools s) = Some k"
    using assms by (cases "dynamic_tool_of (rq_tool req) (ks_dynamic_tools s)") (auto simp: dynamic_call_begin_def Let_def)
  obtain m where m: "first_slot (\<lambda>r. \<not> dr_used r) (ks_dynamic_requests s) = Some m"
    using assms k by (cases "first_slot (\<lambda>r. \<not> dr_used r) (ks_dynamic_requests s)")
      (auto simp: dynamic_call_begin_def Let_def split: if_splits)
  show ?thesis
    using assms k m first_slot_less [OF m] first_slot_holds [OF m]
    by (auto simp: dynamic_call_begin_def Let_def upd_request_def call_slot_def wakeup_def for_procs_idx_def split: if_splits)
qed

text \<open>The service's two steps, when the request in slot \<open>n\<close> is the one the scan finds.\<close>

lemma recv_slot:
  assumes n: "n < length (ks_dynamic_requests s)" and r: "r = ks_dynamic_requests s ! n"
    and ok: "agent_type (pr s j) \<noteq> AGENT_TYPE_NORMAL" "dr_used r" "\<not> dr_delivered r" "dr_service_pid r = p_pid (pr s j)"
    and first: "\<And>m. m < n \<Longrightarrow> dr_used (ks_dynamic_requests s ! m) \<Longrightarrow> dr_delivered (ks_dynamic_requests s ! m) \<or>
      dr_service_pid (ks_dynamic_requests s ! m) \<noteq> p_pid (pr s j)"
  shows "recv_check j s = Inl (Inr (delivered_request r), upd_request n (\<lambda>r. r\<lparr>dr_delivered := True\<rparr>) s)"
proof -
  have "first_slot (\<lambda>r. dr_used r \<and> \<not> dr_delivered r \<and> dr_service_pid r = p_pid (pr s j)) (ks_dynamic_requests s) = Some n"
    using n r ok first by (intro first_slotI) auto
  then show ?thesis using ok(1) r by (simp add: recv_check_def)
qed

lemma reply_slot:
  assumes n: "n < length (ks_dynamic_requests s)"
    and ok: "agent_type (pr s j) \<noteq> AGENT_TYPE_NORMAL" "dr_used (ks_dynamic_requests s ! n)" "dr_id (ks_dynamic_requests s ! n) = rid"
      "dr_service_pid (ks_dynamic_requests s ! n) = p_pid (pr s j)"
    and first: "\<And>m. m < n \<Longrightarrow> dr_used (ks_dynamic_requests s ! m) \<Longrightarrow> dr_id (ks_dynamic_requests s ! m) \<noteq> rid"
  shows "agent_tool_reply j rid result status s = (0, wakeup j ChanRequests (upd_request n
      (\<lambda>r. r\<lparr>dr_status := status, dr_result := safestr AGENT_TOOL_RESULT_MAX result, dr_replied := True\<rparr>) s))"
proof -
  have "first_slot (\<lambda>r. dr_used r \<and> dr_id r = rid \<and> dr_service_pid r = p_pid (pr s j)) (ks_dynamic_requests s) = Some n"
    using n ok first by (intro first_slotI) auto
  then show ?thesis using ok(1) by (simp add: agent_tool_reply_def)
qed

lemma upd_request_nth [simp]:
  "n < length (ks_dynamic_requests s) \<Longrightarrow> ks_dynamic_requests (upd_request n f s) ! n = f (ks_dynamic_requests s ! n)"
  "m \<noteq> n \<Longrightarrow> ks_dynamic_requests (upd_request n f s) ! m = ks_dynamic_requests s ! m"
  by (simp_all add: upd_request_def)

text \<open>C32 (dynamic_call_delivers). A call of a dynamic tool is answered by its service: once the caller's request is
  in the queue, the caller sleeps; the service, with nothing older to serve, receives exactly this request
  (tool and parameters cut to their buffers); its reply wakes the caller, whose call then returns the service's
  status and result (cut to 511 characters) and gives the slot back.\<close>

theorem dynamic_call_delivers:
  assumes call: "dynamic_call_begin i req s = Inr (n, rid, s1)"
    and procs: "i < length (ks_procs s)" "j < length (ks_procs s)" "i \<noteq> j" "\<not> p_killed (pr s i)"
    and service: "agent_type (pr s j) \<noteq> AGENT_TYPE_NORMAL"
      "\<And>k. dynamic_tool_of (rq_tool req) (ks_dynamic_tools s) = Some k \<Longrightarrow> dt_owner_pid (ks_dynamic_tools s ! k) = p_pid (pr s j)"
    and idle: "\<forall>r \<in> set (ks_dynamic_requests s). dr_used r \<longrightarrow> dr_id r \<noteq> rid \<and> (dr_delivered r \<or> dr_service_pid r \<noteq> p_pid (pr s j))"
  shows "\<exists>s2 dq s3 s4 s5. dynamic_call_check i n rid s1 = Inr s2 \<and> p_state (pr s2 i) = SLEEPING \<and>
    recv_check j s2 = Inl (Inr dq, s3) \<and> dq_request_id dq = rid \<and> dq_caller_pid dq = p_pid (pr s i) \<and>
    dq_tool dq = safestr AGENT_TOOL_NAME_MAX (rq_tool req) \<and> dq_params dq = safestr AGENT_TOOL_PARAM_MAX (rq_params req) \<and>
    agent_tool_reply j rid result status s3 = (0, s4) \<and> p_state (pr s4 i) = RUNNABLE \<and>
    dynamic_call_check i n rid s4 = Inl (tool_resp_set status (safestr AGENT_TOOL_RESULT_MAX result), s5) \<and>
    ks_dynamic_requests s5 ! n = zero_request"
proof -
  obtain k where k: "dynamic_tool_of (rq_tool req) (ks_dynamic_tools s) = Some k" and n: "n < length (ks_dynamic_requests s)"
    and rq: "ks_dynamic_requests s1 = (ks_dynamic_requests s)[n := call_slot i req rid (ks_dynamic_tools s ! k) s]"
    and ps: "ks_procs s1 = ks_procs (wakeup i ChanRequests s)"
    using call_begin_spec [OF call] by blast
  define c where "c = call_slot i req rid (ks_dynamic_tools s ! k) s"
  note c = c_def [unfolded call_slot_def service(2) [OF k]]
  have n1: "n < length (ks_dynamic_requests s1)" and at: "ks_dynamic_requests s1 ! n = c" using n rq by (simp_all add: c_def)
  have other: "ks_dynamic_requests s1 ! m = ks_dynamic_requests s ! m" "ks_dynamic_requests s ! m \<in> set (ks_dynamic_requests s)"
    if "m < n" for m using that n rq by simp_all
  have len1: "length (ks_procs s1) = length (ks_procs s)" by (simp add: ps)
  let ?s2 = "sleep_on i ChanRequests s1"
  let ?s3 = "upd_request n (\<lambda>r. r\<lparr>dr_delivered := True\<rparr>) ?s2"
  let ?s4 = "wakeup j ChanRequests (upd_request n (\<lambda>r. r\<lparr>dr_status := status,
      dr_result := safestr AGENT_TOOL_RESULT_MAX result, dr_replied := True\<rparr>) ?s3)"
  let ?s5 = "wakeup i ChanRequests (upd_request n (\<lambda>_. zero_request) ?s4)"
  have 2: "dynamic_call_check i n rid s1 = Inr ?s2"
    using procs by (simp add: dynamic_call_check_def Let_def at c zero_request_def ps)
  have pi2: "p_state (pr ?s2 i) = SLEEPING" "p_chan (pr ?s2 i) = ChanRequests" using procs len1 by (simp_all add: sleep_on_def)
  have pj: "agent_type (pr ?s2 j) \<noteq> AGENT_TYPE_NORMAL" "p_pid (pr ?s2 j) = p_pid (pr s j)"
    using procs service(1) by (simp_all add: sleep_on_def ps)
  have 3: "recv_check j ?s2 = Inl (Inr (delivered_request c), ?s3)"
    using n1 pj idle other at by (intro recv_slot) (auto simp: c zero_request_def)
  have 4: "agent_tool_reply j rid result status ?s3 = (0, ?s4)"
    using n1 pj idle other at by (intro reply_slot) (auto simp: c)
  have pi4: "p_state (pr ?s4 i) = RUNNABLE" using procs pi2 len1 by (simp add: pr_wakeup)
  have rq4: "ks_dynamic_requests ?s4 ! n = c\<lparr>dr_delivered := True, dr_status := status,
      dr_result := safestr AGENT_TOOL_RESULT_MAX result, dr_replied := True\<rparr>"
    using n1 at by simp
  have 5: "dynamic_call_check i n rid ?s4 = Inl (tool_resp_set status (safestr AGENT_TOOL_RESULT_MAX result), ?s5)"
    unfolding dynamic_call_check_def Let_def rq4 by simp
  have 6: "ks_dynamic_requests ?s5 ! n = zero_request" using n1 by simp
  have dq: "dq_request_id (delivered_request c) = rid" "dq_caller_pid (delivered_request c) = p_pid (pr s i)"
    "dq_tool (delivered_request c) = safestr AGENT_TOOL_NAME_MAX (rq_tool req)"
    "dq_params (delivered_request c) = safestr AGENT_TOOL_PARAM_MAX (rq_params req)"
    by (simp_all add: delivered_request_def c safestr_safestr_fit)
  show ?thesis using 2 3 4 5 6 pi2 pi4 dq by blast
qed


text \<open>A caller, and an agent that serves the tool \<open>lint\<close>.\<close>

definition wit_tool :: agent_dynamic_tool where
  "wit_tool = zero_tool\<lparr>dt_used := True, dt_name := ''lint'', dt_owner_pid := 2, dt_flags := AGENT_TOOL_FLAG_PUBLIC\<rparr>"

definition wit_service :: kst where
  "wit_service = (boot_kst [wit_agent 1, wit_agent 2])\<lparr>ks_dynamic_tools := wit_tool # replicate 7 zero_tool\<rparr>"

lemma wit_tool_of: "dynamic_tool_of ''lint'' (wit_tool # ts) = Some 0"
  by (simp add: dynamic_tool_of_def wit_tool_def)

lemma wit_call:
  "\<exists>s1. dynamic_call_begin 0 \<lparr>rq_tool = ''lint'', rq_params = ''x=1''\<rparr> wit_service = Inr (0, 1, s1)"
proof -
  have z: "\<not> dr_used zero_request" by (simp add: zero_request_def)
  have f: "first_slot (\<lambda>r. \<not> dr_used r) (replicate 8 zero_request) = Some 0" by (rule first_slotI) (simp_all add: z)
  have t: "dt_required_cap wit_tool = 0" "dt_flags wit_tool AND AGENT_TOOL_FLAG_PUBLIC \<noteq> 0"
    by (simp_all add: wit_tool_def zero_tool_def)
  show ?thesis
    using t by (simp add: dynamic_call_begin_def wit_service_def wit_tool_of Let_def f agent_same_group_or_public_def)
qed

theorem dynamic_call_delivers_witness:
  "\<exists>s1 s2 dq s3 s4. dynamic_call_begin 0 \<lparr>rq_tool = ''lint'', rq_params = ''x=1''\<rparr> wit_service = Inr (0, 1, s1) \<and>
     dynamic_call_check 0 0 1 s1 = Inr s2 \<and> recv_check 1 s2 = Inl (Inr dq, s3) \<and>
     agent_tool_reply 1 1 ''clean'' 0 s3 = (0, s4) \<and> p_state (pr s4 0) = RUNNABLE"
proof -
  obtain s1 where call: "dynamic_call_begin 0 \<lparr>rq_tool = ''lint'', rq_params = ''x=1''\<rparr> wit_service = Inr (0, 1, s1)"
    using wit_call by blast
  have p: "length (ks_procs wit_service) = 2" "\<not> p_killed (pr wit_service 0)" "agent_type (pr wit_service 1) \<noteq> AGENT_TYPE_NORMAL"
    "p_pid (pr wit_service 1) = 2"
    by (simp_all add: wit_service_def wit_agent_def zero_proc_def)
  have o: "dt_owner_pid (ks_dynamic_tools wit_service ! k) = p_pid (pr wit_service 1)"
    if "dynamic_tool_of (rq_tool \<lparr>rq_tool = ''lint'', rq_params = ''x=1''\<rparr>) (ks_dynamic_tools wit_service) = Some k" for k
    using that unfolding p(4) by (simp add: wit_service_def wit_tool_of) (simp add: wit_tool_def)
  have r: "\<forall>r \<in> set (ks_dynamic_requests wit_service). dr_used r \<longrightarrow> dr_id r \<noteq> 1 \<and>
      (dr_delivered r \<or> dr_service_pid r \<noteq> p_pid (pr wit_service 1))"
    by (simp add: wit_service_def zero_request_def)
  have "0 < length (ks_procs wit_service)" "1 < length (ks_procs wit_service)" using p(1) by simp_all
  from dynamic_call_delivers [OF call this _ p(2,3) o r, of "''clean''" 0] call show ?thesis by auto
qed

subsection \<open>A service leaves\<close>

lemma workflow_leave_frame [simp]:
  "ks_dynamic_requests (agent_workflow_leave i s) = ks_dynamic_requests s"
  "ks_dynamic_tools (agent_workflow_leave i s) = ks_dynamic_tools s"
  by (simp_all add: agent_workflow_leave_def Let_def upd_global_def split: option.splits)

lemma pr_workflow_leave [simp]: "i \<noteq> j \<Longrightarrow> pr (agent_workflow_leave j s) i = pr s i"
  by (simp add: agent_workflow_leave_def Let_def split: option.splits)

lemma proc_exit_spec:
  assumes inv: "wheel_inv s" and j: "j < length (ks_procs s)"
  shows "\<exists>t. agent_proc_exit j s = Some t \<and>
    ks_dynamic_requests t = map (exit_request (p_pid (pr s j))) (ks_dynamic_requests s) \<and>
    ks_dynamic_tools t = map_slots (\<lambda>x. dt_used x \<and> dt_owner_pid x = p_pid (pr s j)) (\<lambda>_. zero_tool) (ks_dynamic_tools s) \<and>
    (\<forall>i < length (ks_procs s). i \<noteq> j \<longrightarrow> p_killed (pr t i) = p_killed (pr s i) \<and>
       p_state (pr t i) = (if p_state (pr s i) = SLEEPING \<and> p_chan (pr s i) = ChanRequests then RUNNABLE else p_state (pr s i)))"
proof -
  obtain s1 where s1: "agent_heartbeat_wheel_remove j s = Some s1" "\<And>i. off_wheel (pr s1 i) = off_wheel (pr s i)"
    "off_wheel_kst s1 = off_wheel_kst s"
    using remove_inv [OF inv j] by blast
  note k = off_wheel_kstD [OF s1(3)]
  have f: "p_pid (pr s1 i) = p_pid (pr s i)" "p_state (pr s1 i) = p_state (pr s i)" "p_chan (pr s1 i) = p_chan (pr s i)"
    "p_killed (pr s1 i) = p_killed (pr s i)" for i
    using arg_cong [OF s1(2) [of i], of p_pid] arg_cong [OF s1(2) [of i], of p_state] arg_cong [OF s1(2) [of i], of p_chan]
      arg_cong [OF s1(2) [of i], of p_killed] by (simp_all add: off_wheel_def)
  define s2 where "s2 = s1\<lparr>ks_dynamic_tools := map_slots (\<lambda>t. dt_used t \<and> dt_owner_pid t = p_pid (pr s j)) (\<lambda>_. zero_tool) (ks_dynamic_tools s),
      ks_dynamic_requests := map (exit_request (p_pid (pr s j))) (ks_dynamic_requests s)\<rparr>"
  define t where "t = agent_workflow_leave j (upd_global (agent_lease_reap_pid (p_pid (pr s j))) (wakeup j ChanRequests s2))"
  have ex: "agent_proc_exit j s = Some t"
    using s1(1) k(5,6) f(1) by (simp add: agent_proc_exit_def t_def s2_def Let_def)
  have len: "length (ks_procs s2) = length (ks_procs s)" using k(8) by (simp add: s2_def)
  have "pr t i = pr (wakeup j ChanRequests s2) i" if "i \<noteq> j" for i using that by (simp add: t_def)
  then have "p_killed (pr t i) = p_killed (pr s i) \<and>
       p_state (pr t i) = (if p_state (pr s i) = SLEEPING \<and> p_chan (pr s i) = ChanRequests then RUNNABLE else p_state (pr s i))"
    if "i < length (ks_procs s)" "i \<noteq> j" for i
    using that len f [of i] by (simp add: pr_wakeup) (simp add: s2_def)
  moreover have "ks_dynamic_requests t = ks_dynamic_requests s2" "ks_dynamic_tools t = ks_dynamic_tools s2"
    by (simp_all add: t_def upd_global_def)
  ultimately show ?thesis using ex by (intro exI [of _ t]) (simp add: s2_def)
qed

text \<open>C33 (service_exit_answers_callers). No caller waits for a service that is gone: when an agent leaves, its tools
  are no longer registered and every other caller that sleeps for an answer of one of them is runnable, and its
  call then returns SERVICE_GONE. Leaving never fails.\<close>

theorem service_exit_answers_callers:
  assumes inv: "wheel_inv s" and procs: "i < length (ks_procs s)" "j < length (ks_procs s)" "i \<noteq> j" "\<not> p_killed (pr s i)"
    and asleep: "p_state (pr s i) = SLEEPING" "p_chan (pr s i) = ChanRequests"
    and req: "n < length (ks_dynamic_requests s)" "dr_used (ks_dynamic_requests s ! n)" "dr_id (ks_dynamic_requests s ! n) = rid"
      "\<not> dr_replied (ks_dynamic_requests s ! n)" "dr_service_pid (ks_dynamic_requests s ! n) = p_pid (pr s j)"
      "dr_caller_pid (ks_dynamic_requests s ! n) \<noteq> p_pid (pr s j)"
  shows "\<exists>t u. agent_proc_exit j s = Some t \<and> p_state (pr t i) = RUNNABLE \<and>
    dynamic_call_check i n rid t = Inl (tool_resp_set AGENT_TOOL_ERR_SERVICE_GONE ''tool service exited'', u) \<and>
    (\<forall>x \<in> set (ks_dynamic_tools t). dt_used x \<longrightarrow> dt_owner_pid x \<noteq> p_pid (pr s j))"
proof -
  obtain t where t: "agent_proc_exit j s = Some t" "p_state (pr t i) = RUNNABLE"
    and rq: "ks_dynamic_requests t = map (exit_request (p_pid (pr s j))) (ks_dynamic_requests s)"
    and ts: "ks_dynamic_tools t = map_slots (\<lambda>x. dt_used x \<and> dt_owner_pid x = p_pid (pr s j)) (\<lambda>_. zero_tool) (ks_dynamic_tools s)"
    using proc_exit_spec [OF inv procs(2)] procs(1,3) asleep by auto
  have r: "ks_dynamic_requests t ! n = (ks_dynamic_requests s ! n)\<lparr>dr_status := AGENT_TOOL_ERR_SERVICE_GONE,
      dr_result := ''tool service exited'', dr_replied := True\<rparr>"
    using req by (simp add: rq exit_request_def)
  have "\<exists>u. dynamic_call_check i n rid t = Inl (tool_resp_set AGENT_TOOL_ERR_SERVICE_GONE ''tool service exited'', u)"
    unfolding dynamic_call_check_def Let_def r by simp
  moreover have "\<forall>x \<in> set (ks_dynamic_tools t). dt_used x \<longrightarrow> dt_owner_pid x \<noteq> p_pid (pr s j)"
    unfolding ts by (auto dest!: set_map_slots simp: zero_tool_def)
  ultimately show ?thesis using t by blast
qed

theorem service_exit_answers_callers_witness:
  "\<exists>t. agent_proc_exit 1 ((boot_kst [(wit_agent 1)\<lparr>p_chan := ChanRequests\<rparr>, wit_agent 2])\<lparr>ks_dynamic_requests :=
       [zero_request\<lparr>dr_used := True, dr_id := 5, dr_caller_pid := 1, dr_service_pid := 2\<rparr>]\<rparr>) = Some t \<and>
     p_state (pr t 0) = RUNNABLE"
proof -
  let ?b = "boot_kst [(wit_agent 1)\<lparr>p_chan := ChanRequests\<rparr>, wit_agent 2]"
  let ?s = "?b\<lparr>ks_dynamic_requests := [zero_request\<lparr>dr_used := True, dr_id := 5, dr_caller_pid := 1, dr_service_pid := 2\<rparr>]\<rparr>"
  have "wheel_inv ?b" by (rule wheel_inv_boot) (auto simp: wit_agent_def zero_proc_def)
  then have inv: "wheel_inv ?s" by (simp add: wheel_inv_cong)
  have "\<exists>t u. agent_proc_exit 1 ?s = Some t \<and> p_state (pr t 0) = RUNNABLE \<and>
    dynamic_call_check 0 0 5 t = Inl (tool_resp_set AGENT_TOOL_ERR_SERVICE_GONE ''tool service exited'', u) \<and>
    (\<forall>x \<in> set (ks_dynamic_tools t). dt_used x \<longrightarrow> dt_owner_pid x \<noteq> p_pid (pr ?s 1))"
    by (rule service_exit_answers_callers [OF inv]) (simp_all add: wit_agent_def zero_proc_def zero_request_def)
  then show ?thesis by blast
qed

end
