(* ===== verification/Tools.thy ===== *)
theory Tools
  imports ToolTable
begin

text \<open>
  The built-in tools and their dispatch (kernel/agent\_tool.c). A tool call checks the caller's
  capability, runs the tool, and records the call as one node of the caller's Context path. The call
  of a dynamic tool can sleep: \<open>agent_tool_call_begin\<close> ends either with the response or waiting in a
  request slot, and \<open>tool_call_finish\<close> is what follows the tool.
\<close>

type_synonym tool_result = "(agent_tool_response \<times> kst) option"

subsection \<open>Reading files\<close>

text \<open>\<open>readi(ip, 0, buf, 0, bufsz - 1)\<close> of an open file: the count and the bytes.\<close>

definition read_open :: "nat \<Rightarrow> nat \<Rightarrow> kst \<Rightarrow> (int \<times> string \<times> kst) option" where
  "read_open ip bufsz s =
     (case readi_kernel ip 0 (of_nat (bufsz - 1)) (ks_fs s) of
        None \<Rightarrow> None
      | Some (n, bs, fs) \<Rightarrow> Some (n, bs, s\<lparr>ks_fs := fs\<rparr>))"

definition read_file_content :: "nat \<Rightarrow> string \<Rightarrow> nat \<Rightarrow> kst \<Rightarrow> (string option \<times> kst) option" where
  "read_file_content i path bufsz s =
     (if bufsz = 0 then Some (None, s)
      else do {
        (f, s1) \<leftarrow> open_file i path s;
        (case f of
           Inl _ \<Rightarrow> Some (None, s1)
         | Inr ip \<Rightarrow>
             do {
               (n, bs, s2) \<leftarrow> read_open ip bufsz s1;
               s3 \<leftarrow> on_fs (iunlockput ip) s2;
               Some (if n < 0 then None else Some bs, s3)
             })
      })"

text \<open>The same with the file's identity and the version the bytes belong to.\<close>

definition read_file_content_versioned ::
    "nat \<Rightarrow> string \<Rightarrow> nat \<Rightarrow> kst \<Rightarrow> ((string \<times> u32 \<times> u32 \<times> u64) option \<times> kst) option" where
  "read_file_content_versioned i path bufsz s =
     (if bufsz = 0 then Some (None, s)
      else do {
        (f, s1) \<leftarrow> open_file i path s;
        (case f of
           Inl _ \<Rightarrow> Some (None, s1)
         | Inr ip \<Rightarrow>
             do {
               (n, bs, s2) \<leftarrow> read_open ip bufsz s1;
               let dev = in_dev (fs_ino s2 ip);
               let inum = in_inum (fs_ino s2 ip);
               let (v, es) = agentfs_inode_version_get dev inum (ks_file_versions s2);
               let s3 = (if n \<ge> 0 then s2\<lparr>ks_file_versions := es\<rparr> else s2);
               s4 \<leftarrow> on_fs (iunlockput ip) s3;
               Some (if n < 0 then None else Some (bs, dev, inum, v), s4)
             })
      })"

subsection \<open>Status, metrics, processes\<close>

definition status_text :: "kst \<Rightarrow> string" where
  "status_text s =
     (let used = filter (\<lambda>p. p_state p \<noteq> UNUSED) (ks_procs s);
          agents = filter (\<lambda>p. agent_type p \<noteq> AGENT_TYPE_NORMAL) used; g = ks_global s
      in sb_str (emit [Str ''{status=ok,procs='', Num (of_nat (length used)), Str '',agents='',
       Num (of_nat (length agents)), Str '',ticks='', Num (ucast (ks_ticks s)),
       Str '',heartbeat_active='', Num (u64_of_int (gl_heartbeat_count g)),
       Str '',heartbeat_scanned='', Num (gl_heartbeat_tick_scanned g), Str '',heartbeat_wakeups='',
       Num (gl_heartbeat_tick_wakeups g), Chr CHR ''}''] (sbuf_new (int AGENT_TOOL_RESULT_MAX))))"

definition tool_get_system_status :: "kst \<Rightarrow> agent_tool_response \<times> kst" where
  "tool_get_system_status s =
     with_page (tool_resp_set AGENT_TOOL_ERR_NO_SPACE ''no memory'') (\<lambda>s. (tool_resp_set AGENT_TOOL_OK (status_text s), s)) s"

definition metrics_text :: "u64 \<Rightarrow> agent_workflow_metrics \<Rightarrow> string" where
  "metrics_text wid m = sb_str
     (emit [Str ''{status=ok,workflow_id='', Num wid, Str '',tool_calls='', Num (wm_tool_calls m),
       Str '',syscalls='', Num (wm_syscalls m), Str '',messages_received='',
       Num (wm_messages_received m), Str '',query_file_calls='', Num (wm_query_file_calls m),
       Str '',files_scanned='', Num (wm_files_scanned m), Str '',index_scanned='',
       Num (wm_index_scanned m), Str '',files_read='', Num (wm_files_read m), Str '',bytes_read='',
       Num (wm_bytes_read m), Str '',cache_hits='', Num (wm_cache_hits m), Str '',cache_misses='',
       Num (wm_cache_misses m), Str '',duplicate_queries='', Num (wm_duplicate_queries m),
       Str '',wait_calls='', Num (wm_wait_calls m), Str '',wait_ticks='', Num (wm_wait_ticks m),
       Chr CHR ''}''] (sbuf_new (int AGENT_TOOL_RESULT_MAX)))"

definition tool_get_workflow_metrics :: "nat \<Rightarrow> kst \<Rightarrow> agent_tool_response \<times> kst" where
  "tool_get_workflow_metrics i s =
     (case agent_workflow_metrics_get i s of
        Inl _ \<Rightarrow> (tool_resp_set AGENT_TOOL_ERR_SERVICE_GONE ''workflow metrics unavailable'', s)
      | Inr m \<Rightarrow> with_page (tool_resp_set AGENT_TOOL_ERR_NO_SPACE ''no memory'')
          (\<lambda>s. (tool_resp_set AGENT_TOOL_OK (metrics_text (workflow_id (pr s i)) m), s)) s)"

definition process_item :: "proc \<Rightarrow> sbuf \<Rightarrow> sbuf" where
  "process_item p b = emit [Str ''{pid='', Num (u64_of_int (p_pid p)), Str '',name='', Str (p_name p), Str '',type='',
       Num (u64_of_int (agent_type p)), Str '',caps='', Num (agent_capabilities p), Chr CHR ''}''] b"

definition processes_text :: "bool \<Rightarrow> proc list \<Rightarrow> string" where
  "processes_text only_agent ps =
     (let xs = filter (\<lambda>p. p_state p \<noteq> UNUSED \<and> \<not> (only_agent \<and> agent_type p = AGENT_TYPE_NORMAL)) ps
      in sb_str (emit [Str ''],count='', Num (of_nat (length xs)), Chr CHR ''}''] (put_items process_item xs (buf_puts ''{status=ok,processes=['' (sbuf_new (int AGENT_TOOL_RESULT_MAX))))))"

definition tool_query_process :: "agent_tool_request \<Rightarrow> kst \<Rightarrow> agent_tool_response \<times> kst" where
  "tool_query_process req s =
     with_page (tool_resp_set AGENT_TOOL_ERR_NO_SPACE ''no memory'') (\<lambda>s.
       let only_agent = (case param_value (rq_params req) ''type'' 24 of Some t \<Rightarrow> streq t ''agent'' | None \<Rightarrow> False)
       in (tool_resp_set AGENT_TOOL_OK (processes_text only_agent (ks_procs s)), s)) s"

definition tool_query_agent_match :: "u64 option \<Rightarrow> u64 option \<Rightarrow> u64 option \<Rightarrow> proc \<Rightarrow> bool" where
  "tool_query_agent_match role capability grp p \<longleftrightarrow>
     \<not> (p_state p = UNUSED \<or> agent_type p = AGENT_TYPE_NORMAL) \<and>
     (case role of Some r \<Rightarrow> agent_role p = int_of_u64 r | None \<Rightarrow> True) \<and>
     (case capability of Some c \<Rightarrow> cap_bit (agent_capabilities p) (int_of_u64 c) | None \<Rightarrow> True) \<and>
     (case grp of Some g \<Rightarrow> agent_group p = int_of_u64 g | None \<Rightarrow> True)"

definition tool_query_agent_item :: "proc \<Rightarrow> sbuf \<Rightarrow> sbuf" where
  "tool_query_agent_item p b = emit [Str ''{pid='', Num (u64_of_int (p_pid p)), Str '',role='', Num (u64_of_int (agent_role p)),
       Str '',caps='', Num (agent_capabilities p), Str '',group='', Num (u64_of_int (agent_group p)),
       Str '',state='', Num (u64_of_int (loop_state p)), Chr CHR ''}''] b"

definition tool_query_agent_text :: "u64 option \<Rightarrow> u64 option \<Rightarrow> u64 option \<Rightarrow> proc list \<Rightarrow> string" where
  "tool_query_agent_text role capability grp ps =
     (let xs = filter (tool_query_agent_match role capability grp) ps
      in sb_str (emit [Str ''],count='', Num (of_nat (length xs)), Chr CHR ''}''] (put_items tool_query_agent_item xs (buf_puts ''{status=ok,agents=['' (sbuf_new (int AGENT_TOOL_RESULT_MAX))))))"

definition tool_query_agent :: "agent_tool_request \<Rightarrow> kst \<Rightarrow> agent_tool_response \<times> kst" where
  "tool_query_agent req s =
     with_page (tool_resp_set AGENT_TOOL_ERR_NO_SPACE ''no memory'') (\<lambda>s.
       (tool_resp_set AGENT_TOOL_OK (tool_query_agent_text (parse_uint_param (rq_params req) ''role'')
          (parse_uint_param (rq_params req) ''capability'') (parse_uint_param (rq_params req) ''group'') (ks_procs s)), s)) s"

subsection \<open>Messages and the Context\<close>

definition tool_send_message_tool :: "nat \<Rightarrow> agent_tool_request \<Rightarrow> kst \<Rightarrow> agent_tool_response \<times> kst" where
  "tool_send_message_tool i req s =
     (case parse_uint_param (rq_params req) ''target_pid'' of
        None \<Rightarrow> (tool_resp_set AGENT_TOOL_ERR_BAD_PARAM ''bad params'', s)
      | Some pid \<Rightarrow>
          let off = str_find (rq_params req) ''message=''
          in if off < 0 then (tool_resp_set AGENT_TOOL_ERR_BAD_PARAM ''bad params'', s)
             else
               let message = safestr AGENT_MESSAGE_MAX (drop (nat off + 8) (rq_params req));
                   (r, s1) = agent_send_message (Some i) (int_of_u64 pid) AGENT_MESSAGE_TYPE_NORMAL (Some message) 0 s
               in (if r = AGENT_TOOL_ERR_BUSY then tool_resp_set r ''target mailbox full''
                   else if r \<noteq> AGENT_TOOL_OK then tool_resp_set r ''target agent unavailable''
                   else tool_resp_set AGENT_TOOL_OK ''message delivered'', s1))"

definition tool_read_context :: "nat \<Rightarrow> kst \<Rightarrow> agent_tool_response \<times> kst" where
  "tool_read_context i s =
     (let p = pr s i; n = min (of_nat (AGENT_TOOL_RESULT_MAX - 1)) (context_path_len p)
      in if n = 0 then (tool_resp_set AGENT_TOOL_OK [], s)
         else with_page (tool_resp_set AGENT_TOOL_ERR_NO_SPACE ''no memory'') (\<lambda>s.
           case copyin_proc i (agent_path_base p + context_path_len p - n) (unat n) s of
             None \<Rightarrow> (tool_resp_set AGENT_TOOL_ERR_BAD_PARAM ''context unavailable'', s)
           | Some tmp \<Rightarrow> (tool_resp_set AGENT_TOOL_OK tmp, s)) s)"

subsection \<open>Files\<close>

definition tool_read_file :: "nat \<Rightarrow> agent_tool_request \<Rightarrow> kst \<Rightarrow> tool_result" where
  "tool_read_file i req s =
     (case param_value (rq_params req) ''path'' 64 of
        None \<Rightarrow> tool_fail AGENT_TOOL_ERR_BAD_PARAM ''bad params'' s
      | Some path \<Rightarrow>
          (case alloc_pages 2 s of
             None \<Rightarrow> tool_fail AGENT_TOOL_ERR_NO_SPACE ''no memory'' s
           | Some (pages, s0) \<Rightarrow>
               do {
                 (r, s1) \<leftarrow> read_file_content_versioned i path AGENT_TOOL_RESULT_MAX s0;
                 (case r of
                    None \<Rightarrow> tool_fail AGENT_TOOL_ERR_BAD_PARAM ''file not found'' (free_pages pages s1)
                  | Some (content, dev, inum, version) \<Rightarrow>
                      let s2 = upd_proc i (\<lambda>p. p\<lparr>pending_context_dep := True, pending_context_dev := dev,
                                 pending_context_inum := inum, pending_context_version := version\<rparr>) s1;
                          s3 = agent_workflow_metric_file_read (of_nat (length content)) i s2;
                          text = sb_str (emit [Str ''{status=ok,path='', Str path, Str '',content='', Str content, Chr CHR ''}''] (sbuf_new (int AGENT_TOOL_RESULT_MAX)))
                      in Some (tool_resp_set AGENT_TOOL_OK text, free_pages pages s3))
               }))"

text \<open>The content after replacing the first occurrence of \<open>old\<close>.\<close>

definition patched :: "string \<Rightarrow> string \<Rightarrow> string \<Rightarrow> nat \<Rightarrow> string" where
  "patched src old new off = take off src @ new @ drop (off + length old) src"

definition patch_inode :: "nat \<Rightarrow> string \<Rightarrow> string \<Rightarrow> kst \<Rightarrow> ((int \<times> string) option \<times> kst) option" where
  "patch_inode ip old new s =
     (if di_type (fs_ino s ip) \<noteq> T_FILE \<or> unat (di_size (fs_ino s ip)) \<ge> PGSIZE - 1
      then Some (Some (AGENT_TOOL_ERR_BAD_PARAM, ''file too large or invalid''), s)
      else case readi_kernel ip 0 (di_size (fs_ino s ip)) (ks_fs s) of
             None \<Rightarrow> None
           | Some (sz, src, fs) \<Rightarrow>
               let s1 = s\<lparr>ks_fs := fs\<rparr>; off = str_find src old
               in if sz < 0 then Some (Some (AGENT_TOOL_ERR_BAD_PARAM, ''read failed''), s1)
                  else if off < 0 then Some (Some (AGENT_TOOL_ERR_BAD_PARAM, ''pattern not found''), s1)
                  else
                    let dst = patched src old new (nat off)
                    in if length dst \<ge> PGSIZE - 1 then Some (Some (AGENT_TOOL_ERR_NO_SPACE, ''patched file too large''), s1)
                       else do {
                         s2 \<leftarrow> on_fs (itrunc ip) s1;
                         (w, fs3) \<leftarrow> writei_kernel ip dst 0 (ks_fs s2);
                         (if w \<noteq> int (length dst)
                          then Some (Some (AGENT_TOOL_ERR_BAD_PARAM, ''write failed''), s2\<lparr>ks_fs := fs3\<rparr>)
                          else do {
                            s4 \<leftarrow> on_fs (\<lambda>fs. map_option (iupdate ip) (inode_summary_refresh ip fs)) (s2\<lparr>ks_fs := fs3\<rparr>);
                            Some (None, s4)
                          })
                       })"

definition tool_patch_file :: "nat \<Rightarrow> agent_tool_request \<Rightarrow> kst \<Rightarrow> tool_result" where
  "tool_patch_file i req s =
     (let params = rq_params req
      in case (param_value params ''path'' 64, param_value params ''op'' 16,
               param_value params ''old'' (int AGENT_TOOL_PARAM_MAX), param_value params ''new'' (int AGENT_TOOL_PARAM_MAX)) of
           (Some path, Some opname, Some old_enc, Some new_enc) \<Rightarrow>
             if \<not> streq opname ''replace'' then tool_fail AGENT_TOOL_ERR_BAD_PARAM ''unsupported patch op'' s
             else
               let old = percent_decode old_enc (int AGENT_TOOL_PARAM_MAX); new = percent_decode new_enc (int AGENT_TOOL_PARAM_MAX)
               in if strlen old = 0 then tool_fail AGENT_TOOL_ERR_BAD_PARAM ''empty old pattern'' s
                  else (case alloc_pages 2 s of
                    None \<Rightarrow> tool_fail AGENT_TOOL_ERR_NO_SPACE ''no memory'' s
                  | Some (pages, s0) \<Rightarrow>
                      do {
                        (f, s1) \<leftarrow> open_any i path s0;
                        (case f of
                           None \<Rightarrow> tool_fail AGENT_TOOL_ERR_BAD_PARAM ''file not found'' (free_pages pages s1)
                         | Some ip \<Rightarrow>
                             do {
                               (r, s2) \<leftarrow> patch_inode ip old new s1;
                               let dev = in_dev (fs_ino s2 ip);
                               let inum = in_inum (fs_ino s2 ip);
                               s3 \<leftarrow> on_fs (iunlockput ip) s2;
                               (case r of
                                  Some (status, text) \<Rightarrow> tool_fail status text (free_pages pages s3)
                                | None \<Rightarrow>
                                    do {
                                      s4 \<leftarrow> agentfs_content_changed s3;
                                      Some (tool_resp_set AGENT_TOOL_OK ''{status=ok,op=replace}'',
                                            free_pages pages (agent_notify_file_modified dev inum s4))
                                    })
                             })
                      })
         | _ \<Rightarrow> tool_fail AGENT_TOOL_ERR_BAD_PARAM ''bad params'' s)"

definition rule_test_text :: "string \<Rightarrow> string \<Rightarrow> int \<times> string" where
  "rule_test_text todo testsrc =
     (let c1 = str_find todo ''task_count--;'' \<ge> 0; c2 = str_find todo ''delete_task'' \<ge> 0; c3 = str_find testsrc ''delete_task'' \<ge> 0;
          passed = of_bool c1 + of_bool c2 + of_bool c3
      in (passed, sb_str (emit [Str ''{status=ok,target=todo_delete,checks=['',
       Str (if c1 then ''task_count--:PASS'' else ''task_count--:FAIL''), Chr CHR '','',
       Str (if c2 then ''delete_task:PASS'' else ''delete_task:FAIL''), Chr CHR '','',
       Str (if c3 then ''test_case:PASS'' else ''test_case:FAIL''), Str ''],passed='',
       Num (u64_of_int passed), Str '',total='', Num 3, Chr CHR ''}''] (sbuf_new (int AGENT_TOOL_RESULT_MAX)))))"

text \<open>The second file is only read when the first could be.\<close>

definition tool_run_rule_test :: "nat \<Rightarrow> agent_tool_request \<Rightarrow> kst \<Rightarrow> tool_result" where
  "tool_run_rule_test i req s =
     (case param_value (rq_params req) ''target'' 32 of
        None \<Rightarrow> tool_fail AGENT_TOOL_ERR_BAD_PARAM ''bad params'' s
      | Some target \<Rightarrow>
          if \<not> streq target ''todo_delete'' then tool_fail AGENT_TOOL_ERR_BAD_PARAM ''unknown test target'' s
          else (case alloc_pages 3 s of
             None \<Rightarrow> tool_fail AGENT_TOOL_ERR_NO_SPACE ''no memory'' s
           | Some (pages, s0) \<Rightarrow>
               do {
                 (todo, s1) \<leftarrow> read_file_content i ''repo/todo.c'' AGENT_TOOL_RESULT_MAX s0;
                 (testsrc, s2) \<leftarrow> (if todo = None then Some (None, s1)
                                   else read_file_content i ''repo/test.c'' AGENT_TOOL_RESULT_MAX s1);
                 (case (todo, testsrc) of
                    (Some a, Some b) \<Rightarrow>
                      let (passed, text) = rule_test_text a b
                      in Some (tool_resp_set (if passed = 3 then AGENT_TOOL_OK else AGENT_TOOL_ERR_BAD_PARAM) text, free_pages pages s2)
                  | _ \<Rightarrow> tool_fail AGENT_TOOL_ERR_BAD_PARAM ''test files unavailable'' (free_pages pages s2))
               }))"

definition tool_diff_file :: "nat \<Rightarrow> agent_tool_request \<Rightarrow> kst \<Rightarrow> tool_result" where
  "tool_diff_file i req s =
     (case param_value (rq_params req) ''path'' 64 of
        None \<Rightarrow> tool_fail AGENT_TOOL_ERR_BAD_PARAM ''bad params'' s
      | Some path \<Rightarrow>
          (case alloc_pages 2 s of
             None \<Rightarrow> tool_fail AGENT_TOOL_ERR_NO_SPACE ''no memory'' s
           | Some (pages, s0) \<Rightarrow>
               do {
                 (r, s1) \<leftarrow> read_file_content i path AGENT_TOOL_RESULT_MAX s0;
                 (case r of
                    None \<Rightarrow> tool_fail AGENT_TOOL_ERR_BAD_PARAM ''file not found'' (free_pages pages s1)
                  | Some content \<Rightarrow>
                      let verdict = (if str_find content ''task_count--;'' \<ge> 0 then ''- // BUG: missing task_count-- | + task_count--;''
                            else if str_find content ''missing task_count--'' \<ge> 0 then ''unchanged bug marker still present''
                            else ''no known diff signature'');
                          text = sb_str (emit [Str ''{status=ok,path='', Str path, Str '',diff='', Str verdict, Chr CHR ''}''] (sbuf_new (int AGENT_TOOL_RESULT_MAX)))
                      in Some (tool_resp_set AGENT_TOOL_OK text, free_pages pages s1))
               }))"

subsection \<open>Leases\<close>

definition tool_lease_begin :: "nat \<Rightarrow> agent_tool_request \<Rightarrow> kst \<Rightarrow> tool_result" where
  "tool_lease_begin i req s =
     (case param_value (rq_params req) ''path'' 64 of
        None \<Rightarrow> tool_fail AGENT_TOOL_ERR_BAD_PARAM ''bad params'' s
      | Some path \<Rightarrow>
          do {
            (r, s1) \<leftarrow> agent_proc_lease_begin i path s;
            (case r of
               Inl ret \<Rightarrow> tool_fail ret ''lease begin failed'' s1
             | Inr (lease_id, base_version) \<Rightarrow>
                 Some (tool_resp_set AGENT_TOOL_OK (sb_str (emit [Str ''{status=ok,lease_id='', Num lease_id, Str '',base_version='', Num base_version,
       Chr CHR ''}''] (sbuf_new 128))), s1))
          })"

definition tool_lease_commit :: "nat \<Rightarrow> agent_tool_request \<Rightarrow> kst \<Rightarrow> agent_tool_response \<times> kst" where
  "tool_lease_commit i req s =
     (case (parse_uint_param (rq_params req) ''lease_id'', parse_uint_param (rq_params req) ''expected_version'') of
        (Some lease_id, Some expected_version) \<Rightarrow>
          let (r, s1) = agent_proc_lease_commit i lease_id expected_version s
          in (if r = AGENT_TOOL_OK then tool_resp_set AGENT_TOOL_OK ''{status=ok}''
              else if r = AGENT_TOOL_ERR_BAD_PARAM then tool_resp_set AGENT_TOOL_ERR_BAD_PARAM ''lease stale''
              else tool_resp_set r ''commit failed'', s1)
      | _ \<Rightarrow> (tool_resp_set AGENT_TOOL_ERR_BAD_PARAM ''bad params'', s))"

definition tool_lease_abort :: "nat \<Rightarrow> agent_tool_request \<Rightarrow> kst \<Rightarrow> agent_tool_response \<times> kst" where
  "tool_lease_abort i req s =
     (case parse_uint_param (rq_params req) ''lease_id'' of
        None \<Rightarrow> (tool_resp_set AGENT_TOOL_ERR_BAD_PARAM ''bad params'', s)
      | Some lease_id \<Rightarrow>
          let (r, s1) = agent_proc_lease_abort i lease_id s
          in (if r = AGENT_TOOL_OK then tool_resp_set AGENT_TOOL_OK ''{status=ok}'' else tool_resp_set r ''abort failed'', s1))"

subsection \<open>The tool call\<close>

text \<open>Running a built-in tool; \<open>Inr\<close> is a name that is not built in.\<close>

definition run_builtin :: "nat \<Rightarrow> agent_tool_request \<Rightarrow> kst \<Rightarrow> tool_result + unit" where
  "run_builtin i req s =
     (let t = rq_tool req
      in if streq t ''query_process'' then Inl (Some (tool_query_process req s))
         else if streq t ''get_system_status'' then Inl (Some (tool_get_system_status s))
         else if streq t ''send_message'' then Inl (Some (tool_send_message_tool i req s))
         else if streq t ''read_context'' then Inl (Some (tool_read_context i s))
         else if streq t ''read_file'' then Inl (tool_read_file i req s)
         else if streq t ''patch_file'' then Inl (tool_patch_file i req s)
         else if streq t ''run_rule_test'' then Inl (tool_run_rule_test i req s)
         else if streq t ''diff_file'' then Inl (tool_diff_file i req s)
         else if streq t ''set_file_attr'' then Inl (agentfs_tool_set_file_attr i req s)
         else if streq t ''get_file_attr'' then Inl (agentfs_tool_get_file_attr i req s)
         else if streq t ''del_file_attr'' then Inl (agentfs_tool_del_file_attr i req s)
         else if streq t ''query_file'' then Inl (agentfs_tool_query_file i req s)
         else if streq t ''query_agent'' then Inl (Some (tool_query_agent req s))
         else if streq t ''get_workflow_metrics'' then Inl (Some (tool_get_workflow_metrics i s))
         else if streq t ''lease_begin'' then Inl (tool_lease_begin i req s)
         else if streq t ''lease_commit'' then Inl (Some (tool_lease_commit i req s))
         else if streq t ''lease_abort'' then Inl (Some (tool_lease_abort i req s))
         else Inr ())"

text \<open>\<open>tool(params)\<close>, in the 96 bytes of a node's request.\<close>

definition node_request :: "agent_tool_request \<Rightarrow> string" where
  "node_request req =
     (let r = safestr AGENT_CONTEXT_REQ_MAX (rq_tool req); n = length r
      in if hd0 (rq_params req) \<noteq> NUL \<and> n < AGENT_CONTEXT_REQ_MAX - 2
         then let r1 = r @ CHR ''('' # safestr (AGENT_CONTEXT_REQ_MAX - n - 1) (rq_params req)
              in if length r1 < AGENT_CONTEXT_REQ_MAX - 1 then r1 @ '')'' else r1
         else r)"

definition call_node :: "u64 \<Rightarrow> agent_tool_request \<Rightarrow> agent_tool_response \<Rightarrow> agent_context_node" where
  "call_node now req resp = \<lparr>nd_timestamp_ms = now, nd_sequence = 0, nd_request_id = 0, nd_span_id = 0,
     nd_cause_sequence = 0, nd_status = rs_status resp, nd_request = node_request req,
     nd_result = safestr AGENT_CONTEXT_RES_MAX (rs_result resp)\<rparr>"

definition push_node_of :: "nat \<Rightarrow> agent_context_node \<Rightarrow> kst \<Rightarrow> (int \<times> kst) option" where
  "push_node_of i node s =
     map_option (\<lambda>(r, _, p). (r, upd_proc i (\<lambda>_. p) s)) (agent_context_push_node (ucast (ks_ticks s)) node (pr s i))"

definition tool_call_finish :: "nat \<Rightarrow> agent_tool_request \<Rightarrow> agent_tool_response \<Rightarrow> kst \<Rightarrow> (int \<times> kst) option" where
  "tool_call_finish i req resp s =
     (case alloc_pages 1 s of
        None \<Rightarrow> Some (rs_status resp, upd_proc i (\<lambda>p. p\<lparr>loop_state := AGENT_LOOP_READY\<rparr>) s)
      | Some (pages, s1) \<Rightarrow>
          map_option (\<lambda>(_, s2). (rs_status resp, upd_proc i (\<lambda>p. p\<lparr>loop_state := AGENT_LOOP_READY\<rparr>) (free_pages pages s2)))
            (push_node_of i (call_node (ucast (ks_ticks s1)) req resp) s1))"

datatype tool_call_state =
    Called agent_tool_response int kst
  | Waiting nat int kst

definition tool_call_done :: "nat \<Rightarrow> agent_tool_request \<Rightarrow> agent_tool_response \<Rightarrow> kst \<Rightarrow> tool_call_state option" where
  "tool_call_done i req resp s = map_option (\<lambda>(st, s1). Called resp st s1) (tool_call_finish i req resp s)"

definition agent_tool_call_begin :: "nat \<Rightarrow> agent_tool_request \<Rightarrow> kst \<Rightarrow> tool_call_state option" where
  "agent_tool_call_begin i req s =
     (if agent_type (pr s i) = AGENT_TYPE_NORMAL
      then Some (Called (tool_resp_set AGENT_TOOL_ERR_NOT_AGENT ''process is not agent'') AGENT_TOOL_ERR_NOT_AGENT s)
      else
        let s1 = upd_proc i clear_pending_dep s;
            s2 = (if streq (rq_tool req) ''get_workflow_metrics'' then s1
                  else agent_workflow_metric_tool_call (streq (rq_tool req) ''query_file'') i s1)
        in if \<not> agent_check_tool_permission i (rq_tool req) s2
           then Some (Called (tool_resp_set AGENT_TOOL_ERR_PERMISSION ''permission denied'') AGENT_TOOL_ERR_PERMISSION
                  (agent_audit_record i 0 (rq_tool req) False AGENT_TOOL_ERR_PERMISSION ''cap check'' s2))
           else
             let s3 = upd_proc i (\<lambda>p. p\<lparr>loop_state := AGENT_LOOP_RUNNING\<rparr>) s2
             in (case run_builtin i req s3 of
                   Inl None \<Rightarrow> None
                 | Inl (Some (resp, s4)) \<Rightarrow> tool_call_done i req resp s4
                 | Inr () \<Rightarrow>
                     (case dynamic_call_begin i req s3 of
                        Inl (resp, s4) \<Rightarrow> tool_call_done i req resp s4
                      | Inr (n, rid, s4) \<Rightarrow> Some (Waiting n rid s4))))"

definition agent_tool_call_check :: "nat \<Rightarrow> agent_tool_request \<Rightarrow> nat \<Rightarrow> int \<Rightarrow> kst \<Rightarrow> tool_call_state option" where
  "agent_tool_call_check i req n rid s =
     (case dynamic_call_check i n rid s of
        Inl (resp, s1) \<Rightarrow> tool_call_done i req resp s1
      | Inr s1 \<Rightarrow> Some (Waiting n rid s1))"

text \<open>A batch: the calls one after the other, up to the first one that has to wait.\<close>

fun batch_run :: "nat \<Rightarrow> agent_tool_request list \<Rightarrow> kst \<Rightarrow> (agent_tool_response list \<times> tool_call_state option \<times> kst) option" where
  "batch_run i [] s = Some ([], None, s)"
| "batch_run i (req # reqs) s =
     (case agent_tool_call_begin i req s of
        None \<Rightarrow> None
      | Some (Called resp st s1) \<Rightarrow>
          map_option (\<lambda>(rs, w, s2). (resp # rs, w, s2)) (batch_run i reqs s1)
      | Some (Waiting n rid s1) \<Rightarrow> Some ([], Some (Waiting n rid s1), s1))"

definition agent_tool_call_batch ::
    "nat \<Rightarrow> int \<Rightarrow> agent_tool_request list \<Rightarrow> kst \<Rightarrow> (int + (agent_tool_response list \<times> tool_call_state option \<times> kst)) option" where
  "agent_tool_call_batch i count reqs s =
     (if agent_type (pr s i) = AGENT_TYPE_NORMAL then Some (Inl AGENT_TOOL_ERR_NOT_AGENT)
      else if count < 1 \<or> count > AGENT_TOOL_BATCH_MAX then Some (Inl AGENT_TOOL_ERR_BAD_PARAM)
      else map_option Inr (batch_run i (take (nat count) reqs) s))"

subsection \<open>Properties of the tool call\<close>

lemma isl_if: "isl (if b then Inl a else c) \<longleftrightarrow> b \<or> isl c"
  by simp

lemma policy_names: "map po_name builtin_policies = builtin_names"
  by (simp add: builtin_policies_def builtin_names_def policy_def)

lemma policy_of_builtin: "policy_of name \<noteq> None \<longleftrightarrow> tool_is_builtin name"
proof -
  have "policy_of name \<noteq> None \<longleftrightarrow> (\<exists>po \<in> set builtin_policies. streq (po_name po) name)"
    unfolding policy_of_def find_None_iff by blast
  also have "\<dots> \<longleftrightarrow> (\<exists>n \<in> set (map po_name builtin_policies). streq n name)" by simp
  finally show ?thesis unfolding policy_names tool_is_builtin_def by (simp add: streq_sym)
qed

lemma run_builtin_isl: "isl (run_builtin i req s) \<longleftrightarrow> tool_is_builtin (rq_tool req)"
  unfolding run_builtin_def Let_def tool_is_builtin_def builtin_names_def isl_if by simp

text \<open>C26 (builtin_tables_agree). The three tables of built-in tools agree: a name has a policy exactly when it is
  built in (so it cannot be registered), exactly when the dispatcher runs a built-in tool for it, and then the
  dispatcher never falls through to the dynamic tools.\<close>

theorem builtin_tables_agree:
  "(policy_of (rq_tool req) \<noteq> None \<longleftrightarrow> tool_is_builtin (rq_tool req)) \<and>
   ((\<exists>r. run_builtin i req s = Inl r) \<longleftrightarrow> tool_is_builtin (rq_tool req)) \<and>
   (tool_is_builtin (rq_tool req) \<longrightarrow> fst (agent_tool_register i (rq_tool req) flags s) \<noteq> AGENT_TOOL_OK)"
  using policy_of_builtin [of "rq_tool req"] run_builtin_isl [of i req s]
  by (auto simp: isl_def agent_tool_register_def Let_def)

theorem builtin_tables_agree_witness:
  "fst (agent_tool_register 0 ''query_file'' 0 (boot_kst [wit_agent 1])) \<noteq> AGENT_TOOL_OK"
  using builtin_tables_agree [of "\<lparr>rq_tool = ''query_file'', rq_params = []\<rparr>" 0 "boot_kst [wit_agent 1]" 0]
  by (simp add: tool_is_builtin_def builtin_names_def)

lemma builtin_names_cstr: "n \<in> set builtin_names \<Longrightarrow> cstr n = n"
  by (auto simp: builtin_names_def)

lemma policy_of_unique:
  assumes "po \<in> set builtin_policies" "streq (po_name po) name"
  shows "policy_of name = Some po"
proof -
  have d: "distinct (map po_name builtin_policies)" unfolding policy_names by (simp add: builtin_names_def)
  have id: "cstr (po_name q) = po_name q" if "q \<in> set builtin_policies" for q
    using that builtin_names_cstr [of "po_name q"] policy_names by (metis image_eqI list.set_map)
  obtain q where q: "policy_of name = Some q"
    using assms unfolding policy_of_def by (cases "find (\<lambda>po. streq (po_name po) name) builtin_policies") (auto simp: find_None_iff)
  then have "q \<in> set builtin_policies" "streq (po_name q) name"
    by (auto simp: policy_of_def find_Some_iff)
  then have "po_name q = po_name po" using assms id [of q] id [of po] by (simp add: streq_iff)
  with d assms(1) \<open>q \<in> set builtin_policies\<close> have "q = po" by (metis distinct_map inj_onD)
  with q show ?thesis by simp
qed

text \<open>C16 (missing_capability_denies). A built-in tool whose policy asks for a capability the caller lacks is never
  run: the call returns PERMISSION, and all it has done is to drop the caller's pending Context dependency, to
  count the call in the workflow's metrics and to log the denial - no file, lease, version, tool, request, query
  cache or other process has changed.\<close>

theorem missing_capability_denies:
  assumes po: "po \<in> set builtin_policies" "streq (po_name po) (rq_tool req)"
    and lacks: "po_required_cap po \<noteq> 0" "agent_capabilities (pr s i) AND po_required_cap po = 0"
    and ag: "agent_type (pr s i) \<noteq> AGENT_TYPE_NORMAL" "i < length (ks_procs s)"
  shows "\<exists>t. agent_tool_call_begin i req s = Some (Called (tool_resp_set AGENT_TOOL_ERR_PERMISSION ''permission denied'')
        AGENT_TOOL_ERR_PERMISSION t) \<and>
    ks_fs t = ks_fs s \<and> gl_leases (ks_global t) = gl_leases (ks_global s) \<and> ks_file_versions t = ks_file_versions s \<and>
    ks_dynamic_tools t = ks_dynamic_tools s \<and> ks_dynamic_requests t = ks_dynamic_requests s \<and>
    ks_query_cache t = ks_query_cache s \<and> ks_file_meta t = ks_file_meta s \<and> ks_freelist t = ks_freelist s \<and>
    (\<forall>j. j \<noteq> i \<longrightarrow> pr t j = pr s j) \<and> pr t i = clear_pending_dep (pr s i) \<and>
    length (ks_log t) = Suc (length (ks_log s))"
proof -
  define s1 where "s1 = upd_proc i clear_pending_dep s"
  define s2 where "s2 = (if streq (rq_tool req) ''get_workflow_metrics'' then s1
    else agent_workflow_metric_tool_call (streq (rq_tool req) ''query_file'') i s1)"
  have same: "ks_procs s2 = ks_procs s1" "ks_log s2 = ks_log s1" "ks_fs s2 = ks_fs s1"
    "gl_leases (ks_global s2) = gl_leases (ks_global s1)" "ks_file_versions s2 = ks_file_versions s1"
    "ks_dynamic_tools s2 = ks_dynamic_tools s1" "ks_dynamic_requests s2 = ks_dynamic_requests s1"
    "ks_query_cache s2 = ks_query_cache s1" "ks_file_meta s2 = ks_file_meta s1" "ks_freelist s2 = ks_freelist s1"
    by (simp_all add: s2_def agent_workflow_metric_tool_call_def upd_metrics_def upd_global_def frame_simps split: option.splits)
  have caps: "agent_capabilities (pr s2 i) = agent_capabilities (pr s i)"
    using ag(2) by (simp add: same s1_def clear_pending_dep_def)
  have deny: "\<not> agent_check_tool_permission i (rq_tool req) s2"
    using policy_of_unique [OF po] lacks caps by (simp add: agent_check_tool_permission_def)
  let ?t = "agent_audit_record i 0 (rq_tool req) False AGENT_TOOL_ERR_PERMISSION ''cap check'' s2"
  have "agent_tool_call_begin i req s = Some (Called (tool_resp_set AGENT_TOOL_ERR_PERMISSION ''permission denied'')
        AGENT_TOOL_ERR_PERMISSION ?t)"
    using ag(1) deny by (simp add: agent_tool_call_begin_def s1_def [symmetric] s2_def [symmetric] Let_def)
  moreover have "ks_procs ?t = ks_procs s1" by (simp add: same)
  ultimately show ?thesis
    using ag(2) by (intro exI [of _ ?t]) (simp add: same s1_def agent_audit_record_def)
qed

theorem missing_capability_denies_witness:
  "\<exists>t. agent_tool_call_begin 0 \<lparr>rq_tool = ''patch_file'', rq_params = ''path=a;op=replace;old=x;new=y''\<rparr> (boot_kst [wit_agent 1])
     = Some (Called (tool_resp_set AGENT_TOOL_ERR_PERMISSION ''permission denied'') AGENT_TOOL_ERR_PERMISSION t)"
proof -
  let ?po = "policy ''patch_file'' AGENT_CAP_PATCH_FILE True True"
  have "?po \<in> set builtin_policies" by (simp add: builtin_policies_def)
  from missing_capability_denies [OF this, of "\<lparr>rq_tool = ''patch_file'', rq_params = ''path=a;op=replace;old=x;new=y''\<rparr>"
      "boot_kst [wit_agent 1]" 0]
  show ?thesis by (auto simp: policy_def wit_agent_def zero_proc_def)
qed

end
