(* ===== verification/SysAgent.thy ===== *)
theory SysAgent
  imports Tools
begin

text \<open>
  The system call bridge (kernel/sysagent.c): each definition takes the raw argument registers and
  gives the int the C function returns. \<open>argint\<close> is the low 32 bits of a register as an \<open>int\<close>, \<open>argaddr\<close> the
  register. Structures are read from and written to user memory byte by byte in their layout.
\<close>

definition argstr :: "nat \<Rightarrow> u64 \<Rightarrow> nat \<Rightarrow> kst \<Rightarrow> string option" where
  "argstr i a mx s = copyinstr (p_pagetable (pr s i)) a mx"

subsection \<open>Layouts\<close>

definition request_of_bytes :: "string \<Rightarrow> agent_tool_request" where
  "request_of_bytes bs = \<lparr>rq_tool = cstr (take 31 bs), rq_params = cstr (take 127 (drop 32 bs))\<rparr>"

definition response_bytes :: "agent_tool_response \<Rightarrow> string" where
  "response_bytes r = le32 (word_of_int (rs_status r)) @ le32 (rs_result_len r) @ char_array 512 (rs_result r)"

definition field64 :: "nat \<Rightarrow> string \<Rightarrow> u64" where
  "field64 off bs = of_nat (le_value (take 8 (drop off bs)))"

definition field_int :: "nat \<Rightarrow> string \<Rightarrow> int" where
  "field_int off bs = sint (of_nat (le_value (take 4 (drop off bs))) :: u32)"

definition node_of_bytes :: "string \<Rightarrow> agent_context_node" where
  "node_of_bytes bs = \<lparr>nd_timestamp_ms = field64 0 bs, nd_sequence = field64 8 bs, nd_request_id = field64 16 bs,
     nd_span_id = field64 24 bs, nd_cause_sequence = field64 32 bs, nd_status = field_int 40 bs,
     nd_request = cstr (take 95 (drop 44 bs)), nd_result = cstr (take 159 (drop 140 bs))\<rparr>"

definition dynamic_request_bytes :: "agent_dynamic_tool_request \<Rightarrow> string" where
  "dynamic_request_bytes q = le32 (word_of_int (dq_request_id q)) @ le32 (word_of_int (dq_caller_pid q)) @
     le64 (dq_span_id q) @ char_array 32 (dq_tool q) @ char_array 128 (dq_params q)"

definition schema_bytes :: "agent_tool_schema \<Rightarrow> string" where
  "schema_bytes c = char_array 32 (sc_name c) @ char_array 128 (sc_params_desc c) @ le64 (sc_required_cap c) @
     char_array 512 (sc_result_desc c) @ le32 (if sc_is_dynamic c then 1 else 0) @ le32 (word_of_int (sc_owner_pid c)) @
     le32 (word_of_int (sc_owner_group c)) @ le32 (sc_flags c)"

text \<open>The two padding holes of \<open>struct agent_info\<close> are never written: they hold what was on the
  kernel stack, given as parameters.\<close>

definition info_bytes :: "string \<Rightarrow> string \<Rightarrow> agent_info \<Rightarrow> string" where
  "info_bytes pad1 pad2 a = le64 (ai_context_start a) @ le64 (ai_context_size a) @ le32 (word_of_int (ai_agent_type a)) @
     le32 (word_of_int (ai_heartbeat_interval a)) @ le64 (ai_resource_quota a) @ le32 (word_of_int (ai_loop_state a)) @
     take 4 pad1 @ le64 (ai_context_path_len a) @ le64 (ai_context_node_count a) @ le64 (ai_dropped_nodes a) @
     le32 (word_of_int (ai_agent_priority a)) @ le32 (word_of_int (ai_agent_group a)) @
     le32 (word_of_int (ai_sched_priority a)) @ le32 (word_of_int (ai_sched_quota a)) @
     le32 (word_of_int (ai_sched_budget a)) @ take 4 pad2 @ le64 (ai_agent_capabilities a) @
     le64 (ai_mailbox_count a) @ le64 (ai_mailbox_dropped a)"

definition copy_struct :: "nat \<Rightarrow> u64 \<Rightarrow> string \<Rightarrow> int \<Rightarrow> kst \<Rightarrow> int \<times> kst" where
  "copy_struct i dst bs ok s = (case copyout_proc i dst bs s of (True, s1) \<Rightarrow> (ok, s1) | (False, s1) \<Rightarrow> (-1, s1))"

subsection \<open>Identity, Context, loop\<close>

definition sys_agent_create :: "u64 \<Rightarrow> u64 \<Rightarrow> u64 \<Rightarrow> nat \<Rightarrow> kst \<Rightarrow> (u64 \<times> kst) option" where
  "sys_agent_create a0 a1 a2 i s = agent_mark_current (int_of_u64 a0) (int_of_u64 a1) a2 i s"

definition sys_agent_info :: "string \<Rightarrow> string \<Rightarrow> u64 \<Rightarrow> nat \<Rightarrow> kst \<Rightarrow> int \<times> kst" where
  "sys_agent_info pad1 pad2 a0 i s = copy_struct i a0 (info_bytes pad1 pad2 (agent_get_info (pr s i))) 0 s"

text \<open>Up to the tool call, and what follows its return.\<close>

definition sys_tool_call_begin :: "u64 \<Rightarrow> nat \<Rightarrow> kst \<Rightarrow> ((int \<times> kst) + (u64 list \<times> agent_tool_request \<times> tool_call_state)) option" where
  "sys_tool_call_begin a0 i s =
     (case alloc_pages 2 s of
        None \<Rightarrow> Some (Inl (-1, s))
      | Some (pages, s1) \<Rightarrow>
          (case copyin_proc i a0 160 s1 of
             None \<Rightarrow> Some (Inl (-1, free_pages pages s1))
           | Some bs \<Rightarrow>
               let req = request_of_bytes bs
               in map_option (\<lambda>c. Inr (pages, req, c)) (agent_tool_call_begin i req s1)))"

definition sys_tool_call_end :: "u64 \<Rightarrow> nat \<Rightarrow> u64 list \<Rightarrow> agent_tool_response \<Rightarrow> kst \<Rightarrow> int \<times> kst" where
  "sys_tool_call_end a1 i pages resp s =
     (let (r, s1) = copy_struct i a1 (response_bytes resp) (rs_status resp) s in (r, free_pages pages s1))"

definition sys_tool_list :: "u64 \<Rightarrow> u64 \<Rightarrow> nat \<Rightarrow> kst \<Rightarrow> int \<times> kst" where
  "sys_tool_list a0 a1 i s = agent_copy_tool_list i a0 a1 s"

definition sys_context_push :: "u64 \<Rightarrow> nat \<Rightarrow> kst \<Rightarrow> (int \<times> kst) option" where
  "sys_context_push a0 i s =
     (case alloc_pages 1 s of
        None \<Rightarrow> Some (-1, s)
      | Some (pages, s1) \<Rightarrow>
          (case copyin_proc i a0 NODE_SIZE s1 of
             None \<Rightarrow> Some (-1, free_pages pages s1)
           | Some bs \<Rightarrow> map_option (\<lambda>(r, s2). (r, free_pages pages s2)) (push_node_of i (node_of_bytes bs) s1)))"

text \<open>A function on the process entry, run on process \<open>i\<close>.\<close>

definition on_proc :: "nat \<Rightarrow> (u64 \<Rightarrow> proc \<Rightarrow> int \<times> proc) \<Rightarrow> kst \<Rightarrow> int \<times> kst" where
  "on_proc i f s = (let (r, p) = f (ucast (ks_ticks s)) (pr s i) in (r, upd_proc i (\<lambda>_. p) s))"

definition sys_context_query :: "u64 \<Rightarrow> u64 \<Rightarrow> nat \<Rightarrow> kst \<Rightarrow> int \<times> kst" where
  "sys_context_query a0 a1 i = on_proc i (\<lambda>now. agent_context_query a0 a1)"

text \<open>The int argument becomes an unsigned count: a negative one is larger than every node count.\<close>

definition sys_context_rollback :: "u64 \<Rightarrow> nat \<Rightarrow> kst \<Rightarrow> int \<times> kst" where
  "sys_context_rollback a0 i = on_proc i (\<lambda>now. agent_context_rollback now (u64_of_int (int_of_u64 a0)))"

definition sys_context_clear :: "nat \<Rightarrow> kst \<Rightarrow> int \<times> kst" where
  "sys_context_clear i = on_proc i (\<lambda>now p. (0, agent_context_clear now p))"

definition sys_context_validate :: "u64 \<Rightarrow> u64 \<Rightarrow> nat \<Rightarrow> kst \<Rightarrow> int \<times> kst" where
  "sys_context_validate a0 a1 i s = agent_context_validate i a0 a1 s"

definition sys_agent_heartbeat_set :: "u64 \<Rightarrow> nat \<Rightarrow> kst \<Rightarrow> (int \<times> kst) option" where
  "sys_agent_heartbeat_set a0 i s = agent_proc_heartbeat_set i (int_of_u64 a0) s"

definition sys_agent_heartbeat_stop :: "nat \<Rightarrow> kst \<Rightarrow> (int \<times> kst) option" where
  "sys_agent_heartbeat_stop i s = agent_proc_heartbeat_stop i s"

definition sys_agent_watch :: "u64 \<Rightarrow> nat \<Rightarrow> kst \<Rightarrow> int \<times> kst" where
  "sys_agent_watch a0 i s = agent_proc_watch i (ucast a0) s"

definition sys_agent_unwatch :: "u64 \<Rightarrow> nat \<Rightarrow> kst \<Rightarrow> int \<times> kst" where
  "sys_agent_unwatch a0 i s = agent_proc_unwatch i (ucast a0) s"

definition sys_agent_wait :: "u64 \<Rightarrow> nat \<Rightarrow> kst \<Rightarrow> (int + u64) \<times> kst" where
  "sys_agent_wait a0 i s = wait_enter i (int_of_u64 a0 \<noteq> 0) 0 s"

definition sys_agent_wait_timeout :: "u64 \<Rightarrow> u64 \<Rightarrow> nat \<Rightarrow> kst \<Rightarrow> (int + u64) \<times> kst" where
  "sys_agent_wait_timeout a0 a1 i s = wait_enter i (int_of_u64 a0 \<noteq> 0) (int_of_u64 a1) s"

definition sys_agent_priority_set :: "u64 \<Rightarrow> nat \<Rightarrow> kst \<Rightarrow> int \<times> kst" where
  "sys_agent_priority_set a0 i s = agent_proc_priority_set i (int_of_u64 a0) s"

definition sys_agent_watch_file :: "u64 \<Rightarrow> nat \<Rightarrow> kst \<Rightarrow> (int \<times> kst) option" where
  "sys_agent_watch_file a0 i s = agent_proc_watch_file i a0 s"

definition sys_agent_sched_set :: "u64 \<Rightarrow> u64 \<Rightarrow> nat \<Rightarrow> kst \<Rightarrow> int \<times> kst" where
  "sys_agent_sched_set a0 a1 i s = agent_proc_sched_set i (int_of_u64 a0) (int_of_u64 a1) s"

subsection \<open>Dynamic tools\<close>

definition sys_tool_register :: "u64 \<Rightarrow> u64 \<Rightarrow> nat \<Rightarrow> kst \<Rightarrow> int \<times> kst" where
  "sys_tool_register a0 a1 i s =
     (case argstr i a0 AGENT_TOOL_NAME_MAX s of
        None \<Rightarrow> (-1, s)
      | Some name \<Rightarrow> agent_tool_register i name (ucast a1) s)"

definition sys_tool_recv_end :: "u64 \<Rightarrow> nat \<Rightarrow> int + agent_dynamic_tool_request \<Rightarrow> kst \<Rightarrow> int \<times> kst" where
  "sys_tool_recv_end a0 i r s =
     (case r of Inl e \<Rightarrow> (e, s) | Inr q \<Rightarrow> copy_struct i a0 (dynamic_request_bytes q) 0 s)"

definition sys_tool_reply :: "u64 \<Rightarrow> u64 \<Rightarrow> u64 \<Rightarrow> nat \<Rightarrow> kst \<Rightarrow> int \<times> kst" where
  "sys_tool_reply a0 a1 a2 i s =
     with_page (-1) (\<lambda>s. case argstr i a1 AGENT_TOOL_RESULT_MAX s of
          None \<Rightarrow> (-1, s)
        | Some result \<Rightarrow> agent_tool_reply i (int_of_u64 a0) result (int_of_u64 a2) s) s"

definition sys_tool_schema :: "u64 \<Rightarrow> u64 \<Rightarrow> nat \<Rightarrow> kst \<Rightarrow> int \<times> kst" where
  "sys_tool_schema a0 a1 i s =
     (case argstr i a0 AGENT_TOOL_NAME_MAX s of
        None \<Rightarrow> (-1, s)
      | Some name \<Rightarrow>
          (case agent_tool_schema_get name s of
             None \<Rightarrow> (-1, s)
           | Some schema \<Rightarrow> copy_struct i a1 (schema_bytes schema) 0 s))"

subsection \<open>Capabilities, leases, workflows\<close>

definition sys_agent_cap_set :: "u64 \<Rightarrow> nat \<Rightarrow> kst \<Rightarrow> int \<times> kst" where
  "sys_agent_cap_set a0 i s = agent_proc_cap_set i a0 s"

text \<open>The digits of a number, written from its last digit: at most 23 of them.\<close>

definition lease_digits :: "u64 \<Rightarrow> string" where
  "lease_digits v = (if v = 0 then ''0'' else rev (putu_digits 23 v))"

text \<open>\<open>char result[64]\<close>: every piece is cut where the buffer ends.\<close>

definition lease_result :: "u64 \<Rightarrow> u64 \<Rightarrow> string" where
  "lease_result lease_id base_version =
     (let r1 = take 63 (''lease_id='' @ lease_digits lease_id);
          r2 = (if length r1 < 63 then r1 @ '' '' else r1);
          r3 = r2 @ safestr (64 - length r2) ''base_version=''
      in take 63 (r3 @ lease_digits base_version))"

definition sys_agent_lease_begin :: "u64 \<Rightarrow> u64 \<Rightarrow> nat \<Rightarrow> kst \<Rightarrow> (int \<times> kst) option" where
  "sys_agent_lease_begin a0 a1 i s =
     (case argstr i a0 AGENT_MESSAGE_MAX s of
        None \<Rightarrow> Some (-1, s)
      | Some path \<Rightarrow>
          do {
            (r, s1) \<leftarrow> agent_proc_lease_begin i path s;
            (case r of
               Inl e \<Rightarrow> Some (e, s1)
             | Inr (lease_id, base_version) \<Rightarrow> Some (copy_struct i a1 (lease_result lease_id base_version @ [NUL]) AGENT_TOOL_OK s1))
          })"

definition sys_agent_lease_commit :: "u64 \<Rightarrow> u64 \<Rightarrow> nat \<Rightarrow> kst \<Rightarrow> int \<times> kst" where
  "sys_agent_lease_commit a0 a1 i s = agent_proc_lease_commit i a0 a1 s"

definition sys_agent_lease_abort :: "u64 \<Rightarrow> nat \<Rightarrow> kst \<Rightarrow> int \<times> kst" where
  "sys_agent_lease_abort a0 i s = agent_proc_lease_abort i a0 s"

definition sys_agent_query_agent :: "u64 \<Rightarrow> u64 \<Rightarrow> u64 \<Rightarrow> u64 \<Rightarrow> u64 \<Rightarrow> nat \<Rightarrow> kst \<Rightarrow> int \<times> kst" where
  "sys_agent_query_agent a0 a1 a2 a3 a4 i s =
     agent_proc_query_agent i (int_of_u64 a0) (int_of_u64 a1) (int_of_u64 a2) a3 a4 s"

definition sys_agent_role_set :: "u64 \<Rightarrow> nat \<Rightarrow> kst \<Rightarrow> int \<times> kst" where
  "sys_agent_role_set a0 i s = agent_proc_role_set i (int_of_u64 a0) s"

definition sys_agent_context_verify :: "nat \<Rightarrow> kst \<Rightarrow> int \<times> kst" where
  "sys_agent_context_verify i s =
     (if agent_type (pr s i) = AGENT_TYPE_NORMAL then (AGENT_TOOL_ERR_NOT_AGENT, s)
      else (agent_context_digest_verify (pr s i), s))"

definition sys_agent_cascade_kill :: "u64 \<Rightarrow> nat \<Rightarrow> kst \<Rightarrow> int \<times> kst" where
  "sys_agent_cascade_kill a0 i s =
     (let reason = int_of_u64 a0
      in if reason \<noteq> AGENT_CASCADE_PLANNER_EXIT \<and> reason \<noteq> AGENT_CASCADE_EXPLICIT \<and> reason \<noteq> AGENT_CASCADE_FAILURE
         then (AGENT_TOOL_ERR_BAD_PARAM, s)
         else agent_cascade_terminate (Some i) reason False s)"

end
