(* ===== verification/Files.thy ===== *)
theory Files
  imports DynamicTools
begin

text \<open>
  Open files and pipes (kernel/file.c, kernel/pipe.c). A pipe lives in a page of its own and is found
  by the page's address; using a pipe whose page was given back is \<open>None\<close>, like a panic.
  \<open>pipewrite\<close> and \<open>piperead\<close> give the processor away when the pipe is full or empty; they are split
  there: \<open>Inr\<close> is a state asleep, from which the call goes on after the wake-up. The device table
  \<open>devsw\<close> is a table of functions and an argument. The lemmas show that a pipe is a queue of at most
  512 bytes, across the wrap of its counters.
\<close>

abbreviation (input) PIPESIZE :: nat where "PIPESIZE \<equiv> 512"
abbreviation (input) NFILE :: nat where "NFILE \<equiv> 100"
abbreviation (input) NDEV :: int where "NDEV \<equiv> 10"

text \<open>What a process waits on: the addresses of the counters in the pipe's page.\<close>

abbreviation chan_nread :: "u64 \<Rightarrow> wchan" where "chan_nread pa \<equiv> ChanAddr (pa + 536)"
abbreviation chan_nwrite :: "u64 \<Rightarrow> wchan" where "chan_nwrite pa \<equiv> ChanAddr (pa + 540)"

abbreviation file_of :: "kst \<Rightarrow> nat \<Rightarrow> kfile" where
  "file_of s k \<equiv> ks_files s ! k"

definition upd_file :: "nat \<Rightarrow> (kfile \<Rightarrow> kfile) \<Rightarrow> kst \<Rightarrow> kst" where
  "upd_file k f s = s\<lparr>ks_files := (ks_files s)[k := f (file_of s k)]\<rparr>"

definition set_pipe :: "u64 \<Rightarrow> pipe option \<Rightarrow> kst \<Rightarrow> kst" where
  "set_pipe pa pi s = s\<lparr>ks_pipes := (ks_pipes s)(pa := pi)\<rparr>"

subsection \<open>Files\<close>

definition filealloc :: "kst \<Rightarrow> nat option \<times> kst" where
  "filealloc s =
     (case first_slot (\<lambda>f. fl_ref f = 0) (ks_files s) of
        None \<Rightarrow> (None, s)
      | Some k \<Rightarrow> (Some k, upd_file k (\<lambda>f. f\<lparr>fl_ref := 1\<rparr>) s))"

definition filedup :: "nat \<Rightarrow> kst \<Rightarrow> kst option" where
  "filedup k s = (if fl_ref (file_of s k) < 1 then None
     else Some (upd_file k (\<lambda>f. f\<lparr>fl_ref := fl_ref f + 1\<rparr>) s))"

definition pipeclose :: "nat \<Rightarrow> u64 \<Rightarrow> bool \<Rightarrow> kst \<Rightarrow> kst option" where
  "pipeclose i pa wr s =
     (case ks_pipes s pa of
        None \<Rightarrow> None
      | Some pi \<Rightarrow>
          let pi1 = (if wr then pi\<lparr>pi_writeopen := False\<rparr> else pi\<lparr>pi_readopen := False\<rparr>);
              s1 = wakeup i (if wr then chan_nread pa else chan_nwrite pa) (set_pipe pa (Some pi1) s)
          in Some (if \<not> pi_readopen pi1 \<and> \<not> pi_writeopen pi1
                   then (set_pipe pa None s1)\<lparr>ks_freelist := kfree pa (ks_freelist s1)\<rparr> else s1))"

definition fileclose :: "nat \<Rightarrow> nat \<Rightarrow> kst \<Rightarrow> kst option" where
  "fileclose i k s =
     (if fl_ref (file_of s k) < 1 then None
      else let s1 = upd_file k (\<lambda>f. f\<lparr>fl_ref := fl_ref f - 1\<rparr>) s; ff = file_of s1 k
           in if fl_ref ff > 0 then Some s1
              else let s2 = upd_file k (\<lambda>f. f\<lparr>fl_ref := 0, fl_type := FD_NONE\<rparr>) s1
                   in case fl_type ff of
                        FD_PIPE \<Rightarrow> pipeclose i (fl_pipe ff) (fl_writable ff) s2
                      | FD_INODE \<Rightarrow> on_fs (iput (fl_ip ff)) s2
                      | FD_DEVICE \<Rightarrow> on_fs (iput (fl_ip ff)) s2
                      | FD_NONE \<Rightarrow> Some s2)"

text \<open>\<open>struct stat\<close> has four bytes of padding, which the model takes as zero.\<close>

definition stat_bytes :: "stat \<Rightarrow> string" where
  "stat_bytes st = le32 (st_dev st) @ le32 (st_ino st) @ le_bytes 2 (unat (word_of_int (st_type st) :: u16)) @
     le_bytes 2 (unat (word_of_int (st_nlink st) :: u16)) @ le32 0 @ le64 (ucast (st_size st))"

definition filestat :: "nat \<Rightarrow> nat \<Rightarrow> u64 \<Rightarrow> kst \<Rightarrow> (int \<times> kst) option" where
  "filestat i k addr s =
     (let f = file_of s k
      in if fl_type f = FD_INODE \<or> fl_type f = FD_DEVICE
         then do {
           s1 \<leftarrow> on_fs (ilock (fl_ip f)) s;
           let st = stati (fl_ip f) (ks_fs s1);
           s2 \<leftarrow> on_fs (iunlock (fl_ip f)) s1;
           Some (case copyout_proc i addr (stat_bytes st) s2 of (ok, s3) \<Rightarrow> (if ok then 0 else -1, s3))
         }
         else Some (-1, s))"

subsection \<open>Pipes\<close>

definition zero_pipe :: pipe where
  "zero_pipe = \<lparr>pi_data = replicate PIPESIZE NUL, pi_nread = 0, pi_nwrite = 0, pi_readopen = True, pi_writeopen = True\<rparr>"

text \<open>\<open>pipealloc\<close>: two files and a page, or nothing. The page is not cleared; its bytes are never read
  before they are written, and the model starts them as zero.\<close>

definition pipealloc :: "nat \<Rightarrow> kst \<Rightarrow> ((nat \<times> nat) option \<times> kst) option" where
  "pipealloc i s =
     (case filealloc s of
        (None, s1) \<Rightarrow> Some (None, s1)
      | (Some f0, s1) \<Rightarrow>
          (case filealloc s1 of
             (None, s2) \<Rightarrow> do { s3 \<leftarrow> fileclose i f0 s2; Some (None, s3) }
           | (Some f1, s2) \<Rightarrow>
               (case kalloc (ks_freelist s2) of
                  (None, _) \<Rightarrow> do { s3 \<leftarrow> fileclose i f0 s2; s4 \<leftarrow> fileclose i f1 s3; Some (None, s4) }
                | (Some pa, fl) \<Rightarrow>
                    let s3 = set_pipe pa (Some zero_pipe) (s2\<lparr>ks_freelist := fl\<rparr>);
                        s4 = upd_file f0 (\<lambda>f. f\<lparr>fl_type := FD_PIPE, fl_readable := True, fl_writable := False, fl_pipe := pa\<rparr>) s3
                    in Some (Some (f0, f1), upd_file f1 (\<lambda>f. f\<lparr>fl_type := FD_PIPE, fl_readable := False,
                              fl_writable := True, fl_pipe := pa\<rparr>) s4))))"

definition pipe_put :: "char \<Rightarrow> pipe \<Rightarrow> pipe" where
  "pipe_put c pi = pi\<lparr>pi_data := (pi_data pi)[unat (pi_nwrite pi mod of_nat PIPESIZE) := c], pi_nwrite := pi_nwrite pi + 1\<rparr>"

definition pipe_get :: "pipe \<Rightarrow> char \<times> pipe" where
  "pipe_get pi = (pi_data pi ! unat (pi_nread pi mod of_nat PIPESIZE), pi\<lparr>pi_nread := pi_nread pi + 1\<rparr>)"

definition pipe_full :: "pipe \<Rightarrow> bool" where
  "pipe_full pi \<longleftrightarrow> pi_nwrite pi = pi_nread pi + of_nat PIPESIZE"

definition pipe_empty :: "pipe \<Rightarrow> bool" where
  "pipe_empty pi \<longleftrightarrow> pi_nread pi = pi_nwrite pi"

text \<open>The loop of \<open>pipewrite\<close> from its \<open>k\<close>-th byte: it returns, or sleeps with \<open>k'\<close> bytes written.\<close>

function pipewrite :: "nat \<Rightarrow> u64 \<Rightarrow> u64 \<Rightarrow> nat \<Rightarrow> nat \<Rightarrow> kst \<Rightarrow> ((int \<times> kst) + (nat \<times> kst)) option" where
  "pipewrite i pa addr n k s =
     (case ks_pipes s pa of
        None \<Rightarrow> None
      | Some pi \<Rightarrow>
          if k < n then
            (if \<not> pi_readopen pi \<or> p_killed (pr s i) then Some (Inl (-1, s))
             else if pipe_full pi
             then Some (Inr (k, sleep_on i (chan_nwrite pa) (wakeup i (chan_nread pa) s)))
             else case copyin_proc i (addr + of_nat k) 1 s of
                    None \<Rightarrow> Some (Inl (int k, wakeup i (chan_nread pa) s))
                  | Some bs \<Rightarrow> pipewrite i pa addr n (k + 1) (set_pipe pa (Some (pipe_put (hd0 bs) pi)) s))
          else Some (Inl (int k, wakeup i (chan_nread pa) s)))"
  by pat_completeness auto
termination
  by (relation "measure (\<lambda>(i, pa, addr, n, k, s). n - k)") auto

declare pipewrite.simps [simp del]

text \<open>The copying loop of \<open>piperead\<close>: the number of bytes copied. A byte whose \<open>copyout\<close> fails has been
  taken out of the pipe.\<close>

function piperead_copy :: "nat \<Rightarrow> u64 \<Rightarrow> u64 \<Rightarrow> nat \<Rightarrow> nat \<Rightarrow> kst \<Rightarrow> (nat \<times> kst) option" where
  "piperead_copy i pa addr n k s =
     (case ks_pipes s pa of
        None \<Rightarrow> None
      | Some pi \<Rightarrow>
          if k < n \<and> \<not> pipe_empty pi
          then let (c, pi1) = pipe_get pi
               in (case copyout_proc i (addr + of_nat k) [c] (set_pipe pa (Some pi1) s) of
                     (False, s1) \<Rightarrow> Some (k, s1)
                   | (True, s1) \<Rightarrow> piperead_copy i pa addr n (k + 1) s1)
          else Some (k, s))"
  by pat_completeness auto
termination
  by (relation "measure (\<lambda>(i, pa, addr, n, k, s). n - k)") auto

declare piperead_copy.simps [simp del]

definition piperead :: "nat \<Rightarrow> u64 \<Rightarrow> u64 \<Rightarrow> nat \<Rightarrow> kst \<Rightarrow> ((int \<times> kst) + kst) option" where
  "piperead i pa addr n s =
     (case ks_pipes s pa of
        None \<Rightarrow> None
      | Some pi \<Rightarrow>
          if pipe_empty pi \<and> pi_writeopen pi
          then Some (if p_killed (pr s i) then Inl (-1, s) else Inr (sleep_on i (chan_nread pa) s))
          else do { (k, s1) \<leftarrow> piperead_copy i pa addr n 0 s; Some (Inl (int k, wakeup i (chan_nwrite pa) s1)) })"

subsection \<open>Reading and writing a file\<close>

text \<open>A device function returns or sleeps, in which case it says how many bytes are done; it is given that
  number again when it goes on. A negative count of a pipe is no byte at all.\<close>

type_synonym devfun = "nat \<Rightarrow> u64 \<Rightarrow> int \<Rightarrow> nat \<Rightarrow> kst \<Rightarrow> (int \<times> kst) + (nat \<times> kst)"

definition fileread :: "(int \<Rightarrow> devfun option) \<Rightarrow> nat \<Rightarrow> nat \<Rightarrow> u64 \<Rightarrow> int \<Rightarrow> kst \<Rightarrow> ((int \<times> kst) + (nat \<times> kst)) option" where
  "fileread devread i k addr n s =
     (let f = file_of s k
      in if \<not> fl_readable f then Some (Inl (-1, s))
         else case fl_type f of
                FD_PIPE \<Rightarrow> map_option (\<lambda>r. case r of Inl x \<Rightarrow> Inl x | Inr s1 \<Rightarrow> Inr (0, s1)) (piperead i (fl_pipe f) addr (nat n) s)
              | FD_DEVICE \<Rightarrow>
                  if fl_major f < 0 \<or> fl_major f \<ge> NDEV then Some (Inl (-1, s))
                  else (case devread (fl_major f) of None \<Rightarrow> Some (Inl (-1, s)) | Some d \<Rightarrow> Some (d i addr n 0 s))
              | FD_INODE \<Rightarrow>
                  do {
                    s1 \<leftarrow> on_fs (ilock (fl_ip f)) s;
                    (r, pt, fs) \<leftarrow> readi_user (fl_ip f) addr (fl_off f) (word_of_int n) (p_pagetable (pr s1 i)) (ks_fs s1);
                    let s2 = upd_proc i (\<lambda>p. p\<lparr>p_pagetable := pt\<rparr>) (s1\<lparr>ks_fs := fs\<rparr>);
                    let s3 = (if r > 0 then upd_file k (\<lambda>f. f\<lparr>fl_off := fl_off f + word_of_int r\<rparr>) s2 else s2);
                    s4 \<leftarrow> on_fs (iunlock (fl_ip f)) s3;
                    Some (Inl (r, s4))
                  }
              | FD_NONE \<Rightarrow> None)"

text \<open>The pieces \<open>filewrite\<close> writes an inode in; the result is the number of bytes in whole pieces.\<close>

abbreviation (input) write_piece :: nat where "write_piece \<equiv> 3072"

function filewrite_loop :: "nat \<Rightarrow> nat \<Rightarrow> u64 \<Rightarrow> nat \<Rightarrow> nat \<Rightarrow> kst \<Rightarrow> (nat \<times> kst) option" where
  "filewrite_loop i k addr n dn s =
     (if dn < n
      then let n1 = min (n - dn) write_piece; ip = fl_ip (file_of s k)
           in (case on_fs (ilock ip) s of
                 None \<Rightarrow> None
               | Some s1 \<Rightarrow>
                   (case writei_user ip (addr + of_nat dn) (fl_off (file_of s1 k)) (of_nat n1) (p_pagetable (pr s1 i)) (ks_fs s1) of
                      None \<Rightarrow> None
                    | Some (r, fs) \<Rightarrow>
                        let s2 = s1\<lparr>ks_fs := fs\<rparr>;
                            s3 = (if r > 0 then upd_file k (\<lambda>f. f\<lparr>fl_off := fl_off f + word_of_int r\<rparr>) s2 else s2)
                        in (case on_fs (iunlock ip) s3 of
                              None \<Rightarrow> None
                            | Some s4 \<Rightarrow> if r \<noteq> int n1 then Some (dn, s4)
                                         else filewrite_loop i k addr n (dn + n1) s4)))
      else Some (dn, s))"
  by pat_completeness auto
termination
  by (relation "measure (\<lambda>(i, k, addr, n, dn, s). n - dn)") auto

declare filewrite_loop.simps [simp del]

definition filewrite :: "(int \<Rightarrow> devfun option) \<Rightarrow> nat \<Rightarrow> nat \<Rightarrow> u64 \<Rightarrow> int \<Rightarrow> kst \<Rightarrow> ((int \<times> kst) + (nat \<times> kst)) option" where
  "filewrite devwrite i k addr n s =
     (let f = file_of s k
      in if \<not> fl_writable f then Some (Inl (-1, s))
         else case fl_type f of
                FD_PIPE \<Rightarrow> pipewrite i (fl_pipe f) addr (nat n) 0 s
              | FD_DEVICE \<Rightarrow>
                  if fl_major f < 0 \<or> fl_major f \<ge> NDEV then Some (Inl (-1, s))
                  else (case devwrite (fl_major f) of None \<Rightarrow> Some (Inl (-1, s)) | Some d \<Rightarrow> Some (d i addr n 0 s))
              | FD_INODE \<Rightarrow>
                  let dev = in_dev (fs_ino s (fl_ip f)); inum = in_inum (fs_ino s (fl_ip f))
                  in do {
                    (dn, s1) \<leftarrow> filewrite_loop i k addr (nat n) 0 s;
                    let ret = (if int dn = n then n else -1);
                    Some (Inl (ret, if dn > 0 then agent_notify_file_modified dev inum s1 else s1))
                  }
              | FD_NONE \<Rightarrow> None)"

subsection \<open>A pipe is a queue\<close>

definition pipe_len :: "pipe \<Rightarrow> nat" where
  "pipe_len pi = unat (pi_nwrite pi - pi_nread pi)"

definition pipe_list :: "pipe \<Rightarrow> string" where
  "pipe_list pi = map (\<lambda>k. pi_data pi ! ((unat (pi_nread pi) + k) mod 512)) [0..<pipe_len pi]"

definition pipe_inv :: "pipe \<Rightarrow> bool" where
  "pipe_inv pi \<longleftrightarrow> length (pi_data pi) = 512 \<and> pipe_len pi \<le> 512"

lemma length_pipe_list [simp]: "length (pipe_list pi) = pipe_len pi"
  by (simp add: pipe_list_def)

lemma unat_mod_pipe: "unat (w mod 512 :: u32) = unat w mod 512"
  by (simp add: unat_mod)

lemma unat_plus_mod: "unat (w + of_nat k :: u32) mod 512 = (unat w + k) mod 512"
proof -
  have "unat (w + of_nat k) = (unat w + k) mod 2 ^ 32"
    by (simp add: unat_word_ariths unat_of_nat take_bit_eq_mod mod_simps)
  then show ?thesis by (simp add: mod_mod_cancel)
qed

lemma nwrite_mod: "unat (pi_nwrite pi) mod 512 = (unat (pi_nread pi) + pipe_len pi) mod 512"
proof -
  have "pi_nwrite pi = pi_nread pi + of_nat (pipe_len pi)" by (simp add: pipe_len_def)
  then show ?thesis by (metis unat_plus_mod)
qed

lemma pipe_full_len: "pipe_full pi \<longleftrightarrow> pipe_len pi = 512"
proof -
  have "pipe_full pi \<longleftrightarrow> pi_nwrite pi - pi_nread pi = 512" by (auto simp: pipe_full_def algebra_simps)
  also have "\<dots> \<longleftrightarrow> unat (pi_nwrite pi - pi_nread pi) = 512" by (simp add: word_unat_eq_iff)
  finally show ?thesis by (simp add: pipe_len_def)
qed

lemma pipe_empty_len: "pipe_empty pi \<longleftrightarrow> pipe_len pi = 0"
  by (auto simp: pipe_empty_def pipe_len_def unat_eq_0)

lemma pipe_put_len:
  assumes "pipe_inv pi" "\<not> pipe_full pi"
  shows "pipe_len (pipe_put c pi) = Suc (pipe_len pi)"
proof -
  have l: "unat (pi_nwrite pi - pi_nread pi) < 512"
    using assms by (simp add: pipe_inv_def pipe_full_len pipe_len_def)
  have e: "pi_nwrite pi + 1 - pi_nread pi = 1 + (pi_nwrite pi - pi_nread pi)" by simp
  have "unat (1 + (pi_nwrite pi - pi_nread pi)) = Suc (unat (pi_nwrite pi - pi_nread pi))"
    using l by (subst unatSuc) (auto simp: unat_eq_0 [symmetric] unat_word_ariths)
  then show ?thesis by (simp add: pipe_len_def pipe_put_def e)
qed

lemma ring512_distinct: "j < k \<Longrightarrow> k < 512 \<Longrightarrow> (h + j) mod 512 \<noteq> (h + k) mod (512 :: nat)"
proof
  assume "j < k" "k < 512" "(h + j) mod 512 = (h + k) mod 512"
  then have "512 dvd k - j" using mod_eq_dvd_iff_nat [of "h + j" "h + k" 512] by simp
  with \<open>j < k\<close> have "512 \<le> k - j" by (intro dvd_imp_le) auto
  with \<open>k < 512\<close> show False by simp
qed

lemma pipe_list_put:
  assumes inv: "pipe_inv pi" and room: "\<not> pipe_full pi"
  shows "pipe_list (pipe_put c pi) = pipe_list pi @ [c]"
proof -
  let ?h = "unat (pi_nread pi)" and ?n = "pipe_len pi"
  have n: "?n < 512" using inv room by (simp add: pipe_inv_def pipe_full_len)
  have data: "pi_data (pipe_put c pi) = (pi_data pi)[(?h + ?n) mod 512 := c]"
    by (simp add: pipe_put_def unat_mod_pipe nwrite_mod [symmetric])
  have old: "(pi_data pi)[(?h + ?n) mod 512 := c] ! ((?h + k) mod 512) = pi_data pi ! ((?h + k) mod 512)"
    if "k < ?n" for k
    using ring512_distinct [OF that n, of ?h] by (intro nth_list_update_neq) auto
  have new: "(pi_data pi)[(?h + ?n) mod 512 := c] ! ((?h + ?n) mod 512) = c"
    using inv by (intro nth_list_update_eq) (simp add: pipe_inv_def)
  have rd: "pi_nread (pipe_put c pi) = pi_nread pi" by (simp add: pipe_put_def)
  show ?thesis
    using old new by (simp add: pipe_list_def pipe_put_len [OF inv room] data rd)
qed

lemma pipe_get_len:
  assumes "\<not> pipe_empty pi"
  shows "Suc (pipe_len (snd (pipe_get pi))) = pipe_len pi"
proof -
  let ?d = "pi_nwrite pi - pi_nread pi"
  have "?d \<noteq> 0" using assms by (auto simp: pipe_empty_def)
  then have "unat (?d - 1) = unat ?d - 1" "0 < unat ?d" by (simp_all add: unat_minus_one unat_gt_0)
  moreover have e: "pi_nwrite pi - (pi_nread pi + 1) = ?d - 1" by simp
  ultimately show ?thesis by (simp add: pipe_len_def pipe_get_def e)
qed

lemma pipe_list_get:
  assumes some: "\<not> pipe_empty pi"
  shows "pipe_list pi = fst (pipe_get pi) # pipe_list (snd (pipe_get pi))"
proof -
  let ?h = "unat (pi_nread pi)" and ?q = "snd (pipe_get pi)"
  have upt: "[0..<pipe_len pi] = 0 # map Suc [0..<pipe_len ?q]"
    unfolding pipe_get_len [OF some, symmetric] by (simp add: upt_conv_Cons map_Suc_upt del: upt_Suc)
  have hd': "(unat (pi_nread pi + 1) + k) mod 512 = (?h + Suc k) mod 512" for k
    using unat_plus_mod [of "pi_nread pi" 1] by (metis add.assoc mod_add_left_eq of_nat_1 plus_1_eq_Suc)
  show ?thesis
    unfolding pipe_list_def upt by (simp add: pipe_get_def unat_mod_pipe hd' comp_def)
qed

interpretation pipeq: bounded_fifo pipe_inv pipe_list "\<lambda>pi _. \<not> pipe_full pi" "\<lambda>c _. c"
  "\<lambda>c pi. if pipe_full pi then pi else pipe_put c pi" pipe_get 512
proof unfold_locales
  fix q :: pipe and m :: char
  assume inv: "pipe_inv q"
  show "\<not> pipe_full q \<Longrightarrow> pipe_list (if pipe_full q then q else pipe_put m q) = pipe_list q @ [m]"
    using pipe_list_put [OF inv] by simp
  show "\<not> \<not> pipe_full q \<Longrightarrow> pipe_list (if pipe_full q then q else pipe_put m q) = pipe_list q" by simp
  show "pipe_inv (if pipe_full q then q else pipe_put m q)"
    using inv pipe_put_len [OF inv, of m] by (auto simp: pipe_inv_def pipe_full_len pipe_put_def [of m])
  show "length (pipe_list q) \<le> 512" using inv by (simp add: pipe_inv_def)
next
  fix q :: pipe
  assume inv: "pipe_inv q" and ne: "pipe_list q \<noteq> []"
  then have some: "\<not> pipe_empty q" by (auto simp: pipe_list_def pipe_empty_len)
  note g = pipe_list_get [OF some]
  show "fst (pipe_get q) = hd (pipe_list q)" by (simp add: g)
  show "pipe_list (snd (pipe_get q)) = tl (pipe_list q)" by (simp add: g)
  show "pipe_inv (snd (pipe_get q))"
    using inv pipe_get_len [OF some] by (simp add: pipe_inv_def) (simp add: pipe_get_def)
qed

subsection \<open>What the calls move\<close>

lemma copyin_byte:
  assumes "pages_ok pt"
  shows "copyin pt va (Suc 0) = (case user_byte pt (unat va) of None \<Rightarrow> None | Some c \<Rightarrow> Some [c])"
  using copyin_spec [OF assms, of va "Suc 0"] by (auto simp: range_ok_def read_bytes_def split: option.splits)

lemma copyout_byte:
  assumes "pages_ok pt"
  shows "copyout pt va [c] = (False, pt) \<and> \<not> writable pt (unat va) \<or>
    (\<exists>pt'. copyout pt va [c] = (True, pt') \<and> writable pt (unat va) \<and> pages_ok pt' \<and>
       (\<forall>m. user_byte pt' m = (if m = unat va then Some c else user_byte pt m)))"
proof (cases "fst (copyout pt va [c])")
  case True
  note sp = copyout_spec [OF assms, of va "[c]"]
  have "range_ok (writable pt) (unat va) 1" using sp True by simp
  then have "writable pt (unat va)" by (simp add: range_ok_def)
  moreover have "user_byte (snd (copyout pt va [c])) m = (if m = unat va then Some c else user_byte pt m)" for m
    using sp True by (cases "m = unat va") auto
  ultimately show ?thesis using sp True by (intro disjI2 exI [of _ "snd (copyout pt va [c])"]) (auto simp: prod_eq_iff)
next
  case False
  note sp = copyout_spec [OF assms, of va "[c]"]
  have nw: "\<not> writable pt (unat va)" using sp False by (simp add: range_ok_def)
  have "0 < 4096 - unat (va - PGROUNDDOWN va)" by (simp add: unat_page_off)
  then have one: "min (4096 - unat (va - PGROUNDDOWN va)) (length [c]) = 1" by simp
  have "copyout pt va [c] = (False, pt)"
    using False one
    by (auto simp: copyout.simps [of _ _ "[c]"] copyout.simps [of _ _ "[]"] Let_def split: option.splits if_splits)
  with nw show ?thesis by simp
qed

lemma set_pipe_simps [simp]:
  "ks_pipes (set_pipe pa q s) pa' = (if pa' = pa then q else ks_pipes s pa')"
  "ks_procs (set_pipe pa q s) = ks_procs s" "ks_files (set_pipe pa q s) = ks_files s"
  "ks_freelist (set_pipe pa q s) = ks_freelist s" "ks_global (set_pipe pa q s) = ks_global s"
  by (simp_all add: set_pipe_def)

lemma wakeup_pipes [simp]: "ks_pipes (wakeup i c s) = ks_pipes s"
  by (simp add: wakeup_def for_procs_idx_def)

lemma sleep_on_pipes [simp]: "ks_pipes (sleep_on i c s) = ks_pipes s"
  by (simp add: sleep_on_def)

lemma copyout_proc_pipes [simp]: "ks_pipes (snd (copyout_proc i va bs s)) = ks_pipes s"
  by (simp add: copyout_proc_def case_prod_beta Let_def)

lemma pipe_put_flags [simp]:
  "pi_readopen (pipe_put c q) = pi_readopen q" "pi_writeopen (pipe_put c q) = pi_writeopen q"
  by (simp_all add: pipe_put_def)

lemma pipe_get_flags [simp]:
  "pi_readopen (snd (pipe_get q)) = pi_readopen q" "pi_writeopen (snd (pipe_get q)) = pi_writeopen q"
  by (simp_all add: pipe_get_def)

text \<open>The queue after the bytes \<open>k\<close> up to \<open>m\<close> of the caller's buffer were appended.\<close>

definition wrote :: "upagetable \<Rightarrow> u64 \<Rightarrow> nat \<Rightarrow> nat \<Rightarrow> pipe \<Rightarrow> pipe \<Rightarrow> bool" where
  "wrote pt addr k m q q' \<longleftrightarrow> k \<le> m \<and> pipe_inv q' \<and>
     (\<exists>bs. length bs = m - k \<and> pipe_list q' = pipe_list q @ bs \<and>
       (\<forall>j < m - k. user_byte pt (unat (addr + of_nat (k + j))) = Some (bs ! j)))"

lemma wrote_refl: "pipe_inv q \<Longrightarrow> wrote pt addr k k q q"
  by (simp add: wrote_def)

lemma wrote_step:
  assumes c: "user_byte pt (unat (addr + of_nat k)) = Some c" and room: "\<not> pipe_full q" and inv: "pipe_inv q"
    and w: "wrote pt addr (Suc k) m (pipe_put c q) q'"
  shows "wrote pt addr k m q q'"
proof -
  from w obtain bs where bs: "Suc k \<le> m" "length bs = m - Suc k" "pipe_inv q'" "pipe_list q' = pipe_list q @ c # bs"
    "\<forall>j < m - Suc k. user_byte pt (unat (addr + of_nat (Suc k + j))) = Some (bs ! j)"
    unfolding wrote_def pipe_list_put [OF inv room] by auto
  have "user_byte pt (unat (addr + of_nat (k + j))) = Some ((c # bs) ! j)" if "j < m - k" for j
    using that bs(5) c by (cases j) auto
  with bs show ?thesis unfolding wrote_def by (intro conjI exI [of _ "c # bs"]) auto
qed

text \<open>How a call of \<open>pipewrite\<close> leaves its loop at byte \<open>m\<close>.\<close>

definition write_out :: "nat \<Rightarrow> u64 \<Rightarrow> u64 \<Rightarrow> nat \<Rightarrow> nat \<Rightarrow> pipe \<Rightarrow> bool \<Rightarrow> upagetable \<Rightarrow> kst \<Rightarrow> (int \<times> kst) + (nat \<times> kst) \<Rightarrow> bool" where
  "write_out i pa addr n m q' stop pt t out \<longleftrightarrow>
     m \<le> n \<and> ks_pipes t pa = Some q' \<and>
     (out = Inl (int m, t) \<and> (m = n \<or> user_byte pt (unat (addr + of_nat m)) = None) \<or>
      out = Inl (-1, t) \<and> stop \<or>
      out = Inr (m, t) \<and> m < n \<and> pipe_full q' \<and> p_state (pr t i) = SLEEPING \<and> p_chan (pr t i) = chan_nwrite pa)"

lemma pipewrite_Some:
  "ks_pipes s pa = Some q \<Longrightarrow> pipewrite i pa addr n k s =
    (if k < n then
       (if \<not> pi_readopen q \<or> p_killed (pr s i) then Some (Inl (-1, s))
        else if pipe_full q then Some (Inr (k, sleep_on i (chan_nwrite pa) (wakeup i (chan_nread pa) s)))
        else case copyin_proc i (addr + of_nat k) 1 s of
               None \<Rightarrow> Some (Inl (int k, wakeup i (chan_nread pa) s))
             | Some bs \<Rightarrow> pipewrite i pa addr n (k + 1) (set_pipe pa (Some (pipe_put (hd0 bs) q)) s))
     else Some (Inl (int k, wakeup i (chan_nread pa) s)))"
  by (subst pipewrite.simps) simp

lemma pipewrite_loop:
  assumes "pages_ok (p_pagetable (pr s i))" "ks_pipes s pa = Some q" "pipe_inv q" "k \<le> n"
    "i < length (ks_procs s)" "pipewrite i pa addr n k s = Some out"
  shows "\<exists>m t q'. wrote (p_pagetable (pr s i)) addr k m q q' \<and>
    write_out i pa addr n m q' (\<not> pi_readopen q \<or> p_killed (pr s i)) (p_pagetable (pr s i)) t out"
  using assms
proof (induction i pa addr n k s arbitrary: q rule: pipewrite.induct)
  case (1 i pa addr n k s)
  note pt = "1.prems"(1) and q = "1.prems"(2) and inv = "1.prems"(3) and i = "1.prems"(5)
  note res = "1.prems"(6) [unfolded pipewrite_Some [OF q]] and here = wrote_refl [OF inv, of "p_pagetable (pr s i)" addr k]
  show ?case
  proof (cases "k < n \<and> pi_readopen q \<and> \<not> p_killed (pr s i)")
    case False
    then have "write_out i pa addr n k q (\<not> pi_readopen q \<or> p_killed (pr s i)) (p_pagetable (pr s i))
        (case out of Inl x \<Rightarrow> snd x | Inr x \<Rightarrow> snd x) out"
      using res "1.prems"(4) q unfolding write_out_def by (auto split: if_splits)
    with here show ?thesis by blast
  next
    case go: True
    show ?thesis
    proof (cases "pipe_full q \<or> user_byte (p_pagetable (pr s i)) (unat (addr + of_nat k)) = None")
      case True
      then have "write_out i pa addr n k q (\<not> pi_readopen q \<or> p_killed (pr s i)) (p_pagetable (pr s i))
          (case out of Inl x \<Rightarrow> snd x | Inr x \<Rightarrow> snd x) out"
        using res go q pt i unfolding write_out_def
        by (auto simp: sleep_on_def copyin_proc_def copyin_byte split: if_splits)
      with here show ?thesis by blast
    next
      case False
      then obtain c where room: "\<not> pipe_full q" and c: "user_byte (p_pagetable (pr s i)) (unat (addr + of_nat k)) = Some c"
        by auto
      then have cp: "copyin_proc i (addr + of_nat k) 1 s = Some [c]" using pt by (simp add: copyin_proc_def copyin_byte)
      let ?s = "set_pipe pa (Some (pipe_put c q)) s"
      have rec: "pipewrite i pa addr n (k + 1) ?s = Some out" using cp go room res by simp
      have inv': "pipe_inv (pipe_put c q)" using pipeq.inv_post [OF inv, of c] room by simp
      have "\<exists>m t q'. wrote (p_pagetable (pr ?s i)) addr (k + 1) m (pipe_put c q) q' \<and>
        write_out i pa addr n m q' (\<not> pi_readopen (pipe_put c q) \<or> p_killed (pr ?s i)) (p_pagetable (pr ?s i)) t out"
        using "1.IH" [OF q _ _ room cp, of "pipe_put c q"] go pt inv' i rec by simp
      then obtain m t q' where "wrote (p_pagetable (pr s i)) addr (Suc k) m (pipe_put c q) q'"
        "write_out i pa addr n m q' (\<not> pi_readopen q \<or> p_killed (pr s i)) (p_pagetable (pr s i)) t out"
        by auto
      with wrote_step [OF c room inv] show ?thesis by blast
    qed
  qed
qed

text \<open>C34 (pipe_write_appends). A write to a pipe, from any point of its loop, appends to the queue exactly the
  bytes of the caller's memory it has gone through, in order, and nothing else. It returns the number of
  bytes when all are written or the next one cannot be read, and -1 when the reading end is closed or the
  caller was killed; it sleeps, on the pipe's write counter, only when the queue holds 512 bytes.\<close>

theorem pipe_write_appends:
  assumes "pages_ok (p_pagetable (pr s i))" and "ks_pipes s pa = Some q" and "pipe_inv q" and "k \<le> n"
    and "i < length (ks_procs s)" and "pipewrite i pa addr n k s = Some out"
  shows "\<exists>m t q' bs. k \<le> m \<and> m \<le> n \<and> length bs = m - k \<and>
    (\<forall>j < m - k. user_byte (p_pagetable (pr s i)) (unat (addr + of_nat (k + j))) = Some (bs ! j)) \<and>
    ks_pipes t pa = Some q' \<and> pipe_inv q' \<and> pipe_list q' = pipe_list q @ bs \<and>
    (out = Inl (int m, t) \<and> (m = n \<or> user_byte (p_pagetable (pr s i)) (unat (addr + of_nat m)) = None) \<or>
     out = Inl (-1, t) \<and> (\<not> pi_readopen q \<or> p_killed (pr s i)) \<or>
     out = Inr (m, t) \<and> m < n \<and> length (pipe_list q') = 512 \<and>
       p_state (pr t i) = SLEEPING \<and> p_chan (pr t i) = chan_nwrite pa)"
  using pipewrite_loop [OF assms] unfolding wrote_def write_out_def pipe_full_len by (simp only: length_pipe_list) blast

definition wit_pipe_kst :: kst where
  "wit_pipe_kst = set_pipe 4096 (Some zero_pipe) (boot_kst [(wit_agent 1)\<lparr>p_pagetable := one_page 4096\<rparr>])"

lemma wit_pipe: "pages_ok (p_pagetable (pr wit_pipe_kst 0))" "ks_pipes wit_pipe_kst 4096 = Some zero_pipe"
  "pipe_inv zero_pipe" "pipe_list zero_pipe = []" "length (ks_procs wit_pipe_kst) = 1"
  by (simp_all add: wit_pipe_kst_def pages_ok_one_page pipe_inv_def pipe_list_def pipe_len_def zero_pipe_def)

theorem pipe_write_appends_witness:
  "\<exists>out m t q. pipewrite 0 4096 5000 0 0 wit_pipe_kst = Some out \<and> ks_pipes t 4096 = Some q \<and>
     pipe_list q = [] \<and> out = Inl (int m, t)"
proof -
  have "pipewrite 0 4096 5000 0 0 wit_pipe_kst = Some (Inl (int 0, wakeup 0 (chan_nread 4096) wit_pipe_kst))"
    by (simp add: pipewrite_Some [OF wit_pipe(2)])
  from pipe_write_appends [OF wit_pipe(1-3) _ _ this] this wit_pipe show ?thesis by auto
qed

lemma pipe_get_inv: "pipe_inv q \<Longrightarrow> \<not> pipe_empty q \<Longrightarrow> pipe_inv (snd (pipe_get q))"
  by (rule pipeq.inv_recv) (auto simp: pipe_empty_len simp flip: length_pipe_list)

text \<open>The bytes \<open>k\<close> up to \<open>m\<close> of the caller's buffer are the ones taken from the queue; nothing else of its
  memory changed.\<close>

definition took :: "upagetable \<Rightarrow> upagetable \<Rightarrow> u64 \<Rightarrow> nat \<Rightarrow> nat \<Rightarrow> string \<Rightarrow> bool" where
  "took pt pt' addr k m bs \<longleftrightarrow> k \<le> m \<and> length bs = m - k \<and>
     (\<forall>j < m - k. user_byte pt' (unat (addr + of_nat (k + j))) = Some (bs ! j)) \<and>
     (\<forall>a. (\<forall>j. k \<le> j \<and> j < m \<longrightarrow> a \<noteq> unat (addr + of_nat j)) \<longrightarrow> user_byte pt' a = user_byte pt a)"

lemma addr_distinct: "j < l \<Longrightarrow> l < 2 ^ 31 \<Longrightarrow> unat (addr + of_nat j :: u64) \<noteq> unat (addr + of_nat l)"
proof
  assume l: "j < l" "l < 2 ^ 31" and "unat (addr + of_nat j :: u64) = unat (addr + of_nat l)"
  then have "(of_nat j :: u64) = of_nat l" by (simp add: word_unat_eq_iff [symmetric])
  then have "unat (of_nat j :: u64) = unat (of_nat l :: u64)" by simp
  with l show False by (simp add: unat_of_nat64)
qed

lemma took_step:
  assumes st: "\<And>a. user_byte pt1 a = (if a = unat (addr + of_nat k) then Some c else user_byte pt a)"
    and t: "took pt1 pt' addr (Suc k) m bs" and m: "m < 2 ^ 31"
  shows "took pt pt' addr k m (c # bs)"
proof -
  have d: "unat (addr + of_nat k) \<noteq> unat (addr + of_nat j)" if "Suc k \<le> j" "j < m" for j
    using that m addr_distinct [of k j addr] by simp
  have first: "user_byte pt' (unat (addr + of_nat k)) = Some c"
    using t d st unfolding took_def by (metis (no_types, lifting))
  have "user_byte pt' (unat (addr + of_nat (k + j))) = Some ((c # bs) ! j)" if "j < m - k" for j
  proof (cases j)
    case 0
    with first show ?thesis by simp
  next
    case (Suc l)
    with t that show ?thesis by (auto simp: took_def)
  qed
  moreover have "user_byte pt' a = user_byte pt a"
    if "\<forall>j. k \<le> j \<and> j < m \<longrightarrow> a \<noteq> unat (addr + of_nat j)" for a
  proof -
    have "k < m" using t by (simp add: took_def)
    with that have "a \<noteq> unat (addr + of_nat k)" by blast
    moreover have "user_byte pt' a = user_byte pt1 a" using t that unfolding took_def by (simp add: Suc_le_eq)
    ultimately show ?thesis by (simp add: st)
  qed
  ultimately show ?thesis using t by (auto simp: took_def)
qed

lemma piperead_copy_loop:
  assumes "pages_ok (p_pagetable (pr s i))" "ks_pipes s pa = Some q" "pipe_inv q" "k \<le> n" "n < 2 ^ 31"
    "i < length (ks_procs s)" "piperead_copy i pa addr n k s = Some (m, t)"
  shows "\<exists>bs lost q'. took (p_pagetable (pr s i)) (p_pagetable (pr t i)) addr k m bs \<and> m \<le> n \<and>
    length (ks_procs t) = length (ks_procs s) \<and> ks_pipes t pa = Some q' \<and> pipe_inv q' \<and> pipe_list q = bs @ lost @ pipe_list q' \<and>
    (lost = [] \<and> (m = n \<or> pipe_list q' = []) \<or>
     length lost = 1 \<and> \<not> writable (p_pagetable (pr s i)) (unat (addr + of_nat m)))"
  using assms
proof (induction i pa addr n k s arbitrary: q rule: piperead_copy.induct)
  case (1 i pa addr n k s)
  note pt = "1.prems"(1) and q = "1.prems"(2) and inv = "1.prems"(3) and i = "1.prems"(6)
  note res = "1.prems"(7) [unfolded piperead_copy.simps [of i pa addr n k s]]
  have stay: "took (p_pagetable (pr s i)) (p_pagetable (pr s i)) addr k k []" by (simp add: took_def)
  show ?case
  proof (cases "k < n \<and> \<not> pipe_empty q")
    case False
    then have "(m, t) = (k, s)" using res q by auto
    moreover have "k = n \<or> pipe_list q = []" using False "1.prems"(4) by (auto simp: pipe_empty_len pipe_list_def)
    ultimately show ?thesis using stay q inv "1.prems"(4) by (intro exI [of _ "[]"] exI [of _ q]) auto
  next
    case go: True
    obtain c q1 where g: "pipe_get q = (c, q1)" by force
    have L: "pipe_list q = c # pipe_list q1" and inv1: "pipe_inv q1"
      using pipe_list_get [of q] pipe_get_inv [OF inv] go g by simp_all
    let ?s = "set_pipe pa (Some q1) s" and ?va = "addr + of_nat k"
    obtain ok s1 where o: "copyout_proc i ?va [c] ?s = (ok, s1)" by force
    have s1: "s1 = upd_proc i (\<lambda>p. p\<lparr>p_pagetable := snd (copyout (p_pagetable (pr s i)) ?va [c])\<rparr>) ?s"
      "ok = fst (copyout (p_pagetable (pr s i)) ?va [c])"
      using o by (simp_all add: copyout_proc_def case_prod_beta Let_def prod_eq_iff)
    have step: "(if ok then piperead_copy i pa addr n (k + 1) s1 else Some (k, s1)) = Some (m, t)"
      using res q go g o by (cases ok) auto
    show ?thesis
    proof (cases ok)
      case False
      with copyout_byte [OF pt, of ?va c] s1 have "\<not> writable (p_pagetable (pr s i)) (unat ?va)"
        "snd (copyout (p_pagetable (pr s i)) ?va [c]) = p_pagetable (pr s i)" by auto
      moreover from this(2) have "p_pagetable (pr s1 i) = p_pagetable (pr s i)" "ks_pipes s1 pa = Some q1"
        "length (ks_procs s1) = length (ks_procs s)"
        using s1 i by simp_all
      ultimately show ?thesis using False step stay L inv1 go
        by (intro exI [of _ "[]"] exI [of _ "[c]"] exI [of _ q1]) auto
    next
      case True
      then obtain pt1 where pt1: "p_pagetable (pr s1 i) = pt1" "pages_ok pt1"
        "\<And>a. user_byte pt1 a = (if a = unat ?va then Some c else user_byte (p_pagetable (pr s i)) a)"
        using copyout_byte [OF pt, of ?va c] s1 i by auto
      have w: "writable pt1 a = writable (p_pagetable (pr s i)) a" for a
        using copyout_spec [OF pt, of ?va "[c]"] pt1(1) s1 i by simp
      have len: "ks_pipes s1 pa = Some q1" "length (ks_procs s1) = length (ks_procs s)" by (simp_all add: s1)
      then obtain bs lost q' where IH: "took pt1 (p_pagetable (pr t i)) addr (Suc k) m bs" "m \<le> n"
        "length (ks_procs t) = length (ks_procs s)"
        "ks_pipes t pa = Some q'" "pipe_inv q'" "pipe_list q1 = bs @ lost @ pipe_list q'"
        "lost = [] \<and> (m = n \<or> pipe_list q' = []) \<or> length lost = 1 \<and> \<not> writable pt1 (unat (addr + of_nat m))"
        using "1.IH" [OF q go refl g [symmetric] o [symmetric] eqTrueI [OF True], of q1] True pt1 inv1 go "1.prems"(5) i step by auto
      then show ?thesis using took_step [OF pt1(3) IH(1)] "1.prems"(5) w L
        by (intro exI [of _ "c # bs"] exI [of _ lost] exI [of _ q']) auto
    qed
  qed
qed

text \<open>C35 (pipe_read_takes). A read from a pipe takes bytes from the front of the queue, in order, and puts them into the
  caller's memory; the count it returns is the number of bytes it stored. It stops early only when the queue is
  empty or the caller's memory cannot be written; in that case exactly one byte more has left the queue. It sleeps
  only when the queue is empty and the writing end is open, and end of file is 0 from an empty queue without writer.\<close>

theorem pipe_read_takes:
  assumes "pages_ok (p_pagetable (pr s i))" and "ks_pipes s pa = Some q" and "pipe_inv q" and "n < 2 ^ 31"
    and "i < length (ks_procs s)" and "piperead i pa addr n s = Some out"
  shows "case out of
      Inr t \<Rightarrow> pipe_list q = [] \<and> pi_writeopen q \<and> \<not> p_killed (pr s i) \<and> t = sleep_on i (chan_nread pa) s
    | Inl (r, t) \<Rightarrow>
        if pipe_list q = [] \<and> pi_writeopen q then r = -1 \<and> p_killed (pr s i) \<and> t = s
        else \<exists>bs lost q'. r = int (length bs) \<and> length bs \<le> n \<and>
          pipe_list q = bs @ lost @ pipe_list q' \<and> ks_pipes t pa = Some q' \<and> pipe_inv q' \<and>
          (\<forall>j < length bs. user_byte (p_pagetable (pr t i)) (unat (addr + of_nat j)) = Some (bs ! j)) \<and>
          (lost = [] \<and> (length bs = n \<or> pipe_list q' = []) \<or>
           length lost = 1 \<and> \<not> writable (p_pagetable (pr s i)) (unat (addr + of_nat (length bs))))"
proof -
  have e: "pipe_empty q \<longleftrightarrow> pipe_list q = []" by (simp add: pipe_empty_len flip: length_pipe_list)
  show ?thesis
  proof (cases "pipe_empty q \<and> pi_writeopen q")
    case True
    with assms(2,6) e show ?thesis by (auto simp: piperead_def split: if_splits)
  next
    case False
    then obtain m t where t: "piperead_copy i pa addr n 0 s = Some (m, t)" "out = Inl (int m, wakeup i (chan_nwrite pa) t)"
      using assms(2,6) by (auto simp: piperead_def bind_eq_Some_conv)
    obtain bs lost q' where c: "took (p_pagetable (pr s i)) (p_pagetable (pr t i)) addr 0 m bs" "m \<le> n"
      "length (ks_procs t) = length (ks_procs s)" "ks_pipes t pa = Some q'" "pipe_inv q'"
      "pipe_list q = bs @ lost @ pipe_list q'"
      "lost = [] \<and> (m = n \<or> pipe_list q' = []) \<or> length lost = 1 \<and> \<not> writable (p_pagetable (pr s i)) (unat (addr + of_nat m))"
      using piperead_copy_loop [OF assms(1-3) _ assms(4,5) t(1)] by auto
    have "p_pagetable (pr (wakeup i ch t) i) = p_pagetable (pr t i)" for ch
      using c(3) assms(5) by (simp add: wakeup_def for_procs_idx_def)
    with c have "\<exists>bs lost q'. int m = int (length bs) \<and> length bs \<le> n \<and>
          pipe_list q = bs @ lost @ pipe_list q' \<and> ks_pipes (wakeup i (chan_nwrite pa) t) pa = Some q' \<and> pipe_inv q' \<and>
          (\<forall>j < length bs. user_byte (p_pagetable (pr (wakeup i (chan_nwrite pa) t) i)) (unat (addr + of_nat j)) = Some (bs ! j)) \<and>
          (lost = [] \<and> (length bs = n \<or> pipe_list q' = []) \<or>
           length lost = 1 \<and> \<not> writable (p_pagetable (pr s i)) (unat (addr + of_nat (length bs))))"
      by (intro exI [of _ bs] exI [of _ lost] exI [of _ q']) (simp add: took_def)
    with False e show ?thesis by (simp add: t(2))
  qed
qed

theorem pipe_read_takes_witness:
  "piperead 0 4096 5000 3 wit_pipe_kst = Some (Inr (sleep_on 0 (chan_nread 4096) wit_pipe_kst)) \<and>
   pipe_list zero_pipe = []"
proof -
  let ?t = "sleep_on 0 (chan_nread 4096) wit_pipe_kst"
  have "piperead 0 4096 5000 3 wit_pipe_kst = Some (Inr ?t)"
    using wit_pipe(2) by (simp add: piperead_def zero_pipe_def pipe_empty_def wit_pipe_kst_def wit_agent_def zero_proc_def)
  with pipe_read_takes [OF wit_pipe(1-3) _ _ this] show ?thesis by (simp add: wit_pipe(5))
qed

subsection \<open>Short writes\<close>

text \<open>A piece that is written only in part does not count: although bytes of the file have changed, \<open>filewrite\<close>
  neither advances the file's version nor signals its watchers.\<close>

lemma short_write_not_notified:
  assumes "fl_writable (file_of s k)" "fl_type (file_of s k) = FD_INODE" "0 < n" "n \<le> 3072"
    and "on_fs (ilock (fl_ip (file_of s k))) s = Some s1"
    and "writei_user (fl_ip (file_of s k)) addr (fl_off (file_of s k)) (of_nat n) (p_pagetable (pr s i)) (ks_fs s1) = Some (r, fs)"
    and "0 < r" "r < int n" and "filewrite devs i k addr (int n) s = Some out"
  shows "\<exists>t. out = Inl (-1, t) \<and> ks_file_versions t = ks_file_versions s \<and> ks_procs t = ks_procs s"
proof -
  have f: "ks_files s1 = ks_files s" "ks_procs s1 = ks_procs s" "ks_file_versions s1 = ks_file_versions s"
    using assms(5) by (auto simp: on_fs_def)
  have "\<exists>t. filewrite_loop i k addr n 0 s = Some (0, t) \<and> ks_file_versions t = ks_file_versions s \<and> ks_procs t = ks_procs s"
    if "filewrite_loop i k addr n 0 s \<noteq> None"
    using that assms f
    by (subst (asm) filewrite_loop.simps, subst filewrite_loop.simps)
      (auto simp: Let_def on_fs_def upd_file_def split: option.splits if_splits)
  then show ?thesis using assms by (auto simp: filewrite_def Let_def bind_eq_Some_conv split: if_splits)
qed

end
