(* ===== verification/SysFile.thy ===== *)
theory SysFile
  imports Files
begin

text \<open>
  The system calls on files (kernel/sysfile.c): descriptors, links, creating, opening and removing, the current
  directory, pipes. The operations on directories work on the file system alone and are lifted to the kernel
  state; the descriptors of a process are its list \<open>p_ofile\<close> of indexes into the file table. The mapped areas
  are in \<open>Mmap\<close>, \<open>exec\<close> in \<open>Exec\<close>.
\<close>

abbreviation (input) NOFILE :: nat where "NOFILE \<equiv> 16"
abbreviation (input) MAXPATH :: nat where "MAXPATH \<equiv> 128"
abbreviation (input) O_RDONLY :: u32 where "O_RDONLY \<equiv> 0"
abbreviation (input) O_WRONLY :: u32 where "O_WRONLY \<equiv> 1"
abbreviation (input) O_RDWR :: u32 where "O_RDWR \<equiv> 2"
abbreviation (input) O_CREATE :: u32 where "O_CREATE \<equiv> 0x200"
abbreviation (input) O_TRUNC :: u32 where "O_TRUNC \<equiv> 0x400"

definition fetchstr :: "nat \<Rightarrow> u64 \<Rightarrow> nat \<Rightarrow> kst \<Rightarrow> string option" where
  "fetchstr i addr mx s = copyinstr (p_pagetable (pr s i)) addr mx"

text \<open>A C \<open>short\<close>.\<close>

definition short_of :: "int \<Rightarrow> int" where
  "short_of n = sint (word_of_int n :: u16)"

subsection \<open>Descriptors\<close>

definition argfd :: "nat \<Rightarrow> int \<Rightarrow> kst \<Rightarrow> nat option" where
  "argfd i fd s = (if fd < 0 \<or> fd \<ge> int NOFILE then None else p_ofile (pr s i) ! nat fd)"

definition set_fd :: "nat \<Rightarrow> nat \<Rightarrow> nat option \<Rightarrow> kst \<Rightarrow> kst" where
  "set_fd i fd f s = upd_proc i (\<lambda>p. p\<lparr>p_ofile := (p_ofile p)[fd := f]\<rparr>) s"

definition fdalloc :: "nat \<Rightarrow> nat \<Rightarrow> kst \<Rightarrow> nat option \<times> kst" where
  "fdalloc i f s =
     (case first_slot (\<lambda>d. d = None) (p_ofile (pr s i)) of
        None \<Rightarrow> (None, s)
      | Some fd \<Rightarrow> (Some fd, set_fd i fd (Some f) s))"

definition sys_dup :: "nat \<Rightarrow> int \<Rightarrow> kst \<Rightarrow> (int \<times> kst) option" where
  "sys_dup i fd s =
     (case argfd i fd s of
        None \<Rightarrow> Some (-1, s)
      | Some f \<Rightarrow>
          (case fdalloc i f s of
             (None, s1) \<Rightarrow> Some (-1, s1)
           | (Some fd', s1) \<Rightarrow> do { s2 \<leftarrow> filedup f s1; Some (int fd', s2) }))"

definition sys_read :: "(int \<Rightarrow> devfun option) \<Rightarrow> nat \<Rightarrow> int \<Rightarrow> u64 \<Rightarrow> int \<Rightarrow> kst \<Rightarrow> ((int \<times> kst) + (nat \<times> kst)) option" where
  "sys_read devread i fd addr n s =
     (case argfd i fd s of None \<Rightarrow> Some (Inl (-1, s)) | Some f \<Rightarrow> fileread devread i f addr n s)"

definition sys_write :: "(int \<Rightarrow> devfun option) \<Rightarrow> nat \<Rightarrow> int \<Rightarrow> u64 \<Rightarrow> int \<Rightarrow> kst \<Rightarrow> ((int \<times> kst) + (nat \<times> kst)) option" where
  "sys_write devwrite i fd addr n s =
     (case argfd i fd s of None \<Rightarrow> Some (Inl (-1, s)) | Some f \<Rightarrow> filewrite devwrite i f addr n s)"

definition sys_close :: "nat \<Rightarrow> int \<Rightarrow> kst \<Rightarrow> (int \<times> kst) option" where
  "sys_close i fd s =
     (case argfd i fd s of
        None \<Rightarrow> Some (-1, s)
      | Some f \<Rightarrow> do { s1 \<leftarrow> fileclose i f (set_fd i (nat fd) None s); Some (0, s1) })"

definition sys_fstat :: "nat \<Rightarrow> int \<Rightarrow> u64 \<Rightarrow> kst \<Rightarrow> (int \<times> kst) option" where
  "sys_fstat i fd st s = (case argfd i fd s of None \<Rightarrow> Some (-1, s) | Some f \<Rightarrow> filestat i f st s)"

subsection \<open>Directories\<close>

text \<open>Applying a file system call with the caller's current directory.\<close>

definition with_cwd :: "nat \<Rightarrow> (nat \<Rightarrow> fsk \<Rightarrow> ('a \<times> fsk) option) \<Rightarrow> kst \<Rightarrow> ('a \<times> kst) option" where
  "with_cwd i f s =
     (case p_cwd (pr s i) of
        None \<Rightarrow> None
      | Some cwd \<Rightarrow> map_option (\<lambda>(r, fs). (r, s\<lparr>ks_fs := fs\<rparr>)) (f cwd (ks_fs s)))"

definition add_nlink :: "nat \<Rightarrow> int \<Rightarrow> fsk \<Rightarrow> fsk" where
  "add_nlink ip d fs = iupdate ip (upd_ino ip (\<lambda>p. p\<lparr>di_nlink := di_nlink p + d\<rparr>) fs)"

definition link_at :: "string \<Rightarrow> string \<Rightarrow> nat \<Rightarrow> fsk \<Rightarrow> (int \<times> fsk) option" where
  "link_at old new cwd fs =
     do {
       (r, fs1) \<leftarrow> namei cwd old fs;
       (case r of
          None \<Rightarrow> Some (-1, fs1)
        | Some ip \<Rightarrow>
            do {
              fs2 \<leftarrow> ilock ip fs1;
              if di_type (ino fs2 ip) = T_DIR
              then do { fs3 \<leftarrow> iunlockput ip fs2; Some (-1, fs3) }
              else do {
                fs3 \<leftarrow> iunlock ip (add_nlink ip 1 fs2);
                let bad = (\<lambda>fs. do { f1 \<leftarrow> ilock ip fs; f2 \<leftarrow> iunlockput ip (add_nlink ip (-1) f1); Some (-1, f2) });
                (d, name, fs4) \<leftarrow> nameiparent cwd new fs3;
                (case d of
                   None \<Rightarrow> bad fs4
                 | Some dp \<Rightarrow>
                     do {
                       fs5 \<leftarrow> ilock dp fs4;
                       if in_dev (ino fs5 dp) \<noteq> in_dev (ino fs5 ip)
                       then do { fs6 \<leftarrow> iunlockput dp fs5; bad fs6 }
                       else do {
                         (l, fs6) \<leftarrow> dirlink dp name (in_inum (ino fs5 ip)) fs5;
                         fs7 \<leftarrow> iunlockput dp fs6;
                         if l < 0 then bad fs7 else do { fs8 \<leftarrow> iput ip fs7; Some (0, fs8) }
                       }
                     })
              }
            })
     }"

definition sys_link :: "nat \<Rightarrow> u64 \<Rightarrow> u64 \<Rightarrow> kst \<Rightarrow> (int \<times> kst) option" where
  "sys_link i uold unew s =
     (case (fetchstr i uold MAXPATH s, fetchstr i unew MAXPATH s) of
        (Some old, Some new) \<Rightarrow> with_cwd i (link_at old new) s
      | _ \<Rightarrow> Some (-1, s))"

text \<open>\<open>isdirempty\<close>: whether every entry after \<open>.\<close> and \<open>..\<close> is free.\<close>

function isdirempty_loop :: "nat \<Rightarrow> nat \<Rightarrow> nat \<Rightarrow> fsk \<Rightarrow> (bool \<times> fsk) option" where
  "isdirempty_loop dp sz off fs =
     (if off < sz
      then case readi_kernel dp (of_nat off) (of_nat DIRENT_SIZE) fs of
             None \<Rightarrow> None
           | Some (r, de, fs1) \<Rightarrow>
               if r \<noteq> int DIRENT_SIZE then None
               else if dirent_inum de \<noteq> 0 then Some (False, fs1)
               else isdirempty_loop dp sz (off + DIRENT_SIZE) fs1
      else Some (True, fs))"
  by pat_completeness auto
termination
  by (relation "measure (\<lambda>(dp, sz, off, fs). sz - off)") auto

declare isdirempty_loop.simps [simp del]

definition isdirempty :: "nat \<Rightarrow> fsk \<Rightarrow> (bool \<times> fsk) option" where
  "isdirempty dp fs = isdirempty_loop dp (unat (di_size (ino fs dp))) (2 * DIRENT_SIZE) fs"

text \<open>The end of \<open>sys_unlink\<close>: the entry at \<open>off\<close> is cleared, the links are counted down, and the result says
  which inode has lost its last name.\<close>

definition unlink_entry :: "nat \<Rightarrow> nat \<Rightarrow> nat \<Rightarrow> fsk \<Rightarrow> ((u32 \<times> u32) option \<times> fsk) option" where
  "unlink_entry dp ip off fs =
     do {
       (w, fs1) \<leftarrow> writei_kernel dp (replicate DIRENT_SIZE NUL) (of_nat off) fs;
       if w \<noteq> int DIRENT_SIZE then None
       else do {
         let fs2 = (if di_type (ino fs1 ip) = T_DIR then add_nlink dp (-1) fs1 else fs1);
         fs3 \<leftarrow> iunlockput dp fs2;
         let fs4 = add_nlink ip (-1) fs3;
         fs5 \<leftarrow> iunlockput ip fs4;
         Some (if di_nlink (ino fs4 ip) = 0 then Some (in_dev (ino fs4 ip), in_inum (ino fs4 ip)) else None, fs5)
       }
     }"

definition unlink_at :: "string \<Rightarrow> nat \<Rightarrow> fsk \<Rightarrow> ((int \<times> (u32 \<times> u32) option) \<times> fsk) option" where
  "unlink_at path cwd fs =
     do {
       (d, name, fs1) \<leftarrow> nameiparent cwd path fs;
       (case d of
          None \<Rightarrow> Some ((-1, None), fs1)
        | Some dp \<Rightarrow>
            do {
              fs2 \<leftarrow> ilock dp fs1;
              let bad = (\<lambda>fs. map_option (Pair (-1, None)) (iunlockput dp fs));
              (if namecmp name ''.'' = 0 \<or> namecmp name ''..'' = 0 then bad fs2
               else do {
                 (r, fs3) \<leftarrow> dirlookup dp name fs2;
                 (case r of
                    None \<Rightarrow> bad fs3
                  | Some (ip, off) \<Rightarrow>
                      do {
                        fs4 \<leftarrow> ilock ip fs3;
                        if di_nlink (ino fs4 ip) < 1 then None
                        else do {
                          (empty, fs5) \<leftarrow> (if di_type (ino fs4 ip) = T_DIR then isdirempty ip fs4 else Some (True, fs4));
                          if \<not> empty then do { fs6 \<leftarrow> iunlockput ip fs5; bad fs6 }
                          else do { (gone, fs6) \<leftarrow> unlink_entry dp ip off fs5; Some ((0, gone), fs6) }
                        }
                      })
               })
            })
     }"

definition sys_unlink :: "nat \<Rightarrow> u64 \<Rightarrow> kst \<Rightarrow> (int \<times> kst) option" where
  "sys_unlink i upath s =
     (case fetchstr i upath MAXPATH s of
        None \<Rightarrow> Some (-1, s)
      | Some path \<Rightarrow>
          do {
            ((r, gone), s1) \<leftarrow> with_cwd i (unlink_at path) s;
            Some (r, case gone of None \<Rightarrow> s1
                     | Some (dev, inum) \<Rightarrow> s1\<lparr>ks_file_versions := agentfs_inode_version_remove dev inum (ks_file_versions s1)\<rparr>)
          })"

text \<open>\<open>create\<close> returns the inode locked.\<close>

definition create_fresh :: "nat \<Rightarrow> string \<Rightarrow> int \<Rightarrow> int \<Rightarrow> int \<Rightarrow> nat \<Rightarrow> fsk \<Rightarrow> (nat option \<times> fsk) option" where
  "create_fresh dp name type major minor ip fs =
     do {
       fs1 \<leftarrow> ilock ip fs;
       let fs2 = iupdate ip (upd_ino ip (\<lambda>p. p\<lparr>di_major := major, di_minor := minor, di_nlink := 1\<rparr>) fs1);
       let fail = (\<lambda>fs. do { f1 \<leftarrow> iunlockput ip (iupdate ip (upd_ino ip (\<lambda>p. p\<lparr>di_nlink := 0\<rparr>) fs));
                             f2 \<leftarrow> iunlockput dp f1; Some (None, f2) });
       (l, fs3) \<leftarrow> (if type = T_DIR
                    then do {
                      (a, f1) \<leftarrow> dirlink ip ''.'' (in_inum (ino fs2 ip)) fs2;
                      (if a < 0 then Some (a, f1) else dirlink ip ''..'' (in_inum (ino f1 dp)) f1)
                    }
                    else Some (0, fs2));
       if l < 0 then fail fs3
       else do {
         (l', fs4) \<leftarrow> dirlink dp name (in_inum (ino fs3 ip)) fs3;
         if l' < 0 then fail fs4
         else do {
           fs5 \<leftarrow> iunlockput dp (if type = T_DIR then add_nlink dp 1 fs4 else fs4);
           Some (Some ip, fs5)
         }
       }
     }"

definition create :: "string \<Rightarrow> int \<Rightarrow> int \<Rightarrow> int \<Rightarrow> nat \<Rightarrow> fsk \<Rightarrow> (nat option \<times> fsk) option" where
  "create path type major minor cwd fs =
     do {
       (d, name, fs1) \<leftarrow> nameiparent cwd path fs;
       (case d of
          None \<Rightarrow> Some (None, fs1)
        | Some dp \<Rightarrow>
            do {
              fs2 \<leftarrow> ilock dp fs1;
              (r, fs3) \<leftarrow> dirlookup dp name fs2;
              (case r of
                 Some (ip, _) \<Rightarrow>
                   do {
                     fs4 \<leftarrow> iunlockput dp fs3;
                     fs5 \<leftarrow> ilock ip fs4;
                     if type = T_FILE \<and> (di_type (ino fs5 ip) = T_FILE \<or> di_type (ino fs5 ip) = T_DEVICE)
                     then Some (Some ip, fs5)
                     else do { fs6 \<leftarrow> iunlockput ip fs5; Some (None, fs6) }
                   }
               | None \<Rightarrow>
                   do {
                     (a, fs4) \<leftarrow> ialloc type fs3;
                     (case a of
                        None \<Rightarrow> do { fs5 \<leftarrow> iunlockput dp fs4; Some (None, fs5) }
                      | Some ip \<Rightarrow> create_fresh dp name type major minor ip fs4)
                   })
            })
     }"

text \<open>The inode \<open>sys_open\<close> works on, locked.\<close>

definition open_inode :: "string \<Rightarrow> u32 \<Rightarrow> nat \<Rightarrow> fsk \<Rightarrow> (nat option \<times> fsk) option" where
  "open_inode path omode cwd fs =
     (if omode AND O_CREATE \<noteq> 0 then create path T_FILE 0 0 cwd fs
      else do {
        (r, fs1) \<leftarrow> namei cwd path fs;
        (case r of
           None \<Rightarrow> Some (None, fs1)
         | Some ip \<Rightarrow>
             do {
               fs2 \<leftarrow> ilock ip fs1;
               if di_type (ino fs2 ip) = T_DIR \<and> omode \<noteq> O_RDONLY
               then do { fs3 \<leftarrow> iunlockput ip fs2; Some (None, fs3) }
               else Some (Some ip, fs2)
             })
      })"

definition opened_file :: "nat \<Rightarrow> u32 \<Rightarrow> inode \<Rightarrow> kfile \<Rightarrow> kfile" where
  "opened_file ip omode p f =
     (let g = (if di_type p = T_DEVICE then f\<lparr>fl_type := FD_DEVICE, fl_major := di_major p\<rparr>
               else f\<lparr>fl_type := FD_INODE, fl_off := 0\<rparr>)
      in g\<lparr>fl_ip := ip, fl_readable := (omode AND O_WRONLY = 0),
           fl_writable := (omode AND O_WRONLY \<noteq> 0 \<or> omode AND O_RDWR \<noteq> 0)\<rparr>)"

definition sys_open :: "nat \<Rightarrow> u64 \<Rightarrow> u32 \<Rightarrow> kst \<Rightarrow> (int \<times> kst) option" where
  "sys_open i upath omode s =
     (case fetchstr i upath MAXPATH s of
        None \<Rightarrow> Some (-1, s)
      | Some path \<Rightarrow>
          do {
            (r, s1) \<leftarrow> with_cwd i (open_inode path omode) s;
            (case r of
               None \<Rightarrow> Some (-1, s1)
             | Some ip \<Rightarrow>
                 if di_type (fs_ino s1 ip) = T_DEVICE \<and> (di_major (fs_ino s1 ip) < 0 \<or> di_major (fs_ino s1 ip) \<ge> NDEV)
                 then do { s2 \<leftarrow> on_fs (iunlockput ip) s1; Some (-1, s2) }
                 else (case filealloc s1 of
                         (None, s2) \<Rightarrow> do { s3 \<leftarrow> on_fs (iunlockput ip) s2; Some (-1, s3) }
                       | (Some f, s2) \<Rightarrow>
                           (case fdalloc i f s2 of
                              (None, s3) \<Rightarrow> do { s4 \<leftarrow> fileclose i f s3; s5 \<leftarrow> on_fs (iunlockput ip) s4; Some (-1, s5) }
                            | (Some fd, s3) \<Rightarrow>
                                do {
                                  let s4 = upd_file f (opened_file ip omode (fs_ino s3 ip)) s3;
                                  s5 \<leftarrow> (if omode AND O_TRUNC \<noteq> 0 \<and> di_type (fs_ino s4 ip) = T_FILE
                                        then on_fs (itrunc ip) s4 else Some s4);
                                  s6 \<leftarrow> on_fs (iunlock ip) s5;
                                  Some (int fd, s6)
                                })))
          })"

text \<open>\<open>sys_mkdir\<close> and \<open>sys_mknod\<close>.\<close>

definition make_node :: "nat \<Rightarrow> u64 \<Rightarrow> int \<Rightarrow> int \<Rightarrow> int \<Rightarrow> kst \<Rightarrow> (int \<times> kst) option" where
  "make_node i upath type major minor s =
     (case fetchstr i upath MAXPATH s of
        None \<Rightarrow> Some (-1, s)
      | Some path \<Rightarrow>
          do {
            (r, s1) \<leftarrow> with_cwd i (create path type major minor) s;
            (case r of
               None \<Rightarrow> Some (-1, s1)
             | Some ip \<Rightarrow> do { s2 \<leftarrow> on_fs (iunlockput ip) s1; Some (0, s2) })
          })"

definition sys_mkdir :: "nat \<Rightarrow> u64 \<Rightarrow> kst \<Rightarrow> (int \<times> kst) option" where
  "sys_mkdir i upath s = make_node i upath T_DIR 0 0 s"

definition sys_mknod :: "nat \<Rightarrow> u64 \<Rightarrow> int \<Rightarrow> int \<Rightarrow> kst \<Rightarrow> (int \<times> kst) option" where
  "sys_mknod i upath major minor s = make_node i upath T_DEVICE (short_of major) (short_of minor) s"

definition sys_chdir :: "nat \<Rightarrow> u64 \<Rightarrow> kst \<Rightarrow> (int \<times> kst) option" where
  "sys_chdir i upath s =
     (case fetchstr i upath MAXPATH s of
        None \<Rightarrow> Some (-1, s)
      | Some path \<Rightarrow>
          do {
            (r, s1) \<leftarrow> fs_namei i path s;
            (case r of
               None \<Rightarrow> Some (-1, s1)
             | Some ip \<Rightarrow>
                 do {
                   s2 \<leftarrow> on_fs (ilock ip) s1;
                   if di_type (fs_ino s2 ip) \<noteq> T_DIR
                   then do { s3 \<leftarrow> on_fs (iunlockput ip) s2; Some (-1, s3) }
                   else do {
                     s3 \<leftarrow> on_fs (iunlock ip) s2;
                     cwd \<leftarrow> p_cwd (pr s3 i);
                     s4 \<leftarrow> on_fs (iput cwd) s3;
                     Some (0, upd_proc i (\<lambda>p. p\<lparr>p_cwd := Some ip\<rparr>) s4)
                   }
                 })
          })"

definition sys_pipe :: "nat \<Rightarrow> u64 \<Rightarrow> kst \<Rightarrow> (int \<times> kst) option" where
  "sys_pipe i fdarray s =
     do {
       (r, s1) \<leftarrow> pipealloc i s;
       (case r of
          None \<Rightarrow> Some (-1, s1)
        | Some (rd, wt) \<Rightarrow>
            let close = (\<lambda>s. do { t1 \<leftarrow> fileclose i rd s; t2 \<leftarrow> fileclose i wt t1; Some (-1, t2) })
            in (case fdalloc i rd s1 of
                  (None, s2) \<Rightarrow> close s2
                | (Some fd0, s2) \<Rightarrow>
                    (case fdalloc i wt s2 of
                       (None, s3) \<Rightarrow> close (set_fd i fd0 None s3)
                     | (Some fd1, s3) \<Rightarrow>
                         let (ok0, s4) = copyout_proc i fdarray (le32 (of_nat fd0)) s3;
                             (ok1, s5) = (if ok0 then copyout_proc i (fdarray + 4) (le32 (of_nat fd1)) s4 else (False, s4))
                         in if ok1 then Some (0, s5)
                            else close (set_fd i fd1 None (set_fd i fd0 None s5)))))
     }"

end
