(* ===== verification/Mmap.thy ===== *)
theory Mmap
  imports SysFile
begin

text \<open>
  Files mapped into memory (\<open>sys_mmap\<close> and \<open>sys_munmap\<close> in kernel/sysfile.c, \<open>vma_alloc\<close> in kernel/proc.c,
  \<open>mmap_handler\<close> and \<open>writeback\<close> in kernel/vm.c). The areas of a process are a chain through the table of
  sixteen areas; walking it is bounded by a fuel of seventeen, so a cyclic chain, on which the code would
  not return, is \<open>None\<close>, like a panic and like the use of a descriptor that is not open.
\<close>

abbreviation (input) VMA_START :: u64 where "VMA_START \<equiv> 0x2000000000"
abbreviation (input) VMA_FUEL :: nat where "VMA_FUEL \<equiv> 17"

abbreviation vma_of :: "kst \<Rightarrow> nat \<Rightarrow> vma" where
  "vma_of s v \<equiv> ks_vmas s ! v"

definition upd_vma :: "nat \<Rightarrow> (vma \<Rightarrow> vma) \<Rightarrow> kst \<Rightarrow> kst" where
  "upd_vma v f s = s\<lparr>ks_vmas := (ks_vmas s)[v := f (vma_of s v)]\<rparr>"

definition vma_alloc :: "kst \<Rightarrow> nat option" where
  "vma_alloc s = first_slot (\<lambda>v. vm_length v = 0) (ks_vmas s)"

subsection \<open>Mapping\<close>

text \<open>\<open>while(pv->next) pv = pv->next;\<close>\<close>

fun vma_last :: "nat \<Rightarrow> nat \<Rightarrow> kst \<Rightarrow> nat option" where
  "vma_last 0 v s = None"
| "vma_last (Suc fuel) v s = (case vm_next (vma_of s v) of None \<Rightarrow> Some v | Some w \<Rightarrow> vma_last fuel w s)"

text \<open>The page flags of a mapping, or \<open>None\<close> when the file does not allow it.\<close>

definition mmap_flags :: "u32 \<Rightarrow> u32 \<Rightarrow> kfile \<Rightarrow> u64 option" where
  "mmap_flags prot flags f =
     (if prot AND 2 \<noteq> 0 \<and> \<not> fl_writable f \<and> flags AND 2 = 0 then None
      else if prot AND 1 \<noteq> 0 \<and> \<not> fl_readable f then None
      else Some (PTE_U OR (if prot AND 2 \<noteq> 0 then PTE_W else 0) OR (if prot AND 1 \<noteq> 0 then PTE_R else 0)))"

definition sys_mmap :: "nat \<Rightarrow> u64 \<Rightarrow> int \<Rightarrow> u32 \<Rightarrow> u32 \<Rightarrow> int \<Rightarrow> int \<Rightarrow> kst \<Rightarrow> (u64 \<times> kst) option" where
  "sys_mmap i addr len prot flags fd offset s =
     (if addr \<noteq> 0 \<or> offset \<noteq> 0 then None
      else do {
        k \<leftarrow> argfd i fd s;
        (case mmap_flags prot flags (file_of s k) of
           None \<Rightarrow> Some (-1, s)
         | Some perm \<Rightarrow>
             do {
               v \<leftarrow> vma_alloc s;
               let s1 = upd_vma v (\<lambda>a. a\<lparr>vm_permission := perm, vm_length := u64_of_int len, vm_off := u64_of_int offset,
                          vm_file := k, vm_flags := uint flags\<rparr>) s;
               s2 \<leftarrow> filedup k s1;
               (case p_vma (pr s2 i) of
                  None \<Rightarrow>
                    Some (VMA_START, upd_proc i (\<lambda>p. p\<lparr>p_vma := Some v\<rparr>)
                      (upd_vma v (\<lambda>a. a\<lparr>vm_start := VMA_START, vm_end := VMA_START + u64_of_int len\<rparr>) s2))
                | Some h \<Rightarrow>
                    do {
                      lst \<leftarrow> vma_last VMA_FUEL h s2;
                      let start = PGROUNDUP (vm_end (vma_of s2 lst));
                      let s3 = upd_vma v (\<lambda>a. a\<lparr>vm_start := start, vm_end := start + u64_of_int len\<rparr>) s2;
                      Some (start, upd_vma v (\<lambda>a. a\<lparr>vm_next := None\<rparr>) (upd_vma lst (\<lambda>a. a\<lparr>vm_next := Some v\<rparr>) s3))
                    })
             })
      })"

subsection \<open>Page faults\<close>

text \<open>The area of an address and the one before it in the chain.\<close>

fun vma_find :: "nat \<Rightarrow> nat option \<Rightarrow> nat option \<Rightarrow> u64 \<Rightarrow> kst \<Rightarrow> (nat option \<times> nat) option option" where
  "vma_find 0 pre v addr s = None"
| "vma_find (Suc fuel) pre v addr s =
     (case v of
        None \<Rightarrow> Some None
      | Some w \<Rightarrow>
          if addr \<ge> vm_start (vma_of s w) \<and> addr < vm_end (vma_of s w) then Some (Some (pre, w))
          else vma_find fuel (Some w) (vm_next (vma_of s w)) addr s)"

definition mmap_load :: "nat \<Rightarrow> nat \<Rightarrow> u64 \<Rightarrow> kst \<Rightarrow> (int \<times> kst) option" where
  "mmap_load i w va s =
     (let v = vma_of s w; ip = fl_ip (file_of s (vm_file v))
      in do {
        s1 \<leftarrow> on_fs (ilock ip) s;
        (r, bs, fs) \<leftarrow> readi_kernel ip (ucast (vm_off v + va - vm_start v)) 4096 (ks_fs s1);
        let s2 = upd_proc i (\<lambda>p. p\<lparr>p_pagetable := set_page (p_pagetable p) va (store_bytes 0 bs)\<rparr>) (s1\<lparr>ks_fs := fs\<rparr>);
        s3 \<leftarrow> on_fs (iunlock ip) s2;
        Some (0, s3)
      })"

definition mmap_handler :: "nat \<Rightarrow> u64 \<Rightarrow> nat \<Rightarrow> kst \<Rightarrow> (int \<times> kst) option" where
  "mmap_handler i va0 scause s =
     do {
       r \<leftarrow> vma_find VMA_FUEL None (p_vma (pr s i)) va0 s;
       (case r of
          None \<Rightarrow> Some (-1, s)
        | Some (_, w) \<Rightarrow>
            let v = vma_of s w; va = PGROUNDDOWN va0
            in if scause = 13 \<and> vm_permission v AND PTE_R = 0 then Some (-2, s)
               else if scause = 15 \<and> vm_permission v AND PTE_W = 0 then Some (-3, s)
               else (case kalloc (ks_freelist s) of
                       (None, _) \<Rightarrow> Some (-4, s)
                     | (Some mem, fl) \<Rightarrow>
                         do {
                           (ok, pt, fl1) \<leftarrow> mappages (p_pagetable (pr s i)) va
                             \<lparr>pg_pa = mem, pg_flags = 0, pg_data = zero_page\<rparr> (vm_permission v) fl;
                           let s1 = upd_proc i (\<lambda>p. p\<lparr>p_pagetable := pt\<rparr>) (s\<lparr>ks_freelist := fl1\<rparr>);
                           if \<not> ok then Some (-5, s1\<lparr>ks_freelist := kfree mem fl1\<rparr>) else mmap_load i w va s1
                         }))
     }"

subsection \<open>Unmapping\<close>

function writeback_loop :: "nat \<Rightarrow> nat \<Rightarrow> u64 \<Rightarrow> u64 \<Rightarrow> nat \<Rightarrow> nat \<Rightarrow> kst \<Rightarrow> (nat \<times> kst) option" where
  "writeback_loop i ip addr off n k s =
     (if k < n
      then (case on_fs (ilock ip) s of
              None \<Rightarrow> None
            | Some s1 \<Rightarrow>
                (case writei_user ip (addr + of_nat k) (ucast (off + of_nat k)) (of_nat (min (n - k) 3072))
                        (p_pagetable (pr s1 i)) (ks_fs s1) of
                   None \<Rightarrow> None
                 | Some (r, fs) \<Rightarrow>
                     (case on_fs (iunlock ip) (s1\<lparr>ks_fs := fs\<rparr>) of
                        None \<Rightarrow> None
                      | Some s2 \<Rightarrow> if r \<le> 0 then Some (k, s2) else writeback_loop i ip addr off n (k + nat r) s2)))
      else Some (k, s))"
  by pat_completeness auto
termination
  by (relation "measure (\<lambda>(i, ip, addr, off, n, k, s). n - k)") auto

declare writeback_loop.simps [simp del]

definition writeback :: "nat \<Rightarrow> nat \<Rightarrow> u64 \<Rightarrow> int \<Rightarrow> kst \<Rightarrow> kst option" where
  "writeback i w addr n s =
     (let v = vma_of s w; ip = fl_ip (file_of s (vm_file v));
          dev = in_dev (fs_ino s ip); inum = in_inum (fs_ino s ip)
      in if vm_permission v AND PTE_W = 0 \<or> (word_of_int (vm_flags v) :: u32) AND 2 \<noteq> 0 then Some s
         else if addr AND 4095 \<noteq> 0 then None
         else do {
           (k, s1) \<leftarrow> writeback_loop i ip addr (vm_off v + vm_start v - addr) (nat n) 0 s;
           Some (if k > 0 then agent_notify_file_modified dev inum s1 else s1)
         })"

text \<open>\<open>length / PGSIZE\<close> in C, converted to \<open>uint64\<close>.\<close>

definition page_count :: "int \<Rightarrow> nat" where
  "page_count len = unat (word_of_int (if len \<ge> 0 then len div 4096 else - ((- len) div 4096)) :: u64)"

definition unmap_pages :: "nat \<Rightarrow> u64 \<Rightarrow> nat \<Rightarrow> kst \<Rightarrow> kst option" where
  "unmap_pages i addr n s =
     do {
       (pt, fl) \<leftarrow> uvmunmap (p_pagetable (pr s i)) addr n True (ks_freelist s);
       Some (upd_proc i (\<lambda>p. p\<lparr>p_pagetable := pt\<rparr>) (s\<lparr>ks_freelist := fl\<rparr>))
     }"

definition sys_munmap :: "nat \<Rightarrow> u64 \<Rightarrow> int \<Rightarrow> kst \<Rightarrow> (int \<times> kst) option" where
  "sys_munmap i addr len s =
     do {
       r \<leftarrow> vma_find VMA_FUEL None (p_vma (pr s i)) addr s;
       (case r of
          None \<Rightarrow> Some (-1, s)
        | Some (pre, w) \<Rightarrow>
            let v = vma_of s w
            in if addr \<noteq> vm_start v \<and> addr + u64_of_int len \<noteq> vm_end v then None
               else if addr = vm_start v
               then do {
                 s1 \<leftarrow> writeback i w addr len s;
                 s2 \<leftarrow> unmap_pages i addr (page_count len) s1;
                 if u64_of_int len = vm_length (vma_of s2 w)
                 then do {
                   s3 \<leftarrow> fileclose i (vm_file (vma_of s2 w)) s2;
                   let s4 = (case pre of
                        None \<Rightarrow> upd_proc i (\<lambda>p. p\<lparr>p_vma := vm_next (vma_of s3 w)\<rparr>) s3
                      | Some b \<Rightarrow> upd_vma w (\<lambda>a. a\<lparr>vm_next := None\<rparr>)
                                    (upd_vma b (\<lambda>a. a\<lparr>vm_next := vm_next (vma_of s3 w)\<rparr>) s3));
                   Some (0, upd_vma w (\<lambda>a. a\<lparr>vm_length := 0\<rparr>) s4)
                 }
                 else Some (0, upd_vma w (\<lambda>a. a\<lparr>vm_start := vm_start a - u64_of_int len,
                        vm_off := vm_off a + u64_of_int len, vm_length := vm_length a - u64_of_int len\<rparr>) s2)
               }
               else Some (0, upd_vma w (\<lambda>a. a\<lparr>vm_length := vm_length a - u64_of_int len,
                        vm_end := vm_end a - u64_of_int len\<rparr>) s))
     }"

end
