(* ===== verification/Processes.thy ===== *)
theory Processes
  imports Tools
begin

text \<open>
  Processes (kernel/proc.c): allocating and freeing a process entry with its trapframe and page
  table, growing memory, collecting a dead child, sleeping, waking, killing, and the scheduler's
  choice. The trampoline page is a parameter; a panic of the page table code is \<open>None\<close>. \<open>fork\<close> and
  \<open>exit\<close>, which also touch open files and memory maps, are in \<open>Lifecycle\<close>.
\<close>

abbreviation (input) TRAMPOLINE :: u64 where "TRAMPOLINE \<equiv> 0x3ffffff000"
abbreviation (input) TRAPFRAME :: u64 where "TRAPFRAME \<equiv> 0x3fffffe000"

definition allocpid :: "kst \<Rightarrow> int \<times> kst" where
  "allocpid s = (ks_nextpid s, s\<lparr>ks_nextpid := ks_nextpid s + 1\<rparr>)"

definition proc_freepagetable :: "upagetable \<Rightarrow> u64 \<Rightarrow> u64 list \<Rightarrow> u64 list option" where
  "proc_freepagetable pt sz fl =
     do {
       (pt1, fl1) \<leftarrow> uvmunmap pt TRAMPOLINE 1 False fl;
       (pt2, fl2) \<leftarrow> uvmunmap pt1 TRAPFRAME 1 False fl1;
       uvmfree pt2 sz fl2
     }"

text \<open>The page table of a new process; \<open>Some (None, _)\<close> when memory runs out.\<close>

definition proc_pagetable :: "upage \<Rightarrow> u64 \<Rightarrow> u64 list \<Rightarrow> (upagetable option \<times> u64 list) option" where
  "proc_pagetable tramp trapframe fl =
     (case uvmcreate fl of
        (None, fl0) \<Rightarrow> Some (None, fl0)
      | (Some pt0, fl0) \<Rightarrow>
          do {
            (ok1, pt1, fl1) \<leftarrow> mappages pt0 TRAMPOLINE tramp (PTE_R OR PTE_X) fl0;
            (if \<not> ok1 then do { fl2 \<leftarrow> uvmfree pt1 0 fl1; Some (None, fl2) }
             else do {
               (ok2, pt2, fl2) \<leftarrow> mappages pt1 TRAPFRAME \<lparr>pg_pa = trapframe, pg_flags = 0, pg_data = zero_page\<rparr> (PTE_R OR PTE_W) fl1;
               (if \<not> ok2 then do {
                  (pt3, fl3) \<leftarrow> uvmunmap pt2 TRAMPOLINE 1 False fl2;
                  fl4 \<leftarrow> uvmfree pt3 0 fl3;
                  Some (None, fl4)
                }
                else Some (Some pt2, fl2))
             })
          })"

definition freeproc :: "nat \<Rightarrow> kst \<Rightarrow> kst option" where
  "freeproc i s =
     (let p = pr s i; fl = (if p_trapframe p \<noteq> 0 then kfree (p_trapframe p) (ks_freelist s) else ks_freelist s)
      in do {
           fl' \<leftarrow> (if pt_root (p_pagetable p) \<noteq> 0 then proc_freepagetable (p_pagetable p) (p_sz p) fl else Some fl);
           Some (upd_proc i (\<lambda>p. (agent_init_proc (p\<lparr>p_trapframe := 0, p_pagetable := null_pagetable, p_sz := 0,
             p_pid := 0, p_parent := None, p_name := [], p_chan := NoChan, p_killed := False, p_xstate := 0\<rparr>))
               \<lparr>p_state := UNUSED\<rparr>) (s\<lparr>ks_freelist := fl'\<rparr>))
         })"

definition allocproc :: "upage \<Rightarrow> kst \<Rightarrow> (nat option \<times> kst) option" where
  "allocproc tramp s =
     (case first_slot (\<lambda>p. p_state p = UNUSED) (ks_procs s) of
        None \<Rightarrow> Some (None, s)
      | Some i \<Rightarrow>
          let (pid, s1) = allocpid s;
              s2 = upd_proc i (\<lambda>p. agent_init_proc (p\<lparr>p_pid := pid, p_state := USED\<rparr>)) s1
          in (case kalloc (ks_freelist s2) of
                (None, _) \<Rightarrow> do { s3 \<leftarrow> freeproc i (upd_proc i (\<lambda>p. p\<lparr>p_trapframe := 0\<rparr>) s2); Some (None, s3) }
              | (Some tf, fl) \<Rightarrow>
                  do {
                    (pt, fl1) \<leftarrow> proc_pagetable tramp tf fl;
                    let s3 = upd_proc i (\<lambda>p. p\<lparr>p_trapframe := tf\<rparr>) (s2\<lparr>ks_freelist := fl1\<rparr>);
                    (case pt of
                       None \<Rightarrow> do { s4 \<leftarrow> freeproc i (upd_proc i (\<lambda>p. p\<lparr>p_pagetable := null_pagetable\<rparr>) s3); Some (None, s4) }
                     | Some t \<Rightarrow> Some (Some i, upd_proc i (\<lambda>p. p\<lparr>p_pagetable := t\<rparr>) s3))
                  }))"

definition growproc :: "nat \<Rightarrow> int \<Rightarrow> kst \<Rightarrow> (int \<times> kst) option" where
  "growproc i n s =
     (let p = pr s i; sz = p_sz p; target = sz + u64_of_int n
      in if n > 0 then
           do {
             (r, pt, fl) \<leftarrow> uvmalloc (p_pagetable p) sz target PTE_W (ks_freelist s);
             let s1 = upd_proc i (\<lambda>p. p\<lparr>p_pagetable := pt\<rparr>) (s\<lparr>ks_freelist := fl\<rparr>);
             Some (if r = 0 then (-1, s1) else (0, upd_proc i (\<lambda>p. p\<lparr>p_sz := r\<rparr>) s1))
           }
         else if n < 0 then
           do {
             (r, pt, fl) \<leftarrow> uvmdealloc (p_pagetable p) sz target (ks_freelist s);
             Some (0, upd_proc i (\<lambda>p. p\<lparr>p_pagetable := pt, p_sz := r\<rparr>) (s\<lparr>ks_freelist := fl\<rparr>))
           }
         else Some (0, s))"

subsection \<open>Children\<close>

definition reparent :: "nat \<Rightarrow> nat \<Rightarrow> kst \<Rightarrow> kst" where
  "reparent initproc i s =
     (if \<exists>p \<in> set (ks_procs s). p_parent p = Some i
      then wakeup i (ChanProc initproc) (for_procs (\<lambda>p. p_parent p = Some i) (\<lambda>p. p\<lparr>p_parent := Some initproc\<rparr>) s)
      else s)"

text \<open>One scan of \<open>wait\<close>: \<open>Inl\<close> it returns, \<open>Inr\<close> it sleeps on itself.\<close>

definition wait_scan :: "nat \<Rightarrow> u64 \<Rightarrow> kst \<Rightarrow> ((int \<times> kst) + kst) option" where
  "wait_scan i addr s =
     (case first_slot (\<lambda>p. p_parent p = Some i \<and> p_state p = ZOMBIE) (ks_procs s) of
        Some k \<Rightarrow>
          let (ok, s1) = (if addr \<noteq> 0 then copyout_proc i addr (le32 (word_of_int (p_xstate (pr s k)))) s else (True, s))
          in if \<not> ok then Some (Inl (-1, s1))
             else do { s2 \<leftarrow> freeproc k s1; Some (Inl (p_pid (pr s k), s2)) }
      | None \<Rightarrow>
          if \<not> (\<exists>p \<in> set (ks_procs s). p_parent p = Some i) \<or> p_killed (pr s i) then Some (Inl (-1, s))
          else Some (Inr (sleep_on i (ChanProc i) s)))"

subsection \<open>Killing\<close>

definition kill :: "int \<Rightarrow> kst \<Rightarrow> int \<times> kst" where
  "kill pid s =
     (case first_slot (\<lambda>p. p_pid p = pid) (ks_procs s) of
        None \<Rightarrow> (-1, s)
      | Some k \<Rightarrow> (0, upd_proc k (\<lambda>p. let p1 = p\<lparr>p_killed := True\<rparr>
                     in if p_state p1 = SLEEPING then p1\<lparr>p_state := RUNNABLE\<rparr> else p1) s))"

definition setkilled :: "nat \<Rightarrow> kst \<Rightarrow> kst" where
  "setkilled i s = upd_proc i (\<lambda>p. p\<lparr>p_killed := True\<rparr>) s"

subsection \<open>The scheduler\<close>

text \<open>One step of the scan: the best candidate so far with its score, and the states the scoring
  leaves behind.\<close>

definition sched_step :: "u64 \<Rightarrow> nat \<Rightarrow> (nat \<times> int) option \<times> kst \<Rightarrow> (nat \<times> int) option \<times> kst" where
  "sched_step now i = (\<lambda>(best, s).
     if p_state (pr s i) = RUNNABLE
     then let (score, p) = agent_schedule_score now (pr s i); s1 = upd_proc i (\<lambda>_. p) s
          in (case best of
                None \<Rightarrow> (Some (i, score), s1)
              | Some (b, bs) \<Rightarrow> (if score > bs then Some (i, score) else Some (b, bs), s1))
     else (best, s))"

definition scheduler_pick :: "u64 \<Rightarrow> kst \<Rightarrow> (nat \<times> int) option \<times> kst" where
  "scheduler_pick now s = fold (sched_step now) [0..<length (ks_procs s)] (None, s)"

definition scheduler_run :: "nat \<Rightarrow> kst \<Rightarrow> kst" where
  "scheduler_run i s = upd_proc i (\<lambda>p. p\<lparr>p_state := RUNNING, runnable_since := 0\<rparr>) s"

text \<open>After the process gave the processor back.\<close>

definition sched_account :: "u64 \<Rightarrow> proc \<Rightarrow> proc" where
  "sched_account now p =
     (if agent_type p = AGENT_TYPE_NORMAL then p
      else
        let p1 = (if agent_sched_quota p > 0 \<and> agent_sched_budget p > 0
                  then p\<lparr>agent_sched_budget := agent_sched_budget p - 1\<rparr> else p);
            p2 = p1\<lparr>agent_sched_vruntime := agent_sched_vruntime p1 + 1, agent_sched_last_run := now\<rparr>;
            p3 = (if budget_replenish_deadline p2 = 0 \<and> agent_sched_quota p2 > 0
                  then p2\<lparr>budget_replenish_deadline := now + AGENT_SCHED_BUDGET_REPLENISH_INTERVAL\<rparr> else p2)
        in if agent_sched_boost p3 > 0 then p3\<lparr>agent_sched_boost := agent_sched_boost p3 - 1\<rparr> else p3)"

definition yield :: "nat \<Rightarrow> kst \<Rightarrow> kst" where
  "yield i s = upd_proc i (\<lambda>p. p\<lparr>p_state := RUNNABLE\<rparr>) s"

subsection \<open>Properties of the scheduler\<close>

abbreviation sched_score :: "u64 \<Rightarrow> proc \<Rightarrow> int" where
  "sched_score now p \<equiv> fst (agent_schedule_score now p)"

lemma schedule_score_state [simp]: "p_state (snd (agent_schedule_score now p)) = p_state p"
  by (simp add: agent_schedule_score_def Let_def)

text \<open>The best of the first \<open>n\<close> entries.\<close>

definition best_of :: "u64 \<Rightarrow> kst \<Rightarrow> nat \<Rightarrow> (nat \<times> int) option \<Rightarrow> bool" where
  "best_of now s n best =
     (case best of
        None \<Rightarrow> \<forall>j < n. p_state (pr s j) \<noteq> RUNNABLE
      | Some (i, score) \<Rightarrow> i < n \<and> p_state (pr s i) = RUNNABLE \<and> score = sched_score now (pr s i) \<and>
          (\<forall>j < n. p_state (pr s j) = RUNNABLE \<longrightarrow> sched_score now (pr s j) \<le> score) \<and>
          (\<forall>j < i. p_state (pr s j) = RUNNABLE \<longrightarrow> sched_score now (pr s j) < score))"

lemma best_of_skip: "best_of now s n best \<Longrightarrow> p_state (pr s n) \<noteq> RUNNABLE \<Longrightarrow> best_of now s (Suc n) best"
  by (auto simp: best_of_def less_Suc_eq split: option.splits)

lemma best_of_step:
  assumes "best_of now s n best" "p_state (pr s n) = RUNNABLE"
  shows "best_of now s (Suc n) (case best of
      None \<Rightarrow> Some (n, sched_score now (pr s n))
    | Some (b, bs) \<Rightarrow> if sched_score now (pr s n) > bs then Some (n, sched_score now (pr s n)) else Some (b, bs))"
  using assms by (cases best) (force simp: best_of_def less_Suc_eq)+

lemma sched_scan:
  assumes "n \<le> length (ks_procs s)"
  shows "\<exists>best t. fold (sched_step now) [0..<n] (None, s) = (best, t) \<and> best_of now s n best \<and>
    length (ks_procs t) = length (ks_procs s) \<and> (\<forall>j \<ge> n. pr t j = pr s j) \<and> (\<forall>j. p_state (pr t j) = p_state (pr s j))"
  using assms
proof (induction n)
  case 0
  then show ?case by (simp add: best_of_def)
next
  case (Suc n)
  then obtain best t where IH: "fold (sched_step now) [0..<n] (None, s) = (best, t)" "best_of now s n best"
    "length (ks_procs t) = length (ks_procs s)" "\<forall>j \<ge> n. pr t j = pr s j" "\<forall>j. p_state (pr t j) = p_state (pr s j)"
    by auto
  have same: "pr t n = pr s n" using IH(4) by simp
  have step: "fold (sched_step now) [0..<Suc n] (None, s) = sched_step now n (best, t)"
    using IH(1) by simp
  show ?case
  proof (cases "p_state (pr s n) = RUNNABLE")
    case False
    then have "sched_step now n (best, t) = (best, t)" using same by (simp add: sched_step_def)
    then show ?thesis using IH(3-5) step best_of_skip [OF IH(2) False] by simp
  next
    case True
    let ?b = "case best of None \<Rightarrow> Some (n, sched_score now (pr s n))
      | Some (b, bs) \<Rightarrow> if sched_score now (pr s n) > bs then Some (n, sched_score now (pr s n)) else Some (b, bs)"
    let ?t = "upd_proc n (\<lambda>_. snd (agent_schedule_score now (pr s n))) t"
    have "sched_step now n (best, t) = (?b, ?t)"
      using True same by (simp add: sched_step_def case_prod_beta Let_def split: option.splits)
    moreover have "pr ?t j = (if j = n then snd (agent_schedule_score now (pr s n)) else pr t j)" for j
      using Suc.prems IH(3) by simp
    then have "\<forall>j \<ge> Suc n. pr ?t j = pr s j" "\<forall>j. p_state (pr ?t j) = p_state (pr s j)"
      using IH(4,5) by auto
    ultimately show ?thesis using step best_of_step [OF IH(2) True] IH(3)
      by (intro exI [of _ ?b] exI [of _ ?t]) simp
  qed
qed

text \<open>C23 (scheduler_picks_best). The scheduler picks a process exactly when one is runnable; the one it picks is
  runnable, no runnable process has a higher score, and among equals it is the first of the table. Looking for
  it changes no process's state.\<close>

theorem scheduler_picks_best:
  "case scheduler_pick now s of (best, t) \<Rightarrow>
     (\<forall>j. p_state (pr t j) = p_state (pr s j)) \<and>
     (case best of
        None \<Rightarrow> \<forall>j < length (ks_procs s). p_state (pr s j) \<noteq> RUNNABLE
      | Some (i, score) \<Rightarrow> i < length (ks_procs s) \<and> p_state (pr s i) = RUNNABLE \<and>
          score = fst (agent_schedule_score now (pr s i)) \<and>
          (\<forall>j < length (ks_procs s). p_state (pr s j) = RUNNABLE \<longrightarrow> fst (agent_schedule_score now (pr s j)) \<le> score) \<and>
          (\<forall>j < i. p_state (pr s j) = RUNNABLE \<longrightarrow> fst (agent_schedule_score now (pr s j)) < score))"
  using sched_scan [OF order_refl, where s = s and now = now] unfolding scheduler_pick_def best_of_def by auto

theorem scheduler_picks_best_witness:
  "fst (scheduler_pick 0 (boot_kst [(wit_agent 1)\<lparr>p_state := RUNNABLE\<rparr>])) \<noteq> None"
proof -
  let ?s = "boot_kst [(wit_agent 1)\<lparr>p_state := RUNNABLE\<rparr>]"
  have r: "p_state (pr ?s 0) = RUNNABLE" by simp
  show ?thesis
  proof
    assume "fst (scheduler_pick 0 ?s) = None"
    then have "\<forall>j < length (ks_procs ?s). p_state (pr ?s j) \<noteq> RUNNABLE"
      using scheduler_picks_best [where now = 0 and s = ?s] by (auto split: prod.splits)
    moreover have "0 < length (ks_procs ?s)" by simp
    ultimately show False using r by blast
  qed
qed

end
