(* ===== verification/Lifecycle.thy ===== *)
theory Lifecycle
  imports Mmap Processes
begin

text \<open>
  The life of a process (kernel/proc.c): the first process, \<open>fork\<close> and \<open>exit\<close> as a whole, with the memory,
  the open files, the mapped areas and the agent state they hand over or give back. Saved registers are not
  part of the model.
\<close>

subsection \<open>The first process\<close>

definition uvmfirst :: "upagetable \<Rightarrow> string \<Rightarrow> u64 list \<Rightarrow> (upagetable \<times> u64 list) option" where
  "uvmfirst pt src fl =
     (if length src \<ge> 4096 then None
      else case kalloc fl of
        (None, _) \<Rightarrow> None
      | (Some mem, fl1) \<Rightarrow>
          map_option (\<lambda>(_, pt1, fl2). (pt1, fl2))
            (mappages pt 0 \<lparr>pg_pa = mem, pg_flags = 0, pg_data = store_bytes 0 src zero_page\<rparr>
               (PTE_W OR PTE_R OR PTE_X OR PTE_U) fl1))"

text \<open>The result is the index of the first process, \<open>initproc\<close>.\<close>

definition userinit :: "upage \<Rightarrow> string \<Rightarrow> kst \<Rightarrow> (nat \<times> kst) option" where
  "userinit tramp initcode s =
     do {
       (r, s1) \<leftarrow> allocproc tramp s;
       i \<leftarrow> r;
       (pt, fl) \<leftarrow> uvmfirst (p_pagetable (pr s1 i)) initcode (ks_freelist s1);
       (cwd, fs) \<leftarrow> namei 0 ''/'' (ks_fs s1);
       Some (i, upd_proc i (\<lambda>p. p\<lparr>p_pagetable := pt, p_sz := 4096, p_name := safestr 16 ''initcode'',
                  p_cwd := cwd, p_state := RUNNABLE\<rparr>) (s1\<lparr>ks_freelist := fl, ks_fs := fs\<rparr>))
     }"

subsection \<open>Fork\<close>

fun dup_files :: "nat option list \<Rightarrow> kst \<Rightarrow> kst option" where
  "dup_files [] s = Some s"
| "dup_files (f # fs) s =
     (case f of None \<Rightarrow> dup_files fs s
      | Some k \<Rightarrow> (case filedup k s of None \<Rightarrow> None | Some s1 \<Rightarrow> dup_files fs s1))"

text \<open>The chain of areas of the parent from \<open>src\<close> on, appended to the child's chain after \<open>pre\<close>.\<close>

fun copy_vmas :: "nat \<Rightarrow> nat \<Rightarrow> nat option \<Rightarrow> nat option \<Rightarrow> kst \<Rightarrow> kst option" where
  "copy_vmas 0 d src pre s = None"
| "copy_vmas (Suc fuel) d src pre s =
     (case src of
        None \<Rightarrow> Some s
      | Some w \<Rightarrow>
          (case vma_alloc s of
             None \<Rightarrow> None
           | Some v \<Rightarrow>
               (case filedup (vm_file (vma_of s w)) (upd_vma v (\<lambda>_. (vma_of s w)\<lparr>vm_next := None\<rparr>) s) of
                  None \<Rightarrow> None
                | Some s1 \<Rightarrow>
                    let s2 = (case pre of
                         None \<Rightarrow> upd_proc d (\<lambda>p. p\<lparr>p_vma := Some v\<rparr>) s1
                       | Some b \<Rightarrow> upd_vma b (\<lambda>a. a\<lparr>vm_next := Some v\<rparr>) s1)
                    in copy_vmas fuel d (vm_next (vma_of s2 w)) (Some v) s2)))"

definition fork :: "upage \<Rightarrow> nat \<Rightarrow> kst \<Rightarrow> (int \<times> kst) option" where
  "fork tramp i s =
     do {
       (r, s1) \<leftarrow> allocproc tramp s;
       (case r of
          None \<Rightarrow> Some (-1, s1)
        | Some d \<Rightarrow>
            do {
              (ok, pt, fl) \<leftarrow> uvmcopy (p_pagetable (pr s1 i)) (p_pagetable (pr s1 d)) (p_sz (pr s1 i)) (ks_freelist s1);
              let s2 = upd_proc d (\<lambda>p. p\<lparr>p_pagetable := pt\<rparr>) (s1\<lparr>ks_freelist := fl\<rparr>);
              if \<not> ok then do { s3 \<leftarrow> freeproc d s2; Some (-1, s3) }
              else do {
                let s3 = agent_after_fork d i (upd_proc d (\<lambda>p. p\<lparr>p_sz := p_sz (pr s2 i)\<rparr>) s2);
                s4 \<leftarrow> dup_files (p_ofile (pr s3 i)) s3;
                cwd \<leftarrow> p_cwd (pr s4 i);
                let s5 = upd_proc d (\<lambda>p. p\<lparr>p_ofile := p_ofile (pr s4 i), p_cwd := Some cwd,
                           p_name := safestr 16 (p_name (pr s4 i)), p_parent := Some i, p_state := RUNNABLE,
                           p_vma := None\<rparr>) (s4\<lparr>ks_fs := idup cwd (ks_fs s4)\<rparr>);
                s6 \<leftarrow> copy_vmas VMA_FUEL d (p_vma (pr s5 i)) None s5;
                Some (p_pid (pr s5 d), s6)
              }
            })
     }"

subsection \<open>Exit\<close>

text \<open>\<open>writeback\<close> takes the length as an \<open>int\<close>.\<close>

fun exit_vmas :: "nat \<Rightarrow> nat \<Rightarrow> nat option \<Rightarrow> kst \<Rightarrow> kst option" where
  "exit_vmas 0 i v s = None"
| "exit_vmas (Suc fuel) i v s =
     (case v of
        None \<Rightarrow> Some s
      | Some w \<Rightarrow>
          (case writeback i w (vm_start (vma_of s w)) (sint (ucast (vm_length (vma_of s w)) :: u32)) s of
             None \<Rightarrow> None
           | Some s1 \<Rightarrow>
               (case unmap_pages i (vm_start (vma_of s1 w)) (unat (PGROUNDUP (vm_length (vma_of s1 w)) div 4096)) s1 of
                  None \<Rightarrow> None
                | Some s2 \<Rightarrow>
                    (case fileclose i (vm_file (vma_of s2 w)) s2 of
                       None \<Rightarrow> None
                     | Some s3 \<Rightarrow> exit_vmas fuel i (vm_next (vma_of s3 w))
                                    (upd_vma w (\<lambda>a. a\<lparr>vm_next := None, vm_length := 0\<rparr>) s3)))))"

fun close_files :: "nat \<Rightarrow> nat list \<Rightarrow> kst \<Rightarrow> kst option" where
  "close_files i [] s = Some s"
| "close_files i (fd # fds) s =
     (case p_ofile (pr s i) ! fd of
        None \<Rightarrow> close_files i fds s
      | Some f \<Rightarrow> (case fileclose i f s of
                    None \<Rightarrow> None
                  | Some s1 \<Rightarrow> close_files i fds (set_fd i fd None s1)))"

definition exit :: "nat \<Rightarrow> nat \<Rightarrow> int \<Rightarrow> kst \<Rightarrow> kst option" where
  "exit initproc i status s =
     (if i = initproc then None
      else do {
        s1 \<leftarrow> exit_vmas VMA_FUEL i (p_vma (pr s i)) s;
        s2 \<leftarrow> close_files i [0..<NOFILE] s1;
        cwd \<leftarrow> p_cwd (pr s2 i);
        s3 \<leftarrow> on_fs (iput cwd) s2;
        let s4 = upd_proc i (\<lambda>p. p\<lparr>p_cwd := None\<rparr>) s3;
        let s5 = (if is_workflow_leader (pr s4 i)
                  then snd (agent_cascade_terminate (Some i) AGENT_CASCADE_PLANNER_EXIT False s4) else s4);
        s6 \<leftarrow> agent_proc_exit i s5;
        let s7 = reparent initproc i s6;
        let s8 = (case p_parent (pr s7 i) of None \<Rightarrow> s7 | Some q \<Rightarrow> wakeup i (ChanProc q) s7);
        Some (upd_proc i (\<lambda>p. p\<lparr>p_xstate := status, p_state := ZOMBIE\<rparr>) s8)
      })"

end
