(* ===== verification/Exec.thy ===== *)
theory Exec
  imports Mmap Processes
begin

text \<open>
  Replacing the image of a process (kernel/exec.c): the ELF header and program headers are read from the file
  as little-endian fields, the segments are loaded into a new page table, the arguments go onto a new stack,
  and only then is the old image given up. The model does not set the saved registers. The lemmas show that a
  failed \<open>exec\<close> leaves every process as it was, and that a successful one starts with an empty Context.
\<close>

abbreviation (input) ELF_MAGIC :: nat where "ELF_MAGIC \<equiv> 0x464C457F"
abbreviation (input) ELF_PROG_LOAD :: nat where "ELF_PROG_LOAD \<equiv> 1"
abbreviation (input) MAXARG :: nat where "MAXARG \<equiv> 32"

text \<open>A little-endian field of a header.\<close>

definition field :: "nat \<Rightarrow> nat \<Rightarrow> string \<Rightarrow> nat" where
  "field off len bs = le_value (take len (drop off bs))"

record proghdr =
  ph_type :: nat
  ph_flags :: nat
  ph_off :: u64
  ph_vaddr :: u64
  ph_filesz :: u64
  ph_memsz :: u64

definition proghdr_of :: "string \<Rightarrow> proghdr" where
  "proghdr_of bs = \<lparr>ph_type = field 0 4 bs, ph_flags = field 4 4 bs, ph_off = of_nat (field 8 8 bs),
     ph_vaddr = of_nat (field 16 8 bs), ph_filesz = of_nat (field 32 8 bs), ph_memsz = of_nat (field 40 8 bs)\<rparr>"

definition flags2perm :: "nat \<Rightarrow> u64" where
  "flags2perm flags = (if odd flags then PTE_X else 0) OR (if odd (flags div 2) then PTE_W else 0)"

text \<open>\<open>loadseg\<close>: page by page into memory that is mapped; a page that is not is a panic.\<close>

function loadseg :: "nat \<Rightarrow> u64 \<Rightarrow> u32 \<Rightarrow> nat \<Rightarrow> nat \<Rightarrow> upagetable \<Rightarrow> fsk \<Rightarrow> (bool \<times> upagetable \<times> fsk) option" where
  "loadseg ip va offset sz k pt fs =
     (if k < sz
      then case walkaddr pt (va + of_nat k) of
             None \<Rightarrow> None
           | Some _ \<Rightarrow>
               let n = min (sz - k) 4096
               in (case readi_kernel ip (offset + of_nat k) (of_nat n) fs of
                     None \<Rightarrow> None
                   | Some (r, bs, fs1) \<Rightarrow>
                       let pt1 = set_page pt (PGROUNDDOWN (va + of_nat k)) (store_bytes 0 bs)
                       in if r \<noteq> int n then Some (False, pt1, fs1) else loadseg ip va offset sz (k + 4096) pt1 fs1)
      else Some (True, pt, fs))"
  by pat_completeness auto
termination
  by (relation "measure (\<lambda>(ip, va, offset, sz, k, pt, fs). sz - k)") auto

declare loadseg.simps [simp del]

text \<open>The program headers from the \<open>n\<close>-th last on; the result is the page table, the size so far and whether all
  went well.\<close>

fun load_segments :: "nat \<Rightarrow> u32 \<Rightarrow> nat \<Rightarrow> u64 \<Rightarrow> upagetable \<Rightarrow> u64 list \<Rightarrow> fsk \<Rightarrow>
    (bool \<times> u64 \<times> upagetable \<times> u64 list \<times> fsk) option" where
  "load_segments ip off 0 sz pt fl fs = Some (True, sz, pt, fl, fs)"
| "load_segments ip off (Suc n) sz pt fl fs =
     (case readi_kernel ip off 56 fs of
        None \<Rightarrow> None
      | Some (r, bs, fs1) \<Rightarrow>
          let ph = proghdr_of bs
          in if r \<noteq> 56 then Some (False, sz, pt, fl, fs1)
             else if ph_type ph \<noteq> ELF_PROG_LOAD then load_segments ip (off + 56) n sz pt fl fs1
             else if ph_memsz ph < ph_filesz ph \<or> ph_vaddr ph + ph_memsz ph < ph_vaddr ph \<or> ph_vaddr ph AND 4095 \<noteq> 0
             then Some (False, sz, pt, fl, fs1)
             else (case uvmalloc pt sz (ph_vaddr ph + ph_memsz ph) (flags2perm (ph_flags ph)) fl of
                     None \<Rightarrow> None
                   | Some (sz1, pt1, fl1) \<Rightarrow>
                       if sz1 = 0 then Some (False, sz, pt1, fl1, fs1)
                       else (case loadseg ip (ph_vaddr ph) (ucast (ph_off ph)) (unat (ucast (ph_filesz ph) :: u32)) 0 pt1 fs1 of
                               None \<Rightarrow> None
                             | Some (False, pt2, fs2) \<Rightarrow> Some (False, sz1, pt2, fl1, fs2)
                             | Some (True, pt2, fs2) \<Rightarrow> load_segments ip (off + 56) n sz1 pt2 fl1 fs2)))"

text \<open>The argument strings, from the \<open>argc\<close>-th on: the stack pointer and the addresses pushed.\<close>

fun push_args :: "string list \<Rightarrow> nat \<Rightarrow> u64 \<Rightarrow> u64 \<Rightarrow> u64 list \<Rightarrow> upagetable \<Rightarrow> (u64 \<times> u64 list) option \<times> upagetable" where
  "push_args [] argc stackbase sp ustack pt = (Some (sp, ustack), pt)"
| "push_args (a # as) argc stackbase sp ustack pt =
     (let sp1 = sp - of_nat (strlen a + 1); sp2 = sp1 - sp1 mod 16
      in if argc \<ge> MAXARG \<or> sp2 < stackbase then (None, pt)
         else case copyout pt sp2 (cstr a @ [NUL]) of
                (False, pt1) \<Rightarrow> (None, pt1)
              | (True, pt1) \<Rightarrow> push_args as (Suc argc) stackbase sp2 (ustack @ [sp2]) pt1)"

definition push_stack :: "string list \<Rightarrow> u64 \<Rightarrow> upagetable \<Rightarrow> bool \<times> upagetable" where
  "push_stack argv sz pt =
     (let stackbase = sz - 4096
      in case push_args argv 0 stackbase sz [] pt of
           (None, pt1) \<Rightarrow> (False, pt1)
         | (Some (sp, ustack), pt1) \<Rightarrow>
             let sp1 = sp - of_nat (8 * (length argv + 1)); sp2 = sp1 - sp1 mod 16
             in if sp2 < stackbase then (False, pt1)
                else copyout pt1 sp2 (concat (map le64 (ustack @ [0]))))"

text \<open>The name of the program: what follows the last slash.\<close>

definition last_elem :: "string \<Rightarrow> string" where
  "last_elem path = rev (takeWhile (\<lambda>c. c \<noteq> CHR ''/'') (rev (cstr path)))"

text \<open>\<open>bad:\<close> frees what was built.\<close>

definition exec_bad :: "(upagetable \<times> u64) option \<Rightarrow> nat option \<Rightarrow> kst \<Rightarrow> (int \<times> kst) option" where
  "exec_bad img ip s =
     do {
       s1 \<leftarrow> (case img of
              None \<Rightarrow> Some s
            | Some (pt, sz) \<Rightarrow> map_option (\<lambda>fl. s\<lparr>ks_freelist := fl\<rparr>) (proc_freepagetable pt sz (ks_freelist s)));
       s2 \<leftarrow> (case ip of None \<Rightarrow> Some s1 | Some k \<Rightarrow> on_fs (iunlockput k) s1);
       Some (-1, s2)
     }"

definition exec_commit :: "nat \<Rightarrow> string \<Rightarrow> string list \<Rightarrow> u64 \<Rightarrow> upagetable \<Rightarrow> kst \<Rightarrow> (int \<times> kst) option" where
  "exec_commit i path argv sz pt s =
     do {
       fl \<leftarrow> proc_freepagetable (p_pagetable (pr s i)) (p_sz (pr s i)) (ks_freelist s);
       Some (int (length argv), upd_proc i (\<lambda>p. agent_after_exec (p\<lparr>p_name := safestr 16 (last_elem path),
               p_pagetable := pt, p_sz := sz\<rparr>)) (s\<lparr>ks_freelist := fl\<rparr>))
     }"

text \<open>The stack: two pages, the lower one a guard.\<close>

definition exec_stack :: "nat \<Rightarrow> string \<Rightarrow> string list \<Rightarrow> u64 \<Rightarrow> upagetable \<Rightarrow> kst \<Rightarrow> (int \<times> kst) option" where
  "exec_stack i path argv sz0 pt s =
     (let sz = PGROUNDUP sz0
      in do {
        (sz1, pt1, fl) \<leftarrow> uvmalloc pt sz (sz + 8192) PTE_W (ks_freelist s);
        let s1 = s\<lparr>ks_freelist := fl\<rparr>;
        if sz1 = 0 then exec_bad (Some (pt1, sz)) None s1
        else do {
          pt2 \<leftarrow> uvmclear pt1 (sz1 - 8192);
          (case push_stack argv sz1 pt2 of
             (False, pt3) \<Rightarrow> exec_bad (Some (pt3, sz1)) None s1
           | (True, pt3) \<Rightarrow> exec_commit i path argv sz1 pt3 s1)
        }
      })"

text \<open>From the new page table on: the segments, then the stack.\<close>

definition exec_load :: "nat \<Rightarrow> string \<Rightarrow> string list \<Rightarrow> nat \<Rightarrow> string \<Rightarrow> upagetable option \<Rightarrow> kst \<Rightarrow> (int \<times> kst) option" where
  "exec_load i path argv ip hdr t s =
     (case t of
        None \<Rightarrow> exec_bad None (Some ip) s
      | Some pt \<Rightarrow>
          do {
            (ok, sz, pt1, fl, fs) \<leftarrow> load_segments ip (of_nat (field 32 8 hdr)) (field 56 2 hdr) 0 pt (ks_freelist s) (ks_fs s);
            let s1 = s\<lparr>ks_freelist := fl, ks_fs := fs\<rparr>;
            if \<not> ok then exec_bad (Some (pt1, sz)) (Some ip) s1
            else do {
              s2 \<leftarrow> on_fs (iunlockput ip) s1;
              exec_stack i path argv sz pt1 s2
            }
          })"

definition exec :: "upage \<Rightarrow> nat \<Rightarrow> string \<Rightarrow> string list \<Rightarrow> kst \<Rightarrow> (int \<times> kst) option" where
  "exec tramp i path argv s =
     do {
       (r, s1) \<leftarrow> fs_namei i path s;
       (case r of
          None \<Rightarrow> Some (-1, s1)
        | Some ip \<Rightarrow>
            do {
              s2 \<leftarrow> on_fs (ilock ip) s1;
              (n, hdr, fs) \<leftarrow> readi_kernel ip 0 64 (ks_fs s2);
              let s3 = s2\<lparr>ks_fs := fs\<rparr>;
              if n \<noteq> 64 \<or> field 0 4 hdr \<noteq> ELF_MAGIC then exec_bad None (Some ip) s3
              else do {
                (t, fl) \<leftarrow> proc_pagetable tramp (p_trapframe (pr s3 i)) (ks_freelist s3);
                let s4 = s3\<lparr>ks_freelist := fl\<rparr>;
                exec_load i path argv ip hdr t s4
              }
            })
     }"

subsection \<open>All or nothing\<close>

lemma exec_bad_procs: "exec_bad img ip s = Some (r, t) \<Longrightarrow> r = -1 \<and> ks_procs t = ks_procs s"
  by (auto simp: exec_bad_def bind_eq_Some_conv on_fs_def split: option.splits)

text \<open>What \<open>exec\<close> leaves of a process, and what it resets.\<close>

definition replaced :: "proc \<Rightarrow> proc \<Rightarrow> bool" where
  "replaced p q \<longleftrightarrow>
     context_region_start q = 0 \<and> context_path_len q = 0 \<and> context_node_count q = 0 \<and>
     context_digest_count q = 0 \<and> \<not> pending_context_dep q \<and>
     p_pid q = p_pid p \<and> p_state q = p_state p \<and> p_parent q = p_parent p \<and> p_ofile q = p_ofile p \<and>
     agent_type q = agent_type p \<and> agent_role q = agent_role p \<and> agent_capabilities q = agent_capabilities p \<and>
     workflow_id q = workflow_id p \<and> workflow_leader_generation q = workflow_leader_generation p \<and>
     workflow_member_registered q = workflow_member_registered p \<and> mailbox q = mailbox p \<and>
     heartbeat_wheel_active q = heartbeat_wheel_active p \<and> pending_events q = pending_events p"

lemma replaced_after_exec:
  "replaced p (agent_after_exec (p\<lparr>p_name := nm, p_pagetable := pt, p_sz := sz\<rparr>))"
  by (simp add: replaced_def agent_after_exec_def clear_pending_dep_def digest_clear_def)

lemma exec_commit_procs:
  assumes "exec_commit i path argv sz pt s = Some (r, t)" "i < length (ks_procs s)"
  shows "r = int (length argv) \<and> (\<forall>j. j \<noteq> i \<longrightarrow> pr t j = pr s j) \<and> replaced (pr s i) (pr t i)"
  using assms by (auto simp: exec_commit_def bind_eq_Some_conv upd_proc_def replaced_after_exec)

lemma exec_stack_procs:
  assumes "exec_stack i path argv sz pt s = Some (r, t)" "i < length (ks_procs s)"
  shows "r = -1 \<and> ks_procs t = ks_procs s \<or>
    r = int (length argv) \<and> (\<forall>j. j \<noteq> i \<longrightarrow> pr t j = pr s j) \<and> replaced (pr s i) (pr t i)"
proof -
  obtain a pt1 fl where u: "uvmalloc pt (PGROUNDUP sz) (PGROUNDUP sz + 8192) PTE_W (ks_freelist s) = Some (a, pt1, fl)"
    using assms(1) by (auto simp: exec_stack_def bind_eq_Some_conv Let_def)
  show ?thesis
  proof (cases "a = 0")
    case True
    with assms(1) u show ?thesis by (auto simp: exec_stack_def dest!: exec_bad_procs)
  next
    case False
    with assms(1) u obtain pt2 where c: "uvmclear pt1 (a - 8192) = Some pt2"
      by (auto simp: exec_stack_def bind_eq_Some_conv Let_def)
    obtain ok pt3 where p: "push_stack argv a pt2 = (ok, pt3)" by force
    have "(if ok then exec_commit i path argv a pt3 (s\<lparr>ks_freelist := fl\<rparr>)
        else exec_bad (Some (pt3, a)) None (s\<lparr>ks_freelist := fl\<rparr>)) = Some (r, t)"
      using assms(1) u False c p by (cases ok) (simp_all add: exec_stack_def)
    then show ?thesis
      using assms(2) exec_bad_procs [of _ _ "s\<lparr>ks_freelist := fl\<rparr>"] exec_commit_procs [of _ _ _ _ _ "s\<lparr>ks_freelist := fl\<rparr>"]
      by (cases ok) force+
  qed
qed

lemma exec_load_procs:
  assumes "exec_load i path argv ip hdr pt s = Some (r, t)" "i < length (ks_procs s)"
  shows "r = -1 \<and> ks_procs t = ks_procs s \<or>
    r = int (length argv) \<and> (\<forall>j. j \<noteq> i \<longrightarrow> pr t j = pr s j) \<and> replaced (pr s i) (pr t i)"
proof (cases pt)
  case None
  with assms show ?thesis by (auto simp: exec_load_def dest!: exec_bad_procs)
next
  case (Some p)
  then obtain ok sz p1 fl fs where l: "load_segments ip (of_nat (field 32 8 hdr)) (field 56 2 hdr) 0 p (ks_freelist s) (ks_fs s)
      = Some (ok, sz, p1, fl, fs)"
    using assms(1) by (auto simp: exec_load_def bind_eq_Some_conv)
  let ?s = "s\<lparr>ks_freelist := fl, ks_fs := fs\<rparr>"
  show ?thesis
  proof (cases ok)
    case False
    with assms(1) Some l have "exec_bad (Some (p1, sz)) (Some ip) ?s = Some (r, t)" by (simp add: exec_load_def)
    from exec_bad_procs [OF this] show ?thesis by simp
  next
    case True
    with assms(1) Some l obtain u where u: "on_fs (iunlockput ip) ?s = Some u" "exec_stack i path argv sz p1 u = Some (r, t)"
      by (auto simp: exec_load_def bind_eq_Some_conv)
    then have "ks_procs u = ks_procs s" by (auto simp: on_fs_def)
    with exec_stack_procs [OF u(2)] assms(2) show ?thesis by simp
  qed
qed

lemma exec_procs:
  assumes "exec tramp i path argv s = Some (r, t)" and "i < length (ks_procs s)"
  shows "r = -1 \<and> ks_procs t = ks_procs s \<or>
    r = int (length argv) \<and> (\<forall>j. j \<noteq> i \<longrightarrow> pr t j = pr s j) \<and> replaced (pr s i) (pr t i)"
proof -
  obtain ip s1 where n: "fs_namei i path s = Some (ip, s1)" using assms(1) by (auto simp: exec_def bind_eq_Some_conv)
  then have s1: "ks_procs s1 = ks_procs s" by (auto simp: fs_namei_def split: option.splits)
  show ?thesis
  proof (cases ip)
    case None
    with assms n s1 show ?thesis by (simp add: exec_def)
  next
    case (Some k)
    then obtain s2 len hdr fs where l: "on_fs (ilock k) s1 = Some s2" "readi_kernel k 0 64 (ks_fs s2) = Some (len, hdr, fs)"
      using assms n by (auto simp: exec_def bind_eq_Some_conv)
    then have s2: "ks_procs s2 = ks_procs s" using s1 by (auto simp: on_fs_def)
    show ?thesis
    proof (cases "len \<noteq> 64 \<or> field 0 4 hdr \<noteq> ELF_MAGIC")
      case True
      with assms n Some l s2 show ?thesis by (auto simp: exec_def dest!: exec_bad_procs)
    next
      case False
      then obtain pt fl where t: "proc_pagetable tramp (p_trapframe (pr s2 i)) (ks_freelist s2) = Some (pt, fl)"
        using assms n Some l by (auto simp: exec_def bind_eq_Some_conv Let_def)
      let ?s4 = "s2\<lparr>ks_fs := fs, ks_freelist := fl\<rparr>"
      have "exec_load i path argv k hdr pt ?s4 = Some (r, t)"
        using assms n Some l False t by (simp add: exec_def Let_def)
      from exec_load_procs [OF this] assms(2) s2 show ?thesis by simp
    qed
  qed
qed


definition wit_tramp :: upage where
  "wit_tramp = \<lparr>pg_pa = 4096, pg_flags = 0, pg_data = zero_page\<rparr>"

definition wit_fs :: fsk where
  "wit_fs = \<lparr>fk_bitmap = [], fk_dinodes = [], fk_blocks = (\<lambda>_. []),
     fk_itable = [zero_inode\<lparr>di_type := T_DIR, di_nlink := 1, in_ref := 2, in_valid := True\<rparr>]\<rparr>"


end
