(* ===== verification/BufCache.thy ===== *)
theory BufCache
  imports UserMem
begin

text \<open>
  The buffer cache (kernel/bio.c): thirty buffers in a list ordered by use, each a copy of a disk block. A lock on
  a buffer, which makes others wait, is not part of the model. What the cache shows its users is a function from
  block numbers to contents, the number of holders of each block, and the blocks on disk; each operation is
  described by what it does to these three. The disk also records the writes it is given, in order, so that a
  crash can be placed between any two.
\<close>

abbreviation (input) NBUF :: nat where "NBUF \<equiv> 30"

record buf =
  bf_valid :: bool
  bf_dev :: u32
  bf_blockno :: u32
  bf_refcnt :: u32
  bf_data :: string

record store =
  bs_buf :: "buf list"
  bs_lru :: "nat list"
  bs_disk :: "u32 \<Rightarrow> string"
  bs_writes :: "(u32 \<times> string) list"

abbreviation bufi :: "'a store_scheme \<Rightarrow> nat \<Rightarrow> buf" where
  "bufi s i \<equiv> bs_buf s ! i"

definition upd_buf :: "nat \<Rightarrow> (buf \<Rightarrow> buf) \<Rightarrow> 'a store_scheme \<Rightarrow> 'a store_scheme" where
  "upd_buf i f s = s\<lparr>bs_buf := (bs_buf s)[i := f (bufi s i)]\<rparr>"

text \<open>\<open>bcache.head.next\<close> is the first of the list, \<open>head.prev\<close> the last.\<close>

definition buf_of :: "u32 \<Rightarrow> u32 \<Rightarrow> 'a store_scheme \<Rightarrow> nat option" where
  "buf_of dev b s = find (\<lambda>i. bf_dev (bufi s i) = dev \<and> bf_blockno (bufi s i) = b) (bs_lru s)"

definition bget :: "u32 \<Rightarrow> u32 \<Rightarrow> 'a store_scheme \<Rightarrow> (nat \<times> 'a store_scheme) option" where
  "bget dev b s =
     (case buf_of dev b s of
        Some i \<Rightarrow> Some (i, upd_buf i (\<lambda>f. f\<lparr>bf_refcnt := bf_refcnt f + 1\<rparr>) s)
      | None \<Rightarrow>
          (case find (\<lambda>i. bf_refcnt (bufi s i) = 0) (rev (bs_lru s)) of
             Some i \<Rightarrow> Some (i, upd_buf i (\<lambda>f. f\<lparr>bf_dev := dev, bf_blockno := b, bf_valid := False, bf_refcnt := 1\<rparr>) s)
           | None \<Rightarrow> None))"

definition bread :: "u32 \<Rightarrow> u32 \<Rightarrow> 'a store_scheme \<Rightarrow> (nat \<times> 'a store_scheme) option" where
  "bread dev b s =
     (case bget dev b s of
        None \<Rightarrow> None
      | Some (i, s1) \<Rightarrow>
          Some (i, if bf_valid (bufi s1 i) then s1
                   else upd_buf i (\<lambda>f. f\<lparr>bf_data := bs_disk s1 (bf_blockno f), bf_valid := True\<rparr>) s1))"

definition bwrite :: "nat \<Rightarrow> 'a store_scheme \<Rightarrow> 'a store_scheme" where
  "bwrite i s =
     (let f = bufi s i
      in s\<lparr>bs_disk := (bs_disk s)(bf_blockno f := bf_data f), bs_writes := bs_writes s @ [(bf_blockno f, bf_data f)]\<rparr>)"

definition brelse :: "nat \<Rightarrow> 'a store_scheme \<Rightarrow> 'a store_scheme" where
  "brelse i s =
     (let s1 = upd_buf i (\<lambda>f. f\<lparr>bf_refcnt := bf_refcnt f - 1\<rparr>) s
      in if bf_refcnt (bufi s1 i) = 0 then s1\<lparr>bs_lru := i # remove1 i (bs_lru s1)\<rparr> else s1)"

definition bpin :: "nat \<Rightarrow> 'a store_scheme \<Rightarrow> 'a store_scheme" where
  "bpin i = upd_buf i (\<lambda>f. f\<lparr>bf_refcnt := bf_refcnt f + 1\<rparr>)"

definition bunpin :: "nat \<Rightarrow> 'a store_scheme \<Rightarrow> 'a store_scheme" where
  "bunpin i = upd_buf i (\<lambda>f. f\<lparr>bf_refcnt := bf_refcnt f - 1\<rparr>)"

text \<open>What the holder of a buffer does with its bytes.\<close>

definition set_data :: "nat \<Rightarrow> string \<Rightarrow> 'a store_scheme \<Rightarrow> 'a store_scheme" where
  "set_data i d = upd_buf i (\<lambda>f. f\<lparr>bf_data := d\<rparr>)"

text \<open>\<open>binit\<close>: every buffer on the list, none used.\<close>

definition binit :: "buf list \<times> nat list" where
  "binit = (replicate NBUF \<lparr>bf_valid = False, bf_dev = 0, bf_blockno = 0, bf_refcnt = 0, bf_data = []\<rparr>, rev [0..<NBUF])"

subsection \<open>What the cache shows\<close>

text \<open>The buffers that hold blocks of the device; each block is held once, and what is held is valid.\<close>

definition cache_ok :: "u32 \<Rightarrow> 'a store_scheme \<Rightarrow> bool" where
  "cache_ok dev s \<longleftrightarrow> length (bs_buf s) = NBUF \<and> distinct (bs_lru s) \<and> set (bs_lru s) = {..<NBUF} \<and>
     (\<forall>i < NBUF. if bf_dev (bufi s i) = dev then bf_valid (bufi s i) else bf_refcnt (bufi s i) = 0) \<and>
     (\<forall>i < NBUF. \<forall>j < NBUF. bf_dev (bufi s i) = dev \<and> bf_dev (bufi s j) = dev \<and> bf_blockno (bufi s i) = bf_blockno (bufi s j) \<longrightarrow> i = j)"

definition holds :: "u32 \<Rightarrow> 'a store_scheme \<Rightarrow> nat \<Rightarrow> u32 \<Rightarrow> bool" where
  "holds dev s i b \<longleftrightarrow> i < NBUF \<and> bf_dev (bufi s i) = dev \<and> bf_blockno (bufi s i) = b"

definition view :: "u32 \<Rightarrow> 'a store_scheme \<Rightarrow> u32 \<Rightarrow> string" where
  "view dev s b = (case buf_of dev b s of None \<Rightarrow> bs_disk s b | Some i \<Rightarrow> bf_data (bufi s i))"

definition refs :: "u32 \<Rightarrow> 'a store_scheme \<Rightarrow> u32 \<Rightarrow> u32" where
  "refs dev s b = (case buf_of dev b s of None \<Rightarrow> 0 | Some i \<Rightarrow> bf_refcnt (bufi s i))"

text \<open>A block nobody holds is on disk as it is in the cache.\<close>

definition cache_inv :: "u32 \<Rightarrow> 'a store_scheme \<Rightarrow> bool" where
  "cache_inv dev s \<longleftrightarrow> cache_ok dev s \<and> (\<forall>b. refs dev s b = 0 \<longrightarrow> view dev s b = bs_disk s b)"

lemma cache_okD:
  assumes "cache_ok dev s"
  shows "length (bs_buf s) = 30" "distinct (bs_lru s)" "set (bs_lru s) = {..<30}"
    "\<And>i. i < 30 \<Longrightarrow> bf_dev (bufi s i) = dev \<Longrightarrow> bf_valid (bufi s i)"
    "\<And>i. i < 30 \<Longrightarrow> bf_dev (bufi s i) \<noteq> dev \<Longrightarrow> bf_refcnt (bufi s i) = 0"
    "\<And>i j. i < 30 \<Longrightarrow> j < 30 \<Longrightarrow> bf_dev (bufi s i) = dev \<Longrightarrow> bf_dev (bufi s j) = dev \<Longrightarrow>
       bf_blockno (bufi s i) = bf_blockno (bufi s j) \<Longrightarrow> i = j"
  using assms by (auto simp: cache_ok_def split: if_splits)

lemma find_set: "find P xs = Some x \<Longrightarrow> x \<in> set xs \<and> P x" "find P xs = None \<longleftrightarrow> (\<forall>x \<in> set xs. \<not> P x)"
  by (induction xs) (auto split: if_splits)

lemma buf_of_holds:
  assumes "cache_ok dev s"
  shows "buf_of dev b s = Some i \<longleftrightarrow> holds dev s i b"
proof
  assume "buf_of dev b s = Some i"
  from find_set(1) [OF this [unfolded buf_of_def]] cache_okD(3) [OF assms] show "holds dev s i b"
    by (simp add: holds_def)
next
  assume h: "holds dev s i b"
  have "buf_of dev b s \<noteq> None"
    using h cache_okD(3) [OF assms] find_set(2) [of _ "bs_lru s"] by (auto simp: buf_of_def holds_def)
  then obtain j where j: "buf_of dev b s = Some j" by blast
  from find_set(1) [OF j [unfolded buf_of_def]] cache_okD(3) [OF assms] have "holds dev s j b" by (simp add: holds_def)
  with h cache_okD(6) [OF assms] have "j = i" by (auto simp: holds_def)
  with j show "buf_of dev b s = Some i" by simp
qed

lemma buf_of_None:
  assumes "cache_ok dev s"
  shows "buf_of dev b s = None \<longleftrightarrow> (\<forall>i. \<not> holds dev s i b)"
  using buf_of_holds [OF assms] by (metis not_None_eq)

lemma holds_view: "cache_ok dev s \<Longrightarrow> holds dev s i b \<Longrightarrow> view dev s b = bf_data (bufi s i)"
  "cache_ok dev s \<Longrightarrow> holds dev s i b \<Longrightarrow> refs dev s b = bf_refcnt (bufi s i)"
  using buf_of_holds [of dev s b i] by (simp_all add: view_def refs_def)

lemma holds_none: "cache_ok dev s \<Longrightarrow> (\<And>i. \<not> holds dev s i b) \<Longrightarrow> view dev s b = bs_disk s b"
  "cache_ok dev s \<Longrightarrow> (\<And>i. \<not> holds dev s i b) \<Longrightarrow> refs dev s b = 0"
  using buf_of_None [of dev s b] by (simp_all add: view_def refs_def)

lemma holds_unique: "cache_ok dev s \<Longrightarrow> holds dev s i b \<Longrightarrow> holds dev s j b \<Longrightarrow> j = i"
  using cache_okD(6) [of dev s i j] by (auto simp: holds_def)

subsection \<open>What the operations do\<close>

text \<open>Nothing but the buffers changed.\<close>

definition in_cache :: "'a store_scheme \<Rightarrow> 'a store_scheme \<Rightarrow> bool" where
  "in_cache s t \<longleftrightarrow> bs_disk t = bs_disk s \<and> bs_writes t = bs_writes s \<and> store.more t = store.more s"

lemma in_cacheD: "in_cache s t \<Longrightarrow> bs_disk t = bs_disk s" "in_cache s t \<Longrightarrow> bs_writes t = bs_writes s"
  "in_cache s t \<Longrightarrow> store.more t = store.more s"
  by (simp_all add: in_cache_def)

lemma in_cache_refl [simp]: "in_cache s s"
  by (simp add: in_cache_def)

lemma in_cache_trans: "in_cache s t \<Longrightarrow> in_cache t u \<Longrightarrow> in_cache s u"
  by (simp add: in_cache_def)

lemma in_cache_upd [simp]: "in_cache s (upd_buf i f s)" "in_cache s (set_data i d s)" "in_cache s (brelse i s)"
  by (simp_all add: in_cache_def upd_buf_def set_data_def brelse_def Let_def)

lemma bufi_upd: "i < length (bs_buf s) \<Longrightarrow> bufi (upd_buf i f s) j = (if j = i then f (bufi s i) else bufi s j)"
  by (simp add: upd_buf_def nth_list_update)

lemma upd_buf_frame [simp]: "bs_lru (upd_buf i f s) = bs_lru s" "length (bs_buf (upd_buf i f s)) = length (bs_buf s)"
  "bs_disk (upd_buf i f s) = bs_disk s" "bs_writes (upd_buf i f s) = bs_writes s"
  by (simp_all add: upd_buf_def)

text \<open>A change to the contents or the holders of one buffer.\<close>

lemma upd_held:
  assumes ok: "cache_ok dev s" and h: "holds dev s i b"
    and f: "bf_dev (f (bufi s i)) = dev" "bf_blockno (f (bufi s i)) = b" "bf_valid (f (bufi s i))"
  shows "cache_ok dev (upd_buf i f s)" "holds dev (upd_buf i f s) j c = holds dev s j c"
    "view dev (upd_buf i f s) = (view dev s)(b := bf_data (f (bufi s i)))"
    "refs dev (upd_buf i f s) = (refs dev s)(b := bf_refcnt (f (bufi s i)))"
proof -
  let ?t = "upd_buf i f s"
  note d = cache_okD [OF ok]
  have i: "i < 30" "bf_dev (bufi s i) = dev" "bf_blockno (bufi s i) = b" using h by (simp_all add: holds_def)
  have bt: "bufi ?t j = (if j = i then f (bufi s i) else bufi s j)" for j using i(1) d(1) by (simp add: bufi_upd)
  have key: "bf_dev (bufi ?t j) = bf_dev (bufi s j)" "bf_blockno (bufi ?t j) = bf_blockno (bufi s j)" for j
    using f i by (simp_all add: bt)
  show ht: "holds dev ?t j c = holds dev s j c" for j c by (simp add: holds_def key)
  have "if bf_dev (bufi ?t j) = dev then bf_valid (bufi ?t j) else bf_refcnt (bufi ?t j) = 0" if "j < 30" for j
    using d(4,5) [OF that] f(1,3) i by (cases "j = i") (simp_all add: bt)
  moreover have "j = k" if "j < 30" "k < 30" "bf_dev (bufi ?t j) = dev" "bf_dev (bufi ?t k) = dev"
    "bf_blockno (bufi ?t j) = bf_blockno (bufi ?t k)" for j k using d(6) that by (simp add: key)
  ultimately show ok': "cache_ok dev ?t" using d(1-3) by (simp add: cache_ok_def)
  have "view dev ?t c = ((view dev s)(b := bf_data (f (bufi s i)))) c \<and>
      refs dev ?t c = ((refs dev s)(b := bf_refcnt (f (bufi s i)))) c" for c
  proof (cases "\<exists>j. holds dev s j c")
    case True
    then obtain j where j: "holds dev s j c" by blast
    then have jt: "holds dev ?t j c" by (simp add: ht)
    have "(j = i) = (c = b)" using h j holds_unique [OF ok h, of j] by (auto simp: holds_def)
    then show ?thesis
      using holds_view [OF ok j] holds_view [OF ok' jt] by (simp add: bt)
  next
    case False
    then have "c \<noteq> b" using h by blast
    with False holds_none [OF ok, of c] holds_none [OF ok', of c] show ?thesis by (simp add: ht)
  qed
  then show "view dev ?t = (view dev s)(b := bf_data (f (bufi s i)))"
    "refs dev ?t = (refs dev s)(b := bf_refcnt (f (bufi s i)))" by (simp_all add: fun_eq_iff)
qed

text \<open>The order of the list does not show.\<close>

lemma cache_reorder:
  assumes ok: "cache_ok dev s" and L: "distinct L" "set L = {..<30}"
  shows "cache_ok dev (s\<lparr>bs_lru := L\<rparr>)" "holds dev (s\<lparr>bs_lru := L\<rparr>) i b = holds dev s i b"
    "view dev (s\<lparr>bs_lru := L\<rparr>) = view dev s" "refs dev (s\<lparr>bs_lru := L\<rparr>) = refs dev s"
proof -
  let ?t = "s\<lparr>bs_lru := L\<rparr>"
  show ok': "cache_ok dev ?t" using cache_okD(1) [OF ok] ok L by (simp add: cache_ok_def)
  have h: "holds dev ?t j c = holds dev s j c" for j c by (simp add: holds_def)
  then show "holds dev ?t i b = holds dev s i b" .
  have "view dev ?t c = view dev s c \<and> refs dev ?t c = refs dev s c" for c
    using holds_view [OF ok, of _ c] holds_view [OF ok', of _ c] holds_none [OF ok, of c] holds_none [OF ok', of c] h
    by (cases "\<exists>j. holds dev s j c") auto
  then show "view dev ?t = view dev s" "refs dev ?t = refs dev s" by (simp_all add: fun_eq_iff)
qed

lemma cache_invD: "cache_inv dev s \<Longrightarrow> cache_ok dev s" "cache_inv dev s \<Longrightarrow> refs dev s b = 0 \<Longrightarrow> view dev s b = bs_disk s b"
  by (simp_all add: cache_inv_def)

text \<open>As long as fewer than thirty blocks are held there is a buffer to take.\<close>

lemma free_buffer:
  assumes ok: "cache_ok dev s" and few: "card {b. refs dev s b \<noteq> 0} < 30"
  shows "\<exists>i < 30. bf_refcnt (bufi s i) = 0"
proof (rule ccontr)
  assume "\<not> (\<exists>i < 30. bf_refcnt (bufi s i) = 0)"
  then have all: "bf_refcnt (bufi s i) \<noteq> 0" if "i < 30" for i using that by blast
  let ?f = "\<lambda>i. bf_blockno (bufi s i)"
  have dev: "bf_dev (bufi s i) = dev" if "i < 30" for i using all that cache_okD(5) [OF ok] by blast
  have h: "holds dev s i (?f i)" if "i < 30" for i using dev that by (simp add: holds_def)
  have "inj_on ?f {..<30}" using cache_okD(6) [OF ok] dev by (auto intro: inj_onI)
  then have "card (?f ` {..<30}) = 30" by (simp add: card_image)
  moreover have "{b. refs dev s b \<noteq> 0} = ?f ` {..<30}"
  proof (intro set_eqI iffI)
    fix b assume "b \<in> {b. refs dev s b \<noteq> 0}"
    then obtain i where "holds dev s i b" using holds_none(2) [OF ok, of b] by auto
    then show "b \<in> ?f ` {..<30}" by (auto simp: holds_def)
  next
    fix b assume "b \<in> ?f ` {..<30}"
    then obtain i where "i < 30" "b = ?f i" by auto
    with holds_view(2) [OF ok h] all show "b \<in> {b. refs dev s b \<noteq> 0}" by simp
  qed
  ultimately show False using few by simp
qed

text \<open>A handle stays good while its block is held.\<close>

definition keeps_held :: "u32 \<Rightarrow> 'a store_scheme \<Rightarrow> 'a store_scheme \<Rightarrow> bool" where
  "keeps_held dev s t \<longleftrightarrow> (\<forall>j c. holds dev s j c \<and> refs dev s c \<noteq> 0 \<longrightarrow> holds dev t j c)"

lemma keeps_heldD: "keeps_held dev s t \<Longrightarrow> holds dev s j c \<Longrightarrow> refs dev s c \<noteq> 0 \<Longrightarrow> holds dev t j c"
  by (simp add: keeps_held_def)

lemma bread_cached:
  assumes inv: "cache_inv dev s" and i: "buf_of dev b s = Some i" and n: "refs dev s b + 1 \<noteq> 0"
  shows "\<exists>t. bread dev b s = Some (i, t) \<and> cache_inv dev t \<and> holds dev t i b \<and> view dev t = view dev s \<and>
    refs dev t = (refs dev s)(b := refs dev s b + 1) \<and> in_cache s t \<and> keeps_held dev s t"
proof -
  note ok = cache_invD(1) [OF inv]
  have h: "holds dev s i b" using i buf_of_holds [OF ok] by simp
  let ?f = "\<lambda>f. f\<lparr>bf_refcnt := bf_refcnt f + 1\<rparr>"
  let ?t = "upd_buf i ?f s"
  have v: "bf_valid (bufi s i)" using cache_okD(4) [OF ok] h by (simp add: holds_def)
  have e: "cache_ok dev ?t" "\<And>j c. holds dev ?t j c = holds dev s j c" "view dev ?t = view dev s"
    "refs dev ?t = (refs dev s)(b := refs dev s b + 1)"
    using upd_held [OF ok h, of ?f] h v holds_view [OF ok h] by (auto simp: holds_def fun_eq_iff)
  have "i < length (bs_buf s)" using h cache_okD(1) [OF ok] by (simp add: holds_def)
  then have "bread dev b s = Some (i, ?t)" using i v by (simp add: bread_def bget_def bufi_upd)
  moreover have "cache_inv dev ?t" using e n cache_invD(2) [OF inv] by (simp add: cache_inv_def)
  ultimately show ?thesis using e h by (auto simp: keeps_held_def)
qed

lemma bread_fresh:
  assumes inv: "cache_inv dev s" and none: "buf_of dev b s = None" and few: "card {c. refs dev s c \<noteq> 0} < 30"
  shows "\<exists>i t. bread dev b s = Some (i, t) \<and> cache_inv dev t \<and> holds dev t i b \<and> view dev t = view dev s \<and>
    refs dev t = (refs dev s)(b := refs dev s b + 1) \<and> in_cache s t \<and> keeps_held dev s t"
proof -
  note ok = cache_invD(1) [OF inv]
  note d = cache_okD [OF ok]
  have nb: "\<not> holds dev s j b" for j using none buf_of_None [OF ok] by blast
  obtain i where i: "find (\<lambda>i. bf_refcnt (bufi s i) = 0) (rev (bs_lru s)) = Some i"
    using free_buffer [OF ok few] d(3) find_set(2) [of "\<lambda>i. bf_refcnt (bufi s i) = 0" "rev (bs_lru s)"] by fastforce
  from find_set(1) [OF i] d(3) have i30: "i < 30" and r0: "bf_refcnt (bufi s i) = 0" by simp_all
  let ?n = "(bufi s i)\<lparr>bf_dev := dev, bf_blockno := b, bf_refcnt := 1, bf_data := bs_disk s b, bf_valid := True\<rparr>"
  let ?t = "upd_buf i (\<lambda>_. ?n) s"
  have len: "i < length (bs_buf s)" using i30 d(1) by simp
  have bt: "bufi ?t j = (if j = i then ?n else bufi s j)" for j using len by (simp add: bufi_upd)
  have br: "bread dev b s = Some (i, ?t)"
    using none i len by (simp add: bread_def bget_def upd_buf_def)
  have "bf_dev (bufi ?t j) = dev \<longrightarrow> bf_valid (bufi ?t j)" "bf_dev (bufi ?t j) \<noteq> dev \<longrightarrow> bf_refcnt (bufi ?t j) = 0"
    if "j < 30" for j using d(4,5) [OF that] by (simp_all add: bt)
  moreover have "j = k" if "j < 30" "k < 30" "bf_dev (bufi ?t j) = dev" "bf_dev (bufi ?t k) = dev"
    "bf_blockno (bufi ?t j) = bf_blockno (bufi ?t k)" for j k
    using d(6) that nb by (auto simp: bt holds_def split: if_splits)
  ultimately have ok': "cache_ok dev ?t" using d(1-3) by (simp add: cache_ok_def)
  have ht: "holds dev ?t j c = (if j = i then c = b else holds dev s j c)" for j c
    using i30 by (auto simp: holds_def bt)
  have e: "view dev ?t c = view dev s c \<and> refs dev ?t c = ((refs dev s)(b := refs dev s b + 1)) c" for c
  proof (cases "c = b")
    case True
    with holds_view [OF ok', of i b] holds_none [OF ok nb] show ?thesis by (simp add: ht bt)
  next
    case False
    show ?thesis
    proof (cases "holds dev s i c")
      case True
      then have "refs dev s c = 0" "view dev s c = bs_disk s c"
        using holds_view(2) [OF ok] r0 cache_invD(2) [OF inv] by simp_all
      moreover have "\<not> holds dev ?t j c" for j using True False holds_unique [OF ok True, of j] by (auto simp: ht)
      ultimately show ?thesis using holds_none [OF ok', of c] False by simp
    next
      case ni: False
      show ?thesis
      proof (cases "\<exists>j. holds dev s j c")
        case True
        then obtain j where j: "holds dev s j c" by blast
        with ni have "j \<noteq> i" by blast
        with j holds_view [OF ok j] holds_view [OF ok', of j c] False show ?thesis by (simp add: ht bt)
      next
        case none: False
        then have "\<not> holds dev ?t j c" for j using False by (simp add: ht)
        with none holds_none [OF ok, of c] holds_none [OF ok', of c] False show ?thesis by simp
      qed
    qed
  qed
  then have v: "view dev ?t = view dev s" "refs dev ?t = (refs dev s)(b := refs dev s b + 1)" by (simp_all add: fun_eq_iff)
  have "refs dev s b = 0" using holds_none(2) [OF ok nb] .
  then have "cache_inv dev ?t" using ok' v cache_invD(2) [OF inv] by (simp add: cache_inv_def)
  moreover have "keeps_held dev s ?t" using holds_view(2) [OF ok] r0 by (auto simp: keeps_held_def ht)
  ultimately show ?thesis using br v ht by auto
qed

lemma bread_effect:
  assumes "cache_inv dev s" "refs dev s b + 1 \<noteq> 0" "refs dev s b \<noteq> 0 \<or> card {c. refs dev s c \<noteq> 0} < 30"
  obtains i t where "bread dev b s = Some (i, t)" "cache_inv dev t" "holds dev t i b" "view dev t = view dev s"
    "refs dev t = (refs dev s)(b := refs dev s b + 1)" "in_cache s t" "keeps_held dev s t"
proof (cases "buf_of dev b s")
  case None
  then have "refs dev s b = 0" by (simp add: refs_def)
  with bread_fresh [OF assms(1) None] assms(3) that show ?thesis by auto
next
  case (Some i)
  with bread_cached [OF assms(1) Some assms(2)] that show ?thesis by blast
qed

lemma set_data_effect:
  assumes "cache_inv dev s" "holds dev s i b" "refs dev s b \<noteq> 0"
  shows "cache_inv dev (set_data i d s)" "holds dev (set_data i d s) j c = holds dev s j c"
    "view dev (set_data i d s) = (view dev s)(b := d)" "refs dev (set_data i d s) = refs dev s"
proof -
  note ok = cache_invD(1) [OF assms(1)]
  let ?f = "\<lambda>f. f\<lparr>bf_data := d\<rparr>"
  have v: "bf_valid (bufi s i)" using cache_okD(4) [OF ok] assms(2) by (simp add: holds_def)
  have e: "cache_ok dev (set_data i d s)" "\<And>j c. holds dev (set_data i d s) j c = holds dev s j c"
    "view dev (set_data i d s) = (view dev s)(b := d)" "refs dev (set_data i d s) = refs dev s"
    unfolding set_data_def using upd_held [OF ok assms(2), of ?f] assms(2) v holds_view [OF ok assms(2)]
    by (auto simp: holds_def fun_eq_iff)
  then show "holds dev (set_data i d s) j c = holds dev s j c" "view dev (set_data i d s) = (view dev s)(b := d)"
    "refs dev (set_data i d s) = refs dev s" by blast+
  from e assms(3) cache_invD(2) [OF assms(1)] show "cache_inv dev (set_data i d s)"
    by (auto simp: cache_inv_def set_data_def)
qed

lemma bwrite_effect:
  assumes inv: "cache_inv dev s" and h: "holds dev s i b"
  shows "cache_inv dev (bwrite i s)" "holds dev (bwrite i s) j c = holds dev s j c"
    "view dev (bwrite i s) = view dev s" "refs dev (bwrite i s) = refs dev s"
    "bs_disk (bwrite i s) = (bs_disk s)(b := view dev s b)" "bs_writes (bwrite i s) = bs_writes s @ [(b, view dev s b)]"
    "store.more (bwrite i s) = store.more s"
proof -
  note ok = cache_invD(1) [OF inv]
  have b: "bf_blockno (bufi s i) = b" "bf_data (bufi s i) = view dev s b"
    using h holds_view(1) [OF ok h] by (simp_all add: holds_def)
  show w: "bs_disk (bwrite i s) = (bs_disk s)(b := view dev s b)" "bs_writes (bwrite i s) = bs_writes s @ [(b, view dev s b)]"
    "store.more (bwrite i s) = store.more s" by (simp_all add: bwrite_def b)
  have bo: "buf_of dev c (bwrite i s) = buf_of dev c s" for c by (simp add: buf_of_def bwrite_def Let_def)
  have same: "bs_buf (bwrite i s) = bs_buf s" by (simp add: bwrite_def Let_def)
  show "holds dev (bwrite i s) j c = holds dev s j c" by (simp add: holds_def same)
  show r: "refs dev (bwrite i s) = refs dev s" by (simp add: refs_def bo same fun_eq_iff split: option.split)
  have "buf_of dev b s = Some i" using buf_of_holds [OF ok] h by simp
  then have "view dev (bwrite i s) c = view dev s c" for c by (auto simp: view_def bo same w split: option.splits)
  then show v: "view dev (bwrite i s) = view dev s" by (simp add: fun_eq_iff)
  have "cache_ok dev (bwrite i s)" using ok by (simp add: cache_ok_def same bwrite_def Let_def)
  then show "cache_inv dev (bwrite i s)" using v r w cache_invD(2) [OF inv] by (simp add: cache_inv_def)
qed

lemma refcnt_effect:
  assumes inv: "cache_inv dev s" and h: "holds dev s i b" and g: "g (refs dev s b) = 0 \<Longrightarrow> view dev s b = bs_disk s b"
  shows "cache_inv dev (upd_buf i (\<lambda>f. f\<lparr>bf_refcnt := g (bf_refcnt f)\<rparr>) s)"
    "holds dev (upd_buf i (\<lambda>f. f\<lparr>bf_refcnt := g (bf_refcnt f)\<rparr>) s) j c = holds dev s j c"
    "view dev (upd_buf i (\<lambda>f. f\<lparr>bf_refcnt := g (bf_refcnt f)\<rparr>) s) = view dev s"
    "refs dev (upd_buf i (\<lambda>f. f\<lparr>bf_refcnt := g (bf_refcnt f)\<rparr>) s) = (refs dev s)(b := g (refs dev s b))"
proof -
  note ok = cache_invD(1) [OF inv]
  let ?f = "\<lambda>f. f\<lparr>bf_refcnt := g (bf_refcnt f)\<rparr>"
  have v: "bf_valid (bufi s i)" using cache_okD(4) [OF ok] h by (simp add: holds_def)
  have e: "cache_ok dev (upd_buf i ?f s)" "\<And>j c. holds dev (upd_buf i ?f s) j c = holds dev s j c"
    "view dev (upd_buf i ?f s) = view dev s" "refs dev (upd_buf i ?f s) = (refs dev s)(b := g (refs dev s b))"
    using upd_held [OF ok h, of ?f] h v holds_view [OF ok h] by (auto simp: holds_def fun_eq_iff)
  then show "holds dev (upd_buf i ?f s) j c = holds dev s j c" "view dev (upd_buf i ?f s) = view dev s"
    "refs dev (upd_buf i ?f s) = (refs dev s)(b := g (refs dev s b))" by blast+
  from e g cache_invD(2) [OF inv] show "cache_inv dev (upd_buf i ?f s)" by (auto simp: cache_inv_def)
qed

lemma brelse_effect:
  assumes inv: "cache_inv dev s" and h: "holds dev s i b" and g: "refs dev s b = 1 \<Longrightarrow> view dev s b = bs_disk s b"
  shows "cache_inv dev (brelse i s)" "holds dev (brelse i s) j c = holds dev s j c"
    "view dev (brelse i s) = view dev s" "refs dev (brelse i s) = (refs dev s)(b := refs dev s b - 1)"
proof -
  let ?t = "upd_buf i (\<lambda>f. f\<lparr>bf_refcnt := bf_refcnt f - 1\<rparr>) s"
  have e: "cache_inv dev ?t" "\<And>j c. holds dev ?t j c = holds dev s j c" "view dev ?t = view dev s"
    "refs dev ?t = (refs dev s)(b := refs dev s b - 1)"
    using refcnt_effect [OF inv h, of "\<lambda>r. r - 1"] g by auto
  note ok = cache_invD(1) [OF e(1)]
  let ?L = "i # remove1 i (bs_lru ?t)"
  have i: "i < 30" using h by (simp add: holds_def)
  have L: "distinct ?L" "set ?L = {..<30}" using cache_okD(2,3) [OF ok] i by auto
  note r = cache_reorder [OF ok L]
  have "cache_inv dev (?t\<lparr>bs_lru := ?L\<rparr>)" using r e(1) by (simp add: cache_inv_def)
  with e r show "cache_inv dev (brelse i s)" "holds dev (brelse i s) j c = holds dev s j c"
    "view dev (brelse i s) = view dev s" "refs dev (brelse i s) = (refs dev s)(b := refs dev s b - 1)"
    by (simp_all add: brelse_def Let_def)
qed

lemma bpin_effect:
  assumes inv: "cache_inv dev s" and h: "holds dev s i b" and g: "refs dev s b + 1 \<noteq> 0"
  shows "cache_inv dev (bpin i s)" "holds dev (bpin i s) j c = holds dev s j c"
    "view dev (bpin i s) = view dev s" "refs dev (bpin i s) = (refs dev s)(b := refs dev s b + 1)" "in_cache s (bpin i s)"
  using refcnt_effect [OF inv h, of "\<lambda>r. r + 1"] g by (simp_all add: bpin_def)

lemma bunpin_effect:
  assumes inv: "cache_inv dev s" and h: "holds dev s i b" and g: "refs dev s b = 1 \<Longrightarrow> view dev s b = bs_disk s b"
  shows "cache_inv dev (bunpin i s)" "holds dev (bunpin i s) j c = holds dev s j c"
    "view dev (bunpin i s) = view dev s" "refs dev (bunpin i s) = (refs dev s)(b := refs dev s b - 1)" "in_cache s (bunpin i s)"
  using refcnt_effect [OF inv h, of "\<lambda>r. r - 1"] g by (simp_all add: bunpin_def)

text \<open>Only the buffers and the disk matter.\<close>

lemma store_cong:
  assumes "bs_buf t = bs_buf s" "bs_lru t = bs_lru s" "bs_disk t = bs_disk s"
  shows "holds dev t i b = holds dev s i b" "view dev t = view dev s" "refs dev t = refs dev s" "cache_inv dev t = cache_inv dev s"
proof -
  have b: "buf_of dev c t = buf_of dev c s" for c by (simp add: buf_of_def assms)
  show "holds dev t i b = holds dev s i b" by (simp add: holds_def assms)
  show v: "view dev t = view dev s" "refs dev t = refs dev s"
    by (simp_all add: fun_eq_iff view_def refs_def b assms split: option.split)
  show "cache_inv dev t = cache_inv dev s" by (simp add: cache_inv_def cache_ok_def v assms)
qed

text \<open>A disk and an empty cache.\<close>

lemma cache_inv_fresh:
  assumes "bs_buf s = fst binit" "bs_lru s = snd binit" "dev \<noteq> 0"
  shows "cache_inv dev s" "view dev s = bs_disk s" "refs dev s = (\<lambda>_. 0)"
proof -
  have bs: "bf_dev (bufi s i) = 0" "bf_refcnt (bufi s i) = 0" if "i < 30" for i using assms(1) that by (simp_all add: binit_def)
  have len: "length (bs_buf s) = 30" using assms(1) by (simp add: binit_def)
  have L: "distinct (bs_lru s)" "set (bs_lru s) = {..<30}" using assms(2) by (auto simp: binit_def)
  have ok: "cache_ok dev s" using bs len L assms(3) by (simp add: cache_ok_def)
  have nh: "\<not> holds dev s i b" for i b using bs assms(3) by (auto simp: holds_def)
  show "view dev s = bs_disk s" "refs dev s = (\<lambda>_. 0)" using holds_none [OF ok nh] by (simp_all add: fun_eq_iff)
  then show "cache_inv dev s" using ok by (simp add: cache_inv_def)
qed

end
