(* ===== verification/Log.thy ===== *)
theory Log
  imports BufCache "HOL-Library.Monad_Syntax"
begin

text \<open>
  The file system log (kernel/log.c). A file system operation changes blocks in the cache only; when the last
  operation ends, the changed blocks are written to the log, then the header, which is the point of commit, then
  the blocks themselves. After a crash \<open>recover_from_log\<close> repeats what the header says. The lemmas show that a
  crash between any two disk writes, also during recovery, leaves the disk as it was after the last commit or
  after the one under way. A write of one block is taken to be atomic. Locks and the processes that wait for
  them are not part of the model.
\<close>

abbreviation (input) LOGSIZE :: int where "LOGSIZE \<equiv> 30"
abbreviation (input) MAXOPBLOCKS :: int where "MAXOPBLOCKS \<equiv> 10"

text \<open>\<open>lh.n\<close> is the length of the list of blocks.\<close>

record flog = store +
  lg_start :: u32
  lg_size :: int
  lg_outstanding :: int
  lg_committing :: bool
  lg_dev :: u32
  lg_lh :: "u32 list"

subsection \<open>The header block\<close>

definition word_at :: "nat \<Rightarrow> string \<Rightarrow> u32" where
  "word_at off d = of_nat (le_value (take 4 (drop off d)))"

definition head_bytes :: "u32 list \<Rightarrow> string" where
  "head_bytes bs = le32 (of_nat (length bs)) @ concat (map (\<lambda>b. le32 b) bs)"

text \<open>More blocks than the header has room for would be written past its end. A negative number is no block.\<close>

definition head_of :: "string \<Rightarrow> u32 list option" where
  "head_of d =
     (let n = sint (word_at 0 d)
      in if n > LOGSIZE then None else Some (map (\<lambda>k. word_at (4 + 4 * k) d) [0..<nat n]))"

definition read_head :: "flog \<Rightarrow> flog option" where
  "read_head s =
     do {
       (i, s1) \<leftarrow> bread (lg_dev s) (lg_start s) s;
       lh \<leftarrow> head_of (bf_data (bufi s1 i));
       Some (brelse i (s1\<lparr>lg_lh := lh\<rparr>))
     }"

definition write_head :: "flog \<Rightarrow> flog option" where
  "write_head s =
     do {
       (i, s1) \<leftarrow> bread (lg_dev s) (lg_start s) s;
       let s2 = set_data i (store_bytes 0 (head_bytes (lg_lh s1)) (bf_data (bufi s1 i))) s1;
       Some (brelse i (bwrite i s2))
     }"

subsection \<open>Committing and recovering\<close>

fun install_loop :: "bool \<Rightarrow> nat \<Rightarrow> u32 list \<Rightarrow> flog \<Rightarrow> flog option" where
  "install_loop recovering tail [] s = Some s"
| "install_loop recovering tail (b # bs) s =
     do {
       (l, s1) \<leftarrow> bread (lg_dev s) (lg_start s + of_nat tail + 1) s;
       (d, s2) \<leftarrow> bread (lg_dev s) b s1;
       let s3 = bwrite d (set_data d (bf_data (bufi s2 l)) s2);
       let s4 = (if recovering then s3 else bunpin d s3);
       install_loop recovering (Suc tail) bs (brelse d (brelse l s4))
     }"

definition install_trans :: "bool \<Rightarrow> flog \<Rightarrow> flog option" where
  "install_trans recovering s = install_loop recovering 0 (lg_lh s) s"

fun write_log_loop :: "nat \<Rightarrow> u32 list \<Rightarrow> flog \<Rightarrow> flog option" where
  "write_log_loop tail [] s = Some s"
| "write_log_loop tail (b # bs) s =
     do {
       (to, s1) \<leftarrow> bread (lg_dev s) (lg_start s + of_nat tail + 1) s;
       (src, s2) \<leftarrow> bread (lg_dev s) b s1;
       let s3 = bwrite to (set_data to (bf_data (bufi s2 src)) s2);
       write_log_loop (Suc tail) bs (brelse to (brelse src s3))
     }"

definition write_log :: "flog \<Rightarrow> flog option" where
  "write_log s = write_log_loop 0 (lg_lh s) s"

definition recover_from_log :: "flog \<Rightarrow> flog option" where
  "recover_from_log s =
     do {
       s1 \<leftarrow> read_head s;
       s2 \<leftarrow> install_trans True s1;
       write_head (s2\<lparr>lg_lh := []\<rparr>)
     }"

definition initlog :: "u32 \<Rightarrow> u32 \<Rightarrow> int \<Rightarrow> flog \<Rightarrow> flog option" where
  "initlog dev logstart nlog s = recover_from_log (s\<lparr>lg_start := logstart, lg_size := nlog, lg_dev := dev\<rparr>)"

definition commit :: "flog \<Rightarrow> flog option" where
  "commit s =
     (if lg_lh s = [] then Some s
      else do {
        s1 \<leftarrow> write_log s;
        s2 \<leftarrow> write_head s1;
        s3 \<leftarrow> install_trans False s2;
        write_head (s3\<lparr>lg_lh := []\<rparr>)
      })"

subsection \<open>Operations\<close>

text \<open>\<open>None\<close>: it sleeps until a commit makes room.\<close>

definition begin_op :: "flog \<Rightarrow> flog option" where
  "begin_op s =
     (if lg_committing s then None
      else if int (length (lg_lh s)) + (lg_outstanding s + 1) * MAXOPBLOCKS > LOGSIZE then None
      else Some (s\<lparr>lg_outstanding := lg_outstanding s + 1\<rparr>))"

definition end_op :: "flog \<Rightarrow> flog option" where
  "end_op s =
     (let s1 = s\<lparr>lg_outstanding := lg_outstanding s - 1\<rparr>
      in if lg_committing s1 then None
         else if lg_outstanding s1 = 0
         then map_option (\<lambda>t. t\<lparr>lg_committing := False\<rparr>) (commit (s1\<lparr>lg_committing := True\<rparr>))
         else Some s1)"

definition log_write :: "nat \<Rightarrow> flog \<Rightarrow> flog option" where
  "log_write i s =
     (let b = bf_blockno (bufi s i)
      in if int (length (lg_lh s)) \<ge> LOGSIZE \<or> int (length (lg_lh s)) \<ge> lg_size s - 1 then None
         else if lg_outstanding s < 1 then None
         else if b \<in> set (lg_lh s) then Some s
         else Some ((bpin i s)\<lparr>lg_lh := lg_lh s @ [b]\<rparr>))"

text \<open>What the file system does to a block: \<open>bread\<close>, a change of its bytes, \<open>log_write\<close>, \<open>brelse\<close>.\<close>

definition update_block :: "u32 \<Rightarrow> (string \<Rightarrow> string) \<Rightarrow> flog \<Rightarrow> flog option" where
  "update_block b f s =
     do {
       (i, s1) \<leftarrow> bread (lg_dev s) b s;
       s2 \<leftarrow> log_write i (set_data i (f (bf_data (bufi s1 i))) s1);
       Some (brelse i s2)
     }"

text \<open>Power on: a disk and an empty cache.\<close>

definition power_on :: "(u32 \<Rightarrow> string) \<Rightarrow> flog" where
  "power_on d = \<lparr>bs_buf = fst binit, bs_lru = snd binit, bs_disk = d, bs_writes = [], lg_start = 0, lg_size = 0,
     lg_outstanding = 0, lg_committing = False, lg_dev = 0, lg_lh = []\<rparr>"

subsection \<open>Two buffers at a time\<close>

definition apply_writes :: "(u32 \<times> string) list \<Rightarrow> (u32 \<Rightarrow> string) \<Rightarrow> u32 \<Rightarrow> string" where
  "apply_writes ws d = fold (\<lambda>(b, x) d. d(b := x)) ws d"

lemma apply_writes_simps [simp]: "apply_writes [] d = d" "apply_writes ((b, x) # ws) d = apply_writes ws (d(b := x))"
  "apply_writes (ws @ ws') d = apply_writes ws' (apply_writes ws d)"
  by (simp_all add: apply_writes_def)

lemma more_fields:
  assumes "store.more (t :: flog) = store.more s"
  shows "lg_start t = lg_start s" "lg_size t = lg_size s" "lg_outstanding t = lg_outstanding s"
    "lg_committing t = lg_committing s" "lg_dev t = lg_dev s" "lg_lh t = lg_lh s"
  using assms by (cases t; cases s; simp)+

text \<open>Setting the blocks of the header leaves the cache alone.\<close>

lemma lh_frame [simp]:
  "cache_inv dev (s\<lparr>lg_lh := l\<rparr>) = cache_inv dev s" "holds dev (s\<lparr>lg_lh := l\<rparr>) i b = holds dev s i b"
  "view dev (s\<lparr>lg_lh := l\<rparr>) = view dev s" "refs dev (s\<lparr>lg_lh := l\<rparr>) = refs dev s"
  "cache_inv dev (s\<lparr>lg_outstanding := n\<rparr>) = cache_inv dev s" "view dev (s\<lparr>lg_outstanding := n\<rparr>) = view dev s"
  "refs dev (s\<lparr>lg_outstanding := n\<rparr>) = refs dev s"
  "cache_inv dev (s\<lparr>lg_committing := c\<rparr>) = cache_inv dev s" "view dev (s\<lparr>lg_committing := c\<rparr>) = view dev s"
  "refs dev (s\<lparr>lg_committing := c\<rparr>) = refs dev s"
  by (simp_all add: store_cong [of "s\<lparr>lg_lh := l\<rparr>" s] store_cong [of "s\<lparr>lg_outstanding := n\<rparr>" s]
      store_cong [of "s\<lparr>lg_committing := c\<rparr>" s])

lemma finite_refs: "cache_ok dev s \<Longrightarrow> finite {b. refs dev s b \<noteq> 0}"
proof -
  assume ok: "cache_ok dev s"
  have "{b. refs dev s b \<noteq> 0} \<subseteq> (\<lambda>i. bf_blockno (bufi s i)) ` {..<30}"
    using holds_none(2) [OF ok] by (force simp: holds_def)
  then show ?thesis by (rule finite_subset) simp
qed

lemma two_breads:
  assumes inv: "cache_inv dev (s :: flog)" and ne: "A \<noteq> B" and r: "refs dev s A = 0" "refs dev s B = 0 \<or> refs dev s B = 1"
    and few: "card {b. refs dev s b \<noteq> 0} + of_bool (refs dev s B = 0) < 30"
  obtains i j s1 s2 where "bread dev A s = Some (i, s1)" "bread dev B s1 = Some (j, s2)" "cache_inv dev s2"
    "holds dev s2 i A" "holds dev s2 j B" "view dev s2 = view dev s" "refs dev s2 = (refs dev s)(A := 1, B := refs dev s B + 1)"
    "in_cache s s2"
proof -
  have few0: "refs dev s A \<noteq> 0 \<or> card {b. refs dev s b \<noteq> 0} < 30" using few by simp
  have "refs dev s A + 1 \<noteq> 0" using r(1) by simp
  from bread_effect [OF inv this few0] obtain i s1 where 1: "bread dev A s = Some (i, s1)" "cache_inv dev s1"
    "holds dev s1 i A" "view dev s1 = view dev s" "refs dev s1 = (refs dev s)(A := refs dev s A + 1)" "in_cache s s1"
    by blast
  note 1 = 1(1-4) 1(5) [unfolded r(1), simplified] 1(6)
  have "card {b. refs dev s1 b \<noteq> 0} \<le> Suc (card {b. refs dev s b \<noteq> 0})"
  proof -
    have "{b. refs dev s1 b \<noteq> 0} = insert A {b. refs dev s b \<noteq> 0}" using 1(5) by auto
    then show ?thesis by (simp add: card_insert_le_m1 card_insert_if finite_refs [OF cache_invD(1) [OF inv]])
  qed
  then have few1: "refs dev s1 B \<noteq> 0 \<or> card {b. refs dev s1 b \<noteq> 0} < 30"
  proof (cases "refs dev s B = 0")
    case True
    then have "card {b. refs dev s b \<noteq> 0} < 29" using few by simp
    with \<open>card {b. refs dev s1 b \<noteq> 0} \<le> Suc (card {b. refs dev s b \<noteq> 0})\<close> show ?thesis by linarith
  next
    case False
    with 1(5) ne show ?thesis by simp
  qed
  have "refs dev s1 B + 1 \<noteq> 0" using r(2) 1(5) ne by auto
  from bread_effect [OF 1(2) this few1] obtain j s2 where 2: "bread dev B s1 = Some (j, s2)" "cache_inv dev s2"
    "holds dev s2 j B" "view dev s2 = view dev s1" "refs dev s2 = (refs dev s1)(B := refs dev s1 B + 1)"
    "in_cache s1 s2" "keeps_held dev s1 s2" by blast
  have "holds dev s2 i A" using keeps_heldD [OF 2(7) 1(3)] 1(5) by simp
  with that [OF 1(1) 2(1,2) _ 2(3)] 1 2 ne in_cache_trans [OF 1(6) 2(6)] show ?thesis by (simp add: fun_upd_twist)
qed

text \<open>One buffer copied to another and written.\<close>

lemma copy_write:
  assumes inv: "cache_inv dev (s :: flog)" and h: "holds dev s x X" "holds dev s y Y" and ry: "refs dev s Y \<noteq> 0"
  defines "t \<equiv> bwrite y (set_data y (bf_data (bufi s x)) s)"
  shows "cache_inv dev t" "holds dev t j c = holds dev s j c" "view dev t = (view dev s)(Y := view dev s X)"
    "refs dev t = refs dev s" "bs_disk t = (bs_disk s)(Y := view dev s X)" "bs_writes t = bs_writes s @ [(Y, view dev s X)]"
    "store.more t = store.more s"
proof -
  have e: "bf_data (bufi s x) = view dev s X" using holds_view(1) [OF cache_invD(1) [OF inv] h(1)] by simp
  let ?u = "set_data y (view dev s X) s"
  note u = set_data_effect [OF inv h(2) ry, of "view dev s X"]
  have c: "in_cache s ?u" by simp
  note w = bwrite_effect [OF u(1), of y Y] u(2) h(2)
  show "cache_inv dev t" "holds dev t j c = holds dev s j c" "view dev t = (view dev s)(Y := view dev s X)"
    "refs dev t = refs dev s" "bs_disk t = (bs_disk s)(Y := view dev s X)" "bs_writes t = bs_writes s @ [(Y, view dev s X)]"
    "store.more t = store.more s"
    unfolding t_def e using w u in_cacheD [OF c] by auto
qed

subsection \<open>What the loops write\<close>

abbreviation slot :: "u32 \<Rightarrow> nat \<Rightarrow> u32" where
  "slot start k \<equiv> start + of_nat k + 1"

fun log_writes :: "u32 \<Rightarrow> nat \<Rightarrow> (u32 \<Rightarrow> string) \<Rightarrow> u32 list \<Rightarrow> (u32 \<times> string) list" where
  "log_writes start tail v [] = []"
| "log_writes start tail v (b # bs) = (slot start tail, v b) # log_writes start (Suc tail) v bs"

fun home_writes :: "u32 \<Rightarrow> nat \<Rightarrow> (u32 \<Rightarrow> string) \<Rightarrow> u32 list \<Rightarrow> (u32 \<times> string) list" where
  "home_writes start tail v [] = []"
| "home_writes start tail v (b # bs) = (b, v (slot start tail)) # home_writes start (Suc tail) v bs"

lemma log_writes_cong: "(\<And>b. b \<in> set bs \<Longrightarrow> v b = w b) \<Longrightarrow> log_writes start tail v bs = log_writes start tail w bs"
  by (induction bs arbitrary: tail) auto

lemma home_writes_cong:
  "(\<And>k. k < length bs \<Longrightarrow> v (slot start (tail + k)) = w (slot start (tail + k))) \<Longrightarrow> home_writes start tail v bs = home_writes start tail w bs"
proof (induction bs arbitrary: tail)
  case (Cons b bs)
  have "v (slot start (Suc tail + k)) = w (slot start (Suc tail + k))" if "k < length bs" for k
    using Cons.prems [of "Suc k"] that by simp
  from Cons.IH [OF this] Cons.prems [of 0] show ?case by simp
qed simp

text \<open>A run that wrote \<open>ws\<close>, with the holders of the blocks after it.\<close>

definition disk_wrote :: "u32 \<Rightarrow> (u32 \<times> string) list \<Rightarrow> (u32 \<Rightarrow> u32) \<Rightarrow> flog \<Rightarrow> flog \<Rightarrow> bool" where
  "disk_wrote dev ws r s t \<longleftrightarrow> cache_inv dev t \<and> refs dev t = r \<and> view dev t = apply_writes ws (view dev s) \<and>
     bs_disk t = apply_writes ws (bs_disk s) \<and> bs_writes t = bs_writes s @ ws \<and> store.more t = store.more s"

lemma disk_wrote_trans: "disk_wrote dev ws r s t \<Longrightarrow> disk_wrote dev ws' r' t u \<Longrightarrow> disk_wrote dev (ws @ ws') r' s u"
  by (simp add: disk_wrote_def)

lemma disk_wroteD:
  assumes "disk_wrote dev ws r s t"
  shows "cache_inv dev t" "refs dev t = r" "view dev t = apply_writes ws (view dev s)"
    "bs_disk t = apply_writes ws (bs_disk s)" "bs_writes t = bs_writes s @ ws" "store.more t = store.more s"
    "lg_start t = lg_start s" "lg_dev t = lg_dev s" "lg_lh t = lg_lh s"
  using assms more_fields [of t s] by (simp_all add: disk_wrote_def)

lemma write_log_step:
  assumes inv: "cache_inv (lg_dev s) s" and r: "refs (lg_dev s) s b = 1" "refs (lg_dev s) s (slot (lg_start s) tail) = 0"
    and few: "card {b. refs (lg_dev s) s b \<noteq> 0} < 30"
  obtains to s1 src s2 where "bread (lg_dev s) (slot (lg_start s) tail) s = Some (to, s1)" "bread (lg_dev s) b s1 = Some (src, s2)"
    "disk_wrote (lg_dev s) [(slot (lg_start s) tail, view (lg_dev s) s b)] (refs (lg_dev s) s) s
       (brelse to (brelse src (bwrite to (set_data to (bf_data (bufi s2 src)) s2))))"
proof -
  let ?d = "lg_dev s" and ?L = "slot (lg_start s) tail"
  have ne: "?L \<noteq> b" using r by auto
  have few': "card {b. refs ?d s b \<noteq> 0} + of_bool (refs ?d s b = 0) < 30" using few r(1) by simp
  obtain to src s1 s2 where
    b: "bread ?d ?L s = Some (to, s1)" "bread ?d b s1 = Some (src, s2)" and 2: "cache_inv ?d s2" "holds ?d s2 to ?L" "holds ?d s2 src b"
    "view ?d s2 = view ?d s" "refs ?d s2 = (refs ?d s)(?L := 1, b := refs ?d s b + 1)" "in_cache s s2"
    by (rule two_breads [OF inv ne r(2) disjI2 [OF r(1)] few'])
  let ?s3 = "bwrite to (set_data to (bf_data (bufi s2 src)) s2)"
  have "refs ?d s2 ?L \<noteq> 0" using 2(5) ne by simp
  note c = copy_write [OF 2(1,3,2) this]
  have h3: "holds ?d ?s3 to ?L" "holds ?d ?s3 src b" using c(2) 2(2,3) by simp_all
  have r3: "refs ?d ?s3 = (refs ?d s)(?L := 1, b := 2)" using c(4) 2(5) r(1) by simp
  let ?s4 = "brelse src ?s3"
  note f = brelse_effect [OF c(1) h3(2)]
  have f1: "refs ?d ?s3 b = 1 \<Longrightarrow> view ?d ?s3 b = bs_disk ?s3 b" using r3 by simp
  note f = f [OF f1]
  have r4: "refs ?d ?s4 = (refs ?d s)(?L := 1, b := 1)" using f(4) r3 by simp
  have v4: "view ?d ?s4 = (view ?d s)(?L := view ?d s b)" using f(3) c(3) 2(4) by simp
  have d4: "bs_disk ?s4 = (bs_disk s)(?L := view ?d s b)" "bs_writes ?s4 = bs_writes s @ [(?L, view ?d s b)]" "store.more ?s4 = store.more s"
    using in_cacheD [OF in_cache_upd(3) [of ?s3 src]] c(5-7) 2(4) in_cacheD [OF 2(6)] by simp_all
  have h4: "holds ?d ?s4 to ?L" using f(2) h3(1) by simp
  have "view ?d ?s4 ?L = bs_disk ?s4 ?L" using v4 d4 by simp
  note g = brelse_effect [OF f(1) h4 this]
  have "refs ?d (brelse to ?s4) = refs ?d s" using g(4) r4 r ne by (auto simp: fun_eq_iff)
  then have "disk_wrote ?d [(?L, view ?d s b)] (refs ?d s) s (brelse to ?s4)"
    using g(1,3) v4 d4 in_cacheD [OF in_cache_upd(3) [of ?s4 to]] by (simp add: disk_wrote_def)
  with b that show ?thesis by blast
qed

lemma write_log_loop_spec:
  assumes "cache_inv dev s" "dev = lg_dev s" "\<And>b. b \<in> set bs \<Longrightarrow> refs dev s b = 1"
    "\<And>k. k < length bs \<Longrightarrow> refs dev s (slot (lg_start s) (tail + k)) = 0" "card {b. refs dev s b \<noteq> 0} < 30"
  shows "\<exists>t. write_log_loop tail bs s = Some t \<and> disk_wrote dev (log_writes (lg_start s) tail (view dev s) bs) (refs dev s) s t"
  using assms
proof (induction bs arbitrary: tail s)
  case Nil
  then show ?case by (simp add: disk_wrote_def)
next
  case (Cons b bs)
  have rb: "refs (lg_dev s) s b = 1" "refs (lg_dev s) s (slot (lg_start s) tail) = 0"
    using Cons.prems(2) Cons.prems(3) [of b] Cons.prems(4) [of 0] by simp_all
  obtain to s1 src s2 where b: "bread dev (slot (lg_start s) tail) s = Some (to, s1)" "bread dev b s1 = Some (src, s2)"
    and w: "disk_wrote dev [(slot (lg_start s) tail, view dev s b)] (refs dev s) s
       (brelse to (brelse src (bwrite to (set_data to (bf_data (bufi s2 src)) s2))))"
    using write_log_step [OF Cons.prems(1) [unfolded Cons.prems(2)] rb Cons.prems(5) [unfolded Cons.prems(2)]]
    unfolding Cons.prems(2) [symmetric] by metis
  let ?u = "brelse to (brelse src (bwrite to (set_data to (bf_data (bufi s2 src)) s2)))"
  note u = disk_wroteD [OF w]
  have "\<exists>t. write_log_loop (Suc tail) bs ?u = Some t \<and> disk_wrote dev (log_writes (lg_start ?u) (Suc tail) (view dev ?u) bs) (refs dev ?u) ?u t"
  proof (rule Cons.IH)
    show "refs dev ?u (slot (lg_start ?u) (Suc tail + k)) = 0" if "k < length bs" for k
      using Cons.prems(4) [of "Suc k"] that u(2,7) by simp
  qed (use u Cons.prems in auto)
  moreover have "log_writes (lg_start s) (Suc tail) (view dev ?u) bs = log_writes (lg_start s) (Suc tail) (view dev s) bs"
  proof (rule log_writes_cong)
    fix c assume "c \<in> set bs"
    then have "c \<noteq> slot (lg_start s) tail" using Cons.prems(3) [of c] Cons.prems(4) [of 0] by auto
    then show "view dev ?u c = view dev s c" using u(3) by simp
  qed
  ultimately obtain t where t: "write_log_loop (Suc tail) bs ?u = Some t"
    "disk_wrote dev (log_writes (lg_start s) (Suc tail) (view dev s) bs) (refs dev s) ?u t"
    using u(2,7) by auto
  have "write_log_loop tail (b # bs) s = Some t" using b t(1) Cons.prems(2) by (simp add: Let_def)
  with disk_wrote_trans [OF w t(2)] show ?case by simp
qed

lemma install_step:
  assumes inv: "cache_inv (lg_dev s) s" and r: "refs (lg_dev s) s b = (if recovering then 0 else 1)"
    "refs (lg_dev s) s (slot (lg_start s) tail) = 0" and ne: "slot (lg_start s) tail \<noteq> b"
    and few: "card {b. refs (lg_dev s) s b \<noteq> 0} + of_bool recovering < 30"
  obtains l s1 d s2 where "bread (lg_dev s) (slot (lg_start s) tail) s = Some (l, s1)" "bread (lg_dev s) b s1 = Some (d, s2)"
    "disk_wrote (lg_dev s) [(b, view (lg_dev s) s (slot (lg_start s) tail))] ((refs (lg_dev s) s)(b := 0)) s
       (let s3 = bwrite d (set_data d (bf_data (bufi s2 l)) s2); s4 = (if recovering then s3 else bunpin d s3)
        in brelse d (brelse l s4))"
proof -
  let ?d = "lg_dev s" and ?L = "slot (lg_start s) tail" and ?one = "if recovering then 1 else 2 :: u32"
  have rb: "refs ?d s b = 0 \<or> refs ?d s b = 1" and few': "card {b. refs ?d s b \<noteq> 0} + of_bool (refs ?d s b = 0) < 30"
    using r(1) few by (auto split: if_splits)
  obtain l d s1 s2 where
    b: "bread ?d ?L s = Some (l, s1)" "bread ?d b s1 = Some (d, s2)" and 2: "cache_inv ?d s2" "holds ?d s2 l ?L" "holds ?d s2 d b"
    "view ?d s2 = view ?d s" "refs ?d s2 = (refs ?d s)(?L := 1, b := refs ?d s b + 1)" "in_cache s s2"
    by (rule two_breads [OF inv ne r(2) rb few'])
  let ?s3 = "bwrite d (set_data d (bf_data (bufi s2 l)) s2)"
  have "refs ?d s2 b \<noteq> 0" using 2(5) r(1) by (auto split: if_splits)
  note c = copy_write [OF 2(1-3) this]
  have h3: "holds ?d ?s3 l ?L" "holds ?d ?s3 d b" using c(2) 2(2,3) by simp_all
  have r3: "refs ?d ?s3 = (refs ?d s)(?L := 1, b := ?one)" using c(4) 2(5) r(1) by simp
  have v3: "view ?d ?s3 = (view ?d s)(b := view ?d s ?L)" "bs_disk ?s3 = (bs_disk s)(b := view ?d s ?L)"
    "bs_writes ?s3 = bs_writes s @ [(b, view ?d s ?L)]" "store.more ?s3 = store.more s"
    using c(3,5-7) 2(4) in_cacheD [OF 2(6)] by simp_all
  let ?s4 = "if recovering then ?s3 else bunpin d ?s3"
  have "view ?d ?s3 b = bs_disk ?s3 b" using v3 by simp
  note u = bunpin_effect [OF c(1) h3(2) this]
  have 4: "cache_inv ?d ?s4" "holds ?d ?s4 l ?L" "holds ?d ?s4 d b" "view ?d ?s4 = view ?d ?s3" "in_cache ?s3 ?s4"
    "refs ?d ?s4 = (refs ?d s)(?L := 1, b := 1)"
    using u c(1) h3 r3 by (auto simp: fun_eq_iff)
  have L: "view ?d s ?L = bs_disk s ?L" by (rule cache_invD(2) [OF inv r(2)])
  have dL: "view ?d ?s4 ?L = bs_disk ?s4 ?L" "view ?d ?s4 b = bs_disk ?s4 b"
    using 4(4) v3 L ne in_cacheD(1) [OF 4(5)] by simp_all
  note l = brelse_effect [OF 4(1,2) dL(1)]
  let ?s5 = "brelse l ?s4"
  have h5: "holds ?d ?s5 d b" and d5: "view ?d ?s5 b = bs_disk ?s5 b"
    using l(2,3) 4(3) dL(2) in_cacheD(1) [OF in_cache_upd(3) [of ?s4 l]] by simp_all
  note f = brelse_effect [OF l(1) h5 d5]
  have "refs ?d (brelse d ?s5) = (refs ?d s)(b := 0)" using f(4) l(4) 4(6) r(2) ne by (auto simp: fun_eq_iff)
  then have "disk_wrote ?d [(b, view ?d s ?L)] ((refs ?d s)(b := 0)) s (brelse d ?s5)"
    using f(1,3) l(3) 4(4) v3 in_cacheD [OF in_cache_trans [OF in_cache_trans [OF 4(5) in_cache_upd(3)] in_cache_upd(3)], of d l]
    by (simp add: disk_wrote_def)
  then show ?thesis by (intro that [OF b]) (simp only: Let_def)
qed

lemma install_loop_spec:
  assumes "cache_inv dev s" "dev = lg_dev s" "\<And>b. b \<in> set bs \<Longrightarrow> refs dev s b = (if recovering then 0 else 1)"
    "\<And>k. k < length bs \<Longrightarrow> refs dev s (slot (lg_start s) (tail + k)) = 0"
    "\<And>k. k < length bs \<Longrightarrow> slot (lg_start s) (tail + k) \<notin> set bs" "distinct bs"
    "card {b. refs dev s b \<noteq> 0} + of_bool recovering < 30"
  shows "\<exists>t. install_loop recovering tail bs s = Some t \<and>
    disk_wrote dev (home_writes (lg_start s) tail (view dev s) bs) (\<lambda>b. if b \<in> set bs then 0 else refs dev s b) s t"
  using assms
proof (induction bs arbitrary: tail s)
  case Nil
  then show ?case by (simp add: disk_wrote_def)
next
  case (Cons b bs)
  let ?L = "slot (lg_start s) tail"
  have rb: "refs (lg_dev s) s b = (if recovering then 0 else 1)" "refs (lg_dev s) s ?L = 0" "?L \<noteq> b"
    using Cons.prems(2) Cons.prems(3) [of b] Cons.prems(4) [of 0] Cons.prems(5) [of 0] by simp_all
  obtain l s1 d s2 where b: "bread dev ?L s = Some (l, s1)" "bread dev b s1 = Some (d, s2)"
    and w: "disk_wrote dev [(b, view dev s ?L)] ((refs dev s)(b := 0)) s
       (let s3 = bwrite d (set_data d (bf_data (bufi s2 l)) s2); s4 = (if recovering then s3 else bunpin d s3)
        in brelse d (brelse l s4))"
    using install_step [OF Cons.prems(1) [unfolded Cons.prems(2)] rb Cons.prems(7) [unfolded Cons.prems(2)]]
    unfolding Cons.prems(2) [symmetric] by metis
  define u where "u = (let s3 = bwrite d (set_data d (bf_data (bufi s2 l)) s2); s4 = (if recovering then s3 else bunpin d s3)
        in brelse d (brelse l s4))"
  note w = w [folded u_def]
  note u = disk_wroteD [OF w]
  have fin: "finite {b. refs dev s b \<noteq> 0}" by (rule finite_refs [OF cache_invD(1) [OF Cons.prems(1)]])
  have "card {c. refs dev u c \<noteq> 0} \<le> card {c. refs dev s c \<noteq> 0}" by (rule card_mono [OF fin]) (auto simp: u(2))
  then have few: "card {c. refs dev u c \<noteq> 0} + of_bool recovering < 30" using Cons.prems(7) by simp
  have sl: "slot (lg_start s) (Suc tail + k) \<notin> set (b # bs)" "refs dev s (slot (lg_start s) (Suc tail + k)) = 0" if "k < length bs" for k
    using Cons.prems(4,5) [of "Suc k"] that by simp_all
  have "\<exists>t. install_loop recovering (Suc tail) bs u = Some t \<and>
      disk_wrote dev (home_writes (lg_start u) (Suc tail) (view dev u) bs) (\<lambda>c. if c \<in> set bs then 0 else refs dev u c) u t"
  proof (rule Cons.IH)
    show "refs dev u c = (if recovering then 0 else 1)" if "c \<in> set bs" for c
      using Cons.prems(3) [of c] Cons.prems(6) that u(2) by auto
    show "refs dev u (slot (lg_start u) (Suc tail + k)) = 0" if "k < length bs" for k
      using sl(2) [OF that] by (simp only: u(2,7) fun_upd_def) simp
    show "slot (lg_start u) (Suc tail + k) \<notin> set bs" if "k < length bs" for k
      using sl(1) [OF that] u(7) by simp
  qed (use u few Cons.prems in auto)
  moreover have "home_writes (lg_start s) (Suc tail) (view dev u) bs = home_writes (lg_start s) (Suc tail) (view dev s) bs"
    by (rule home_writes_cong) (use sl(1) u(3) in auto)
  moreover have "(\<lambda>c. if c \<in> set bs then 0 else refs dev u c) = (\<lambda>c. if c \<in> set (b # bs) then 0 else refs dev s c)"
    using u(2) by (auto simp: fun_eq_iff)
  ultimately obtain t where t: "install_loop recovering (Suc tail) bs u = Some t"
    "disk_wrote dev (home_writes (lg_start s) (Suc tail) (view dev s) bs) (\<lambda>c. if c \<in> set (b # bs) then 0 else refs dev s c) u t"
    using u(7) by auto
  have "install_loop recovering tail (b # bs) s = Some t" using b t(1) Cons.prems(2) by (simp add: u_def Let_def)
  with disk_wrote_trans [OF w t(2)] show ?case by simp
qed

lemma write_head_spec:
  assumes inv: "cache_inv (lg_dev s) s" and r: "refs (lg_dev s) s (lg_start s) = 0" and few: "card {b. refs (lg_dev s) s b \<noteq> 0} < 30"
  shows "\<exists>t. write_head s = Some t \<and>
    disk_wrote (lg_dev s) [(lg_start s, store_bytes 0 (head_bytes (lg_lh s)) (view (lg_dev s) s (lg_start s)))] (refs (lg_dev s) s) s t"
proof -
  let ?d = "lg_dev s" and ?h = "lg_start s"
  have "refs ?d s ?h + 1 \<noteq> 0" using r by simp
  from bread_effect [OF inv this disjI2 [OF few]] obtain i s1 where 1: "bread ?d ?h s = Some (i, s1)" "cache_inv ?d s1"
    "holds ?d s1 i ?h" "view ?d s1 = view ?d s" "refs ?d s1 = (refs ?d s)(?h := refs ?d s ?h + 1)" "in_cache s s1" by blast
  have r1: "refs ?d s1 ?h \<noteq> 0" using 1(5) r by simp
  have lh: "lg_lh s1 = lg_lh s" using more_fields [OF in_cacheD(3) [OF 1(6)]] by simp
  have dt: "bf_data (bufi s1 i) = view ?d s ?h" using holds_view(1) [OF cache_invD(1) [OF 1(2)] 1(3)] 1(4) by simp
  let ?x = "store_bytes 0 (head_bytes (lg_lh s)) (view ?d s ?h)"
  let ?s2 = "set_data i ?x s1"
  note 2 = set_data_effect [OF 1(2,3) r1, of ?x] in_cacheD [OF in_cache_upd(2) [of s1 i ?x]]
  have h2: "holds ?d ?s2 i ?h" using 2(2) 1(3) by simp
  note w = bwrite_effect [OF 2(1) h2]
  have h3: "holds ?d (bwrite i ?s2) i ?h" and d3: "view ?d (bwrite i ?s2) ?h = bs_disk (bwrite i ?s2) ?h"
    using w(2,3,5) h2 2(3) by simp_all
  note f = brelse_effect [OF w(1) h3 d3] in_cacheD [OF in_cache_upd(3) [of "bwrite i ?s2" i]]
  have "refs ?d (brelse i (bwrite i ?s2)) = refs ?d s" using f(4) w(4) 2(4) 1(5) r by (auto simp: fun_eq_iff)
  then have "disk_wrote ?d [(?h, ?x)] (refs ?d s) s (brelse i (bwrite i ?s2))"
    using f w 2 1(4) in_cacheD [OF 1(6)] by (simp add: disk_wrote_def)
  moreover have "write_head s = Some (brelse i (bwrite i ?s2))" using 1(1) lh dt by (simp add: write_head_def)
  ultimately show ?thesis by blast
qed

lemma read_head_spec:
  assumes inv: "cache_inv (lg_dev s) s" and r: "refs (lg_dev s) s (lg_start s) = 0" and few: "card {b. refs (lg_dev s) s b \<noteq> 0} < 30"
    and h: "head_of (view (lg_dev s) s (lg_start s)) = Some lh"
  shows "\<exists>t. read_head s = Some (t\<lparr>lg_lh := lh\<rparr>) \<and> disk_wrote (lg_dev s) [] (refs (lg_dev s) s) s t"
proof -
  let ?d = "lg_dev s" and ?h = "lg_start s"
  have "refs ?d s ?h + 1 \<noteq> 0" using r by simp
  from bread_effect [OF inv this disjI2 [OF few]] obtain i s1 where 1: "bread ?d ?h s = Some (i, s1)" "cache_inv ?d s1"
    "holds ?d s1 i ?h" "view ?d s1 = view ?d s" "refs ?d s1 = (refs ?d s)(?h := refs ?d s ?h + 1)" "in_cache s s1" by blast
  have dt: "bf_data (bufi s1 i) = view ?d s ?h" using holds_view(1) [OF cache_invD(1) [OF 1(2)] 1(3)] 1(4) by simp
  have "view ?d s1 ?h = bs_disk s1 ?h" using cache_invD(2) [OF inv r] 1(4) in_cacheD(1) [OF 1(6)] by simp
  note f = brelse_effect [OF 1(2,3) this] in_cacheD [OF in_cache_trans [OF 1(6) in_cache_upd(3)], of i]
  have "brelse i (s1\<lparr>lg_lh := lh\<rparr>) = (brelse i s1)\<lparr>lg_lh := lh\<rparr>" by (simp add: brelse_def upd_buf_def Let_def)
  moreover have "disk_wrote ?d [] (refs ?d s) s (brelse i s1)" using f 1(4,5) r by (auto simp: disk_wrote_def fun_eq_iff)
  ultimately show ?thesis using 1(1) dt h by (auto simp: read_head_def)
qed

subsection \<open>Reading what was written\<close>

lemma word_at_le32: "word_at 0 (le32 w @ r) = w"
  using le_value_bytes [of "unat w" 4] unsigned_less [where w = w and 'a = nat] by (simp add: word_at_def)

lemma word_at_app: "length p = n \<Longrightarrow> word_at (n + k) (p @ r) = word_at k r"
  by (simp add: word_at_def)

lemma word_at_list: "k < length bs \<Longrightarrow> word_at (4 * k) (concat (map (\<lambda>b. le32 b) bs) @ r) = bs ! k"
proof (induction bs arbitrary: k)
  case (Cons b bs)
  show ?case
  proof (cases k)
    case 0
    then show ?thesis by (simp add: word_at_le32)
  next
    case (Suc j)
    then have "word_at (4 * k) (concat (map (\<lambda>b. le32 b) (b # bs)) @ r) = word_at (4 * j) (concat (map (\<lambda>b. le32 b) bs) @ r)"
      using word_at_app [of "le32 b" 4 "4 * j"] by (simp add: algebra_simps)
    with Cons.IH [of j] Cons.prems Suc show ?thesis by simp
  qed
qed simp

lemma length_head_bytes: "length (head_bytes bs) = 4 + 4 * length bs"
proof -
  have "length (concat (map (\<lambda>b. le32 b) bs)) = 4 * length bs" by (induction bs) simp_all
  then show ?thesis by (simp add: head_bytes_def)
qed

lemma head_of_bytes:
  assumes n: "length bs \<le> 30"
  shows "head_of (store_bytes 0 (head_bytes bs) d) = Some bs"
proof -
  let ?h = "store_bytes 0 (head_bytes bs) d"
  obtain r where h: "?h = le32 (of_nat (length bs)) @ concat (map (\<lambda>b. le32 b) bs) @ r"
    by (simp add: store_bytes_def head_bytes_def)
  have w0: "word_at 0 ?h = of_nat (length bs)" unfolding h by (rule word_at_le32)
  have "sint (of_nat (length bs) :: u32) = int (length bs)"
    using n by (simp add: signed_of_nat signed_take_bit_int_eq_self)
  then have "sint (word_at 0 ?h) = int (length bs)" using w0 by simp
  moreover have "word_at (4 + 4 * k) ?h = bs ! k" if "k < length bs" for k
    unfolding h using word_at_app [of "le32 (of_nat (length bs))" 4 "4 * k"] word_at_list [OF that] by simp
  ultimately show ?thesis
    using n by (auto simp: head_of_def Let_def intro!: nth_equalityI)
qed

lemma head_of_zero: "word_at 0 d = 0 \<Longrightarrow> head_of d = Some []"
  by (simp add: head_of_def)

lemma word_at_head: "word_at 0 (store_bytes 0 (head_bytes []) d) = 0"
  using word_at_le32 [of 0] by (simp add: store_bytes_def head_bytes_def)

lemma apply_other: "b \<notin> fst ` set ws \<Longrightarrow> apply_writes ws d b = d b"
  by (induction ws arbitrary: d) auto

lemma apply_map: "apply_writes (map (\<lambda>b. (b, f b)) bs) d c = (if c \<in> set bs then f c else d c)"
  by (induction bs arbitrary: d) auto

text \<open>The blocks of the log.\<close>

definition log_area :: "u32 \<Rightarrow> nat \<Rightarrow> u32 set" where
  "log_area start n = {b. unat start \<le> unat b \<and> unat b < unat start + n}"

lemma unat_slot: "unat start + n < 2 ^ 32 \<Longrightarrow> k < n \<Longrightarrow> unat (slot start k) = unat start + k + 1"
  by (simp add: unat_word_ariths unat_of_nat)

lemma slot_area:
  assumes "unat start + n < 2 ^ 32" "Suc k < n"
  shows "slot start k \<in> log_area start n" "slot start k \<noteq> start"
proof -
  have u: "unat (slot start k) = unat start + k + 1" using unat_slot [of start n k] assms by simp
  then have "unat (slot start k) \<noteq> unat start" by simp
  then show "slot start k \<noteq> start" by metis
  show "slot start k \<in> log_area start n" using u assms by (simp only: log_area_def mem_Collect_eq) simp
qed

lemma start_area: "0 < n \<Longrightarrow> start \<in> log_area start n"
  by (simp add: log_area_def)

lemma slot_inj:
  assumes "unat start + n < 2 ^ 32" "j < n" "k < n" "slot start j = slot start k"
  shows "j = k"
  using unat_slot [OF assms(1,2)] unat_slot [OF assms(1,3)] arg_cong [OF assms(4), of unat] by linarith

lemma log_writes_blocks: "fst ` set (log_writes start tail v bs) = slot start ` {tail..<tail + length bs}"
proof (induction bs arbitrary: tail)
  case (Cons b bs)
  have "{tail..<tail + length (b # bs)} = insert tail {Suc tail..<Suc tail + length bs}" by auto
  then show ?case using Cons.IH [of "Suc tail"] by simp
qed simp

lemma length_log_writes: "length (log_writes start tail v bs) = length bs"
  by (induction bs arbitrary: tail) simp_all

lemma apply_log_writes:
  assumes n: "unat start + n < 2 ^ 32" "tail + length bs \<le> n" and k: "k < length bs"
  shows "apply_writes (log_writes start tail v bs) d (slot start (tail + k)) = v (bs ! k)"
  using n(2) k
proof (induction bs arbitrary: tail d k)
  case (Cons b bs)
  show ?case
  proof (cases k)
    case 0
    have "slot start tail \<notin> slot start ` {Suc tail..<Suc tail + length bs}"
    proof
      assume "slot start tail \<in> slot start ` {Suc tail..<Suc tail + length bs}"
      then obtain j where j: "slot start tail = slot start j" "Suc tail \<le> j" "j < Suc tail + length bs" by (auto simp only: image_iff atLeastLessThan_iff)
      then have "tail = j" using Cons.prems(1) by (intro slot_inj [OF n(1) _ _ j(1)]) simp_all
      with j(2) show False by simp
    qed
    with 0 show ?thesis using apply_other [of "slot start tail" "log_writes start (Suc tail) v bs"] by (simp add: log_writes_blocks)
  next
    case (Suc j)
    with Cons.IH [of "Suc tail" j] Cons.prems show ?thesis by simp
  qed
qed simp

lemma home_writes_map:
  assumes "\<And>k. k < length bs \<Longrightarrow> v (slot start (tail + k)) = f (bs ! k)"
  shows "home_writes start tail v bs = map (\<lambda>b. (b, f b)) bs"
  using assms
proof (induction bs arbitrary: tail)
  case (Cons b bs)
  have "v (slot start (Suc tail + k)) = f (bs ! k)" if "k < length bs" for k using Cons.prems [of "Suc k"] that by simp
  from Cons.IH [OF this] Cons.prems [of 0] show ?case by simp
qed simp

lemma home_writes_fun:
  assumes "distinct bs"
  shows "\<exists>f. home_writes start tail v bs = map (\<lambda>b. (b, f b)) bs"
proof -
  let ?f = "\<lambda>b. v (slot start (tail + (THE k. k < length bs \<and> bs ! k = b)))"
  have "(THE j. j < length bs \<and> bs ! j = bs ! k) = k" if "k < length bs" for k
    using that assms nth_eq_iff_index_eq [OF assms] by (intro the_equality) auto
  then have "v (slot start (tail + k)) = ?f (bs ! k)" if "k < length bs" for k using that by simp
  then have "home_writes start tail v bs = map (\<lambda>b. (b, ?f b)) bs" by (rule home_writes_map)
  then show ?thesis by (rule exI [of _ ?f])
qed

lemma home_writes_blocks: "fst ` set (home_writes start tail v bs) = set bs"
  by (induction bs arbitrary: tail) auto

subsection \<open>What a disk means\<close>

text \<open>The contents of the file system blocks once the log on the disk has been replayed.\<close>

definition log_means :: "u32 \<Rightarrow> nat \<Rightarrow> (u32 \<Rightarrow> string) \<Rightarrow> (u32 \<Rightarrow> string) \<Rightarrow> bool" where
  "log_means start n d v \<longleftrightarrow>
     (\<exists>bs. head_of (d start) = Some bs \<and> distinct bs \<and> length bs < n \<and> set bs \<inter> log_area start n = {} \<and>
       (\<forall>b. b \<notin> log_area start n \<longrightarrow> v b = apply_writes (home_writes start 0 d bs) d b))"

text \<open>The log between two calls: every block it names is held once, for the log; on disk it is empty.\<close>

definition log_inv :: "flog \<Rightarrow> bool" where
  "log_inv s \<longleftrightarrow> lg_dev s \<noteq> 0 \<and> 0 < lg_size s \<and> lg_size s \<le> LOGSIZE \<and> unat (lg_start s) + nat (lg_size s) < 2 ^ 32 \<and>
     cache_inv (lg_dev s) s \<and> refs (lg_dev s) s = (\<lambda>b. if b \<in> set (lg_lh s) then 1 else 0) \<and>
     distinct (lg_lh s) \<and> int (length (lg_lh s)) < lg_size s \<and> set (lg_lh s) \<inter> log_area (lg_start s) (nat (lg_size s)) = {} \<and>
     word_at 0 (bs_disk s (lg_start s)) = 0"

abbreviation area :: "flog \<Rightarrow> u32 set" where
  "area s \<equiv> log_area (lg_start s) (nat (lg_size s))"

lemma log_invD:
  assumes "log_inv s"
  shows "lg_dev s \<noteq> 0" "0 < lg_size s" "lg_size s \<le> 30" "unat (lg_start s) + nat (lg_size s) < 2 ^ 32"
    "cache_inv (lg_dev s) s" "refs (lg_dev s) s = (\<lambda>b. if b \<in> set (lg_lh s) then 1 else 0)" "distinct (lg_lh s)"
    "int (length (lg_lh s)) < lg_size s" "set (lg_lh s) \<inter> area s = {}" "word_at 0 (bs_disk s (lg_start s)) = 0"
    "b \<notin> set (lg_lh s) \<Longrightarrow> view (lg_dev s) s b = bs_disk s b"
  using assms cache_invD(2) [of "lg_dev s" s b] by (auto simp: log_inv_def)

lemma refs_card: "card {b. (if b \<in> set bs then 1 else 0 :: u32) \<noteq> 0} \<le> length bs"
proof -
  have "{b. (if b \<in> set bs then 1 else 0 :: u32) \<noteq> 0} = set bs" by auto
  then show ?thesis by (simp add: card_length)
qed

text \<open>Recovery installs what the disk means, and a crash during recovery does not change it.\<close>

lemma install_means:
  assumes h: "head_of (d start) = Some bs" and bs: "distinct bs" "length bs < n" "set bs \<inter> log_area start n = {}"
    and n: "unat start + n < 2 ^ 32"
  shows "log_means start n (apply_writes (take m (home_writes start 0 d bs)) d) (apply_writes (home_writes start 0 d bs) d)"
proof -
  let ?W = "home_writes start 0 d bs" and ?d = "apply_writes (take m (home_writes start 0 d bs)) d"
  have out: "b \<notin> fst ` set (take m ?W)" if "b \<in> log_area start n" for b
    using that bs(3) home_writes_blocks [of start 0 d bs] set_take_subset [of m ?W] by blast
  have st: "?d start = d start" using bs(2) by (intro apply_other out start_area) simp
  have sl: "?d (slot start k) = d (slot start k)" if "k < length bs" for k
    using bs(2) that by (intro apply_other out slot_area(1) [OF n]) simp
  have "home_writes start 0 ?d bs = ?W" by (rule home_writes_cong) (simp add: sl)
  moreover have "apply_writes ?W ?d = apply_writes ?W d"
  proof
    fix c
    obtain f where f: "?W = map (\<lambda>b. (b, f b)) bs" using home_writes_fun [OF bs(1)] by metis
    have "apply_writes (take m ?W) d c = d c" if "c \<notin> set bs"
      using that home_writes_blocks [of start 0 d bs] set_take_subset [of m ?W] by (intro apply_other) blast
    then show "apply_writes ?W ?d c = apply_writes ?W d c" unfolding f by (simp add: apply_map)
  qed
  ultimately show ?thesis
    unfolding log_means_def using h bs by (intro exI [of _ bs]) (simp add: st)
qed

lemma recover_means:
  assumes m: "log_means start (nat n) d v" and n: "unat start + nat n < 2 ^ 32" "n \<le> 30" and dev: "dev \<noteq> 0"
  obtains r where "initlog dev start n (power_on d) = Some r" "log_inv r" "lg_lh r = []" "lg_start r = start" "lg_size r = n"
    "lg_dev r = dev" "lg_outstanding r = 0" "\<not> lg_committing r" "\<And>b. b \<notin> log_area start (nat n) \<Longrightarrow> bs_disk r b = v b"
    "bs_disk r = apply_writes (bs_writes r) d" "\<And>k. log_means start (nat n) (apply_writes (take k (bs_writes r)) d) v"
proof -
  obtain bs where bs: "head_of (d start) = Some bs" "distinct bs" "length bs < nat n" "set bs \<inter> log_area start (nat n) = {}"
    "\<And>b. b \<notin> log_area start (nat n) \<Longrightarrow> v b = apply_writes (home_writes start 0 d bs) d b"
    using m unfolding log_means_def by blast
  define s where "s = (power_on d)\<lparr>lg_start := start, lg_size := n, lg_dev := dev\<rparr>"
  have s: "lg_start s = start" "lg_dev s = dev" "lg_size s = n" "bs_disk s = d" "bs_writes s = []" "lg_outstanding s = 0" "\<not> lg_committing s"
    by (simp_all add: s_def power_on_def)
  have "bs_buf s = fst binit" "bs_lru s = snd binit" by (simp_all add: s_def power_on_def)
  note c = cache_inv_fresh [OF this dev]
  let ?W = "home_writes start 0 d bs"
  have few: "card {b. refs dev s b \<noteq> 0} = 0" using c(3) by simp
  obtain s1 where s1: "read_head s = Some (s1\<lparr>lg_lh := bs\<rparr>)" "disk_wrote dev [] (refs dev s) s s1"
    using read_head_spec [of s bs] c s bs(1) few by auto
  note w1 = disk_wroteD [OF s1(2)]
  let ?s1 = "s1\<lparr>lg_lh := bs\<rparr>"
  have "\<exists>t. install_loop True 0 bs ?s1 = Some t \<and>
      disk_wrote dev (home_writes (lg_start ?s1) 0 (view dev ?s1) bs) (\<lambda>b. if b \<in> set bs then 0 else refs dev ?s1 b) ?s1 t"
  proof (rule install_loop_spec)
    show "slot (lg_start ?s1) (0 + k) \<notin> set bs" if "k < length bs" for k
      using slot_area(1) [OF n(1), of k] bs(3,4) that w1(7) s(1) by auto
  qed (use w1 c s bs few in auto)
  moreover have "(\<lambda>b. if b \<in> set bs then 0 else refs dev ?s1 b) = (\<lambda>_. 0)" using w1(2) c(3) by (simp add: fun_eq_iff)
  moreover have "home_writes (lg_start ?s1) 0 (view dev ?s1) bs = ?W" using w1(3,7) c(2) s(1,4) by simp
  ultimately obtain s2 where s2: "install_trans True ?s1 = Some s2" "disk_wrote dev ?W (\<lambda>_. 0) ?s1 s2"
    by (auto simp: install_trans_def)
  note w2 = disk_wroteD [OF s2(2)]
  let ?s2 = "s2\<lparr>lg_lh := []\<rparr>"
  have f2: "lg_dev ?s2 = dev" "lg_start ?s2 = start" using w2(7,8) w1(7,8) s by simp_all
  have few2: "card {b. refs dev ?s2 b \<noteq> 0} < 30" and r2: "refs dev ?s2 start = 0" using w2(2) by simp_all
  obtain r where r: "write_head ?s2 = Some r"
    "disk_wrote dev [(start, store_bytes 0 (head_bytes []) (view dev s2 start))] (\<lambda>_. 0) ?s2 r"
    using write_head_spec [of ?s2, unfolded f2] w2(1,2) few2 by auto
  note w3 = disk_wroteD [OF r(2)]
  have i: "initlog dev start n (power_on d) = Some r"
    using s1(1) s2(1) r(1) by (simp add: initlog_def s_def [symmetric] recover_from_log_def)
  have mr: "lg_start r = start" "lg_size r = n" "lg_dev r = dev" "lg_outstanding r = 0" "\<not> lg_committing r" "lg_lh r = []"
    using more_fields [OF w3(6)] more_fields [OF w2(6)] more_fields [OF w1(6)] s by simp_all
  have wr: "bs_writes r = ?W @ [(start, store_bytes 0 (head_bytes []) (view dev s2 start))]"
    "bs_disk r = (apply_writes ?W d)(start := store_bytes 0 (head_bytes []) (view dev s2 start))"
    using w3(4,5) w2(4,5) w1(4,5) s by simp_all
  have "0 < n" using bs(3) by simp
  then have li: "log_inv r"
    using w3(1,2) mr n dev word_at_head by (simp add: log_inv_def wr(2))
  have dv: "bs_disk r b = v b" if "b \<notin> log_area start (nat n)" for b
    using that bs(5) start_area [of "nat n" start] \<open>0 < n\<close> by (auto simp: wr(2))
  have "log_means start (nat n) (apply_writes (take k (bs_writes r)) d) v" for k
  proof (cases "k \<le> length ?W")
    case True
    then have "take k (bs_writes r) = take k ?W" by (simp add: wr(1))
    with install_means [of d start, OF bs(1-4) n(1), of k] bs(5) show ?thesis by (auto simp: log_means_def)
  next
    case False
    then have "take k (bs_writes r) = bs_writes r" by (simp add: wr(1))
    then have "apply_writes (take k (bs_writes r)) d = bs_disk r" by (simp add: wr)
    moreover have "head_of (bs_disk r start) = Some []" by (rule head_of_zero) (simp add: wr(2) word_at_head)
    ultimately show ?thesis using dv \<open>0 < n\<close> by (simp add: log_means_def)
  qed
  moreover have "bs_disk r = apply_writes (bs_writes r) d" by (simp add: wr)
  ultimately show ?thesis using dv by (intro that [OF i li mr(6,1-5)])
qed

lemma means_cong: "log_means start n d v \<Longrightarrow> (\<And>b. b \<notin> log_area start n \<Longrightarrow> v b = w b) \<Longrightarrow> log_means start n d w"
  unfolding log_means_def by (elim exE, intro exI conjI) auto

lemma means_empty:
  assumes "word_at 0 (d start) = 0" "0 < n" "\<And>b. b \<notin> log_area start n \<Longrightarrow> v b = d b"
  shows "log_means start n d v"
  unfolding log_means_def using assms by (intro exI [of _ "[]"]) (simp add: head_of_zero)

lemma log_invD_refs:
  assumes "log_inv s"
  shows "card {b. refs (lg_dev s) s b \<noteq> 0} < 30" "refs (lg_dev s) s (lg_start s) = 0" "lg_start s \<notin> set (lg_lh s)"
    "k < length (lg_lh s) \<Longrightarrow> refs (lg_dev s) s (slot (lg_start s) k) = 0"
    "k < length (lg_lh s) \<Longrightarrow> slot (lg_start s) k \<notin> set (lg_lh s)"
    "k < length (lg_lh s) \<Longrightarrow> slot (lg_start s) k \<noteq> lg_start s"
proof -
  note d = log_invD [OF assms]
  show "card {b. refs (lg_dev s) s b \<noteq> 0} < 30" using refs_card [of "lg_lh s"] d(3,8) unfolding d(6) by linarith
  show st: "lg_start s \<notin> set (lg_lh s)" using start_area [of "nat (lg_size s)" "lg_start s"] d(2,9) by auto
  then show "refs (lg_dev s) s (lg_start s) = 0" by (simp add: d(6))
  assume "k < length (lg_lh s)"
  then have "Suc k < nat (lg_size s)" using d(8) by simp
  from slot_area [OF d(4) this] d(9) show sl: "slot (lg_start s) k \<notin> set (lg_lh s)" "slot (lg_start s) k \<noteq> lg_start s" by auto
  then show "refs (lg_dev s) s (slot (lg_start s) k) = 0" by (simp add: d(6))
qed

subsection \<open>A commit is atomic\<close>

text \<open>The writes of a commit, and what the disk means after any number of them.\<close>

definition commit_writes :: "u32 \<Rightarrow> (u32 \<Rightarrow> string) \<Rightarrow> u32 list \<Rightarrow> string \<Rightarrow> string \<Rightarrow> (u32 \<times> string) list" where
  "commit_writes start v bs x y = log_writes start 0 v bs @ [(start, x)] @ map (\<lambda>b. (b, v b)) bs @ [(start, y)]"

lemma commit_means:
  assumes bs: "distinct bs" "length bs < n" "set bs \<inter> log_area start n = {}" and n: "unat start + n < 2 ^ 32"
    and d: "word_at 0 (d start) = 0" "\<And>b. b \<notin> set bs \<Longrightarrow> v b = d b" and x: "head_of x = Some bs" and y: "word_at 0 y = 0"
  shows "log_means start n (apply_writes (take k (commit_writes start v bs x y)) d) (if k \<le> length bs then d else v)"
proof -
  let ?L = "log_writes start 0 v bs" and ?H = "map (\<lambda>b. (b, v b)) bs"
  let ?D = "(apply_writes ?L d)(start := x)"
  note len = length_log_writes [of start 0 v bs]
  have L: "fst ` set ?L \<subseteq> log_area start n" "start \<notin> fst ` set ?L"
    using bs(2) slot_area [OF n] by (auto simp: log_writes_blocks)
  have n0: "0 < n" using bs(2) by simp
  have out: "apply_writes ?L d b = d b" if "b \<notin> log_area start n" for b using that L by (intro apply_other) blast
  have "?D (slot start k) = v (bs ! k)" if "k < length bs" for k
    using apply_log_writes [OF n, of 0 bs k v d] that bs(2) slot_area(2) [OF n, of k] by simp
  then have H: "home_writes start 0 ?D bs = ?H" by (intro home_writes_map) simp
  have fin: "apply_writes ?H ?D b = v b" if "b \<notin> log_area start n" for b
    using that out d(2) start_area [OF n0, of start] by (auto simp: apply_map)
  consider "k \<le> length bs" | "length bs < k" "k \<le> 2 * length bs + 1" | "2 * length bs + 1 < k" by linarith
  then show ?thesis
  proof cases
    case 1
    have o: "b \<notin> fst ` set (take k ?L)" if "b \<notin> fst ` set ?L" for b using that set_take_subset [of k ?L] by blast
    have "apply_writes (take k ?L) d b = d b" if "b \<notin> fst ` set ?L" for b using o [OF that] by (rule apply_other)
    moreover have "b \<notin> fst ` set ?L" if "b \<notin> log_area start n" for b using that L(1) by blast
    ultimately show ?thesis using 1 L(2) by (auto simp: commit_writes_def len d(1) intro!: means_empty n0)
  next
    case 2
    define m where "m = k - length bs - 1"
    have "k = length bs + 1 + m" "m \<le> length bs" using 2 by (simp_all add: m_def)
    then have "apply_writes (take k (commit_writes start v bs x y)) d = apply_writes (take m ?H) ?D"
      by (simp add: commit_writes_def len)
    moreover have "log_means start n (apply_writes (take m ?H) ?D) (apply_writes ?H ?D)"
      using install_means [of ?D start, OF _ bs n, of m] x by (simp add: H)
    ultimately show ?thesis using 2 fin means_cong by fastforce
  next
    case 3
    then have "apply_writes (take k (commit_writes start v bs x y)) d = (apply_writes ?H ?D)(start := y)"
      by (simp add: commit_writes_def len)
    with 3 show ?thesis using y fin start_area [OF n0, of start] by (auto intro!: means_empty n0)
  qed
qed

lemma commit_effect:
  assumes inv: "log_inv s" and ne: "lg_lh s \<noteq> []"
  obtains t x y where "commit s = Some t" "cache_inv (lg_dev s) t" "refs (lg_dev s) t = (\<lambda>_. 0)"
    "bs_writes t = bs_writes s @ commit_writes (lg_start s) (view (lg_dev s) s) (lg_lh s) x y"
    "bs_disk t = apply_writes (commit_writes (lg_start s) (view (lg_dev s) s) (lg_lh s) x y) (bs_disk s)"
    "head_of x = Some (lg_lh s)" "word_at 0 y = 0"
    "lg_start t = lg_start s" "lg_size t = lg_size s" "lg_dev t = lg_dev s" "lg_outstanding t = lg_outstanding s" "lg_lh t = []"
proof -
  note d = log_invD [OF inv]
  note r = log_invD_refs [OF inv]
  let ?d = "lg_dev s" and ?h = "lg_start s" and ?bs = "lg_lh s" and ?v = "view (lg_dev s) s"
  have rb: "refs ?d s b = 1" if "b \<in> set ?bs" for b using that by (simp add: d(6))
  have "\<exists>t. write_log_loop 0 ?bs s = Some t \<and> disk_wrote ?d (log_writes ?h 0 ?v ?bs) (refs ?d s) s t"
  proof (rule write_log_loop_spec)
    show "refs ?d s (slot ?h (0 + k)) = 0" if "k < length ?bs" for k using r(4) [OF that] by (simp only: add_0)
  qed (rule d(5) HOL.refl r(1) | erule rb)+
  then obtain s1 where s1: "write_log s = Some s1" "disk_wrote ?d (log_writes ?h 0 ?v ?bs) (refs ?d s) s s1"
    unfolding write_log_def by blast
  note w1 = disk_wroteD [OF s1(2)]
  let ?x = "store_bytes 0 (head_bytes ?bs) (view ?d s1 ?h)"
  have f1: "lg_dev s1 = ?d" "lg_start s1 = ?h" "lg_lh s1 = ?bs" using w1 by simp_all
  obtain s2 where s2: "write_head s1 = Some s2" "disk_wrote ?d [(?h, ?x)] (refs ?d s) s1 s2"
    using write_head_spec [of s1, unfolded f1] w1(1,2) r(1,2) by auto
  note w2 = disk_wroteD [OF s2(2)]
  have f2: "lg_dev s2 = ?d" "lg_start s2 = ?h" "lg_lh s2 = ?bs" using w2 f1 by simp_all
  have v2: "view ?d s2 (slot ?h k) = ?v (?bs ! k)" if "k < length ?bs" for k
    using apply_log_writes [OF d(4), of 0 ?bs k ?v ?v] that d(8) r(6) [OF that] by (simp add: w2(3) w1(3))
  have "home_writes ?h 0 (view ?d s2) ?bs = map (\<lambda>b. (b, ?v b)) ?bs" by (intro home_writes_map) (simp add: v2)
  moreover have "(\<lambda>b. if b \<in> set ?bs then 0 else refs ?d s2 b) = (\<lambda>_. 0)" using w2(2) d(6) by (simp add: fun_eq_iff)
  moreover have "\<exists>t. install_loop False 0 ?bs s2 = Some t \<and>
      disk_wrote ?d (home_writes (lg_start s2) 0 (view ?d s2) ?bs) (\<lambda>b. if b \<in> set ?bs then 0 else refs ?d s2 b) s2 t"
    by (rule install_loop_spec) (use w2 f2 rb r d(7) in auto)
  ultimately obtain s3 where s3: "install_trans False s2 = Some s3" "disk_wrote ?d (map (\<lambda>b. (b, ?v b)) ?bs) (\<lambda>_. 0) s2 s3"
    using f2 by (auto simp: install_trans_def)
  note w3 = disk_wroteD [OF s3(2)]
  let ?s3 = "s3\<lparr>lg_lh := []\<rparr>"
  let ?y = "store_bytes 0 (head_bytes []) (view ?d s3 ?h)"
  have f3: "lg_dev ?s3 = ?d" "lg_start ?s3 = ?h" using w3 f2 by simp_all
  obtain t where t: "write_head ?s3 = Some t" "disk_wrote ?d [(?h, ?y)] (\<lambda>_. 0) ?s3 t"
    using write_head_spec [of ?s3, unfolded f3] w3(1,2) by auto
  note w4 = disk_wroteD [OF t(2)]
  let ?ws = "commit_writes ?h ?v ?bs ?x ?y"
  have ws: "bs_writes t = bs_writes s @ ?ws" "bs_disk t = apply_writes ?ws (bs_disk s)"
    by (simp_all add: commit_writes_def w1(3-5) w2(3-5) w3(3-5) w4(3-5))
  have mt: "lg_start t = ?h" "lg_size t = lg_size s" "lg_dev t = ?d" "lg_outstanding t = lg_outstanding s" "lg_lh t = []"
    using more_fields [OF w4(6)] more_fields [OF w3(6)] more_fields [OF w2(6)] more_fields [OF w1(6)] by simp_all
  have lb: "length ?bs \<le> 30" using d(3,8) by linarith
  have "commit s = Some t" using ne s1(1) s2(1) s3(1) t(1) by (simp add: commit_def)
  then show thesis by (rule that [OF _ w4(1,2) ws(1,2) head_of_bytes [OF lb] word_at_head mt])
qed

lemma commit_spec:
  assumes inv: "log_inv s"
  obtains t ws where "commit s = Some t" "log_inv t" "lg_lh t = []" "\<And>b. b \<notin> area s \<Longrightarrow> view (lg_dev t) t b = view (lg_dev s) s b"
    "\<And>b. b \<notin> area s \<Longrightarrow> bs_disk t b = view (lg_dev s) s b"
    "lg_start t = lg_start s" "lg_size t = lg_size s" "lg_dev t = lg_dev s" "lg_outstanding t = lg_outstanding s"
    "bs_writes t = bs_writes s @ ws" "bs_disk t = apply_writes ws (bs_disk s)"
    "\<And>k. log_means (lg_start s) (nat (lg_size s)) (apply_writes (take k ws) (bs_disk s)) (bs_disk s) \<or>
       log_means (lg_start s) (nat (lg_size s)) (apply_writes (take k ws) (bs_disk s)) (view (lg_dev s) s)"
proof -
  note d = log_invD [OF inv]
  note r = log_invD_refs [OF inv]
  have n0: "0 < nat (lg_size s)" using d(2) by simp
  show thesis
  proof (cases "lg_lh s = []")
    case True
    with d(11) have v: "view (lg_dev s) s b = bs_disk s b" for b by simp
    have "commit s = Some s" using True by (simp add: commit_def)
    moreover have "log_means (lg_start s) (nat (lg_size s)) (bs_disk s) (bs_disk s)" by (rule means_empty [of "bs_disk s", OF d(10) n0 HOL.refl])
    ultimately show ?thesis using inv True v by (intro that [of s "[]"]) simp_all
  next
    case False
    let ?h = "lg_start s" and ?bs = "lg_lh s" and ?v = "view (lg_dev s) s"
    obtain t x y where t: "commit s = Some t" "cache_inv (lg_dev s) t" "refs (lg_dev s) t = (\<lambda>_. 0)"
      "bs_writes t = bs_writes s @ commit_writes ?h ?v ?bs x y" "bs_disk t = apply_writes (commit_writes ?h ?v ?bs x y) (bs_disk s)"
      "head_of x = Some ?bs" "word_at 0 y = 0"
      and mt: "lg_start t = ?h" "lg_size t = lg_size s" "lg_dev t = lg_dev s" "lg_outstanding t = lg_outstanding s" "lg_lh t = []"
      by (rule commit_effect [OF inv False]) (rule that)
    have li: "log_inv t" using d t(2,3,7) by (simp add: log_inv_def mt t(5) commit_writes_def)
    have lt: "length ?bs < nat (lg_size s)" using d(8) by linarith
    note cm = commit_means [of ?bs "nat (lg_size s)" ?h "bs_disk s" ?v, OF d(7) lt d(9,4,10,11) t(6,7)]
    have dv: "bs_disk t b = ?v b" if "b \<notin> area s" for b
    proof -
      have "b \<notin> fst ` set (log_writes ?h 0 ?v ?bs)" "b \<noteq> ?h"
        using that r(6) slot_area(1) [OF d(4)] lt start_area [OF n0, of ?h] by (auto simp: log_writes_blocks)
      then show ?thesis using d(11) [of b] by (auto simp: t(5) commit_writes_def apply_other apply_map)
    qed
    moreover have "view (lg_dev t) t b = ?v b" if "b \<notin> area s" for b
      using cache_invD(2) [OF t(2)] dv [OF that] by (simp add: mt t(3))
    moreover have "log_means ?h (nat (lg_size s)) (apply_writes (take k (commit_writes ?h ?v ?bs x y)) (bs_disk s)) (bs_disk s) \<or>
        log_means ?h (nat (lg_size s)) (apply_writes (take k (commit_writes ?h ?v ?bs x y)) (bs_disk s)) ?v" for k
      using cm [of k] by (cases "k \<le> length ?bs") simp_all
    ultimately show ?thesis by (intro that [OF t(1) li mt(5) _ dv mt(1-4) t(4,5)])
  qed
qed

lemma update_block_spec:
  assumes inv: "log_inv s" and out: "b \<notin> area s" and room: "int (length (lg_lh s)) < lg_size s - 1" and op: "lg_outstanding s \<ge> 1"
  obtains t where "update_block b f s = Some t" "log_inv t" "view (lg_dev t) t = (view (lg_dev s) s)(b := f (view (lg_dev s) s b))"
    "lg_start t = lg_start s" "lg_size t = lg_size s" "lg_dev t = lg_dev s" "lg_outstanding t = lg_outstanding s"
    "lg_committing t = lg_committing s" "bs_writes t = bs_writes s" "bs_disk t = bs_disk s" "length (lg_lh t) \<le> Suc (length (lg_lh s))"
proof -
  note d = log_invD [OF inv]
  let ?d = "lg_dev s" and ?x = "f (view (lg_dev s) s b)"
  have r: "refs ?d s b = 0 \<or> refs ?d s b = 1" by (simp add: d(6))
  then have "refs ?d s b + 1 \<noteq> 0" by auto
  from bread_effect [OF d(5) this disjI2 [OF log_invD_refs(1) [OF inv]]] obtain i s1 where 1: "bread ?d b s = Some (i, s1)" "cache_inv ?d s1"
    "holds ?d s1 i b" "view ?d s1 = view ?d s" "refs ?d s1 = (refs ?d s)(b := refs ?d s b + 1)" "in_cache s s1" by blast
  have dt: "bf_data (bufi s1 i) = view ?d s b" using holds_view(1) [OF cache_invD(1) [OF 1(2)] 1(3)] 1(4) by simp
  let ?s2 = "set_data i ?x s1"
  have r1: "refs ?d s1 b \<noteq> 0" using 1(5) r by auto
  note 2 = set_data_effect [OF 1(2,3) r1, of ?x] 
  have h2: "holds ?d ?s2 i b" using 2(2) 1(3) by simp
  have c2: "in_cache s ?s2" by (rule in_cache_trans [OF 1(6) in_cache_upd(2)])
  note m2 = more_fields [OF in_cacheD(3) [OF c2]]
  have bn: "bf_blockno (bufi ?s2 i) = b" using h2 by (simp add: holds_def)
  let ?lh = "if b \<in> set (lg_lh s) then lg_lh s else lg_lh s @ [b]"
  define s3 where "s3 = (if b \<in> set (lg_lh s) then ?s2 else bpin i ?s2)"
  have "refs ?d ?s2 b + 1 \<noteq> 0" if "b \<notin> set (lg_lh s)" using that 2(4) 1(5) d(6) by simp
  note p = bpin_effect [OF 2(1) h2 this]
  have 3: "cache_inv ?d s3" "holds ?d s3 i b" "view ?d s3 = (view ?d s)(b := ?x)" "refs ?d s3 = (refs ?d s)(b := 2)" "in_cache s s3"
    using p 2 h2 1(4,5) c2 in_cache_trans [OF c2] d(6) by (auto simp: s3_def fun_eq_iff)
  have lw: "log_write i ?s2 = Some (s3\<lparr>lg_lh := ?lh\<rparr>)"
    using room op d(3) m2 by (simp add: log_write_def bn s3_def Let_def)
  let ?t = "brelse i (s3\<lparr>lg_lh := ?lh\<rparr>)"
  have "?t = (brelse i s3)\<lparr>lg_lh := ?lh\<rparr>" by (simp add: brelse_def upd_buf_def Let_def)
  have u: "update_block b f s = Some ?t" using 1(1) lw dt by (simp add: update_block_def)
  have "refs ?d s3 b = 1 \<Longrightarrow> view ?d s3 b = bs_disk s3 b" using 3(4) by simp
  note e = brelse_effect [OF 3(1,2) this]
  have c: "in_cache s (brelse i s3)" by (rule in_cache_trans [OF 3(5) in_cache_upd(3)])
  note mt = more_fields [OF in_cacheD(3) [OF c]]
  have rt: "refs ?d (brelse i s3) = (\<lambda>c. if c \<in> set ?lh then 1 else 0)" using e(4) 3(4) d(6) by (auto simp: fun_eq_iff)
  have "log_inv ?t"
    using d out room e(1) rt in_cacheD(1) [OF c] by (auto simp: log_inv_def \<open>?t = _\<close> mt)
  then show thesis using e(3) 3(3) mt in_cacheD [OF c] by (intro that [OF u]) (simp_all add: \<open>?t = _\<close>)
qed

subsection \<open>Any sequence of operations\<close>

datatype disk_op = Begin_op | Update u32 "string \<Rightarrow> string" | End_op

fun disk_step :: "disk_op \<Rightarrow> flog \<Rightarrow> flog option" where
  "disk_step Begin_op s = begin_op s"
| "disk_step (Update b f) s = update_block b f s"
| "disk_step End_op s = end_op s"

fun disk_run :: "disk_op list \<Rightarrow> flog \<Rightarrow> flog option" where
  "disk_run [] s = Some s"
| "disk_run (p # ps) s = do { t \<leftarrow> disk_step p s; disk_run ps t }"

text \<open>
  What the log promises, without a cache or a log: the contents the operations see, the contents a crash leaves,
  and how many operations are under way. The last to end makes the first the second.
\<close>

fun spec_step :: "disk_op \<Rightarrow> (u32 \<Rightarrow> string) \<times> (u32 \<Rightarrow> string) \<times> int \<Rightarrow> (u32 \<Rightarrow> string) \<times> (u32 \<Rightarrow> string) \<times> int" where
  "spec_step Begin_op (cur, dur, n) = (cur, dur, n + 1)"
| "spec_step (Update b f) (cur, dur, n) = (cur(b := f (cur b)), dur, n)"
| "spec_step End_op (cur, dur, n) = (if n = 1 then (cur, cur, 0) else (cur, dur, n - 1))"

definition durable :: "(u32 \<Rightarrow> string) \<Rightarrow> disk_op list \<Rightarrow> u32 \<Rightarrow> string" where
  "durable v ops = fst (snd (fold spec_step ops (v, v, 0)))"

definition outside :: "u32 set \<Rightarrow> disk_op list \<Rightarrow> bool" where
  "outside A ops \<longleftrightarrow> list_all (\<lambda>p. case p of Update b f \<Rightarrow> b \<notin> A | _ \<Rightarrow> True) ops"

text \<open>The log does what it promises.\<close>

definition log_abs :: "flog \<Rightarrow> (u32 \<Rightarrow> string) \<times> (u32 \<Rightarrow> string) \<times> int \<Rightarrow> bool" where
  "log_abs s a \<longleftrightarrow> log_inv s \<and> \<not> lg_committing s \<and> lg_outstanding s = snd (snd a) \<and>
     (\<forall>b. b \<notin> area s \<longrightarrow> view (lg_dev s) s b = fst a b \<and> bs_disk s b = fst (snd a) b)"

lemma log_absD:
  assumes "log_abs s a"
  shows "log_inv s" "\<not> lg_committing s" "lg_outstanding s = snd (snd a)" "b \<notin> area s \<Longrightarrow> view (lg_dev s) s b = fst a b"
    "b \<notin> area s \<Longrightarrow> bs_disk s b = fst (snd a) b"
  using assms by (simp_all add: log_abs_def)

text \<open>One operation: the writes it makes, and what the disk means after any number of them.\<close>

definition op_ok :: "flog \<Rightarrow> flog \<Rightarrow> (u32 \<times> string) list \<Rightarrow> (u32 \<Rightarrow> string) \<Rightarrow> (u32 \<Rightarrow> string) \<Rightarrow> bool" where
  "op_ok s t ws v w \<longleftrightarrow> lg_start t = lg_start s \<and> lg_size t = lg_size s \<and> lg_dev t = lg_dev s \<and> bs_writes t = bs_writes s @ ws \<and>
     bs_disk t = apply_writes ws (bs_disk s) \<and>
     (\<forall>k. log_means (lg_start s) (nat (lg_size s)) (apply_writes (take k ws) (bs_disk s)) v \<or>
        log_means (lg_start s) (nat (lg_size s)) (apply_writes (take k ws) (bs_disk s)) w)"

lemma abs_means:
  assumes "log_abs s a"
  shows "log_means (lg_start s) (nat (lg_size s)) (bs_disk s) (fst (snd a))"
  using log_invD(2,10) [OF log_absD(1) [OF assms]] log_absD(5) [OF assms] by (intro means_empty) simp_all

lemma log_inv_outstanding: "log_inv (s\<lparr>lg_outstanding := n\<rparr>) = log_inv s" "log_inv (s\<lparr>lg_committing := c\<rparr>) = log_inv s"
  by (simp_all add: log_inv_def)

lemma update_block_guards:
  assumes inv: "log_inv s" and u: "update_block b f s = Some t"
  shows "int (length (lg_lh s)) < lg_size s - 1" "lg_outstanding s \<ge> 1"
proof -
  note d = log_invD [OF inv]
  obtain i s1 where b: "bread (lg_dev s) b s = Some (i, s1)" and w: "log_write i (set_data i (f (bf_data (bufi s1 i))) s1) \<noteq> None"
    using u by (auto simp: update_block_def bind_eq_Some_conv)
  have "refs (lg_dev s) s b + 1 \<noteq> 0" by (simp add: d(6))
  from bread_effect [OF d(5) this disjI2 [OF log_invD_refs(1) [OF inv]]] b have "in_cache s s1" by auto
  from more_fields [OF in_cacheD(3) [OF in_cache_trans [OF this in_cache_upd(2)]]] w
  show "int (length (lg_lh s)) < lg_size s - 1" "lg_outstanding s \<ge> 1"
    by (auto simp: log_write_def Let_def split: if_splits)
qed

lemma op_ok_quiet:
  assumes a: "log_abs s a" and f: "lg_start t = lg_start s" "lg_size t = lg_size s" "lg_dev t = lg_dev s" "bs_writes t = bs_writes s" "bs_disk t = bs_disk s"
  shows "op_ok s t [] (fst (snd a)) w"
  using abs_means [OF a] f by (simp add: op_ok_def)

lemma log_step_refines:
  assumes a: "log_abs s a" and p: "disk_step p s = Some t" and out: "outside (area s) [p]"
  shows "log_abs t (spec_step p a)" "\<exists>ws. op_ok s t ws (fst (snd a)) (fst (snd (spec_step p a)))"
proof -
  obtain cur dur n where e: "a = (cur, dur, n)" by (cases a)
  note d = log_absD [OF a, unfolded e, simplified]
  have "log_abs t (spec_step p a) \<and> (\<exists>ws. op_ok s t ws (fst (snd a)) (fst (snd (spec_step p a))))"
  proof (cases p)
    case Begin_op
    then have t: "t = s\<lparr>lg_outstanding := lg_outstanding s + 1\<rparr>" using p by (auto simp: begin_op_def split: if_splits)
    have "log_abs t (spec_step p a)" using d by (simp add: t Begin_op e log_abs_def log_inv_outstanding)
    with op_ok_quiet [OF a, of t] show ?thesis by (auto simp: t)
  next
    case (Update b f)
    have u: "update_block b f s = Some t" and o: "b \<notin> area s" using p out Update by (simp_all add: outside_def)
    obtain t' where t: "update_block b f s = Some t'" "log_inv t'" "view (lg_dev t') t' = (view (lg_dev s) s)(b := f (view (lg_dev s) s b))"
      "lg_start t' = lg_start s" "lg_size t' = lg_size s" "lg_dev t' = lg_dev s" "lg_outstanding t' = lg_outstanding s"
      "lg_committing t' = lg_committing s" "bs_writes t' = bs_writes s" "bs_disk t' = bs_disk s"
      by (rule update_block_spec [OF d(1) o update_block_guards [OF d(1) u]])
    have [simp]: "t' = t" using t(1) u by simp
    note t = t [simplified]
    have "log_abs t (spec_step p a)" using d t o by (simp add: Update e log_abs_def)
    with op_ok_quiet [OF a t(4-6,9,10)] show ?thesis by blast
  next
    case End_op
    show ?thesis
    proof (cases "n = 1")
      case False
      with p d have t: "t = s\<lparr>lg_outstanding := lg_outstanding s - 1\<rparr>" by (simp add: End_op end_op_def Let_def)
      have "log_abs t (spec_step p a)" using d False by (simp add: t End_op e log_abs_def log_inv_outstanding)
      with op_ok_quiet [OF a, of t] show ?thesis by (auto simp: t)
    next
      case True
      define q where "q = s\<lparr>lg_outstanding := lg_outstanding s - 1, lg_committing := True\<rparr>"
      have inv: "log_inv q" using d(1) by (simp add: q_def log_inv_outstanding)
      obtain u ws where u: "commit q = Some u" "log_inv u" "lg_lh u = []" "\<And>b. b \<notin> area q \<Longrightarrow> view (lg_dev u) u b = view (lg_dev q) q b"
        "\<And>b. b \<notin> area q \<Longrightarrow> bs_disk u b = view (lg_dev q) q b"
        "lg_start u = lg_start q" "lg_size u = lg_size q" "lg_dev u = lg_dev q" "lg_outstanding u = lg_outstanding q"
        "bs_writes u = bs_writes q @ ws" "bs_disk u = apply_writes ws (bs_disk q)"
        "\<And>k. log_means (lg_start q) (nat (lg_size q)) (apply_writes (take k ws) (bs_disk q)) (bs_disk q) \<or>
           log_means (lg_start q) (nat (lg_size q)) (apply_writes (take k ws) (bs_disk q)) (view (lg_dev q) q)"
        by (rule commit_spec [OF inv]) (rule that)
      have q: "view c q = view c s" "bs_disk q = bs_disk s" "bs_writes q = bs_writes s" "lg_start q = lg_start s"
        "lg_size q = lg_size s" "lg_dev q = lg_dev s" "lg_outstanding q = lg_outstanding s - 1" for c by (simp_all add: q_def)
      note u = u [unfolded q]
      have t: "t = u\<lparr>lg_committing := False\<rparr>" using p d True u(1) by (simp add: q_def End_op end_op_def Let_def)
      have "log_abs t (spec_step p a)"
        using d True u(2,4-9) by (simp add: t End_op e log_abs_def log_inv_outstanding)
      moreover have m: "log_means (lg_start s) (nat (lg_size s)) (apply_writes (take k ws) (bs_disk s)) dur \<or>
          log_means (lg_start s) (nat (lg_size s)) (apply_writes (take k ws) (bs_disk s)) cur" for k
        using u(12) [of k] means_cong [of _ _ _ "view (lg_dev s) s" cur, OF _ d(4)] means_cong [of _ _ _ "bs_disk s" dur, OF _ d(5)] by blast
      moreover have "op_ok s t ws dur cur"
        unfolding op_ok_def using u(6-8,10,11) m by (simp add: t)
      ultimately show ?thesis using True by (auto simp: e End_op)
    qed
  qed
  then show "log_abs t (spec_step p a)" "\<exists>ws. op_ok s t ws (fst (snd a)) (fst (snd (spec_step p a)))" by blast+
qed

lemma disk_run_refines:
  assumes "disk_run ops s = Some t" "log_abs s a" "outside (area s) ops"
  shows "log_abs t (fold spec_step ops a) \<and> lg_start t = lg_start s \<and> lg_size t = lg_size s \<and> lg_dev t = lg_dev s \<and>
    (\<exists>ws. bs_writes t = bs_writes s @ ws \<and> bs_disk t = apply_writes ws (bs_disk s))"
  using assms
proof (induction ops arbitrary: s a)
  case (Cons p ops)
  then obtain u where u: "disk_step p s = Some u" "disk_run ops u = Some t" by (auto simp: bind_eq_Some_conv)
  have o: "outside (area s) [p]" "outside (area s) ops" using Cons.prems(3) by (simp_all add: outside_def)
  note r = log_step_refines [OF Cons.prems(2) u(1) o(1)]
  then obtain ws where w: "op_ok s u ws (fst (snd a)) (fst (snd (spec_step p a)))" by blast
  have "area u = area s" using w by (simp add: op_ok_def)
  with Cons.IH [OF u(2) r(1)] o(2) w show ?case by (auto simp: op_ok_def)
qed simp

lemma boot_abs:
  assumes m: "log_means start (nat n) d v" and n: "unat start + nat n < 2 ^ 32" "n \<le> 30" and dev: "dev \<noteq> 0"
  obtains r where "initlog dev start n (power_on d) = Some r" "log_abs r (v, v, 0)" "lg_lh r = []" "lg_start r = start" "lg_size r = n"
    "bs_disk r = apply_writes (bs_writes r) d"
proof -
  obtain r0 where r0: "initlog dev start n (power_on d) = Some r0" "log_inv r0" "lg_lh r0 = []" "lg_start r0 = start" "lg_size r0 = n"
    "lg_dev r0 = dev" "lg_outstanding r0 = 0" "\<not> lg_committing r0" "\<And>b. b \<notin> log_area start (nat n) \<Longrightarrow> bs_disk r0 b = v b"
    "bs_disk r0 = apply_writes (bs_writes r0) d" "\<And>k. log_means start (nat n) (apply_writes (take k (bs_writes r0)) d) v"
    by (rule recover_means [OF m n dev]) (rule that)
  have "log_abs r0 (v, v, 0)" using r0 log_invD(11) [OF r0(2)] by (simp add: log_abs_def)
  with r0 show ?thesis by (intro that) simp_all
qed

text \<open>A system call of the file system: one operation that changes some blocks.\<close>

definition transaction :: "(u32 \<times> (string \<Rightarrow> string)) list \<Rightarrow> disk_op list" where
  "transaction ups = Begin_op # map (\<lambda>(b, f). Update b f) ups @ [End_op]"

definition apply_updates :: "(u32 \<times> (string \<Rightarrow> string)) list \<Rightarrow> (u32 \<Rightarrow> string) \<Rightarrow> u32 \<Rightarrow> string" where
  "apply_updates ups v = fold (\<lambda>(b, f) c. c(b := f (c b))) ups v"

lemma disk_run_append: "disk_run (ps @ qs) s = (case disk_run ps s of None \<Rightarrow> None | Some t \<Rightarrow> disk_run qs t)"
  by (induction ps arbitrary: s) (auto split: Option.bind_splits)

lemma spec_updates: "fold spec_step (map (\<lambda>(b, f). Update b f) ups) (cur, dur, n) = (apply_updates ups cur, dur, n)"
  by (induction ups arbitrary: cur) (auto simp: apply_updates_def)

lemma spec_transaction: "fold spec_step (transaction ups) (v, v, 0) = (apply_updates ups v, apply_updates ups v, 0)"
  using spec_updates [of ups v v 1] by (simp add: transaction_def)

lemma updates_run:
  assumes "log_inv s" "lg_outstanding s \<ge> 1" "int (length (lg_lh s) + length ups) < lg_size s" "fst ` set ups \<inter> area s = {}"
  shows "\<exists>t. disk_run (map (\<lambda>(b, f). Update b f) ups) s = Some t \<and> log_inv t \<and> lg_outstanding t = lg_outstanding s \<and>
    lg_committing t = lg_committing s \<and> lg_size t = lg_size s"
  using assms
proof (induction ups arbitrary: s)
  case (Cons u ups)
  obtain b f where u: "u = (b, f)" by (cases u)
  have o: "b \<notin> area s" and room: "int (length (lg_lh s)) < lg_size s - 1" using Cons.prems(3,4) u by auto
  obtain t where t: "update_block b f s = Some t" "log_inv t" "view (lg_dev t) t = (view (lg_dev s) s)(b := f (view (lg_dev s) s b))"
    "lg_start t = lg_start s" "lg_size t = lg_size s" "lg_dev t = lg_dev s" "lg_outstanding t = lg_outstanding s"
    "lg_committing t = lg_committing s" "bs_writes t = bs_writes s" "bs_disk t = bs_disk s" "length (lg_lh t) \<le> Suc (length (lg_lh s))"
    by (rule update_block_spec [OF Cons.prems(1) o room Cons.prems(2)]) (rule that)
  have "int (length (lg_lh t) + length ups) < lg_size t" "fst ` set ups \<inter> area t = {}" using Cons.prems(3,4) t by auto
  with Cons.IH [OF t(2)] Cons.prems(2) t show ?case by (simp add: u)
qed simp

lemma transaction_runs:
  assumes a: "log_abs s (v, v, 0)" and l: "lg_lh s = []" and ups: "int (length ups) < lg_size s" "fst ` set ups \<inter> area s = {}"
  shows "\<exists>t. disk_run (transaction ups) s = Some t \<and> log_abs t (apply_updates ups v, apply_updates ups v, 0) \<and>
    lg_lh t = [] \<and> lg_start t = lg_start s \<and> lg_size t = lg_size s"
proof -
  note d = log_absD [OF a, simplified]
  let ?s = "s\<lparr>lg_outstanding := 1\<rparr>"
  have b: "begin_op s = Some ?s" using d l by (simp add: begin_op_def)
  obtain u where u: "disk_run (map (\<lambda>(b, f). Update b f) ups) ?s = Some u" "log_inv u" "lg_outstanding u = 1" "\<not> lg_committing u"
    using updates_run [of ?s ups] d l ups by (auto simp: log_inv_outstanding)
  let ?u = "u\<lparr>lg_outstanding := 0, lg_committing := True\<rparr>"
  have "log_inv ?u" using u(2) by (simp add: log_inv_outstanding)
  then obtain t where t: "commit ?u = Some t" "lg_lh t = []" by (rule commit_spec)
  have e: "end_op u = Some (t\<lparr>lg_committing := False\<rparr>)" using u(3,4) t(1) by (simp add: end_op_def)
  let ?t = "t\<lparr>lg_committing := False\<rparr>"
  have r: "disk_run (transaction ups) s = Some ?t" by (simp add: transaction_def b disk_run_append u(1) e)
  have "outside (area s) (transaction ups)"
    using ups(2) by (auto simp: outside_def transaction_def list_all_iff split: disk_op.split)
  from disk_run_refines [OF r a this] r t(2) show ?thesis by (simp add: spec_transaction)
qed

lemma transactions_run:
  assumes "log_abs s (v, v, 0)" "lg_lh s = []" "\<And>ups. ups \<in> set txs \<Longrightarrow> int (length ups) < lg_size s \<and> fst ` set ups \<inter> area s = {}"
  shows "\<exists>t. disk_run (concat (map transaction txs)) s = Some t \<and> log_abs t (fold apply_updates txs v, fold apply_updates txs v, 0) \<and>
    lg_lh t = [] \<and> lg_start t = lg_start s \<and> lg_size t = lg_size s"
  using assms
proof (induction txs arbitrary: s v)
  case (Cons ups txs)
  have p: "int (length ups) < lg_size s" "fst ` set ups \<inter> area s = {}" using Cons.prems(3) [of ups] by simp_all
  from transaction_runs [OF Cons.prems(1,2) p] obtain t where t: "disk_run (transaction ups) s = Some t"
    "log_abs t (apply_updates ups v, apply_updates ups v, 0)" "lg_lh t = []" "lg_start t = lg_start s" "lg_size t = lg_size s" by blast
  have "int (length us) < lg_size t \<and> fst ` set us \<inter> area t = {}" if "us \<in> set txs" for us
    using Cons.prems(3) [of us] that t(4,5) by simp
  from Cons.IH [OF t(2,3) this] t show ?case by (simp add: disk_run_append)
qed simp



text \<open>C5 (log_crash_atomic).
  A crash after any write of the disk, between the operations or in the middle of one, leaves a disk from which
  \<open>initlog\<close> restores, in every block outside the log, either what the operations before had made durable or what
  this one makes durable; and a crash during that recovery is no different.
\<close>

theorem log_crash_atomic:
  assumes d: "log_means start (nat n) d v" and n: "unat start + nat n < 2 ^ 32" "n \<le> 30" and dev: "dev \<noteq> 0"
    and run: "initlog dev start n (power_on d) = Some s0" "disk_run ops s0 = Some s" "disk_step p s = Some t"
    and out: "outside (log_area start (nat n)) (ops @ [p])"
    and k: "length (bs_writes s) \<le> k" and d': "d' = apply_writes (take k (bs_writes t)) d"
  shows "\<exists>r w. (w = durable v ops \<or> w = durable v (ops @ [p])) \<and> initlog dev start n (power_on d') = Some r \<and>
    (\<forall>b. b \<notin> log_area start (nat n) \<longrightarrow> bs_disk r b = w b) \<and>
    (\<forall>j. log_means start (nat n) (apply_writes (take j (bs_writes r)) d') w)"
proof -
  obtain r0 where r0: "initlog dev start n (power_on d) = Some r0" "log_abs r0 (v, v, 0)" "lg_lh r0 = []" "lg_start r0 = start" "lg_size r0 = n"
    "bs_disk r0 = apply_writes (bs_writes r0) d"
    by (rule boot_abs [OF d n dev])
  have [simp]: "r0 = s0" using r0(1) run(1) by simp
  note r0 = r0 [simplified]
  note a = disk_run_refines [OF run(2) r0(2)]
  have o: "outside (area s0) ops" "outside (area s0) [p]" using out r0(4,5) by (simp_all add: outside_def)
  note a = a [OF o(1)]
  then obtain ws where ws: "bs_writes s = bs_writes s0 @ ws" "bs_disk s = apply_writes ws (bs_disk s0)" by blast
  have ar: "area s = area s0" using a by simp
  obtain xs where xs: "op_ok s t xs (durable v ops) (durable v (ops @ [p]))"
    using log_step_refines(2) [of s _ p t, OF conjunct1 [OF a] run(3)] o(2) ar by (auto simp: durable_def)
  let ?j = "k - length (bs_writes s)"
  have e: "d' = apply_writes (take ?j xs) (bs_disk s)"
    using xs k ws r0(6) by (simp add: d' op_ok_def)
  have "\<exists>w. (w = durable v ops \<or> w = durable v (ops @ [p])) \<and> log_means start (nat n) d' w"
    using xs a r0(4,5) unfolding e op_ok_def by auto
  then obtain w where w: "w = durable v ops \<or> w = durable v (ops @ [p])" "log_means start (nat n) d' w" by blast
  obtain r where "initlog dev start n (power_on d') = Some r" "\<And>b. b \<notin> log_area start (nat n) \<Longrightarrow> bs_disk r b = w b"
    "\<And>j. log_means start (nat n) (apply_writes (take j (bs_writes r)) d') w"
    by (rule recover_means [OF w(2) n dev]) (rule that)
  with w(1) show ?thesis by blast
qed

theorem log_crash_atomic_witness:
  "\<exists>s0 s t r. initlog 1 2 30 (power_on (\<lambda>_. [])) = Some s0 \<and> disk_run [Begin_op, Update 40 (\<lambda>_. ''x'')] s0 = Some s \<and>
     disk_step End_op s = Some t \<and>
     initlog 1 2 30 (power_on (apply_writes (take (length (bs_writes s) + 2) (bs_writes t)) (\<lambda>_. []))) = Some r \<and>
     bs_disk r 40 \<in> {[], ''x''}"
proof -
  have m: "log_means 2 (nat 30) (\<lambda>_. []) (\<lambda>_. [])" by (rule means_empty) (simp_all add: word_at_def)
  obtain s0 where b: "initlog 1 2 30 (power_on (\<lambda>_. [])) = Some s0" "log_abs s0 (\<lambda>_. [], \<lambda>_. [], 0)" "lg_lh s0 = []"
    "lg_start s0 = 2" "lg_size s0 = 30" "bs_disk s0 = apply_writes (bs_writes s0) (\<lambda>_. [])"
    by (rule boot_abs [OF m, where dev = 1]) simp_all
  have "\<exists>t. disk_run (transaction [(40, \<lambda>_. ''x'')]) s0 = Some t"
    using transaction_runs [OF b(2,3), of "[(40, \<lambda>_. ''x'')]"] b(4,5) by (auto simp: log_area_def)
  then obtain t where "disk_run ([Begin_op, Update 40 (\<lambda>_. ''x'')] @ [End_op]) s0 = Some t" by (auto simp: transaction_def)
  then obtain s where s: "disk_run [Begin_op, Update 40 (\<lambda>_. ''x'')] s0 = Some s" "disk_step End_op s = Some t"
    unfolding disk_run_append by (auto split: option.splits Option.bind_splits)
  let ?d = "apply_writes (take (length (bs_writes s) + 2) (bs_writes t)) (\<lambda>_. [])"
  obtain r w where "w = durable (\<lambda>_. []) [Begin_op, Update 40 (\<lambda>_. ''x'')] \<or> w = durable (\<lambda>_. []) ([Begin_op, Update 40 (\<lambda>_. ''x'')] @ [End_op])"
    "initlog 1 2 30 (power_on ?d) = Some r" "\<forall>b. b \<notin> log_area 2 (nat 30) \<longrightarrow> bs_disk r b = w b"
    using log_crash_atomic [OF m _ _ _ b(1) s, of "length (bs_writes s) + 2" ?d] by (auto simp: outside_def log_area_def)
  with b(1) s show ?thesis by (intro exI [of _ s0] exI [of _ s] exI [of _ t] exI [of _ r]) (auto simp: durable_def log_area_def)
qed

text \<open>
  Three operations of ten blocks are let in, but a log of thirty blocks has one for the header: the thirtieth block is
  a panic.
\<close>

lemma reservation_exceeds_log:
  "lg_lh s = [] \<Longrightarrow> lg_outstanding s = 2 \<Longrightarrow> \<not> lg_committing s \<Longrightarrow> begin_op s = Some (s\<lparr>lg_outstanding := 3\<rparr>)"
  "log_inv u \<Longrightarrow> lg_size u = 30 \<Longrightarrow> length (lg_lh u) = 29 \<Longrightarrow> update_block b f u = None"
  using update_block_guards(1) [of u b f] by (auto simp: begin_op_def intro: ccontr)

end
