(* ===== verification/FsBlocks.thy ===== *)
theory FsBlocks
  imports FileSys "HOL-Library.Multiset"
begin

text \<open>
  What keeps the file system in order (kernel/fs.c): no block belongs to two files or twice to one, every block of a
  file is marked used in the bitmap, and the reference count of an entry of the inode table is the number of holders.
  The invariant is stated with the multiset of the handles that are held; here are the operations on blocks, on
  the inode table and on the bytes of a file, and each says how it changes the multiset.
\<close>

subsection \<open>The blocks of a file\<close>

text \<open>The block pointers of an inode: twelve direct ones, the one to the indirect block, and its 256 entries.\<close>

definition cell_of :: "(u32 \<Rightarrow> string) \<Rightarrow> u32 list \<Rightarrow> nat \<Rightarrow> u32" where
  "cell_of B as k =
     (if k < 13 then as ! k else if as ! 12 = 0 then 0 else indirect_entry (B (as ! 12)) (k - 13))"

text \<open>The current addresses of inode \<open>m\<close>: those in memory when there is a valid copy, else those on disk.\<close>

definition mem_of :: "fsk \<Rightarrow> nat \<Rightarrow> nat option" where
  "mem_of fs m = first_slot (\<lambda>ip. in_used ip \<and> in_valid ip \<and> unat (in_inum ip) = m) (fk_itable fs)"

definition addrs_of :: "fsk \<Rightarrow> nat \<Rightarrow> u32 list" where
  "addrs_of fs m = (case mem_of fs m of None \<Rightarrow> di_addrs (fk_dinodes fs ! m) | Some i \<Rightarrow> di_addrs (ino fs i))"

definition cell :: "fsk \<Rightarrow> nat \<Rightarrow> nat \<Rightarrow> u32" where
  "cell fs m k = cell_of (fk_blocks fs) (addrs_of fs m) k"

definition allocated :: "fsk \<Rightarrow> u32 \<Rightarrow> bool" where
  "allocated fs b \<longleftrightarrow> unat b < length (fk_bitmap fs) \<and> fk_bitmap fs ! unat b"

definition blocks_ok :: "fsk \<Rightarrow> bool" where
  "blocks_ok fs \<longleftrightarrow>
     (\<forall>m < length (fk_dinodes fs). \<forall>k < 269. cell fs m k \<noteq> 0 \<longrightarrow> allocated fs (cell fs m k) \<and>
        (\<forall>m' < length (fk_dinodes fs). \<forall>k' < 269. cell fs m' k' = cell fs m k \<longrightarrow> m' = m \<and> k' = k))"

subsection \<open>The inode table and the disk\<close>

text \<open>A valid copy may have pointers the disk does not have yet, but none that differ.\<close>

definition copy_ok :: "dinode list \<Rightarrow> inode \<Rightarrow> bool" where
  "copy_ok ds ip \<longleftrightarrow> unat (in_inum ip) < length ds \<and> length (di_addrs ip) = 13 \<and> di_type ip \<noteq> 0 \<and>
     di_type (ds ! unat (in_inum ip)) \<noteq> 0 \<and>
     (\<forall>k < 13. di_addrs (ds ! unat (in_inum ip)) ! k \<noteq> 0 \<longrightarrow> di_addrs (ds ! unat (in_inum ip)) ! k = di_addrs ip ! k)"

definition table_ok :: "fsk \<Rightarrow> nat multiset \<Rightarrow> bool" where
  "table_ok fs H \<longleftrightarrow> length (fk_itable fs) = 50 \<and> set_mset H \<subseteq> {..<50} \<and>
     inj_on (\<lambda>i. in_inum (ino fs i)) (set_mset H) \<and>
     (\<forall>i < 50. in_ref (ino fs i) = int (count H i)) \<and>
     (\<forall>i \<in># H. in_dev (ino fs i) = ROOTDEV \<and> (in_valid (ino fs i) \<longrightarrow> copy_ok (fk_dinodes fs) (ino fs i)))"

definition disk_ok :: "fsk \<Rightarrow> bool" where
  "disk_ok fs \<longleftrightarrow> (\<forall>d \<in> set (fk_dinodes fs). length (di_addrs d) = 13) \<and> (\<forall>b. length (fk_blocks fs b) = BSIZE) \<and>
     length (fk_bitmap fs) < 2 ^ 32 \<and> length (fk_dinodes fs) < 2 ^ 32"

definition fs_inv :: "fsk \<Rightarrow> nat multiset \<Rightarrow> bool" where
  "fs_inv fs H \<longleftrightarrow> table_ok fs H \<and> disk_ok fs \<and> blocks_ok fs"

text \<open>What is locked stays valid as long as it is held.\<close>

definition keeps_valid :: "nat multiset \<Rightarrow> fsk \<Rightarrow> fsk \<Rightarrow> bool" where
  "keeps_valid H fs fs' \<longleftrightarrow> (\<forall>i \<in># H. in_valid (ino fs i) \<longrightarrow> in_valid (ino fs' i))"

lemma keeps_validD: "keeps_valid H fs fs' \<Longrightarrow> i \<in># H \<Longrightarrow> in_valid (ino fs i) \<Longrightarrow> in_valid (ino fs' i)"
  by (simp add: keeps_valid_def)

lemma keeps_valid_refl [simp]: "keeps_valid H fs fs"
  by (simp add: keeps_valid_def)

lemma keeps_valid_trans: "keeps_valid H fs fs' \<Longrightarrow> keeps_valid H' fs' fs'' \<Longrightarrow> H \<subseteq># H' \<Longrightarrow> keeps_valid H fs fs''"
  unfolding keeps_valid_def by (meson mset_subset_eqD)

lemma keeps_valid_less: "keeps_valid H fs fs' \<Longrightarrow> G \<subseteq># H \<Longrightarrow> keeps_valid G fs fs'"
  unfolding keeps_valid_def by (meson mset_subset_eqD)

lemma table_okD:
  assumes "table_ok fs H"
  shows "length (fk_itable fs) = 50" "i \<in># H \<Longrightarrow> i < 50" "inj_on (\<lambda>i. in_inum (ino fs i)) (set_mset H)"
    "i < 50 \<Longrightarrow> in_ref (ino fs i) = int (count H i)" "i \<in># H \<Longrightarrow> in_dev (ino fs i) = ROOTDEV"
    "i \<in># H \<Longrightarrow> in_valid (ino fs i) \<Longrightarrow> copy_ok (fk_dinodes fs) (ino fs i)"
  using assms by (auto simp: table_ok_def)

lemma used_held: "table_ok fs H \<Longrightarrow> i < 50 \<Longrightarrow> in_used (ino fs i) \<longleftrightarrow> i \<in># H"
  by (simp add: table_okD(4) in_used_def count_greater_zero_iff [symmetric] del: count_greater_zero_iff)

lemma held_unique: "table_ok fs H \<Longrightarrow> i \<in># H \<Longrightarrow> j \<in># H \<Longrightarrow> in_inum (ino fs i) = in_inum (ino fs j) \<Longrightarrow> i = j"
  using table_okD(3) by (auto dest: inj_onD)

lemma mem_of_Some:
  assumes t: "table_ok fs H"
  shows "mem_of fs m = Some i \<longleftrightarrow> i \<in># H \<and> in_valid (ino fs i) \<and> unat (in_inum (ino fs i)) = m"
proof
  assume "mem_of fs m = Some i"
  then have "i < 50" "in_used (ino fs i) \<and> in_valid (ino fs i) \<and> unat (in_inum (ino fs i)) = m"
    using table_okD(1) [OF t] first_slot_SomeD unfolding mem_of_def by fastforce+
  with used_held [OF t] show "i \<in># H \<and> in_valid (ino fs i) \<and> unat (in_inum (ino fs i)) = m" by blast
next
  assume i: "i \<in># H \<and> in_valid (ino fs i) \<and> unat (in_inum (ino fs i)) = m"
  have "i < 50" using table_okD(2) [OF t] i by blast
  show "mem_of fs m = Some i" unfolding mem_of_def
  proof (rule first_slotI)
    show "i < length (fk_itable fs)" using \<open>i < 50\<close> table_okD(1) [OF t] by simp
    show "in_used (ino fs i) \<and> in_valid (ino fs i) \<and> unat (in_inum (ino fs i)) = m"
      using i used_held [OF t \<open>i < 50\<close>] by blast
    fix j assume "j < i"
    then have "j < 50" using \<open>i < 50\<close> by simp
    show "\<not> (in_used (ino fs j) \<and> in_valid (ino fs j) \<and> unat (in_inum (ino fs j)) = m)"
    proof
      assume j: "in_used (ino fs j) \<and> in_valid (ino fs j) \<and> unat (in_inum (ino fs j)) = m"
      then have "j \<in># H" using used_held [OF t \<open>j < 50\<close>] by blast
      with i j have "j = i" by (intro held_unique [OF t]) (auto intro: unsigned_word_eqI)
      with \<open>j < i\<close> show False by simp
    qed
  qed
qed

lemma addrs_mem: "table_ok fs H \<Longrightarrow> i \<in># H \<Longrightarrow> in_valid (ino fs i) \<Longrightarrow> addrs_of fs (unat (in_inum (ino fs i))) = di_addrs (ino fs i)"
  by (simp add: addrs_of_def mem_of_Some [THEN iffD2])

lemma addrs_disk:
  assumes "table_ok fs H" "\<And>i. i \<in># H \<Longrightarrow> in_valid (ino fs i) \<Longrightarrow> unat (in_inum (ino fs i)) \<noteq> m"
  shows "addrs_of fs m = di_addrs (fk_dinodes fs ! m)"
proof -
  have "mem_of fs m = None" using mem_of_Some [OF assms(1), of m] assms(2) by (cases "mem_of fs m") auto
  then show ?thesis by (simp add: addrs_of_def)
qed

lemma blocks_okD:
  assumes "blocks_ok fs" "m < length (fk_dinodes fs)" "k < 269" "cell fs m k \<noteq> 0"
  shows "allocated fs (cell fs m k)"
    "m' < length (fk_dinodes fs) \<Longrightarrow> k' < 269 \<Longrightarrow> cell fs m' k' = cell fs m k \<Longrightarrow> m' = m \<and> k' = k"
  using assms unfolding blocks_ok_def by blast+

text \<open>Losing pointers does no harm.\<close>

lemma blocks_ok_less:
  assumes "blocks_ok fs" "length (fk_dinodes fs') = length (fk_dinodes fs)"
    and "\<And>m k. m < length (fk_dinodes fs) \<Longrightarrow> k < 269 \<Longrightarrow> cell fs' m k \<noteq> 0 \<Longrightarrow> cell fs' m k = cell fs m k \<and> allocated fs' (cell fs' m k)"
  shows "blocks_ok fs'"
  unfolding blocks_ok_def assms(2)
proof (intro allI impI conjI)
  fix m k assume c: "m < length (fk_dinodes fs)" "k < 269" "cell fs' m k \<noteq> 0"
  show "allocated fs' (cell fs' m k)" using assms(3) [OF c] by blast
  fix m' k' assume "m' < length (fk_dinodes fs)" "k' < 269" "cell fs' m' k' = cell fs' m k"
  moreover from this c(3) have "cell fs' m' k' = cell fs m' k'" "cell fs' m k = cell fs m k" using assms(3) c by simp_all
  ultimately show "m' = m" "k' = k" using blocks_okD(2) [OF assms(1) c(1,2), of m' k'] c(3) by auto
qed

subsection \<open>Changing one entry of the table\<close>

lemma ino_upd: "length (fk_itable fs) = 50 \<Longrightarrow> j < 50 \<Longrightarrow> ino (upd_ino i f fs) j = (if j = i then f (ino fs i) else ino fs j)"
  by (simp add: upd_ino_def nth_list_update)

lemma upd_ino_frame [simp]: "fk_dinodes (upd_ino i f fs) = fk_dinodes fs" "fk_blocks (upd_ino i f fs) = fk_blocks fs"
  "fk_bitmap (upd_ino i f fs) = fk_bitmap fs" "length (fk_itable (upd_ino i f fs)) = length (fk_itable fs)"
  by (simp_all add: upd_ino_def)

lemma valid_upd: "in_valid (f (ino fs i)) = in_valid (ino fs i) \<Longrightarrow> in_valid (ino (upd_ino i f fs) j) = in_valid (ino fs j)"
  by (cases "i < length (fk_itable fs)"; cases "j = i") (simp_all add: upd_ino_def list_update_beyond)

text \<open>The handles of the other entries are the same.\<close>

definition same_others :: "nat \<Rightarrow> nat multiset \<Rightarrow> nat multiset \<Rightarrow> bool" where
  "same_others i H H' \<longleftrightarrow> (\<forall>j. j \<noteq> i \<longrightarrow> count H' j = count H j)"

lemma same_others_simps [simp]: "same_others i H H" "same_others i H (add_mset i H)" "same_others i H (H - {#i#})"
  by (simp_all add: same_others_def)

lemma same_othersD: "same_others i H H' \<Longrightarrow> j \<noteq> i \<Longrightarrow> j \<in># H' \<longleftrightarrow> j \<in># H"
  unfolding same_others_def by (metis count_inI not_in_iff)

lemma table_ok_upd:
  assumes t: "table_ok fs H" and i: "i < 50" and h: "same_others i H H'" and r: "in_ref (f (ino fs i)) = int (count H' i)"
    and e: "i \<in># H' \<Longrightarrow> in_dev (f (ino fs i)) = ROOTDEV" "i \<in># H' \<Longrightarrow> in_valid (f (ino fs i)) \<Longrightarrow> copy_ok (fk_dinodes fs) (f (ino fs i))"
    "\<And>j. i \<in># H' \<Longrightarrow> j \<in># H \<Longrightarrow> j \<noteq> i \<Longrightarrow> in_inum (ino fs j) \<noteq> in_inum (f (ino fs i))"
  shows "table_ok (upd_ino i f fs) H'"
proof -
  note d = table_okD [OF t]
  note s = same_othersD [OF h]
  have u: "ino (upd_ino i f fs) j = (if j = i then f (ino fs i) else ino fs j)" if "j < 50" for j using ino_upd [OF d(1) that] .
  have l: "j < 50" if "j \<in># H'" for j using s [of j] d(2) [of j] i that by (cases "j = i") auto
  have "inj_on (\<lambda>j. in_inum (ino (upd_ino i f fs) j)) (set_mset H')"
  proof (rule inj_onI)
    fix j k assume jk: "j \<in># H'" "k \<in># H'" "in_inum (ino (upd_ino i f fs) j) = in_inum (ino (upd_ino i f fs) k)"
    then show "j = k"
      using held_unique [OF t, of j k] s e(3) [of j] e(3) [of k] by (cases "j = i"; cases "k = i") (auto simp: u l)
  qed
  moreover have "in_ref (ino (upd_ino i f fs) j) = int (count H' j)" if "j < 50" for j
    using d(4) [OF that] h r that by (simp add: u same_others_def)
  moreover have "in_dev (ino (upd_ino i f fs) j) = ROOTDEV \<and>
      (in_valid (ino (upd_ino i f fs) j) \<longrightarrow> copy_ok (fk_dinodes fs) (ino (upd_ino i f fs) j))" if "j \<in># H'" for j
    using d(5,6) [of j] s [of j] e(1,2) that by (cases "j = i") (auto simp: u l)
  ultimately show ?thesis unfolding table_ok_def using d(1) l by auto
qed

lemma addrs_of_upd:
  assumes t: "table_ok fs H" and t': "table_ok fs' H'" and h: "same_others i H H'" and o: "\<And>j. j < 50 \<Longrightarrow> j \<noteq> i \<Longrightarrow> ino fs' j = ino fs j"
  shows "addrs_of fs' m =
    (if i \<in># H' \<and> in_valid (ino fs' i) \<and> unat (in_inum (ino fs' i)) = m then di_addrs (ino fs' i)
     else if i \<in># H \<and> in_valid (ino fs i) \<and> unat (in_inum (ino fs i)) = m then di_addrs (fk_dinodes fs' ! m)
     else if mem_of fs m = None then di_addrs (fk_dinodes fs' ! m) else addrs_of fs m)"
proof -
  note s = same_othersD [OF h]
  have other: "mem_of fs' m = Some j \<longleftrightarrow> mem_of fs m = Some j" if "j \<noteq> i" for j
    unfolding mem_of_Some [OF t] mem_of_Some [OF t'] using s [OF that] o [OF _ that] table_okD(2) [OF t, of j] by auto
  have mine: "mem_of fs' m = Some i \<longleftrightarrow> i \<in># H' \<and> in_valid (ino fs' i) \<and> unat (in_inum (ino fs' i)) = m"
    "mem_of fs m = Some i \<longleftrightarrow> i \<in># H \<and> in_valid (ino fs i) \<and> unat (in_inum (ino fs i)) = m"
    by (rule mem_of_Some [OF t'], rule mem_of_Some [OF t])
  show ?thesis
  proof (cases "mem_of fs' m")
    case None
    then have "mem_of fs m = None \<or> mem_of fs m = Some i" using other by (cases "mem_of fs m") auto
    with None mine show ?thesis by (auto simp: addrs_of_def)
  next
    case (Some j)
    show ?thesis
    proof (cases "j = i")
      case True
      with Some mine show ?thesis by (simp add: addrs_of_def)
    next
      case False
      with Some other have m: "mem_of fs m = Some j" by blast
      then have "j < 50" using table_okD(2) [OF t] mem_of_Some [OF t] by blast
      with False Some m mine o show ?thesis by (auto simp: addrs_of_def)
    qed
  qed
qed

lemma addrs_of_same:
  assumes t: "table_ok fs H" and t': "table_ok fs' H'" and h: "same_others i H H'" and o: "\<And>j. j < 50 \<Longrightarrow> j \<noteq> i \<Longrightarrow> ino fs' j = ino fs j"
    and d: "fk_dinodes fs' = fk_dinodes fs"
    and n: "i \<in># H' \<Longrightarrow> in_valid (ino fs' i) \<Longrightarrow> di_addrs (ino fs' i) = addrs_of fs (unat (in_inum (ino fs' i)))"
    and l: "i \<in># H \<Longrightarrow> in_valid (ino fs i) \<Longrightarrow> i \<in># H' \<and> in_valid (ino fs' i) \<and> in_inum (ino fs' i) = in_inum (ino fs i)"
  shows "addrs_of fs' m = addrs_of fs m"
  using addrs_of_upd [OF t t' h o, of m] n l d by (auto simp: addrs_of_def)

lemma cells_same: "(\<And>m. addrs_of fs' m = addrs_of fs m) \<Longrightarrow> fk_blocks fs' = fk_blocks fs \<Longrightarrow> cell fs' = cell fs"
  by (intro ext) (simp add: cell_def)

lemma blocks_ok_cong: "cell fs' = cell fs \<Longrightarrow> length (fk_dinodes fs') = length (fk_dinodes fs) \<Longrightarrow> fk_bitmap fs' = fk_bitmap fs \<Longrightarrow> blocks_ok fs' = blocks_ok fs"
  by (simp add: blocks_ok_def allocated_def)

lemma fs_invD: "fs_inv fs H \<Longrightarrow> table_ok fs H" "fs_inv fs H \<Longrightarrow> disk_ok fs" "fs_inv fs H \<Longrightarrow> blocks_ok fs"
  by (simp_all add: fs_inv_def)

text \<open>An update of one entry that shows the same addresses.\<close>

lemma fs_inv_upd:
  assumes inv: "fs_inv fs H" and i: "i < 50" and h: "same_others i H H'" and r: "in_ref (f (ino fs i)) = int (count H' i)"
    and e: "i \<in># H' \<Longrightarrow> in_dev (f (ino fs i)) = ROOTDEV" "i \<in># H' \<Longrightarrow> in_valid (f (ino fs i)) \<Longrightarrow> copy_ok (fk_dinodes fs) (f (ino fs i))"
    "\<And>j. i \<in># H' \<Longrightarrow> j \<in># H \<Longrightarrow> j \<noteq> i \<Longrightarrow> in_inum (ino fs j) \<noteq> in_inum (f (ino fs i))"
    and n: "i \<in># H' \<Longrightarrow> in_valid (f (ino fs i)) \<Longrightarrow> di_addrs (f (ino fs i)) = addrs_of fs (unat (in_inum (f (ino fs i))))"
    and l: "i \<in># H \<Longrightarrow> in_valid (ino fs i) \<Longrightarrow> i \<in># H' \<and> in_valid (f (ino fs i)) \<and> in_inum (f (ino fs i)) = in_inum (ino fs i)"
  shows "fs_inv (upd_ino i f fs) H'"
proof -
  note t = fs_invD(1) [OF inv]
  have t': "table_ok (upd_ino i f fs) H'" by (rule table_ok_upd [of fs H i H' f, OF t i h r e])
  note u = ino_upd [OF table_okD(1) [OF t]]
  have ui: "ino (upd_ino i f fs) i = f (ino fs i)" using u [OF i] by simp
  have "addrs_of (upd_ino i f fs) m = addrs_of fs m" for m
  proof (rule addrs_of_same [OF t t' h])
    show "ino (upd_ino i f fs) j = ino fs j" if "j < 50" "j \<noteq> i" for j using u [OF that(1)] that(2) by simp
    show "di_addrs (ino (upd_ino i f fs) i) = addrs_of fs (unat (in_inum (ino (upd_ino i f fs) i)))"
      if "i \<in># H'" "in_valid (ino (upd_ino i f fs) i)" using n that unfolding ui by blast
    show "i \<in># H' \<and> in_valid (ino (upd_ino i f fs) i) \<and> in_inum (ino (upd_ino i f fs) i) = in_inum (ino fs i)"
      if "i \<in># H" "in_valid (ino fs i)" using l that unfolding ui by blast
  qed simp
  then have "cell (upd_ino i f fs) = cell fs" by (intro cells_same) simp_all
  then have "blocks_ok (upd_ino i f fs) = blocks_ok fs" by (intro blocks_ok_cong) simp_all
  with t' inv show ?thesis by (simp add: fs_inv_def disk_ok_def)
qed

text \<open>A valid entry changes in a field the invariant does not speak of.\<close>

definition plain_change :: "inode \<Rightarrow> inode \<Rightarrow> bool" where
  "plain_change ip ip' \<longleftrightarrow> di_addrs ip' = di_addrs ip \<and> in_dev ip' = in_dev ip \<and> in_inum ip' = in_inum ip \<and>
     in_ref ip' = in_ref ip \<and> in_valid ip' = in_valid ip \<and> (di_type ip = 0 \<or> di_type ip' \<noteq> 0)"

lemma fs_inv_plain:
  assumes inv: "fs_inv fs H" and i: "i \<in># H" and p: "plain_change (ino fs i) (f (ino fs i))"
  shows "fs_inv (upd_ino i f fs) H" "keeps_valid G fs (upd_ino i f fs)"
proof -
  note t = fs_invD(1) [OF inv]
  note d = table_okD [OF t]
  have u: "unat (in_inum (ino fs i)) < length (fk_dinodes fs)" if "in_valid (ino fs i)" using d(6) [OF i that] by (simp add: copy_ok_def)
  show "fs_inv (upd_ino i f fs) H"
  proof (rule fs_inv_upd [OF inv d(2) [OF i]])
    show "copy_ok (fk_dinodes fs) (f (ino fs i))" if "in_valid (f (ino fs i))"
      using d(6) [OF i] that p by (auto simp: copy_ok_def plain_change_def)
    show "in_inum (ino fs j) \<noteq> in_inum (f (ino fs i))" if "j \<in># H" "j \<noteq> i" for j
      using held_unique [OF t that(1) i] that(2) p by (auto simp: plain_change_def)
    show "di_addrs (f (ino fs i)) = addrs_of fs (unat (in_inum (f (ino fs i))))" if "in_valid (f (ino fs i))"
      using addrs_mem [OF t i] that p by (simp add: plain_change_def)
  qed (use d(4) [OF d(2) [OF i]] d(5) [OF i] i p in \<open>auto simp: plain_change_def\<close>)
  have "in_valid (ino (upd_ino i f fs) j) = in_valid (ino fs j)" for j
    using p by (intro valid_upd) (simp add: plain_change_def)
  then show "keeps_valid G fs (upd_ino i f fs)" by (simp add: keeps_valid_def)
qed

subsection \<open>Handles\<close>

lemma idup_inv:
  assumes inv: "fs_inv fs H" and i: "i \<in># H"
  shows "fs_inv (idup i fs) (add_mset i H)" "keeps_valid G fs (idup i fs)"
proof -
  note t = fs_invD(1) [OF inv]
  note d = table_okD [OF t]
  show "fs_inv (idup i fs) (add_mset i H)" unfolding idup_def
  proof (rule fs_inv_upd [OF inv d(2) [OF i]])
    show "in_inum (ino fs j) \<noteq> in_inum (ino fs i\<lparr>in_ref := in_ref (ino fs i) + 1\<rparr>)" if "j \<in># H" "j \<noteq> i" for j
      using held_unique [OF t that(1) i] that(2) by auto
    show "copy_ok (fk_dinodes fs) (ino fs i\<lparr>in_ref := in_ref (ino fs i) + 1\<rparr>)"
      if "in_valid (ino fs i\<lparr>in_ref := in_ref (ino fs i) + 1\<rparr>)" using d(6) [OF i] that by (simp add: copy_ok_def)
  qed (use d(4) [OF d(2) [OF i]] d(5) [OF i] addrs_mem [OF t i] in auto)
  have "in_valid (ino (idup i fs) j) = in_valid (ino fs j)" for j
    unfolding idup_def by (rule valid_upd) simp
  then show "keeps_valid G fs (idup i fs)" by (simp add: keeps_valid_def)
qed

lemma iget_inv:
  assumes inv: "fs_inv fs H" and g: "iget ROOTDEV inum fs = Some (i, fs')"
  shows "fs_inv fs' (add_mset i H)" "keeps_valid H fs fs'" "in_inum (ino fs' i) = inum"
proof -
  note t = fs_invD(1) [OF inv]
  note d = table_okD [OF t]
  have "fs_inv fs' (add_mset i H) \<and> keeps_valid H fs fs' \<and> in_inum (ino fs' i) = inum"
  proof (cases "find_key in_used in_key (ROOTDEV, inum) (fk_itable fs)")
    case (Some k)
    with g have k: "k = i" "fs' = idup i fs" by (auto simp: iget_def idup_def)
    from find_keyD [OF Some] k d(1) have i: "i < 50" "in_used (ino fs i)" "in_inum (ino fs i) = inum" by (auto simp: in_key_def)
    then have "i \<in># H" using used_held [OF t] by blast
    with idup_inv [OF inv this] i d(1) show ?thesis by (simp add: k idup_def upd_ino_def)
  next
    case None
    with g obtain k where k: "first_slot (\<lambda>ip. in_ref ip = 0) (fk_itable fs) = Some i"
      "fs' = upd_ino i (\<lambda>ip. ip\<lparr>in_dev := ROOTDEV, in_inum := inum, in_ref := 1, in_valid := False\<rparr>) fs"
      by (auto simp: iget_def split: option.splits)
    have i: "i < 50" "in_ref (ino fs i) = 0" using first_slot_SomeD [OF k(1)] d(1) by auto
    then have ni: "i \<notin># H" "count H i = 0" using d(4) [OF i(1)] by (auto simp: not_in_iff)
    have fresh: "in_inum (ino fs j) \<noteq> inum" if "j \<in># H" for j
    proof
      assume "in_inum (ino fs j) = inum"
      then have "in_key (ino fs j) = (ROOTDEV, inum)" using d(5) [OF that] by (simp add: in_key_def)
      then show False using None that d(1,2) used_held [OF t d(2) [OF that]] by (auto simp: find_key_None)
    qed
    have u: "ino fs' j = (if j = i then ino fs i\<lparr>in_dev := ROOTDEV, in_inum := inum, in_ref := 1, in_valid := False\<rparr> else ino fs j)" if "j < 50" for j
      unfolding k(2) by (simp add: ino_upd [OF d(1) that])
    have "fs_inv fs' (add_mset i H)" unfolding k(2)
      by (rule fs_inv_upd [OF inv i(1)]) (use ni fresh in auto)
    moreover have "keeps_valid H fs fs'" using u d(2) ni by (auto simp: keeps_valid_def)
    ultimately show ?thesis using u i(1) by simp
  qed
  then show "fs_inv fs' (add_mset i H)" "keeps_valid H fs fs'" "in_inum (ino fs' i) = inum" by blast+
qed

subsection \<open>Locking and writing back\<close>

lemma extend_fields:
  "di_addrs (dinode.extend d (dinode.more ip)) = di_addrs d" "di_type (dinode.extend d (dinode.more ip)) = di_type d"
  "in_dev (dinode.extend d (dinode.more ip)) = in_dev ip" "in_inum (dinode.extend d (dinode.more ip)) = in_inum ip"
  "in_ref (dinode.extend d (dinode.more ip)) = in_ref ip"
  for d :: dinode and ip :: inode
  by (cases ip; simp add: dinode.defs)+

lemma truncate_fields: "di_addrs (dinode.truncate ip) = di_addrs ip" "di_type (dinode.truncate ip) = di_type ip" for ip :: inode
  by (simp_all add: dinode.defs)

lemma disk_okD:
  assumes "disk_ok fs"
  shows "m < length (fk_dinodes fs) \<Longrightarrow> length (di_addrs (fk_dinodes fs ! m)) = 13" "length (fk_blocks fs b) = BSIZE"
    "length (fk_bitmap fs) < 2 ^ 32" "length (fk_dinodes fs) < 2 ^ 32"
  using assms by (simp_all add: disk_ok_def)

lemma ilock_inv:
  assumes inv: "fs_inv fs H" and i: "i \<in># H" and l: "ilock i fs = Some fs'"
  shows "fs_inv fs' H" "keeps_valid H fs fs'" "in_valid (ino fs' i)"
proof -
  note t = fs_invD(1) [OF inv]
  note d = table_okD [OF t]
  have "fs_inv fs' H \<and> keeps_valid H fs fs' \<and> in_valid (ino fs' i)"
  proof (cases "in_valid (ino fs i)")
    case True
    with inv l show ?thesis by (auto simp: ilock_def split: if_splits)
  next
    case False
    let ?m = "unat (in_inum (ino fs i))"
    let ?d = "fk_dinodes fs ! ?m"
    let ?f = "\<lambda>ip. (dinode.extend ?d (dinode.more ip))\<lparr>in_valid := True\<rparr>"
    have m: "?m < length (fk_dinodes fs)" "di_type ?d \<noteq> 0" "fs' = upd_ino i ?f fs"
      using l False by (auto simp: ilock_def Let_def split: if_splits)
    have "unat (in_inum (ino fs j)) \<noteq> ?m" if "j \<in># H" "in_valid (ino fs j)" for j
      using held_unique [OF t that(1) i] that(2) False by (auto intro: unsigned_word_eqI)
    then have a: "addrs_of fs ?m = di_addrs ?d" by (rule addrs_disk [OF t])
    have "fs_inv fs' H" unfolding m(3)
    proof (rule fs_inv_upd [OF inv d(2) [OF i]])
      show "in_inum (ino fs j) \<noteq> in_inum (?f (ino fs i))" if "j \<in># H" "j \<noteq> i" for j
        using held_unique [OF t that(1) i] that(2) by (auto simp: extend_fields)
    qed (use d(4) [OF d(2) [OF i]] d(5) [OF i] i a m disk_okD(1) [OF fs_invD(2) [OF inv]] False
        in \<open>auto simp: copy_ok_def extend_fields\<close>)
    moreover have u: "ino fs' j = (if j = i then ?f (ino fs i) else ino fs j)" if "j < 50" for j
      using ino_upd [OF d(1) that] m(3) by simp
    then have "keeps_valid H fs fs'" using d(2) by (auto simp: keeps_valid_def)
    ultimately show ?thesis using u [OF d(2) [OF i]] by simp
  qed
  then show "fs_inv fs' H" "keeps_valid H fs fs'" "in_valid (ino fs' i)" by blast+
qed

lemma iunlock_same: "iunlock i fs = Some fs' \<Longrightarrow> fs' = fs"
  by (simp add: iunlock_def split: if_splits)

text \<open>Writing an inode to the disk, in any state in which its copy is all that is wrong with the disk.\<close>

lemma mem_of_itable: "fk_itable fs' = fk_itable fs \<Longrightarrow> mem_of fs' m = mem_of fs m"
  by (simp add: mem_of_def)

lemma iupdate_inv:
  assumes inv: "fs_inv fs H" and i: "i \<in># H" "in_valid (ino fs i)"
  shows "fs_inv (iupdate i fs) H" "keeps_valid G fs (iupdate i fs)"
proof -
  note t = fs_invD(1) [OF inv]
  note d = table_okD [OF t]
  let ?m = "unat (in_inum (ino fs i))"
  note c = d(6) [OF i, unfolded copy_ok_def]
  have tbl: "fk_itable (iupdate i fs) = fk_itable fs" "fk_blocks (iupdate i fs) = fk_blocks fs" "fk_bitmap (iupdate i fs) = fk_bitmap fs"
    "length (fk_dinodes (iupdate i fs)) = length (fk_dinodes fs)" by (simp_all add: iupdate_def)
  have new: "fk_dinodes (iupdate i fs) ! m = (if m = ?m then dinode.truncate (ino fs i) else fk_dinodes fs ! m)" for m
    using c by (simp add: iupdate_def nth_list_update)
  have cp: "copy_ok (fk_dinodes (iupdate i fs)) (ino fs j)" if j: "j \<in># H" "in_valid (ino fs j)" for j
  proof (cases "j = i")
    case True
    with c i show ?thesis by (simp add: copy_ok_def tbl new truncate_fields)
  next
    case False
    then have "unat (in_inum (ino fs j)) \<noteq> ?m" using held_unique [OF t j(1) i(1)] by (auto intro: unsigned_word_eqI)
    with d(6) [OF j] show ?thesis by (simp add: copy_ok_def tbl new)
  qed
  have t': "table_ok (iupdate i fs) H" using t cp by (simp add: table_ok_def tbl)
  have "addrs_of (iupdate i fs) m = addrs_of fs m" for m
  proof (cases "mem_of fs m")
    case None
    then have "m \<noteq> ?m" using mem_of_Some [OF t, of ?m i] i by auto
    then show ?thesis using None by (simp add: addrs_of_def mem_of_itable [OF tbl(1)] new)
  qed (simp add: addrs_of_def mem_of_itable [OF tbl(1)] tbl)
  then have "cell (iupdate i fs) = cell fs" by (rule cells_same) (simp add: tbl)
  then have "blocks_ok (iupdate i fs)" using blocks_ok_cong [of "iupdate i fs" fs] inv by (simp add: fs_inv_def tbl)
  moreover have "disk_ok (iupdate i fs)"
    using fs_invD(2) [OF inv] disk_okD(1) [OF fs_invD(2) [OF inv]] c i by (auto simp: disk_ok_def tbl in_set_conv_nth new truncate_fields)
  ultimately show "fs_inv (iupdate i fs) H" using t' by (simp add: fs_inv_def)
  show "keeps_valid G fs (iupdate i fs)" by (simp add: keeps_valid_def tbl)
qed

subsection \<open>Data\<close>

text \<open>Bytes written to a block that is not an indirect block.\<close>

lemma data_write_inv:
  assumes inv: "fs_inv fs H" and x: "length x = BSIZE" and a: "\<And>m. m < length (fk_dinodes fs) \<Longrightarrow> addrs_of fs m ! 12 \<noteq> a \<or> a = 0"
  shows "fs_inv (fs\<lparr>fk_blocks := (fk_blocks fs)(a := x)\<rparr>) H"
proof -
  let ?fs = "fs\<lparr>fk_blocks := (fk_blocks fs)(a := x)\<rparr>"
  have ad: "addrs_of ?fs m = addrs_of fs m" for m by (simp add: addrs_of_def mem_of_def split: option.split)
  have "cell ?fs m k = cell fs m k" if "m < length (fk_dinodes fs)" for m k
    using a [OF that] by (auto simp: cell_def ad cell_of_def)
  then have "blocks_ok ?fs" using fs_invD(3) [OF inv] by (simp add: blocks_ok_def allocated_def)
  moreover have "table_ok ?fs H" using fs_invD(1) [OF inv] by (simp add: table_ok_def)
  moreover have "disk_ok ?fs" using fs_invD(2) [OF inv] x by (simp add: disk_ok_def)
  ultimately show ?thesis by (simp add: fs_inv_def)
qed

text \<open>A block that holds data of a file is no indirect block.\<close>

definition data_block :: "fsk \<Rightarrow> u32 \<Rightarrow> bool" where
  "data_block fs a \<longleftrightarrow> (\<exists>m < length (fk_dinodes fs). \<exists>k < 269. k \<noteq> 12 \<and> cell fs m k = a)"

lemma data_block_inv:
  assumes inv: "fs_inv fs H" and a: "a \<noteq> 0" "data_block fs a" and x: "length x = BSIZE"
  shows "fs_inv (fs\<lparr>fk_blocks := (fk_blocks fs)(a := x)\<rparr>) H"
proof (rule data_write_inv [OF inv x])
  fix m assume m: "m < length (fk_dinodes fs)"
  obtain m' k where k: "m' < length (fk_dinodes fs)" "k < 269" "k \<noteq> 12" "cell fs m' k = a" using a(2) unfolding data_block_def by blast
  have "cell fs m 12 \<noteq> a" using blocks_okD(2) [OF fs_invD(3) [OF inv] k(1,2), of m 12] k a(1) m by auto
  then show "addrs_of fs m ! 12 \<noteq> a \<or> a = 0" by (simp add: cell_def cell_of_def)
qed

subsection \<open>Allocating blocks\<close>

lemma take_drop_store:
  assumes "off + length bs \<le> length d" "p + n \<le> off \<or> off + length bs \<le> p" "p + n \<le> length d"
  shows "take n (drop p (store_bytes off bs d)) = take n (drop p d)"
  using assms by (intro nth_equalityI) (auto simp: nth_store_bytes)

lemma take_drop_store_same: "off + length bs \<le> length d \<Longrightarrow> take (length bs) (drop off (store_bytes off bs d)) = bs"
  by (simp add: store_bytes_def)

lemma indirect_entry_set:
  assumes "length blk = 1024" "j < 256" "l < 256"
  shows "indirect_entry (set_indirect j b blk) l = (if l = j then b else indirect_entry blk l)"
proof (cases "l = j")
  case True
  have "take 4 (drop (4 * j) (set_indirect j b blk)) = le_bytes 4 (unat b)"
    using take_drop_store_same [of "4 * j" "le_bytes 4 (unat b)" blk] assms by (simp add: set_indirect_def)
  moreover have "unat b < 256 ^ 4" using unsigned_less [of b, where 'a = nat] by simp
  ultimately show ?thesis using True by (simp add: indirect_entry_def le_value_bytes)
next
  case False
  then have "4 * l + 4 \<le> 4 * j \<or> 4 * j + 4 \<le> 4 * l" by linarith
  then have "take 4 (drop (4 * l) (set_indirect j b blk)) = take 4 (drop (4 * l) blk)"
    unfolding set_indirect_def using assms by (intro take_drop_store) simp_all
  with False show ?thesis by (simp add: indirect_entry_def)
qed

lemma length_set_indirect: "length blk = 1024 \<Longrightarrow> j < 256 \<Longrightarrow> length (set_indirect j b blk) = 1024"
  by (simp add: set_indirect_def)

lemma indirect_entry_zero: "indirect_entry (replicate n NUL) k = 0"
proof -
  have "le_value (replicate m NUL) = 0" for m by (induction m) simp_all
  then show ?thesis by (simp add: indirect_entry_def take_replicate drop_replicate)
qed

text \<open>A block that is marked used and belongs to nobody.\<close>

definition fresh_block :: "fsk \<Rightarrow> u32 \<Rightarrow> bool" where
  "fresh_block fs b \<longleftrightarrow> b \<noteq> 0 \<and> allocated fs b \<and> (\<forall>m < length (fk_dinodes fs). \<forall>k < 269. cell fs m k \<noteq> b)"

lemma fresh_blockD: "fresh_block fs b \<Longrightarrow> m < length (fk_dinodes fs) \<Longrightarrow> k < 269 \<Longrightarrow> cell fs m k \<noteq> b"
  by (simp add: fresh_block_def)

lemma balloc_inv:
  assumes inv: "fs_inv fs H" and b: "balloc fs = (b, fs1)"
  shows "fs_inv fs1 H" "fk_itable fs1 = fk_itable fs" "fk_dinodes fs1 = fk_dinodes fs" "b \<noteq> 0 \<Longrightarrow> fresh_block fs1 b"
    "b \<noteq> 0 \<Longrightarrow> fk_blocks fs1 b = replicate BSIZE NUL" "c \<noteq> b \<Longrightarrow> fk_blocks fs1 c = fk_blocks fs c"
    "m < length (fk_dinodes fs) \<Longrightarrow> k < 269 \<Longrightarrow> cell fs1 m k = cell fs m k"
proof -
  show tbl: "fk_itable fs1 = fk_itable fs" "fk_dinodes fs1 = fk_dinodes fs" "b \<noteq> 0 \<Longrightarrow> fk_blocks fs1 b = replicate BSIZE NUL"
    "c \<noteq> b \<Longrightarrow> fk_blocks fs1 c = fk_blocks fs c"
    using b by (auto simp: balloc_def bzero_def split: option.splits)
  have "fs_inv fs1 H \<and> (b \<noteq> 0 \<longrightarrow> allocated fs1 b \<and> \<not> allocated fs b) \<and> (\<forall>m < length (fk_dinodes fs). \<forall>k < 269. cell fs1 m k = cell fs m k)"
  proof (cases "first_slot (\<lambda>used. \<not> used) (fk_bitmap fs)")
    case None
    with b inv show ?thesis by (simp add: balloc_def)
  next
    case (Some x)
    let ?g = "fs\<lparr>fk_bitmap := (fk_bitmap fs)[x := True]\<rparr>"
    have x: "x < length (fk_bitmap fs)" "\<not> fk_bitmap fs ! x" using first_slot_SomeD [OF Some] by auto
    have bx: "b = of_nat x" "fs1 = ?g\<lparr>fk_blocks := (fk_blocks ?g)(b := replicate BSIZE NUL)\<rparr>" using b Some by (auto simp: balloc_def bzero_def)
    have ub: "unat b = x" using x disk_okD(3) [OF fs_invD(2) [OF inv]] by (simp add: bx unat_of_nat)
    have ad: "addrs_of ?g m = addrs_of fs m" "addrs_of fs1 m = addrs_of fs m" for m
      by (simp_all add: addrs_of_def mem_of_def bx split: option.split)
    have cg: "cell ?g = cell fs" by (intro cells_same) (simp_all add: ad)
    have "allocated ?g c" if "allocated fs c" for c using that by (cases "unat c = x") (simp_all add: allocated_def)
    then have "blocks_ok ?g" using fs_invD(3) [OF inv] by (simp add: blocks_ok_def cg)
    moreover have "table_ok ?g H" "disk_ok ?g" using fs_invD(1,2) [OF inv] by (simp_all add: table_ok_def disk_ok_def)
    ultimately have ig: "fs_inv ?g H" by (simp add: fs_inv_def)
    have nb: "cell fs m k \<noteq> b \<or> b = 0" if "m < length (fk_dinodes fs)" "k < 269" for m k
      using blocks_okD(1) [OF fs_invD(3) [OF inv] that] x ub by (auto simp: allocated_def)
    have n12: "addrs_of fs m ! 12 \<noteq> b \<or> b = 0" if "m < length (fk_dinodes fs)" for m
      using nb [OF that, of 12] by (simp add: cell_def cell_of_def)
    have "fs_inv fs1 H" unfolding bx(2) by (rule data_write_inv [OF ig]) (use n12 ad in auto)
    moreover have "allocated fs1 b" "\<not> allocated fs b" using x ub by (simp_all add: allocated_def bx(2))
    moreover have bl: "fk_blocks fs1 c = fk_blocks fs c" if "c \<noteq> b" for c using that by (simp add: bx(2))
    moreover have "cell fs1 m k = cell fs m k" if "m < length (fk_dinodes fs)" for m k
      using n12 [OF that] bl [of "addrs_of fs m ! 12"] by (auto simp: cell_def cell_of_def ad)
    ultimately show ?thesis by blast
  qed
  note r = this
  then show "fs_inv fs1 H" "m < length (fk_dinodes fs) \<Longrightarrow> k < 269 \<Longrightarrow> cell fs1 m k = cell fs m k" by blast+
  show "fresh_block fs1 b" if "b \<noteq> 0"
  proof -
    have "cell fs m k \<noteq> b" if "m < length (fk_dinodes fs)" "k < 269" for m k
      using blocks_okD(1) [OF fs_invD(3) [OF inv] that] r \<open>b \<noteq> 0\<close> by auto
    with r that show ?thesis by (simp add: fresh_block_def tbl)
  qed
qed

text \<open>One pointer to a fresh block.\<close>

lemma blocks_ok_new:
  assumes ok: "blocks_ok fs" and f: "fresh_block fs b" and l: "length (fk_dinodes fs') = length (fk_dinodes fs)" "fk_bitmap fs' = fk_bitmap fs"
    and c: "\<And>m k. m < length (fk_dinodes fs) \<Longrightarrow> k < 269 \<Longrightarrow> cell fs' m k = (if m = m0 \<and> k = k0 then b else cell fs m k)"
  shows "blocks_ok fs'"
proof -
  have al: "allocated fs' = allocated fs" by (simp add: allocated_def l fun_eq_iff)
  note f = f [unfolded fresh_block_def]
  show ?thesis unfolding blocks_ok_def l al
  proof (intro allI impI)
    fix m k assume mk: "m < length (fk_dinodes fs)" "k < 269" "cell fs' m k \<noteq> 0"
    show "allocated fs (cell fs' m k) \<and>
        (\<forall>m' < length (fk_dinodes fs). \<forall>k' < 269. cell fs' m' k' = cell fs' m k \<longrightarrow> m' = m \<and> k' = k)"
    proof (cases "m = m0 \<and> k = k0")
      case True
      then show ?thesis using f mk c by (auto split: if_splits)
    next
      case False
      then have e: "cell fs' m k = cell fs m k" using c mk by auto
      with mk have nz: "cell fs m k \<noteq> 0" by simp
      note d = blocks_okD [OF ok mk(1,2) nz]
      have "cell fs m k \<noteq> b" using f mk by blast
      then show ?thesis using d c unfolding e by (auto split: if_splits)
    qed
  qed
qed

lemma set_addr_inv:
  assumes inv: "fs_inv fs H" and i: "i \<in># H" "in_valid (ino fs i)" and k: "k < 13" "di_addrs (ino fs i) ! k = 0"
    and f: "fresh_block fs b" and z: "k = 12 \<Longrightarrow> fk_blocks fs b = replicate BSIZE NUL"
  defines "fs' \<equiv> upd_ino i (\<lambda>ip. ip\<lparr>di_addrs := (di_addrs ip)[k := b]\<rparr>) fs"
  shows "fs_inv fs' H" "keeps_valid G fs fs'" "cell fs' (unat (in_inum (ino fs i))) k = b"
    "di_addrs (ino fs' i) = (di_addrs (ino fs i))[k := b]" "in_inum (ino fs' i) = in_inum (ino fs i)"
proof -
  note t = fs_invD(1) [OF inv]
  note d = table_okD [OF t]
  let ?m = "unat (in_inum (ino fs i))" and ?f = "\<lambda>ip. ip\<lparr>di_addrs := (di_addrs ip)[k := b]\<rparr>"
  note c = d(6) [OF i, unfolded copy_ok_def]
  have u: "ino fs' j = (if j = i then ?f (ino fs i) else ino fs j)" if "j < 50" for j
    unfolding fs'_def by (simp add: ino_upd [OF d(1) that])
  note ui = u [OF d(2) [OF i(1)]]
  show "di_addrs (ino fs' i) = (di_addrs (ino fs i))[k := b]" "in_inum (ino fs' i) = in_inum (ino fs i)" by (simp_all add: ui)
  have cp: "copy_ok (fk_dinodes fs) (?f (ino fs i))" using c k by (auto simp: copy_ok_def nth_list_update)
  have t': "table_ok fs' H" unfolding fs'_def
  proof (rule table_ok_upd [OF t d(2) [OF i(1)]])
    show "in_inum (ino fs j) \<noteq> in_inum (?f (ino fs i))" if "j \<in># H" "j \<noteq> i" for j
      using held_unique [OF t that(1) i(1)] that(2) by auto
  qed (use d(4) [OF d(2) [OF i(1)]] d(5) [OF i(1)] cp in auto)
  have a: "addrs_of fs' m = (if m = ?m then (di_addrs (ino fs i))[k := b] else addrs_of fs m)" for m
  proof (cases "m = ?m")
    case True
    then show ?thesis using addrs_mem [OF t' i(1)] i(2) by (simp add: ui)
  next
    case False
    have o: "ino fs' j = ino fs j" if "j < 50" "j \<noteq> i" for j using u [OF that(1)] that(2) by simp
    have dk: "fk_dinodes fs' = fk_dinodes fs" by (simp add: fs'_def)
    show ?thesis using False addrs_of_upd [where i = i, OF t t' same_others_simps(1) o, of m] by (simp add: ui addrs_of_def dk)
  qed
  have am: "addrs_of fs ?m = di_addrs (ino fs i)" by (rule addrs_mem [OF t i])
  have bl: "fk_blocks fs' = fk_blocks fs" by (simp add: fs'_def)
  have cell: "cell fs' m l = (if m = ?m \<and> l = k then b else cell fs m l)" for m l
    using k c z indirect_entry_zero by (auto simp: cell_def a am bl cell_of_def nth_list_update)
  then show "cell fs' ?m k = b" by simp
  have "blocks_ok fs'" by (rule blocks_ok_new [OF fs_invD(3) [OF inv] f]) (simp_all add: cell, simp_all add: fs'_def)
  moreover have "disk_ok fs'" using fs_invD(2) [OF inv] by (simp add: disk_ok_def fs'_def)
  ultimately show "fs_inv fs' H" using t' by (simp add: fs_inv_def)
  have "in_valid (ino fs' j) = in_valid (ino fs j)" for j unfolding fs'_def by (rule valid_upd) simp
  then show "keeps_valid G fs fs'" by (simp add: keeps_valid_def)
qed

lemma set_indirect_inv:
  assumes inv: "fs_inv fs H" and i: "i \<in># H" "in_valid (ino fs i)" and a: "di_addrs (ino fs i) ! 12 = ind" "ind \<noteq> 0" and j: "j < 256"
    and f: "fresh_block fs b" and z: "indirect_entry (fk_blocks fs ind) j = 0"
  defines "fs' \<equiv> fs\<lparr>fk_blocks := (fk_blocks fs)(ind := set_indirect j b (fk_blocks fs ind))\<rparr>"
  shows "fs_inv fs' H" "cell fs' (unat (in_inum (ino fs i))) (13 + j) = b"
proof -
  note t = fs_invD(1) [OF inv]
  let ?m = "unat (in_inum (ino fs i))"
  have m: "?m < length (fk_dinodes fs)" using table_okD(6) [OF t i] by (simp add: copy_ok_def)
  have am: "addrs_of fs ?m = di_addrs (ino fs i)" by (rule addrs_mem [OF t i])
  have ad: "addrs_of fs' m = addrs_of fs m" for m by (simp add: fs'_def addrs_of_def mem_of_def split: option.split)
  have bl: "fk_blocks fs' = (fk_blocks fs)(ind := set_indirect j b (fk_blocks fs ind))" by (simp add: fs'_def)
  have len: "length (fk_blocks fs b) = 1024" for b by (rule disk_okD(2) [OF fs_invD(2) [OF inv]])
  have c12: "cell fs ?m 12 = ind" by (simp add: cell_def cell_of_def am a)
  have other: "addrs_of fs m ! 12 \<noteq> ind" if "m < length (fk_dinodes fs)" "m \<noteq> ?m" for m
    using blocks_okD(2) [OF fs_invD(3) [OF inv] m, of 12 m 12] that a(2) by (auto simp: c12) (auto simp: cell_def cell_of_def)
  have ie: "indirect_entry (set_indirect j b (fk_blocks fs ind)) l = (if l = j then b else indirect_entry (fk_blocks fs ind) l)"
    if "l < 256" for l by (rule indirect_entry_set [OF len j that])
  have cell: "cell fs' m l = (if m = ?m \<and> l = 13 + j then b else cell fs m l)" if "m < length (fk_dinodes fs)" "l < 269" for m l
  proof (cases "m = ?m")
    case True
    then show ?thesis using that(2) a ie [of "l - 13"] by (auto simp: cell_def ad am cell_of_def bl)
  next
    case False
    with other [OF that(1)] show ?thesis by (simp add: cell_def ad cell_of_def bl)
  qed
  show "cell fs' ?m (13 + j) = b" using cell [OF m, of "13 + j"] j by simp
  have "blocks_ok fs'"
    by (rule blocks_ok_new [OF fs_invD(3) [OF inv] f]) (simp_all add: cell, simp_all add: fs'_def)
  moreover have "table_ok fs' H" using t by (simp add: table_ok_def fs'_def)
  moreover have "disk_ok fs'" using fs_invD(2) [OF inv] length_set_indirect [OF len j] by (simp add: disk_ok_def fs'_def)
  ultimately show "fs_inv fs' H" by (simp add: fs_inv_def)
qed

lemma addr_block:
  assumes inv: "fs_inv fs H" and i: "i \<in># H" "in_valid (ino fs i)"
  shows "k < 12 \<Longrightarrow> di_addrs (ino fs i) ! k = a \<Longrightarrow> data_block fs a"
    "j < 256 \<Longrightarrow> di_addrs (ino fs i) ! 12 = ind \<Longrightarrow> ind \<noteq> 0 \<Longrightarrow> indirect_entry (fk_blocks fs ind) j = a \<Longrightarrow> data_block fs a"
proof -
  note t = fs_invD(1) [OF inv]
  let ?m = "unat (in_inum (ino fs i))"
  have m: "?m < length (fk_dinodes fs)" using table_okD(6) [OF t i] by (simp add: copy_ok_def)
  have am: "addrs_of fs ?m = di_addrs (ino fs i)" by (rule addrs_mem [OF t i])
  show "data_block fs a" if "k < 12" "di_addrs (ino fs i) ! k = a"
    using that m unfolding data_block_def by (intro exI [of _ ?m] conjI exI [of _ k]) (simp_all add: cell_def cell_of_def am)
  show "data_block fs a" if "j < 256" "di_addrs (ino fs i) ! 12 = ind" "ind \<noteq> 0" "indirect_entry (fk_blocks fs ind) j = a"
    using that m unfolding data_block_def by (intro exI [of _ ?m] conjI exI [of _ "13 + j"]) (simp_all add: cell_def cell_of_def am)
qed

lemma cell_data_block: "m < length (fk_dinodes fs) \<Longrightarrow> k < 269 \<Longrightarrow> k \<noteq> 12 \<Longrightarrow> cell fs m k = a \<Longrightarrow> data_block fs a"
  unfolding data_block_def by blast

lemma held_inum: "fs_inv fs H \<Longrightarrow> i \<in># H \<Longrightarrow> in_valid (ino fs i) \<Longrightarrow> unat (in_inum (ino fs i)) < length (fk_dinodes fs)"
  using table_okD(6) [OF fs_invD(1)] by (simp add: copy_ok_def)

text \<open>A new direct block or a new indirect block.\<close>

lemma new_addr:
  assumes inv: "fs_inv fs H" and i: "i \<in># H" "in_valid (ino fs i)" and k: "k < 13" "di_addrs (ino fs i) ! k = 0"
    and b: "balloc fs = (b, fs1)" "b \<noteq> 0"
  defines "fs2 \<equiv> upd_ino i (\<lambda>ip. ip\<lparr>di_addrs := (di_addrs ip)[k := b]\<rparr>) fs1"
  shows "fs_inv fs2 H" "keeps_valid G fs fs2" "in_valid (ino fs2 i)" "di_addrs (ino fs2 i) ! k = b"
proof -
  note c = balloc_inv [OF inv b(1)]
  have i1: "in_valid (ino fs1 i)" "di_addrs (ino fs1 i) ! k = 0" using i(2) k(2) by (simp_all add: c(2))
  have z: "fk_blocks fs1 b = replicate BSIZE NUL" by (rule c(5) [OF b(2)])
  note n = set_addr_inv [OF c(1) i(1) i1(1) k(1) i1(2) c(4) [OF b(2)] z, folded fs2_def]
  show "fs_inv fs2 H" by (rule n(1))
  have kv: "keeps_valid G' fs1 fs2" for G' by (rule n(2))
  then show "keeps_valid G fs fs2" by (simp add: keeps_valid_def c(2))
  show "in_valid (ino fs2 i)" using keeps_validD [OF kv i(1) i1(1)] .
  have "length (di_addrs (ino fs1 i)) = 13" using table_okD(6) [OF fs_invD(1) [OF c(1)] i(1) i1(1)] by (simp add: copy_ok_def)
  then show "di_addrs (ino fs2 i) ! k = b" using n(4) k(1) by simp
qed

lemma bmap_direct:
  assumes inv: "fs_inv fs H" and i: "i \<in># H" "in_valid (ino fs i)" and b: "bmap i bn fs = Some (a, fs')" "bn < 12"
  shows "fs_inv fs' H \<and> keeps_valid G fs fs' \<and> (a \<noteq> 0 \<longrightarrow> data_block fs' a)"
proof (cases "di_addrs (ino fs i) ! bn = 0")
  case False
  with b inv addr_block(1) [OF inv i b(2)] show ?thesis by (auto simp: bmap_def)
next
  case True
  obtain c fs1 where c: "balloc fs = (c, fs1)" by force
  note ci = balloc_inv [OF inv c]
  show ?thesis
  proof (cases "c = 0")
    case c0: True
    with b True c have "a = 0" "fs' = fs1" by (auto simp: bmap_def)
    with ci show ?thesis by (simp add: keeps_valid_def)
  next
    case False
    with b True c have e: "a = c" "fs' = upd_ino i (\<lambda>ip. ip\<lparr>di_addrs := (di_addrs ip)[bn := c]\<rparr>) fs1" by (auto simp: bmap_def)
    have "bn < 13" using b(2) by simp
    note n = new_addr [OF inv i this True c False, folded e(2)]
    from addr_block(1) [OF n(1) i(1) n(3) b(2) n(4)] n e(1) show ?thesis by simp
  qed
qed

lemma bmap_entry:
  assumes inv: "fs_inv fs H" and i: "i \<in># H" "in_valid (ino fs i)" and a: "di_addrs (ino fs i) ! 12 = ind" "ind \<noteq> 0" and j: "j < 256"
    and b: "balloc fs = (b, f2)"
    and r: "(if indirect_entry (fk_blocks fs ind) j = 0
      then if b \<noteq> 0 then Some (b, f2\<lparr>fk_blocks := (fk_blocks f2)(ind := set_indirect j b (fk_blocks f2 ind))\<rparr>) else Some (b, f2)
      else Some (indirect_entry (fk_blocks fs ind) j, fs)) = Some (x, fs')"
  shows "fs_inv fs' H \<and> keeps_valid G fs fs' \<and> (x \<noteq> 0 \<longrightarrow> data_block fs' x)"
proof (cases "indirect_entry (fk_blocks fs ind) j = 0")
  case False
  with r inv addr_block(2) [OF inv i j a] show ?thesis by auto
next
  case True
  note c = balloc_inv [OF inv b]
  show ?thesis
  proof (cases "b = 0")
    case b0: True
    with r True c show ?thesis by (auto simp: keeps_valid_def)
  next
    case False
    with r True have e: "x = b" "fs' = f2\<lparr>fk_blocks := (fk_blocks f2)(ind := set_indirect j b (fk_blocks f2 ind))\<rparr>" by auto
    have i2: "in_valid (ino f2 i)" "di_addrs (ino f2 i) ! 12 = ind" using i(2) a(1) by (simp_all add: c(2))
    have m: "unat (in_inum (ino f2 i)) < length (fk_dinodes f2)" by (rule held_inum [OF c(1) i(1) i2(1)])
    have "cell f2 (unat (in_inum (ino f2 i))) 12 = ind"
      using addrs_mem [OF fs_invD(1) [OF c(1)] i(1) i2(1)] i2(2) by (simp add: cell_def cell_of_def)
    then have "ind \<noteq> b" using fresh_blockD [OF c(4) [OF False] m, of 12] by simp
    then have z: "indirect_entry (fk_blocks f2 ind) j = 0" using c(6) True by simp
    note n = set_indirect_inv [OF c(1) i(1) i2(1,2) a(2) j c(4) [OF False] z, folded e(2)]
    have "data_block fs' b"
      using cell_data_block [OF _ _ _ n(2)] m j by (simp add: e(2))
    moreover have "keeps_valid G fs fs'" by (simp add: e(2) keeps_valid_def c(2))
    ultimately show ?thesis using n(1) e(1) by simp
  qed
qed

lemma bmap_inv:
  assumes inv: "fs_inv fs H" and i: "i \<in># H" "in_valid (ino fs i)" and b: "bmap i bn fs = Some (a, fs')"
  shows "fs_inv fs' H" "keeps_valid G fs fs'" "a \<noteq> 0 \<Longrightarrow> data_block fs' a"
proof -
  have "fs_inv fs' H \<and> keeps_valid G fs fs' \<and> (a \<noteq> 0 \<longrightarrow> data_block fs' a)"
  proof (cases "bn < 12")
    case True
    then show ?thesis by (rule bmap_direct [OF inv i b])
  next
    case False
    let ?j = "bn - 12"
    have j: "?j < 256" using b False by (auto simp: bmap_def split: if_splits)
    obtain c f1 where c: "balloc fs = (c, f1)" by force
    show ?thesis
    proof (cases "di_addrs (ino fs i) ! 12 = 0")
      case nz: False
      from b False j nz c show ?thesis
        by (intro bmap_entry [OF inv i HOL.refl nz j c]) (auto simp: bmap_def Let_def split: if_splits)
    next
      case z: True
      note ci = balloc_inv [OF inv c]
      show ?thesis
      proof (cases "c = 0")
        case True
        with b False j z c ci show ?thesis by (auto simp: bmap_def Let_def keeps_valid_def)
      next
        case c0: False
        define fs2 where "fs2 = upd_ino i (\<lambda>ip. ip\<lparr>di_addrs := (di_addrs ip)[12 := c]\<rparr>) f1"
        have "(12 :: nat) < 13" by simp
        note n = new_addr [OF inv i this z c c0, folded fs2_def]
        obtain d f2 where d: "balloc fs2 = (d, f2)" by force
        have "(if indirect_entry (fk_blocks fs2 c) ?j = 0
          then if d \<noteq> 0 then Some (d, f2\<lparr>fk_blocks := (fk_blocks f2)(c := set_indirect ?j d (fk_blocks f2 c))\<rparr>) else Some (d, f2)
          else Some (indirect_entry (fk_blocks fs2 c) ?j, fs2)) = Some (a, fs')"
          using b False j z c c0 d by (auto simp: bmap_def Let_def fs2_def [symmetric] split: if_splits)
        from bmap_entry [OF n(1) i(1) n(3,4) c0 j d this] have "fs_inv fs' H \<and> keeps_valid H fs2 fs' \<and> keeps_valid G fs2 fs' \<and> (a \<noteq> 0 \<longrightarrow> data_block fs' a)"
          by blast
        then show ?thesis using n(2) keeps_valid_trans [of G fs fs2 G fs'] by blast
      qed
    qed
  qed
  then show "fs_inv fs' H" "keeps_valid G fs fs'" "a \<noteq> 0 \<Longrightarrow> data_block fs' a" by blast+
qed

subsection \<open>Reading and writing\<close>

lemma readi_loop_inv:
  assumes "fs_inv fs H" "i \<in># H" "in_valid (ino fs i)" "readi_loop put i off n tot d fs = Some (r, d', fs')"
  shows "fs_inv fs' H \<and> keeps_valid H fs fs'"
  using assms
proof (induction put i off n tot d fs rule: readi_loop.induct)
  case (1 put i off n tot d fs)
  show ?case
  proof (cases "tot < n")
    case False
    with "1.prems" show ?thesis by (simp add: readi_loop.simps)
  next
    case t: True
    then obtain a fs1 where b: "bmap i (off div BSIZE) fs = Some (a, fs1)"
      using "1.prems"(4) by (auto simp: readi_loop.simps [of put i off n tot] split: option.splits)
    note s = bmap_inv [OF "1.prems"(1-3) b]
    have v: "in_valid (ino fs1 i)" using keeps_validD [OF s(2) "1.prems"(2,3)] .
    show ?thesis
    proof (cases "a = 0")
      case True
      with "1.prems"(4) t b s show ?thesis by (simp add: readi_loop.simps [of put i off n tot])
    next
      case False
      let ?m = "min (n - tot) (BSIZE - off mod BSIZE)"
      obtain ok d1 where p: "put tot (take ?m (drop (off mod BSIZE) (fk_blocks fs1 a))) d = (ok, d1)" by force
      show ?thesis
        using "1.prems"(2,4) "1.IH" [OF t b HOL.refl False HOL.refl p [symmetric] _ s(1) _ v] t b False p s
          keeps_valid_trans [OF s(2), of H _ H]
        by (cases ok) (simp_all add: readi_loop.simps [of put i off n tot] Let_def)
    qed
  qed
qed

lemma readi_inv:
  assumes "fs_inv fs H" "i \<in># H" "in_valid (ino fs i)" "readi put i off n d fs = Some (r, d', fs')"
  shows "fs_inv fs' H" "keeps_valid H fs fs'"
proof -
  have "fs_inv fs' H \<and> keeps_valid H fs fs'"
    using assms(1,4) by (auto simp: readi_def Let_def split: if_splits dest: readi_loop_inv [OF assms(1-3)])
  then show "fs_inv fs' H" "keeps_valid H fs fs'" by blast+
qed

text \<open>The pieces that are written have the length that was asked for.\<close>

definition exact :: "(nat \<Rightarrow> nat \<Rightarrow> string option) \<Rightarrow> nat \<Rightarrow> bool" where
  "exact get n \<longleftrightarrow> (\<forall>tot m bs. tot + m \<le> n \<longrightarrow> get tot m = Some bs \<longrightarrow> length bs = m)"

lemma writei_loop_inv:
  assumes "fs_inv fs H" "i \<in># H" "in_valid (ino fs i)" "exact get n" "writei_loop get i off n tot fs = Some (r, off', fs')"
  shows "fs_inv fs' H \<and> keeps_valid H fs fs'"
  using assms
proof (induction get i off n tot fs rule: writei_loop.induct)
  case (1 get i off n tot fs)
  show ?case
  proof (cases "tot < n")
    case False
    with "1.prems" show ?thesis by (simp add: writei_loop.simps)
  next
    case t: True
    then obtain a fs1 where b: "bmap i (off div BSIZE) fs = Some (a, fs1)"
      using "1.prems"(5) by (auto simp: writei_loop.simps [of get i off n tot] split: option.splits)
    note s = bmap_inv [OF "1.prems"(1-3) b]
    have v: "in_valid (ino fs1 i)" using keeps_validD [OF s(2) "1.prems"(2,3)] .
    let ?m = "min (n - tot) (BSIZE - off mod BSIZE)"
    show ?thesis
    proof (cases "a = 0 \<or> get tot ?m = None")
      case True
      with "1.prems"(5) t b s show ?thesis by (auto simp: writei_loop.simps [of get i off n tot] Let_def split: if_splits)
    next
      case False
      then obtain bs where g: "get tot ?m = Some bs" by blast
      have "tot + ?m \<le> n" using t by simp
      then have "length bs = ?m" using "1.prems"(4) g unfolding exact_def by blast
      then have len: "length (store_bytes (off mod BSIZE) bs (fk_blocks fs1 a)) = BSIZE"
        using disk_okD(2) [OF fs_invD(2) [OF s(1)], of a] by simp
      let ?fs2 = "fs1\<lparr>fk_blocks := (fk_blocks fs1)(a := store_bytes (off mod BSIZE) bs (fk_blocks fs1 a))\<rparr>"
      have i2: "fs_inv ?fs2 H" using False s(3) by (intro data_block_inv [OF s(1) _ _ len]) simp_all
      have a0: "a \<noteq> 0" using False by simp
      have "fs_inv fs' H \<and> keeps_valid H ?fs2 fs'"
        using "1.IH" [OF t b HOL.refl a0 HOL.refl g i2 "1.prems"(2) _ "1.prems"(4)] v "1.prems"(5) t b a0 g
        by (simp add: writei_loop.simps [of get i off n tot] Let_def)
      then show ?thesis using s(2) by (auto simp: keeps_valid_def)
    qed
  qed
qed

lemma writei_inv:
  assumes inv: "fs_inv fs H" "i \<in># H" "in_valid (ino fs i)" and get: "exact get (unat n)" and w: "writei get i off n fs = Some (r, fs')"
  shows "fs_inv fs' H" "keeps_valid H fs fs'"
proof -
  have "fs_inv fs' H \<and> keeps_valid H fs fs'"
  proof (cases "off > di_size (ino fs i) \<or> off + n < off \<or> unat (off + n) > MAXFILE * BSIZE")
    case True
    with w inv show ?thesis by (auto simp: writei_def split: if_splits)
  next
    case False
    with w obtain tot off' fs1 where l: "writei_loop get i (unat off) (unat n) 0 fs = Some (tot, off', fs1)"
      and e: "fs' = iupdate i (if off' > unat (di_size (ino fs1 i)) then upd_ino i (\<lambda>ip. ip\<lparr>di_size := of_nat off'\<rparr>) fs1 else fs1)"
      by (auto simp: writei_def Let_def bind_eq_Some_conv split: if_splits)
    note s = writei_loop_inv [OF inv get l]
    have v: "in_valid (ino fs1 i)" using keeps_validD [OF conjunct2 [OF s] inv(2,3)] .
    let ?f = "\<lambda>ip. ip\<lparr>di_size := of_nat off'\<rparr>"
    have p: "plain_change (ino fs1 i) (?f (ino fs1 i))" by (simp add: plain_change_def)
    note u = fs_inv_plain [OF conjunct1 [OF s] inv(2), of ?f, OF p]
    let ?fs2 = "if off' > unat (di_size (ino fs1 i)) then upd_ino i ?f fs1 else fs1"
    have i2: "fs_inv ?fs2 H" "keeps_valid H fs1 ?fs2" using u s by simp_all
    have v2: "in_valid (ino ?fs2 i)" using keeps_validD [OF i2(2) inv(2) v] .
    note f = iupdate_inv [OF i2(1) inv(2) v2]
    have "keeps_valid H fs ?fs2" using keeps_valid_trans [OF conjunct2 [OF s] i2(2)] by simp
    then have "keeps_valid H fs fs'" unfolding e using keeps_valid_trans [OF _ f(2) [of H], of H] by simp
    with f(1) show ?thesis by (simp add: e)
  qed
  then show "fs_inv fs' H" "keeps_valid H fs fs'" by blast+
qed

end
