(* ===== verification/FsFree.thy ===== *)
theory FsFree
  imports FsBlocks
begin

text \<open>
  Freeing and allocating inodes (\<open>itrunc\<close>, \<open>iput\<close>, \<open>ialloc\<close> in kernel/fs.c) under the invariant of \<open>FsBlocks\<close>: freeing
  cannot panic, and it gives back exactly the blocks of the file.
\<close>

subsection \<open>Freeing\<close>

text \<open>Freeing a list of blocks.\<close>

definition unused :: "u32 list \<Rightarrow> bool list \<Rightarrow> bool list" where
  "unused L bm = map (\<lambda>x. bm ! x \<and> x \<notin> unat ` (set L - {0})) [0..<length bm]"

lemma unused_nth: "x < length bm \<Longrightarrow> unused L bm ! x = (bm ! x \<and> x \<notin> unat ` (set L - {0}))"
  by (simp add: unused_def)

lemma length_unused [simp]: "length (unused L bm) = length bm"
  by (simp add: unused_def)

lemma unused_Cons:
  assumes "a \<noteq> 0" "unat a < length bm"
  shows "unused L (bm[unat a := False]) = unused (a # L) bm"
  using assms by (intro nth_equalityI) (auto simp: unused_nth nth_list_update)

lemma unused_zero: "unused (0 # L) bm = unused L bm"
  by (simp add: unused_def)

lemma free_entries_ok:
  assumes "distinct (filter (\<lambda>a. a \<noteq> 0) L)" "\<And>a. a \<in> set L \<Longrightarrow> a \<noteq> 0 \<Longrightarrow> allocated fs a"
  shows "free_entries L fs = Some (fs\<lparr>fk_bitmap := unused L (fk_bitmap fs)\<rparr>)"
  using assms
proof (induction L arbitrary: fs)
  case Nil
  have "unused [] (fk_bitmap fs) = fk_bitmap fs" by (intro nth_equalityI) (auto simp: unused_nth)
  then show ?case by simp
next
  case (Cons a L)
  show ?case
  proof (cases "a = 0")
    case True
    with Cons show ?thesis by (simp add: unused_zero)
  next
    case False
    then have al: "unat a < length (fk_bitmap fs)" "fk_bitmap fs ! unat a" using Cons.prems(2) [of a] by (simp_all add: allocated_def)
    let ?fs = "fs\<lparr>fk_bitmap := (fk_bitmap fs)[unat a := False]\<rparr>"
    have "allocated ?fs c" if "c \<in> set L" "c \<noteq> 0" for c
    proof -
      have "a \<noteq> c" using Cons.prems(1) that False by auto
      then have "unat a \<noteq> unat c" by (simp add: word_unat_eq_iff)
      then show ?thesis using Cons.prems(2) [of c] that by (simp add: allocated_def)
    qed
    moreover have "distinct (filter (\<lambda>a. a \<noteq> 0) L)" using Cons.prems(1) False by simp
    ultimately have "free_entries L ?fs = Some (?fs\<lparr>fk_bitmap := unused L ((fk_bitmap fs)[unat a := False])\<rparr>)"
      using Cons.IH [of ?fs] by simp
    then show ?thesis using False al by (simp add: bfree_def unused_Cons)
  qed
qed

lemma free_entries_append: "free_entries (xs @ ys) fs = (case free_entries xs fs of None \<Rightarrow> None | Some f \<Rightarrow> free_entries ys f)"
  by (induction xs arbitrary: fs) (auto split: option.splits)

lemma free_entries_same: "free_entries L fs = Some f \<Longrightarrow> f = fs\<lparr>fk_bitmap := fk_bitmap f\<rparr>"
proof (induction L arbitrary: fs)
  case (Cons a L)
  show ?case
  proof (cases "a = 0")
    case False
    with Cons.prems obtain g where g: "bfree a fs = Some g" "free_entries L g = Some f" by (auto split: option.splits)
    have "g = fs\<lparr>fk_bitmap := fk_bitmap g\<rparr>" using g(1) by (auto simp: bfree_def split: if_splits)
    with Cons.IH [OF g(2)] show ?thesis by (metis fsk.fold_congs(1) fsk.update_convs(1) fsk.surjective)
  qed (use Cons in simp)
qed simp

text \<open>The bitmap and the table do not meet.\<close>

lemma bfree_upd_ino: "bfree a (upd_ino i f fs) = map_option (upd_ino i f) (bfree a fs)"
  by (simp add: bfree_def upd_ino_def)

lemma free_entries_upd_ino: "free_entries L (upd_ino i f fs) = map_option (upd_ino i f) (free_entries L fs)"
  by (induction L arbitrary: fs) (auto simp: bfree_upd_ino split: option.splits)

lemma bfree_ino: "bfree a fs = Some g \<Longrightarrow> fk_itable g = fk_itable fs \<and> fk_blocks g = fk_blocks fs \<and> fk_dinodes g = fk_dinodes fs"
  by (auto simp: bfree_def split: if_splits)

definition clear_addrs :: "nat list \<Rightarrow> u32 list \<Rightarrow> u32 list" where
  "clear_addrs ks as = fold (\<lambda>k as. as[k := 0]) ks as"

lemma free_direct_eq:
  assumes "length (fk_itable fs) = 50" "i < 50" "distinct ks"
  shows "free_direct i ks fs = map_option (upd_ino i (\<lambda>ip. ip\<lparr>di_addrs := clear_addrs ks (di_addrs ip)\<rparr>))
    (free_entries (map (\<lambda>k. di_addrs (ino fs i) ! k) ks) fs)"
  using assms
proof (induction ks arbitrary: fs)
  case Nil
  have "upd_ino i (\<lambda>ip. ip\<lparr>di_addrs := clear_addrs [] (di_addrs ip)\<rparr>) fs = fs" by (simp add: upd_ino_def clear_addrs_def)
  then show ?case by simp
next
  case (Cons k ks)
  let ?c = "\<lambda>ip. ip\<lparr>di_addrs := (di_addrs ip)[k := 0]\<rparr>" and ?d = "\<lambda>ip :: inode. ip\<lparr>di_addrs := clear_addrs ks (di_addrs ip)\<rparr>"
  let ?kd = "\<lambda>ip :: inode. ip\<lparr>di_addrs := clear_addrs (k # ks) (di_addrs ip)\<rparr>"
  let ?as = "map (\<lambda>k. di_addrs (ino fs i) ! k) ks"
  show ?case
  proof (cases "di_addrs (ino fs i) ! k = 0")
    case True
    have "upd_ino i ?d g = upd_ino i ?kd g" if "free_entries ?as fs = Some g" for g
    proof -
      have "fk_itable g = fk_itable fs" using free_entries_same [OF that] by (metis fsk.select_convs(4) fsk.surjective fsk.update_convs(1))
      moreover have "(di_addrs (ino fs i))[k := 0] = di_addrs (ino fs i)" by (metis True list_update_id)
      ultimately show ?thesis by (simp add: upd_ino_def clear_addrs_def)
    qed
    then have "map_option (upd_ino i ?d) (free_entries ?as fs) = map_option (upd_ino i ?kd) (free_entries ?as fs)"
      by (cases "free_entries ?as fs") simp_all
    with True Cons show ?thesis by simp
  next
    case False
    show ?thesis
    proof (cases "bfree (di_addrs (ino fs i) ! k) fs")
      case None
      with False show ?thesis by simp
    next
      case (Some g)
      note e = bfree_ino [OF Some]
      have l: "length (fk_itable (upd_ino i ?c g)) = 50" using Cons.prems(1) e by simp
      have a: "map (\<lambda>k. di_addrs (ino (upd_ino i ?c g) i) ! k) ks = ?as"
        using Cons.prems e by (auto simp: upd_ino_def intro!: nth_list_update_neq)
      have two: "upd_ino i ?d (upd_ino i ?c h) = upd_ino i ?kd h" if "length (fk_itable h) = 50" for h
        using Cons.prems(2) that by (simp add: upd_ino_def clear_addrs_def)
      have "length (fk_itable h) = 50" if "free_entries ?as g = Some h" for h
        using free_entries_same [OF that] e Cons.prems(1) by (metis fsk.select_convs(4) fsk.surjective fsk.update_convs(1))
      then have "map_option (upd_ino i ?d) (map_option (upd_ino i ?c) (free_entries ?as g)) = map_option (upd_ino i ?kd) (free_entries ?as g)"
        using two by (cases "free_entries ?as g") simp_all
      then show ?thesis
        using False Some Cons.IH [OF l Cons.prems(2)] Cons.prems(3) by (simp add: a free_entries_upd_ino)
    qed
  qed
qed

text \<open>The blocks \<open>itrunc\<close> frees, in its order.\<close>

definition blocks_of :: "fsk \<Rightarrow> nat \<Rightarrow> u32 list" where
  "blocks_of fs i =
     (let as = di_addrs (ino fs i)
      in map (nth as) [0..<12] @
         (if as ! 12 = 0 then [] else map (indirect_entry (fk_blocks fs (as ! 12))) [0..<256]) @ [as ! 12])"

definition truncated :: "nat \<Rightarrow> fsk \<Rightarrow> fsk" where
  "truncated i fs = iupdate i (upd_ino i (\<lambda>ip. ip\<lparr>di_addrs := replicate 13 0, di_size := 0\<rparr>)
     (fs\<lparr>fk_bitmap := unused (blocks_of fs i) (fk_bitmap fs)\<rparr>))"

lemma upd_ino_twice: "i < length (fk_itable fs) \<Longrightarrow> upd_ino i f (upd_ino i g fs) = upd_ino i (\<lambda>ip. f (g ip)) fs"
  by (simp add: upd_ino_def)

lemma clear_direct:
  assumes "length as = 13"
  shows "clear_addrs [0..<12] as = replicate 12 0 @ [as ! 12]"
proof -
  have "clear_addrs [0..<n] as = replicate n 0 @ drop n as" if "n \<le> 13" for n
    using that
  proof (induction n)
    case (Suc n)
    then have "clear_addrs [0..<Suc n] as = (replicate n 0 @ drop n as)[n := 0]" by (simp add: clear_addrs_def)
    also have "\<dots> = replicate (Suc n) 0 @ drop (Suc n) as"
      using Suc.prems assms
      by (subst Cons_nth_drop_Suc [of n as, symmetric]) (simp_all add: list_update_append replicate_append_same [symmetric])
    finally show ?case .
  qed (simp add: clear_addrs_def)
  from this [of 12] show ?thesis using assms by (simp add: Cons_nth_drop_Suc [symmetric])
qed

lemma itrunc_eq:
  assumes l: "length (fk_itable fs) = 50" and i: "i < 50" and a: "length (di_addrs (ino fs i)) = 13"
    and d: "distinct (filter (\<lambda>a. a \<noteq> 0) (blocks_of fs i))" and al: "\<And>b. b \<in> set (blocks_of fs i) \<Longrightarrow> b \<noteq> 0 \<Longrightarrow> allocated fs b"
  shows "itrunc i fs = Some (truncated i fs)"
proof -
  let ?as = "di_addrs (ino fs i)" and ?bm = "unused (blocks_of fs i) (fk_bitmap fs)"
  let ?L1 = "map (nth ?as) [0..<12]" and ?L2 = "map (indirect_entry (fk_blocks fs (?as ! 12))) [0..<256]"
  let ?c = "\<lambda>ip :: inode. ip\<lparr>di_addrs := clear_addrs [0..<12] (di_addrs ip)\<rparr>"
  have all: "free_entries (blocks_of fs i) fs = Some (fs\<lparr>fk_bitmap := ?bm\<rparr>)" by (rule free_entries_ok [OF d al])
  then obtain g1 where g1: "free_entries ?L1 fs = Some g1"
    "free_entries ((if ?as ! 12 = 0 then [] else ?L2) @ [?as ! 12]) g1 = Some (fs\<lparr>fk_bitmap := ?bm\<rparr>)"
    unfolding blocks_of_def Let_def free_entries_append [of ?L1] by (auto split: option.splits)
  have e1: "g1 = fs\<lparr>fk_bitmap := fk_bitmap g1\<rparr>" by (rule free_entries_same [OF g1(1)])
  then have f1: "fk_itable g1 = fk_itable fs" "fk_blocks g1 = fk_blocks fs" by (metis fsk.select_convs(3,4) fsk.surjective fsk.update_convs(1))+
  have fd: "free_direct i [0..<12] fs = Some (upd_ino i ?c g1)" using free_direct_eq [OF l i, of "[0..<12]"] g1(1) by simp
  let ?fs1 = "upd_ino i ?c g1"
  have as1: "di_addrs (ino ?fs1 i) = replicate 12 0 @ [?as ! 12]"
    using l i f1 clear_direct [OF a] by (simp add: upd_ino_def)
  have a12: "di_addrs (ino ?fs1 i) ! 12 = ?as ! 12" unfolding as1 by (simp add: nth_append)
  have fin: "truncated i fs = iupdate i (upd_ino i (\<lambda>ip. ip\<lparr>di_size := 0\<rparr>) (upd_ino i (\<lambda>ip. ip\<lparr>di_addrs := (di_addrs ip)[12 := 0]\<rparr>)
      (upd_ino i ?c (fs\<lparr>fk_bitmap := ?bm\<rparr>))))"
  proof -
    have "(clear_addrs [0..<12] ?as)[12 := 0] = replicate 13 0"
      unfolding clear_direct [OF a] by (intro nth_equalityI) (auto simp: nth_append nth_list_update)
    then show ?thesis using l i by (simp add: truncated_def upd_ino_def)
  qed
  show ?thesis
  proof (cases "?as ! 12 = 0")
    case True
    then have "g1 = fs\<lparr>fk_bitmap := ?bm\<rparr>" using g1(2) by simp
    moreover have "upd_ino i (\<lambda>ip. ip\<lparr>di_addrs := (di_addrs ip)[12 := 0]\<rparr>) ?fs1 = ?fs1"
    proof -
      have "(di_addrs (ino ?fs1 i))[12 := 0] = di_addrs (ino ?fs1 i)" 
        using list_update_id [of "di_addrs (ino ?fs1 i)" 12] unfolding a12 True .
      then show ?thesis using l i f1 by (simp add: upd_ino_def)
    qed
    ultimately show ?thesis using fd a12 True by (simp add: itrunc_def fin)
  next
    case False
    then obtain g2 where g2: "free_entries ?L2 g1 = Some g2" "bfree (?as ! 12) g2 = Some (fs\<lparr>fk_bitmap := ?bm\<rparr>)"
      using g1(2) by (auto simp: free_entries_append split: option.splits)
    have "free_entries ?L2 ?fs1 = Some (upd_ino i ?c g2)" "bfree (?as ! 12) (upd_ino i ?c g2) = Some (upd_ino i ?c (fs\<lparr>fk_bitmap := ?bm\<rparr>))"
      by (simp_all add: free_entries_upd_ino bfree_upd_ino g2)
    then show ?thesis using fd a12 False by (simp add: itrunc_def fin f1)
  qed
qed

lemma distinct_filter_map:
  assumes "distinct ks" "\<And>k k'. k \<in> set ks \<Longrightarrow> k' \<in> set ks \<Longrightarrow> f k \<noteq> 0 \<Longrightarrow> f k' = f k \<Longrightarrow> k' = k"
  shows "distinct (filter (\<lambda>a. a \<noteq> 0) (map f ks))"
  using assms by (induction ks) (auto, metis)

text \<open>The pointers of inode \<open>m\<close> in the order \<open>itrunc\<close> visits them.\<close>

lemma blocks_of_cells:
  assumes t: "table_ok fs H" and i: "i \<in># H" "in_valid (ino fs i)"
  shows "\<exists>ks. blocks_of fs i = map (cell fs (unat (in_inum (ino fs i)))) ks \<and> distinct ks \<and> set ks \<subseteq> {..<269} \<and>
    (\<forall>k < 269. cell fs (unat (in_inum (ino fs i))) k \<noteq> 0 \<longrightarrow> k \<in> set ks)"
proof -
  let ?as = "di_addrs (ino fs i)" and ?m = "unat (in_inum (ino fs i))"
  have am: "addrs_of fs ?m = ?as" by (rule addrs_mem [OF t i])
  have c: "cell fs ?m k = (if k < 13 then ?as ! k else if ?as ! 12 = 0 then 0 else indirect_entry (fk_blocks fs (?as ! 12)) (k - 13))" for k
    by (simp add: cell_def cell_of_def am)
  let ?ks = "[0..<12] @ (if ?as ! 12 = 0 then [] else map (\<lambda>j. 13 + j) [0..<256]) @ [12]"
  have "blocks_of fs i = map (cell fs ?m) ?ks" by (simp add: blocks_of_def Let_def c)
  moreover have "distinct ?ks" by (auto simp: distinct_map)
  moreover have "set ?ks \<subseteq> {..<269}" by auto
  moreover have "k \<in> set ?ks" if "k < 269" "cell fs ?m k \<noteq> 0" for k
  proof (cases "k < 13")
    case True
    then show ?thesis by auto
  next
    case False
    with that have "?as ! 12 \<noteq> 0" "k = 13 + (k - 13)" "k - 13 < 256" by (auto simp: c split: if_splits)
    then show ?thesis by force
  qed
  ultimately show ?thesis by blast
qed

lemma itrunc_some:
  assumes inv: "fs_inv fs H" and i: "i \<in># H" "in_valid (ino fs i)"
  shows "itrunc i fs = Some (truncated i fs)"
proof -
  note t = fs_invD(1) [OF inv]
  let ?m = "unat (in_inum (ino fs i))"
  have m: "?m < length (fk_dinodes fs)" by (rule held_inum [OF inv i])
  obtain ks where ks: "blocks_of fs i = map (cell fs ?m) ks" "distinct ks" "set ks \<subseteq> {..<269}" using blocks_of_cells [OF t i] by blast
  note d = blocks_okD [OF fs_invD(3) [OF inv] m]
  have "length (di_addrs (ino fs i)) = 13" using table_okD(6) [OF t i] by (simp add: copy_ok_def)
  then show ?thesis
  proof (rule itrunc_eq [OF table_okD(1) [OF t] table_okD(2) [OF t i(1)]])
    show "distinct (filter (\<lambda>a. a \<noteq> 0) (blocks_of fs i))"
      unfolding ks(1) using ks(3) d(2) m by (intro distinct_filter_map [OF ks(2)]) blast
    show "allocated fs b" if "b \<in> set (blocks_of fs i)" "b \<noteq> 0" for b
      using that ks(3) d(1) unfolding ks(1) by auto
  qed
qed

lemma truncated_fields:
  assumes "length (fk_itable fs) = 50" "j < 50" "i < 50"
  shows "ino (truncated i fs) j = (if j = i then (ino fs i)\<lparr>di_addrs := replicate 13 0, di_size := 0\<rparr> else ino fs j)"
    "length (fk_itable (truncated i fs)) = 50" "fk_blocks (truncated i fs) = fk_blocks fs"
    "fk_bitmap (truncated i fs) = unused (blocks_of fs i) (fk_bitmap fs)" "length (fk_dinodes (truncated i fs)) = length (fk_dinodes fs)"
    "unat (in_inum (ino fs i)) < length (fk_dinodes fs) \<Longrightarrow> fk_dinodes (truncated i fs) ! m =
      (if m = unat (in_inum (ino fs i)) then dinode.truncate ((ino fs i)\<lparr>di_addrs := replicate 13 0, di_size := 0\<rparr>) else fk_dinodes fs ! m)"
  using assms by (simp_all add: truncated_def iupdate_def upd_ino_def nth_list_update)

lemma itrunc_inv:
  assumes inv: "fs_inv fs H" and i: "i \<in># H" "in_valid (ino fs i)"
  shows "fs_inv (truncated i fs) H" "keeps_valid G fs (truncated i fs)"
proof -
  note t = fs_invD(1) [OF inv]
  note d = table_okD [OF t]
  let ?T = "truncated i fs" and ?m = "unat (in_inum (ino fs i))"
  have m: "?m < length (fk_dinodes fs)" by (rule held_inum [OF inv i])
  note f = truncated_fields [OF d(1) _ d(2) [OF i(1)]]
  note fd = f(6) [OF d(2) [OF i(1)] m]
  note ft = f(2-5) [OF d(2) [OF i(1)]]
  have same: "in_valid (ino ?T j) = in_valid (ino fs j)" "in_inum (ino ?T j) = in_inum (ino fs j)" "in_ref (ino ?T j) = in_ref (ino fs j)"
    "in_dev (ino ?T j) = in_dev (ino fs j)" if "j < 50" for j using f(1) [OF that] by simp_all
  note c = d(6) [OF i, unfolded copy_ok_def]
  have cp: "copy_ok (fk_dinodes ?T) (ino ?T j)" if j: "j \<in># H" "in_valid (ino fs j)" for j
  proof (cases "j = i")
    case True
    with c show ?thesis by (simp add: copy_ok_def f(1) [OF d(2) [OF i(1)]] ft fd truncate_fields)
  next
    case False
    then have "unat (in_inum (ino fs j)) \<noteq> ?m" using held_unique [OF t j(1) i(1)] by (auto intro: unsigned_word_eqI)
    with d(6) [OF j] False show ?thesis by (simp add: copy_ok_def f(1) [OF d(2) [OF j(1)]] ft fd)
  qed
  have inj: "inj_on (\<lambda>j. in_inum (ino ?T j)) (set_mset H)"
    by (rule inj_onI) (use held_unique [OF t] same(2) d(2) in auto)
  have t': "table_ok ?T H"
    unfolding table_ok_def using inj cp same d(1,2,4,5) ft(1) by auto
  have mem: "mem_of ?T k = mem_of fs k" for k
  proof -
    have "mem_of ?T k = Some j \<longleftrightarrow> mem_of fs k = Some j" for j
      unfolding mem_of_Some [OF t] mem_of_Some [OF t'] using same d(2) [of j] by auto
    then show ?thesis by (metis not_None_eq)
  qed
  have a: "addrs_of ?T k = (if k = ?m then replicate 13 0 else addrs_of fs k)" for k
  proof (cases "mem_of fs k")
    case None
    then have "k \<noteq> ?m" using mem_of_Some [OF t, of ?m i] i by auto
    with None show ?thesis by (simp add: addrs_of_def mem fd)
  next
    case (Some j)
    then have j: "j \<in># H" "unat (in_inum (ino fs j)) = k" "in_valid (ino fs j)" using mem_of_Some [OF t] by blast+
    have "j = i \<longleftrightarrow> k = ?m" using held_unique [OF t j(1) i(1)] j(2) by (auto intro: unsigned_word_eqI)
    with Some show ?thesis by (simp add: addrs_of_def mem f(1) [OF d(2) [OF j(1)]])
  qed
  have cell: "cell ?T k l = (if k = ?m then 0 else cell fs k l)" if "l < 269" for k l
    using that by (simp add: cell_def a cell_of_def ft)
  obtain ks where ks: "blocks_of fs i = map (cell fs ?m) ks" "set ks \<subseteq> {..<269}" using blocks_of_cells [OF t i] by blast
  have "blocks_ok ?T"
  proof (rule blocks_ok_less [OF fs_invD(3) [OF inv]])
    fix k l assume kl: "k < length (fk_dinodes fs)" "l < 269" "cell ?T k l \<noteq> 0"
    then have e: "k \<noteq> ?m" "cell ?T k l = cell fs k l" "cell fs k l \<noteq> 0" using cell [OF kl(2), of k] by (auto split: if_splits)
    note o = blocks_okD [OF fs_invD(3) [OF inv] kl(1,2) e(3)]
    have "cell fs k l \<notin> set (blocks_of fs i)"
    proof
      assume "cell fs k l \<in> set (blocks_of fs i)"
      then obtain x where "x < 269" "cell fs ?m x = cell fs k l" using ks by auto
      with o(2) [OF m] e(1) show False by blast
    qed
    then have "unat (cell fs k l) \<notin> unat ` (set (blocks_of fs i) - {0})" by (auto simp: word_unat_eq_iff [symmetric])
    with o(1) have "allocated ?T (cell fs k l)" by (simp add: allocated_def ft unused_nth)
    with e(2) show "cell ?T k l = cell fs k l \<and> allocated ?T (cell ?T k l)" by simp
  qed (simp add: ft)
  moreover have "disk_ok ?T"
    using fs_invD(2) [OF inv] disk_okD(1) [OF fs_invD(2) [OF inv]] by (auto simp: disk_ok_def ft in_set_conv_nth fd truncate_fields)
  ultimately show "fs_inv ?T H" using t' by (simp add: fs_inv_def)
  have "in_valid (ino ?T j) = in_valid (ino fs j)" for j
    using valid_upd [of "\<lambda>ip. ip\<lparr>di_addrs := replicate 13 0, di_size := 0\<rparr>" "fs\<lparr>fk_bitmap := unused (blocks_of fs i) (fk_bitmap fs)\<rparr>" i j]
    by (simp add: truncated_def iupdate_def)
  then show "keeps_valid G fs ?T" by (simp add: keeps_valid_def)
qed

text \<open>The last holder lets go: what is on the disk counts now.\<close>

lemma release_inv:
  assumes inv: "fs_inv fs H" and i: "i \<in># H" "count H i = 1" and r: "in_ref (f (ino fs i)) = 0"
    and F: "F = (upd_ino i f fs)\<lparr>fk_dinodes := ds\<rparr>" and ds: "length ds = length (fk_dinodes fs)"
    and o: "\<And>k. k < length ds \<Longrightarrow> k \<noteq> unat (in_inum (ino fs i)) \<Longrightarrow> ds ! k = fk_dinodes fs ! k"
    and v: "in_valid (ino fs i) \<Longrightarrow> length (di_addrs (ds ! unat (in_inum (ino fs i)))) = 13 \<and>
      (\<forall>k < 13. di_addrs (ds ! unat (in_inum (ino fs i))) ! k \<noteq> 0 \<longrightarrow> di_addrs (ds ! unat (in_inum (ino fs i))) ! k = di_addrs (ino fs i) ! k)"
    and nv: "\<not> in_valid (ino fs i) \<Longrightarrow> ds = fk_dinodes fs"
  shows "fs_inv F (H - {#i#})" "keeps_valid (H - {#i#}) fs F"
proof -
  note t = fs_invD(1) [OF inv]
  note d = table_okD [OF t]
  let ?m = "unat (in_inum (ino fs i))" and ?H = "H - {#i#}"
  have ni: "i \<notin># ?H" using i(2) by (simp add: not_in_iff)
  have hj: "j \<in># ?H \<longleftrightarrow> j \<in># H \<and> j \<noteq> i" for j using same_othersD [OF same_others_simps(3), of j i H] ni by (cases "j = i") auto
  have u: "ino F j = (if j = i then f (ino fs i) else ino fs j)" if "j < 50" for j using ino_upd [OF d(1) that] by (simp add: F)
  have ft: "fk_blocks F = fk_blocks fs" "fk_bitmap F = fk_bitmap fs" "fk_dinodes F = ds" "length (fk_itable F) = 50"
    using d(1) by (simp_all add: F)
  have cp: "copy_ok ds (ino fs j)" if j: "j \<in># H" "j \<noteq> i" "in_valid (ino fs j)" for j
  proof -
    have "unat (in_inum (ino fs j)) \<noteq> ?m" using held_unique [OF t j(1) i(1)] j(2) by (auto intro: unsigned_word_eqI)
    with d(6) [OF j(1,3)] show ?thesis by (simp add: copy_ok_def ds o)
  qed
  have t0: "table_ok (upd_ino i f fs) ?H"
    by (rule table_ok_upd [OF t d(2) [OF i(1)]]) (use ni r i(2) in auto)
  have uf: "ino F j = ino (upd_ino i f fs) j" for j by (simp add: F)
  have t': "table_ok F ?H"
    unfolding table_ok_def ft(3,4) using t0 cp hj u d(2,5) by (auto simp: table_ok_def uf [symmetric] simp del: in_diff_count)
  have oo: "ino F j = ino fs j" if "j < 50" "j \<noteq> i" for j using u [OF that(1)] that(2) by simp
  have a: "addrs_of F k = (if i \<in># H \<and> in_valid (ino fs i) \<and> ?m = k then di_addrs (ds ! k) else if mem_of fs k = None then di_addrs (ds ! k) else addrs_of fs k)" for k
    using addrs_of_upd [OF t t' same_others_simps(3) oo, of k] ni by (simp add: ft)
  have ce: "cell F k l \<noteq> 0 \<longrightarrow> cell F k l = cell fs k l" if "k < length (fk_dinodes fs)" "l < 269" for k l
  proof (cases "in_valid (ino fs i) \<and> k = ?m")
    case True
    have m: "addrs_of fs ?m = di_addrs (ino fs i)" using addrs_mem [OF t i(1)] True by simp
    have ak: "addrs_of F ?m = di_addrs (ds ! ?m)" using a True i(1) by simp
    have v': "\<forall>k < 13. di_addrs (ds ! ?m) ! k \<noteq> 0 \<longrightarrow> di_addrs (ds ! ?m) ! k = di_addrs (ino fs i) ! k" using v True by blast
    have "di_addrs (ds ! ?m) ! 12 = 0 \<or> di_addrs (ds ! ?m) ! 12 = di_addrs (ino fs i) ! 12" using v' [rule_format, of 12] by auto
    then show ?thesis using True v' by (auto simp: cell_def m ak cell_of_def ft)
  next
    case False
    have "addrs_of F k = addrs_of fs k"
    proof (cases "mem_of fs k")
      case None
      have "ds ! k = fk_dinodes fs ! k" using o [of k] nv False that(1) ds by (cases "k = ?m") auto
      with None False a show ?thesis by (auto simp: addrs_of_def)
    qed (use False a in auto)
    then show ?thesis by (simp add: cell_def ft)
  qed
  have "blocks_ok F"
  proof (rule blocks_ok_less [OF fs_invD(3) [OF inv]])
    fix k l assume kl: "k < length (fk_dinodes fs)" "l < 269" "cell F k l \<noteq> 0"
    then have "cell F k l = cell fs k l" using ce by blast
    moreover from this kl have "allocated fs (cell F k l)" using blocks_okD(1) [OF fs_invD(3) [OF inv] kl(1,2)] by simp
    ultimately show "cell F k l = cell fs k l \<and> allocated F (cell F k l)" by (simp add: allocated_def ft)
  qed (simp add: ft ds)
  moreover have "length (di_addrs (ds ! k)) = 13" if "k < length ds" for k
    using that o [OF that] v nv disk_okD(1) [OF fs_invD(2) [OF inv], of k] ds by (cases "k = ?m"; cases "in_valid (ino fs i)") auto
  then have "disk_ok F" using fs_invD(2) [OF inv] by (auto simp: disk_ok_def ft ds in_set_conv_nth)
  ultimately show "fs_inv F ?H" using t' by (simp add: fs_inv_def)
  show "keeps_valid ?H fs F" unfolding keeps_valid_def using u d(2) hj by auto
qed

lemma iput_free:
  assumes inv: "fs_inv fs H" and i: "i \<in># H" "in_ref (ino fs i) = 1" "in_valid (ino fs i)" "di_nlink (ino fs i) = 0"
  shows "\<exists>fs'. iput i fs = Some fs' \<and> fs_inv fs' (H - {#i#}) \<and> keeps_valid (H - {#i#}) fs fs'"
proof -
  let ?T = "truncated i fs" and ?m = "unat (in_inum (ino fs i))"
  let ?A = "\<lambda>ip :: inode. ip\<lparr>di_type := 0, di_attr_count := 0, di_summary := [], di_attrs := replicate 4 zero_attr\<rparr>"
  let ?g = "\<lambda>ip. (?A ip)\<lparr>in_valid := False, in_ref := in_ref ip - 1\<rparr>"
  let ?d = "dinode.truncate (?A (ino ?T i))"
  note T = itrunc_inv [OF inv i(1,3)]
  note d = table_okD [OF fs_invD(1) [OF inv]]
  have i50: "i < 50" by (rule d(2) [OF i(1)])
  have lT: "length (fk_itable ?T) = 50" by (rule truncated_fields(2) [OF d(1) i50 i50])
  have iT: "ino ?T i = (ino fs i)\<lparr>di_addrs := replicate 13 0, di_size := 0\<rparr>" using truncated_fields(1) [OF d(1) i50 i50] by simp
  have c: "count H i = 1" using d(4) [OF i50] i(2) by simp
  have m: "?m < length (fk_dinodes ?T)"
    using held_inum [OF inv i(1,3)] truncated_fields(5) [OF d(1) i50 i50] by simp
  let ?F = "(upd_ino i ?g ?T)\<lparr>fk_dinodes := (fk_dinodes ?T)[?m := ?d]\<rparr>"
  have "iput i fs = Some ?F"
    using i itrunc_some [OF inv i(1,3)] lT i50 iT by (simp add: iput_def iupdate_def upd_ino_def)
  moreover have "fs_inv ?F (H - {#i#}) \<and> keeps_valid (H - {#i#}) ?T ?F"
  proof -
    have r: "in_ref (?g (ino ?T i)) = 0" using i(2) by (simp add: iT)
    have o: "(fk_dinodes ?T)[?m := ?d] ! k = fk_dinodes ?T ! k" if "k \<noteq> unat (in_inum (ino ?T i))" for k using that by (simp add: iT)
    have v: "length (di_addrs ((fk_dinodes ?T)[?m := ?d] ! unat (in_inum (ino ?T i)))) = 13 \<and>
        (\<forall>k < 13. di_addrs ((fk_dinodes ?T)[?m := ?d] ! unat (in_inum (ino ?T i))) ! k \<noteq> 0 \<longrightarrow>
          di_addrs ((fk_dinodes ?T)[?m := ?d] ! unat (in_inum (ino ?T i))) ! k = di_addrs (ino ?T i) ! k)"
      using m by (simp add: iT truncate_fields)
    show ?thesis
      using release_inv [where f = ?g and F = ?F and ds = "(fk_dinodes ?T)[?m := ?d]", OF T(1) i(1) c r HOL.refl] o v i(3)
      by (simp add: iT)
  qed
  moreover have "keeps_valid (H - {#i#}) fs ?T" by (rule T(2))
  ultimately show ?thesis using keeps_valid_trans [of "H - {#i#}" fs ?T "H - {#i#}" ?F] by blast
qed

lemma iput_inv:
  assumes inv: "fs_inv fs H" and i: "i \<in># H"
  shows "\<exists>fs'. iput i fs = Some fs' \<and> fs_inv fs' (H - {#i#}) \<and> keeps_valid (H - {#i#}) fs fs'"
proof (cases "in_ref (ino fs i) = 1 \<and> in_valid (ino fs i) \<and> di_nlink (ino fs i) = 0")
  case True
  with iput_free [OF inv i] show ?thesis by blast
next
  case False
  note t = fs_invD(1) [OF inv]
  note d = table_okD [OF t]
  let ?f = "\<lambda>ip :: inode. ip\<lparr>in_ref := in_ref ip - 1\<rparr>"
  have e: "iput i fs = Some (upd_ino i ?f fs)" using False unfolding iput_def by (simp only: if_False Let_def bind.bind_lunit)
  have ref: "in_ref (ino fs i) = int (count H i)" by (rule d(4) [OF d(2) [OF i]])
  have pos: "count H i > 0" using i by simp
  have "fs_inv (upd_ino i ?f fs) (H - {#i#}) \<and> keeps_valid (H - {#i#}) fs (upd_ino i ?f fs)"
  proof (cases "count H i = 1")
    case True
    have "in_ref (?f (ino fs i)) = 0" using ref True by simp
    have F: "upd_ino i ?f fs = (upd_ino i ?f fs)\<lparr>fk_dinodes := fk_dinodes fs\<rparr>" by (simp add: upd_ino_def)
    have v: "length (di_addrs (fk_dinodes fs ! unat (in_inum (ino fs i)))) = 13 \<and>
        (\<forall>k < 13. di_addrs (fk_dinodes fs ! unat (in_inum (ino fs i))) ! k \<noteq> 0 \<longrightarrow>
          di_addrs (fk_dinodes fs ! unat (in_inum (ino fs i))) ! k = di_addrs (ino fs i) ! k)" if "in_valid (ino fs i)"
      using d(6) [OF i that] disk_okD(1) [OF fs_invD(2) [OF inv]] by (simp add: copy_ok_def)
    show ?thesis
      using release_inv [OF inv i True \<open>in_ref (?f (ino fs i)) = 0\<close> F HOL.refl] v by blast
  next
    case c: False
    have h: "i \<in># H - {#i#}" using pos c by (simp add: count_greater_zero_iff [symmetric] del: count_greater_zero_iff)
    have "fs_inv (upd_ino i ?f fs) (H - {#i#})"
    proof (rule fs_inv_upd [OF inv d(2) [OF i]])
      show "in_ref (?f (ino fs i)) = int (count (H - {#i#}) i)" using ref pos by simp
      show "in_inum (ino fs j) \<noteq> in_inum (?f (ino fs i))" if "j \<in># H" "j \<noteq> i" for j
        using held_unique [OF t that(1) i] that(2) by auto
      show "copy_ok (fk_dinodes fs) (?f (ino fs i))" if "in_valid (?f (ino fs i))" using d(6) [OF i] that by (simp add: copy_ok_def)
    qed (use d(5) [OF i] addrs_mem [OF t i] h in auto)
    moreover have "in_valid (ino (upd_ino i ?f fs) j) = in_valid (ino fs j)" for j by (rule valid_upd) simp
    ultimately show ?thesis by (simp add: keeps_valid_def)
  qed
  with e show ?thesis by blast
qed

text \<open>As elimination rules, for the chains of calls below.\<close>

lemma iputE:
  assumes "iput i fs = Some fs'" "fs_inv fs H" "i \<in># H"
  shows "fs_inv fs' (H - {#i#})" "keeps_valid (H - {#i#}) fs fs'"
  using iput_inv [OF assms(2,3)] assms(1) by auto

lemma iunlockputE:
  assumes "iunlockput i fs = Some fs'" "fs_inv fs H" "i \<in># H"
  shows "fs_inv fs' (H - {#i#})" "keeps_valid (H - {#i#}) fs fs'"
  using assms iputE [of i fs fs' H] by (auto simp: iunlockput_def iunlock_def split: if_splits)

subsection \<open>Allocating an inode\<close>

lemma ialloc_disk:
  assumes inv: "fs_inv fs H" and n: "n < length (fk_dinodes fs)" "di_type (fk_dinodes fs ! n) = 0"
  shows "fs_inv (fs\<lparr>fk_dinodes := (fk_dinodes fs)[n := zero_dinode\<lparr>di_type := type\<rparr>]\<rparr>) H" (is "fs_inv ?fs H")
proof -
  note t = fs_invD(1) [OF inv]
  note d = table_okD [OF t]
  have ne: "unat (in_inum (ino fs j)) \<noteq> n" if "j \<in># H" "in_valid (ino fs j)" for j
    using d(6) [OF that] n(2) by (auto simp: copy_ok_def)
  have "copy_ok (fk_dinodes ?fs) (ino fs j)" if "j \<in># H" "in_valid (ino fs j)" for j
    using d(6) [OF that] ne [OF that] by (simp add: copy_ok_def)
  then have t': "table_ok ?fs H" using t by (simp add: table_ok_def)
  have mem: "mem_of ?fs k = mem_of fs k" for k by (rule mem_of_itable) simp
  have zd: "di_addrs (zero_dinode\<lparr>di_type := type\<rparr>) = replicate 13 0" by (simp add: zero_dinode_def)
  have "mem_of fs n = None" using mem_of_Some [OF t, of n] ne by (cases "mem_of fs n") auto
  then have a: "addrs_of ?fs k = (if k = n then replicate 13 0 else addrs_of fs k)" for k
    using n(1) zd by (cases "k = n") (simp_all add: addrs_of_def mem split: option.split)
  have bl: "fk_blocks ?fs = fk_blocks fs" "fk_bitmap ?fs = fk_bitmap fs" by simp_all
  have "blocks_ok ?fs"
  proof (rule blocks_ok_less [OF fs_invD(3) [OF inv]])
    fix k l assume kl: "k < length (fk_dinodes fs)" "l < 269" "cell ?fs k l \<noteq> 0"
    have "k \<noteq> n"
    proof
      assume "k = n"
      with kl(2,3) show False by (simp add: cell_def a cell_of_def split: if_splits)
    qed
    then have e: "cell ?fs k l = cell fs k l" by (simp add: cell_def a)
    with blocks_okD(1) [OF fs_invD(3) [OF inv] kl(1,2)] kl(3)
    show "cell ?fs k l = cell fs k l \<and> allocated ?fs (cell ?fs k l)" by (simp add: allocated_def)
  qed simp
  moreover have "length (di_addrs (fk_dinodes ?fs ! k)) = 13" if "k < length (fk_dinodes fs)" for k
    using disk_okD(1) [OF fs_invD(2) [OF inv] that] that by (cases "k = n") (simp_all add: zero_dinode_def)
  then have "disk_ok ?fs" using fs_invD(2) [OF inv] by (auto simp: disk_ok_def in_set_conv_nth)
  ultimately show ?thesis using t' by (simp add: fs_inv_def)
qed

text \<open>The handle a call returns, if any.\<close>

definition with_handle :: "nat option \<Rightarrow> nat multiset \<Rightarrow> nat multiset" where
  "with_handle r H = (case r of None \<Rightarrow> H | Some j \<Rightarrow> add_mset j H)"

lemma with_handle_simps [simp]: "with_handle None H = H" "with_handle (Some j) H = add_mset j H"
  by (simp_all add: with_handle_def)

lemma ialloc_inv:
  assumes inv: "fs_inv fs H" and r: "ialloc type fs = Some (r, fs')"
  shows "fs_inv fs' (with_handle r H)" "keeps_valid H fs fs'"
proof -
  have "fs_inv fs' (with_handle r H) \<and> keeps_valid H fs fs'"
  proof (cases "ialloc_slot (fk_dinodes fs)")
    case None
    with r inv show ?thesis by (simp add: ialloc_def)
  next
    case (Some n)
    let ?g = "fs\<lparr>fk_dinodes := (fk_dinodes fs)[n := zero_dinode\<lparr>di_type := type\<rparr>]\<rparr>"
    from Some obtain k where k: "first_slot (\<lambda>d. di_type d = 0) (drop 1 (fk_dinodes fs)) = Some k" "n = Suc k"
      by (auto simp: ialloc_slot_def)
    then have n: "n < length (fk_dinodes fs)" "di_type (fk_dinodes fs ! n) = 0" using first_slot_SomeD [OF k(1)] by auto
    obtain i where i: "r = Some i" "iget ROOTDEV (of_nat n) ?g = Some (i, fs')"
      using r Some by (auto simp: ialloc_def bind_eq_Some_conv)
    note g = iget_inv [OF ialloc_disk [OF inv n] i(2)]
    then show ?thesis by (simp add: i(1) keeps_valid_def)
  qed
  then show "fs_inv fs' (with_handle r H)" "keeps_valid H fs fs'" by blast+
qed

end
