(* ===== verification/FsCalls.thy ===== *)
theory FsCalls
  imports FsFree SysFile
begin

text \<open>
  The directory operations of kernel/fs.c and kernel/sysfile.c keep the file system in order: whatever is called, no two
  files share a block, and each call gives back every reference to an inode it takes, except the one it returns.
\<close>

subsection \<open>Directories\<close>

lemma readi_kernel_inv:
  assumes "fs_inv fs H" "i \<in># H" "in_valid (ino fs i)" "readi_kernel i off n fs = Some (r, d', fs')"
  shows "fs_inv fs' H" "keeps_valid H fs fs'" "in_valid (ino fs' i)"
proof -
  show r: "fs_inv fs' H" "keeps_valid H fs fs'" using readi_inv [OF assms(1-3) assms(4) [unfolded readi_kernel_def]] by blast+
  show "in_valid (ino fs' i)" by (rule keeps_validD [OF r(2) assms(2,3)])
qed

lemma writei_kernel_inv:
  assumes "fs_inv fs H" "i \<in># H" "in_valid (ino fs i)" "writei_kernel i data off fs = Some (r, fs')"
  shows "fs_inv fs' H" "keeps_valid H fs fs'" "in_valid (ino fs' i)"
proof -
  have "unat (of_nat (length data) :: u32) \<le> length data" by (simp add: unat_of_nat)
  then have "exact (\<lambda>tot m. Some (take m (drop tot data))) (unat (of_nat (length data) :: u32))" by (auto simp: exact_def)
  from writei_inv [OF assms(1-3) this] assms(4) show r: "fs_inv fs' H" "keeps_valid H fs fs'" unfolding writei_kernel_def by blast+
  show "in_valid (ino fs' i)" by (rule keeps_validD [OF r(2) assms(2,3)])
qed

text \<open>A call that gives back what it took, and whose chains compose.\<close>

definition fs_keeps :: "nat multiset \<Rightarrow> fsk \<Rightarrow> fsk \<Rightarrow> bool" where
  "fs_keeps H fs fs' \<longleftrightarrow> fs_inv fs' H \<and> keeps_valid H fs fs'"

lemma fs_keepsD: "fs_keeps H fs fs' \<Longrightarrow> fs_inv fs' H" "fs_keeps H fs fs' \<Longrightarrow> keeps_valid H fs fs'"
  by (simp_all add: fs_keeps_def)

lemma fs_keepsI: "fs_inv fs' H \<Longrightarrow> keeps_valid H fs fs' \<Longrightarrow> fs_keeps H fs fs'"
  by (simp add: fs_keeps_def)

lemma fs_keeps_refl: "fs_inv fs H \<Longrightarrow> fs_keeps H fs fs"
  by (simp add: fs_keeps_def)

lemma fs_keeps_trans: "keeps_valid H fs fs1 \<Longrightarrow> fs_keeps H fs1 fs2 \<Longrightarrow> fs_keeps H fs fs2"
  using keeps_valid_trans [of H fs fs1 H fs2] by (simp add: fs_keeps_def)

lemma fs_keeps_holds: "fs_keeps H fs fs' \<Longrightarrow> i \<in># H \<Longrightarrow> in_valid (ino fs i) \<Longrightarrow> in_valid (ino fs' i)"
  unfolding fs_keeps_def using keeps_validD by blast

lemma dirlookup_loop_inv:
  assumes "fs_inv fs H" "dp \<in># H" "in_valid (ino fs dp)" "dirlookup_loop dp name sz off fs = Some (r, fs')"
  shows "fs_keeps H fs fs'"
  using assms
proof (induction dp name sz off fs rule: dirlookup_loop.induct)
  case (1 dp name sz off fs)
  show ?case
  proof (cases "off < sz")
    case False
    with "1.prems" show ?thesis by (simp add: dirlookup_loop.simps fs_keeps_refl)
  next
    case t: True
    then obtain n de fs1 where b: "readi_kernel dp (of_nat off) (of_nat DIRENT_SIZE) fs = Some (n, de, fs1)"
      using "1.prems"(4) by (auto simp: dirlookup_loop.simps [of dp name sz off] split: option.splits)
    note s = readi_kernel_inv [OF "1.prems"(1-3) b]
    have n: "n = int DIRENT_SIZE" using "1.prems"(4) t b by (simp add: dirlookup_loop.simps [of dp name sz off] split: if_splits)
    show ?thesis
    proof (cases "dirent_inum de \<noteq> 0 \<and> namecmp name (dirent_name de) = 0")
      case True
      with "1.prems"(4) t b n have "fs' = fs1" by (auto simp: dirlookup_loop.simps [of dp name sz off])
      with s show ?thesis by (simp add: fs_keeps_def)
    next
      case False
      have "dirlookup_loop dp name sz (off + DIRENT_SIZE) fs1 = Some (r, fs')"
        using "1.prems"(4) t b n False by (auto simp: dirlookup_loop.simps [of dp name sz off])
      then have "fs_keeps H fs1 fs'"
        using "1.IH" [OF t b] n False s(1,3) "1.prems"(2) by blast
      with s(2) show ?thesis by (rule fs_keeps_trans)
    qed
  qed
qed

text \<open>A call that also returns a handle.\<close>

definition gives :: "nat multiset \<Rightarrow> nat option \<Rightarrow> fsk \<Rightarrow> fsk \<Rightarrow> bool" where
  "gives H r fs fs' \<longleftrightarrow> fs_inv fs' (with_handle r H) \<and> keeps_valid H fs fs'"

lemma gives_None [simp]: "gives H None fs fs' = fs_keeps H fs fs'"
  by (simp add: gives_def fs_keeps_def)

lemma givesD: "gives H (Some i) fs fs' \<Longrightarrow> fs_inv fs' (add_mset i H)" "gives H (Some i) fs fs' \<Longrightarrow> keeps_valid H fs fs'"
  by (simp_all add: gives_def)

lemma gives_trans: "keeps_valid H fs fs1 \<Longrightarrow> gives H r fs1 fs2 \<Longrightarrow> gives H r fs fs2"
  using keeps_valid_trans [of H fs fs1 H fs2] by (simp add: gives_def)

text \<open>Giving a handle back, after a call that took it.\<close>

lemma iput_after:
  assumes "fs_inv fs (add_mset i H)" "iput i fs = Some fs'"
  shows "fs_keeps H fs fs'"
  using iputE [OF assms(2,1)] by (simp add: fs_keeps_def)

lemma iunlockput_after:
  assumes "fs_inv fs (add_mset i H)" "iunlockput i fs = Some fs'"
  shows "fs_keeps H fs fs'"
  using iunlockputE [OF assms(2,1)] by (simp add: fs_keeps_def)

lemma keeps_valid_sub: "keeps_valid (add_mset i H) fs fs' \<Longrightarrow> keeps_valid H fs fs'"
  by (simp add: keeps_valid_def)

lemma ilock_keeps: "fs_inv fs H \<Longrightarrow> i \<in># H \<Longrightarrow> ilock i fs = Some fs' \<Longrightarrow> fs_keeps H fs fs'"
  using ilock_inv by (simp add: fs_keeps_def)

lemma dirlookup_inv:
  assumes inv: "fs_inv fs H" and dp: "dp \<in># H" "in_valid (ino fs dp)" and r: "dirlookup dp name fs = Some (r, fs')"
  shows "gives H (map_option fst r) fs fs'"
proof -
  obtain q fs1 where q: "dirlookup_loop dp name (unat (di_size (ino fs dp))) 0 fs = Some (q, fs1)"
    using r by (auto simp: dirlookup_def bind_eq_Some_conv split: if_splits)
  note k = dirlookup_loop_inv [OF inv dp q]
  show ?thesis
  proof (cases q)
    case None
    with r q k show ?thesis by (auto simp: dirlookup_def split: if_splits)
  next
    case (Some p)
    have dev: "in_dev (ino fs1 dp) = ROOTDEV" by (rule table_okD(5) [OF fs_invD(1) [OF fs_keepsD(1) [OF k]] dp(1)])
    from Some r q obtain i where i: "iget ROOTDEV (ucast (fst p)) fs1 = Some (i, fs')" "r = Some (i, snd p)"
      by (auto simp: dirlookup_def bind_eq_Some_conv dev case_prod_beta split: if_splits)
    note g = iget_inv [OF fs_keepsD(1) [OF k] i(1)]
    have "keeps_valid H fs fs'" using keeps_valid_trans [OF fs_keepsD(2) [OF k] g(2)] by simp
    with g(1) show ?thesis by (simp add: i(2) gives_def)
  qed
qed

lemma dirlink_slot_inv:
  assumes "fs_inv fs H" "dp \<in># H" "in_valid (ino fs dp)" "dirlink_slot dp sz off fs = Some (r, fs')"
  shows "fs_keeps H fs fs'"
  using assms
proof (induction dp sz off fs rule: dirlink_slot.induct)
  case (1 dp sz off fs)
  show ?case
  proof (cases "off < sz")
    case False
    with "1.prems" show ?thesis by (simp add: dirlink_slot.simps fs_keeps_refl)
  next
    case t: True
    then obtain n de fs1 where b: "readi_kernel dp (of_nat off) (of_nat DIRENT_SIZE) fs = Some (n, de, fs1)"
      using "1.prems"(4) by (auto simp: dirlink_slot.simps [of dp sz off] split: option.splits)
    note s = readi_kernel_inv [OF "1.prems"(1-3) b]
    have n: "n = int DIRENT_SIZE" using "1.prems"(4) t b by (simp add: dirlink_slot.simps [of dp sz off] split: if_splits)
    show ?thesis
    proof (cases "dirent_inum de = 0")
      case True
      with "1.prems"(4) t b n have "fs' = fs1" by (auto simp: dirlink_slot.simps [of dp sz off])
      with s show ?thesis by (simp add: fs_keeps_def)
    next
      case False
      have "dirlink_slot dp sz (off + DIRENT_SIZE) fs1 = Some (r, fs')"
        using "1.prems"(4) t b n False by (auto simp: dirlink_slot.simps [of dp sz off])
      then have "fs_keeps H fs1 fs'" using "1.IH" [OF t b] n False s(1,3) "1.prems"(2) by blast
      with s(2) show ?thesis by (rule fs_keeps_trans)
    qed
  qed
qed

lemma dirlink_inv:
  assumes inv: "fs_inv fs H" and dp: "dp \<in># H" "in_valid (ino fs dp)" and r: "dirlink dp name inum fs = Some (r, fs')"
  shows "fs_keeps H fs fs'"
proof -
  obtain q fs1 where q: "dirlookup dp name fs = Some (q, fs1)" using r by (auto simp: dirlink_def bind_eq_Some_conv)
  note g = dirlookup_inv [OF inv dp q]
  show ?thesis
  proof (cases q)
    case None
    then have k1: "fs_keeps H fs fs1" using g by simp
    obtain off fs2 w where o: "dirlink_slot dp (unat (di_size (ino fs1 dp))) 0 fs1 = Some (off, fs2)"
      "writei_kernel dp (dirent_bytes (ucast inum) name) (of_nat off) fs2 = Some (w, fs')"
      using r q None by (auto simp: dirlink_def bind_eq_Some_conv)
    have k2: "fs_keeps H fs1 fs2" by (rule dirlink_slot_inv [OF fs_keepsD(1) [OF k1] dp(1) fs_keeps_holds [OF k1 dp] o(1)])
    note w = writei_kernel_inv [OF fs_keepsD(1) [OF k2] dp(1) fs_keeps_holds [OF k2 dp(1) fs_keeps_holds [OF k1 dp]] o(2)]
    show ?thesis using fs_keeps_trans [OF fs_keepsD(2) [OF k1] fs_keeps_trans [OF fs_keepsD(2) [OF k2] fs_keepsI [OF w(1,2)]]] .
  next
    case (Some p)
    then obtain i where p: "gives H (Some i) fs fs1" "iput i fs1 = Some fs'" using g r q by (auto simp: dirlink_def bind_eq_Some_conv case_prod_beta)
    show ?thesis by (rule fs_keeps_trans [OF givesD(2) [OF p(1)] iput_after [OF givesD(1) [OF p(1)] p(2)]])
  qed
qed

subsection \<open>Path names\<close>

lemma namex_loop_inv:
  assumes "fs_inv fs (add_mset i H)" "namex_loop parent i path name fs = Some (r, nm, fs')"
  shows "gives H r fs fs'"
  using assms
proof (induction parent i path name fs rule: namex_loop.induct)
  case (1 parent i path name fs)
  note p = "1.prems"(2) [unfolded namex_loop.simps [of parent i path name fs]]
  show ?case
  proof (cases "skipelem path")
    case None
    show ?thesis
    proof (cases parent)
      case True
      with p None have "r = None" "iput i fs = Some fs'" by (auto split: option.splits)
      with iput_after [OF "1.prems"(1)] show ?thesis by simp
    next
      case False
      with "1.prems"(1) p None show ?thesis by (auto simp: gives_def)
    qed
  next
    case (Some q)
    obtain rest elem where q: "skipelem path = Some (rest, elem)" using Some by (cases q) auto
    obtain fs1 where l: "ilock i fs = Some fs1" using p q by (auto split: option.splits)
    have i: "i \<in># add_mset i H" by simp
    note k1 = ilock_inv [OF "1.prems"(1) i l]
    note kh1 = keeps_valid_sub [OF k1(2)]
    show ?thesis
    proof (cases "di_type (ino fs1 i) \<noteq> T_DIR")
      case True
      with p q l have e: "r = None" "iunlockput i fs1 = Some fs'" by (auto split: option.splits)
      then show ?thesis using fs_keeps_trans [OF kh1 iunlockput_after [OF k1(1) e(2)]] by simp
    next
      case d: False
      show ?thesis
      proof (cases "parent \<and> rest = []")
        case True
        with p q l d have "r = Some i" "iunlock i fs1 = Some fs'" by (auto split: option.splits)
        with k1(1) kh1 show ?thesis by (auto simp: gives_def dest!: iunlock_same)
      next
        case np: False
        then obtain u fs2 where u: "dirlookup i elem fs1 = Some (u, fs2)" using p q l d by (auto split: option.splits)
        note g = dirlookup_inv [OF k1(1) i k1(3) u]
        show ?thesis
        proof (cases u)
          case None
          with p q l d np u have e: "r = None" "iunlockput i fs2 = Some fs'" by (auto split: option.splits)
          have k2: "fs_keeps (add_mset i H) fs1 fs2" using g None by simp
          show ?thesis
            using fs_keeps_trans [OF kh1 fs_keeps_trans [OF keeps_valid_sub [OF fs_keepsD(2) [OF k2]] iunlockput_after [OF fs_keepsD(1) [OF k2] e(2)]]] e(1) by simp
        next
          case (Some v)
          then obtain j fs3 where j: "fst v = j" "iunlockput i fs2 = Some fs3" "namex_loop parent j rest elem fs3 = Some (r, nm, fs')"
            using p q l d np u by (cases v) (auto split: option.splits)
          have g2: "fs_inv fs2 (add_mset j (add_mset i H))" "keeps_valid (add_mset i H) fs1 fs2"
            using g Some j(1) by (auto simp: gives_def)
          have "fs_inv fs2 (add_mset i (add_mset j H))" using g2(1) by (simp add: add_mset_commute)
          note k3 = iunlockput_after [OF this j(2)]
          have ih: "gives H r fs3 fs'"
            using "1.IH" [OF q HOL.refl l d np u] Some j k3 by (cases v) (auto simp: fs_keeps_def)
          show ?thesis
            using gives_trans [OF kh1 gives_trans [OF keeps_valid_sub [OF g2(2)] gives_trans [OF keeps_valid_sub [OF fs_keepsD(2) [OF k3]] ih]]] .
        qed
      qed
    qed
  qed
qed

lemma namex_inv:
  assumes inv: "fs_inv fs H" and c: "cwd \<in># H" and r: "namex cwd path parent fs = Some (r, nm, fs')"
  shows "gives H r fs fs'"
proof (cases "hd0 path = CHR ''/''")
  case True
  then obtain i fs1 where i: "iget ROOTDEV ROOTINO fs = Some (i, fs1)" "namex_loop parent i path [] fs1 = Some (r, nm, fs')"
    using r by (auto simp: namex_def bind_eq_Some_conv)
  note g = iget_inv [OF inv i(1)]
  show ?thesis by (rule gives_trans [OF g(2) namex_loop_inv [OF g(1) i(2)]])
next
  case False
  then have l: "namex_loop parent cwd path [] (idup cwd fs) = Some (r, nm, fs')" using r by (simp add: namex_def)
  note d = idup_inv [OF inv c]
  show ?thesis by (rule gives_trans [OF d(2) namex_loop_inv [OF d(1) l]])
qed

lemma namei_inv: "fs_inv fs H \<Longrightarrow> cwd \<in># H \<Longrightarrow> namei cwd path fs = Some (r, fs') \<Longrightarrow> gives H r fs fs'"
  by (auto simp: namei_def bind_eq_Some_conv dest: namex_inv)

lemma nameiparent_inv: "fs_inv fs H \<Longrightarrow> cwd \<in># H \<Longrightarrow> nameiparent cwd path fs = Some (r, nm, fs') \<Longrightarrow> gives H r fs fs'"
  by (auto simp: nameiparent_def dest: namex_inv)

subsection \<open>The directory calls\<close>

lemma plain_update:
  assumes "fs_inv fs H" "i \<in># H" "in_valid (ino fs i)" "plain_change (ino fs i) (f (ino fs i))"
  shows "fs_keeps H fs (iupdate i (upd_ino i f fs))"
proof -
  note p = fs_inv_plain [where f = f, OF assms(1,2,4)]
  note u = iupdate_inv [OF p(1) assms(2) keeps_validD [OF p(2) assms(2,3)]]
  show ?thesis by (rule fs_keeps_trans [OF p(2) fs_keepsI [OF u]])
qed

lemma add_nlink_inv: "fs_inv fs H \<Longrightarrow> i \<in># H \<Longrightarrow> in_valid (ino fs i) \<Longrightarrow> fs_keeps H fs (add_nlink i d fs)"
  unfolding add_nlink_def by (rule plain_update) (simp_all add: plain_change_def)

lemma link_undo:
  assumes inv: "fs_inv fs (add_mset ip H)" and l: "ilock ip fs = Some f1" "iunlockput ip (add_nlink ip (-1) f1) = Some f2"
  shows "fs_keeps H fs f2"
proof -
  have i: "ip \<in># add_mset ip H" by simp
  note k1 = ilock_inv [OF inv i l(1)]
  have k2: "fs_keeps (add_mset ip H) f1 (add_nlink ip (-1) f1)" by (rule add_nlink_inv [OF k1(1) i k1(3)])
  show ?thesis
    by (rule fs_keeps_trans [OF keeps_valid_sub [OF k1(2)] fs_keeps_trans [OF keeps_valid_sub [OF fs_keepsD(2) [OF k2]] iunlockput_after [OF fs_keepsD(1) [OF k2] l(2)]]])
qed

lemma link_entry:
  assumes inv: "fs_inv fs (add_mset dp (add_mset ip H))"
    and r: "ilock dp fs = Some fs5" "dirlink dp name inum fs5 = Some (l, fs6)" "iunlockput dp fs6 = Some fs7"
  shows "fs_keeps (add_mset ip H) fs fs7"
proof -
  have i: "dp \<in># add_mset dp (add_mset ip H)" by simp
  note k1 = ilock_inv [OF inv i r(1)]
  have k2: "fs_keeps (add_mset dp (add_mset ip H)) fs5 fs6" by (rule dirlink_inv [OF k1(1) i k1(3) r(2)])
  show ?thesis
    by (rule fs_keeps_trans [OF keeps_valid_sub [OF k1(2)] fs_keeps_trans [OF keeps_valid_sub [OF fs_keepsD(2) [OF k2]] iunlockput_after [OF fs_keepsD(1) [OF k2] r(3)]]])
qed

lemma link_at_inv:
  assumes inv: "fs_inv fs H" and c: "cwd \<in># H" and r: "link_at old new cwd fs = Some (x, fs')"
  shows "fs_keeps H fs fs'"
proof -
  obtain q fs1 where q: "namei cwd old fs = Some (q, fs1)" using r by (auto simp: link_at_def bind_eq_Some_conv)
  note g = namei_inv [OF inv c q]
  show ?thesis
  proof (cases q)
    case None
    with g r q show ?thesis by (auto simp: link_at_def)
  next
    case (Some ip)
    let ?H = "add_mset ip H"
    have i: "ip \<in># ?H" "cwd \<in># ?H" using c by simp_all
    note g = g [unfolded Some]
    note r = r [unfolded link_at_def q Some, simplified]
    from r obtain fs2 where l: "ilock ip fs1 = Some fs2" by (auto simp: bind_eq_Some_conv)
    note k2 = ilock_inv [OF givesD(1) [OF g] i(1) l]
    have v2: "keeps_valid H fs fs2" using keeps_valid_trans [OF givesD(2) [OF g] keeps_valid_sub [OF k2(2)]] by simp
    show ?thesis
    proof (cases "di_type (ino fs2 ip) = T_DIR")
      case True
      with r l have "iunlockput ip fs2 = Some fs'" by (auto simp: bind_eq_Some_conv)
      from fs_keeps_trans [OF v2 iunlockput_after [OF k2(1) this]] show ?thesis .
    next
      case False
      have k3: "fs_keeps ?H fs2 (add_nlink ip 1 fs2)" by (rule add_nlink_inv [OF k2(1) i(1) k2(3)])
      obtain d nm fs4 where d: "nameiparent cwd new (add_nlink ip 1 fs2) = Some (d, nm, fs4)"
        using r l False by (auto simp: bind_eq_Some_conv dest: iunlock_same)
      note g4 = nameiparent_inv [OF fs_keepsD(1) [OF k3] i(2) d]
      have v4: "keeps_valid ?H fs2 fs4" using keeps_valid_trans [OF fs_keepsD(2) [OF k3], of ?H fs4] g4 by (simp add: gives_def)
      have V: "keeps_valid H fs fs4" using keeps_valid_trans [OF v2 keeps_valid_sub [OF v4]] by simp
      have "fs_keeps H fs4 fs'"
      proof (cases d)
        case None
        then have "fs_inv fs4 ?H" using g4 by (simp add: fs_keeps_def)
        moreover obtain f1 where "ilock ip fs4 = Some f1" "iunlockput ip (add_nlink ip (-1) f1) = Some fs'"
          using r l False d None by (auto simp: bind_eq_Some_conv dest!: iunlock_same)
        ultimately show ?thesis by (rule link_undo)
      next
        case (Some dp)
        then have inv4: "fs_inv fs4 (add_mset dp ?H)" using g4 by (simp add: gives_def)
        obtain fs5 where l5: "ilock dp fs4 = Some fs5" using r l False d Some by (auto simp: bind_eq_Some_conv dest!: iunlock_same)
        have dp: "dp \<in># add_mset dp ?H" by simp
        note k5 = ilock_inv [OF inv4 dp l5]
        show ?thesis
        proof (cases "in_dev (ino fs5 dp) = in_dev (ino fs5 ip)")
          case False
          then have "False" using table_okD(5) [OF fs_invD(1) [OF k5(1)], of dp] table_okD(5) [OF fs_invD(1) [OF k5(1)], of ip] by simp
          then show ?thesis ..
        next
          case True
          obtain w fs6 fs7 where w: "dirlink dp nm (in_inum (ino fs5 ip)) fs5 = Some (w, fs6)" "iunlockput dp fs6 = Some fs7"
            and e: "(if w < 0 then do { f1 \<leftarrow> ilock ip fs7; f2 \<leftarrow> iunlockput ip (add_nlink ip (-1) f1); Some (-1, f2) }
              else do { fs8 \<leftarrow> iput ip fs7; Some (0, fs8) }) = Some (x, fs')"
            using r l \<open>di_type (ino fs2 ip) \<noteq> T_DIR\<close> d Some l5 True by (auto simp: bind_eq_Some_conv dest!: iunlock_same)
          note k7 = link_entry [OF inv4 l5 w]
          have "fs_keeps H fs7 fs'"
            using e link_undo [OF fs_keepsD(1) [OF k7]] iput_after [OF fs_keepsD(1) [OF k7]] by (auto simp: bind_eq_Some_conv split: if_splits)
          then show ?thesis by (rule fs_keeps_trans [OF keeps_valid_sub [OF fs_keepsD(2) [OF k7]]])
        qed
      qed
      with V show ?thesis by (rule fs_keeps_trans)
    qed
  qed
qed

lemma isdirempty_loop_inv:
  assumes "fs_inv fs H" "dp \<in># H" "in_valid (ino fs dp)" "isdirempty_loop dp sz off fs = Some (r, fs')"
  shows "fs_keeps H fs fs'"
  using assms
proof (induction dp sz off fs rule: isdirempty_loop.induct)
  case (1 dp sz off fs)
  note p = "1.prems"(4) [unfolded isdirempty_loop.simps [of dp sz off fs]]
  show ?case
  proof (cases "off < sz")
    case False
    with "1.prems"(1) p show ?thesis by (auto simp: fs_keeps_refl)
  next
    case t: True
    then obtain n de fs1 where b: "readi_kernel dp (of_nat off) (of_nat DIRENT_SIZE) fs = Some (n, de, fs1)"
      using p by (auto split: option.splits)
    note s = readi_kernel_inv [OF "1.prems"(1-3) b]
    have n: "n = int DIRENT_SIZE" using p t b by (auto split: if_splits)
    show ?thesis
    proof (cases "dirent_inum de \<noteq> 0")
      case True
      with p t b n s show ?thesis by (auto simp: fs_keeps_def)
    next
      case False
      have "isdirempty_loop dp sz (off + DIRENT_SIZE) fs1 = Some (r, fs')" using p t b n False by auto
      then have "fs_keeps H fs1 fs'" using "1.IH" [OF t b] n False s(1,3) "1.prems"(2) by blast
      with s(2) show ?thesis by (rule fs_keeps_trans)
    qed
  qed
qed

lemma unlink_entry_inv:
  assumes inv: "fs_inv fs (add_mset dp (add_mset ip H))" and v: "in_valid (ino fs dp)" "in_valid (ino fs ip)"
    and r: "unlink_entry dp ip off fs = Some (x, fs')"
  shows "fs_keeps H fs fs'"
proof -
  let ?H = "add_mset dp (add_mset ip H)"
  have i: "dp \<in># ?H" "ip \<in># ?H" "ip \<in># add_mset ip H" by simp_all
  obtain w fs1 where w: "writei_kernel dp (replicate DIRENT_SIZE NUL) (of_nat off) fs = Some (w, fs1)" "w = int DIRENT_SIZE"
    using r by (auto simp: unlink_entry_def bind_eq_Some_conv split: if_splits)
  note k1 = writei_kernel_inv [OF inv i(1) v(1) w(1)]
  let ?fs2 = "if di_type (ino fs1 ip) = T_DIR then add_nlink dp (-1) fs1 else fs1"
  have k2: "fs_keeps ?H fs1 ?fs2" using add_nlink_inv [OF k1(1) i(1) k1(3), of "-1"] fs_keeps_refl [OF k1(1)] by simp
  obtain fs3 where u: "iunlockput dp ?fs2 = Some fs3" "iunlockput ip (add_nlink ip (-1) fs3) = Some fs'"
    using r w by (auto simp: unlink_entry_def bind_eq_Some_conv Let_def)
  note k3 = iunlockput_after [OF fs_keepsD(1) [OF k2] u(1)]
  have v3: "in_valid (ino fs3 ip)"
    by (rule fs_keeps_holds [OF k3 i(3) fs_keeps_holds [OF k2 i(2) keeps_validD [OF k1(2) i(2) v(2)]]])
  have k4: "fs_keeps (add_mset ip H) fs3 (add_nlink ip (-1) fs3)" by (rule add_nlink_inv [OF fs_keepsD(1) [OF k3] i(3) v3])
  note k5 = iunlockput_after [OF fs_keepsD(1) [OF k4] u(2)]
  have "keeps_valid H fs fs3"
    using keeps_valid_trans [OF k1(2) fs_keepsD(2) [OF k2]] keeps_valid_trans [of H fs ?fs2 H fs3] fs_keepsD(2) [OF k3]
    by (auto dest: keeps_valid_sub)
  then show ?thesis by (rule fs_keeps_trans) (rule fs_keeps_trans [OF keeps_valid_sub [OF fs_keepsD(2) [OF k4]] k5])
qed

lemma two_puts:
  assumes "fs_inv fs (add_mset dp (add_mset ip H))" "iunlockput ip fs = Some fs1" "iunlockput dp fs1 = Some fs2"
  shows "fs_keeps H fs fs2"
proof -
  have "fs_inv fs (add_mset ip (add_mset dp H))" using assms(1) by (simp add: add_mset_commute)
  note k1 = iunlockput_after [OF this assms(2)]
  show ?thesis by (rule fs_keeps_trans [OF keeps_valid_sub [OF fs_keepsD(2) [OF k1]] iunlockput_after [OF fs_keepsD(1) [OF k1] assms(3)]])
qed

lemma unlink_at_inv:
  assumes inv: "fs_inv fs H" and c: "cwd \<in># H" and r: "unlink_at path cwd fs = Some (x, fs')"
  shows "fs_keeps H fs fs'"
proof -
  obtain d nm fs1 where d: "nameiparent cwd path fs = Some (d, nm, fs1)" using r by (auto simp: unlink_at_def bind_eq_Some_conv)
  note g = nameiparent_inv [OF inv c d]
  show ?thesis
  proof (cases d)
    case None
    with g r d show ?thesis by (auto simp: unlink_at_def)
  next
    case (Some dp)
    let ?H = "add_mset dp H"
    have i: "dp \<in># ?H" by simp
    note g = g [unfolded Some]
    note r = r [unfolded unlink_at_def d Some, simplified]
    from r obtain fs2 where l: "ilock dp fs1 = Some fs2" by (auto simp: bind_eq_Some_conv)
    note k2 = ilock_inv [OF givesD(1) [OF g] i l]
    have v2: "keeps_valid H fs fs2" using keeps_valid_trans [OF givesD(2) [OF g] keeps_valid_sub [OF k2(2)]] by simp
    have "fs_keeps H fs2 fs'"
    proof (cases "namecmp nm ''.'' = 0 \<or> namecmp nm ''..'' = 0")
      case True
      with r l have "iunlockput dp fs2 = Some fs'" by (auto simp: bind_eq_Some_conv)
      with iunlockput_after [OF k2(1)] show ?thesis by blast
    next
      case nd: False
      obtain q fs3 where q: "dirlookup dp nm fs2 = Some (q, fs3)" using r l nd by (auto simp: bind_eq_Some_conv)
      note g3 = dirlookup_inv [OF k2(1) i k2(3) q]
      show ?thesis
      proof (cases q)
        case None
        with r l nd q have "iunlockput dp fs3 = Some fs'" by (auto simp: bind_eq_Some_conv)
        moreover have "fs_keeps ?H fs2 fs3" using g3 None by simp
        ultimately show ?thesis using fs_keeps_trans [OF keeps_valid_sub iunlockput_after] by (auto simp: fs_keeps_def)
      next
        case (Some y)
        obtain ip off where y: "y = (ip, off)" by force
        have inv3: "fs_inv fs3 (add_mset ip ?H)" "keeps_valid ?H fs2 fs3" using g3 Some y by (auto simp: gives_def)
        have v3: "in_valid (ino fs3 dp)" by (rule keeps_validD [OF inv3(2) i k2(3)])
        obtain fs4 where l4: "ilock ip fs3 = Some fs4" using r l nd q Some y by (auto simp: bind_eq_Some_conv)
        have ip: "ip \<in># add_mset ip ?H" "dp \<in># add_mset ip ?H" by simp_all
        note k4 = ilock_inv [OF inv3(1) ip(1) l4]
        obtain em fs5 where e: "(if di_type (ino fs4 ip) = T_DIR then isdirempty ip fs4 else Some (True, fs4)) = Some (em, fs5)"
          and r5: "(if \<not> em then do { fs6 \<leftarrow> iunlockput ip fs5; map_option (Pair (-1, None)) (iunlockput dp fs6) }
            else do { (gone, fs6) \<leftarrow> unlink_entry dp ip off fs5; Some ((0, gone), fs6) }) = Some (x, fs')"
          using r l nd q Some y l4 by (auto simp: bind_eq_Some_conv split: if_splits)
        have k5: "fs_keeps (add_mset ip ?H) fs4 fs5"
          using e isdirempty_loop_inv [OF k4(1) ip(1) k4(3)] fs_keeps_refl [OF k4(1)] by (auto simp: isdirempty_def split: if_splits)
        have v5: "in_valid (ino fs5 ip)" "in_valid (ino fs5 dp)"
          using fs_keeps_holds [OF k5 ip(1) k4(3)] fs_keeps_holds [OF k5 ip(2) keeps_validD [OF k4(2) ip(2) v3]] by simp_all
        have inv5: "fs_inv fs5 (add_mset dp (add_mset ip H))" using fs_keepsD(1) [OF k5] by (simp add: add_mset_commute)
        have "fs_keeps H fs5 fs'"
        proof (cases em)
          case False
          with r5 obtain fs6 where "iunlockput ip fs5 = Some fs6" "iunlockput dp fs6 = Some fs'" by (auto simp: bind_eq_Some_conv)
          with two_puts [OF inv5] show ?thesis by blast
        next
          case True
          with r5 obtain gone where "unlink_entry dp ip off fs5 = Some (gone, fs')" by (auto simp: bind_eq_Some_conv)
          with unlink_entry_inv [OF inv5 v5(2,1)] show ?thesis by blast
        qed
        moreover have "keeps_valid H fs2 fs5"
          using inv3(2) k4(2) fs_keepsD(2) [OF k5] unfolding keeps_valid_def by auto
        ultimately show ?thesis by (rule fs_keeps_trans [rotated])
      qed
    qed
    with v2 show ?thesis by (rule fs_keeps_trans)
  qed
qed

text \<open>\<open>create\<close> and \<open>open\<close> return a locked inode.\<close>

definition gives_locked :: "nat multiset \<Rightarrow> nat option \<Rightarrow> fsk \<Rightarrow> fsk \<Rightarrow> bool" where
  "gives_locked H r fs fs' \<longleftrightarrow> gives H r fs fs' \<and> (\<forall>i. r = Some i \<longrightarrow> in_valid (ino fs' i))"

lemma gives_locked_None [simp]: "gives_locked H None fs fs' = fs_keeps H fs fs'"
  by (simp add: gives_locked_def)

lemma gives_locked_trans: "keeps_valid H fs fs1 \<Longrightarrow> gives_locked H r fs1 fs2 \<Longrightarrow> gives_locked H r fs fs2"
  by (auto simp: gives_locked_def intro: gives_trans)

lemma create_fail:
  assumes inv: "fs_inv fs (add_mset dp (add_mset ip H))" and v: "in_valid (ino fs ip)"
    and r: "iunlockput ip (iupdate ip (upd_ino ip (\<lambda>p. p\<lparr>di_nlink := 0\<rparr>) fs)) = Some f1" "iunlockput dp f1 = Some f2"
  shows "fs_keeps H fs f2"
proof -
  have k: "fs_keeps (add_mset dp (add_mset ip H)) fs (iupdate ip (upd_ino ip (\<lambda>p. p\<lparr>di_nlink := 0\<rparr>) fs))"
    by (rule plain_update [OF inv _ v]) (simp_all add: plain_change_def)
  have "keeps_valid H fs (iupdate ip (upd_ino ip (\<lambda>p. p\<lparr>di_nlink := 0\<rparr>) fs))" using fs_keepsD(2) [OF k] by (auto dest: keeps_valid_sub)
  then show ?thesis by (rule fs_keeps_trans) (rule two_puts [OF fs_keepsD(1) [OF k] r])
qed

lemma create_dots:
  assumes inv: "fs_inv fs (add_mset dp (add_mset ip H))" and v: "in_valid (ino fs ip)"
    and r: "(if type = T_DIR
      then do { (a, f1) \<leftarrow> dirlink ip ''.'' (in_inum (ino fs ip)) fs; (if a < 0 then Some (a, f1) else dirlink ip ''..'' (in_inum (ino f1 dp)) f1) }
      else Some (0, fs)) = Some (l, fs')"
  shows "fs_keeps (add_mset dp (add_mset ip H)) fs fs'"
proof (cases "type = T_DIR")
  case False
  with r inv show ?thesis by (auto simp: fs_keeps_refl)
next
  case True
  let ?H = "add_mset dp (add_mset ip H)"
  have i: "ip \<in># ?H" by simp
  obtain a f1 where a: "dirlink ip ''.'' (in_inum (ino fs ip)) fs = Some (a, f1)"
    "(if a < 0 then Some (a, f1) else dirlink ip ''..'' (in_inum (ino f1 dp)) f1) = Some (l, fs')"
    using r True by (auto simp: bind_eq_Some_conv)
  note k1 = dirlink_inv [OF inv i v a(1)]
  have "fs_keeps ?H f1 fs'"
    using a(2) dirlink_inv [OF fs_keepsD(1) [OF k1] i fs_keeps_holds [OF k1 i v]] fs_keeps_refl [OF fs_keepsD(1) [OF k1]] by (auto split: if_splits)
  then show ?thesis by (rule fs_keeps_trans [OF fs_keepsD(2) [OF k1]])
qed

lemma create_fresh_inv:
  assumes inv: "fs_inv fs (add_mset dp (add_mset ip H))" and v: "in_valid (ino fs dp)"
    and r: "create_fresh dp name type major minor ip fs = Some (x, fs')"
  shows "gives_locked H x fs fs'"
proof -
  let ?H = "add_mset dp (add_mset ip H)"
  have i: "dp \<in># ?H" "ip \<in># ?H" "ip \<in># add_mset ip H" by simp_all
  obtain fs1 where l: "ilock ip fs = Some fs1" using r by (auto simp: create_fresh_def bind_eq_Some_conv)
  note k1 = ilock_inv [OF inv i(2) l]
  let ?f = "\<lambda>p :: inode. p\<lparr>di_major := major, di_minor := minor, di_nlink := 1\<rparr>"
  let ?fs2 = "iupdate ip (upd_ino ip ?f fs1)"
  have k2: "fs_keeps ?H fs1 ?fs2" by (rule plain_update [OF k1(1) i(2) k1(3)]) (simp add: plain_change_def)
  have v2: "in_valid (ino ?fs2 ip)" by (rule fs_keeps_holds [OF k2 i(2) k1(3)])
  obtain w fs3 where w: "(if type = T_DIR
      then do { (a, f1) \<leftarrow> dirlink ip ''.'' (in_inum (ino ?fs2 ip)) ?fs2; (if a < 0 then Some (a, f1) else dirlink ip ''..'' (in_inum (ino f1 dp)) f1) }
      else Some (0, ?fs2)) = Some (w, fs3)"
    and r3: "(if w < 0 then do { f1 \<leftarrow> iunlockput ip (iupdate ip (upd_ino ip (\<lambda>p. p\<lparr>di_nlink := 0\<rparr>) fs3)); f2 \<leftarrow> iunlockput dp f1; Some (None, f2) }
      else do {
        (l', fs4) \<leftarrow> dirlink dp name (in_inum (ino fs3 ip)) fs3;
        if l' < 0 then do { f1 \<leftarrow> iunlockput ip (iupdate ip (upd_ino ip (\<lambda>p. p\<lparr>di_nlink := 0\<rparr>) fs4)); f2 \<leftarrow> iunlockput dp f1; Some (None, f2) }
        else do { fs5 \<leftarrow> iunlockput dp (if type = T_DIR then add_nlink dp 1 fs4 else fs4); Some (Some ip, fs5) } }) = Some (x, fs')"
    using r l by (auto simp: create_fresh_def Let_def bind_eq_Some_conv split del: if_split)
  have k3: "fs_keeps ?H ?fs2 fs3" by (rule create_dots [OF fs_keepsD(1) [OF k2] v2 w])
  have v3: "in_valid (ino fs3 ip)" by (rule fs_keeps_holds [OF k3 i(2) v2])
  have d3: "in_valid (ino fs3 dp)" by (rule fs_keeps_holds [OF k3 i(1) fs_keeps_holds [OF k2 i(1) keeps_validD [OF k1(2) i(1) v]]])
  have V3: "keeps_valid H fs fs3" using k1(2) fs_keepsD(2) [OF k2] fs_keepsD(2) [OF k3] unfolding keeps_valid_def by auto
  have "gives_locked H x fs3 fs'"
  proof (cases "w < 0")
    case True
    with r3 create_fail [OF fs_keepsD(1) [OF k3] v3] show ?thesis by (auto simp: bind_eq_Some_conv)
  next
    case False
    then obtain l' fs4 where l4: "dirlink dp name (in_inum (ino fs3 ip)) fs3 = Some (l', fs4)" using r3 by (auto simp: bind_eq_Some_conv)
    have k4: "fs_keeps ?H fs3 fs4" by (rule dirlink_inv [OF fs_keepsD(1) [OF k3] i(1) d3 l4])
    have v4: "in_valid (ino fs4 ip)" "in_valid (ino fs4 dp)" using fs_keeps_holds [OF k4] i v3 d3 by blast+
    have V4: "keeps_valid H fs3 fs4" using fs_keepsD(2) [OF k4] by (auto dest: keeps_valid_sub)
    show ?thesis
    proof (cases "l' < 0")
      case True
      with r3 False l4 create_fail [OF fs_keepsD(1) [OF k4] v4(1)] have "x = None \<and> fs_keeps H fs4 fs'" by (auto simp: bind_eq_Some_conv)
      with fs_keeps_trans [OF V4] show ?thesis by simp
    next
      case ok: False
      let ?fs5 = "if type = T_DIR then add_nlink dp 1 fs4 else fs4"
      have e: "x = Some ip" "iunlockput dp ?fs5 = Some fs'" using r3 False l4 ok by (auto simp: bind_eq_Some_conv)
      have k5: "fs_keeps ?H fs4 ?fs5" using add_nlink_inv [OF fs_keepsD(1) [OF k4] i(1) v4(2)] fs_keeps_refl [OF fs_keepsD(1) [OF k4]] by simp
      note k6 = iunlockput_after [OF fs_keepsD(1) [OF k5] e(2)]
      have "in_valid (ino fs' ip)" by (rule fs_keeps_holds [OF k6 i(3) fs_keeps_holds [OF k5 i(2) v4(1)]])
      moreover have "keeps_valid H fs3 fs'"
        using V4 fs_keepsD(2) [OF k5] fs_keepsD(2) [OF k6] unfolding keeps_valid_def by auto
      ultimately show ?thesis using fs_keepsD(1) [OF k6] e(1) by (simp add: gives_locked_def gives_def)
    qed
  qed
  with V3 show ?thesis by (rule gives_locked_trans)
qed

lemma lock_give:
  assumes inv: "fs_inv fs (add_mset ip H)" and l: "ilock ip fs = Some fs'"
  shows "gives_locked H (Some ip) fs fs'"
proof -
  note k = ilock_inv [OF inv _ l]
  then show ?thesis by (auto simp: gives_locked_def gives_def dest: keeps_valid_sub)
qed

lemma fs_create_inv:
  assumes inv: "fs_inv fs H" and c: "cwd \<in># H" and r: "create path type major minor cwd fs = Some (x, fs')"
  shows "gives_locked H x fs fs'"
proof -
  obtain d nm fs1 where d: "nameiparent cwd path fs = Some (d, nm, fs1)" using r by (auto simp: create_def bind_eq_Some_conv)
  note g = nameiparent_inv [OF inv c d]
  show ?thesis
  proof (cases d)
    case None
    with g r d show ?thesis by (auto simp: create_def)
  next
    case (Some dp)
    let ?H = "add_mset dp H"
    have i: "dp \<in># ?H" by simp
    note g = g [unfolded Some]
    note r = r [unfolded create_def d Some, simplified]
    from r obtain fs2 q fs3 where l: "ilock dp fs1 = Some fs2" and q: "dirlookup dp nm fs2 = Some (q, fs3)" by (auto simp: bind_eq_Some_conv)
    note k2 = ilock_inv [OF givesD(1) [OF g] i l]
    note g3 = dirlookup_inv [OF k2(1) i k2(3) q]
    have V: "keeps_valid H fs fs3"
      using givesD(2) [OF g] k2(2) g3 unfolding gives_def keeps_valid_def by auto
    have "gives_locked H x fs3 fs'"
    proof (cases q)
      case (Some y)
      obtain ip off where y: "y = (ip, off)" by force
      have inv3: "fs_inv fs3 (add_mset dp (add_mset ip H))" using g3 Some y by (simp add: gives_def add_mset_commute)
      obtain fs4 fs5 where u: "iunlockput dp fs3 = Some fs4" "ilock ip fs4 = Some fs5"
        and e: "(if type = T_FILE \<and> (di_type (ino fs5 ip) = T_FILE \<or> di_type (ino fs5 ip) = T_DEVICE) then Some (Some ip, fs5)
          else do { fs6 \<leftarrow> iunlockput ip fs5; Some (None, fs6) }) = Some (x, fs')"
        using r l q Some y by (auto simp: bind_eq_Some_conv)
      note k4 = iunlockput_after [OF inv3 u(1)]
      have V4: "keeps_valid H fs3 fs4" using fs_keepsD(2) [OF k4] by (rule keeps_valid_sub)
      note g5 = lock_give [OF fs_keepsD(1) [OF k4] u(2)]
      have "gives_locked H x fs4 fs'"
      proof (cases "x = None")
        case True
        then have "iunlockput ip fs5 = Some fs'" using e by (auto simp: bind_eq_Some_conv split: if_splits)
        moreover have "fs_inv fs5 (add_mset ip H)" "keeps_valid H fs4 fs5" using g5 by (simp_all add: gives_locked_def gives_def)
        ultimately show ?thesis using fs_keeps_trans iunlockput_after True by simp
      next
        case False
        then have "x = Some ip" "fs' = fs5" using e by (auto simp: bind_eq_Some_conv split: if_splits)
        with g5 show ?thesis by simp
      qed
      with V4 show ?thesis by (rule gives_locked_trans)
    next
      case None
      then have k3: "fs_keeps ?H fs2 fs3" using g3 by simp
      have v3: "in_valid (ino fs3 dp)" by (rule fs_keeps_holds [OF k3 i k2(3)])
      obtain a fs4 where a: "ialloc type fs3 = Some (a, fs4)" using r l q None by (auto simp: bind_eq_Some_conv)
      note ia = ialloc_inv [OF fs_keepsD(1) [OF k3] a]
      have V4: "keeps_valid H fs3 fs4" using ia(2) by (rule keeps_valid_sub)
      have "gives_locked H x fs4 fs'"
      proof (cases a)
        case None
        then have "iunlockput dp fs4 = Some fs'" "x = None" using r l q \<open>q = None\<close> a by (auto simp: bind_eq_Some_conv)
        moreover have "fs_inv fs4 ?H" using ia(1) None by simp
        ultimately show ?thesis using iunlockput_after by simp
      next
        case (Some ip)
        have "create_fresh dp nm type major minor ip fs4 = Some (x, fs')" using r l q \<open>q = None\<close> a Some by (auto simp: bind_eq_Some_conv)
        moreover have "fs_inv fs4 (add_mset dp (add_mset ip H))" using ia(1) Some by (simp add: add_mset_commute)
        moreover have "in_valid (ino fs4 dp)" by (rule keeps_validD [OF ia(2) i v3])
        ultimately show ?thesis using create_fresh_inv by blast
      qed
      with V4 show ?thesis by (rule gives_locked_trans)
    qed
    with V show ?thesis by (rule gives_locked_trans)
  qed
qed

lemma open_inode_inv:
  assumes inv: "fs_inv fs H" and c: "cwd \<in># H" and r: "open_inode path omode cwd fs = Some (x, fs')"
  shows "gives_locked H x fs fs'"
proof (cases "omode AND O_CREATE \<noteq> 0")
  case True
  with fs_create_inv [OF inv c] r show ?thesis by (simp add: open_inode_def)
next
  case False
  then obtain q fs1 where q: "namei cwd path fs = Some (q, fs1)" using r by (auto simp: open_inode_def bind_eq_Some_conv)
  note g = namei_inv [OF inv c q]
  show ?thesis
  proof (cases q)
    case None
    with r q False g show ?thesis by (auto simp: open_inode_def)
  next
    case (Some ip)
    obtain fs2 where l: "ilock ip fs1 = Some fs2"
      and e: "(if di_type (ino fs2 ip) = T_DIR \<and> omode \<noteq> O_RDONLY then do { fs3 \<leftarrow> iunlockput ip fs2; Some (None, fs3) }
        else Some (Some ip, fs2)) = Some (x, fs')"
      using r q False Some by (auto simp: open_inode_def bind_eq_Some_conv)
    have g1: "fs_inv fs1 (add_mset ip H)" "keeps_valid H fs fs1" using g Some by (simp_all add: gives_def)
    note g2 = lock_give [OF g1(1) l]
    have "gives_locked H x fs1 fs'"
    proof (cases "x = None")
      case True
      then have "iunlockput ip fs2 = Some fs'" using e by (auto simp: bind_eq_Some_conv split: if_splits)
      moreover have "fs_inv fs2 (add_mset ip H)" "keeps_valid H fs1 fs2" using g2 by (simp_all add: gives_locked_def gives_def)
      ultimately show ?thesis using fs_keeps_trans iunlockput_after True by simp
    next
      case False
      then have "x = Some ip" "fs' = fs2" using e by (auto simp: bind_eq_Some_conv split: if_splits)
      with g2 show ?thesis by simp
    qed
    with g1(2) show ?thesis by (rule gives_locked_trans)
  qed
qed

subsection \<open>Any sequence of calls\<close>

text \<open>
  What processes do to the file system, with the handles (current directories, open files) they hold. A call is
  made only with handles that are held. Reading, writing and truncating lock the inode, as \<open>fileread\<close>, \<open>filewrite\<close>
  and \<open>sys_open\<close> do; the bytes written come from the kernel's copy of the argument.
\<close>

datatype fs_call =
    Fs_lookup string nat
  | Fs_link string string nat
  | Fs_unlink string nat
  | Fs_create string int int int nat
  | Fs_open string u32 nat
  | Fs_dup nat
  | Fs_put nat
  | Fs_read nat u32 u32
  | Fs_write nat u32 string
  | Fs_truncate nat

fun call_handle :: "fs_call \<Rightarrow> nat" where
  "call_handle (Fs_lookup path cwd) = cwd"
| "call_handle (Fs_link old new cwd) = cwd"
| "call_handle (Fs_unlink path cwd) = cwd"
| "call_handle (Fs_create path type major minor cwd) = cwd"
| "call_handle (Fs_open path omode cwd) = cwd"
| "call_handle (Fs_dup i) = i"
| "call_handle (Fs_put i) = i"
| "call_handle (Fs_read i off n) = i"
| "call_handle (Fs_write i off data) = i"
| "call_handle (Fs_truncate i) = i"

fun do_call :: "fs_call \<Rightarrow> fsk \<Rightarrow> (nat option \<times> fsk) option" where
  "do_call (Fs_lookup path cwd) fs = namei cwd path fs"
| "do_call (Fs_link old new cwd) fs = map_option (\<lambda>(r, fs'). (None, fs')) (link_at old new cwd fs)"
| "do_call (Fs_unlink path cwd) fs = map_option (\<lambda>(r, fs'). (None, fs')) (unlink_at path cwd fs)"
| "do_call (Fs_create path type major minor cwd) fs = create path type major minor cwd fs"
| "do_call (Fs_open path omode cwd) fs = open_inode path omode cwd fs"
| "do_call (Fs_dup i) fs = Some (Some i, idup i fs)"
| "do_call (Fs_put i) fs = map_option (Pair None) (iput i fs)"
| "do_call (Fs_read i off n) fs =
     do { fs1 \<leftarrow> ilock i fs; (r, bs, fs2) \<leftarrow> readi_kernel i off n fs1; fs3 \<leftarrow> iunlock i fs2; Some (None, fs3) }"
| "do_call (Fs_write i off data) fs =
     do { fs1 \<leftarrow> ilock i fs; (r, fs2) \<leftarrow> writei_kernel i data off fs1; fs3 \<leftarrow> iunlock i fs2; Some (None, fs3) }"
| "do_call (Fs_truncate i) fs = do { fs1 \<leftarrow> ilock i fs; fs2 \<leftarrow> itrunc i fs1; fs3 \<leftarrow> iunlock i fs2; Some (None, fs3) }"

fun handles_after :: "fs_call \<Rightarrow> nat option \<Rightarrow> nat multiset \<Rightarrow> nat multiset" where
  "handles_after (Fs_put i) r H = H - {#i#}"
| "handles_after c r H = with_handle r H"

fun fs_run :: "fs_call list \<Rightarrow> fsk \<times> nat multiset \<Rightarrow> (fsk \<times> nat multiset) option" where
  "fs_run [] x = Some x"
| "fs_run (c # cs) (fs, H) =
     (if call_handle c \<in># H then do { (r, fs') \<leftarrow> do_call c fs; fs_run cs (fs', handles_after c r H) } else None)"

lemma do_call_inv:
  assumes inv: "fs_inv fs H" and c: "call_handle c \<in># H" and r: "do_call c fs = Some (x, fs')"
  shows "fs_inv fs' (handles_after c x H)"
proof (cases c)
  case (Fs_lookup path cwd)
  with namei_inv [OF inv, of cwd path x fs'] c r show ?thesis by (simp add: gives_def)
next
  case (Fs_link old new cwd)
  with link_at_inv [OF inv, of cwd old new] c r show ?thesis by (auto simp: fs_keeps_def)
next
  case (Fs_unlink path cwd)
  with unlink_at_inv [OF inv, of cwd path] c r show ?thesis by (auto simp: fs_keeps_def)
next
  case (Fs_create path type major minor cwd)
  with fs_create_inv [OF inv, of cwd path type major minor x fs'] c r show ?thesis by (simp add: gives_locked_def gives_def)
next
  case (Fs_open path omode cwd)
  with open_inode_inv [OF inv, of cwd path omode x fs'] c r show ?thesis by (simp add: gives_locked_def gives_def)
next
  case (Fs_dup i)
  with idup_inv [OF inv, of i] c r show ?thesis by auto
next
  case (Fs_put i)
  with iputE [OF _ inv, of i fs'] c r show ?thesis by auto
next
  case (Fs_read i off n)
  with r obtain fs1 a bs fs2 where l: "ilock i fs = Some fs1" "readi_kernel i off n fs1 = Some (a, bs, fs2)" "iunlock i fs2 = Some fs'" "x = None"
    by (auto simp: bind_eq_Some_conv)
  have i: "i \<in># H" using c Fs_read by simp
  note k = ilock_inv [OF inv i l(1)]
  from readi_kernel_inv(1) [OF k(1) i k(3) l(2)] iunlock_same [OF l(3)] show ?thesis by (simp add: Fs_read l(4))
next
  case (Fs_write i off data)
  with r obtain fs1 a fs2 where l: "ilock i fs = Some fs1" "writei_kernel i data off fs1 = Some (a, fs2)" "iunlock i fs2 = Some fs'" "x = None"
    by (auto simp: bind_eq_Some_conv)
  have i: "i \<in># H" using c Fs_write by simp
  note k = ilock_inv [OF inv i l(1)]
  from writei_kernel_inv(1) [OF k(1) i k(3) l(2)] iunlock_same [OF l(3)] show ?thesis by (simp add: Fs_write l(4))
next
  case (Fs_truncate i)
  with r obtain fs1 fs2 where l: "ilock i fs = Some fs1" "itrunc i fs1 = Some fs2" "iunlock i fs2 = Some fs'" "x = None"
    by (auto simp: bind_eq_Some_conv)
  have i: "i \<in># H" using c Fs_truncate by simp
  note k = ilock_inv [OF inv i l(1)]
  have "fs2 = truncated i fs1" using itrunc_some [OF k(1) i k(3)] l(2) by simp
  with itrunc_inv(1) [OF k(1) i k(3)] iunlock_same [OF l(3)] show ?thesis by (simp add: Fs_truncate l(4))
qed

lemma fs_run_inv: "fs_inv fs H \<Longrightarrow> fs_run cs (fs, H) = Some (fs', H') \<Longrightarrow> fs_inv fs' H'"
proof (induction cs arbitrary: fs H)
  case (Cons c cs)
  then obtain r f where f: "call_handle c \<in># H" "do_call c fs = Some (r, f)" "fs_run cs (f, handles_after c r H) = Some (fs', H')"
    by (auto simp: bind_eq_Some_conv split: if_splits)
  from Cons.IH [OF do_call_inv [OF Cons.prems(1) f(1,2)] f(3)] show ?case .
qed simp

text \<open>C6 (files_share_no_block). Whatever calls the processes make, no block pointer of any file (direct, indirect,
  or in an indirect block) is equal to another one of the same or of another file, the block it names is marked used,
  every entry of the inode table has as many references as there are handles, and giving back a handle, which may
  free the file, does not panic.\<close>

theorem files_share_no_block:
  assumes inv: "fs_inv fs H" and r: "fs_run cs (fs, H) = Some (fs', H')"
  shows "(\<forall>m < length (fk_dinodes fs'). \<forall>k < 269. cell fs' m k \<noteq> 0 \<longrightarrow> allocated fs' (cell fs' m k) \<and>
      (\<forall>m' < length (fk_dinodes fs'). \<forall>k' < 269. cell fs' m' k' = cell fs' m k \<longrightarrow> m' = m \<and> k' = k)) \<and>
    (\<forall>i < 50. in_ref (ino fs' i) = int (count H' i)) \<and> (\<forall>i \<in># H'. iput i fs' \<noteq> None)"
proof -
  have inv': "fs_inv fs' H'" by (rule fs_run_inv [OF inv r])
  have "in_ref (ino fs' i) = int (count H' i)" if "i < 50" for i by (rule table_okD(4) [OF fs_invD(1) [OF inv'] that])
  moreover have "iput i fs' \<noteq> None" if "i \<in># H'" for i using iput_inv [OF inv' that] by auto
  ultimately show ?thesis using fs_invD(3) [OF inv'] unfolding blocks_ok_def by blast
qed

definition wit_disk :: fsk where
  "wit_disk =
     \<lparr>fk_bitmap = [True, True, False, False],
      fk_dinodes = [zero_dinode, zero_dinode\<lparr>di_type := T_DIR, di_nlink := 1\<rparr>, zero_dinode\<lparr>di_type := T_FILE, di_nlink := 1\<rparr>],
      fk_blocks = (\<lambda>_. replicate BSIZE NUL),
      fk_itable = (replicate 50 zero_inode)[0 := zero_inode\<lparr>in_dev := 1, in_inum := 1, in_ref := 1\<rparr>,
        1 := zero_inode\<lparr>in_dev := 1, in_inum := 2, in_ref := 1\<rparr>]\<rparr>"

lemma wit_disk_inv: "fs_inv wit_disk {#0, 1#}"
proof -
  have e: "ino wit_disk i = (if i = 0 then zero_inode\<lparr>in_dev := 1, in_inum := 1, in_ref := 1\<rparr>
      else if i = 1 then zero_inode\<lparr>in_dev := 1, in_inum := 2, in_ref := 1\<rparr> else zero_inode)" if "i < 50" for i
    using that by (simp add: wit_disk_def nth_list_update)
  have z: "in_valid zero_inode = False" "in_ref zero_inode = 0" by (simp_all add: zero_inode_def dinode.defs)
  have v: "\<not> in_valid (ino wit_disk i)" if "i < 50" for i using e [OF that] z by simp
  have "first_slot (\<lambda>ip. in_used ip \<and> in_valid ip \<and> unat (in_inum ip) = m) (fk_itable wit_disk) = None" for m
    using v unfolding first_slot_None by (auto simp: in_set_conv_nth wit_disk_def)
  then have a: "addrs_of wit_disk m = di_addrs (fk_dinodes wit_disk ! m)" for m by (simp add: addrs_of_def mem_of_def)
  have d: "m < 3 \<Longrightarrow> di_addrs (fk_dinodes wit_disk ! m) = replicate 13 0" for m
    by (auto simp: wit_disk_def zero_dinode_def less_Suc_eq numeral_3_eq_3)
  have l: "length (fk_dinodes wit_disk) = 3" by (simp add: wit_disk_def)
  have "blocks_ok wit_disk" unfolding blocks_ok_def l by (auto simp: cell_def cell_of_def a d)
  moreover have "disk_ok wit_disk" by (simp add: disk_ok_def wit_disk_def zero_dinode_def)
  moreover have "table_ok wit_disk {#0, 1#}"
    unfolding table_ok_def using e v z by (auto simp: wit_disk_def inj_on_def)
  ultimately show ?thesis by (simp add: fs_inv_def)
qed

text \<open>A file of the disk is written, truncated and given back.\<close>

lemma wit_write: "\<exists>fs1 r fs2. ilock 1 wit_disk = Some fs1 \<and> writei_kernel 1 ''ab'' 0 fs1 = Some (r, fs2) \<and> in_ref (ino fs2 1) = 1"
proof -
  let ?f = "(zero_inode\<lparr>in_dev := 1, in_inum := 2, in_ref := 1, di_type := T_FILE, di_nlink := 1, in_valid := True\<rparr>)"
  let ?g = "wit_disk\<lparr>fk_itable := (fk_itable wit_disk)[1 := ?f]\<rparr>"
  have l: "ilock 1 wit_disk = Some ?g"
    by (simp add: ilock_def wit_disk_def upd_ino_def zero_inode_def zero_dinode_def dinode.defs)
  have i: "ino ?g 1 = ?f" by (simp add: wit_disk_def)
  have z: "di_addrs zero_inode ! 0 = 0" "di_size zero_inode = 0" by (simp_all add: zero_inode_def zero_dinode_def dinode.defs)
  obtain fs2 where b: "bmap 1 0 ?g = Some (2, fs2)" "fk_itable fs2 = (fk_itable wit_disk)[1 := ?f\<lparr>di_addrs := (di_addrs zero_inode)[0 := 2]\<rparr>]"
    using i z by (auto simp: bmap_def balloc_def bzero_def upd_ino_def wit_disk_def)
  obtain fs3 where w: "writei_loop (\<lambda>tot m. Some (take m (drop tot ''ab''))) 1 0 2 0 ?g = Some (2, 2, fs3)" "fk_itable fs3 = fk_itable fs2"
    using b(1) by (simp add: writei_loop.simps [of _ _ 0 2 0] writei_loop.simps [of _ _ 2 2 2])
  have s: "di_size (ino fs3 1) = 0" "in_ref (ino fs3 1) = 1" using w(2) b(2) z by (simp_all add: wit_disk_def)
  have "length (fk_itable fs3) = 50" using w(2) b(2) by (simp add: wit_disk_def)
  with w(1) s i z have "\<exists>r fs4. writei_kernel 1 ''ab'' 0 ?g = Some (r, fs4) \<and> in_ref (ino fs4 1) = 1"
    by (simp add: writei_kernel_def writei_def iupdate_def upd_ino_def)
  with l show ?thesis by blast
qed

theorem files_share_no_block_witness:
  "\<exists>fs' H'. fs_run [Fs_write 1 0 ''ab'', Fs_truncate 1, Fs_put 1] (wit_disk, {#0, 1#}) = Some (fs', H') \<and>
     H' = {#0#} \<and> in_ref (ino fs' 0) = 1 \<and> in_ref (ino fs' 1) = 0 \<and> iput 0 fs' \<noteq> None"
proof -
  obtain fs1 r fs2 where w: "ilock 1 wit_disk = Some fs1" "writei_kernel 1 ''ab'' 0 fs1 = Some (r, fs2)" "in_ref (ino fs2 1) = 1"
    using wit_write by blast
  have c1: "do_call (Fs_write 1 0 ''ab'') wit_disk = Some (None, fs2)" using w by (simp add: iunlock_def)
  have inv2: "fs_inv fs2 {#0, 1#}" using do_call_inv [OF wit_disk_inv _ c1] by simp
  have v2: "in_valid (ino fs2 1)"
    using ilock_inv [OF wit_disk_inv _ w(1)] writei_kernel_inv(3) [OF _ _ _ w(2)] by auto
  have t: "itrunc 1 fs2 = Some (truncated 1 fs2)" using itrunc_some [OF inv2 _ v2] by simp
  have lt: "length (fk_itable fs2) = 50" by (rule table_okD(1) [OF fs_invD(1) [OF inv2]])
  have c2: "do_call (Fs_truncate 1) fs2 = Some (None, truncated 1 fs2)"
    using t v2 w(3) truncated_fields(1) [OF lt, of 1 1] by (simp add: ilock_def iunlock_def)
  have inv3: "fs_inv (truncated 1 fs2) {#0, 1#}" using do_call_inv [OF inv2 _ c2] by simp
  obtain fs4 where c3: "iput 1 (truncated 1 fs2) = Some fs4" using iput_inv [OF inv3, of 1] by auto
  have run: "fs_run [Fs_write 1 0 ''ab'', Fs_truncate 1, Fs_put 1] (wit_disk, {#0, 1#}) = Some (fs4, {#0#})"
    using c1 c2 c3 by (simp del: do_call.simps(9,10))
  note p = files_share_no_block [OF wit_disk_inv run]
  then have "in_ref (ino fs4 0) = 1" "in_ref (ino fs4 1) = 0" "iput 0 fs4 \<noteq> None" by simp_all
  with run show ?thesis by blast
qed

end
