(* ===== verification/KernelInv.thy ===== *)
theory KernelInv
  imports Lifecycle Exec SysAgent
begin

text \<open>
  The invariant of the whole kernel state and what keeps it. It joins the invariants of the components: the
  heartbeat wheel is well formed, the workflow table counts its members, every mailbox and digest ring is
  consistent, process ids are positive and unique, and a dead entry of the process table (free or zombie) is
  on no wheel and in no workflow. Most operations touch nothing the invariant speaks of; the relation \<open>quiet\<close>
  says so and is closed under composition. The others have a preservation lemma each.
\<close>

subsection \<open>The invariant\<close>

definition dead :: "proc \<Rightarrow> bool" where
  "dead p \<longleftrightarrow> p_state p = UNUSED \<or> p_state p = ZOMBIE"

definition proc_ok :: "proc \<Rightarrow> bool" where
  "proc_ok p \<longleftrightarrow> mailbox_inv (mailbox p) \<and> digest_wf p \<and>
     (dead p \<longrightarrow> \<not> workflow_member_registered p \<and> \<not> heartbeat_wheel_active p)"

definition live_pid :: "proc \<Rightarrow> int option" where
  "live_pid p = (if p_state p = UNUSED then None else Some (p_pid p))"

definition pids_ok :: "kst \<Rightarrow> bool" where
  "pids_ok s \<longleftrightarrow> 0 < ks_nextpid s \<and> ks_nextpid s < 2 ^ 31 \<and>
     (\<forall>i < length (ks_procs s). \<forall>q. live_pid (pr s i) = Some q \<longrightarrow> 0 < q \<and> q < ks_nextpid s \<and>
        (\<forall>j < length (ks_procs s). live_pid (pr s j) = Some q \<longrightarrow> j = i))"

definition kinv :: "kst \<Rightarrow> bool" where
  "kinv s \<longleftrightarrow> wheel_inv s \<and> workflow_inv s \<and> pids_ok s \<and> (\<forall>i < length (ks_procs s). proc_ok (pr s i))"

lemma kinvD:
  assumes "kinv s"
  shows "wheel_inv s" "workflow_inv s" "pids_ok s" "\<And>i. i < length (ks_procs s) \<Longrightarrow> proc_ok (pr s i)"
  using assms by (simp_all add: kinv_def)

subsection \<open>Changes the invariant does not see\<close>

definition wheel_tag :: "proc \<Rightarrow> (int \<times> int) option" where
  "wheel_tag p = (if heartbeat_wheel_active p then Some (heartbeat_wheel_bucket p, heartbeat_wheel_next p) else None)"

definition life :: "proc \<Rightarrow> int \<times> bool \<times> bool" where
  "life p = (p_pid p, p_state p = UNUSED, p_state p = ZOMBIE)"

definition keeps :: "proc \<Rightarrow> proc \<Rightarrow> bool" where
  "keeps p q \<longleftrightarrow> member_tag q = member_tag p \<and> wheel_tag q = wheel_tag p \<and> life q = life p \<and>
     (mailbox_inv (mailbox p) \<longrightarrow> mailbox_inv (mailbox q)) \<and> (digest_wf p \<longrightarrow> digest_wf q)"

lemmas keeps_defs = keeps_def member_tag_def wheel_tag_def life_def

lemma keeps_refl [simp]: "keeps p p"
  by (simp add: keeps_def)

lemma keeps_trans: "keeps p q \<Longrightarrow> keeps q r \<Longrightarrow> keeps p r"
  by (simp add: keeps_def)

lemma keeps_life: "keeps p q \<Longrightarrow> dead q = dead p" "keeps p q \<Longrightarrow> live_pid q = live_pid p"
  by (simp_all add: keeps_def life_def dead_def live_pid_def)

lemma keeps_active: "keeps p q \<Longrightarrow> heartbeat_wheel_active q = heartbeat_wheel_active p"
  by (auto simp: keeps_def wheel_tag_def split: if_splits)

lemma keeps_registered: "keeps p q \<Longrightarrow> workflow_member_registered q = workflow_member_registered p"
  by (simp add: keeps_def member_tag_def)

lemma keeps_ok: "keeps p q \<Longrightarrow> proc_ok p \<Longrightarrow> proc_ok q"
  using keeps_life [of p q] keeps_active [of p q] keeps_registered [of p q] by (simp add: proc_ok_def keeps_def)

text \<open>The same on states.\<close>

definition quiet :: "kst \<Rightarrow> kst \<Rightarrow> bool" where
  "quiet s t \<longleftrightarrow> length (ks_procs t) = length (ks_procs s) \<and> (\<forall>i < length (ks_procs s). keeps (pr s i) (pr t i)) \<and>
     ks_nextpid t = ks_nextpid s \<and> (workflow_inv s \<longrightarrow> workflow_inv t) \<and>
     gl_heartbeat_wheel_heads (ks_global t) = gl_heartbeat_wheel_heads (ks_global s) \<and>
     gl_heartbeat_count (ks_global t) = gl_heartbeat_count (ks_global s)"

lemma quietI:
  assumes "length (ks_procs t) = length (ks_procs s)" "\<And>i. i < length (ks_procs s) \<Longrightarrow> keeps (pr s i) (pr t i)"
    "ks_nextpid t = ks_nextpid s" "gl_workflows (ks_global t) = gl_workflows (ks_global s)"
    "gl_heartbeat_wheel_heads (ks_global t) = gl_heartbeat_wheel_heads (ks_global s)"
    "gl_heartbeat_count (ks_global t) = gl_heartbeat_count (ks_global s)"
  shows "quiet s t"
proof -
  have "map member_tag (ks_procs t) = map member_tag (ks_procs s)"
    by (rule nth_equalityI) (use assms(1,2) in \<open>simp_all add: keeps_def\<close>)
  with assms workflow_inv_cong [of t s] show ?thesis by (simp add: quiet_def)
qed

lemma quiet_refl [simp]: "quiet s s"
  by (simp add: quiet_def)

lemma quiet_trans [trans]: "quiet s t \<Longrightarrow> quiet t u \<Longrightarrow> quiet s u"
  unfolding quiet_def using keeps_trans by force

lemma quietD:
  assumes "quiet s t"
  shows "length (ks_procs t) = length (ks_procs s)" "\<And>i. i < length (ks_procs s) \<Longrightarrow> keeps (pr s i) (pr t i)"
    "ks_nextpid t = ks_nextpid s"
  using assms by (simp_all add: quiet_def)

lemma wheel_inv_tag:
  assumes inv: "wheel_inv s" and len: "length (ks_procs t) = length (ks_procs s)"
    and tag: "\<And>j. j < length (ks_procs s) \<Longrightarrow> wheel_tag (pr t j) = wheel_tag (pr s j)"
    and g: "gl_heartbeat_wheel_heads (ks_global t) = gl_heartbeat_wheel_heads (ks_global s)"
      "gl_heartbeat_count (ks_global t) = gl_heartbeat_count (ks_global s)"
  shows "wheel_inv t"
proof -
  obtain cs where cs: "wheel_chains s cs" using inv by (auto simp: wheel_inv_def)
  note d = wheel_chainsD [OF cs]
  have act: "heartbeat_wheel_active (pr t j) = heartbeat_wheel_active (pr s j)" if "j < length (ks_procs s)" for j
    using tag [OF that] by (auto simp: wheel_tag_def split: if_splits)
  have on: "heartbeat_wheel_bucket (pr t j) = heartbeat_wheel_bucket (pr s j) \<and>
      heartbeat_wheel_next (pr t j) = heartbeat_wheel_next (pr s j)"
    if "j < length (ks_procs s)" "heartbeat_wheel_active (pr s j)" for j
    using tag [OF that(1)] act [OF that(1)] that(2) by (simp add: wheel_tag_def)
  have mem: "j \<in> set (cs ! b) \<longleftrightarrow> j < length (ks_procs t) \<and> heartbeat_wheel_active (pr t j)
      \<and> heartbeat_wheel_bucket (pr t j) = int b" if "b < 64" for b j
    using d(6) [OF that, of j] act [of j] on [of j] len by auto
  have path: "wheel_path (\<lambda>j. heartbeat_wheel_next (pr t j)) (gl_heartbeat_wheel_heads (ks_global t) ! b) (cs ! b)"
    if b: "b < 64" for b
    using d(4) [OF b] on d(6) [OF b] g(1)
    by (subst wheel_path_cong [of _ _ "\<lambda>j. heartbeat_wheel_next (pr s j)"]) auto
  have "wheel_chains t cs"
    unfolding wheel_chains_def using path d(5) mem d(7) act on d(1-3,8) g len by simp
  then show ?thesis by (auto simp: wheel_inv_def)
qed

lemma pids_ok_cong:
  assumes "pids_ok s" "length (ks_procs t) = length (ks_procs s)" "ks_nextpid t = ks_nextpid s"
    and "\<And>i. i < length (ks_procs s) \<Longrightarrow> live_pid (pr t i) = live_pid (pr s i)"
  shows "pids_ok t"
  using assms unfolding pids_ok_def by simp

lemma kinv_quiet:
  assumes inv: "kinv s" and q: "quiet s t"
  shows "kinv t"
proof -
  note d = quietD [OF q]
  have "wheel_inv t"
    using wheel_inv_tag [OF kinvD(1) [OF inv] d(1)] q by (simp add: quiet_def keeps_def)
  moreover have "workflow_inv t" using kinvD(2) [OF inv] q by (simp add: quiet_def)
  moreover have "pids_ok t"
    using pids_ok_cong [OF kinvD(3) [OF inv] d(1) d(3)] keeps_life(2) [OF d(2)] by blast
  moreover have "proc_ok (pr t i)" if "i < length (ks_procs t)" for i
    using keeps_ok [OF d(2) kinvD(4) [OF inv]] that d(1) by simp
  ultimately show ?thesis by (simp add: kinv_def)
qed

subsection \<open>Quiet building blocks\<close>

lemma quiet_same: "ks_procs t = ks_procs s \<Longrightarrow> ks_nextpid t = ks_nextpid s \<Longrightarrow> ks_global t = ks_global s \<Longrightarrow> quiet s t"
  by (rule quietI) simp_all

lemma quiet_upd_proc: "(i < length (ks_procs s) \<Longrightarrow> keeps (pr s i) (f (pr s i))) \<Longrightarrow> quiet s (upd_proc i f s)"
  by (rule quietI) (auto simp: pr_upd_proc_if)

lemma quiet_upd_procs: "(i < length (ks_procs s) \<Longrightarrow> keeps (pr s i) p) \<Longrightarrow> quiet s (upd_proc i (\<lambda>_. p) s)"
  by (rule quiet_upd_proc)

lemma quiet_for_procs:
  "(\<And>p. P p \<Longrightarrow> keeps p (f p)) \<Longrightarrow> quiet s (for_procs P f s)"
  by (rule quietI) (auto simp: pr_for_procs)

lemma quiet_for_procs_idx:
  "(\<And>i p. P i p \<Longrightarrow> keeps p (f i p)) \<Longrightarrow> quiet s (for_procs_idx P f s)"
  by (rule quietI) (auto simp: pr_for_procs_idx)

lemma quiet_but_fs: "same_but_fs s t \<Longrightarrow> quiet s t"
  by (auto simp: same_but_fs_def intro: quiet_same)

lemma quiet_copyout: "quiet s (snd (copyout_proc i va bs s))"
  by (simp add: copyout_proc_def case_prod_beta Let_def quiet_upd_proc keeps_defs digest_wf_def)

lemma quiet_audit: "quiet s (agent_audit_record i t a d st c s)"
  by (simp add: quiet_same agent_audit_record_def)

lemma quiet_wakeup: "quiet s (wakeup i c s)"
  unfolding wakeup_def by (rule quiet_for_procs_idx) (simp add: keeps_defs digest_wf_def)

lemma quiet_sleep_on: "\<not> dead (pr s i) \<Longrightarrow> quiet s (sleep_on i c s)"
  unfolding sleep_on_def by (rule quiet_upd_proc) (simp add: keeps_defs digest_wf_def dead_def)

lemma quiet_upd_request: "quiet s (upd_request k f s)"
  by (simp add: quiet_same upd_request_def)

lemma keeps_signal: "keeps p (agent_signal_event_locked i e now p)"
  by (simp add: agent_signal_event_locked_def Let_def keeps_defs digest_wf_def)

lemma quiet_fields [simp]:
  "quiet s (s\<lparr>ks_freelist := fl\<rparr>)" "quiet s (s\<lparr>ks_fs := fs\<rparr>)" "quiet s (s\<lparr>ks_files := f\<rparr>)" "quiet s (s\<lparr>ks_pipes := pi\<rparr>)"
  "quiet s (s\<lparr>ks_vmas := v\<rparr>)" "quiet s (s\<lparr>ks_file_versions := fv\<rparr>)" "quiet s (s\<lparr>ks_log := l\<rparr>)"
  "quiet s (s\<lparr>ks_ticks := n\<rparr>)" "quiet s (s\<lparr>ks_dynamic_tools := ts\<rparr>)" "quiet s (s\<lparr>ks_dynamic_requests := rs\<rparr>)"
  by (simp_all add: quiet_same)

lemma quiet_free_pages: "quiet s (free_pages ps s)"
  by (simp add: free_pages_def)

lemma quiet_global:
  assumes "gl_workflows (f (ks_global s)) = gl_workflows (ks_global s)"
    "gl_heartbeat_wheel_heads (f (ks_global s)) = gl_heartbeat_wheel_heads (ks_global s)"
    "gl_heartbeat_count (f (ks_global s)) = gl_heartbeat_count (ks_global s)"
  shows "quiet s (upd_global f s)"
  by (rule quietI) (use assms in simp_all)

lemma quiet_metrics: "quiet s (upd_metrics f i s)"
proof -
  have "ks_procs (upd_metrics f i s) = ks_procs s" "ks_nextpid (upd_metrics f i s) = ks_nextpid s"
    "gl_heartbeat_wheel_heads (ks_global (upd_metrics f i s)) = gl_heartbeat_wheel_heads (ks_global s)"
    "gl_heartbeat_count (ks_global (upd_metrics f i s)) = gl_heartbeat_count (ks_global s)"
    by (simp_all add: upd_metrics_def upd_wf_frame split: option.splits)
  then show ?thesis using upd_metrics_inv [of s f i] by (simp add: quiet_def)
qed

subsection \<open>Operations that are quiet\<close>

lemma quiet_send_message: "quiet s (snd (agent_send_message src pid ty txt' rid s))"
proof -
  have enq: "mailbox_inv (mailbox p) \<longrightarrow> mailbox_inv (mailbox_enqueue m (mailbox p))"
    if "\<not> mailbox_full (ml_type m) (mailbox p)" "ml_type m = 0 \<or> ml_type m = 1" for m p
    using mailbox_inv_enqueue that by blast
  have k: "keeps p (agent_signal_event_locked t AGENT_EVENT_MESSAGE now (p\<lparr>mailbox := mailbox_enqueue m (mailbox p)\<rparr>))"
    if "\<not> mailbox_full (ml_type m) (mailbox p)" "ml_type m = 0 \<or> ml_type m = 1" for m p t now
    by (rule keeps_trans [OF _ keeps_signal]) (use enq [OF that] in \<open>simp add: keeps_defs digest_wf_def\<close>)
  have r: "keeps p (p\<lparr>mailbox := mailbox_reject y (mailbox p)\<rparr>)" for p y
    using mailbox_inv_reject by (simp add: keeps_defs digest_wf_def)
  show ?thesis
    by (auto simp: agent_send_message_def Let_def split: option.splits intro!: quiet_upd_proc k r)
qed

lemma quiet_priority_set: "quiet s (snd (agent_proc_priority_set i pri s))"
  by (simp add: agent_proc_priority_set_def quiet_upd_proc keeps_defs digest_wf_def Let_def)

lemma keeps_set_ready: "keeps p q \<Longrightarrow> keeps p (set_ready q)"
  by (erule keeps_trans) (simp add: set_ready_def keeps_defs digest_wf_def)

lemma keeps_clear_heartbeat: "keeps p q \<Longrightarrow> keeps p (clear_heartbeat_event q)"
  by (erule keeps_trans) (simp add: clear_heartbeat_event_def keeps_defs digest_wf_def Let_def)

lemma quiet_watch: "quiet s (snd (agent_proc_watch i m s))"
  by (auto simp: agent_proc_watch_def intro!: quiet_upd_proc keeps_set_ready) (simp add: keeps_defs digest_wf_def)

lemma quiet_unwatch: "quiet s (snd (agent_proc_unwatch i m s))"
  by (auto simp: agent_proc_unwatch_def Let_def intro!: quiet_upd_proc) (simp_all add: keeps_defs digest_wf_def)

lemma quiet_sched_set: "quiet s (snd (agent_proc_sched_set i pri quota s))"
  by (simp add: agent_proc_sched_set_def quiet_upd_proc keeps_defs digest_wf_def Let_def)

lemma quiet_cap_set: "quiet s (snd (agent_proc_cap_set i caps s))"
  by (simp add: agent_proc_cap_set_def quiet_upd_proc quiet_audit keeps_defs digest_wf_def)

lemma quiet_role_set: "quiet s (snd (agent_proc_role_set i role s))"
  by (simp add: agent_proc_role_set_def quiet_upd_proc keeps_defs digest_wf_def)

lemma quiet_notify: "quiet s (agent_notify_file_modified dev inum s)"
  unfolding agent_notify_file_modified_def Let_def
  by (rule quiet_trans [of _ "s\<lparr>ks_file_versions := v\<rparr>" for v], rule quiet_same) (auto intro!: quiet_for_procs_idx keeps_signal)

lemma quiet_watch_file:
  assumes "agent_proc_watch_file i u s = Some (r, t)"
  shows "quiet s t"
proof (cases "agent_type (pr s i) = AGENT_TYPE_NORMAL \<or> copyinstr (p_pagetable (pr s i)) u AGENT_MESSAGE_MAX = None")
  case True
  with assms show ?thesis by (auto simp: agent_proc_watch_file_def split: if_splits)
next
  case False
  then obtain path f s1 where p: "copyinstr (p_pagetable (pr s i)) u AGENT_MESSAGE_MAX = Some path"
    "open_file i path s = Some (f, s1)"
    using assms by (auto simp: agent_proc_watch_file_def bind_eq_Some_conv split: if_splits)
  have q: "quiet s s1" by (rule quiet_but_fs [OF open_file_frame [OF p(2)]])
  show ?thesis
  proof (cases f)
    case (Inl b)
    with assms False p q show ?thesis by (simp add: agent_proc_watch_file_def)
  next
    case (Inr ip)
    then obtain s2 where s2: "on_fs (iunlockput ip) s1 = Some s2" "t = upd_proc i (\<lambda>p. set_ready
        (p\<lparr>watch_mask := watch_mask p OR AGENT_WATCH_FILEMOD, agent_watch_dev := in_dev (fs_ino s1 ip),
          agent_watch_inum := in_inum (fs_ino s1 ip), agent_watch_path := safestr AGENT_MESSAGE_MAX path\<rparr>)) s2"
      using assms False p by (auto simp: agent_proc_watch_file_def bind_eq_Some_conv Let_def)
    have "quiet s2 t"
      unfolding s2(2) by (rule quiet_upd_proc, rule keeps_set_ready) (simp add: keeps_defs digest_wf_def)
    with q quiet_but_fs [OF on_fs_frame [OF s2(1)]] show ?thesis by (blast intro: quiet_trans)
  qed
qed

lemma quiet_kill: "quiet s (snd (kill pid s))"
  by (auto simp: kill_def Let_def split: option.splits intro!: quiet_upd_proc) (simp_all add: keeps_defs digest_wf_def)

lemma quiet_wait_leave: "keeps p (wait_leave p)"
  by (simp add: wait_leave_def keeps_defs digest_wf_def mailbox_inv_empty)

lemma quiet_wait_enter: "quiet s (snd (wait_enter i c timeout s))"
  by (auto simp: wait_enter_def Let_def quiet_wait_leave intro!: quiet_upd_proc) (simp_all add: keeps_defs digest_wf_def)

lemma quiet_wait_wake: "quiet s (wait_wake i s)"
  unfolding wait_wake_def by (rule quiet_upd_proc) (simp add: keeps_defs digest_wf_def)

text \<open>The Context operations work on the entry of the caller alone.\<close>

lemma keeps_pt: "keeps p q \<Longrightarrow> keeps p (q\<lparr>p_pagetable := pt\<rparr>)"
  by (erule keeps_trans) (simp add: keeps_defs digest_wf_def)

lemma keeps_write_header: "keeps p (snd (agent_context_write_header h p))"
  by (simp add: agent_context_write_header_def case_prod_beta Let_def keeps_pt)

lemma keeps_write_begin: "keeps p (snd (agent_context_write_begin now p))"
  unfolding agent_context_write_begin_def Let_def
  by (rule keeps_trans [OF _ keeps_write_header]) (simp add: keeps_defs digest_wf_def)

lemma keeps_sync_header: "keeps p (snd (agent_sync_header now p))"
  unfolding agent_sync_header_def Let_def
  by (rule keeps_trans [OF _ keeps_write_header]) (simp add: keeps_defs digest_wf_def)

lemma keeps_digest_clear: "keeps p (digest_clear p)"
  using digest_wf_clear [of p] by (simp add: keeps_def) (simp add: digest_clear_def keeps_defs)

lemma keeps_digest_push: "keeps p (agent_context_digest_push sq rid rq rs st p)"
  using digest_wf_push [of p sq rid rq rs st]
  by (simp add: keeps_def) (simp add: agent_context_digest_push_def Let_def keeps_defs)

lemma keeps_context_clear: "keeps p (agent_context_clear now p)"
proof -
  define p1 where "p1 = (if context_region_start p \<noteq> 0 then snd (agent_context_write_begin now p) else p)"
  define p2 where "p2 = clear_pending_dep (p1\<lparr>context_path_len := 0, context_node_count := 0, context_dropped_nodes := 0,
                 context_first_sequence := 0, context_next_sequence := 1,
                 context_offsets := replicate 16 0, context_lengths := replicate 16 0, context_deps := zero_deps\<rparr>)"
  have 1: "keeps p p1" by (simp add: p1_def keeps_write_begin)
  have 2: "keeps p p2" by (rule keeps_trans [OF 1]) (simp add: p2_def clear_pending_dep_def keeps_defs digest_wf_def)
  have 3: "keeps p (snd (agent_sync_header now (digest_clear (p2\<lparr>p_pagetable := pt\<rparr>))))" for pt
    by (rule keeps_trans [OF keeps_trans [OF keeps_pt [OF 2] keeps_digest_clear] keeps_sync_header])
  have "agent_context_clear now p = (if context_region_start p2 = 0 \<or> context_region_size p2 = 0 then p2
         else snd (agent_sync_header now (digest_clear
                (p2\<lparr>p_pagetable := zero_region (context_region_start p2) (unat (context_region_size p2)) 0 (p_pagetable p2)\<rparr>))))"
    by (simp add: agent_context_clear_def Let_def p1_def p2_def)
  with 2 3 show ?thesis by simp
qed

lemma keeps_evict_oldest: "keeps p (agent_evict_oldest p)"
  by (simp add: agent_evict_oldest_def Let_def keeps_defs digest_wf_def split: prod.splits bool.splits)

lemma keeps_evict_loop: "evict_loop fuel n p = Some q \<Longrightarrow> keeps p q"
proof (induction fuel arbitrary: p)
  case 0
  then show ?case by (subst (asm) evict_loop.simps) (simp split: if_splits)
next
  case (Suc fuel)
  show ?case
  proof (cases "context_node_count p \<ge> 16 \<or> context_path_len p + n > agent_path_capacity p")
    case True
    with Suc.prems have "evict_loop fuel n (agent_evict_oldest p) = Some q" by (subst (asm) evict_loop.simps) simp
    from Suc.IH [OF this] show ?thesis by (rule keeps_trans [OF keeps_evict_oldest])
  next
    case False
    with Suc.prems show ?thesis by (subst (asm) evict_loop.simps) simp
  qed
qed

lemma keeps_query: "keeps p (snd (agent_context_query dst len p))"
  by (simp add: agent_context_query_def Let_def case_prod_beta keeps_defs digest_wf_def)

lemma keeps_rollback: "keeps p (snd (agent_context_rollback now n p))"
proof -
  obtain r p1 where wb: "agent_context_write_begin now p = (r, p1)" by force
  have 1: "keeps p p1" using keeps_write_begin [of p now] by (simp add: wb)
  define p2 where "p2 = p1\<lparr>context_path_len := ucast (context_offsets p1 ! (unat n - 1)) + ucast (context_lengths p1 ! (unat n - 1)),
      context_node_count := n, context_next_sequence := context_first_sequence p1 + n,
      context_deps := zero_from zero_dep (unat n) (context_deps p1)\<rparr>"
  have 2: "keeps p ((clear_pending_dep p2)\<lparr>loop_state := AGENT_LOOP_ROLLED_BACK\<rparr>)"
    by (rule keeps_trans [OF 1]) (simp add: p2_def clear_pending_dep_def keeps_defs digest_wf_def)
  have "snd (agent_context_rollback now n p) = (if n > context_node_count p then p
      else if n = 0 then agent_context_clear now p
      else if r < 0 then p1
      else snd (agent_sync_header now (digest_clear ((clear_pending_dep p2)\<lparr>loop_state := AGENT_LOOP_ROLLED_BACK\<rparr>))))"
    by (simp add: agent_context_rollback_def wb p2_def Let_def)
  then show ?thesis
    using 1 keeps_context_clear keeps_trans [OF keeps_trans [OF 2 keeps_digest_clear] keeps_sync_header] by simp
qed

lemma keeps_push_node:
  assumes "agent_context_push_node now node p = Some (r, n, q)"
  shows "keeps p q"
proof -
  define p1 where "p1 = clear_pending_dep p"
  have 1: "keeps p p1" by (simp add: p1_def clear_pending_dep_def keeps_defs digest_wf_def)
  obtain r2 p2 where wb: "agent_context_write_begin now p1 = (r2, p2)" by force
  have 2: "keeps p p2" using keeps_trans [OF 1 keeps_write_begin, of now] by (simp add: wb)
  define p3 where "p3 = p2\<lparr>context_next_sequence := (if context_next_sequence p2 + 1 = 0 then 1 else context_next_sequence p2 + 1)\<rparr>"
  have 3: "keeps p p3" by (rule keeps_trans [OF 2]) (simp add: p3_def keeps_defs digest_wf_def)
  let ?len = "of_nat (strlen (render_record (node\<lparr>nd_sequence := context_next_sequence p1\<rparr>))) :: u64"
  show ?thesis
  proof (cases "context_region_start p1 = 0 \<or> ?len > agent_path_capacity p1 \<or> r2 < 0")
    case True
    with assms have "q = p1 \<or> q = p2"
      unfolding agent_context_push_node_def Let_def p1_def [symmetric] wb by (auto split: if_splits)
    with 1 2 show ?thesis by auto
  next
    case go: False
    note body = assms [unfolded agent_context_push_node_def Let_def p1_def [symmetric] wb prod.case p3_def [symmetric]]
    obtain p4 where p4: "evict_loop (Suc (unat (context_node_count p3))) ?len p3 = Some p4"
      using body go by (auto split: option.splits)
    have 4: "keeps p p4" by (rule keeps_trans [OF 3 keeps_evict_loop [OF p4]])
    obtain ok pt where ok: "copyout (p_pagetable p4) (agent_path_base p1 + context_path_len p4)
        (render_record (node\<lparr>nd_sequence := context_next_sequence p1\<rparr>)) = (ok, pt)" by force
    show ?thesis
    proof (cases ok)
      case False
      with body p4 ok go have "q = p4\<lparr>p_pagetable := pt\<rparr>" by simp
      with keeps_pt [OF 4] show ?thesis by simp
    next
      case True
      have 5: "keeps p (p4\<lparr>p_pagetable := pt, context_first_sequence := f, context_offsets := os, context_lengths := l,
          context_deps := d, context_path_len := n, context_node_count := m\<rparr>)" for f os l d n m
        by (rule keeps_trans [OF 4]) (simp add: keeps_defs digest_wf_def)
      have last: "keeps p x \<Longrightarrow> keeps p (x\<lparr>last_context_query := k\<rparr>)" for x k
        by (erule keeps_trans) (simp add: keeps_defs digest_wf_def)
      note fin = keeps_trans [OF last [OF keeps_trans [OF 5 keeps_digest_push]] keeps_sync_header]
      from body p4 ok go True have "q = snd (agent_sync_header now ((agent_context_digest_push (context_next_sequence p1)
          (nd_request_id node) (nd_request node) (nd_result node) (nd_status node)
          (p4\<lparr>p_pagetable := pt,
             context_first_sequence := (if context_node_count p4 = 0 then nd_sequence (node\<lparr>nd_sequence := context_next_sequence p1\<rparr>) else context_first_sequence p4),
             context_offsets := (context_offsets p4)[unat (context_node_count p4) := ucast (context_path_len p4)],
             context_lengths := (context_lengths p4)[unat (context_node_count p4) := ucast ?len],
             context_deps := (context_deps p4)[unat (context_node_count p4) := push_dep (context_next_sequence p1) p],
             context_path_len := context_path_len p4 + ?len,
             context_node_count := context_node_count p4 + 1\<rparr>))\<lparr>last_context_query := nd_request_id node\<rparr>))"
        by (auto simp: case_prod_beta)
      then show ?thesis by (simp only: fin)
    qed
  qed
qed

lemma quiet_on_proc: "(\<And>now p. keeps p (snd (f now p))) \<Longrightarrow> quiet s (snd (on_proc i f s))"
  by (simp add: on_proc_def case_prod_beta Let_def quiet_upd_proc)

end
