(* ===== verification/QuietTools.thy ===== *)
theory QuietTools
  imports KernelInv
begin

text \<open>
  The tool calls are quiet. Most of them are chains of steps that may fail, so the relation \<open>quiet\<close> is
  lifted to results with a state and to bare states: \<open>quiet_res\<close> and \<open>quiet_opt\<close>. The rules follow the
  structure of the code (sequence, branch, case), and each function is one application of them.
\<close>

subsection \<open>Rules\<close>

definition quiet_res :: "kst \<Rightarrow> ('a \<times> kst) option \<Rightarrow> bool" where
  "quiet_res s m \<longleftrightarrow> (\<forall>r t. m = Some (r, t) \<longrightarrow> quiet s t)"

definition quiet_opt :: "kst \<Rightarrow> kst option \<Rightarrow> bool" where
  "quiet_opt s m \<longleftrightarrow> (\<forall>t. m = Some t \<longrightarrow> quiet s t)"

lemma quiet_resD: "quiet_res s m \<Longrightarrow> m = Some (r, t) \<Longrightarrow> quiet s t"
  by (simp add: quiet_res_def)

lemma quiet_optD: "quiet_opt s m \<Longrightarrow> m = Some t \<Longrightarrow> quiet s t"
  by (simp add: quiet_opt_def)

lemma quiet_res_None [intro!]: "quiet_res s None"
  by (simp add: quiet_res_def)

lemma quiet_res_Some [intro]: "quiet s t \<Longrightarrow> quiet_res s (Some (r, t))"
  by (simp add: quiet_res_def)

lemma quiet_opt_None [intro!]: "quiet_opt s None"
  by (simp add: quiet_opt_def)

lemma quiet_opt_Some [intro]: "quiet s t \<Longrightarrow> quiet_opt s (Some t)"
  by (simp add: quiet_opt_def)

lemma quiet_res_trans: "quiet s t \<Longrightarrow> quiet_res t m \<Longrightarrow> quiet_res s m"
  unfolding quiet_res_def using quiet_trans by blast

lemma quiet_opt_trans: "quiet s t \<Longrightarrow> quiet_opt t m \<Longrightarrow> quiet_opt s m"
  unfolding quiet_opt_def using quiet_trans by blast

lemma quiet_res_bind: "quiet_res s m \<Longrightarrow> (\<And>r t. quiet_res t (f (r, t))) \<Longrightarrow> quiet_res s (Option.bind m f)"
  unfolding quiet_res_def using quiet_trans by (cases m) force+

lemma quiet_res_bind_opt: "quiet_opt s m \<Longrightarrow> (\<And>t. quiet_res t (f t)) \<Longrightarrow> quiet_res s (Option.bind m f)"
  unfolding quiet_res_def quiet_opt_def using quiet_trans by (cases m) force+

lemma quiet_opt_bind: "quiet_opt s m \<Longrightarrow> (\<And>t. quiet_opt t (f t)) \<Longrightarrow> quiet_opt s (Option.bind m f)"
  unfolding quiet_opt_def using quiet_trans by (cases m) force+

lemma quiet_opt_bind_res: "quiet_res s m \<Longrightarrow> (\<And>r t. quiet_opt t (f (r, t))) \<Longrightarrow> quiet_opt s (Option.bind m f)"
  unfolding quiet_opt_def quiet_res_def using quiet_trans by (cases m) force+

lemma quiet_res_bind_any: "(\<And>x. quiet_res s (f x)) \<Longrightarrow> quiet_res s (Option.bind m f)"
  by (cases m) auto

lemma quiet_opt_bind_any: "(\<And>x. quiet_opt s (f x)) \<Longrightarrow> quiet_opt s (Option.bind m f)"
  by (cases m) auto

lemma quiet_res_if: "(b \<Longrightarrow> quiet_res s m) \<Longrightarrow> (\<not> b \<Longrightarrow> quiet_res s n) \<Longrightarrow> quiet_res s (if b then m else n)"
  by simp

lemma quiet_opt_if: "(b \<Longrightarrow> quiet_opt s m) \<Longrightarrow> (\<not> b \<Longrightarrow> quiet_opt s n) \<Longrightarrow> quiet_opt s (if b then m else n)"
  by simp

lemma quiet_res_option: "quiet_res s m \<Longrightarrow> (\<And>x. y = Some x \<Longrightarrow> quiet_res s (f x)) \<Longrightarrow> quiet_res s (case y of None \<Rightarrow> m | Some x \<Rightarrow> f x)"
  by (cases y) auto

lemma quiet_opt_option: "quiet_opt s m \<Longrightarrow> (\<And>x. y = Some x \<Longrightarrow> quiet_opt s (f x)) \<Longrightarrow> quiet_opt s (case y of None \<Rightarrow> m | Some x \<Rightarrow> f x)"
  by (cases y) auto

lemma quiet_res_map: "quiet_res s m \<Longrightarrow> (\<And>r t. quiet t (snd (f (r, t)))) \<Longrightarrow> quiet_res s (map_option f m)"
  unfolding quiet_res_def using quiet_trans by (cases m) (auto, metis snd_conv)

lemma quiet_res_map_opt: "quiet_opt s m \<Longrightarrow> (\<And>t. quiet t (snd (f t))) \<Longrightarrow> quiet_res s (map_option f m)"
  unfolding quiet_res_def quiet_opt_def using quiet_trans by (cases m) (auto, metis snd_conv)

lemma quiet_opt_map: "quiet_opt s m \<Longrightarrow> (\<And>t. quiet t (f t)) \<Longrightarrow> quiet_opt s (map_option f m)"
  unfolding quiet_opt_def using quiet_trans by (cases m) auto

lemmas quiet_rules = quiet_res_if quiet_opt_if quiet_res_option quiet_opt_option

subsection \<open>Calls of the kernel\<close>

lemma quiet_on_fs: "quiet_opt s (on_fs f s)"
  using on_fs_frame quiet_but_fs unfolding quiet_opt_def by blast

lemma quiet_namei: "quiet_res s (fs_namei i path s)"
  using fs_namei_frame quiet_but_fs unfolding quiet_res_def by blast

lemma quiet_open_file: "quiet_res s (open_file i path s)"
  using open_file_frame quiet_but_fs unfolding quiet_res_def by blast

lemma quiet_open_any: "quiet_res s (open_any i path s)"
  unfolding open_any_def
  by (rule quiet_res_bind [OF quiet_namei]) (auto intro!: quiet_res_bind_opt [OF quiet_on_fs] quiet_rules)

lemma quiet_with_page:
  assumes "\<And>t. quiet t (snd (f t))"
  shows "quiet s (snd (with_page x f s))"
proof (cases "kalloc (ks_freelist s)")
  case (Pair pa fl)
  then show ?thesis
    using quiet_trans [OF quiet_trans [OF quiet_fields(1) assms] quiet_fields(1)]
    by (cases pa) (simp_all add: with_page_def case_prod_beta Let_def)
qed

lemma quiet_alloc_pages: "alloc_pages n s = Some (pages, t) \<Longrightarrow> quiet s t"
  by (auto simp: alloc_pages_def split: if_splits)

lemma quiet_copy_text: "quiet s (snd (copy_text i dst len x s))"
  using quiet_copyout [of s i dst "take (unat (min (of_nat (strlen x)) len)) x"]
  by (auto simp: copy_text_def Let_def split: prod.splits bool.splits)

subsection \<open>The file index\<close>

lemma quiet_index [simp]:
  "quiet s (file_index_reset_locked s)" "quiet s (snd (file_add_posting_locked k a v s))"
  "quiet s (snd (file_cache_upsert_locked ip path s))" "quiet s (agent_file_version_bump s)"
  "quiet s (shared_query_cache_store i q res s)"
  by (simp_all add: quiet_same file_index_reset_locked_def file_add_posting_locked_def file_cache_upsert_locked_def
      agent_file_version_bump_def shared_query_cache_store_def Let_def split: option.splits)

lemma quiet_fold: "(\<And>x s. quiet s (f x s)) \<Longrightarrow> quiet s (fold f xs s)"
  by (induction xs arbitrary: s) (auto intro: quiet_trans)

lemma quiet_rebuild: "quiet s (file_rebuild_postings_locked s)"
  unfolding file_rebuild_postings_locked_def
  by (rule quiet_trans [OF quiet_index(1) quiet_fold]) (simp add: case_prod_beta)

lemma quiet_opt_fs: "quiet_opt (s\<lparr>ks_fs := fs\<rparr>) m \<Longrightarrow> quiet_opt s m"
  by (rule quiet_opt_trans [OF quiet_fields(2)])

lemma quiet_res_fs: "quiet_res (s\<lparr>ks_fs := fs\<rparr>) m \<Longrightarrow> quiet_res s m"
  by (rule quiet_res_trans [OF quiet_fields(2)])

lemma case_option_bind: "(case m of None \<Rightarrow> None | Some x \<Rightarrow> f x) = Option.bind m f"
  by (cases m) auto

lemma quiet_walk_dir:
  assumes down: "\<And>ip path u. quiet_opt u (down ip path u)"
  shows "quiet_opt s (walk_dir down ip path sz off s)"
proof (induction "sz - off" arbitrary: off s rule: less_induct)
  case less
  show ?case
  proof (cases "off + DIRENT_SIZE \<le> sz")
    case False
    then show ?thesis by (subst walk_dir.simps) auto
  next
    case True
    have skip: "quiet_opt u (walk_dir down ip path sz (off + DIRENT_SIZE) u)" for u
      using True by (intro less) auto
    have go: "quiet_opt u (case (do { s3 \<leftarrow> on_fs (ilock child) u; s4 \<leftarrow> down child cp s3; on_fs (iunlockput child) s4 }) of
        None \<Rightarrow> None | Some s5 \<Rightarrow> walk_dir down ip path sz (off + DIRENT_SIZE) s5)" for u child cp
      unfolding case_option_bind by (intro quiet_opt_bind quiet_on_fs down skip)
    have look: "quiet_opt u (case d of None \<Rightarrow> None
        | Some (None, fs2) \<Rightarrow> walk_dir down ip path sz (off + DIRENT_SIZE) (u\<lparr>ks_fs := fs2\<rparr>)
        | Some (Some (child, _), fs2) \<Rightarrow>
            (case (do { s3 \<leftarrow> on_fs (ilock child) (u\<lparr>ks_fs := fs2\<rparr>); s4 \<leftarrow> down child cp s3; on_fs (iunlockput child) s4 }) of
               None \<Rightarrow> None | Some s5 \<Rightarrow> walk_dir down ip path sz (off + DIRENT_SIZE) s5))" for u cp d
    proof (cases d)
      case None
      then show ?thesis by (simp add: quiet_opt_None)
    next
      case (Some x)
      then show ?thesis
        using quiet_opt_fs [OF skip] quiet_opt_fs [OF go] by (cases x; cases "fst x") auto
    qed
    show ?thesis
    proof (cases "readi_kernel ip (of_nat off) (of_nat DIRENT_SIZE) (ks_fs s)")
      case None
      with True show ?thesis by (subst walk_dir.simps) (simp add: quiet_opt_None)
    next
      case (Some a)
      obtain r de fs1 where a: "a = (r, de, fs1)" by (cases a) auto
      show ?thesis
        by (subst walk_dir.simps, rule quiet_opt_fs [where fs = fs1])
          (simp only: True Some a if_True option.case prod.case Let_def,
            intro quiet_opt_if quiet_opt_Some quiet_refl skip quiet_opt_option look)
    qed
  qed
qed

lemma quiet_index_walk: "quiet_opt s (file_index_walk fuel ip path s)"
  by (induction fuel arbitrary: ip path s) (auto intro!: quiet_walk_dir quiet_opt_Some)

lemma quiet_ready: "quiet s t \<Longrightarrow> quiet s (t\<lparr>ks_file_index_ready := b\<rparr>)" "quiet s (s\<lparr>ks_file_meta := m\<rparr>)"
  by (erule quiet_trans) (simp_all add: quiet_same)

lemma quiet_index_build: "quiet_opt s (file_index_build s)"
proof -
  have reset: "quiet s1 (file_index_reset_locked (s1\<lparr>ks_file_meta := m\<rparr>))" for s1 m
    by (rule quiet_trans [OF quiet_ready(2) quiet_index(1)])
  have walk: "quiet_opt s1 (file_index_walk WALK_FUEL root [] (file_index_reset_locked (s1\<lparr>ks_file_meta := m\<rparr>)))" for s1 m root
    by (rule quiet_opt_trans [OF reset quiet_index_walk])
  have built: "quiet_opt u (do { s1 \<leftarrow> on_fs (ilock root) u;
            s2 \<leftarrow> file_index_walk WALK_FUEL root [] (file_index_reset_locked (s1\<lparr>ks_file_meta := replicate AGENT_FILE_META_MAX zero_meta\<rparr>));
            s3 \<leftarrow> on_fs (iunlockput root) s2;
            Some ((file_rebuild_postings_locked s3)\<lparr>ks_file_index_ready := True\<rparr>) })" for u root
    by (intro quiet_opt_bind quiet_on_fs walk quiet_opt_Some quiet_ready quiet_rebuild)
  show ?thesis
  proof (cases "namei 0 ''/'' (ks_fs s)")
    case None
    then show ?thesis by (simp add: file_index_build_def quiet_opt_None)
  next
    case (Some x)
    obtain r fs1 where x: "x = (r, fs1)" by force
    show ?thesis
      unfolding file_index_build_def Some x using quiet_opt_fs [OF built]
      by (cases r) (auto intro: quiet_opt_Some)
  qed
qed

lemma quiet_signal_filemod: "quiet s (agent_signal_filemod s)"
  unfolding agent_signal_filemod_def Let_def by (rule quiet_for_procs_idx) (rule keeps_signal)

lemma quiet_changed: "quiet t (agent_signal_filemod (agent_file_version_bump t))"
  by (rule quiet_trans [OF quiet_index(4) quiet_signal_filemod])

subsection \<open>The attribute and query tools\<close>

lemma quiet_set_attr: "quiet_res s (agentfs_tool_set_file_attr i req s)"
proof -
  have set: "quiet_res t (do { s2 \<leftarrow> on_fs f t; s3 \<leftarrow> on_fs g s2; s4 \<leftarrow> file_index_build s3;
      Some (r, agent_signal_filemod (agent_file_version_bump s4)) })" for t f g and r :: agent_tool_response
    by (intro quiet_res_bind_opt quiet_on_fs quiet_index_build quiet_res_Some quiet_changed)
  have fail: "quiet_res t (do { s2 \<leftarrow> on_fs f t; tool_fail e m s2 })" for t f e m
    by (intro quiet_res_bind_opt quiet_on_fs quiet_res_Some quiet_refl)
  show ?thesis
    unfolding agentfs_tool_set_file_attr_def
    by (auto split: option.splits sum.splits bool.splits intro!: quiet_res_Some quiet_res_bind [OF quiet_open_file] set fail)
qed

lemma quiet_get_attr: "quiet_res s (agentfs_tool_get_file_attr i req s)"
proof -
  have get: "quiet_res t (do { s2 \<leftarrow> on_fs f t; (case k s2 of None \<Rightarrow> tool_fail e m (free_pages ps s2) | Some j \<Rightarrow> Some (g j, free_pages ps s2)) })"
    for t f e m ps and k :: "kst \<Rightarrow> nat option" and g
    by (intro quiet_res_bind_opt quiet_on_fs quiet_res_option quiet_res_Some quiet_free_pages)
  have body: "quiet_res t (do { (f, s1) \<leftarrow> open_any i path t;
      (case f of None \<Rightarrow> tool_fail e m (free_pages ps s1)
       | Some ip \<Rightarrow> do { s2 \<leftarrow> on_fs (h ip) s1;
           (case k ip s1 of None \<Rightarrow> tool_fail e' m' (free_pages ps s2) | Some j \<Rightarrow> Some (g ip s1 j, free_pages ps s2)) }) })"
    for t path e m ps h e' m' g and k :: "nat \<Rightarrow> kst \<Rightarrow> nat option"
    by (rule quiet_res_bind [OF quiet_open_any]) (auto intro!: get quiet_res_Some quiet_free_pages split: option.splits)
  show ?thesis
  proof (cases "(param_value (rq_params req) ''path'' (int AGENT_FILE_PATH_MAX), param_value (rq_params req) ''key'' (int INODE_ATTR_KEY_MAX), alloc_pages 1 s)")
    case (fields p k a)
    then show ?thesis
      using quiet_res_trans [OF quiet_alloc_pages body]
      by (cases p; cases k; cases a) (auto simp: agentfs_tool_get_file_attr_def intro!: quiet_res_Some)
  qed
qed

lemma quiet_del_attr: "quiet_res s (agentfs_tool_del_file_attr i req s)"
proof -
  have del: "quiet_res t (do { s2 \<leftarrow> on_fs f t; s3 \<leftarrow> file_index_build s2;
      Some (r, agent_signal_filemod (agent_file_version_bump s3)) })" for t f and r :: agent_tool_response
    by (intro quiet_res_bind_opt quiet_on_fs quiet_index_build quiet_res_Some quiet_changed)
  have fail: "quiet_res t (do { s2 \<leftarrow> on_fs f t; tool_fail e m s2 })" for t f e m
    by (intro quiet_res_bind_opt quiet_on_fs quiet_res_Some quiet_refl)
  show ?thesis
    unfolding agentfs_tool_del_file_attr_def
    by (auto split: option.splits intro!: quiet_res_Some quiet_res_bind [OF quiet_open_any] del fail)
qed

lemma quiet_cache_lookup: "quiet s (snd (shared_query_cache_lookup i q s))"
  unfolding shared_query_cache_lookup_def
  by (rule quiet_with_page) (auto simp: Let_def split: option.splits intro: quiet_same)

lemma quiet_metric [simp]:
  "quiet s (agent_workflow_metric_query a b c i s)" "quiet s (agent_workflow_metric_file_read n i s)"
  "quiet s (agent_workflow_metric_tool_call q i s)" "quiet s (agent_workflow_metric_wait w m i s)"
  by (simp_all add: agent_workflow_metric_query_def agent_workflow_metric_file_read_def
      agent_workflow_metric_tool_call_def agent_workflow_metric_wait_def quiet_metrics)

lemma quiet_ensure: "quiet_opt s (file_index_ensure s)"
  by (auto simp: file_index_ensure_def intro: quiet_index_build quiet_opt_Some)

lemma quiet_query_run: "quiet_res s (query_run i req s)"
  unfolding query_run_def Let_def
  by (rule quiet_res_bind_opt [OF quiet_ensure])
    (auto intro!: quiet_res_bind_any quiet_res_Some quiet_trans [OF quiet_index(5) quiet_metric(1)] split: option.splits)

lemma quiet_query_file: "quiet_res s (agentfs_tool_query_file i req s)"
proof -
  have "quiet_res t (case shared_query_cache_lookup i q t of
               (Some resp, s1) \<Rightarrow> Some (resp, agent_workflow_metric_query 0 0 True i s1)
             | (None, s1) \<Rightarrow> query_run i req s1)" for t q
  proof (cases "shared_query_cache_lookup i q t")
    case (Pair r s1)
    then have "quiet t s1" using quiet_cache_lookup [of t i q] by simp
    then show ?thesis
      using quiet_trans [OF _ quiet_metric(1)] quiet_res_trans [OF _ quiet_query_run] Pair
      by (cases r) (simp_all add: quiet_res_Some)
  qed
  then have body: "quiet_res t (map_option (\<lambda>(resp, s2). (resp, free_pages pages s2))
        (case shared_query_cache_lookup i (rq_params req) t of
               (Some resp, s1) \<Rightarrow> Some (resp, agent_workflow_metric_query 0 0 True i s1)
             | (None, s1) \<Rightarrow> query_run i req s1))" for t pages
    by (rule quiet_res_map) (simp add: quiet_free_pages)
  show ?thesis
  proof (cases "alloc_pages 2 s")
    case None
    then show ?thesis by (simp add: agentfs_tool_query_file_def quiet_res_Some)
  next
    case (Some a)
    then show ?thesis
      using quiet_res_trans [OF quiet_alloc_pages body, of 2 s "fst a" "snd a"]
      by (simp add: agentfs_tool_query_file_def case_prod_beta)
  qed
qed

subsection \<open>The built-in tools\<close>

lemma quiet_read_open: "read_open ip n s = Some (k, bs, t) \<Longrightarrow> quiet s t"
  by (auto simp: read_open_def split: option.splits)

lemma quiet_read_open_bind:
  assumes "\<And>k bs t. quiet_res t (f k bs t)"
  shows "quiet_res s (do { (k, bs, t) \<leftarrow> read_open ip n s; f k bs t })"
proof (cases "read_open ip n s")
  case None
  then show ?thesis by (simp add: quiet_res_None)
next
  case (Some x)
  then show ?thesis using quiet_res_trans [OF quiet_read_open assms] by (cases x) auto
qed

lemma quiet_read_file: "quiet_res s (read_file_content i path n s)"
proof -
  have body: "quiet_res t (do { (k, bs, s2) \<leftarrow> read_open ip n t; s3 \<leftarrow> on_fs (iunlockput ip) s2;
      Some (if k < 0 then None else Some bs, s3) })" for t ip
    by (intro quiet_read_open_bind quiet_res_bind_opt quiet_on_fs quiet_res_Some quiet_refl)
  show ?thesis
    unfolding read_file_content_def
    by (auto intro!: quiet_res_Some quiet_res_bind [OF quiet_open_file] body split: sum.splits)
qed

lemma quiet_read_versioned: "quiet_res s (read_file_content_versioned i path n s)"
proof -
  have get: "quiet t (if b then t\<lparr>ks_file_versions := es\<rparr> else t)" for t b es by simp
  have fin: "quiet_res t (do { s4 \<leftarrow> on_fs g (if b then t\<lparr>ks_file_versions := es\<rparr> else t); Some (r, s4) })"
    for t b es g and r :: "(string \<times> u32 \<times> u32 \<times> u64) option"
    by (rule quiet_res_trans [OF get], rule quiet_res_bind_opt [OF quiet_on_fs]) (simp add: quiet_res_Some)
  have body: "quiet_res t (do { (k, bs, s2) \<leftarrow> read_open ip n t;
               let dev = in_dev (fs_ino s2 ip);
               let inum = in_inum (fs_ino s2 ip);
               let (v, es) = agentfs_inode_version_get dev inum (ks_file_versions s2);
               let s3 = (if k \<ge> 0 then s2\<lparr>ks_file_versions := es\<rparr> else s2);
               s4 \<leftarrow> on_fs (iunlockput ip) s3;
               Some (if k < 0 then None else Some (bs, dev, inum, v), s4) })" for t ip
    by (rule quiet_read_open_bind) (simp only: Let_def case_prod_beta, rule fin)
  show ?thesis
    unfolding read_file_content_versioned_def Let_def
    by (auto intro!: quiet_res_Some quiet_res_bind [OF quiet_open_file] body [unfolded Let_def] split: sum.splits)
qed

lemma quiet_tool_read_file: "quiet_res s (tool_read_file i req s)"
proof -
  have dep: "quiet t (free_pages ps (agent_workflow_metric_file_read n i (upd_proc i (\<lambda>p. p\<lparr>pending_context_dep := True,
      pending_context_dev := d, pending_context_inum := m, pending_context_version := v\<rparr>) t)))" for t ps n d m v
  proof -
    have "quiet t (upd_proc i (\<lambda>p. p\<lparr>pending_context_dep := True, pending_context_dev := d, pending_context_inum := m,
        pending_context_version := v\<rparr>) t)"
      by (rule quiet_upd_proc) (simp add: keeps_defs digest_wf_def)
    then show ?thesis by (rule quiet_trans [OF quiet_trans [OF _ quiet_metric(2)] quiet_free_pages])
  qed
  have body: "quiet_res t (do { (r, s1) \<leftarrow> read_file_content_versioned i path AGENT_TOOL_RESULT_MAX t;
      (case r of
         None \<Rightarrow> tool_fail e m (free_pages pages s1)
       | Some (content, dev, inum, version) \<Rightarrow>
           let s2 = upd_proc i (\<lambda>p. p\<lparr>pending_context_dep := True, pending_context_dev := dev,
                      pending_context_inum := inum, pending_context_version := version\<rparr>) s1;
               s3 = agent_workflow_metric_file_read (of_nat (length content)) i s2;
               text = g content
           in Some (tool_resp_set AGENT_TOOL_OK text, free_pages pages s3)) })" for t path e m pages g
    by (rule quiet_res_bind [OF quiet_read_versioned])
      (auto simp: Let_def intro!: quiet_res_Some quiet_free_pages dep split: option.splits)
  show ?thesis
  proof (cases "param_value (rq_params req) ''path'' 64")
    case None
    then show ?thesis by (simp add: tool_read_file_def quiet_res_Some)
  next
    case (Some path)
    show ?thesis
    proof (cases "alloc_pages 2 s")
      case None
      with Some show ?thesis by (simp add: tool_read_file_def quiet_res_Some)
    next
      case alloc: (Some a)
      then have "quiet s (snd a)" using quiet_alloc_pages [of 2 s "fst a" "snd a"] by simp
      then show ?thesis
        unfolding tool_read_file_def Some alloc option.case case_prod_beta [of _ a] by (rule quiet_res_trans [OF _ body])
    qed
  qed
qed

lemma quiet_patch_inode: "quiet_res s (patch_inode ip old new s)"
proof -
  have wr: "quiet_res u (do { s2 \<leftarrow> on_fs (itrunc ip) u; (w, fs3) \<leftarrow> writei_kernel ip dst 0 (ks_fs s2);
      (if w \<noteq> int (length dst) then Some (Some (e, m), s2\<lparr>ks_fs := fs3\<rparr>)
       else do { s4 \<leftarrow> on_fs g (s2\<lparr>ks_fs := fs3\<rparr>); Some (None, s4) }) })" for u dst e m g
  proof (rule quiet_res_bind_opt [OF quiet_on_fs])
    show "quiet_res t (do { (w, fs3) \<leftarrow> writei_kernel ip dst 0 (ks_fs t);
      (if w \<noteq> int (length dst) then Some (Some (e, m), t\<lparr>ks_fs := fs3\<rparr>)
       else do { s4 \<leftarrow> on_fs g (t\<lparr>ks_fs := fs3\<rparr>); Some (None, s4) }) })" for t
    proof (rule quiet_res_bind_any, clarify)
      fix w :: int and fs3
      show "quiet_res t (if w \<noteq> int (length dst) then Some (Some (e, m), t\<lparr>ks_fs := fs3\<rparr>)
          else do { s4 \<leftarrow> on_fs g (t\<lparr>ks_fs := fs3\<rparr>); Some (None, s4) })"
        by (rule quiet_res_fs [where fs = fs3], intro quiet_res_if quiet_res_Some quiet_refl quiet_res_bind_opt quiet_on_fs)
    qed
  qed
  show ?thesis
    unfolding patch_inode_def Let_def
    by (auto split: option.splits prod.splits intro!: quiet_res_Some quiet_res_fs [OF wr])
qed

lemma quiet_tool_patch_file: "quiet_res s (tool_patch_file i req s)"
proof -
  have changed: "quiet_opt t (agentfs_content_changed t)" for t
    unfolding agentfs_content_changed_def by (rule quiet_opt_map [OF quiet_index_build quiet_changed])
  have finish: "quiet_res t (do { s4 \<leftarrow> agentfs_content_changed t; Some (r, free_pages ps (agent_notify_file_modified d n s4)) })"
    for t ps d n and r :: agent_tool_response
    by (rule quiet_res_bind_opt [OF changed]) (auto intro!: quiet_res_Some quiet_trans [OF quiet_notify quiet_free_pages])
  have fin: "quiet_res t (do { s3 \<leftarrow> on_fs h t; (case r of
        Some (status, text) \<Rightarrow> tool_fail status text (free_pages ps s3)
      | None \<Rightarrow> do { s4 \<leftarrow> agentfs_content_changed s3; Some (q, free_pages ps (agent_notify_file_modified d n s4)) }) })"
    for t h r ps q d n
    by (rule quiet_res_bind_opt [OF quiet_on_fs]) (auto intro!: finish quiet_res_Some quiet_free_pages split: option.splits)
  have patch: "quiet_res t (do { (r, s2) \<leftarrow> patch_inode ip old new t;
      let dev = in_dev (fs_ino s2 ip);
      let inum = in_inum (fs_ino s2 ip);
      s3 \<leftarrow> on_fs (iunlockput ip) s2;
      (case r of
         Some (status, text) \<Rightarrow> tool_fail status text (free_pages ps s3)
       | None \<Rightarrow> do { s4 \<leftarrow> agentfs_content_changed s3; Some (q, free_pages ps (agent_notify_file_modified dev inum s4)) }) })"
    for t ip old new ps q
    by (rule quiet_res_bind [OF quiet_patch_inode]) (simp only: Let_def prod.case, rule fin)
  have body: "quiet_res t (do { (f, s1) \<leftarrow> open_any i path t;
      (case f of None \<Rightarrow> tool_fail e m (free_pages ps s1)
       | Some ip \<Rightarrow> do { (r, s2) \<leftarrow> patch_inode ip old new s1;
           let dev = in_dev (fs_ino s2 ip);
           let inum = in_inum (fs_ino s2 ip);
           s3 \<leftarrow> on_fs (iunlockput ip) s2;
           (case r of
              Some (status, text) \<Rightarrow> tool_fail status text (free_pages ps s3)
            | None \<Rightarrow> do { s4 \<leftarrow> agentfs_content_changed s3; Some (q, free_pages ps (agent_notify_file_modified dev inum s4)) }) }) })"
    for t path e m ps old new q
    unfolding Let_def
    by (rule quiet_res_bind [OF quiet_open_any])
      (auto intro!: patch [unfolded Let_def] quiet_res_Some quiet_free_pages split: option.split)
  let ?p = "rq_params req"
  obtain path opname old new where p: "param_value ?p ''path'' 64 = path" "param_value ?p ''op'' 16 = opname"
    "param_value ?p ''old'' (int AGENT_TOOL_PARAM_MAX) = old" "param_value ?p ''new'' (int AGENT_TOOL_PARAM_MAX) = new" by blast
  show ?thesis
  proof (cases "path = None \<or> opname = None \<or> old = None \<or> new = None")
    case True
    then show ?thesis
      unfolding tool_patch_file_def Let_def p by (auto split: option.splits intro!: quiet_res_Some)
  next
    case False
    then obtain a b c d where "path = Some a" "opname = Some b" "old = Some c" "new = Some d" by auto
    then show ?thesis
      unfolding tool_patch_file_def p Let_def
      using quiet_res_trans [OF quiet_alloc_pages body [unfolded Let_def], of 2 s]
      by (cases "alloc_pages 2 s") (auto intro!: quiet_res_Some)
  qed
qed

lemma quiet_tool_run_rule_test: "quiet_res s (tool_run_rule_test i req s)"
proof -
  have second: "quiet_res t (if b then Some (None, t) else read_file_content i path n t)" for t b path n
    by (intro quiet_res_if quiet_res_Some quiet_refl quiet_read_file)
  have body: "quiet_res t (do {
      (todo, s1) \<leftarrow> read_file_content i a n t;
      (testsrc, s2) \<leftarrow> (if todo = None then Some (None, s1) else read_file_content i b n s1);
      (case (todo, testsrc) of
         (Some x, Some y) \<Rightarrow>
           let (passed, text) = rule_test_text x y
           in Some (tool_resp_set (if passed = 3 then AGENT_TOOL_OK else AGENT_TOOL_ERR_BAD_PARAM) text, free_pages pages s2)
       | _ \<Rightarrow> tool_fail e m (free_pages pages s2)) })" for t a b n e m pages
    by (rule quiet_res_bind [OF quiet_read_file], simp only: prod.case, rule quiet_res_bind [OF second])
      (auto simp: case_prod_beta intro!: quiet_res_Some quiet_free_pages split: option.splits)
  show ?thesis
  proof (cases "param_value (rq_params req) ''target'' 32")
    case None
    then show ?thesis by (simp add: tool_run_rule_test_def quiet_res_Some)
  next
    case (Some target)
    show ?thesis
    proof (cases "alloc_pages 3 s")
      case None
      with Some show ?thesis by (simp add: tool_run_rule_test_def quiet_res_Some)
    next
      case alloc: (Some a)
      then have "quiet s (snd a)" using quiet_alloc_pages [of 3 s "fst a" "snd a"] by simp
      then show ?thesis
        unfolding tool_run_rule_test_def Some alloc option.case case_prod_beta [of _ a]
        by (intro quiet_res_if quiet_res_Some quiet_refl quiet_res_trans [OF _ body])
    qed
  qed
qed

lemma quiet_tool_diff_file: "quiet_res s (tool_diff_file i req s)"
proof -
  have body: "quiet_res t (do {
      (r, s1) \<leftarrow> read_file_content i path n t;
      (case r of None \<Rightarrow> tool_fail e m (free_pages pages s1) | Some content \<Rightarrow> Some (g content, free_pages pages s1)) })"
    for t path n e m pages g
    by (rule quiet_res_bind [OF quiet_read_file]) (auto intro!: quiet_res_Some quiet_free_pages split: option.splits)
  show ?thesis
  proof (cases "param_value (rq_params req) ''path'' 64")
    case None
    then show ?thesis by (simp add: tool_diff_file_def quiet_res_Some)
  next
    case (Some path)
    show ?thesis
    proof (cases "alloc_pages 2 s")
      case None
      with Some show ?thesis by (simp add: tool_diff_file_def quiet_res_Some)
    next
      case alloc: (Some a)
      then have "quiet s (snd a)" using quiet_alloc_pages [of 2 s "fst a" "snd a"] by simp
      then show ?thesis
        unfolding tool_diff_file_def Some alloc option.case case_prod_beta [of _ a] Let_def
        by (rule quiet_res_trans [OF _ body])
    qed
  qed
qed

subsection \<open>Leases\<close>

lemma clear_leases_global [simp]:
  "gl_workflows (clear_leases P g) = gl_workflows g" "gl_workflows (clear_lease k g) = gl_workflows g"
  "gl_heartbeat_wheel_heads (clear_leases P g) = gl_heartbeat_wheel_heads g"
  "gl_heartbeat_wheel_heads (clear_lease k g) = gl_heartbeat_wheel_heads g"
  "gl_heartbeat_count (clear_leases P g) = gl_heartbeat_count g" "gl_heartbeat_count (clear_lease k g) = gl_heartbeat_count g"
  by (simp_all add: clear_leases_def clear_lease_def)

lemma lease_acquire_global:
  "gl_workflows (snd (lease_acquire now dev inum pid gen g)) = gl_workflows g"
  "gl_heartbeat_wheel_heads (snd (lease_acquire now dev inum pid gen g)) = gl_heartbeat_wheel_heads g"
  "gl_heartbeat_count (snd (lease_acquire now dev inum pid gen g)) = gl_heartbeat_count g"
  by (simp_all add: lease_acquire_def Let_def split: option.splits)

lemma quiet_ks_global:
  assumes "gl_workflows g = gl_workflows (ks_global s)" "gl_heartbeat_wheel_heads g = gl_heartbeat_wheel_heads (ks_global s)"
    "gl_heartbeat_count g = gl_heartbeat_count (ks_global s)"
  shows "quiet s (s\<lparr>ks_global := g\<rparr>)"
  using quiet_global [where f = "\<lambda>_. g", OF assms] by (simp add: upd_global_def)

lemma quiet_lease_begin: "quiet_res s (agent_proc_lease_begin i path s)"
proof -
  have audit: "quiet_res t (do { s3 \<leftarrow> on_fs h (t\<lparr>ks_global := g\<rparr>);
      Some (r, (case r of Inl _ \<Rightarrow> s3 | Inr _ \<Rightarrow> agent_audit_record i tg a d st c s3)) })"
    if "quiet t (t\<lparr>ks_global := g\<rparr>)" for t h g tg a d st c and r :: "int + u64 \<times> u64"
    by (rule quiet_res_trans [OF that], rule quiet_res_bind_opt [OF quiet_on_fs])
      (auto intro!: quiet_res_Some quiet_audit split: sum.splits)
  have acq: "quiet t (t\<lparr>ks_global := snd (lease_acquire now dev inum pid gen (ks_global t))\<rparr>)" for t now dev inum pid gen
    by (rule quiet_ks_global) (simp_all add: lease_acquire_global)
  show ?thesis
    unfolding agent_proc_lease_begin_def Let_def
    by (auto simp: case_prod_beta intro!: quiet_res_Some quiet_res_bind [OF quiet_open_file] audit acq split: sum.splits)
qed

lemma quiet_lease_end:
  "quiet s (snd (agent_proc_lease_commit i lid v s))" "quiet s (snd (agent_proc_lease_abort i lid s))"
proof -
  have c: "quiet s (s\<lparr>ks_global := snd (lease_commit now pid gen lid (ks_global s))\<rparr>)" for now pid gen
    by (rule quiet_ks_global) (simp_all add: lease_commit_def Let_def split: option.splits)
  then show "quiet s (snd (agent_proc_lease_commit i lid v s))"
    by (simp add: agent_proc_lease_commit_def case_prod_beta Let_def quiet_trans [OF c quiet_audit])
  have a: "quiet s (s\<lparr>ks_global := snd (lease_abort pid gen lid (ks_global s))\<rparr>)" for pid gen
    by (rule quiet_ks_global) (simp_all add: lease_abort_def Let_def split: option.splits)
  then show "quiet s (snd (agent_proc_lease_abort i lid s))"
    by (simp add: agent_proc_lease_abort_def case_prod_beta Let_def)
qed

subsection \<open>The tool call\<close>

lemma quiet_pairI: "quiet s (snd x) \<Longrightarrow> quiet_res s (Some x)"
  by (auto simp: quiet_res_def)

lemma quiet_simple_tools:
  "quiet s (snd (tool_query_process req s))" "quiet s (snd (tool_get_system_status s))" "quiet s (snd (tool_query_agent req s))"
  by (simp_all add: tool_query_process_def tool_get_system_status_def tool_query_agent_def quiet_with_page)

lemma quiet_workflow_metrics: "quiet s (snd (tool_get_workflow_metrics i s))"
  by (auto simp: tool_get_workflow_metrics_def intro!: quiet_with_page split: sum.splits)

lemma quiet_read_context: "quiet s (snd (tool_read_context i s))"
  by (auto simp: tool_read_context_def Let_def intro!: quiet_with_page split: option.splits)

lemma quiet_send_tool: "quiet s (snd (tool_send_message_tool i req s))"
  by (auto simp: tool_send_message_tool_def Let_def case_prod_beta quiet_send_message split: option.splits)

lemma quiet_lease_tools:
  "quiet_res s (tool_lease_begin i req s)" "quiet s (snd (tool_lease_commit i req s))" "quiet s (snd (tool_lease_abort i req s))"
proof -
  show "quiet_res s (tool_lease_begin i req s)"
    unfolding tool_lease_begin_def
    by (auto intro!: quiet_res_Some quiet_res_bind [OF quiet_lease_begin] split: option.splits sum.splits)
  show "quiet s (snd (tool_lease_commit i req s))"
    by (auto simp: tool_lease_commit_def Let_def case_prod_beta quiet_lease_end split: option.splits)
  show "quiet s (snd (tool_lease_abort i req s))"
    by (auto simp: tool_lease_abort_def Let_def case_prod_beta quiet_lease_end split: option.splits)
qed

lemmas quiet_tools = quiet_pairI [OF quiet_simple_tools(1)] quiet_pairI [OF quiet_simple_tools(2)]
  quiet_pairI [OF quiet_simple_tools(3)] quiet_pairI [OF quiet_workflow_metrics] quiet_pairI [OF quiet_read_context]
  quiet_pairI [OF quiet_send_tool] quiet_pairI [OF quiet_lease_tools(2)] quiet_pairI [OF quiet_lease_tools(3)]
  quiet_lease_tools(1) quiet_tool_read_file quiet_tool_patch_file quiet_tool_run_rule_test quiet_tool_diff_file
  quiet_set_attr quiet_get_attr quiet_del_attr quiet_query_file

lemma quiet_builtin: "run_builtin i req s = Inl m \<Longrightarrow> quiet_res s m"
  unfolding run_builtin_def Let_def by (auto split: if_splits intro: quiet_tools)

lemma quiet_push_node: "quiet_res s (push_node_of i node s)"
proof -
  have "quiet s (upd_proc i (\<lambda>_. p) s)" if "agent_context_push_node now node (pr s i) = Some (r, n, p)" for now r n p
    by (rule quiet_upd_procs) (rule keeps_push_node [OF that])
  then show ?thesis by (auto simp: push_node_of_def quiet_res_def)
qed

lemma quiet_loop_state: "quiet s (upd_proc i (\<lambda>p. p\<lparr>loop_state := l\<rparr>) s)"
  by (rule quiet_upd_proc) (simp add: keeps_defs digest_wf_def)

lemma quiet_tool_finish: "quiet_res s (tool_call_finish i req resp s)"
proof (cases "alloc_pages 1 s")
  case None
  then show ?thesis by (simp add: tool_call_finish_def quiet_res_Some quiet_loop_state)
next
  case (Some a)
  then have "quiet s (snd a)" using quiet_alloc_pages [of 1 s "fst a" "snd a"] by simp
  then have "quiet_res s (push_node_of i node (snd a))" for node by (rule quiet_res_trans [OF _ quiet_push_node])
  then show ?thesis
    unfolding tool_call_finish_def Some option.case case_prod_beta [of _ a]
    by (rule quiet_res_map) (simp add: case_prod_beta quiet_trans [OF quiet_free_pages quiet_loop_state])
qed

text \<open>The state a tool call is left in.\<close>

fun call_kst :: "tool_call_state \<Rightarrow> kst" where
  "call_kst (Called resp st s) = s"
| "call_kst (Waiting n rid s) = s"

lemma quiet_call_done:
  assumes "quiet s t" "tool_call_done i req resp t = Some c"
  shows "quiet s (call_kst c)"
  using assms quiet_res_trans [OF assms(1) quiet_tool_finish] by (auto simp: tool_call_done_def quiet_res_def)

lemma quiet_dynamic_begin:
  "case dynamic_call_begin i req s of Inl (resp, t) \<Rightarrow> quiet s t | Inr (n, rid, t) \<Rightarrow> quiet s t"
proof -
  have "quiet s (wakeup i ChanRequests (upd_request n f (s\<lparr>ks_next_request_id := k\<rparr>)))" for n f k
    by (rule quiet_trans [OF _ quiet_wakeup]) (simp add: quiet_same upd_request_def)
  then show ?thesis
    by (auto simp: dynamic_call_begin_def Let_def quiet_audit split: option.splits)
qed

lemma quiet_tool_call:
  assumes "agent_tool_call_begin i req s = Some c"
  shows "quiet s (call_kst c)"
proof (cases "agent_type (pr s i) = AGENT_TYPE_NORMAL")
  case True
  with assms show ?thesis by (auto simp: agent_tool_call_begin_def)
next
  case False
  define s2 where "s2 = (if streq (rq_tool req) ''get_workflow_metrics'' then upd_proc i clear_pending_dep s
      else agent_workflow_metric_tool_call (streq (rq_tool req) ''query_file'') i (upd_proc i clear_pending_dep s))"
  let ?s3 = "upd_proc i (\<lambda>p. p\<lparr>loop_state := AGENT_LOOP_RUNNING\<rparr>) s2"
  have "quiet s (upd_proc i clear_pending_dep s)"
    by (rule quiet_upd_proc) (simp add: clear_pending_dep_def keeps_defs digest_wf_def)
  then have 2: "quiet s s2" using quiet_trans [OF _ quiet_metric(3)] by (simp add: s2_def)
  note 3 = quiet_trans [OF 2 quiet_loop_state]
  show ?thesis
  proof (cases "agent_check_tool_permission i (rq_tool req) s2")
    case False
    with assms \<open>agent_type (pr s i) \<noteq> AGENT_TYPE_NORMAL\<close> show ?thesis
      by (auto simp: agent_tool_call_begin_def s2_def [symmetric] Let_def intro: quiet_trans [OF 2 quiet_audit])
  next
    case True
    have c: "(case run_builtin i req ?s3 of Inl None \<Rightarrow> None | Inl (Some (resp, s4)) \<Rightarrow> tool_call_done i req resp s4
        | Inr () \<Rightarrow> (case dynamic_call_begin i req ?s3 of
            Inl (resp, s4) \<Rightarrow> tool_call_done i req resp s4 | Inr (n, rid, s4) \<Rightarrow> Some (Waiting n rid s4))) = Some c"
      using assms False True by (simp add: agent_tool_call_begin_def s2_def [symmetric] Let_def)
    show ?thesis
    proof (cases "run_builtin i req ?s3")
      case (Inl m)
      show ?thesis
      proof (cases m)
        case None
        with c Inl show ?thesis by simp
      next
        case (Some x)
        have "quiet s (snd x)" using quiet_trans [OF 3 quiet_resD [OF quiet_builtin [OF Inl], of "fst x"]] Some by simp
        moreover have "tool_call_done i req (fst x) (snd x) = Some c" using c Inl Some by (simp add: case_prod_beta)
        ultimately show ?thesis by (rule quiet_call_done)
      qed
    next
      case (Inr u)
      note d = quiet_dynamic_begin [where i = i and req = req and s = ?s3]
      show ?thesis
      proof (cases "dynamic_call_begin i req ?s3")
        case (Inl x)
        have "quiet s (snd x)" using quiet_trans [OF 3] d Inl by (simp add: case_prod_beta)
        moreover have "tool_call_done i req (fst x) (snd x) = Some c" using c Inr Inl by (auto simp: case_prod_beta split: unit.splits)
        ultimately show ?thesis by (rule quiet_call_done)
      next
        case w: (Inr x)
        obtain n rid t where x: "x = (n, rid, t)" by (cases x) auto
        have "c = Waiting n rid t" using c Inr w x by (simp split: unit.splits)
        moreover have "quiet ?s3 t" using d w x by simp
        ultimately show ?thesis using quiet_trans [OF 3] by simp
      qed
    qed
  qed
qed

end
