(* ===== verification/QuietCalls.thy ===== *)
theory QuietCalls
  imports QuietTools
begin

text \<open>
  The remaining quiet calls: waiting and the scheduler, dynamic tools, open files, pipes, mapped areas, growing
  memory and \<open>exec\<close>. A call that puts its caller to sleep is quiet when the caller is alive.
\<close>

subsection \<open>Waiting and scheduling\<close>

lemma quiet_wait_return:
  assumes k: "i < length (ks_procs s) \<Longrightarrow> keeps (pr s i) (f (pr s i))"
  shows "quiet s (snd (wait_return i st ue msg f ev r s))"
proof -
  let ?s1 = "upd_proc i (\<lambda>p. f p\<lparr>wait_generation := wait_generation p + 1\<rparr>) s"
  let ?s2 = "agent_workflow_metric_wait (agent_now_safe ?s1 - st) msg i ?s1"
  have 1: "quiet s ?s1"
    by (rule quiet_upd_proc, rule keeps_trans [OF k]) (simp_all add: keeps_defs digest_wf_def)
  have 2: "quiet s ?s2" by (rule quiet_trans [OF 1 quiet_metric(4)])
  have 3: "quiet s (snd (copyout_proc i ue (event_bytes ev) ?s2))" by (rule quiet_trans [OF 2 quiet_copyout])
  show ?thesis
    unfolding wait_return_def Let_def
    using 2 3 by (cases "copyout_proc i ue (event_bytes ev) ?s2"; cases "fst (copyout_proc i ue (event_bytes ev) ?s2)") auto
qed

lemma quiet_wait_returnD:
  "wait_return i st ue msg f ev r s = (q, t) \<Longrightarrow> keeps (pr s i) (f (pr s i)) \<Longrightarrow> quiet s t"
  using quiet_wait_return [of i s f st ue msg ev r] by simp

lemma keeps_take_message: "0 < mb_count (mailbox p) \<Longrightarrow> keeps p (take_message p)"
  using mailbox_inv_dequeue [of "mailbox p"]
  by (simp add: take_message_def Let_def keeps_defs digest_wf_def)

lemma keeps_event_done: "keeps p (p\<lparr>pending_events := e, last_wakeup_reason := r, loop_state := l\<rparr>)"
  "keeps p (p\<lparr>loop_state := l\<rparr>)"
  by (simp_all add: keeps_defs digest_wf_def)

lemma quiet_wait_iter:
  assumes "\<not> dead (pr s i)"
  shows "case wait_iter i st ue s of Inl (r, t) \<Rightarrow> quiet s t | Inr t \<Rightarrow> quiet s t"
proof (cases "wait_idle (agent_now_safe s) (pr s i)")
  case True
  then have "wait_iter i st ue s = Inr (upd_proc i (\<lambda>p. p\<lparr>p_chan := ChanProc i, p_state := SLEEPING\<rparr>) s)"
    by (simp add: wait_iter_idle)
  moreover have "quiet s (upd_proc i (\<lambda>p. p\<lparr>p_chan := ChanProc i, p_state := SLEEPING\<rparr>) s)"
    using quiet_sleep_on [OF assms] by (simp add: sleep_on_def)
  ultimately show ?thesis by simp
next
  case False
  obtain r t where w: "wait_iter i st ue s = Inl (r, t)" using wait_iter_busy [OF False] by blast
  then have "quiet s t"
    unfolding wait_iter_def Let_def
    by (auto split: if_splits intro: quiet_wait_returnD keeps_event_done keeps_take_message)
  with w show ?thesis by simp
qed

lemma quiet_scheduler_pick: "quiet s (snd (scheduler_pick now s))"
proof -
  have score: "keeps p (snd (agent_schedule_score now p))" for p
    by (simp add: agent_schedule_score_def Let_def keeps_defs digest_wf_def)
  have step: "quiet (snd b) (snd (sched_step now i b))" for i b
    using quiet_upd_procs [of i "snd b", OF score] by (cases b) (auto simp: sched_step_def Let_def split: prod.splits option.splits)
  have "quiet (snd b) (snd (fold (sched_step now) xs b))" for xs b
  proof (induction xs arbitrary: b)
    case Nil
    then show ?case by simp
  next
    case (Cons x xs)
    show ?case using quiet_trans [OF step [of b x] Cons.IH [of "sched_step now x b"]] by simp
  qed
  from this [of "(None, s)"] show ?thesis by (simp add: scheduler_pick_def)
qed

lemma quiet_scheduler_run: "\<not> dead (pr s i) \<Longrightarrow> quiet s (scheduler_run i s)"
  unfolding scheduler_run_def by (rule quiet_upd_proc) (simp add: keeps_defs digest_wf_def dead_def)

lemma quiet_yield: "\<not> dead (pr s i) \<Longrightarrow> quiet s (yield i s)"
  unfolding yield_def by (rule quiet_upd_proc) (simp add: keeps_defs digest_wf_def dead_def)

lemma quiet_sched_account: "quiet s (upd_proc i (sched_account now) s)"
  by (rule quiet_upd_proc) (simp add: sched_account_def Let_def keeps_defs digest_wf_def)

subsection \<open>Dynamic tools\<close>

lemma quiet_register: "quiet s (snd (agent_tool_register i name flags s))"
  by (auto simp: agent_tool_register_def Let_def intro: quiet_same split: option.splits)

lemma quiet_clear_request: "quiet s (wakeup i c (upd_request n f s))"
  by (rule quiet_trans [OF quiet_upd_request quiet_wakeup])

lemma quiet_tool_check:
  assumes "\<not> dead (pr s i)" "agent_tool_call_check i req n rid s = Some c"
  shows "quiet s (call_kst c)"
proof (cases "dynamic_call_check i n rid s")
  case (Inl x)
  then have "quiet s (snd x)"
    using quiet_clear_request by (auto simp: dynamic_call_check_def Let_def split: if_splits)
  moreover have "tool_call_done i req (fst x) (snd x) = Some c"
    using assms(2) Inl by (simp add: agent_tool_call_check_def case_prod_beta)
  ultimately show ?thesis by (rule quiet_call_done)
next
  case (Inr t)
  then have "quiet s t" using quiet_sleep_on [OF assms(1)] by (auto simp: dynamic_call_check_def Let_def split: if_splits)
  with assms(2) Inr show ?thesis by (auto simp: agent_tool_call_check_def)
qed

lemma quiet_recv:
  assumes "\<not> dead (pr s i)"
  shows "case recv_check i s of Inl (r, t) \<Rightarrow> quiet s t | Inr t \<Rightarrow> quiet s t"
  using quiet_sleep_on [OF assms] quiet_upd_request by (auto simp: recv_check_def split: option.splits)

lemma quiet_reply: "quiet s (snd (agent_tool_reply i rid res st s))"
  by (auto simp: agent_tool_reply_def quiet_clear_request split: option.splits)

subsection \<open>Open files and areas\<close>

lemma quiet_upd_file: "quiet s (upd_file k f s)" "quiet s (set_pipe pa p s)" "quiet s (upd_vma v g s)"
  by (simp_all add: upd_file_def set_pipe_def upd_vma_def)

lemma quiet_filealloc: "quiet s (snd (filealloc s))"
  by (auto simp: filealloc_def quiet_upd_file split: option.splits)

lemma quiet_filedup: "quiet_opt s (filedup k s)"
  by (auto simp: filedup_def quiet_upd_file intro!: quiet_opt_Some)

lemma quiet_pipeclose: "quiet_opt s (pipeclose i pa wr s)"
proof -
  have 1: "quiet s (wakeup i c (set_pipe pa p s))" for c p by (rule quiet_trans [OF quiet_upd_file(2) quiet_wakeup])
  have 2: "quiet s ((set_pipe pa q t)\<lparr>ks_freelist := fl\<rparr>)" if "quiet s t" for q t fl
    by (rule quiet_trans [OF quiet_trans [OF that quiet_upd_file(2)] quiet_fields(1)])
  show ?thesis
  proof (cases "ks_pipes s pa")
    case None
    then show ?thesis by (simp add: pipeclose_def quiet_opt_None)
  next
    case (Some p)
    show ?thesis unfolding pipeclose_def Some option.case Let_def by (intro quiet_opt_Some) (simp add: 1 2)
  qed
qed

lemma quiet_fileclose: "quiet_opt s (fileclose i k s)"
proof -
  let ?s1 = "upd_file k (\<lambda>f. f\<lparr>fl_ref := fl_ref f - 1\<rparr>) s"
  let ?s2 = "upd_file k (\<lambda>f. f\<lparr>fl_ref := 0, fl_type := FD_NONE\<rparr>) ?s1"
  have 2: "quiet s ?s2" by (rule quiet_trans [OF quiet_upd_file(1) quiet_upd_file(1)])
  have "quiet_opt s (case t of FD_PIPE \<Rightarrow> pipeclose i pa wr ?s2 | FD_INODE \<Rightarrow> on_fs f ?s2 | FD_DEVICE \<Rightarrow> on_fs f ?s2 | FD_NONE \<Rightarrow> Some ?s2)"
    for t pa wr f
    using quiet_opt_trans [OF 2 quiet_pipeclose] quiet_opt_trans [OF 2 quiet_on_fs] quiet_opt_Some [OF 2] by (cases t) simp_all
  then show ?thesis
    unfolding fileclose_def Let_def by (auto simp: quiet_upd_file intro!: quiet_opt_Some)
qed

lemma quiet_set_fd: "quiet s (set_fd i fd f s)"
  unfolding set_fd_def by (rule quiet_upd_proc) (simp add: keeps_defs digest_wf_def)

lemma quiet_fdalloc: "quiet s (snd (fdalloc i f s))"
  by (auto simp: fdalloc_def quiet_set_fd split: option.splits)

lemma quiet_unmap: "quiet_opt s (unmap_pages i addr n s)"
proof -
  have "quiet s (upd_proc i (\<lambda>p. p\<lparr>p_pagetable := pt\<rparr>) (s\<lparr>ks_freelist := fl\<rparr>))" for pt fl
    by (rule quiet_trans [OF quiet_fields(1) quiet_upd_proc]) (simp add: keeps_defs digest_wf_def)
  then show ?thesis
    unfolding unmap_pages_def by (auto intro!: quiet_opt_bind_any quiet_opt_Some split: prod.splits)
qed

lemma quiet_writeback_loop: "quiet_res s (writeback_loop i ip addr off n k s)"
proof (induction "n - k" arbitrary: k s rule: less_induct)
  case less
  have later: "quiet_res t (writeback_loop i ip addr off n (k + nat r) t)" if "k < n" "0 < r" for r :: int and t
    using that by (intro less) auto
  have body: "quiet_res t (do { s2 \<leftarrow> on_fs h (t\<lparr>ks_fs := fs\<rparr>);
      if r \<le> 0 then Some (k, s2) else writeback_loop i ip addr off n (k + nat r) s2 })" if "k < n" for t h fs and r :: int
    by (rule quiet_res_fs [where fs = fs], rule quiet_res_bind_opt [OF quiet_on_fs])
      (auto intro!: quiet_res_Some later that)
  show ?case
  proof (cases "k < n")
    case False
    then show ?thesis by (subst writeback_loop.simps) (simp add: quiet_res_Some)
  next
    case True
    have "quiet_res s (do { s1 \<leftarrow> on_fs (ilock ip) s;
        (r, fs) \<leftarrow> writei_user ip (addr + of_nat k) (ucast (off + of_nat k)) (of_nat (min (n - k) 3072)) (p_pagetable (pr s1 i)) (ks_fs s1);
        s2 \<leftarrow> on_fs (iunlock ip) (s1\<lparr>ks_fs := fs\<rparr>);
        if r \<le> 0 then Some (k, s2) else writeback_loop i ip addr off n (k + nat r) s2 })"
      by (rule quiet_res_bind_opt [OF quiet_on_fs], rule quiet_res_bind_any) (simp add: case_prod_beta body True)
    then show ?thesis
      using True by (subst writeback_loop.simps) (simp add: case_option_bind case_prod_beta)
  qed
qed

lemma quiet_writeback: "quiet_opt s (writeback i w addr n s)"
  unfolding writeback_def Let_def
  by (auto intro!: quiet_opt_Some quiet_opt_bind_res [OF quiet_writeback_loop] quiet_notify)

lemma quiet_exit_vmas: "quiet_opt s (exit_vmas fuel i v s)"
proof (induction fuel arbitrary: v s)
  case 0
  then show ?case by (simp add: quiet_opt_None)
next
  case (Suc fuel)
  have "quiet_opt s (do { s1 \<leftarrow> writeback i w (f s) (g s) s; s2 \<leftarrow> unmap_pages i (h s1) (k s1) s1; s3 \<leftarrow> fileclose i (l s2) s2;
      exit_vmas fuel i (m s3) (upd_vma w u s3) })" for w f g h k l m u
    by (intro quiet_opt_bind quiet_writeback quiet_unmap quiet_fileclose quiet_opt_trans [OF quiet_upd_file(3) Suc.IH])
  then show ?case by (cases v) (simp_all add: quiet_opt_Some case_option_bind)
qed

lemma quiet_close_files: "quiet_opt s (close_files i fds s)"
proof (induction fds arbitrary: s)
  case Nil
  then show ?case by (simp add: quiet_opt_Some)
next
  case (Cons fd fds)
  have "quiet_opt s (do { s1 \<leftarrow> fileclose i f s; close_files i fds (set_fd i fd None s1) })" for f
    by (intro quiet_opt_bind quiet_fileclose quiet_opt_trans [OF quiet_set_fd Cons.IH])
  then show ?case by (auto simp: case_option_bind Cons.IH split: option.splits)
qed

lemma quiet_dup_files: "quiet_opt s (dup_files fs s)"
proof (induction fs arbitrary: s)
  case Nil
  then show ?case by (simp add: quiet_opt_Some)
next
  case (Cons f fs)
  have "quiet_opt s (do { s1 \<leftarrow> filedup k s; dup_files fs s1 })" for k
    by (intro quiet_opt_bind quiet_filedup Cons.IH)
  then show ?case by (cases f) (simp_all add: case_option_bind Cons.IH)
qed

lemma quiet_copy_vmas: "quiet_opt s (copy_vmas fuel d src pre s)"
proof (induction fuel arbitrary: src pre s)
  case 0
  then show ?case by (simp add: quiet_opt_None)
next
  case (Suc fuel)
  have first: "quiet t (upd_proc d (\<lambda>p. p\<lparr>p_vma := Some v\<rparr>) t)" for v t
    by (rule quiet_upd_proc) (simp add: keeps_defs digest_wf_def)
  have rest: "quiet_opt t (let s2 = (case pre of None \<Rightarrow> upd_proc d (\<lambda>p. p\<lparr>p_vma := Some v\<rparr>) t
        | Some b \<Rightarrow> upd_vma b (\<lambda>a. a\<lparr>vm_next := Some v\<rparr>) t)
      in copy_vmas fuel d (vm_next (vma_of s2 w)) (Some v) s2)" for t v w
    unfolding Let_def
    by (rule quiet_opt_trans [OF _ Suc.IH]) (simp add: first quiet_upd_file split: option.splits)
  have one: "quiet_opt s (do { s1 \<leftarrow> filedup k (upd_vma v g s); (let s2 = (case pre of None \<Rightarrow> upd_proc d (\<lambda>p. p\<lparr>p_vma := Some v\<rparr>) s1
        | Some b \<Rightarrow> upd_vma b (\<lambda>a. a\<lparr>vm_next := Some v\<rparr>) s1)
      in copy_vmas fuel d (vm_next (vma_of s2 w)) (Some v) s2) })" for k v g w
    by (rule quiet_opt_bind [OF quiet_opt_trans [OF quiet_upd_file(3) quiet_filedup] rest])
  show ?case by (cases src; cases "vma_alloc s") (simp_all add: quiet_opt_Some quiet_opt_None case_option_bind one)
qed

lemma quiet_with_cwd: "quiet_res s (with_cwd i f s)"
  by (auto simp: with_cwd_def quiet_res_def split: option.splits)

lemma quiet_sys_dup: "quiet_res s (sys_dup i fd s)"
proof (cases "argfd i fd s")
  case None
  then show ?thesis by (simp add: sys_dup_def quiet_res_Some)
next
  case (Some f)
  obtain r t where f: "fdalloc i f s = (r, t)" by force
  have q: "quiet s t" using quiet_fdalloc [of s i f] f by simp
  have "quiet_res s (do { s2 \<leftarrow> filedup f t; Some (n, s2) })" for n :: int
    by (rule quiet_res_trans [OF q], rule quiet_res_bind_opt [OF quiet_filedup]) (simp add: quiet_res_Some)
  with q f Some show ?thesis by (cases r) (simp_all add: sys_dup_def quiet_res_Some)
qed

lemma quiet_sys_close: "quiet_res s (sys_close i fd s)"
proof -
  have "quiet_res s (do { s1 \<leftarrow> fileclose i f (set_fd i n None s); Some (r, s1) })" for f n and r :: int
    by (rule quiet_res_trans [OF quiet_set_fd], rule quiet_res_bind_opt [OF quiet_fileclose]) (simp add: quiet_res_Some)
  then show ?thesis unfolding sys_close_def by (auto simp: quiet_res_Some split: option.splits)
qed

lemma quiet_sys_link: "quiet_res s (sys_link i a b s)"
  unfolding sys_link_def by (auto simp: quiet_res_Some quiet_with_cwd split: option.splits)

lemma quiet_sys_unlink: "quiet_res s (sys_unlink i a s)"
proof -
  have "quiet_res s (do { ((r, gone), s1) \<leftarrow> with_cwd i f s;
      Some (r, case gone of None \<Rightarrow> s1 | Some (dev, inum) \<Rightarrow>
        s1\<lparr>ks_file_versions := agentfs_inode_version_remove dev inum (ks_file_versions s1)\<rparr>) })"
    for f :: "nat \<Rightarrow> fsk \<Rightarrow> ((int \<times> (u32 \<times> u32) option) \<times> fsk) option"
    by (rule quiet_res_bind [OF quiet_with_cwd]) (auto intro!: quiet_res_Some split: option.splits)
  then show ?thesis unfolding sys_unlink_def by (auto simp: quiet_res_Some split: option.splits)
qed

lemma quiet_make_node: "quiet_res s (make_node i a ty mj mn s)"
proof -
  have "quiet_res s (do { (r, s1) \<leftarrow> with_cwd i f s;
      (case r of None \<Rightarrow> Some (-1, s1) | Some ip \<Rightarrow> do { s2 \<leftarrow> on_fs (iunlockput ip) s1; Some (0, s2) }) })"
    for f :: "nat \<Rightarrow> fsk \<Rightarrow> (nat option \<times> fsk) option"
    by (rule quiet_res_bind [OF quiet_with_cwd])
      (auto intro!: quiet_res_Some quiet_res_bind_opt [OF quiet_on_fs] split: option.splits)
  then show ?thesis unfolding make_node_def by (auto simp: quiet_res_Some split: option.splits)
qed

lemma quiet_sys_chdir: "quiet_res s (sys_chdir i a s)"
proof -
  have cwd: "quiet t (upd_proc i (\<lambda>p. p\<lparr>p_cwd := c\<rparr>) t)" for t c
    by (rule quiet_upd_proc) (simp add: keeps_defs digest_wf_def)
  have ok: "quiet_res t (do { s3 \<leftarrow> on_fs f t; c \<leftarrow> p_cwd (pr s3 i); s4 \<leftarrow> on_fs (iput c) s3; Some (0, upd_proc i (\<lambda>p. p\<lparr>p_cwd := d\<rparr>) s4) })"
    for t f d
    by (intro quiet_res_bind_opt [OF quiet_on_fs] quiet_res_bind_any [where m = "p_cwd _"] quiet_res_Some cwd)
  have dir: "quiet_res t (do { s2 \<leftarrow> on_fs g t;
      if b s2 then do { s3 \<leftarrow> on_fs f s2; Some (-1, s3) }
      else do { s3 \<leftarrow> on_fs h s2; c \<leftarrow> p_cwd (pr s3 i); s4 \<leftarrow> on_fs (iput c) s3; Some (0, upd_proc i (\<lambda>p. p\<lparr>p_cwd := d\<rparr>) s4) } })"
    for t g b f h d
    by (intro quiet_res_bind_opt [OF quiet_on_fs] quiet_res_if quiet_res_Some quiet_refl ok)
  show ?thesis
    unfolding sys_chdir_def
    by (auto intro!: quiet_res_Some quiet_res_bind [OF quiet_namei] dir split: option.splits)
qed

lemma quiet_sys_open: "quiet_res s (sys_open i a m s)"
proof -
  have put: "quiet_res t (do { s2 \<leftarrow> on_fs f t; Some (r, s2) })" for t f and r :: int
    by (intro quiet_res_bind_opt [OF quiet_on_fs] quiet_res_Some quiet_refl)
  have shut: "quiet_res t (do { s4 \<leftarrow> fileclose i k t; s5 \<leftarrow> on_fs f s4; Some (r, s5) })" for t f k and r :: int
    by (intro quiet_res_bind_opt [OF quiet_fileclose] put)
  have opened: "quiet_res t (do { let s4 = upd_file k g t; s5 \<leftarrow> (if b s4 then on_fs f s4 else Some s4); s6 \<leftarrow> on_fs h s5; Some (r, s6) })"
    for t k g b f h and r :: int
  proof -
    have "quiet_opt (upd_file k g t) (if b (upd_file k g t) then on_fs f (upd_file k g t) else Some (upd_file k g t))"
      by (intro quiet_opt_if quiet_on_fs quiet_opt_Some quiet_refl)
    from quiet_res_bind_opt [OF this put] show ?thesis
      unfolding Let_def by (rule quiet_res_trans [OF quiet_upd_file(1)])
  qed
  have files: "quiet_res t (case filealloc t of
        (None, s2) \<Rightarrow> do { s3 \<leftarrow> on_fs f s2; Some (-1, s3) }
      | (Some k, s2) \<Rightarrow> (case fdalloc i k s2 of
            (None, s3) \<Rightarrow> do { s4 \<leftarrow> fileclose i k s3; s5 \<leftarrow> on_fs f s4; Some (-1, s5) }
          | (Some fd, s3) \<Rightarrow> do { let s4 = upd_file k (g s3) s3; s5 \<leftarrow> (if b s4 then on_fs c s4 else Some s4); s6 \<leftarrow> on_fs h s5; Some (int fd, s6) }))"
    for t f g b c h
  proof -
    obtain r t1 where 1: "filealloc t = (r, t1)" by force
    have q1: "quiet t t1" using quiet_filealloc [of t] 1 by simp
    show ?thesis
    proof (cases r)
      case None
      with 1 quiet_res_trans [OF q1 put] show ?thesis by simp
    next
      case (Some k)
      obtain fd t2 where 2: "fdalloc i k t1 = (fd, t2)" by force
      have q2: "quiet t t2" using quiet_trans [OF q1 quiet_fdalloc [of t1 i k]] 2 by simp
      show ?thesis
        using 1 2 Some quiet_res_trans [OF q2 shut] quiet_res_trans [OF q2 opened] by (cases fd) simp_all
    qed
  qed
  have body: "quiet_res s (do { (r, s1) \<leftarrow> with_cwd i f s;
      (case r of None \<Rightarrow> Some (-1, s1)
       | Some ip \<Rightarrow> if b ip s1 then do { s2 \<leftarrow> on_fs (iunlockput ip) s1; Some (-1, s2) }
           else (case filealloc s1 of
              (None, s2) \<Rightarrow> do { s3 \<leftarrow> on_fs (iunlockput ip) s2; Some (-1, s3) }
            | (Some k, s2) \<Rightarrow> (case fdalloc i k s2 of
                  (None, s3) \<Rightarrow> do { s4 \<leftarrow> fileclose i k s3; s5 \<leftarrow> on_fs (iunlockput ip) s4; Some (-1, s5) }
                | (Some fd, s3) \<Rightarrow> do { let s4 = upd_file k (g ip s3) s3; s5 \<leftarrow> (if c ip s4 then on_fs (itrunc ip) s4 else Some s4);
                    s6 \<leftarrow> on_fs (iunlock ip) s5; Some (int fd, s6) }))) })"
    for b g c and f :: "nat \<Rightarrow> fsk \<Rightarrow> (nat option \<times> fsk) option"
    by (rule quiet_res_bind [OF quiet_with_cwd], simp only: prod.case, intro quiet_res_option quiet_res_if quiet_res_Some quiet_refl put files)
  show ?thesis
  proof (cases "fetchstr i a MAXPATH s")
    case None
    then show ?thesis by (simp add: sys_open_def quiet_res_Some)
  next
    case (Some path)
    show ?thesis unfolding sys_open_def Some option.case by (rule body)
  qed
qed

subsection \<open>Pipes\<close>

text \<open>What a call that may sleep leaves behind.\<close>

lemma quiet_pipewrite:
  assumes "pipewrite i pa addr n k s = Some r" "\<not> dead (pr s i)" "i < length (ks_procs s)"
  shows "quiet s (case r of Inl (_, t) \<Rightarrow> t | Inr (_, t) \<Rightarrow> t)"
  using assms
proof (induction "n - k" arbitrary: k s rule: less_induct)
  case less
  obtain p where p: "ks_pipes s pa = Some p"
    using less.prems by (cases "ks_pipes s pa") (simp_all add: pipewrite.simps)
  show ?case
  proof (cases "k < n \<and> \<not> (\<not> pi_readopen p \<or> p_killed (pr s i)) \<and> \<not> pipe_full p \<and> copyin_proc i (addr + of_nat k) 1 s \<noteq> None")
    case True
    then obtain bs where bs: "copyin_proc i (addr + of_nat k) 1 s = Some bs" by auto
    let ?t = "set_pipe pa (Some (pipe_put (hd0 bs) p)) s"
    have "pipewrite i pa addr n (k + 1) ?t = Some r"
      using less.prems(1) p True bs by (subst (asm) pipewrite.simps) simp
    moreover have "\<not> dead (pr ?t i)" "i < length (ks_procs ?t)" using less.prems(2,3) by (simp_all add: set_pipe_def)
    ultimately have "quiet ?t (case r of Inl (_, t) \<Rightarrow> t | Inr (_, t) \<Rightarrow> t)" using True by (intro less.hyps) auto
    then show ?thesis by (rule quiet_trans [OF quiet_upd_file(2)])
  next
    case False
    have alive: "\<not> dead (pr (wakeup i c s) i)" for c
      using less.prems(2,3) by (simp add: pr_wakeup dead_def)
    have "quiet s (sleep_on i d (wakeup i c s))" for c d
      by (rule quiet_trans [OF quiet_wakeup quiet_sleep_on [OF alive]])
    with less.prems(1) p False quiet_wakeup show ?thesis
      by (subst (asm) pipewrite.simps) (auto split: if_splits option.splits)
  qed
qed

lemma quiet_piperead_copy: "quiet_res s (piperead_copy i pa addr n k s)"
proof (induction "n - k" arbitrary: k s rule: less_induct)
  case less
  show ?case
  proof (cases "ks_pipes s pa")
    case None
    then show ?thesis by (subst piperead_copy.simps) (simp add: quiet_res_None)
  next
    case (Some p)
    obtain c p1 where c: "pipe_get p = (c, p1)" by force
    obtain ok t where t: "copyout_proc i (addr + of_nat k) [c] (set_pipe pa (Some p1) s) = (ok, t)" by force
    have "quiet s (snd (copyout_proc i (addr + of_nat k) [c] (set_pipe pa (Some p1) s)))"
      by (rule quiet_trans [OF quiet_upd_file(2) quiet_copyout])
    then have q: "quiet s t" using t by simp
    show ?thesis
    proof (cases "k < n \<and> \<not> pipe_empty p")
      case False
      then have "piperead_copy i pa addr n k s = Some (k, s)" using Some by (subst piperead_copy.simps) auto
      then show ?thesis by (simp add: quiet_res_Some)
    next
      case True
      then have "quiet_res t (piperead_copy i pa addr n (k + 1) t)" by (intro less) auto
      from quiet_res_trans [OF q this] show ?thesis
        using Some True c t q by (subst piperead_copy.simps) (auto simp: quiet_res_Some split: bool.splits)
    qed
  qed
qed

lemma quiet_piperead:
  assumes "piperead i pa addr n s = Some r" "\<not> dead (pr s i)"
  shows "quiet s (case r of Inl (_, t) \<Rightarrow> t | Inr t \<Rightarrow> t)"
proof -
  have "quiet s (wakeup i c t)" if "piperead_copy i pa addr n 0 s = Some (k, t)" for c t k
    by (rule quiet_trans [OF quiet_resD [OF quiet_piperead_copy that] quiet_wakeup])
  with assms quiet_sleep_on [OF assms(2)] show ?thesis
    by (auto simp: piperead_def bind_eq_Some_conv split: option.splits if_splits)
qed

lemma quiet_pipealloc: "quiet_res s (pipealloc i s)"
proof -
  obtain a s1 where 1: "filealloc s = (a, s1)" by force
  obtain b s2 where 2: "filealloc s1 = (b, s2)" by force
  have q1: "quiet s s1" using quiet_filealloc [of s] 1 by simp
  have q2: "quiet s s2" using quiet_trans [OF q1] quiet_filealloc [of s1] 2 by simp
  have close1: "quiet_res s (do { s3 \<leftarrow> fileclose i f s2; Some (None, s3) })" for f
    by (rule quiet_res_trans [OF q2], rule quiet_res_bind_opt [OF quiet_fileclose]) (simp add: quiet_res_Some)
  have close2: "quiet_res s (do { s3 \<leftarrow> fileclose i f s2; s4 \<leftarrow> fileclose i g s3; Some (None, s4) })" for f g
    by (rule quiet_res_trans [OF q2], rule quiet_res_bind_opt [OF quiet_fileclose], rule quiet_res_bind_opt [OF quiet_fileclose])
      (simp add: quiet_res_Some)
  have ok: "quiet s (upd_file f u (upd_file g v (set_pipe pa p (s2\<lparr>ks_freelist := fl\<rparr>))))" for f u g v pa p fl
    by (rule quiet_trans [OF q2], rule quiet_trans [OF quiet_fields(1)], rule quiet_trans [OF quiet_upd_file(2)],
        rule quiet_trans [OF quiet_upd_file(1) quiet_upd_file(1)])
  show ?thesis
  proof (cases "kalloc (ks_freelist s2)")
    case (Pair pa fl)
    then show ?thesis
      using 1 2 q1 close1 close2 ok
      by (cases a; cases b; cases pa) (simp_all add: pipealloc_def quiet_res_Some Let_def)
  qed
qed

lemma quiet_sys_pipe: "quiet_res s (sys_pipe i a s)"
proof -
  have close: "quiet_res t (do { t1 \<leftarrow> fileclose i f t; t2 \<leftarrow> fileclose i g t1; Some (-1, t2) })" for t f g
    by (rule quiet_res_bind_opt [OF quiet_fileclose], rule quiet_res_bind_opt [OF quiet_fileclose]) (simp add: quiet_res_Some)
  have out: "quiet_res t (let (ok0, s4) = copyout_proc i a x t;
       (ok1, s5) = (if ok0 then copyout_proc i b y s4 else (False, s4))
     in if ok1 then Some (0, s5)
        else do { t1 \<leftarrow> fileclose i f (set_fd i m None (set_fd i n None s5)); t2 \<leftarrow> fileclose i g t1; Some (-1, t2) })"
    for t x b y f g m n
  proof -
    obtain ok0 s4 where 1: "copyout_proc i a x t = (ok0, s4)" by force
    obtain ok1 s5 where 2: "(if ok0 then copyout_proc i b y s4 else (False, s4)) = (ok1, s5)" by force
    have q4: "quiet t s4" using quiet_copyout [of t i a x] 1 by simp
    have q5: "quiet t s5"
      using 2 quiet_trans [OF q4] quiet_copyout [of s4 i b y] q4 by (cases ok0) auto
    have "quiet t (set_fd i m None (set_fd i n None s5))"
      by (rule quiet_trans [OF quiet_trans [OF q5 quiet_set_fd] quiet_set_fd])
    from quiet_res_trans [OF this close] show ?thesis using 1 2 q5 by (auto simp: quiet_res_Some)
  qed
  have fds: "quiet_res t (case fdalloc i rd t of
        (None, s2) \<Rightarrow> do { t1 \<leftarrow> fileclose i rd s2; t2 \<leftarrow> fileclose i wt t1; Some (-1, t2) }
      | (Some fd0, s2) \<Rightarrow> (case fdalloc i wt s2 of
            (None, s3) \<Rightarrow> do { t1 \<leftarrow> fileclose i rd (set_fd i fd0 None s3); t2 \<leftarrow> fileclose i wt t1; Some (-1, t2) }
          | (Some fd1, s3) \<Rightarrow>
             let (ok0, s4) = copyout_proc i a (le32 (of_nat fd0)) s3;
                 (ok1, s5) = (if ok0 then copyout_proc i (a + 4) (le32 (of_nat fd1)) s4 else (False, s4))
             in if ok1 then Some (0, s5)
                else do { t1 \<leftarrow> fileclose i rd (set_fd i fd1 None (set_fd i fd0 None s5)); t2 \<leftarrow> fileclose i wt t1; Some (-1, t2) }))"
    for t rd wt
  proof -
    obtain x t1 where 1: "fdalloc i rd t = (x, t1)" by force
    obtain y t2 where 2: "fdalloc i wt t1 = (y, t2)" by force
    have q1: "quiet t t1" using quiet_fdalloc [of t i rd] 1 by simp
    have q2: "quiet t t2" using quiet_trans [OF q1] quiet_fdalloc [of t1 i wt] 2 by simp
    have q3: "quiet t (set_fd i n None t2)" for n by (rule quiet_trans [OF q2 quiet_set_fd])
    show ?thesis
      using 1 2 quiet_res_trans [OF q1 close] quiet_res_trans [OF q3 close] quiet_res_trans [OF q2 out]
      by (cases x; cases y) simp_all
  qed
  show ?thesis
    unfolding sys_pipe_def Let_def
    by (rule quiet_res_bind [OF quiet_pipealloc]) (auto intro!: quiet_res_Some fds [unfolded Let_def] split: option.split)
qed

subsection \<open>Mapped areas and memory\<close>

lemma quiet_proc_mem: "quiet s (upd_proc i (\<lambda>p. p\<lparr>p_pagetable := pt\<rparr>) s)" "quiet s (upd_proc i (\<lambda>p. p\<lparr>p_vma := v\<rparr>) s)"
  "quiet s (upd_proc i (\<lambda>p. p\<lparr>p_sz := z\<rparr>) s)" "quiet s (upd_proc i (\<lambda>p. p\<lparr>p_pagetable := pt, p_sz := z\<rparr>) s)"
  by (rule quiet_upd_proc, simp add: keeps_defs digest_wf_def)+

lemma quiet_sys_mmap: "quiet_res s (sys_mmap i addr len prot flags fd off s)"
proof -
  have link: "quiet t (upd_vma v a (upd_vma w b (upd_vma v c t)))" for t v w a b c
    by (rule quiet_trans [OF quiet_trans [OF quiet_upd_file(3) quiet_upd_file(3)] quiet_upd_file(3)])
  have first: "quiet t (upd_proc i (\<lambda>p. p\<lparr>p_vma := v\<rparr>) (upd_vma w b t))" for t v w b
    by (rule quiet_trans [OF quiet_upd_file(3) quiet_proc_mem(2)])
  have place: "quiet_res t (do { s2 \<leftarrow> filedup k (upd_vma v a t);
      (case p_vma (pr s2 i) of
         None \<Rightarrow> Some (x, upd_proc i (\<lambda>p. p\<lparr>p_vma := Some v\<rparr>) (upd_vma v b s2))
       | Some h \<Rightarrow> do { lst \<leftarrow> vma_last VMA_FUEL h s2;
           let start = PGROUNDUP (vm_end (vma_of s2 lst));
           let s3 = upd_vma v (\<lambda>a. a\<lparr>vm_start := start, vm_end := start + z\<rparr>) s2;
           Some (start, upd_vma v c (upd_vma lst d s3)) }) })" for t k v a b x z c d
    by (rule quiet_res_bind_opt [OF quiet_opt_trans [OF quiet_upd_file(3) quiet_filedup]])
      (auto simp: Let_def intro!: quiet_res_Some quiet_res_bind_any link first split: option.split)
  show ?thesis
  proof (cases "addr \<noteq> 0 \<or> off \<noteq> 0 \<or> argfd i fd s = None")
    case True
    then show ?thesis by (auto simp: sys_mmap_def quiet_res_None)
  next
    case False
    then obtain k where k: "argfd i fd s = Some k" by auto
    show ?thesis
    proof (cases "mmap_flags prot flags (file_of s k)")
      case None
      with False k show ?thesis by (simp add: sys_mmap_def quiet_res_Some)
    next
      case (Some perm)
      with False k show ?thesis
        unfolding sys_mmap_def Let_def
        by (simp, intro quiet_res_bind_any [where m = "vma_alloc s"]) (rule place [unfolded Let_def])
    qed
  qed
qed

lemma quiet_res_prod: "(\<And>a b. quiet_res s (f a b)) \<Longrightarrow> quiet_res s (case x of (a, b) \<Rightarrow> f a b)"
  by (cases x) simp

lemma quiet_sys_munmap: "quiet_res s (sys_munmap i addr len s)"
proof -
  have free: "quiet u (upd_vma w c (case pre of None \<Rightarrow> upd_proc i (\<lambda>p. p\<lparr>p_vma := v\<rparr>) u
      | Some b \<Rightarrow> upd_vma w d (upd_vma b e u)))" for u w c pre v d e
    using quiet_trans [OF quiet_proc_mem(2) quiet_upd_file(3)]
      quiet_trans [OF quiet_trans [OF quiet_upd_file(3) quiet_upd_file(3)] quiet_upd_file(3)] by (cases pre) auto
  show ?thesis
    unfolding sys_munmap_def Let_def
    apply (rule quiet_res_bind_any)
    apply (rule quiet_res_option)
     apply (rule quiet_res_Some, simp)
    apply (rule quiet_res_prod)
    apply (intro quiet_res_if quiet_res_None quiet_res_bind_opt [OF quiet_writeback] quiet_res_bind_opt [OF quiet_unmap]
        quiet_res_bind_opt [OF quiet_fileclose] quiet_res_Some free quiet_upd_file)
    done
qed

end
