(* ===== verification/KernelSteps.thy ===== *)
theory KernelSteps
  imports QuietCalls
begin

text \<open>
  The operations that do change what the kernel invariant speaks of: putting a process on the heartbeat
  wheel or taking it off, the clock tick, joining and leaving a workflow, becoming an agent, and the birth
  and death of a process. Each keeps the invariant.
\<close>

subsection \<open>The heartbeat wheel\<close>

lemma off_wheel_same:
  assumes "off_wheel p = off_wheel q"
  shows "member_tag p = member_tag q" "life p = life q" "mailbox p = mailbox q" "digest_wf p = digest_wf q"
    "dead p = dead q" "live_pid p = live_pid q"
  using arg_cong [OF assms, of member_tag] arg_cong [OF assms, of life] arg_cong [OF assms, of mailbox]
    arg_cong [OF assms, of digest_wf] arg_cong [OF assms, of dead] arg_cong [OF assms, of live_pid]
  by (simp_all add: off_wheel_def member_tag_def life_def digest_wf_def dead_def live_pid_def)

text \<open>A change of the wheel alone keeps the invariant when it activates no dead process.\<close>

lemma kinv_wheel:
  assumes inv: "kinv s" and w: "wheel_inv t" and off: "off_wheel_kst t = off_wheel_kst s"
    and d: "\<And>j. j < length (ks_procs s) \<Longrightarrow> dead (pr s j) \<Longrightarrow> \<not> heartbeat_wheel_active (pr t j)"
  shows "kinv t"
proof -
  note k = kinvD [OF inv] and f = off_wheel_kstD [OF off]
  note same = off_wheel_same [OF off_wheel_kst_proc [OF off]]
  have "map member_tag (ks_procs t) = map member_tag (ks_procs s)"
    by (rule nth_equalityI) (use f(8) same(1) in simp_all)
  then have "workflow_inv t" using k(2) f(9) workflow_inv_cong [of t s] by simp
  moreover have "pids_ok t" using pids_ok_cong [OF k(3) f(8) f(4)] same(6) by blast
  moreover have "proc_ok (pr t i)" if "i < length (ks_procs t)" for i
  proof -
    have i: "i < length (ks_procs s)" using that f(8) by simp
    show ?thesis using k(4) [OF i] same [OF i] d [OF i] by (simp add: proc_ok_def member_tag_def)
  qed
  ultimately show ?thesis using w by (simp add: kinv_def)
qed

lemma active_upd:
  "heartbeat_wheel_active (pr (upd_proc q (\<lambda>p. p\<lparr>heartbeat_wheel_next := n\<rparr>) s) j) = heartbeat_wheel_active (pr s j)"
  by (cases "q = j"; cases "j < length (ks_procs s)") (simp_all add: upd_proc_def list_update_beyond)

lemma active_unlink [simp]: "heartbeat_wheel_active (pr (wheel_unlink b prev next s) j) = heartbeat_wheel_active (pr s j)"
  by (simp add: wheel_unlink_def active_upd split: option.splits)

lemma active_remove_loop:
  "wheel_remove_loop fuel i b prev cur s = Some t \<Longrightarrow> heartbeat_wheel_active (pr t j) = heartbeat_wheel_active (pr s j)"
  by (induction fuel i b prev cur s rule: wheel_remove_loop.induct) (auto split: if_splits)

lemma active_remove:
  assumes r: "agent_heartbeat_wheel_remove i s = Some t" and j: "j \<noteq> i"
  shows "heartbeat_wheel_active (pr t j) = heartbeat_wheel_active (pr s j)"
proof -
  let ?b = "heartbeat_wheel_bucket (pr s i)"
  from r consider "t = s" | "t = upd_proc i wheel_clear s"
    | u where "wheel_remove_loop NPROC i ?b 0 (gl_heartbeat_wheel_heads (ks_global s) ! nat ?b) s = Some u" "t = upd_proc i wheel_clear u"
    by (auto simp: agent_heartbeat_wheel_remove_def Let_def split: if_splits)
  then show ?thesis
  proof cases
    case (3 u)
    with active_remove_loop [OF 3(1), of j] j show ?thesis by simp
  qed (use j in simp_all)
qed

lemma active_link: "j \<noteq> i \<Longrightarrow> heartbeat_wheel_active (pr (wheel_link i s) j) = heartbeat_wheel_active (pr s j)"
  by (simp add: wheel_link_def Let_def)

lemma active_reschedule:
  assumes "agent_heartbeat_wheel_reschedule i s = Some t" "j \<noteq> i"
  shows "heartbeat_wheel_active (pr t j) = heartbeat_wheel_active (pr s j)"
proof -
  from assms(1) obtain u where u: "(if heartbeat_wheel_active (pr s i) then agent_heartbeat_wheel_remove i s else Some s) = Some u"
    "t = (if wheel_eligible (pr u i) then wheel_link i u else u)"
    unfolding agent_heartbeat_wheel_reschedule_def
    by (cases "if heartbeat_wheel_active (pr s i) then agent_heartbeat_wheel_remove i s else Some s") simp_all
  have "heartbeat_wheel_active (pr u j) = heartbeat_wheel_active (pr s j)"
    using u(1) active_remove [OF _ assms(2), of s u] by (simp split: if_splits)
  with u(2) active_link [OF assms(2)] show ?thesis by simp
qed

lemma kinv_remove:
  assumes inv: "kinv s" and i: "i < length (ks_procs s)" and r: "agent_heartbeat_wheel_remove i s = Some t"
  shows "kinv t" "\<not> heartbeat_wheel_active (pr t i)" "off_wheel_kst t = off_wheel_kst s"
proof -
  from remove_inv [OF kinvD(1) [OF inv] i] r
  have t: "wheel_inv t" "\<not> heartbeat_wheel_active (pr t i)" "off_wheel_kst t = off_wheel_kst s" by auto
  have "\<not> heartbeat_wheel_active (pr t j)" if "j < length (ks_procs s)" "dead (pr s j)" for j
    using kinvD(4) [OF inv that(1)] that(2) t(2) active_remove [OF r, of j] by (cases "j = i") (auto simp: proc_ok_def)
  from kinv_wheel [OF inv t(1,3) this] show "kinv t" .
qed (use remove_inv [OF kinvD(1) [OF inv] i] r in auto)

lemma kinv_reschedule:
  assumes inv: "kinv s" and i: "i < length (ks_procs s)" and live: "\<not> dead (pr s i)"
    and r: "agent_heartbeat_wheel_reschedule i s = Some t"
  shows "kinv t" "off_wheel_kst t = off_wheel_kst s"
proof -
  from reschedule_inv [OF kinvD(1) [OF inv] i] r
  show off: "off_wheel_kst t = off_wheel_kst s" by auto
  from reschedule_inv [OF kinvD(1) [OF inv] i] r have w: "wheel_inv t" by auto
  have "\<not> heartbeat_wheel_active (pr t j)" if "j < length (ks_procs s)" "dead (pr s j)" for j
    using kinvD(4) [OF inv that(1)] that(2) live active_reschedule [OF r, of j] by (cases "j = i") (auto simp: proc_ok_def)
  from kinv_wheel [OF inv w off this] show "kinv t" .
qed

subsection \<open>The clock tick\<close>

lemma tick_detach_step:
  "scan \<noteq> 0 \<Longrightarrow> agent_wheel_proc scan = Some k \<Longrightarrow>
     tick_detach_loop (Suc fuel) scan s = tick_detach_loop fuel (heartbeat_wheel_next (pr s k)) (detach_one k s)"
  by (simp add: detach_one_def Let_def)

lemma tick_detach_frame:
  "tick_detach_loop fuel scan s = Some t \<Longrightarrow> off_wheel_kst t = off_wheel_kst s"
proof (induction fuel arbitrary: scan s)
  case 0
  then show ?case by (simp split: if_splits)
next
  case (Suc fuel)
  show ?case
  proof (cases "scan = 0 \<or> agent_wheel_proc scan = None")
    case True
    with Suc.prems have "t = s" by (auto split: if_splits)
    then show ?thesis by simp
  next
    case False
    then obtain k where k: "scan \<noteq> 0" "agent_wheel_proc scan = Some k" by blast
    from Suc.IH [OF Suc.prems [unfolded tick_detach_step [OF k]]] show ?thesis by (simp add: detach_one_effect)
  qed
qed

text \<open>No process is born and none dies.\<close>

definition same_life :: "kst \<Rightarrow> kst \<Rightarrow> bool" where
  "same_life s t \<longleftrightarrow> length (ks_procs t) = length (ks_procs s) \<and> (\<forall>j < length (ks_procs s). dead (pr t j) = dead (pr s j))"

lemma same_life_trans: "same_life s t \<Longrightarrow> same_life t u \<Longrightarrow> same_life s u"
  by (simp add: same_life_def)

lemma same_life_quiet: "quiet s t \<Longrightarrow> same_life s t"
  using quietD(1) [of s t] keeps_life(1) [OF quietD(2), of s t] by (simp add: same_life_def)

lemma same_life_off: "off_wheel_kst t = off_wheel_kst s \<Longrightarrow> same_life s t"
  using off_wheel_kstD(8) [of t s] off_wheel_same(5) [OF off_wheel_kst_proc, of t s] by (simp add: same_life_def)

definition tick_same :: "kst \<Rightarrow> kst \<Rightarrow> bool" where
  "tick_same s t \<longleftrightarrow> gl_workflows (ks_global t) = gl_workflows (ks_global s) \<and> ks_nextpid t = ks_nextpid s"

lemma tick_same_off: "off_wheel_kst t = off_wheel_kst s \<Longrightarrow> tick_same s t"
  using off_wheel_kstD(4) [of t s] off_wheel_kstD(9) [of t s] by (simp add: tick_same_def)

lemma tick_fire_same:
  assumes "tick_fire now i s = Some t"
  shows "tick_same s t"
proof -
  let ?s2 = "upd_proc i (\<lambda>p. p\<lparr>heartbeat_wheel_next := 0\<rparr>)
      (upd_global (\<lambda>g. g\<lparr>gl_heartbeat_tick_scanned := gl_heartbeat_tick_scanned g + 1\<rparr>) s)"
  define s3 where "s3 = (if heartbeat_due now (pr ?s2 i)
                then upd_global (\<lambda>g. g\<lparr>gl_heartbeat_tick_wakeups := gl_heartbeat_tick_wakeups g + 1\<rparr>)
                       (upd_proc i (\<lambda>p. let q = agent_signal_event_locked i AGENT_EVENT_HEARTBEAT now p
                                        in q\<lparr>heartbeat_deadline := now + u64_of_int (heartbeat_interval q)\<rparr>) ?s2)
                else ?s2)"
  have s3: "tick_same s s3" by (simp add: tick_same_def s3_def)
  have "t = s3 \<or> agent_heartbeat_wheel_reschedule i s3 = Some t"
    using assms unfolding tick_fire_def Let_def s3_def by (simp split: if_split_asm)
  with s3 tick_same_off [OF off_wheel_reschedule, of i s3 t] show ?thesis by (auto simp: tick_same_def)
qed

lemma tick_fire_loop_same:
  "tick_fire_loop fuel now cur s = Some t \<Longrightarrow> tick_same s t"
proof (induction fuel arbitrary: cur s)
  case 0
  then show ?case by (simp add: tick_same_def split: if_splits)
next
  case (Suc fuel)
  show ?case
  proof (cases "cur = 0 \<or> agent_wheel_proc cur = None")
    case True
    with Suc.prems have "t = s" by (auto split: if_splits)
    then show ?thesis by (simp add: tick_same_def)
  next
    case False
    then obtain k u where "agent_wheel_proc cur = Some k" "tick_fire now k s = Some u"
      "tick_fire_loop fuel now (heartbeat_wheel_next (pr s k)) u = Some t"
      using Suc.prems by (auto split: option.splits)
    with Suc.IH tick_fire_same show ?thesis by (fastforce simp: tick_same_def)
  qed
qed

lemma tick_wheel_same: "tick_wheel now s = Some t \<Longrightarrow> tick_same s t"
  unfolding tick_wheel_def Let_def
  by (auto split: option.splits dest!: tick_fire_loop_same tick_detach_frame [THEN tick_same_off])
    (simp add: tick_same_def wheel_set_head_def)

lemma fired_same:
  "member_tag (fired now j p) = member_tag p" "life (fired now j p) = life p" "mailbox (fired now j p) = mailbox p"
  "digest_wf (fired now j p) = digest_wf p" "dead (fired now j p) = dead p" "live_pid (fired now j p) = live_pid p"
  by (simp_all add: fired_def agent_signal_event_locked_def Let_def member_tag_def life_def digest_wf_def dead_def live_pid_def)

lemma kinv_tick_wheel:
  assumes inv: "kinv s" and r: "tick_wheel now s = Some t"
  shows "kinv t" "same_life s t"
proof -
  note k = kinvD [OF inv]
  from tick_wheel_effect [OF k(1), of now] r
  have w: "wheel_inv t" "length (ks_procs t) = length (ks_procs s)"
    and e: "\<And>j. j < length (ks_procs s) \<Longrightarrow> (heartbeat_wheel_active (pr s j) \<and> off_wheel (pr t j) = off_wheel (fired now j (pr s j))) \<or> pr t j = pr s j"
    by (auto split: if_split_asm)
  have same: "member_tag (pr t j) = member_tag (pr s j)" "live_pid (pr t j) = live_pid (pr s j)"
    "proc_ok (pr s j) \<Longrightarrow> proc_ok (pr t j)" "dead (pr t j) = dead (pr s j)" if j: "j < length (ks_procs s)" for j
  proof -
    consider "heartbeat_wheel_active (pr s j)" "off_wheel (pr t j) = off_wheel (fired now j (pr s j))" | "pr t j = pr s j"
      using e [OF j] by blast
    then have "member_tag (pr t j) = member_tag (pr s j) \<and> live_pid (pr t j) = live_pid (pr s j) \<and>
        (proc_ok (pr s j) \<longrightarrow> proc_ok (pr t j)) \<and> dead (pr t j) = dead (pr s j)"
    proof cases
      case 1
      note f = off_wheel_same [OF 1(2), unfolded fired_same]
      with 1(1) show ?thesis by (simp add: proc_ok_def member_tag_def)
    qed simp
    then show "member_tag (pr t j) = member_tag (pr s j)" "live_pid (pr t j) = live_pid (pr s j)"
      "proc_ok (pr s j) \<Longrightarrow> proc_ok (pr t j)" "dead (pr t j) = dead (pr s j)" by simp_all
  qed
  have fr: "gl_workflows (ks_global t) = gl_workflows (ks_global s)" "ks_nextpid t = ks_nextpid s"
    using tick_wheel_same [OF r] by (simp_all add: tick_same_def)
  have "map member_tag (ks_procs t) = map member_tag (ks_procs s)"
    by (rule nth_equalityI) (use same(1) w(2) in simp_all)
  then have "workflow_inv t" using k(2) fr(1) workflow_inv_cong [of t s] by simp
  moreover have "pids_ok t" using pids_ok_cong [OF k(3) w(2) fr(2) same(2)] .
  ultimately show "kinv t" using w k(4) same(3) by (simp add: kinv_def)
  show "same_life s t" using w(2) same(4) by (simp add: same_life_def)
qed

lemma kinv_agent_tick:
  assumes inv: "kinv s" and r: "agent_tick now s = Some t"
  shows "kinv t" "same_life s t"
proof -
  have q1: "quiet s (agent_replenish_budgets now s)"
    unfolding agent_replenish_budgets_def by (rule quiet_for_procs) (simp add: keeps_defs digest_wf_def)
  have q2: "quiet (agent_replenish_budgets now s) (upd_global (agent_lease_reap_expired now) (agent_replenish_budgets now s))"
    by (rule quiet_global) (simp_all add: agent_lease_reap_expired_def)
  obtain u where u: "tick_wheel now (upd_global (agent_lease_reap_expired now) (agent_replenish_budgets now s)) = Some u"
    "t = tick_timeouts now u"
    using r by (auto simp: agent_tick_def)
  have q3: "quiet u t"
    unfolding u(2) tick_timeouts_def by (rule quiet_for_procs_idx) (simp add: keeps_defs digest_wf_def)
  note w = kinv_tick_wheel [OF kinv_quiet [OF inv quiet_trans [OF q1 q2]] u(1)]
  show "kinv t" by (rule kinv_quiet [OF w(1) q3])
  show "same_life s t"
    by (rule same_life_trans [OF same_life_quiet [OF quiet_trans [OF q1 q2]] same_life_trans [OF w(2) same_life_quiet [OF q3]]])
qed

subsection \<open>The workflow table\<close>

lemma begin_terminate_frame [simp]:
  "gl_heartbeat_wheel_heads (snd (agent_workflow_begin_terminate_locked now wid gen g)) = gl_heartbeat_wheel_heads g"
  "gl_heartbeat_count (snd (agent_workflow_begin_terminate_locked now wid gen g)) = gl_heartbeat_count g"
  by (simp_all add: agent_workflow_begin_terminate_locked_def upd_wf_frame split: option.splits)

lemma keeps_cascade_kill: "keeps p (cascade_kill now i p)"
  by (simp add: cascade_kill_def Let_def keeps_defs digest_wf_def)

lemma quiet_cascade: "quiet s (snd (agent_cascade_terminate l reason incl s))"
proof -
  let ?t = "snd (agent_cascade_terminate l reason incl s)"
  have "length (ks_procs ?t) = length (ks_procs s) \<and> ks_nextpid ?t = ks_nextpid s \<and>
      gl_heartbeat_wheel_heads (ks_global ?t) = gl_heartbeat_wheel_heads (ks_global s) \<and>
      gl_heartbeat_count (ks_global ?t) = gl_heartbeat_count (ks_global s) \<and>
      (\<forall>j < length (ks_procs s). keeps (pr s j) (pr ?t j))"
    by (simp add: agent_cascade_terminate_def Let_def case_prod_beta pr_for_procs_idx keeps_cascade_kill split: option.split)
  then show ?thesis using cascade_inv [of s l reason incl] by (simp add: quiet_def)
qed

text \<open>The invariant after one entry of the process table changed, from its parts.\<close>

lemma kinv_one:
  assumes inv: "kinv s" and i: "i < length (ks_procs s)"
    and len: "length (ks_procs t) = length (ks_procs s)" and other: "\<And>j. j \<noteq> i \<Longrightarrow> pr t j = pr s j"
    and tag: "wheel_tag (pr t i) = wheel_tag (pr s i)" and lp: "live_pid (pr t i) = live_pid (pr s i)"
    and ok: "proc_ok (pr t i)" and w: "workflow_inv t" and np: "ks_nextpid t = ks_nextpid s"
    and g: "gl_heartbeat_wheel_heads (ks_global t) = gl_heartbeat_wheel_heads (ks_global s)"
      "gl_heartbeat_count (ks_global t) = gl_heartbeat_count (ks_global s)"
  shows "kinv t"
proof -
  note k = kinvD [OF inv]
  have "wheel_tag (pr t j) = wheel_tag (pr s j)" for j using other tag by (cases "j = i") simp_all
  then have "wheel_inv t" using wheel_inv_tag [OF k(1) len _ g] by blast
  moreover have "live_pid (pr t j) = live_pid (pr s j)" for j using other lp by (cases "j = i") simp_all
  then have "pids_ok t" using pids_ok_cong [OF k(3) len np] by blast
  moreover have "proc_ok (pr t j)" if "j < length (ks_procs t)" for j
    using k(4) [of j] that len other [of j] ok by (cases "j = i") simp_all
  ultimately show ?thesis using w by (simp add: kinv_def)
qed

lemma registered_key:
  assumes "workflow_inv s" "i < length (ks_procs s)" "workflow_member_registered (pr s i)"
  shows "workflow_id (pr s i) \<noteq> 0" "workflow_leader_generation (pr s i) \<noteq> 0"
proof -
  let ?k = "(workflow_id (pr s i), workflow_leader_generation (pr s i))"
  let ?ts = "map member_tag (ks_procs s)" and ?ws = "gl_workflows (ks_global s)"
  have ok: "workflow_ok ?ts ?ws" using assms(1) by (simp add: workflow_inv_def)
  have "?ts ! i = (True, ?k)" using assms(2,3) by (simp add: member_tag_def)
  then have "(True, ?k) \<in> set ?ts" using assms(2) nth_mem [of i ?ts] by simp
  then obtain j where "find_key wf_used wf_key ?k ?ws = Some j" by (rule workflow_ok_found [OF ok])
  from workflow_ok_entry [OF ok this] show "workflow_id (pr s i) \<noteq> 0" "workflow_leader_generation (pr s i) \<noteq> 0" by simp_all
qed

lemma leave_frame:
  "length (ks_procs (agent_workflow_leave i s)) = length (ks_procs s)" "j \<noteq> i \<Longrightarrow> pr (agent_workflow_leave i s) j = pr s j"
  "ks_nextpid (agent_workflow_leave i s) = ks_nextpid s"
  "gl_heartbeat_wheel_heads (ks_global (agent_workflow_leave i s)) = gl_heartbeat_wheel_heads (ks_global s)"
  "gl_heartbeat_count (ks_global (agent_workflow_leave i s)) = gl_heartbeat_count (ks_global s)"
  by (simp_all add: agent_workflow_leave_def Let_def upd_wf_frame split: option.split)

lemma leave_own:
  assumes "workflow_inv s" "i < length (ks_procs s)"
  shows "pr (agent_workflow_leave i s) i = (pr s i)\<lparr>workflow_member_registered := False\<rparr>"
proof (cases "workflow_member_registered (pr s i)")
  case True
  with registered_key [OF assms True] assms(2) show ?thesis
    by (simp add: agent_workflow_leave_def Let_def split: option.split)
qed (simp add: agent_workflow_leave_def Let_def)

lemma kinv_leave:
  assumes inv: "kinv s" and i: "i < length (ks_procs s)"
  shows "kinv (agent_workflow_leave i s)"
proof (rule kinv_one [OF inv i leave_frame(1,2) _ _ _ leave_inv [OF kinvD(2) [OF inv] i] leave_frame(3-5)])
  note own = leave_own [OF kinvD(2) [OF inv] i]
  show "wheel_tag (pr (agent_workflow_leave i s) i) = wheel_tag (pr s i)"
    "live_pid (pr (agent_workflow_leave i s) i) = live_pid (pr s i)"
    by (simp_all add: own wheel_tag_def live_pid_def)
  show "proc_ok (pr (agent_workflow_leave i s) i)"
    using kinvD(4) [OF inv i] by (simp add: own proc_ok_def digest_wf_def dead_def)
qed

text \<open>A process that is not registered may change its key.\<close>

lemma workflow_ok_unregistered:
  assumes ok: "workflow_ok ts ws" and i: "i < length ts" and un: "\<not> fst (ts ! i)" "\<not> fst t"
  shows "workflow_ok (ts[i := t]) ws"
proof -
  have "members k (ts[i := t]) = members k ts" for k
    using members_update [OF i, of k t] un by (cases t; cases "ts ! i") auto
  moreover have "(True, k) \<in> set (ts[i := t]) \<Longrightarrow> (True, k) \<in> set ts" for k
    using un(2) set_update_subset_insert [of ts i t] by (cases t) auto
  ultimately show ?thesis using ok by (auto simp: workflow_ok_def entry_ok_def)
qed

lemma workflow_inv_unregistered:
  assumes inv: "workflow_inv s" and i: "i < length (ks_procs s)" and t: "ks_procs t = (ks_procs s)[i := q]"
    "gl_workflows (ks_global t) = gl_workflows (ks_global s)"
    and un: "\<not> workflow_member_registered (pr s i)" "\<not> workflow_member_registered q"
  shows "workflow_inv t"
proof -
  have "workflow_ok ((map member_tag (ks_procs s))[i := member_tag q]) (gl_workflows (ks_global s))"
    using inv i un by (intro workflow_ok_unregistered) (simp_all add: workflow_inv_def member_tag_def)
  then show ?thesis using t by (simp add: workflow_inv_def map_update)
qed

lemma create_frame [simp]:
  "gl_heartbeat_wheel_heads (snd (agent_workflow_create_locked p g)) = gl_heartbeat_wheel_heads g"
  "gl_heartbeat_count (snd (agent_workflow_create_locked p g)) = gl_heartbeat_count g"
  "gl_heartbeat_wheel_heads (snd (agent_workflow_join_locked p g)) = gl_heartbeat_wheel_heads g"
  "gl_heartbeat_count (snd (agent_workflow_join_locked p g)) = gl_heartbeat_count g"
  by (simp_all add: agent_workflow_create_locked_def agent_workflow_join_locked_def upd_wf_frame split: option.split)

lemma register_frame:
  "length (ks_procs (snd (workflow_register opn i s))) = length (ks_procs s)"
  "j \<noteq> i \<Longrightarrow> pr (snd (workflow_register opn i s)) j = pr s j"
  "ks_nextpid (snd (workflow_register opn i s)) = ks_nextpid s"
  "i < length (ks_procs s) \<Longrightarrow> \<exists>b. pr (snd (workflow_register opn i s)) i = (pr s i)\<lparr>workflow_member_registered := b \<or> workflow_member_registered (pr s i)\<rparr>"
  "(\<And>p g. gl_heartbeat_wheel_heads (snd (opn p g)) = gl_heartbeat_wheel_heads g) \<Longrightarrow>
     gl_heartbeat_wheel_heads (ks_global (snd (workflow_register opn i s))) = gl_heartbeat_wheel_heads (ks_global s)"
  "(\<And>p g. gl_heartbeat_count (snd (opn p g)) = gl_heartbeat_count g) \<Longrightarrow>
     gl_heartbeat_count (ks_global (snd (workflow_register opn i s))) = gl_heartbeat_count (ks_global s)"
      apply (simp_all add: workflow_register_def Let_def case_prod_beta)
  apply (intro conjI impI)
   apply (rule exI [of _ True], simp)
  apply (rule exI [of _ False], simp)
  done

lemma kinv_register:
  assumes inv: "kinv s" and i: "i < length (ks_procs s)" and live: "\<not> dead (pr s i)"
    and opn: "opn = agent_workflow_create_locked \<or> opn = agent_workflow_join_locked"
    and un: "\<not> workflow_member_registered (pr s i)"
    and k: "workflow_id (pr s i) \<noteq> 0" "workflow_leader_generation (pr s i) \<noteq> 0"
  shows "kinv (snd (workflow_register opn i s))"
proof -
  let ?t = "snd (workflow_register opn i s)"
  obtain b where b: "pr ?t i = (pr s i)\<lparr>workflow_member_registered := b\<rparr>"
    using register_frame(4) [OF i, of opn] by metis
  have w: "workflow_inv ?t"
    using opn create_inv [OF kinvD(2) [OF inv] i un k] join_inv [OF kinvD(2) [OF inv] i un k] by auto
  have ok: "proc_ok (pr ?t i)"
    using kinvD(4) [OF inv i] live by (simp add: b proc_ok_def digest_wf_def dead_def)
  show ?thesis
    by (rule kinv_one [OF inv i register_frame(1,2) _ _ ok w register_frame(3)])
      (use opn in \<open>auto simp: b wheel_tag_def live_pid_def intro!: register_frame(5,6)\<close>)
qed

subsection \<open>Fresh entries of the process table\<close>

text \<open>On no wheel and in no workflow.\<close>

definition detached :: "proc \<Rightarrow> bool" where
  "detached p \<longleftrightarrow> \<not> workflow_member_registered p \<and> \<not> heartbeat_wheel_active p"

lemma dead_detached: "kinv s \<Longrightarrow> i < length (ks_procs s) \<Longrightarrow> dead (pr s i) \<Longrightarrow> detached (pr s i)"
  using kinvD(4) [of s i] by (simp add: detached_def proc_ok_def)

lemma kinv_fresh:
  assumes inv: "kinv s" and i: "i < length (ks_procs s)" and d: "detached (pr s i)" "detached q"
    and q: "mailbox_inv (mailbox q)" "digest_wf q"
    and t: "ks_procs t = (ks_procs s)[i := q]" "ks_global t = ks_global s" and p: "pids_ok t"
  shows "kinv t"
proof -
  note k = kinvD [OF inv]
  have len: "length (ks_procs t) = length (ks_procs s)" using t(1) by simp
  have pt: "pr t j = (if j = i then q else pr s j)" for j using t(1) i by simp
  have "wheel_tag (pr t j) = wheel_tag (pr s j)" for j using d by (simp add: pt wheel_tag_def detached_def)
  then have "wheel_inv t" using wheel_inv_tag [OF k(1) len] t(2) by simp
  moreover have "workflow_inv t"
    using d t by (intro workflow_inv_unregistered [OF k(2) i, where q = q]) (simp_all add: detached_def)
  moreover have "proc_ok (pr t j)" if "j < length (ks_procs t)" for j
    using k(4) [of j] that len d q by (simp add: pt proc_ok_def detached_def)
  ultimately show ?thesis using p by (simp add: kinv_def)
qed

lemma init_proc_ok:
  "detached (agent_init_proc p)" "mailbox_inv (mailbox (agent_init_proc p))" "digest_wf (agent_init_proc p)"
  by (simp_all add: detached_def agent_init_proc_def mailbox_inv_empty digest_wf_def)

lemma pids_ok_upd:
  assumes p: "pids_ok s" and i: "i < length (ks_procs s)" and t: "ks_procs t = (ks_procs s)[i := q]"
    and c: "live_pid q = None \<and> ks_nextpid t = ks_nextpid s \<or>
       live_pid q = Some (ks_nextpid s) \<and> ks_nextpid t = ks_nextpid s + 1 \<and> ks_nextpid s + 1 < 2 ^ 31 \<or>
       live_pid q = None \<and> ks_nextpid t = ks_nextpid s + 1 \<and> ks_nextpid s + 1 < 2 ^ 31"
  shows "pids_ok t"
proof -
  have pt: "pr t j = (if j = i then q else pr s j)" for j using t i by simp
  have len: "length (ks_procs t) = length (ks_procs s)" using t by simp
  have old: "0 < a \<and> a < ks_nextpid s \<and> (\<forall>k < length (ks_procs s). live_pid (pr s k) = Some a \<longrightarrow> k = j)"
    if "j < length (ks_procs s)" "live_pid (pr s j) = Some a" for j a
    using p that by (simp add: pids_ok_def)
  have "0 < a \<and> a < ks_nextpid t \<and> (\<forall>k < length (ks_procs t). live_pid (pr t k) = Some a \<longrightarrow> k = j)"
    if "j < length (ks_procs t)" "live_pid (pr t j) = Some a" for j a
  proof (cases "j = i")
    case True
    then have a: "live_pid q = Some a" using that(2) by (simp add: pt)
    with c have n: "a = ks_nextpid s" "ks_nextpid t = a + 1" by simp_all
    have "live_pid (pr s k) \<noteq> Some a" if "k < length (ks_procs s)" for k
      using old [OF that, of a] n(1) by blast
    moreover have "0 < a" using p n(1) by (simp add: pids_ok_def)
    ultimately show ?thesis using n(2) True len by (simp add: pt)
  next
    case False
    with that len have "j < length (ks_procs s)" "live_pid (pr s j) = Some a" by (simp_all add: pt)
    note o = old [OF this]
    have "live_pid q \<noteq> Some a" "ks_nextpid s \<le> ks_nextpid t" using c o by auto
    with o len False show ?thesis by (simp add: pt)
  qed
  moreover have "0 < ks_nextpid t \<and> ks_nextpid t < 2 ^ 31" using p c by (auto simp: pids_ok_def)
  ultimately show ?thesis by (simp add: pids_ok_def)
qed

lemma freeproc_procs:
  assumes "freeproc i s = Some t"
  shows "\<exists>p. ks_procs t = (ks_procs s)[i := (agent_init_proc p)\<lparr>p_state := UNUSED\<rparr>]" "ks_global t = ks_global s" "ks_nextpid t = ks_nextpid s"
  using assms by (auto simp: freeproc_def Let_def bind_eq_Some_conv upd_proc_def)

lemma kinv_freeproc:
  assumes inv: "kinv s" and i: "i < length (ks_procs s)" and d: "detached (pr s i)" and r: "freeproc i s = Some t"
  shows "kinv t"
proof -
  note f = freeproc_procs [OF r]
  obtain p where p: "ks_procs t = (ks_procs s)[i := (agent_init_proc p)\<lparr>p_state := UNUSED\<rparr>]" using f(1) by blast
  have "pids_ok t" by (rule pids_ok_upd [OF kinvD(3) [OF inv] i p]) (simp add: live_pid_def f(3))
  then show ?thesis
    by (intro kinv_fresh [OF inv i d _ _ _ p f(2)])
      (use init_proc_ok [of p] in \<open>simp_all add: detached_def digest_wf_def\<close>)
qed

lemma kinv_allocpid:
  assumes inv: "kinv s" and i: "i < length (ks_procs s)" and un: "p_state (pr s i) = UNUSED" and np: "ks_nextpid s + 1 < 2 ^ 31"
    and t: "ks_procs t = (ks_procs s)[i := agent_init_proc ((pr s i)\<lparr>p_pid := ks_nextpid s, p_state := USED\<rparr>)]"
      "ks_global t = ks_global s" "ks_nextpid t = ks_nextpid s + 1"
  shows "kinv t" "detached (pr t i)" "p_state (pr t i) = USED"
proof -
  let ?q = "agent_init_proc ((pr s i)\<lparr>p_pid := ks_nextpid s, p_state := USED\<rparr>)"
  have d: "detached (pr s i)" by (rule dead_detached [OF inv i]) (simp add: dead_def un)
  have "pids_ok t"
    by (rule pids_ok_upd [OF kinvD(3) [OF inv] i t(1)]) (use np in \<open>simp add: live_pid_def agent_init_proc_def t(3)\<close>)
  then show "kinv t" using init_proc_ok by (intro kinv_fresh [OF inv i d _ _ _ t(1,2)])
  show "detached (pr t i)" "p_state (pr t i) = USED" using t(1) i init_proc_ok(1) by (simp_all add: agent_init_proc_def)
qed

lemma kinv_allocproc:
  assumes inv: "kinv s" and np: "ks_nextpid s + 1 < 2 ^ 31" and r: "allocproc tramp s = Some (ro, t)"
  shows "kinv t" "length (ks_procs t) = length (ks_procs s)"
    "ro = Some d \<Longrightarrow> d < length (ks_procs s) \<and> p_state (pr s d) = UNUSED \<and> detached (pr t d) \<and> p_state (pr t d) = USED"
    "p_state (pr s j) \<noteq> UNUSED \<Longrightarrow> pr t j = pr s j"
proof -
  have "kinv t \<and> length (ks_procs t) = length (ks_procs s) \<and> (\<forall>j. p_state (pr s j) \<noteq> UNUSED \<longrightarrow> pr t j = pr s j) \<and> (\<forall>d. ro = Some d \<longrightarrow> d < length (ks_procs s) \<and>
       p_state (pr s d) = UNUSED \<and> detached (pr t d) \<and> p_state (pr t d) = USED)"
  proof (cases "first_slot (\<lambda>p. p_state p = UNUSED) (ks_procs s)")
    case None
    with r inv show ?thesis by (simp add: allocproc_def)
  next
    case (Some i)
    note fs = first_slot_less [OF Some] first_slot_holds [OF Some]
    define s2 where "s2 = upd_proc i (\<lambda>p. agent_init_proc (p\<lparr>p_pid := ks_nextpid s, p_state := USED\<rparr>)) (s\<lparr>ks_nextpid := ks_nextpid s + 1\<rparr>)"
    have s2: "ks_procs s2 = (ks_procs s)[i := agent_init_proc ((pr s i)\<lparr>p_pid := ks_nextpid s, p_state := USED\<rparr>)]"
      "ks_global s2 = ks_global s" "ks_nextpid s2 = ks_nextpid s + 1" by (simp_all add: s2_def upd_proc_def)
    note a = kinv_allocpid [OF inv fs np s2]
    have len: "length (ks_procs s2) = length (ks_procs s)" and o2: "\<And>j. j \<noteq> i \<Longrightarrow> pr s2 j = pr s j" using s2(1) by simp_all
    have fail: "kinv t \<and> length (ks_procs t) = length (ks_procs s) \<and> (\<forall>j. p_state (pr s j) \<noteq> UNUSED \<longrightarrow> pr t j = pr s j)"
      if q: "quiet s2 u" and u: "\<And>j. j \<noteq> i \<Longrightarrow> pr u j = pr s2 j" "pr u i = (pr s2 i)\<lparr>p_pagetable := pg, p_trapframe := tf\<rparr>"
        and fr: "freeproc i u = Some t" for u pg tf
    proof -
      have "detached (pr u i)" using a(2) by (simp add: u(2) detached_def)
      then have "kinv t" using kinv_freeproc [OF kinv_quiet [OF a(1) q] _ _ fr] quietD(1) [OF q] len fs(1) by simp
      moreover obtain p where p: "ks_procs t = (ks_procs u)[i := p]" using freeproc_procs(1) [OF fr] by blast
      moreover have "pr t j = pr s j" if "p_state (pr s j) \<noteq> UNUSED" for j
        using that fs(2) u(1) [of j] o2 [of j] p by (cases "j = i") simp_all
      ultimately show ?thesis using quietD(1) [OF q] len by simp
    qed
    have mem: "quiet s2 (upd_proc i (\<lambda>p. p\<lparr>p_trapframe := tf\<rparr>) (s2\<lparr>ks_freelist := fl\<rparr>))" for tf fl
      by (rule quiet_trans [OF quiet_fields(1) quiet_upd_proc]) (simp add: keeps_defs digest_wf_def)
    have pg: "quiet u (upd_proc i (\<lambda>p. p\<lparr>p_pagetable := pg\<rparr>) u)" for u pg
      by (rule quiet_proc_mem)
    have i2: "i < length (ks_procs s2)" using fs(1) len by simp
    note body = r [unfolded allocproc_def Some option.case allocpid_def Let_def prod.case s2_def [symmetric]]
    show ?thesis
    proof (cases "kalloc (ks_freelist s2)")
      case (Pair m fl)
      show ?thesis
      proof (cases m)
        case None
        with body Pair obtain fr: "freeproc i (upd_proc i (\<lambda>p. p\<lparr>p_trapframe := 0\<rparr>) s2) = Some t" and ro: "ro = None"
          by (auto simp: bind_eq_Some_conv)
        have "quiet s2 (upd_proc i (\<lambda>p. p\<lparr>p_trapframe := 0\<rparr>) s2)"
          by (rule quiet_upd_proc) (simp add: keeps_defs digest_wf_def)
        from fail [OF this _ _ fr, where pg = "p_pagetable (pr s2 i)" and tf = 0] ro i2 show ?thesis by simp
      next
        case (Some tf)
        with body Pair obtain pt fl1 where pt: "proc_pagetable tramp tf fl = Some (pt, fl1)"
          by (auto simp: bind_eq_Some_conv)
        let ?s3 = "upd_proc i (\<lambda>p. p\<lparr>p_trapframe := tf\<rparr>) (s2\<lparr>ks_freelist := fl1\<rparr>)"
        show ?thesis
        proof (cases pt)
          case None
          with body Pair Some pt obtain fr: "freeproc i (upd_proc i (\<lambda>p. p\<lparr>p_pagetable := null_pagetable\<rparr>) ?s3) = Some t" and ro: "ro = None"
            by (auto simp: bind_eq_Some_conv)
          from fail [OF quiet_trans [OF mem pg] _ _ fr, where pg = null_pagetable and tf = tf] ro i2 show ?thesis by simp
        next
          case (Some pt1)
          with body Pair \<open>m = Some tf\<close> pt have ro: "ro = Some i" and t: "t = upd_proc i (\<lambda>p. p\<lparr>p_pagetable := pt1\<rparr>) ?s3" by simp_all
          have "kinv t" unfolding t by (rule kinv_quiet [OF a(1) quiet_trans [OF mem pg]])
          moreover have "pr t j = pr s j" if "p_state (pr s j) \<noteq> UNUSED" for j
            using that fs(2) o2 [of j] by (cases "j = i") (simp_all add: t)
          ultimately show ?thesis using ro t a(2,3) fs len i2 by (simp add: detached_def)
        qed
      qed
    qed
  qed
  then show "kinv t" "length (ks_procs t) = length (ks_procs s)"
    "ro = Some d \<Longrightarrow> d < length (ks_procs s) \<and> p_state (pr s d) = UNUSED \<and> detached (pr t d) \<and> p_state (pr t d) = USED"
    "p_state (pr s j) \<noteq> UNUSED \<Longrightarrow> pr t j = pr s j" by blast+
qed

subsection \<open>Fork\<close>

lemma fork_fields_ok:
  "detached (fork_fields p g q)" "mailbox_inv (mailbox (fork_fields p g q))" "digest_wf (fork_fields p g q)"
  "p_state (fork_fields p g q) = p_state q" "live_pid (fork_fields p g q) = live_pid q"
  by (simp_all add: detached_def fork_fields_def mailbox_inv_empty digest_wf_def live_pid_def)

lemma fork_join_register:
  assumes d: "d < length (ks_procs s)" and k: "workflow_id (pr s d) \<noteq> 0" "workflow_leader_generation (pr s d) \<noteq> 0"
  shows "quiet (snd (workflow_register agent_workflow_join_locked d s)) (fork_join d s)"
proof -
  obtain r g where r: "agent_workflow_join_locked (pr s d) (ks_global s) = (r, g)" by force
  have g: "upd_global (\<lambda>_. g) s = s\<lparr>ks_global := g\<rparr>" by (simp add: upd_global_def)
  show ?thesis
  proof (cases "r = AGENT_TOOL_OK")
    case True
    then show ?thesis using k r by (simp add: fork_join_def workflow_register_def Let_def g)
  next
    case False
    then show ?thesis using k r
      by (simp add: fork_join_def workflow_register_def Let_def g) (rule quiet_upd_proc, simp add: keeps_defs digest_wf_def)
  qed
qed

lemma kinv_after_fork:
  assumes inv: "kinv s" and d: "d < length (ks_procs s)" "detached (pr s d)" "\<not> dead (pr s d)"
  shows "kinv (agent_after_fork d i s)" "length (ks_procs (agent_after_fork d i s)) = length (ks_procs s)"
    "\<not> dead (pr (agent_after_fork d i s) d)"
proof -
  obtain gen g where g: "agent_next_identity (ks_global s) = (gen, g)" by force
  define s1 where "s1 = s\<lparr>ks_global := g\<rparr>"
  have q: "quiet s s1"
    unfolding s1_def by (rule quietI) (use agent_next_identity_frame [of "ks_global s"] g in simp_all)
  let ?q = "fork_fields (pr s i) gen (pr s d)"
  define s2 where "s2 = upd_proc d (fork_fields (pr s i) gen) s1"
  have s2: "ks_procs s2 = (ks_procs s1)[d := ?q]" "ks_global s2 = ks_global s1" "ks_nextpid s2 = ks_nextpid s1"
    by (simp_all add: s2_def s1_def upd_proc_def)
  have d1: "d < length (ks_procs s1)" "pr s1 d = pr s d" using d(1) by (simp_all add: s1_def)
  have "pids_ok s2"
    using kinvD(3) [OF kinv_quiet [OF inv q]] s2 d1
    by (rule_tac pids_ok_cong) (auto simp: nth_list_update fork_fields_ok)
  then have k2: "kinv s2"
    using d d1 by (intro kinv_fresh [OF kinv_quiet [OF inv q] d1(1) _ _ _ _ s2(1,2)]) (simp_all add: fork_fields_ok)
  have p2: "pr s2 d = ?q" "length (ks_procs s2) = length (ks_procs s)" "d < length (ks_procs s2)"
    using d(1) by (simp_all add: s2_def s1_def upd_proc_def)
  have un: "\<not> workflow_member_registered (pr s2 d)" using fork_fields_ok(1) [of "pr s i" gen "pr s d"] by (simp add: p2(1) detached_def)
  have live2: "\<not> dead (pr s2 d)" using d(3) by (simp add: p2(1) dead_def fork_fields_ok)
  have eq: "agent_after_fork d i s = fork_join d s2" by (simp add: agent_after_fork_def g s2_def s1_def)
  have "kinv (fork_join d s2)"
  proof (cases "workflow_id (pr s2 d) \<noteq> 0 \<and> workflow_leader_generation (pr s2 d) \<noteq> 0")
    case True
    then show ?thesis
      using kinv_quiet [OF kinv_register [OF k2 p2(3) live2 _ un] fork_join_register [OF p2(3)]] by simp
  next
    case False
    with k2 show ?thesis by (auto simp: fork_join_def Let_def)
  qed
  then show "kinv (agent_after_fork d i s)" by (simp add: eq)
  show "length (ks_procs (agent_after_fork d i s)) = length (ks_procs s)" using fork_join_frame [of d s2] by (simp add: eq p2(2))
  have "p_state (pr (fork_join d s2) d) = p_state (pr s2 d)" by (subst fork_join_fields(1) [OF p2(3)]) simp
  then show "\<not> dead (pr (agent_after_fork d i s) d)" using live2 by (simp add: eq dead_def)
qed

lemma after_fork_other: "j \<noteq> d \<Longrightarrow> pr (agent_after_fork d i s) j = pr s j"
  using fork_join_frame by (simp add: agent_after_fork_def case_prod_beta Let_def)

text \<open>The caller of a kernel operation that may go on: it exists, lives, and the invariant holds.\<close>

definition good :: "nat \<Rightarrow> kst \<Rightarrow> bool" where
  "good i s \<longleftrightarrow> kinv s \<and> i < length (ks_procs s) \<and> \<not> dead (pr s i)"

lemma good_quiet: "good i s \<Longrightarrow> quiet s t \<Longrightarrow> good i t"
  using kinv_quiet [of s t] quietD(1) [of s t] keeps_life(1) [OF quietD(2), of s t i] by (simp add: good_def)

lemma good_life: "good i s \<Longrightarrow> kinv t \<Longrightarrow> same_life s t \<Longrightarrow> good i t"
  by (simp add: good_def same_life_def)

lemma good_heartbeat_set:
  assumes g: "good i s" and r: "agent_proc_heartbeat_set i interval s = Some (v, t)"
  shows "good i t"
proof -
  define s1 where "s1 = upd_proc i (\<lambda>p. set_ready (clear_heartbeat_event
                      (p\<lparr>heartbeat_interval := interval, heartbeat_deadline := agent_now_safe s + u64_of_int interval + 1\<rparr>))) s"
  have "quiet s s1"
    unfolding s1_def
    by (rule quiet_upd_proc, rule keeps_set_ready, rule keeps_clear_heartbeat) (simp add: keeps_defs digest_wf_def)
  from good_quiet [OF g this] have g1: "kinv s1" "i < length (ks_procs s1)" "\<not> dead (pr s1 i)" "good i s1"
    by (simp_all add: good_def)
  have "t = s \<or> agent_heartbeat_wheel_reschedule i s1 = Some t"
    using r by (auto simp: agent_proc_heartbeat_set_def Let_def s1_def split: if_splits)
  then show ?thesis
    using g good_life [OF g1(4)] kinv_reschedule [OF g1(1-3), of t] same_life_off [of t s1] by blast
qed

lemma good_heartbeat_stop:
  assumes g: "good i s" and r: "agent_proc_heartbeat_stop i s = Some (v, t)"
  shows "good i t"
proof (cases "agent_type (pr s i) = AGENT_TYPE_NORMAL")
  case True
  with r g show ?thesis by (simp add: agent_proc_heartbeat_stop_def)
next
  case False
  then obtain s1 where s1: "agent_heartbeat_wheel_remove i s = Some s1"
    "t = upd_proc i (\<lambda>p. clear_heartbeat_event (p\<lparr>heartbeat_interval := 0, heartbeat_deadline := 0\<rparr>)) s1"
    using r by (auto simp: agent_proc_heartbeat_stop_def)
  have q: "quiet s1 t"
    unfolding s1(2) by (rule quiet_upd_proc, rule keeps_clear_heartbeat) (simp add: keeps_defs digest_wf_def)
  have "kinv s" "i < length (ks_procs s)" using g by (simp_all add: good_def)
  note k = kinv_remove [OF this s1(1)]
  show ?thesis by (rule good_quiet [OF good_life [OF g k(1) same_life_off [OF k(3)]] q])
qed

lemma good_agent_tick:
  assumes g: "good i s" and r: "agent_tick now s = Some t"
  shows "good i t"
proof -
  have "kinv s" using g by (simp add: good_def)
  from good_life [OF g kinv_agent_tick [OF this r]] show ?thesis .
qed

text \<open>What the parent does once its memory is copied.\<close>

lemma good_fork_child:
  assumes g: "good i s2" and d: "d < length (ks_procs s2)" "d \<noteq> i" "detached (pr s2 d)" "\<not> dead (pr s2 d)"
    and s3: "s3 = agent_after_fork d i (upd_proc d (\<lambda>p. p\<lparr>p_sz := z\<rparr>) s2)"
    and s4: "dup_files (p_ofile (pr s3 i)) s3 = Some s4"
    and s5: "s5 = upd_proc d (\<lambda>p. p\<lparr>p_ofile := ofs, p_cwd := c, p_name := nm, p_parent := Some i, p_state := RUNNABLE,
               p_vma := None\<rparr>) (s4\<lparr>ks_fs := fs\<rparr>)"
    and t: "copy_vmas VMA_FUEL d w None s5 = Some t"
  shows "good i t"
proof -
  let ?u = "upd_proc d (\<lambda>p. p\<lparr>p_sz := z\<rparr>) s2"
  have q: "quiet s2 ?u" by (rule quiet_upd_proc) (simp add: keeps_defs digest_wf_def)
  have u: "detached (pr ?u d)" "\<not> dead (pr ?u d)" "d < length (ks_procs ?u)" using d by (simp_all add: detached_def dead_def)
  have gu: "good i ?u" by (rule good_quiet [OF g q])
  note k3 = kinv_after_fork [OF _ u(3,1,2), of i, folded s3]
  have "pr s3 i = pr ?u i" using d(2) by (simp add: s3 after_fork_other)
  then have g3: "good i s3" using gu k3 by (simp add: good_def)
  have q4: "quiet s3 s4" by (rule quiet_optD [OF quiet_dup_files s4])
  have "\<not> dead (pr s4 d)" using k3(2,3) keeps_life(1) [OF quietD(2) [OF q4, of d]] u(3) gu by (simp add: good_def)
  then have q5: "quiet s4 s5"
    unfolding s5 by (intro quiet_trans [OF quiet_fields(2) quiet_upd_proc]) (simp add: keeps_defs digest_wf_def dead_def)
  show ?thesis
    by (rule good_quiet [OF g3 quiet_trans [OF quiet_trans [OF q4 q5] quiet_optD [OF quiet_copy_vmas t]]])
qed

lemma good_fork:
  assumes g: "good i s" and np: "ks_nextpid s + 1 < 2 ^ 31" and r: "fork tramp i s = Some (v, t)"
  shows "good i t"
proof -
  have inv: "kinv s" and i: "i < length (ks_procs s)" "\<not> dead (pr s i)" using g by (simp_all add: good_def)
  obtain ro s1 where a: "allocproc tramp s = Some (ro, s1)" using r by (auto simp: fork_def bind_eq_Some_conv)
  note k = kinv_allocproc [OF inv np a]
  have "pr s1 i = pr s i" using k(4) [of i] i(2) by (simp add: dead_def)
  then have g1: "good i s1" using k(1,2) i by (simp add: good_def)
  show ?thesis
  proof (cases ro)
    case None
    with r a g1 show ?thesis by (simp add: fork_def)
  next
    case (Some d)
    note f = k(3) [OF Some]
    have d1: "d < length (ks_procs s1)" using f k(2) by simp
    have ne: "i \<noteq> d" using f i(2) by (auto simp: dead_def)
    obtain ok pt fl where u: "uvmcopy (p_pagetable (pr s1 i)) (p_pagetable (pr s1 d)) (p_sz (pr s1 i)) (ks_freelist s1) = Some (ok, pt, fl)"
      using r a Some by (auto simp: fork_def bind_eq_Some_conv)
    define s2 where "s2 = upd_proc d (\<lambda>p. p\<lparr>p_pagetable := pt\<rparr>) (s1\<lparr>ks_freelist := fl\<rparr>)"
    have q2: "quiet s1 s2" unfolding s2_def by (rule quiet_trans [OF quiet_fields(1) quiet_proc_mem(1)])
    note g2 = good_quiet [OF g1 q2]
    note body = r [unfolded fork_def a Option.bind.simps prod.case Some option.case u Let_def s2_def [symmetric]]
    show ?thesis
    proof (cases ok)
      case False
      with body obtain fr: "freeproc d s2 = Some t" by (auto simp: bind_eq_Some_conv)
      have "detached (pr s2 d)" using f d1 by (simp add: s2_def detached_def)
      then have "kinv t" using kinv_freeproc [OF kinv_quiet [OF k(1) q2] _ _ fr] quietD(1) [OF q2] d1 by simp
      with g2 freeproc_procs(1) [OF fr] ne show ?thesis by (auto simp: good_def)
    next
      case True
      define s3 where "s3 = agent_after_fork d i (upd_proc d (\<lambda>p. p\<lparr>p_sz := p_sz (pr s2 i)\<rparr>) s2)"
      have d2: "d < length (ks_procs s2)" "detached (pr s2 d)" "\<not> dead (pr s2 d)"
        using f d1 by (simp_all add: s2_def detached_def dead_def)
      obtain s4 cwd where s4: "dup_files (p_ofile (pr s3 i)) s3 = Some s4" "p_cwd (pr s4 i) = Some cwd"
        using body True by (auto simp: bind_eq_Some_conv s3_def)
      define s5 where "s5 = upd_proc d (\<lambda>p. p\<lparr>p_ofile := p_ofile (pr s4 i), p_cwd := Some cwd,
                           p_name := safestr 16 (p_name (pr s4 i)), p_parent := Some i, p_state := RUNNABLE,
                           p_vma := None\<rparr>) (s4\<lparr>ks_fs := idup cwd (ks_fs s4)\<rparr>)"
      have "copy_vmas VMA_FUEL d (p_vma (pr s5 i)) None s5 = Some t"
        using body True s4 by (auto simp: bind_eq_Some_conv s3_def s5_def)
      from good_fork_child [OF g2 d2(1) ne [symmetric] d2(2,3) s3_def s4(1) s5_def this] show ?thesis .
    qed
  qed
qed

subsection \<open>Death\<close>

lemma good_wait_scan:
  assumes g: "good i s" and r: "wait_scan i addr s = Some w"
  shows "good i (case w of Inl (v, t) \<Rightarrow> t | Inr t \<Rightarrow> t)"
proof (cases "first_slot (\<lambda>p. p_parent p = Some i \<and> p_state p = ZOMBIE) (ks_procs s)")
  case None
  have "\<not> dead (pr s i)" using g by (simp add: good_def)
  with r None g good_quiet [OF g quiet_sleep_on] show ?thesis by (auto simp: wait_scan_def split: if_splits)
next
  case (Some k)
  note f = first_slot_less [OF Some] first_slot_holds [OF Some]
  obtain ok s1 where c: "(if addr \<noteq> 0 then copyout_proc i addr (le32 (word_of_int (p_xstate (pr s k)))) s else (True, s)) = (ok, s1)"
    by force
  have q: "quiet s s1" using quiet_copyout [of s i addr "le32 (word_of_int (p_xstate (pr s k)))"] c by (auto split: if_splits)
  note g1 = good_quiet [OF g q]
  then have i1: "kinv s1" by (simp add: good_def)
  show ?thesis
  proof (cases ok)
    case False
    with r Some c g1 show ?thesis by (auto simp: wait_scan_def)
  next
    case True
    then obtain s2 where s2: "freeproc k s1 = Some s2" "w = Inl (p_pid (pr s k), s2)"
      using r Some c by (auto simp: wait_scan_def bind_eq_Some_conv)
    have k1: "k < length (ks_procs s1)" using f(1) quietD(1) [OF q] by simp
    have dk: "dead (pr s1 k)" using keeps_life(1) [OF quietD(2) [OF q f(1)]] f(2) by (simp add: dead_def)
    with g1 have "k \<noteq> i" by (auto simp: good_def)
    with g1 freeproc_procs(1) [OF s2(1)] kinv_freeproc [OF i1 k1 dead_detached [OF i1 k1 dk] s2(1)] s2(2)
    show ?thesis by (auto simp: good_def)
  qed
qed

lemma kinv_proc_exit:
  assumes inv: "kinv s" and i: "i < length (ks_procs s)" and r: "agent_proc_exit i s = Some t"
  shows "kinv t" "detached (pr t i)" "length (ks_procs t) = length (ks_procs s)" "p_state (pr t i) = p_state (pr s i)"
proof -
  obtain s1 where s1: "agent_heartbeat_wheel_remove i s = Some s1" using r by (auto simp: agent_proc_exit_def bind_eq_Some_conv)
  note k1 = kinv_remove [OF inv i s1]
  define s2 where "s2 = s1\<lparr>ks_dynamic_tools := map_slots (\<lambda>t. dt_used t \<and> dt_owner_pid t = p_pid (pr s1 i)) (\<lambda>_. zero_tool) (ks_dynamic_tools s1),
                  ks_dynamic_requests := map (exit_request (p_pid (pr s1 i))) (ks_dynamic_requests s1)\<rparr>"
  define s3 where "s3 = upd_global (agent_lease_reap_pid (p_pid (pr s1 i))) (wakeup i ChanRequests s2)"
  have t: "t = agent_workflow_leave i s3" using r s1 by (simp add: agent_proc_exit_def Let_def s2_def s3_def)
  have q: "quiet s1 s3"
  proof -
    have "quiet s1 s2" unfolding s2_def by (rule quiet_same) simp_all
    moreover have "quiet (wakeup i ChanRequests s2) s3"
      unfolding s3_def by (rule quiet_global) (simp_all add: agent_lease_reap_pid_def)
    ultimately show ?thesis using quiet_trans quiet_wakeup by blast
  qed
  have len: "length (ks_procs s1) = length (ks_procs s)" "length (ks_procs s3) = length (ks_procs s1)"
    using off_wheel_kstD(8) [OF k1(3)] quietD(1) [OF q] by simp_all
  have i3: "i < length (ks_procs s3)" using i len by simp
  have k3: "keeps (pr s1 i) (pr s3 i)" using quietD(2) [OF q] i len by simp
  have kv: "kinv s3" by (rule kinv_quiet [OF k1(1) q])
  then show "kinv t" unfolding t by (rule kinv_leave [OF _ i3])
  have own: "pr t i = (pr s3 i)\<lparr>workflow_member_registered := False\<rparr>" unfolding t by (rule leave_own [OF kinvD(2) [OF kv] i3])
  then show "detached (pr t i)" using keeps_active [OF k3] k1(2) by (simp add: detached_def)
  show "length (ks_procs t) = length (ks_procs s)" using len by (simp add: t leave_frame)
  have "p_state (pr s3 i) = p_state (pr s1 i)"
    by (simp add: s3_def wakeup_def pr_for_procs_idx i len s2_def)
  with off_wheel_same(2) [OF off_wheel_kst_proc [OF k1(3) i]] show "p_state (pr t i) = p_state (pr s i)"
    by (simp add: own off_wheel_same_fields(2) [OF off_wheel_kst_proc [OF k1(3) i]])
qed

text \<open>A process that is off the wheel and registered nowhere may become a zombie.\<close>

lemma kinv_zombie:
  assumes inv: "kinv s" and i: "i < length (ks_procs s)" and d: "detached (pr s i)" and st: "p_state (pr s i) \<noteq> UNUSED"
  shows "kinv (upd_proc i (\<lambda>p. p\<lparr>p_xstate := x, p_state := ZOMBIE\<rparr>) s)"
proof (rule kinv_one [OF inv i])
  let ?t = "upd_proc i (\<lambda>p. p\<lparr>p_xstate := x, p_state := ZOMBIE\<rparr>) s"
  show "workflow_inv ?t" by (rule workflow_inv_upd_proc [OF kinvD(2) [OF inv]]) (simp add: member_tag_def)
  show "proc_ok (pr ?t i)" using kinvD(4) [OF inv i] d i by (simp add: proc_ok_def detached_def digest_wf_def)
qed (use i st in \<open>simp_all add: wheel_tag_def live_pid_def\<close>)

lemma quiet_reparent: "quiet s (reparent initproc i s)"
proof -
  have "quiet s (for_procs (\<lambda>p. p_parent p = Some i) (\<lambda>p. p\<lparr>p_parent := Some initproc\<rparr>) s)"
    by (rule quiet_for_procs) (simp add: keeps_defs digest_wf_def)
  then show ?thesis using quiet_trans [OF _ quiet_wakeup] by (simp add: reparent_def)
qed

lemma keeps_detached: "keeps p q \<Longrightarrow> detached q = detached p"
  using keeps_active [of p q] keeps_registered [of p q] by (simp add: detached_def)

lemma kinv_exit:
  assumes inv: "kinv s" and i: "i < length (ks_procs s)" and live: "\<not> dead (pr s i)" and r: "exit initproc i status s = Some t"
  shows "kinv t" "length (ks_procs t) = length (ks_procs s)"
proof -
  have ini: "i \<noteq> initproc" using r by (auto simp: exit_def split: if_splits)
  obtain s1 s2 cwd s3 where s: "exit_vmas VMA_FUEL i (p_vma (pr s i)) s = Some s1" "close_files i [0..<NOFILE] s1 = Some s2"
    "p_cwd (pr s2 i) = Some cwd" "on_fs (iput cwd) s2 = Some s3"
    using r ini by (auto simp: exit_def bind_eq_Some_conv)
  define s4 where "s4 = upd_proc i (\<lambda>p. p\<lparr>p_cwd := None\<rparr>) s3"
  define s5 where "s5 = (if is_workflow_leader (pr s4 i)
                  then snd (agent_cascade_terminate (Some i) AGENT_CASCADE_PLANNER_EXIT False s4) else s4)"
  note body = r [unfolded exit_def if_not_P [OF ini] s Option.bind.simps Let_def, folded s4_def, folded s5_def]
  obtain s6 where s6: "agent_proc_exit i s5 = Some s6" using body by (auto simp: bind_eq_Some_conv)
  define s7 where "s7 = reparent initproc i s6"
  define s8 where "s8 = (case p_parent (pr s7 i) of None \<Rightarrow> s7 | Some q \<Rightarrow> wakeup i (ChanProc q) s7)"
  have t: "t = upd_proc i (\<lambda>p. p\<lparr>p_xstate := status, p_state := ZOMBIE\<rparr>) s8"
    using body [unfolded s6 Option.bind.simps, folded s7_def, folded s8_def] by simp
  have "quiet s s2" using quiet_trans [OF quiet_optD [OF quiet_exit_vmas s(1)] quiet_optD [OF quiet_close_files s(2)]] .
  also have "quiet s2 s4"
    unfolding s4_def by (rule quiet_trans [OF quiet_optD [OF quiet_on_fs s(4)] quiet_upd_proc]) (simp add: keeps_defs digest_wf_def)
  also have "quiet s4 s5" using quiet_cascade by (simp add: s5_def)
  finally have q5: "quiet s s5" .
  have i5: "i < length (ks_procs s5)" using i quietD(1) [OF q5] by simp
  have l5: "\<not> dead (pr s5 i)" using keeps_life(1) [OF quietD(2) [OF q5 i]] live by simp
  note e = kinv_proc_exit [OF kinv_quiet [OF inv q5] i5 s6]
  have i6: "i < length (ks_procs s6)" using i5 e(3) by simp
  have q8: "quiet s6 s8"
    using quiet_trans [OF quiet_reparent quiet_wakeup] quiet_reparent by (simp add: s8_def s7_def split: option.split)
  note k8 = quietD(2) [OF q8 i6]
  have "p_state (pr s8 i) \<noteq> UNUSED" using keeps_life(1) [OF k8] k8 e(4) l5 by (auto simp: dead_def keeps_def life_def)
  with kinv_zombie [OF kinv_quiet [OF e(1) q8]] keeps_detached [OF k8] e(2) i6 quietD(1) [OF q8]
  show "kinv t" unfolding t by simp
  show "length (ks_procs t) = length (ks_procs s)" using quietD(1) [OF q8] e(3) quietD(1) [OF q5] by (simp add: t)
qed

subsection \<open>Becoming an agent\<close>

lemma quiet_mark_region: "quiet_res s (mark_region i s)"
proof -
  have pt: "quiet s (upd_proc i (\<lambda>p. p\<lparr>p_pagetable := pt\<rparr>) (s\<lparr>ks_freelist := fl\<rparr>))" for pt fl
    by (rule quiet_trans [OF quiet_fields(1) quiet_proc_mem(1)])
  have rg: "quiet u (upd_proc i (\<lambda>p. p\<lparr>p_pagetable := pt, p_sz := z, context_region_start := a, context_region_size := n\<rparr>) u)" for u pt z a n
    by (rule quiet_upd_proc) (simp add: keeps_defs digest_wf_def)
  show ?thesis
    unfolding mark_region_def Let_def
    by (intro quiet_res_if quiet_res_option quiet_res_None quiet_res_Some quiet_refl quiet_res_prod pt quiet_trans [OF pt rg])
qed

lemma keeps_mark_fields: "keeps p (mark_fields type interval quota now p)"
  by (simp add: mark_fields_def Let_def keeps_defs digest_wf_def mailbox_inv_empty)

lemma keeps_mark_reset: "keeps p (mark_reset p)"
proof -
  have 1: "keeps p (p\<lparr>context_generation := 1, context_first_sequence := 0, context_next_sequence := 1\<rparr>)"
    by (simp add: keeps_defs digest_wf_def)
  have 2: "keeps q (q\<lparr>wait_generation := 0, wait_timeout_ticks := 0, wait_deadline := 0, last_context_query := 0, context_reuse_hit := 0\<rparr>)" for q
    by (simp add: keeps_defs digest_wf_def)
  show ?thesis unfolding mark_reset_def by (rule keeps_trans [OF keeps_trans [OF 1 keeps_digest_clear] 2])
qed

lemma quiet_mark_identity:
  "quiet s (mark_identity i s)" "i < length (ks_procs s) \<Longrightarrow> identity_generation (pr (mark_identity i s) i) \<noteq> 0"
proof -
  obtain gen g where g: "agent_next_identity (ks_global s) = (gen, g)" by force
  have "quiet s (s\<lparr>ks_global := g\<rparr>)"
    by (rule quietI) (use agent_next_identity_frame [of "ks_global s"] g in simp_all)
  moreover have "quiet u (upd_proc i (\<lambda>p. p\<lparr>identity_generation := gen\<rparr>) u)" for u
    by (rule quiet_upd_proc) (simp add: keeps_defs digest_wf_def)
  ultimately show "quiet s (mark_identity i s)" using quiet_trans by (simp add: mark_identity_def g)
  show "i < length (ks_procs s) \<Longrightarrow> identity_generation (pr (mark_identity i s) i) \<noteq> 0"
    using agent_next_identity_nonzero [of "ks_global s"] g by (simp add: mark_identity_def)
qed

text \<open>A live process id is positive and fits an \<open>int\<close>, so the workflow id made of it is not zero.\<close>

lemma live_pid_key:
  assumes "kinv s" "i < length (ks_procs s)" "\<not> dead (pr s i)"
  shows "u64_of_int (p_pid (pr s i)) \<noteq> 0"
proof -
  have "live_pid (pr s i) = Some (p_pid (pr s i))" using assms(3) by (simp add: live_pid_def dead_def)
  with kinvD(3) [OF assms(1)] assms(2) have "0 < p_pid (pr s i)" "p_pid (pr s i) < 2 ^ 31" by (auto simp: pids_ok_def)
  then have "uint (u64_of_int (p_pid (pr s i)) :: u64) = p_pid (pr s i)" by (simp add: uint_word_of_int)
  with \<open>0 < p_pid (pr s i)\<close> show ?thesis by (metis less_irrefl unsigned_0)
qed

lemma mark_own_register:
  fixes leader :: bool
  assumes i: "i < length (ks_procs s)" and un: "\<not> workflow_member_registered (pr s i)"
  defines "s1 \<equiv> upd_proc i (\<lambda>p. p\<lparr>workflow_id := u64_of_int (p_pid p), workflow_leader_pid := p_pid p,
                 workflow_leader_generation := identity_generation p, agent_parent_pid := 0,
                 agent_parent_generation := 0, is_workflow_leader := leader\<rparr>) s"
  shows "mark_own_workflow leader i s = snd (workflow_register agent_workflow_create_locked i s1)"
  using un i by (simp add: mark_own_workflow_def workflow_register_def Let_def case_prod_beta s1_def upd_global_def)

lemma kinv_mark_own:
  assumes inv: "kinv s" and i: "i < length (ks_procs s)" and live: "\<not> dead (pr s i)"
    and un: "\<not> workflow_member_registered (pr s i)" and gen: "identity_generation (pr s i) \<noteq> 0"
  shows "kinv (mark_own_workflow leader i s)"
proof -
  define q where "q = (pr s i)\<lparr>workflow_id := u64_of_int (p_pid (pr s i)), workflow_leader_pid := p_pid (pr s i),
                 workflow_leader_generation := identity_generation (pr s i), agent_parent_pid := 0,
                 agent_parent_generation := 0, is_workflow_leader := leader\<rparr>"
  define s1 where "s1 = upd_proc i (\<lambda>p. p\<lparr>workflow_id := u64_of_int (p_pid p), workflow_leader_pid := p_pid p,
                 workflow_leader_generation := identity_generation p, agent_parent_pid := 0,
                 agent_parent_generation := 0, is_workflow_leader := leader\<rparr>) s"
  have s1: "ks_procs s1 = (ks_procs s)[i := q]" "gl_workflows (ks_global s1) = gl_workflows (ks_global s)"
    by (simp_all add: s1_def q_def upd_proc_def)
  have p1: "pr s1 i = q" "i < length (ks_procs s1)" using i by (simp_all add: s1)
  have w: "workflow_inv s1"
    by (rule workflow_inv_unregistered [OF kinvD(2) [OF inv] i s1 un]) (use un in \<open>simp add: q_def\<close>)
  have ok: "proc_ok (pr s1 i)"
    using kinvD(4) [OF inv i] live un by (simp add: p1(1) q_def proc_ok_def digest_wf_def dead_def)
  have k1: "kinv s1"
    by (rule kinv_one [OF inv i _ _ _ _ ok w]) (simp_all add: s1_def i wheel_tag_def live_pid_def)
  have "kinv (snd (workflow_register agent_workflow_create_locked i s1))"
  proof (rule kinv_register [OF k1 p1(2)])
    show "workflow_id (pr s1 i) \<noteq> 0" using live_pid_key [OF inv i live] by (simp add: p1(1) q_def)
    show "workflow_leader_generation (pr s1 i) \<noteq> 0" using gen by (simp add: p1(1) q_def)
    show "\<not> dead (pr s1 i)" "\<not> workflow_member_registered (pr s1 i)" using live un by (simp_all add: p1(1) q_def dead_def)
  qed simp
  then show ?thesis using mark_own_register [OF i un] by (simp add: s1_def)
qed

lemma kinv_mark_workflow:
  assumes inv: "kinv s" and i: "i < length (ks_procs s)" and live: "\<not> dead (pr s i)"
    and gen: "identity_generation (pr s i) \<noteq> 0"
  shows "kinv (snd (mark_workflow type i s))"
proof (cases "type = AGENT_TYPE_PRIMARY")
  case True
  define s1 where "s1 = (if workflow_member_registered (pr s i) then agent_workflow_leave i s else s)"
  have k1: "kinv s1" using inv kinv_leave [OF inv i] by (simp add: s1_def)
  have p1: "pr s1 i = (pr s i)\<lparr>workflow_member_registered := False\<rparr>" "i < length (ks_procs s1)"
    using leave_own [OF kinvD(2) [OF inv] i] i by (simp_all add: s1_def leave_frame)
  have "kinv (mark_own_workflow True i s1)"
    by (rule kinv_mark_own [OF k1 p1(2)]) (use live gen in \<open>simp_all add: p1(1) dead_def\<close>)
  with True show ?thesis by (simp add: mark_workflow_def s1_def)
next
  case False
  define s1 where "s1 = upd_proc i (\<lambda>p. p\<lparr>is_workflow_leader := False\<rparr>) s"
  have "quiet s s1" unfolding s1_def by (rule quiet_upd_proc) (simp add: keeps_defs digest_wf_def)
  then have k1: "kinv s1" by (rule kinv_quiet [OF inv])
  have i1: "i < length (ks_procs s1)" and p1: "pr s1 i = (pr s i)\<lparr>is_workflow_leader := False\<rparr>" using i by (simp_all add: s1_def)
  have l1: "\<not> dead (pr s1 i)" and g1: "identity_generation (pr s1 i) \<noteq> 0" using live gen by (simp_all add: p1 dead_def)
  consider (own) "workflow_id (pr s1 i) = 0 \<or> workflow_leader_generation (pr s1 i) = 0"
    | (join) "workflow_id (pr s1 i) \<noteq> 0" "workflow_leader_generation (pr s1 i) \<noteq> 0" "\<not> workflow_member_registered (pr s1 i)"
    | (stay) "workflow_id (pr s1 i) \<noteq> 0" "workflow_leader_generation (pr s1 i) \<noteq> 0" "workflow_member_registered (pr s1 i)"
    by blast
  then show ?thesis
  proof cases
    case own
    have "\<not> workflow_member_registered (pr s1 i)" using registered_key [OF kinvD(2) [OF k1] i1] own by blast
    from kinv_mark_own [OF k1 i1 l1 this g1] own False show ?thesis
      by (auto simp: mark_workflow_def Let_def s1_def)
  next
    case join
    have "snd (mark_workflow type i s) = snd (workflow_register agent_workflow_join_locked i s1)"
      using False join by (simp add: mark_workflow_def workflow_register_def Let_def case_prod_beta upd_global_def s1_def)
    with kinv_register [OF k1 i1 l1 _ join(3,1,2)] show ?thesis by simp
  next
    case stay
    with False k1 show ?thesis by (simp add: mark_workflow_def Let_def s1_def)
  qed
qed

lemma mark_workflow_life:
  assumes inv: "workflow_inv s" and i: "i < length (ks_procs s)"
  shows "p_state (pr (snd (mark_workflow type i s)) i) = p_state (pr s i)"
    "length (ks_procs (snd (mark_workflow type i s))) = length (ks_procs s)"
proof -
  have own: "p_state (pr (mark_own_workflow l i u) i) = p_state (pr u i) \<and> length (ks_procs (mark_own_workflow l i u)) = length (ks_procs u)"
    if "i < length (ks_procs u)" for u l
    using that by (simp add: mark_own_workflow_def Let_def case_prod_beta)
  have "p_state (pr (agent_workflow_leave i s) i) = p_state (pr s i)" using leave_own [OF inv i] by simp
  with own i show "p_state (pr (snd (mark_workflow type i s)) i) = p_state (pr s i)"
    "length (ks_procs (snd (mark_workflow type i s))) = length (ks_procs s)"
    by (simp_all add: mark_workflow_def Let_def case_prod_beta leave_frame)
qed

lemma good_mark_current:
  assumes g: "good i s" and r: "agent_mark_current type interval quota i s = Some (v, t)"
  shows "good i t"
proof -
  have inv: "kinv s" and i: "i < length (ks_procs s)" using g by (simp_all add: good_def)
  define ty where "ty = (if type \<le> AGENT_TYPE_NORMAL then AGENT_TYPE_PRIMARY else type)"
  define now where "now = agent_now_safe s"
  obtain s1 ok s2 where s: "agent_heartbeat_wheel_remove i s = Some s1" "mark_region i s1 = Some (ok, s2)"
    using r by (auto simp: agent_mark_current_def Let_def bind_eq_Some_conv)
  note k1 = kinv_remove [OF inv i s(1)]
  note g2 = good_quiet [OF good_life [OF g k1(1) same_life_off [OF k1(3)]] quiet_resD [OF quiet_mark_region s(2)]]
  define s3 where "s3 = mark_identity i (upd_proc i (mark_fields ty interval quota now) s2)"
  obtain joined s4 where s4: "mark_workflow ty i s3 = (joined, s4)" by force
  note body = r [unfolded agent_mark_current_def Let_def, folded ty_def now_def, unfolded s Option.bind.simps prod.case,
      folded s3_def, unfolded s4 prod.case]
  show ?thesis
  proof (cases ok)
    case False
    with body g2 show ?thesis by simp
  next
    case True
    let ?m = "upd_proc i (mark_fields ty interval quota now) s2"
    have "quiet s2 ?m" by (rule quiet_upd_proc) (rule keeps_mark_fields)
    then have q3: "quiet s2 s3" unfolding s3_def by (rule quiet_trans [OF _ quiet_mark_identity(1)])
    note g3' = good_quiet [OF g2 q3]
    then have k3: "kinv s3" and i3: "i < length (ks_procs s3)" and l3: "\<not> dead (pr s3 i)" by (simp_all add: good_def)
    have i2: "i < length (ks_procs s2)" using g2 by (simp add: good_def)
    have g3: "identity_generation (pr s3 i) \<noteq> 0" unfolding s3_def by (rule quiet_mark_identity(2)) (simp add: i2)
    have k4: "kinv s4" using kinv_mark_workflow [OF k3 i3 l3 g3, of ty] s4 by simp
    have e4: "p_state (pr s4 i) = p_state (pr s3 i)" "length (ks_procs s4) = length (ks_procs s3)"
      using mark_workflow_life [OF kinvD(2) [OF k3] i3, of ty] s4 by simp_all
    have g4: "good i s4" using k4 e4 i3 l3 by (simp add: good_def dead_def)
    show ?thesis
    proof (cases joined)
      case False
      with body True g4 show ?thesis by simp
    next
      case joined: True
      define s5 where "s5 = upd_proc i (\<lambda>p. agent_context_clear now (mark_reset p)) s4"
      have q5: "quiet s4 s5"
        unfolding s5_def by (rule quiet_upd_proc) (rule keeps_trans [OF keeps_mark_reset keeps_context_clear])
      note g5 = good_quiet [OF g4 q5]
      then have k5: "kinv s5" "i < length (ks_procs s5)" "\<not> dead (pr s5 i)" by (simp_all add: good_def)
      have "t = s5 \<or> agent_heartbeat_wheel_reschedule i s5 = Some t"
        using body True joined by (auto simp: s5_def bind_eq_Some_conv split: if_splits)
      then show ?thesis
        using g5 good_life [OF g5] kinv_reschedule [OF k5, of t] same_life_off [of t s5] by blast
    qed
  qed
qed

end
