(* ===== verification/Ring.thy ===== *)
theory Ring
  imports Prelude
begin

text \<open>
  Ring buffers whose read and write indices are words that only grow and wrap around: the contents between
  two indices as a list, for a buffer whose size divides the range of the indices. Shared by the console
  and the UART.
\<close>

definition ring :: "'a list \<Rightarrow> 'w::len word \<Rightarrow> 'w word \<Rightarrow> 'a list" where
  "ring buf r w = map (\<lambda>k. buf ! ((unat r + k) mod length buf)) [0..<unat (w - r)]"

definition ring_size :: "'w::len itself \<Rightarrow> 'a list \<Rightarrow> bool" where
  "ring_size t buf \<longleftrightarrow> buf \<noteq> [] \<and> length buf dvd 2 ^ LENGTH('w)"

lemma length_ring [simp]: "length (ring buf r w) = unat (w - r)"
  by (simp add: ring_def)

lemma ring_empty [simp]: "ring buf r r = []"
  by (simp add: ring_def)

lemma ring_Nil_iff: "ring buf r w = [] \<longleftrightarrow> w = r"
  by (metis length_0_conv length_ring right_minus_eq unat_eq_0)

lemma ring_size_update [simp]: "ring_size t (buf[k := c]) = ring_size t buf"
  by (simp add: ring_size_def)

lemma unat_add_ring:
  fixes r :: "'w::len word"
  assumes "ring_size TYPE('w) buf"
  shows "unat (r + of_nat k) mod length buf = (unat r + k) mod length buf"
proof -
  have "unat (r + of_nat k) = (unat r + k) mod 2 ^ LENGTH('w)"
    by (simp add: unat_word_ariths unat_of_nat take_bit_eq_mod mod_simps)
  then show ?thesis using assms by (simp add: ring_size_def mod_mod_cancel)
qed

lemma ring_nth:
  fixes r :: "'w::len word"
  assumes "ring_size TYPE('w) buf" "k < unat (w - r)"
  shows "ring buf r w ! k = buf ! (unat (r + of_nat k) mod length buf)"
  using assms by (simp add: ring_def unat_add_ring)

lemma ring_split:
  fixes r w e :: "'w::len word"
  assumes s: "ring_size TYPE('w) buf" and le: "unat (w - r) \<le> unat (e - r)"
  shows "ring buf r e = ring buf r w @ ring buf w e"
proof -
  have "unat ((e - r) - (w - r)) = unat (e - r) - unat (w - r)" using le by (intro unat_sub) (simp add: word_le_nat_alt)
  moreover have "(e - r) - (w - r) = e - w" by simp
  ultimately have n: "unat (e - w) = unat (e - r) - unat (w - r)" by metis
  show ?thesis
  proof (rule nth_equalityI)
    show "length (ring buf r e) = length (ring buf r w @ ring buf w e)" using n le by simp
    fix k assume k: "k < length (ring buf r e)"
    show "ring buf r e ! k = (ring buf r w @ ring buf w e) ! k"
    proof (cases "k < unat (w - r)")
      case True
      with k s show ?thesis by (simp add: nth_append ring_nth)
    next
      case False
      have "w + of_nat (k - unat (w - r)) = r + of_nat k" using False by (simp add: of_nat_diff)
      with k s False n show ?thesis by (simp add: nth_append ring_nth add.commute)
    qed
  qed
qed

lemma ring_one:
  fixes w :: "'w::len word"
  assumes "ring_size TYPE('w) buf"
  shows "ring buf w (w + 1) = [buf ! (unat w mod length buf)]"
proof -
  have "unat (1 :: 'w word) = 1" by simp
  then show ?thesis by (simp add: ring_def)
qed

text \<open>Another slot does not matter while the contents fit.\<close>

lemma ring_update_other:
  fixes r w x :: "'w::len word"
  assumes s: "ring_size TYPE('w) buf" and n: "unat (w - r) \<le> unat (x - r)" "unat (x - r) < length buf"
  shows "ring (buf[unat x mod length buf := c]) r w = ring buf r w"
proof (rule nth_equalityI)
  fix k assume "k < length (ring (buf[unat x mod length buf := c]) r w)"
  then have k: "k < unat (w - r)" by simp
  have x: "unat x mod length buf = (unat r + unat (x - r)) mod length buf"
    using unat_add_ring [OF s, of r "unat (x - r)"] by simp
  have "(unat r + k) mod length buf \<noteq> (unat r + unat (x - r)) mod length buf"
  proof
    assume "(unat r + k) mod length buf = (unat r + unat (x - r)) mod length buf"
    then have "length buf dvd unat (x - r) - k"
      using k n mod_eq_dvd_iff_nat [of "unat r + k" "unat r + unat (x - r)" "length buf"] by simp
    moreover have "0 < unat (x - r) - k" using k n by simp
    ultimately have "length buf \<le> unat (x - r) - k" by (rule dvd_imp_le)
    with n(2) show False by simp
  qed
  with k x s show "ring (buf[unat x mod length buf := c]) r w ! k = ring buf r w ! k"
    by (simp add: ring_def)
qed simp

lemma ring_put:
  fixes r w :: "'w::len word"
  assumes s: "ring_size TYPE('w) buf" and n: "unat (w - r) < length buf" and room: "unat (w - r) < unat (w + 1 - r)"
  shows "ring (buf[unat w mod length buf := c]) r (w + 1) = ring buf r w @ [c]"
proof -
  let ?b = "buf[unat w mod length buf := c]"
  have s': "ring_size TYPE('w) ?b" using s by simp
  have "ring ?b r (w + 1) = ring ?b r w @ ring ?b w (w + 1)"
    using room by (intro ring_split [OF s']) simp
  also have "ring ?b r w = ring buf r w" by (rule ring_update_other [OF s order_refl n])
  also have "ring ?b w (w + 1) = [c]" using s by (simp add: ring_one [OF s'] ring_size_def)
  finally show ?thesis .
qed

lemma ring_get:
  fixes r w :: "'w::len word"
  assumes s: "ring_size TYPE('w) buf" and "w \<noteq> r"
  shows "ring buf r w = buf ! (unat r mod length buf) # ring buf (r + 1) w"
proof -
  have "w - r \<noteq> 0" using assms(2) by simp
  then have "unat ((r + 1) - r) \<le> unat (w - r)" by (simp add: Suc_le_eq unat_gt_0)
  then have "ring buf r w = ring buf r (r + 1) @ ring buf (r + 1) w" by (rule ring_split [OF s])
  then show ?thesis by (simp add: ring_one [OF s])
qed

lemma ring_back:
  fixes r w :: "'w::len word"
  assumes s: "ring_size TYPE('w) buf" and "w \<noteq> r"
  shows "ring buf r w = ring buf r (w - 1) @ [buf ! (unat (w - 1) mod length buf)]"
proof -
  have "w - r \<noteq> 0" using assms(2) by simp
  then have "unat (w - r - 1) = unat (w - r) - 1" by (rule unat_minus_one)
  moreover have "w - 1 - r = w - r - 1" by (simp only: diff_right_commute)
  ultimately have "unat ((w - 1) - r) \<le> unat (w - r)" by (metis diff_le_self)
  then have "ring buf r w = ring buf r (w - 1) @ ring buf (w - 1) w" by (rule ring_split [OF s])
  moreover have "ring buf (w - 1) w = [buf ! (unat (w - 1) mod length buf)]" using ring_one [OF s, of "w - 1"] by simp
  ultimately show ?thesis by simp
qed

end
