(* ===== verification/Console.thy ===== *)
theory Console
  imports Files Ring
begin

text \<open>
  The console (kernel/console.c) and the UART driver under it (kernel/uart.c). The input buffer is a ring
  of 128 characters with a read, a write and an edit index: what lies between the first two is ready to be
  read, what lies between the last two is the line being typed. The lemmas show that the interrupt handler
  edits that line as the comment of console.c says, that a reader takes a prefix of what is ready, and that
  what is written reaches the transmitter in order. Waiting for the transmitter to be idle
  (\<open>uartputc_sync\<close>) is one step; the process listing of control-p is not modelled.
\<close>

subsection \<open>The UART\<close>

definition upd_uart :: "(uart \<Rightarrow> uart) \<Rightarrow> kst \<Rightarrow> kst" where
  "upd_uart f s = s\<lparr>ks_uart := f (ks_uart s)\<rparr>"

definition upd_cons :: "(console \<Rightarrow> console) \<Rightarrow> kst \<Rightarrow> kst" where
  "upd_cons f s = s\<lparr>ks_cons := f (ks_cons s)\<rparr>"

definition uartputc_sync :: "char \<Rightarrow> uart \<Rightarrow> uart" where
  "uartputc_sync c u = u\<lparr>ua_room := ua_room u - 1, ua_out := ua_out u @ [c]\<rparr>"

function uartstart :: "nat \<Rightarrow> kst \<Rightarrow> kst" where
  "uartstart i s =
     (let u = ks_uart s
      in if ua_w u = ua_r u \<or> ua_room u = 0 then s
         else uartstart i (wakeup i ChanUart (upd_uart (\<lambda>u. u\<lparr>ua_r := ua_r u + 1, ua_room := ua_room u - 1,
                ua_out := ua_out u @ [ua_tx u ! (unat (ua_r u) mod 32)]\<rparr>) s)))"
  by pat_completeness auto
termination
  by (relation "measure (\<lambda>(i, s). ua_room (ks_uart s))") (auto simp: upd_uart_def wakeup_def for_procs_idx_def)

declare uartstart.simps [simp del]

text \<open>\<open>Inr\<close>: the transmit buffer is full and the caller sleeps.\<close>

definition uartputc :: "nat \<Rightarrow> char \<Rightarrow> kst \<Rightarrow> kst + kst" where
  "uartputc i c s =
     (let u = ks_uart s
      in if ua_w u = ua_r u + 32 then Inr (sleep_on i ChanUart s)
         else Inl (uartstart i (upd_uart (\<lambda>u. u\<lparr>ua_tx := (ua_tx u)[unat (ua_w u) mod 32 := c], ua_w := ua_w u + 1\<rparr>) s)))"

text \<open>What was given to the transmitter, and what waits for it: nothing is lost or reordered.\<close>

definition uart_inv :: "uart \<Rightarrow> bool" where
  "uart_inv u \<longleftrightarrow> length (ua_tx u) = 32 \<and> unat (ua_w u - ua_r u) \<le> 32"

definition uart_text :: "uart \<Rightarrow> string" where
  "uart_text u = ua_out u @ ring (ua_tx u) (ua_r u) (ua_w u)"

lemma uart_size: "uart_inv u \<Longrightarrow> ring_size TYPE(64) (ua_tx u)"
  by (auto simp: uart_inv_def ring_size_def)

lemma ks_uart_simps [simp]:
  "ks_uart (upd_uart f s) = f (ks_uart s)" "ks_uart (upd_cons g s) = ks_uart s" "ks_uart (wakeup i cn s) = ks_uart s"
  "ks_uart (sleep_on i cn s) = ks_uart s"
  by (simp_all add: upd_uart_def upd_cons_def wakeup_def for_procs_idx_def sleep_on_def upd_proc_def)

lemma uartstart_text:
  "uart_inv (ks_uart s) \<Longrightarrow> uart_inv (ks_uart (uartstart i s)) \<and> uart_text (ks_uart (uartstart i s)) = uart_text (ks_uart s)"
proof (induction i s rule: uartstart.induct)
  case (1 i s)
  let ?u = "ks_uart s"
  show ?case
  proof (cases "ua_w ?u = ua_r ?u \<or> ua_room ?u = 0")
    case True
    with "1.prems" show ?thesis by (simp add: uartstart.simps [of i s] Let_def)
  next
    case False
    define u where "u = ?u\<lparr>ua_r := ua_r ?u + 1, ua_room := ua_room ?u - 1, ua_out := ua_out ?u @ [ua_tx ?u ! (unat (ua_r ?u) mod 32)]\<rparr>"
    have l: "length (ua_tx ?u) = 32" using "1.prems" by (simp add: uart_inv_def)
    have "ua_w ?u - ua_r ?u \<noteq> 0" using False by simp
    then have "unat (ua_w ?u - ua_r ?u - 1) = unat (ua_w ?u - ua_r ?u) - 1" by (rule unat_minus_one)
    moreover have "ua_w u - ua_r u = ua_w ?u - ua_r ?u - 1" by (simp add: u_def diff_diff_eq)
    ultimately have inv: "uart_inv u" using "1.prems" by (simp add: uart_inv_def le_diff_conv) (simp add: u_def)
    have tu: "uart_text u = uart_text ?u"
      using ring_get [OF uart_size [OF "1.prems"], of "ua_w ?u" "ua_r ?u"] False l by (simp add: uart_text_def u_def)
    let ?s = "wakeup i ChanUart (upd_uart (\<lambda>u. u\<lparr>ua_r := ua_r u + 1, ua_room := ua_room u - 1,
                ua_out := ua_out u @ [ua_tx u ! (unat (ua_r u) mod 32)]\<rparr>) s)"
    have "ks_uart ?s = u" by (simp add: u_def)
    with "1.IH" [OF refl] False inv tu have "uart_inv (ks_uart (uartstart i ?s)) \<and> uart_text (ks_uart (uartstart i ?s)) = uart_text ?u"
      by simp
    moreover have "uartstart i s = uartstart i ?s" using False by (simp add: uartstart.simps [of i s] Let_def)
    ultimately show ?thesis by simp
  qed
qed

lemma uartputc_text:
  assumes inv: "uart_inv (ks_uart s)" and r: "uartputc i c s = Inl t"
  shows "uart_inv (ks_uart t)" "uart_text (ks_uart t) = uart_text (ks_uart s) @ [c]"
proof -
  let ?u = "ks_uart s"
  define u where "u = ?u\<lparr>ua_tx := (ua_tx ?u)[unat (ua_w ?u) mod 32 := c], ua_w := ua_w ?u + 1\<rparr>"
  have ne: "ua_w ?u \<noteq> ua_r ?u + 32" and t: "t = uartstart i (upd_uart (\<lambda>u. u\<lparr>ua_tx := (ua_tx u)[unat (ua_w u) mod 32 := c], ua_w := ua_w u + 1\<rparr>) s)"
    using r by (auto simp: uartputc_def Let_def split: if_splits)
  have l: "length (ua_tx ?u) = 32" using inv by (simp add: uart_inv_def)
  have "ua_w ?u - ua_r ?u \<noteq> 32" using ne by (metis add.commute diff_add_cancel)
  then have "unat (ua_w ?u - ua_r ?u) \<noteq> 32" by (simp add: word_unat_eq_iff)
  then have room: "unat (ua_w ?u - ua_r ?u) < 32" using inv by (simp add: uart_inv_def)
  have e: "ua_w ?u + 1 - ua_r ?u = (ua_w ?u - ua_r ?u) + 1" by simp
  have n: "unat (ua_w ?u + 1 - ua_r ?u) = unat (ua_w ?u - ua_r ?u) + 1"
    unfolding e using room by (simp add: unat_word_ariths)
  have iu: "uart_inv u" using n room l by (simp add: uart_inv_def u_def)
  have tu: "uart_text u = uart_text ?u @ [c]"
    using ring_put [OF uart_size [OF inv], of "ua_w ?u" "ua_r ?u" c] room n l by (simp add: uart_text_def u_def)
  have "uart_inv (ks_uart (upd_uart (\<lambda>u. u\<lparr>ua_tx := (ua_tx u)[unat (ua_w u) mod 32 := c], ua_w := ua_w u + 1\<rparr>) s))"
    using iu by (simp add: u_def)
  from uartstart_text [OF this, of i] tu show "uart_inv (ks_uart t)" "uart_text (ks_uart t) = uart_text (ks_uart s) @ [c]"
    by (simp_all add: t u_def)
qed

subsection \<open>Reading and writing the console\<close>

text \<open>Both go on with the character they stopped at. A writer that slept fetches its character again; its
  memory has not changed meanwhile.\<close>

function consolewrite :: "nat \<Rightarrow> u64 \<Rightarrow> int \<Rightarrow> nat \<Rightarrow> kst \<Rightarrow> (int \<times> kst) + (nat \<times> kst)" where
  "consolewrite i src n k s =
     (if int k < n
      then case copyin_proc i (src + of_nat k) 1 s of
             None \<Rightarrow> Inl (int k, s)
           | Some bs \<Rightarrow> (case uartputc i (hd bs) s of
                           Inr s1 \<Rightarrow> Inr (k, s1)
                         | Inl s1 \<Rightarrow> consolewrite i src n (k + 1) s1)
      else Inl (int k, s))"
  by pat_completeness auto
termination
  by (relation "measure (\<lambda>(i, src, n, k, s). nat (n - int k))") auto

declare consolewrite.simps [simp del]

abbreviation (input) CTRL_D :: char where "CTRL_D \<equiv> CHR 0x04"
abbreviation (input) CTRL_H :: char where "CTRL_H \<equiv> CHR 0x08"
abbreviation (input) NEWLINE :: char where "NEWLINE \<equiv> CHR 0x0A"
abbreviation (input) RETURN :: char where "RETURN \<equiv> CHR 0x0D"
abbreviation (input) CTRL_P :: char where "CTRL_P \<equiv> CHR 0x10"
abbreviation (input) CTRL_U :: char where "CTRL_U \<equiv> CHR 0x15"
abbreviation (input) DELETE :: char where "DELETE \<equiv> CHR 0x7F"

function consoleread :: "nat \<Rightarrow> u64 \<Rightarrow> int \<Rightarrow> nat \<Rightarrow> kst \<Rightarrow> (int \<times> kst) + (nat \<times> kst)" where
  "consoleread i dst n k s =
     (if int k < n
      then let c = ks_cons s
           in if con_r c = con_w c
              then if p_killed (pr s i) then Inl (-1, s) else Inr (k, sleep_on i ChanCons s)
              else let x = con_buf c ! (unat (con_r c) mod 128);
                       s1 = upd_cons (\<lambda>c. c\<lparr>con_r := con_r c + 1\<rparr>) s
                   in if x = CTRL_D then Inl (int k, if k > 0 then s else s1)
                      else (case copyout_proc i (dst + of_nat k) [x] s1 of
                              (False, s2) \<Rightarrow> Inl (int k, s2)
                            | (True, s2) \<Rightarrow> if x = NEWLINE then Inl (int k + 1, s2) else consoleread i dst n (k + 1) s2)
      else Inl (int k, s))"
  by pat_completeness auto
termination
  by (relation "measure (\<lambda>(i, dst, n, k, s). nat (n - int k))") auto

declare consoleread.simps [simp del]

subsection \<open>Input\<close>

definition echo :: "char \<Rightarrow> kst \<Rightarrow> kst" where
  "echo c = upd_uart (uartputc_sync c)"

definition echo_backspace :: "kst \<Rightarrow> kst" where
  "echo_backspace s = echo CTRL_H (echo (CHR '' '') (echo CTRL_H s))"

lemma echo_cons [simp]: "ks_cons (echo c s) = ks_cons s" "ks_cons (echo_backspace s) = ks_cons s"
  by (simp_all add: echo_def echo_backspace_def upd_uart_def)

lemma word_minus_dec: "a \<noteq> b \<Longrightarrow> unat (a - 1 - b :: u32) < unat (a - b)"
proof -
  assume "a \<noteq> b"
  then have "a - b \<noteq> 0" by simp
  moreover have "a - 1 - b = (a - b) - 1" by simp
  ultimately show ?thesis by (metis measure_unat)
qed

function kill_line :: "kst \<Rightarrow> kst" where
  "kill_line s =
     (let c = ks_cons s
      in if con_e c \<noteq> con_w c \<and> con_buf c ! (unat (con_e c - 1) mod 128) \<noteq> NEWLINE
         then kill_line (echo_backspace (upd_cons (\<lambda>c. c\<lparr>con_e := con_e c - 1\<rparr>) s))
         else s)"
  by pat_completeness auto
termination
  by (relation "measure (\<lambda>s. unat (con_e (ks_cons s) - con_w (ks_cons s)))")
    (auto simp: upd_cons_def intro: word_minus_dec)

declare kill_line.simps [simp del]

definition consoleintr :: "nat \<Rightarrow> char \<Rightarrow> kst \<Rightarrow> kst" where
  "consoleintr i c s =
     (let b = ks_cons s
      in if c = CTRL_P then s
         else if c = CTRL_U then kill_line s
         else if c = CTRL_H \<or> c = DELETE
         then if con_e b \<noteq> con_w b then echo_backspace (upd_cons (\<lambda>b. b\<lparr>con_e := con_e b - 1\<rparr>) s) else s
         else if c \<noteq> NUL \<and> con_e b - con_r b < 128
         then let d = (if c = RETURN then NEWLINE else c);
                  s1 = upd_cons (\<lambda>b. b\<lparr>con_buf := (con_buf b)[unat (con_e b) mod 128 := d], con_e := con_e b + 1\<rparr>) (echo d s)
              in if d = NEWLINE \<or> d = CTRL_D \<or> con_e (ks_cons s1) - con_r (ks_cons s1) = 128
                 then wakeup i ChanCons (upd_cons (\<lambda>b. b\<lparr>con_w := con_e b\<rparr>) s1)
                 else s1
         else s)"

text \<open>The interrupt: the characters that arrived, then room in the transmitter.\<close>

definition uartintr :: "nat \<Rightarrow> string \<Rightarrow> nat \<Rightarrow> kst \<Rightarrow> kst" where
  "uartintr i arrived room s = uartstart i (fold (consoleintr i) arrived (upd_uart (\<lambda>u. u\<lparr>ua_room := room\<rparr>) s))"

subsection \<open>The line discipline\<close>

definition cons_ready :: "console \<Rightarrow> string" where
  "cons_ready c = ring (con_buf c) (con_r c) (con_w c)"

definition cons_edit :: "console \<Rightarrow> string" where
  "cons_edit c = ring (con_buf c) (con_w c) (con_e c)"

text \<open>The indices are in order, the buffer holds at most its 128 characters, and the line being typed has no
  newline.\<close>

definition cons_inv :: "console \<Rightarrow> bool" where
  "cons_inv c \<longleftrightarrow> length (con_buf c) = 128 \<and> unat (con_w c - con_r c) \<le> unat (con_e c - con_r c) \<and>
     unat (con_e c - con_r c) \<le> 128 \<and> NEWLINE \<notin> set (cons_edit c)"

text \<open>What a key does to what is ready and to the line being typed.\<close>

definition edit_key :: "char \<Rightarrow> string \<times> string \<Rightarrow> string \<times> string" where
  "edit_key c = (\<lambda>(rd, ed).
     if c = CTRL_P then (rd, ed)
     else if c = CTRL_U then (rd, [])
     else if c = CTRL_H \<or> c = DELETE then (rd, butlast ed)
     else if c = NUL \<or> length rd + length ed \<ge> 128 then (rd, ed)
     else let line = ed @ [if c = RETURN then NEWLINE else c]
          in if last line = NEWLINE \<or> last line = CTRL_D \<or> length rd + length line = 128 then (rd @ line, []) else (rd, line))"

lemma cons_inv_size: "cons_inv c \<Longrightarrow> ring_size TYPE(32) (con_buf c)"
  by (auto simp: cons_inv_def ring_size_def)

lemma cons_lengths:
  assumes "cons_inv c"
  shows "length (cons_ready c) + length (cons_edit c) = unat (con_e c - con_r c)"
proof -
  have "ring (con_buf c) (con_r c) (con_e c) = cons_ready c @ cons_edit c"
    using assms ring_split [OF cons_inv_size [OF assms], of "con_w c" "con_r c" "con_e c"]
    by (simp add: cons_inv_def cons_ready_def cons_edit_def)
  from arg_cong [OF this, of length] show ?thesis by simp
qed

lemma ks_cons_simps [simp]:
  "ks_cons (upd_cons f s) = f (ks_cons s)" "ks_cons (upd_uart g s) = ks_cons s" "ks_cons (wakeup i cn s) = ks_cons s"
  "ks_cons (sleep_on i cn s) = ks_cons s" "ks_cons (upd_proc i h s) = ks_cons s"
  by (simp_all add: upd_cons_def upd_uart_def wakeup_def for_procs_idx_def sleep_on_def upd_proc_def)

lemma unat_plus_one: "unat x < 128 \<Longrightarrow> unat (x + 1 :: u32) = unat x + 1"
  by (simp add: unat_word_ariths)

text \<open>One more character typed.\<close>

lemma cons_put:
  fixes d :: char
  assumes inv: "cons_inv c" and room: "unat (con_e c - con_r c) < 128"
  defines "c1 \<equiv> c\<lparr>con_buf := (con_buf c)[unat (con_e c) mod 128 := d], con_e := con_e c + 1\<rparr>"
  shows "unat (con_e c1 - con_r c1) = unat (con_e c - con_r c) + 1"
    "d \<noteq> NEWLINE \<Longrightarrow> cons_inv c1" "cons_ready c1 = cons_ready c" "cons_edit c1 = cons_edit c @ [d]"
    "cons_inv (c1\<lparr>con_w := con_e c1\<rparr>)" "cons_ready (c1\<lparr>con_w := con_e c1\<rparr>) = cons_ready c @ cons_edit c @ [d]"
    "cons_edit (c1\<lparr>con_w := con_e c1\<rparr>) = []"
proof -
  note s = cons_inv_size [OF inv]
  let ?r = "con_r c" and ?w = "con_w c" and ?e = "con_e c"
  have l: "length (con_buf c) = 128" "unat (?w - ?r) \<le> unat (?e - ?r)" using inv by (simp_all add: cons_inv_def)
  have e1: "con_e c1 - ?r = (?e - ?r) + 1" by (simp add: c1_def)
  have n: "unat (con_e c1 - ?r) = unat (?e - ?r) + 1" unfolding e1 by (rule unat_plus_one [OF room])
  then show "unat (con_e c1 - con_r c1) = unat (?e - ?r) + 1" by (simp add: c1_def)
  have ew: "unat (?e - ?w) \<le> unat (?e - ?r)" using cons_lengths [OF inv] by (simp add: cons_edit_def)
  then have room': "unat (?e - ?w) < 128" using room by simp
  have ew1: "?e + 1 - ?w = (?e - ?w) + 1" by simp
  have n': "unat (?e + 1 - ?w) = unat (?e - ?w) + 1" unfolding ew1 by (rule unat_plus_one [OF room'])
  have rd: "cons_ready c1 = cons_ready c"
    using ring_update_other [OF s l(2)] room l(1) by (simp add: cons_ready_def c1_def)
  have ed: "cons_edit c1 = cons_edit c @ [d]"
    using ring_put [OF s, of ?e ?w d] room' n' l(1) by (simp add: cons_edit_def c1_def)
  have all: "ring (con_buf c1) ?r (con_e c1) = ring (con_buf c) ?r ?e @ [d]"
    using ring_put [OF s, of ?e ?r d] room n l(1) by (simp add: c1_def)
  have "ring (con_buf c) ?r ?e = cons_ready c @ cons_edit c"
    using ring_split [OF s l(2)] by (simp add: cons_ready_def cons_edit_def)
  with all show "cons_ready (c1\<lparr>con_w := con_e c1\<rparr>) = cons_ready c @ cons_edit c @ [d]"
    by (simp add: cons_ready_def) (simp add: c1_def)
  show "cons_edit (c1\<lparr>con_w := con_e c1\<rparr>) = []" by (simp add: cons_edit_def)
  show "cons_inv (c1\<lparr>con_w := con_e c1\<rparr>)" using n room l by (simp add: cons_inv_def cons_edit_def) (simp add: c1_def)
  show "cons_ready c1 = cons_ready c" by (rule rd)
  show "cons_edit c1 = cons_edit c @ [d]" by (rule ed)
  show "d \<noteq> NEWLINE \<Longrightarrow> cons_inv c1" using inv n room l by (simp add: cons_inv_def ed) (simp add: c1_def)
qed

text \<open>One character fewer.\<close>

lemma cons_back:
  assumes inv: "cons_inv c" and ne: "con_e c \<noteq> con_w c"
  defines "c1 \<equiv> c\<lparr>con_e := con_e c - 1\<rparr>"
  shows "cons_inv c1" "cons_ready c1 = cons_ready c" "cons_edit c = cons_edit c1 @ [con_buf c ! (unat (con_e c - 1) mod 128)]"
proof -
  note s = cons_inv_size [OF inv]
  have l: "length (con_buf c) = 128" using inv by (simp add: cons_inv_def)
  show ed: "cons_edit c = cons_edit c1 @ [con_buf c ! (unat (con_e c - 1) mod 128)]"
    using ring_back [OF s ne] l by (simp add: cons_edit_def c1_def)
  show "cons_ready c1 = cons_ready c" by (simp add: cons_ready_def c1_def)
  have n: "unat (con_w c - con_r c) + unat (con_e c - con_w c) = unat (con_e c - con_r c)"
    using cons_lengths [OF inv] by (simp add: cons_ready_def cons_edit_def)
  have "con_e c - con_w c \<noteq> 0" using ne by simp
  then have p: "0 < unat (con_e c - con_w c)" by (simp add: unat_gt_0)
  then have "con_e c - con_r c \<noteq> 0" using n by (metis add_is_0 not_gr_zero unat_0)
  then have "unat (con_e c - con_r c - 1) = unat (con_e c - con_r c) - 1" by (rule unat_minus_one)
  moreover have "con_e c1 - con_r c1 = con_e c - con_r c - 1" by (simp add: c1_def)
  ultimately have "unat (con_e c1 - con_r c1) = unat (con_e c - con_r c) - 1" by metis
  moreover have "unat (con_w c - con_r c) \<le> unat (con_e c - con_r c) - 1" using n p by linarith
  moreover have "unat (con_e c - con_r c) - 1 \<le> 128" "length (con_buf c) = 128" "NEWLINE \<notin> set (cons_edit c1)"
    using inv by (simp_all add: cons_inv_def ed le_diff_conv)
  ultimately show "cons_inv c1" by (simp add: cons_inv_def) (simp add: c1_def)
qed

lemma kill_line_edit:
  assumes "cons_inv (ks_cons s)"
  shows "cons_inv (ks_cons (kill_line s)) \<and> cons_ready (ks_cons (kill_line s)) = cons_ready (ks_cons s) \<and>
    cons_edit (ks_cons (kill_line s)) = []"
  using assms
proof (induction s rule: kill_line.induct)
  case (1 s)
  let ?c = "ks_cons s"
  show ?case
  proof (cases "con_e ?c \<noteq> con_w ?c")
    case False
    then show ?thesis using "1.prems" by (simp add: kill_line.simps [of s] Let_def cons_edit_def)
  next
    case True
    note b = cons_back [OF "1.prems" True]
    have "con_buf ?c ! (unat (con_e ?c - 1) mod 128) \<in> set (cons_edit ?c)" by (simp add: b(3))
    then have nl: "con_buf ?c ! (unat (con_e ?c - 1) mod 128) \<noteq> NEWLINE" using "1.prems" by (auto simp: cons_inv_def)
    let ?s = "echo_backspace (upd_cons (\<lambda>c. c\<lparr>con_e := con_e c - 1\<rparr>) s)"
    have k: "kill_line s = kill_line ?s" using True nl by (simp add: kill_line.simps [of s] Let_def)
    have "cons_inv (ks_cons ?s)" using b(1) by simp
    with "1.IH" [OF refl] True nl have "cons_inv (ks_cons (kill_line ?s)) \<and>
        cons_ready (ks_cons (kill_line ?s)) = cons_ready (ks_cons ?s) \<and> cons_edit (ks_cons (kill_line ?s)) = []" by blast
    then show ?thesis using b(2) by (simp add: k)
  qed
qed

lemma consoleintr_put:
  fixes i :: nat
  assumes inv: "cons_inv (ks_cons s)" and room: "unat (con_e (ks_cons s) - con_r (ks_cons s)) < 128"
    and c: "c \<notin> {CTRL_P, CTRL_U, CTRL_H, DELETE, NUL}"
  defines "t \<equiv> consoleintr i c s"
  shows "cons_inv (ks_cons t) \<and>
    (cons_ready (ks_cons t), cons_edit (ks_cons t)) = edit_key c (cons_ready (ks_cons s), cons_edit (ks_cons s))"
proof -
  let ?c = "ks_cons s" and ?d = "if c = RETURN then NEWLINE else c"
  define c1 where "c1 = ?c\<lparr>con_buf := (con_buf ?c)[unat (con_e ?c) mod 128 := ?d], con_e := con_e ?c + 1\<rparr>"
  note p = cons_put [OF inv room, of ?d, folded c1_def]
  have len: "length (cons_ready ?c) + length (cons_edit ?c) = unat (con_e ?c - con_r ?c)" by (rule cons_lengths [OF inv])
  let ?commit = "?d = NEWLINE \<or> ?d = CTRL_D \<or> con_e c1 - con_r c1 = 128"
  have e128: "con_e c1 - con_r c1 = 128 \<longleftrightarrow> unat (con_e ?c - con_r ?c) + 1 = 128"
    unfolding p(1) [symmetric] by (simp add: word_unat_eq_iff)
  have "c \<noteq> NUL \<and> con_e ?c - con_r ?c < 128" using c room by (simp add: word_less_nat_alt)
  then have t: "ks_cons t = (if ?commit then c1\<lparr>con_w := con_e c1\<rparr> else c1)"
    using c by (simp add: t_def consoleintr_def Let_def c1_def)
  have key: "edit_key c (cons_ready ?c, cons_edit ?c) =
      (if ?commit then (cons_ready ?c @ cons_edit ?c @ [?d], []) else (cons_ready ?c, cons_edit ?c @ [?d]))"
    using c room len by (simp add: edit_key_def Let_def e128 add.assoc)
  show ?thesis
  proof (cases ?commit)
    case True
    then show ?thesis unfolding t key using p(5-7) by simp
  next
    case False
    then show ?thesis unfolding t key using p(2-4) by simp
  qed
qed

text \<open>C39 (console_line_editing). A key that arrives at the console does to the input buffer what the comment of
  console.c says, on every state of the ring: a character goes to the end of the line being typed, a carriage
  return counts as newline; backspace and delete remove the last character typed and control-u the whole line,
  but never what is already ready; newline, control-d or a full buffer make the line ready to be read. A full
  buffer drops what is typed. The indices stay in order and the line being typed never contains a newline.\<close>

theorem console_line_editing:
  assumes inv: "cons_inv (ks_cons s)"
  shows "cons_inv (ks_cons (consoleintr i c s)) \<and>
    (cons_ready (ks_cons (consoleintr i c s)), cons_edit (ks_cons (consoleintr i c s))) =
      edit_key c (cons_ready (ks_cons s), cons_edit (ks_cons s))"
proof -
  let ?c = "ks_cons s"
  have len: "length (cons_ready ?c) + length (cons_edit ?c) = unat (con_e ?c - con_r ?c)" by (rule cons_lengths [OF inv])
  consider (list) "c = CTRL_P" | (kill) "c = CTRL_U" | (erase) "c = CTRL_H \<or> c = DELETE"
    | (drop) "c \<notin> {CTRL_P, CTRL_U, CTRL_H, DELETE}" "c = NUL \<or> 128 \<le> unat (con_e ?c - con_r ?c)"
    | (put) "c \<notin> {CTRL_P, CTRL_U, CTRL_H, DELETE, NUL}" "unat (con_e ?c - con_r ?c) < 128"
    by (cases "unat (con_e ?c - con_r ?c) < 128"; cases "c \<in> {CTRL_P, CTRL_U, CTRL_H, DELETE, NUL}") (simp_all only: not_less insert_iff empty_iff; blast)+
  then show ?thesis
  proof cases
    case list
    with inv show ?thesis by (simp add: consoleintr_def edit_key_def)
  next
    case kill
    with kill_line_edit [OF inv] show ?thesis by (simp add: consoleintr_def edit_key_def Let_def)
  next
    case erase
    show ?thesis
    proof (cases "con_e ?c = con_w ?c")
      case True
      with erase inv show ?thesis by (auto simp: consoleintr_def edit_key_def Let_def cons_edit_def)
    next
      case False
      with erase cons_back [OF inv False] show ?thesis by (auto simp: consoleintr_def edit_key_def Let_def)
    qed
  next
    case drop
    then have "\<not> (c \<noteq> NUL \<and> con_e ?c - con_r ?c < 128)" by (auto simp: word_less_nat_alt)
    with drop inv len show ?thesis by (auto simp: consoleintr_def edit_key_def Let_def)
  next
    case put
    from consoleintr_put [OF inv put(2,1), of i] show ?thesis by simp
  qed
qed

theorem console_line_editing_witness:
  "cons_ready (ks_cons (fold (consoleintr 0) [CHR ''a'', CHR ''b'', DELETE, CHR ''c'', RETURN] (boot_kst []))) = ''ac'' @ [NEWLINE]"
proof -
  let ?s0 = "boot_kst []"
  have i0: "cons_inv (ks_cons ?s0)" "cons_ready (ks_cons ?s0) = []" "cons_edit (ks_cons ?s0) = []"
    by (simp_all add: boot_kst_def zero_console_def cons_inv_def cons_ready_def cons_edit_def)
  note 1 = console_line_editing [OF i0(1), of 0 "CHR ''a''"]
  note 2 = console_line_editing [OF conjunct1 [OF 1], of 0 "CHR ''b''"]
  note 3 = console_line_editing [OF conjunct1 [OF 2], of 0 DELETE]
  note 4 = console_line_editing [OF conjunct1 [OF 3], of 0 "CHR ''c''"]
  note 5 = console_line_editing [OF conjunct1 [OF 4], of 0 RETURN]
  show ?thesis using 1 2 3 4 5 i0(2,3) by (simp add: edit_key_def)
qed

subsection \<open>Reading\<close>

text \<open>The bytes one read of at most \<open>m\<close> bytes takes from what is ready: up to a newline, which is included, or
  a control-d, which is not.\<close>

fun line_of :: "nat \<Rightarrow> string \<Rightarrow> string" where
  "line_of 0 xs = []"
| "line_of (Suc m) [] = []"
| "line_of (Suc m) (x # xs) = (if x = CTRL_D then [] else if x = NEWLINE then [x] else x # line_of m xs)"

text \<open>Whether that is a whole answer; otherwise the reader waits for more.\<close>

fun line_whole :: "nat \<Rightarrow> string \<Rightarrow> bool" where
  "line_whole 0 xs = True"
| "line_whole (Suc m) [] = False"
| "line_whole (Suc m) (x # xs) = (x = CTRL_D \<or> x = NEWLINE \<or> line_whole m xs)"

text \<open>What stays ready: a control-d that ended a read of some bytes stays for the next one.\<close>

fun line_rest :: "bool \<Rightarrow> nat \<Rightarrow> string \<Rightarrow> string" where
  "line_rest some 0 xs = xs"
| "line_rest some (Suc m) [] = []"
| "line_rest some (Suc m) (x # xs) = (if x = CTRL_D then if some then x # xs else xs
     else if x = NEWLINE then xs else line_rest True m xs)"

lemma cons_get:
  assumes inv: "cons_inv c" and ne: "con_r c \<noteq> con_w c"
  defines "c1 \<equiv> c\<lparr>con_r := con_r c + 1\<rparr>"
  shows "cons_inv c1" "cons_ready c = con_buf c ! (unat (con_r c) mod 128) # cons_ready c1" "cons_edit c1 = cons_edit c"
proof -
  note s = cons_inv_size [OF inv]
  have l: "length (con_buf c) = 128" "unat (con_w c - con_r c) \<le> unat (con_e c - con_r c)" using inv by (simp_all add: cons_inv_def)
  show ed: "cons_edit c1 = cons_edit c" by (simp add: cons_edit_def c1_def)
  show "cons_ready c = con_buf c ! (unat (con_r c) mod 128) # cons_ready c1"
    using ring_get [OF s, of "con_w c" "con_r c"] ne l(1) by (simp add: cons_ready_def c1_def)
  have w0: "con_w c - con_r c \<noteq> 0" using ne by simp
  then have p: "0 < unat (con_w c - con_r c)" by (simp add: unat_gt_0)
  then have "con_e c - con_r c \<noteq> 0" using l(2) by (metis not_le unat_0)
  then have e: "unat (con_e c - con_r c - 1) = unat (con_e c - con_r c) - 1" by (rule unat_minus_one)
  have w: "unat (con_w c - con_r c - 1) = unat (con_w c - con_r c) - 1" using w0 by (rule unat_minus_one)
  have "con_e c1 - con_r c1 = con_e c - con_r c - 1" "con_w c1 - con_r c1 = con_w c - con_r c - 1"
    by (simp_all add: c1_def diff_diff_eq)
  then have "unat (con_w c1 - con_r c1) \<le> unat (con_e c1 - con_r c1)" "unat (con_e c1 - con_r c1) \<le> 128"
    using e w l(2) inv by (simp_all add: cons_inv_def le_diff_conv)
  moreover have "length (con_buf c1) = 128" "NEWLINE \<notin> set (cons_edit c1)" using inv by (simp_all add: ed cons_inv_def) (simp add: c1_def)
  ultimately show "cons_inv c1" by (simp add: cons_inv_def)
qed

lemma copyout_proc_cons [simp]: "ks_cons (snd (copyout_proc i va bs s)) = ks_cons s"
  by (simp add: copyout_proc_def case_prod_beta Let_def)

text \<open>The outcome of a read that has \<open>k\<close> bytes of its \<open>m\<close>.\<close>

definition read_out :: "nat \<Rightarrow> u64 \<Rightarrow> nat \<Rightarrow> nat \<Rightarrow> kst \<Rightarrow> (int \<times> kst) + (nat \<times> kst) \<Rightarrow> bool" where
  "read_out i dst m k s res \<longleftrightarrow>
     (let rd = cons_ready (ks_cons s); bs = line_of (m - k) rd; k' = k + length bs
      in case res of
           Inr (n, t) \<Rightarrow> \<not> line_whole (m - k) rd \<and> n = k' \<and> bs = rd \<and> cons_ready (ks_cons t) = [] \<and>
             took (p_pagetable (pr s i)) (p_pagetable (pr t i)) dst k k' bs \<and> p_state (pr t i) = SLEEPING \<and> p_chan (pr t i) = ChanCons
         | Inl (v, t) \<Rightarrow>
             if line_whole (m - k) rd
             then v = int k' \<and> cons_ready (ks_cons t) = line_rest (k > 0) (m - k) rd \<and>
               took (p_pagetable (pr s i)) (p_pagetable (pr t i)) dst k k' bs
             else v = -1 \<and> p_killed (pr s i) \<and> cons_ready (ks_cons t) = [])"

lemma line_of_le: "length (line_of m xs) \<le> m"
  by (induction m xs rule: line_of.induct) auto

text \<open>One character that is not control-d: it leaves the buffer and is stored.\<close>

lemma consoleread_char:
  assumes pt: "pages_ok (p_pagetable (pr s i))" and inv: "cons_inv (ks_cons s)" and k: "int k < n" and i: "i < length (ks_procs s)"
    and wr: "writable (p_pagetable (pr s i)) (unat (dst + of_nat k))"
    and rd: "cons_ready (ks_cons s) = x # xs" "x \<noteq> CTRL_D"
  obtains t where "consoleread i dst n k s = (if x = NEWLINE then Inl (int k + 1, t) else consoleread i dst n (k + 1) t)"
    "cons_inv (ks_cons t)" "cons_ready (ks_cons t) = xs" "length (ks_procs t) = length (ks_procs s)"
    "p_killed (pr t i) = p_killed (pr s i)" "pages_ok (p_pagetable (pr t i))"
    "\<And>a. user_byte (p_pagetable (pr t i)) a = (if a = unat (dst + of_nat k) then Some x else user_byte (p_pagetable (pr s i)) a)"
    "\<And>a. writable (p_pagetable (pr t i)) a = writable (p_pagetable (pr s i)) a"
proof -
  let ?c = "ks_cons s" and ?va = "dst + of_nat k"
  have ne: "con_r ?c \<noteq> con_w ?c" using rd(1) by (auto simp: cons_ready_def)
  note g = cons_get [OF inv ne]
  define s1 where "s1 = upd_cons (\<lambda>c. c\<lparr>con_r := con_r c + 1\<rparr>) s"
  have s1: "ks_procs s1 = ks_procs s" "ks_cons s1 = ?c\<lparr>con_r := con_r ?c + 1\<rparr>" by (simp_all add: s1_def upd_cons_def)
  have x: "con_buf ?c ! (unat (con_r ?c) mod 128) = x" "cons_ready (ks_cons s1) = xs" using g(2) rd(1) by (simp_all add: s1(2))
  obtain ok t where o: "copyout_proc i ?va [x] s1 = (ok, t)" by force
  have t: "t = upd_proc i (\<lambda>p. p\<lparr>p_pagetable := snd (copyout (p_pagetable (pr s i)) ?va [x])\<rparr>) s1"
    "ok = fst (copyout (p_pagetable (pr s i)) ?va [x])"
    using o by (simp_all add: copyout_proc_def case_prod_beta Let_def prod_eq_iff s1(1))
  show thesis
  proof (rule that [of t])
    show "consoleread i dst n k s = (if x = NEWLINE then Inl (int k + 1, t) else consoleread i dst n (k + 1) t)"
      using k ne rd(2) o copyout_byte [OF pt, of ?va x] wr t(2)
      by (auto simp: consoleread.simps [of i dst n k s] Let_def x(1) s1_def [symmetric])
    show "cons_inv (ks_cons t)" "cons_ready (ks_cons t) = xs" using g(1) x(2) by (simp_all add: t(1) s1(2))
    show "length (ks_procs t) = length (ks_procs s)" "p_killed (pr t i) = p_killed (pr s i)"
      using i by (simp_all add: t(1) s1(1))
    show "pages_ok (p_pagetable (pr t i))"
      "\<And>a. user_byte (p_pagetable (pr t i)) a = (if a = unat ?va then Some x else user_byte (p_pagetable (pr s i)) a)"
      using copyout_byte [OF pt, of ?va x] wr t s1(1) i by auto
    show "\<And>a. writable (p_pagetable (pr t i)) a = writable (p_pagetable (pr s i)) a"
      using copyout_spec [OF pt, of ?va "[x]"] t s1(1) i by simp
  qed
qed

lemma consoleread_loop:
  assumes "pages_ok (p_pagetable (pr s i))" "cons_inv (ks_cons s)" "int k \<le> n" "n < 2 ^ 31" "i < length (ks_procs s)"
    "\<And>j. int j < n \<Longrightarrow> writable (p_pagetable (pr s i)) (unat (dst + of_nat j))" "nat n - k = m"
  shows "read_out i dst (nat n) k s (consoleread i dst n k s)"
  using assms
proof (induction m arbitrary: k s)
  case 0
  then have "int k = n" by linarith
  then show ?case by (auto simp: consoleread.simps [of i dst n k s] read_out_def took_def)
next
  case (Suc m)
  then have go: "int k < n" and m: "nat n - Suc k = m" by linarith+
  have stay: "took pt pt dst k k []" for pt by (simp add: took_def)
  show ?case
  proof (cases "cons_ready (ks_cons s)")
    case Nil
    then have "con_r (ks_cons s) = con_w (ks_cons s)" by (simp add: cons_ready_def ring_Nil_iff)
    then show ?thesis
      using go Nil Suc.prems(5,7) stay by (simp add: consoleread.simps [of i dst n k s] read_out_def Let_def sleep_on_def)
  next
    case (Cons x xs)
    show ?thesis
    proof (cases "x = CTRL_D")
      case True
      then have ne: "con_r (ks_cons s) \<noteq> con_w (ks_cons s)" using Cons by (auto simp: cons_ready_def)
      note g = cons_get [OF Suc.prems(2) ne]
      have "consoleread i dst n k s = Inl (int k, if k > 0 then s else upd_cons (\<lambda>c. c\<lparr>con_r := con_r c + 1\<rparr>) s)"
        using go ne True g(2) Cons by (simp add: consoleread.simps [of i dst n k s] Let_def)
      then show ?thesis using Suc.prems(7) Cons True stay g(2) by (auto simp: read_out_def upd_cons_def)
    next
      case False
      from consoleread_char [OF Suc.prems(1,2) go Suc.prems(5) Suc.prems(6) [OF go] Cons False] obtain t where
        t: "consoleread i dst n k s = (if x = NEWLINE then Inl (int k + 1, t) else consoleread i dst n (k + 1) t)"
          "cons_inv (ks_cons t)" "cons_ready (ks_cons t) = xs" "length (ks_procs t) = length (ks_procs s)"
          "p_killed (pr t i) = p_killed (pr s i)" "pages_ok (p_pagetable (pr t i))"
          "\<And>a. user_byte (p_pagetable (pr t i)) a = (if a = unat (dst + of_nat k) then Some x else user_byte (p_pagetable (pr s i)) a)"
          "\<And>a. writable (p_pagetable (pr t i)) a = writable (p_pagetable (pr s i)) a"
        by blast
      have first: "took (p_pagetable (pr t i)) pt' dst (Suc k) j l \<Longrightarrow> j < 2 ^ 31 \<Longrightarrow> took (p_pagetable (pr s i)) pt' dst k j (x # l)" for pt' j l
        using took_step [OF t(7)] by simp
      show ?thesis
      proof (cases "x = NEWLINE")
        case True
        have "took (p_pagetable (pr s i)) (p_pagetable (pr t i)) dst k (Suc k) [x]"
          by (rule first) (use go Suc.prems(4) in \<open>simp_all add: took_def\<close>)
        with True t(1,3) Cons Suc.prems(7) show ?thesis by (simp add: read_out_def)
      next
        case nn: False
        have IH: "read_out i dst (nat n) (k + 1) t (consoleread i dst n (k + 1) t)"
          by (rule Suc.IH) (use t go Suc.prems m in simp_all)
        have "k + 1 + length (line_of m xs) \<le> nat n" using line_of_le [of m xs] m go by linarith
        moreover have "nat n < 2 ^ 31" using Suc.prems(4) by simp
        ultimately have "k + 1 + length (line_of m xs) < 2 ^ 31" by simp
        with IH t(1) first show ?thesis
          using False nn Suc.prems(7) m by (auto simp: read_out_def Let_def Cons t(3,5) split: sum.splits if_splits)
      qed
    qed
  qed
qed

text \<open>C40 (console_read_takes_line). A read of at most \<open>n\<close> bytes from the console takes the first bytes of what is ready, in order,
  and stores them in the caller's memory, changing nothing else there: up to and with the first newline, or up
  to a control-d, which is taken out only when it is the first character (end of file, a result of 0) and
  otherwise stays for the next read. If what is ready does not complete a line it has all been stored and the
  caller sleeps on the console, or gets -1 if it has been killed.\<close>

theorem console_read_takes_line:
  assumes "pages_ok (p_pagetable (pr s i))" and "cons_inv (ks_cons s)" and "n < 2 ^ 31" and "i < length (ks_procs s)"
    and "\<And>j. j < n \<Longrightarrow> writable (p_pagetable (pr s i)) (unat (dst + of_nat j))"
  shows "let rd = cons_ready (ks_cons s); bs = line_of n rd; pt = p_pagetable (pr s i)
    in case consoleread i dst (int n) 0 s of
         Inr (k, t) \<Rightarrow> \<not> line_whole n rd \<and> bs = rd \<and> k = length rd \<and> cons_ready (ks_cons t) = [] \<and>
           took pt (p_pagetable (pr t i)) dst 0 (length rd) rd \<and> p_state (pr t i) = SLEEPING \<and> p_chan (pr t i) = ChanCons
       | Inl (v, t) \<Rightarrow>
           if line_whole n rd
           then v = int (length bs) \<and> cons_ready (ks_cons t) = line_rest False n rd \<and>
             took pt (p_pagetable (pr t i)) dst 0 (length bs) bs
           else v = -1 \<and> p_killed (pr s i) \<and> cons_ready (ks_cons t) = []"
proof -
  have "read_out i dst (nat (int n)) 0 s (consoleread i dst (int n) 0 s)"
    by (rule consoleread_loop) (use assms in simp_all)
  then show ?thesis by (auto simp: read_out_def Let_def split: sum.splits)
qed

definition wit_console :: kst where
  "wit_console = (boot_kst [(wit_agent 1)\<lparr>p_pagetable := one_page 4096\<rparr>])
     \<lparr>ks_cons := zero_console\<lparr>con_buf := [CHR ''o'', CHR ''k'', NEWLINE, CHR ''x''] @ replicate 124 NUL, con_w := 3, con_e := 4\<rparr>\<rparr>"

theorem console_read_takes_line_witness:
  "\<exists>t. consoleread 0 5000 20 0 wit_console = Inl (3, t) \<and> user_byte (p_pagetable (pr t 0)) 5001 = Some (CHR ''k'') \<and>
     cons_ready (ks_cons t) = []"
proof -
  have p: "p_pagetable (pr wit_console 0) = one_page 4096" "length (ks_procs wit_console) = 1" by (simp_all add: wit_console_def)
  have c: "cons_inv (ks_cons wit_console)" "cons_ready (ks_cons wit_console) = [CHR ''o'', CHR ''k'', NEWLINE]"
    by (simp_all add: wit_console_def zero_console_def cons_inv_def cons_ready_def cons_edit_def ring_def upt_rec)
  have w: "writable (p_pagetable (pr wit_console 0)) (unat ((5000 :: u64) + of_nat j))" if "j < 20" for j
  proof -
    have "unat ((5000 :: u64) + of_nat j) = 5000 + j" using that by (simp add: unat_word_ariths unat_of_nat take_bit_eq_mod)
    with that show ?thesis by (simp add: p writable_one_page)
  qed
  have ok: "pages_ok (p_pagetable (pr wit_console 0))" by (simp add: p pages_ok_one_page)
  have l: "line_of 20 [CHR ''o'', CHR ''k'', NEWLINE] = [CHR ''o'', CHR ''k'', NEWLINE]"
    "line_whole 20 [CHR ''o'', CHR ''k'', NEWLINE]" "line_rest False 20 [CHR ''o'', CHR ''k'', NEWLINE] = []"
    by (simp_all add: numeral_eq_Suc)
  have "case consoleread 0 5000 (int 20) 0 wit_console of Inr (k, t) \<Rightarrow> False
      | Inl (v, t) \<Rightarrow> v = 3 \<and> cons_ready (ks_cons t) = [] \<and>
          took (one_page 4096) (p_pagetable (pr t 0)) 5000 0 (Suc (Suc (Suc 0))) [CHR ''o'', CHR ''k'', NEWLINE]"
    using console_read_takes_line [of wit_console 0 20 5000] ok c(1) w by (simp add: p c(2) l Let_def split: sum.splits prod.splits)
  then obtain t where t: "consoleread 0 5000 20 0 wit_console = Inl (3, t)" "cons_ready (ks_cons t) = []"
    "took (one_page 4096) (p_pagetable (pr t 0)) 5000 0 (Suc (Suc (Suc 0))) [CHR ''o'', CHR ''k'', NEWLINE]"
    by (auto split: sum.splits)
  have "user_byte (p_pagetable (pr t 0)) (unat ((5000 :: u64) + of_nat (0 + 1))) = Some (CHR ''k'')"
    using t(3) by (auto simp: took_def)
  with t show ?thesis by simp
qed

end
