(* ===== verification/Syscall.thy ===== *)
theory Syscall
  imports Console Lifecycle Exec SysAgent
begin

text \<open>
  System calls and traps (kernel/syscall.c, kernel/sysproc.c, kernel/trap.c): the table of system calls, what
  each entry does with its argument registers, and what a trap from user space does. A call that gives the
  processor away ends with what it waits for, and goes on from there when its process runs again; so every
  definition here is one stretch of kernel execution between two points where the process may stop.
\<close>

subsection \<open>Arguments and results\<close>

record regs =
  rg_a0 :: u64
  rg_a1 :: u64
  rg_a2 :: u64
  rg_a3 :: u64
  rg_a4 :: u64
  rg_a5 :: u64
  rg_a7 :: u64

text \<open>What a sleeping call needs to go on.\<close>

datatype pending =
    PWait u64
  | PSleep u32 int
  | PRead nat u64 int nat
  | PWrite nat u64 int nat
  | PAgentWait u64 u64
  | PRecv u64
  | PTool "u64 list" agent_tool_request nat int u64

text \<open>How a stretch ends: a value for \<open>a0\<close>, back in user space as it was, asleep, or the process is gone.\<close>

datatype sys_out = Ret u64 | Back | Block pending | Exited

text \<open>What the kernel image fixes: the trampoline page, the first process, and the bytes the compiler leaves in the
  padding of \<open>struct agent_info\<close>.\<close>

record env =
  en_tramp :: upage
  en_init :: nat
  en_pad1 :: string
  en_pad2 :: string

type_synonym sysfun = "env \<Rightarrow> regs \<Rightarrow> nat \<Rightarrow> kst \<Rightarrow> (sys_out \<times> kst) option"

definition ret :: "int \<times> kst \<Rightarrow> sys_out \<times> kst" where
  "ret x = (Ret (word_of_int (fst x)), snd x)"

definition fetchaddr :: "nat \<Rightarrow> u64 \<Rightarrow> kst \<Rightarrow> u64 option" where
  "fetchaddr i addr s =
     (if addr \<ge> p_sz (pr s i) \<or> addr + 8 > p_sz (pr s i) then None
      else map_option (\<lambda>bs. of_nat (le_value bs)) (copyin_proc i addr 8 s))"

subsection \<open>Process calls\<close>

definition sys_wait :: sysfun where
  "sys_wait e g i s = map_option (\<lambda>w. case w of Inl x \<Rightarrow> ret x | Inr t \<Rightarrow> (Block (PWait (rg_a0 g)), t)) (wait_scan i (rg_a0 g) s)"

definition sys_sbrk :: sysfun where
  "sys_sbrk e g i s =
     map_option (\<lambda>(r, t). if r < 0 then (Ret (-1), t) else (Ret (p_sz (pr s i)), t)) (growproc i (int_of_u64 (rg_a0 g)) s)"

text \<open>One round of the loop of \<open>sys_sleep\<close>.\<close>

definition sleep_check :: "u32 \<Rightarrow> int \<Rightarrow> nat \<Rightarrow> kst \<Rightarrow> sys_out \<times> kst" where
  "sleep_check ticks0 n i s =
     (if ks_ticks s - ticks0 < word_of_int n
      then if p_killed (pr s i) then (Ret (-1), s) else (Block (PSleep ticks0 n), sleep_on i ChanTicks s)
      else (Ret 0, s))"

definition sys_sleep :: sysfun where
  "sys_sleep e g i s = Some (sleep_check (ks_ticks s) (max 0 (int_of_u64 (rg_a0 g))) i s)"

definition sys_exit :: sysfun where
  "sys_exit e g i s = map_option (Pair Exited) (exit (en_init e) i (int_of_u64 (rg_a0 g)) s)"

text \<open>The arguments of \<open>exec\<close>, each in a page of its own; \<open>MAXARG\<close> is 32.\<close>

fun fetch_args :: "nat \<Rightarrow> nat \<Rightarrow> u64 \<Rightarrow> u64 list \<Rightarrow> string list \<Rightarrow> kst \<Rightarrow> string list option \<times> u64 list \<times> kst" where
  "fetch_args 0 i uargv pages args s = (None, pages, s)"
| "fetch_args (Suc k) i uargv pages args s =
     (case fetchaddr i (uargv + 8 * of_nat (length args)) s of
        None \<Rightarrow> (None, pages, s)
      | Some uarg \<Rightarrow>
          if uarg = 0 then (Some args, pages, s)
          else case kalloc (ks_freelist s) of
                 (None, fl) \<Rightarrow> (None, pages, s)
               | (Some pg, fl) \<Rightarrow>
                   let s1 = s\<lparr>ks_freelist := fl\<rparr>
                   in (case fetchstr i uarg 4096 s1 of
                         None \<Rightarrow> (None, pages @ [pg], s1)
                       | Some a \<Rightarrow> fetch_args k i uargv (pages @ [pg]) (args @ [a]) s1))"

definition sys_exec :: sysfun where
  "sys_exec e g i s =
     (case fetchstr i (rg_a0 g) MAXPATH s of
        None \<Rightarrow> Some (Ret (-1), s)
      | Some path \<Rightarrow>
          (case fetch_args 32 i (rg_a1 g) [] [] s of
             (None, pages, s1) \<Rightarrow> Some (Ret (-1), free_pages pages s1)
           | (Some args, pages, s1) \<Rightarrow>
               map_option (\<lambda>(r, t). ret (r, free_pages pages t)) (exec (en_tramp e) i path args s1)))"

subsection \<open>Reading and writing\<close>

definition devread :: "int \<Rightarrow> devfun option" where
  "devread m = (if m = 1 then Some consoleread else None)"

definition devwrite :: "int \<Rightarrow> devfun option" where
  "devwrite m = (if m = 1 then Some consolewrite else None)"

definition file_arg :: "nat \<Rightarrow> regs \<Rightarrow> kst \<Rightarrow> nat" where
  "file_arg i g s = (case argfd i (int_of_u64 (rg_a0 g)) s of Some f \<Rightarrow> f | None \<Rightarrow> 0)"

definition read_result :: "nat \<Rightarrow> u64 \<Rightarrow> int \<Rightarrow> (int \<times> kst) + (nat \<times> kst) \<Rightarrow> sys_out \<times> kst" where
  "read_result f addr n r = (case r of Inl x \<Rightarrow> ret x | Inr (k, t) \<Rightarrow> (Block (PRead f addr n k), t))"

definition write_result :: "nat \<Rightarrow> u64 \<Rightarrow> int \<Rightarrow> (int \<times> kst) + (nat \<times> kst) \<Rightarrow> sys_out \<times> kst" where
  "write_result f addr n r = (case r of Inl x \<Rightarrow> ret x | Inr (k, t) \<Rightarrow> (Block (PWrite f addr n k), t))"

definition do_read :: sysfun where
  "do_read e g i s = map_option (read_result (file_arg i g s) (rg_a1 g) (int_of_u64 (rg_a2 g)))
     (sys_read devread i (int_of_u64 (rg_a0 g)) (rg_a1 g) (int_of_u64 (rg_a2 g)) s)"

definition do_write :: sysfun where
  "do_write e g i s = map_option (write_result (file_arg i g s) (rg_a1 g) (int_of_u64 (rg_a2 g)))
     (sys_write devwrite i (int_of_u64 (rg_a0 g)) (rg_a1 g) (int_of_u64 (rg_a2 g)) s)"

text \<open>A pipe or a device that slept after \<open>k\<close> bytes.\<close>

definition read_on :: "nat \<Rightarrow> nat \<Rightarrow> u64 \<Rightarrow> int \<Rightarrow> nat \<Rightarrow> kst \<Rightarrow> (sys_out \<times> kst) option" where
  "read_on i f addr n k s =
     map_option (read_result f addr n)
       (case fl_type (file_of s f) of
          FD_PIPE \<Rightarrow> map_option (\<lambda>r. case r of Inl x \<Rightarrow> Inl x | Inr s1 \<Rightarrow> Inr (0, s1))
                       (piperead i (fl_pipe (file_of s f)) addr (nat n) s)
        | FD_DEVICE \<Rightarrow> (case devread (fl_major (file_of s f)) of None \<Rightarrow> None | Some d \<Rightarrow> Some (d i addr n k s))
        | _ \<Rightarrow> None)"

definition write_on :: "nat \<Rightarrow> nat \<Rightarrow> u64 \<Rightarrow> int \<Rightarrow> nat \<Rightarrow> kst \<Rightarrow> (sys_out \<times> kst) option" where
  "write_on i f addr n k s =
     map_option (write_result f addr n)
       (case fl_type (file_of s f) of
          FD_PIPE \<Rightarrow> pipewrite i (fl_pipe (file_of s f)) addr (nat n) k s
        | FD_DEVICE \<Rightarrow> (case devwrite (fl_major (file_of s f)) of None \<Rightarrow> None | Some d \<Rightarrow> Some (d i addr n k s))
        | _ \<Rightarrow> None)"

subsection \<open>Agent calls that wait\<close>

definition wait_on :: "u64 \<Rightarrow> u64 \<Rightarrow> nat \<Rightarrow> kst \<Rightarrow> sys_out \<times> kst" where
  "wait_on start uevent i s = (case wait_iter i start uevent s of Inl x \<Rightarrow> ret x | Inr t \<Rightarrow> (Block (PAgentWait start uevent), t))"

definition agent_wait_call :: "u64 \<Rightarrow> nat \<Rightarrow> (int + u64) \<times> kst \<Rightarrow> sys_out \<times> kst" where
  "agent_wait_call uevent i w = (case w of (Inl r, t) \<Rightarrow> ret (r, t) | (Inr start, t) \<Rightarrow> wait_on start uevent i t)"

definition recv_on :: "u64 \<Rightarrow> nat \<Rightarrow> kst \<Rightarrow> sys_out \<times> kst" where
  "recv_on ureq i s =
     (case recv_check i s of Inl (r, t) \<Rightarrow> ret (sys_tool_recv_end ureq i r t) | Inr t \<Rightarrow> (Block (PRecv ureq), t))"

definition tool_state :: "u64 list \<Rightarrow> agent_tool_request \<Rightarrow> u64 \<Rightarrow> nat \<Rightarrow> tool_call_state \<Rightarrow> sys_out \<times> kst" where
  "tool_state pages req uresp i c =
     (case c of Called resp st t \<Rightarrow> ret (sys_tool_call_end uresp i pages resp t)
      | Waiting n rid t \<Rightarrow> (Block (PTool pages req n rid uresp), t))"

definition tool_on :: "u64 list \<Rightarrow> agent_tool_request \<Rightarrow> nat \<Rightarrow> int \<Rightarrow> u64 \<Rightarrow> nat \<Rightarrow> kst \<Rightarrow> (sys_out \<times> kst) option" where
  "tool_on pages req n rid uresp i s = map_option (tool_state pages req uresp i) (agent_tool_call_check i req n rid s)"

definition sys_tool_call :: sysfun where
  "sys_tool_call e g i s =
     do {
       b \<leftarrow> sys_tool_call_begin (rg_a0 g) i s;
       (case b of
          Inl x \<Rightarrow> Some (ret x)
        | Inr (pages, req, c) \<Rightarrow>
            (case c of
               Called resp st t \<Rightarrow> Some (tool_state pages req (rg_a1 g) i c)
             | Waiting n rid t \<Rightarrow> tool_on pages req n rid (rg_a1 g) i t))
     }"

text \<open>The response of a batch (4164 bytes) is cleared in a page of 4096, whatever the batch holds: when the
  request could be read, the kernel writes into the page that follows.\<close>

definition sys_tool_call_batch :: sysfun where
  "sys_tool_call_batch e g i s =
     (case alloc_pages 1 s of
        None \<Rightarrow> Some (Ret (-1), s)
      | Some (pages, s1) \<Rightarrow>
          (case copyin_proc i (rg_a0 g) 1284 s1 of
             None \<Rightarrow> Some (Ret (-1), free_pages pages s1)
           | Some bs \<Rightarrow> None))"

subsection \<open>The table\<close>

definition plain :: "int \<times> kst \<Rightarrow> (sys_out \<times> kst) option" where
  "plain x = Some (ret x)"

definition fallible :: "(int \<times> kst) option \<Rightarrow> (sys_out \<times> kst) option" where
  "fallible = map_option ret"

definition address :: "(u64 \<times> kst) option \<Rightarrow> (sys_out \<times> kst) option" where
  "address = map_option (\<lambda>(a, t). (Ret a, t))"

definition process_calls :: "(int \<times> sysfun) list" where
  "process_calls = [
     (1, \<lambda>e g i s. fallible (fork (en_tramp e) i s)),
     (2, sys_exit),
     (3, sys_wait),
     (6, \<lambda>e g i s. plain (kill (int_of_u64 (rg_a0 g)) s)),
     (7, sys_exec),
     (11, \<lambda>e g i s. plain (p_pid (pr s i), s)),
     (12, sys_sbrk),
     (13, sys_sleep),
     (14, \<lambda>e g i s. Some (Ret (ucast (ks_ticks s)), s))]"

definition file_calls :: "(int \<times> sysfun) list" where
  "file_calls = [
     (4, \<lambda>e g i s. fallible (sys_pipe i (rg_a0 g) s)),
     (5, do_read),
     (8, \<lambda>e g i s. fallible (sys_fstat i (int_of_u64 (rg_a0 g)) (rg_a1 g) s)),
     (9, \<lambda>e g i s. fallible (sys_chdir i (rg_a0 g) s)),
     (10, \<lambda>e g i s. fallible (sys_dup i (int_of_u64 (rg_a0 g)) s)),
     (15, \<lambda>e g i s. fallible (sys_open i (rg_a0 g) (ucast (rg_a1 g)) s)),
     (16, do_write),
     (17, \<lambda>e g i s. fallible (sys_mknod i (rg_a0 g) (int_of_u64 (rg_a1 g)) (int_of_u64 (rg_a2 g)) s)),
     (18, \<lambda>e g i s. fallible (sys_unlink i (rg_a0 g) s)),
     (19, \<lambda>e g i s. fallible (sys_link i (rg_a0 g) (rg_a1 g) s)),
     (20, \<lambda>e g i s. fallible (sys_mkdir i (rg_a0 g) s)),
     (21, \<lambda>e g i s. fallible (sys_close i (int_of_u64 (rg_a0 g)) s)),
     (22, \<lambda>e g i s. address (sys_mmap i (rg_a0 g) (int_of_u64 (rg_a1 g)) (ucast (rg_a2 g)) (ucast (rg_a3 g))
            (int_of_u64 (rg_a4 g)) (int_of_u64 (rg_a5 g)) s)),
     (23, \<lambda>e g i s. fallible (sys_munmap i (rg_a0 g) (int_of_u64 (rg_a1 g)) s))]"

definition agent_calls :: "(int \<times> sysfun) list" where
  "agent_calls = [
     (24, \<lambda>e g i s. address (sys_agent_create (rg_a0 g) (rg_a1 g) (rg_a2 g) i s)),
     (25, \<lambda>e g i s. plain (sys_agent_info (en_pad1 e) (en_pad2 e) (rg_a0 g) i s)),
     (26, sys_tool_call),
     (27, \<lambda>e g i s. plain (sys_tool_list (rg_a0 g) (rg_a1 g) i s)),
     (28, \<lambda>e g i s. fallible (sys_context_push (rg_a0 g) i s)),
     (29, \<lambda>e g i s. plain (sys_context_query (rg_a0 g) (rg_a1 g) i s)),
     (30, \<lambda>e g i s. plain (sys_context_rollback (rg_a0 g) i s)),
     (31, \<lambda>e g i s. plain (sys_context_clear i s)),
     (32, \<lambda>e g i s. fallible (sys_agent_heartbeat_set (rg_a0 g) i s)),
     (33, \<lambda>e g i s. fallible (sys_agent_heartbeat_stop i s)),
     (34, \<lambda>e g i s. plain (sys_agent_watch (rg_a0 g) i s)),
     (35, \<lambda>e g i s. Some (agent_wait_call (rg_a1 g) i (sys_agent_wait (rg_a0 g) i s))),
     (36, \<lambda>e g i s. plain (sys_agent_unwatch (rg_a0 g) i s)),
     (37, \<lambda>e g i s. plain (sys_agent_priority_set (rg_a0 g) i s)),
     (38, \<lambda>e g i s. plain (sys_tool_register (rg_a0 g) (rg_a1 g) i s)),
     (39, \<lambda>e g i s. Some (recv_on (rg_a0 g) i s)),
     (40, \<lambda>e g i s. plain (sys_tool_reply (rg_a0 g) (rg_a1 g) (rg_a2 g) i s)),
     (41, \<lambda>e g i s. fallible (sys_agent_watch_file (rg_a0 g) i s)),
     (42, \<lambda>e g i s. plain (sys_agent_sched_set (rg_a0 g) (rg_a1 g) i s)),
     (43, \<lambda>e g i s. Some (agent_wait_call (rg_a2 g) i (sys_agent_wait_timeout (rg_a0 g) (rg_a1 g) i s))),
     (44, sys_tool_call_batch),
     (45, \<lambda>e g i s. plain (sys_tool_schema (rg_a0 g) (rg_a1 g) i s)),
     (46, \<lambda>e g i s. plain (sys_agent_cap_set (rg_a0 g) i s)),
     (47, \<lambda>e g i s. fallible (sys_agent_lease_begin (rg_a0 g) (rg_a1 g) i s)),
     (48, \<lambda>e g i s. plain (sys_agent_lease_commit (rg_a0 g) (rg_a1 g) i s)),
     (49, \<lambda>e g i s. plain (sys_agent_lease_abort (rg_a0 g) i s)),
     (50, \<lambda>e g i s. plain (sys_agent_query_agent (rg_a0 g) (rg_a1 g) (rg_a2 g) (rg_a3 g) (rg_a4 g) i s)),
     (51, \<lambda>e g i s. plain (sys_agent_role_set (rg_a0 g) i s)),
     (52, \<lambda>e g i s. plain (sys_agent_context_verify i s)),
     (53, \<lambda>e g i s. plain (sys_agent_cascade_kill (rg_a0 g) i s)),
     (54, \<lambda>e g i s. plain (sys_context_validate (rg_a0 g) (rg_a1 g) i s))]"

definition syscalls :: "(int \<times> sysfun) list" where
  "syscalls = process_calls @ file_calls @ agent_calls"

text \<open>The calls of an agent are counted for its workflow, from \<open>SYS_agent_info\<close> on.\<close>

definition syscall :: sysfun where
  "syscall e g i s =
     (let num = int_of_u64 (rg_a7 g)
      in case map_of syscalls num of
           None \<Rightarrow> Some (Ret (-1), s)
         | Some f \<Rightarrow> f e g i (if 25 \<le> num \<and> num \<le> 54 then agent_workflow_metric_syscall i s else s))"

text \<open>A call that slept and whose process runs again.\<close>

definition continue_call :: "pending \<Rightarrow> nat \<Rightarrow> kst \<Rightarrow> (sys_out \<times> kst) option" where
  "continue_call p i s0 =
     (let s = wait_wake i s0
      in case p of
           PWait addr \<Rightarrow> map_option (\<lambda>w. case w of Inl x \<Rightarrow> ret x | Inr t \<Rightarrow> (Block (PWait addr), t)) (wait_scan i addr s)
         | PSleep ticks0 n \<Rightarrow> Some (sleep_check ticks0 n i s)
         | PRead f addr n k \<Rightarrow> read_on i f addr n k s
         | PWrite f addr n k \<Rightarrow> write_on i f addr n k s
         | PAgentWait start uevent \<Rightarrow> Some (wait_on start uevent i s)
         | PRecv ureq \<Rightarrow> Some (recv_on ureq i s)
         | PTool pages req n rid uresp \<Rightarrow> tool_on pages req n rid uresp i s)"

subsection \<open>Traps\<close>

definition clockintr :: "nat \<Rightarrow> kst \<Rightarrow> kst option" where
  "clockintr i s =
     (let now = ks_ticks s + 1 in agent_tick (ucast now) (wakeup i ChanTicks (s\<lparr>ks_ticks := now\<rparr>)))"

text \<open>Why a process left user space. A timer interrupt advances the clock on the first processor only.\<close>

datatype trap_cause =
    Ecall regs
  | PageFault u64 nat
  | Timer bool
  | UartIntr string nat
  | OtherIntr
  | Unexpected

text \<open>The end of \<open>usertrap\<close>: a killed process exits, a timer interrupt gives the processor away.\<close>

definition user_return :: "env \<Rightarrow> nat \<Rightarrow> bool \<Rightarrow> sys_out \<times> kst \<Rightarrow> (sys_out \<times> kst) option" where
  "user_return e i timer r =
     (case r of
        (Block p, s) \<Rightarrow> Some (Block p, s)
      | (Exited, s) \<Rightarrow> Some (Exited, s)
      | (out, s) \<Rightarrow> if p_killed (pr s i) then map_option (Pair Exited) (exit (en_init e) i (-1) s)
                   else Some (out, if timer then yield i s else s))"

definition usertrap :: "env \<Rightarrow> trap_cause \<Rightarrow> nat \<Rightarrow> kst \<Rightarrow> (sys_out \<times> kst) option" where
  "usertrap e cause i s =
     (case cause of
        Ecall g \<Rightarrow>
          if p_killed (pr s i) then map_option (Pair Exited) (exit (en_init e) i (-1) s)
          else do { r \<leftarrow> syscall e g i s; user_return e i False r }
      | PageFault stval scause \<Rightarrow>
          do {
            (r, s1) \<leftarrow> mmap_handler i stval scause s;
            user_return e i False (Back, if r < 0 then setkilled i s1 else s1)
          }
      | Timer first \<Rightarrow> do { s1 \<leftarrow> (if first then clockintr i s else Some s); user_return e i True (Back, s1) }
      | UartIntr arrived room \<Rightarrow> user_return e i False (Back, uartintr i arrived room s)
      | OtherIntr \<Rightarrow> user_return e i False (Back, s)
      | Unexpected \<Rightarrow> user_return e i False (Back, setkilled i s))"

text \<open>\<open>kerneltrap\<close> on a processor that runs no process; an exception there is a panic. \<open>myproc()\<close> is null, which
  no index of the process table is.\<close>

definition kerneltrap :: "trap_cause \<Rightarrow> kst \<Rightarrow> kst option" where
  "kerneltrap cause s =
     (case cause of
        Timer first \<Rightarrow> if first then clockintr NPROC s else Some s
      | UartIntr arrived room \<Rightarrow> Some (uartintr NPROC arrived room s)
      | OtherIntr \<Rightarrow> Some s
      | _ \<Rightarrow> None)"

text \<open>A call that goes on in the kernel returns to user space the same way.\<close>

definition resume :: "env \<Rightarrow> pending \<Rightarrow> nat \<Rightarrow> kst \<Rightarrow> (sys_out \<times> kst) option" where
  "resume e p i s = do { r \<leftarrow> continue_call p i s; user_return e i False r }"

text \<open>The table has each number from 1 to 54 once.\<close>

lemma syscall_numbers: "sort (map fst syscalls) = [1..54]" "distinct (map fst syscalls)"
  by (simp_all add: syscalls_def process_calls_def file_calls_def agent_calls_def upto_rec1)

end
