(* ===== verification/QuietDevices.thy ===== *)
theory QuietDevices
  imports KernelSteps Syscall
begin

text \<open>
  The console, the UART, reading and writing files, growing memory, page faults and \<open>exec\<close> are quiet: nothing
  they change is spoken of by the kernel invariant.
\<close>

subsection \<open>The console and the UART\<close>

lemma quiet_upd_dev: "quiet s (upd_uart f s)" "quiet s (upd_cons h s)" "quiet s (echo c s)" "quiet s (echo_backspace s)"
  by (simp_all add: upd_uart_def upd_cons_def echo_def echo_backspace_def quiet_same)

lemma quiet_uartstart: "quiet s (uartstart i s)"
proof (induction i s rule: uartstart.induct)
  case (1 i s)
  show ?case
  proof (cases "ua_w (ks_uart s) = ua_r (ks_uart s) \<or> ua_room (ks_uart s) = 0")
    case True
    then show ?thesis by (simp add: uartstart.simps [of i s] Let_def)
  next
    case False
    then show ?thesis
      using quiet_trans [OF quiet_trans [OF quiet_upd_dev(1) quiet_wakeup] "1.IH" [OF refl False]]
      by (simp add: uartstart.simps [of i s] Let_def)
  qed
qed

lemma quiet_uartputc:
  assumes "\<not> dead (pr s i)"
  shows "case uartputc i c s of Inl t \<Rightarrow> quiet s t | Inr t \<Rightarrow> quiet s t"
  using quiet_sleep_on [OF assms] quiet_trans [OF quiet_upd_dev(1) quiet_uartstart] by (simp add: uartputc_def Let_def)

lemma quiet_kill_line: "quiet s (kill_line s)"
proof (induction s rule: kill_line.induct)
  case (1 s)
  let ?b = "con_e (ks_cons s) \<noteq> con_w (ks_cons s) \<and> con_buf (ks_cons s) ! (unat (con_e (ks_cons s) - 1) mod 128) \<noteq> NEWLINE"
  show ?case
  proof (cases ?b)
    case True
    then show ?thesis
      using quiet_trans [OF quiet_trans [OF quiet_upd_dev(2,4)] "1.IH" [OF refl True]]
      by (simp add: kill_line.simps [of s] Let_def)
  next
    case False
    then show ?thesis by (auto simp add: kill_line.simps [of s] Let_def)
  qed
qed

lemma quiet_consoleintr: "quiet s (consoleintr i c s)"
proof -
  have 1: "quiet s (upd_cons f (echo d s))" for f d by (rule quiet_trans [OF quiet_upd_dev(3,2)])
  have 2: "quiet s (wakeup i ChanCons (upd_cons g (upd_cons f (echo d s))))" for f g d
    by (rule quiet_trans [OF quiet_trans [OF 1 quiet_upd_dev(2)] quiet_wakeup])
  have 3: "quiet s (echo_backspace (upd_cons f s))" for f by (rule quiet_trans [OF quiet_upd_dev(2,4)])
  show ?thesis
    unfolding consoleintr_def Let_def by (simp add: 1 2 3 quiet_kill_line)
qed

lemma quiet_uartintr: "quiet s (uartintr i arrived room s)"
  unfolding uartintr_def
  by (rule quiet_trans [OF quiet_trans [OF quiet_upd_dev(1) quiet_fold] quiet_uartstart]) (rule quiet_consoleintr)

text \<open>Either way of ending.\<close>

definition quiet_sum :: "kst \<Rightarrow> ('a \<times> kst) + ('b \<times> kst) \<Rightarrow> bool" where
  "quiet_sum s r \<longleftrightarrow> (case r of Inl (v, t) \<Rightarrow> quiet s t | Inr (k, t) \<Rightarrow> quiet s t)"

lemma quiet_sum_simps [simp]: "quiet_sum s (Inl (v, t)) = quiet s t" "quiet_sum s (Inr (k, t)) = quiet s t"
  by (simp_all add: quiet_sum_def)

lemma quiet_sum_trans: "quiet s t \<Longrightarrow> quiet_sum t r \<Longrightarrow> quiet_sum s r"
  by (auto simp: quiet_sum_def intro: quiet_trans split: sum.splits)

lemma quiet_dead: "quiet s t \<Longrightarrow> i < length (ks_procs s) \<Longrightarrow> dead (pr t i) = dead (pr s i)"
  using keeps_life(1) [OF quietD(2)] by blast

lemma quiet_consolewrite:
  assumes "\<not> dead (pr s i)" "i < length (ks_procs s)"
  shows "quiet_sum s (consolewrite i src n k s)"
  using assms
proof (induction i src n k s rule: consolewrite.induct)
  case (1 i src n k s)
  show ?case
  proof (cases "int k < n")
    case False
    then show ?thesis by (simp add: consolewrite.simps [of i src n k s])
  next
    case True
    show ?thesis
    proof (cases "copyin_proc i (src + of_nat k) 1 s")
      case None
      with True show ?thesis by (simp add: consolewrite.simps [of i src n k s])
    next
      case (Some bs)
      show ?thesis
      proof (cases "uartputc i (hd bs) s")
        case (Inr t)
        with True Some quiet_uartputc [OF "1.prems"(1), of "hd bs"] show ?thesis
          by (simp add: consolewrite.simps [of i src n k s])
      next
        case (Inl t)
        with quiet_uartputc [OF "1.prems"(1), of "hd bs"] have q: "quiet s t" by simp
        have "quiet_sum t (consolewrite i src n (k + 1) t)"
          using "1.IH" [OF True Some Inl] "1.prems" quiet_dead [OF q] quietD(1) [OF q] by simp
        with q True Some Inl show ?thesis by (simp add: consolewrite.simps [of i src n k s] quiet_sum_trans)
      qed
    qed
  qed
qed

lemma quiet_consoleread:
  assumes "\<not> dead (pr s i)" "i < length (ks_procs s)"
  shows "quiet_sum s (consoleread i dst n k s)"
  using assms
proof (induction i dst n k s rule: consoleread.induct)
  case (1 i dst n k s)
  let ?c = "ks_cons s" and ?x = "con_buf (ks_cons s) ! (unat (con_r (ks_cons s)) mod 128)"
  let ?s = "upd_cons (\<lambda>c. c\<lparr>con_r := con_r c + 1\<rparr>) s"
  note eq = consoleread.simps [of i dst n k s]
  show ?case
  proof (cases "int k < n \<and> con_r ?c \<noteq> con_w ?c \<and> ?x \<noteq> CTRL_D")
    case False
    then show ?thesis
      using quiet_sleep_on [OF "1.prems"(1)] quiet_upd_dev(2) by (auto simp: eq Let_def)
  next
    case True
    obtain ok t where o: "copyout_proc i (dst + of_nat k) [?x] ?s = (ok, t)" by force
    have q: "quiet s t" using quiet_trans [OF quiet_upd_dev(2) quiet_copyout [of ?s i "dst + of_nat k" "[?x]"]] o by simp
    show ?thesis
    proof (cases "ok \<and> ?x \<noteq> NEWLINE")
      case False
      with True o q show ?thesis by (cases ok) (auto simp: eq Let_def)
    next
      case go: True
      have e: "consoleread i dst n k s = consoleread i dst n (k + 1) t" using True o go by (simp add: eq Let_def)
      have "quiet_sum t (consoleread i dst n (k + 1) t)"
        using "1.IH" True o go "1.prems" quiet_dead [OF q] quietD(1) [OF q] by simp
      with q show ?thesis by (simp add: e quiet_sum_trans)
    qed
  qed
qed

subsection \<open>Reading and writing files\<close>

text \<open>A result that may be undefined and ends either way.\<close>

definition quiet_osum :: "kst \<Rightarrow> (('a \<times> kst) + ('b \<times> kst)) option \<Rightarrow> bool" where
  "quiet_osum s m \<longleftrightarrow> (\<forall>r. m = Some r \<longrightarrow> quiet_sum s r)"

lemma quiet_osumI [intro]: "quiet_sum s r \<Longrightarrow> quiet_osum s (Some r)" "quiet_osum s None"
  by (simp_all add: quiet_osum_def)

lemma quiet_osum_bind_opt: "quiet_opt s m \<Longrightarrow> (\<And>t. quiet_osum t (f t)) \<Longrightarrow> quiet_osum s (Option.bind m f)"
  by (cases m) (auto simp: quiet_osum_def quiet_opt_def intro: quiet_sum_trans)

lemma quiet_osum_bind_res: "quiet_res s m \<Longrightarrow> (\<And>r t. quiet_osum t (f (r, t))) \<Longrightarrow> quiet_osum s (Option.bind m f)"
  by (cases m) (auto simp: quiet_osum_def quiet_res_def intro: quiet_sum_trans)

lemma quiet_osum_bind_any: "(\<And>x. quiet_osum s (f x)) \<Longrightarrow> quiet_osum s (Option.bind m f)"
  by (cases m) auto

lemma quiet_osum_fs: "quiet_osum (s\<lparr>ks_fs := fs\<rparr>) m \<Longrightarrow> quiet_osum s m"
  unfolding quiet_osum_def using quiet_sum_trans [OF quiet_fields(2)] by blast

lemma quiet_osum_trans: "quiet s t \<Longrightarrow> quiet_osum t m \<Longrightarrow> quiet_osum s m"
  unfolding quiet_osum_def using quiet_sum_trans by blast

lemma quiet_osum_res: "quiet_res s m \<Longrightarrow> quiet_osum s (map_option Inl m)"
  by (cases m) (auto simp: quiet_osum_def quiet_res_def)

lemma quiet_read_inode:
  "quiet_osum s (do {
     s1 \<leftarrow> on_fs (ilock ip) s;
     (r, pt, fs) \<leftarrow> readi_user ip addr off n (p_pagetable (pr s1 i)) (ks_fs s1);
     let s2 = upd_proc i (\<lambda>p. p\<lparr>p_pagetable := pt\<rparr>) (s1\<lparr>ks_fs := fs\<rparr>);
     let s3 = (if r > 0 then upd_file k (\<lambda>f. f\<lparr>fl_off := fl_off f + word_of_int r\<rparr>) s2 else s2);
     s4 \<leftarrow> on_fs (iunlock ip) s3;
     Some (Inl (r, s4) :: _ + (nat \<times> kst))
   })"
proof -
  have 1: "quiet s2 (if b then upd_file k f s2 else s2)" for b f s2 by (simp add: quiet_upd_file)
  have 2: "quiet_osum t (Option.bind (on_fs h t) (\<lambda>u. Some (Inl (r, u))))" for t h and r :: int
    by (rule quiet_osum_bind_opt [OF quiet_on_fs]) auto
  have 3: "quiet s1 (upd_proc i (\<lambda>p. p\<lparr>p_pagetable := pt\<rparr>) (s1\<lparr>ks_fs := fs\<rparr>))" for s1 pt fs
    by (rule quiet_trans [OF quiet_fields(2) quiet_proc_mem(1)])
  show ?thesis
    by (rule quiet_osum_bind_opt [OF quiet_on_fs], rule quiet_osum_bind_any)
      (simp only: case_prod_beta Let_def, rule quiet_osum_trans [OF quiet_trans [OF 3 1] 2])
qed

lemma quiet_devread: "devread m = Some d \<Longrightarrow> \<not> dead (pr s i) \<Longrightarrow> i < length (ks_procs s) \<Longrightarrow> quiet_sum s (d i a n k s)"
  "devwrite m = Some d \<Longrightarrow> \<not> dead (pr s i) \<Longrightarrow> i < length (ks_procs s) \<Longrightarrow> quiet_sum s (d i a n k s)"
  by (auto simp: devread_def devwrite_def quiet_consoleread quiet_consolewrite split: if_splits)

lemma quiet_pipes:
  assumes "\<not> dead (pr s i)" "i < length (ks_procs s)"
  shows "quiet_osum s (pipewrite i pa addr n k s)"
    "quiet_osum s (map_option (\<lambda>r. case r of Inl x \<Rightarrow> Inl x | Inr s1 \<Rightarrow> Inr (0, s1)) (piperead i pa addr n s))"
proof -
  show "quiet_osum s (pipewrite i pa addr n k s)"
    using quiet_pipewrite [OF _ assms, of pa addr n k] by (auto simp: quiet_osum_def quiet_sum_def split: sum.splits)
  have "quiet_sum s (case r of Inl x \<Rightarrow> Inl x | Inr s1 \<Rightarrow> Inr (0, s1))" if "piperead i pa addr n s = Some r" for r
    using quiet_piperead [OF that assms(1)] by (auto split: sum.splits)
  then show "quiet_osum s (map_option (\<lambda>r. case r of Inl x \<Rightarrow> Inl x | Inr s1 \<Rightarrow> Inr (0, s1)) (piperead i pa addr n s))"
    by (auto simp: quiet_osum_def)
qed

lemma quiet_fileread:
  assumes "\<not> dead (pr s i)" "i < length (ks_procs s)"
  shows "quiet_osum s (fileread devread i k addr n s)"
  unfolding fileread_def Let_def [of "file_of s k"]
  using quiet_pipes(2) [OF assms] quiet_read_inode quiet_devread(1) [OF _ assms]
  by (auto split: fdtype.splits option.splits)

lemma quiet_filewrite_loop: "quiet_res s (filewrite_loop i k addr n dn s)"
proof (induction "n - dn" arbitrary: dn s rule: less_induct)
  case less
  show ?case
  proof (cases "dn < n")
    case False
    then show ?thesis by (subst filewrite_loop.simps) (simp add: quiet_res_Some)
  next
    case True
    let ?n1 = "min (n - dn) 3072" and ?ip = "fl_ip (file_of s k)"
    have later: "quiet_res t (filewrite_loop i k addr n (dn + ?n1) t)" for t using True by (intro less) auto
    have 1: "quiet s1 (if b then upd_file k f (s1\<lparr>ks_fs := fs\<rparr>) else s1\<lparr>ks_fs := fs\<rparr>)" for b f s1 fs
      by (simp add: quiet_trans [OF quiet_fields(2) quiet_upd_file(1)])
    have 2: "quiet_res t (do { s4 \<leftarrow> on_fs h t; if r \<noteq> int ?n1 then Some (dn, s4) else filewrite_loop i k addr n (dn + ?n1) s4 })"
      for t h and r :: int
      by (rule quiet_res_bind_opt [OF quiet_on_fs]) (auto intro!: quiet_res_Some later)
    have "quiet_res s (do { s1 \<leftarrow> on_fs (ilock ?ip) s;
        (r, fs) \<leftarrow> writei_user ?ip (addr + of_nat dn) (fl_off (file_of s1 k)) (of_nat ?n1) (p_pagetable (pr s1 i)) (ks_fs s1);
        let s3 = (if r > 0 then upd_file k (\<lambda>f. f\<lparr>fl_off := fl_off f + word_of_int r\<rparr>) (s1\<lparr>ks_fs := fs\<rparr>) else s1\<lparr>ks_fs := fs\<rparr>);
        s4 \<leftarrow> on_fs (iunlock ?ip) s3;
        if r \<noteq> int ?n1 then Some (dn, s4) else filewrite_loop i k addr n (dn + ?n1) s4 })"
      by (rule quiet_res_bind_opt [OF quiet_on_fs], rule quiet_res_bind_any)
        (simp only: case_prod_beta Let_def, rule quiet_res_trans [OF 1 2])
    then show ?thesis
      using True by (subst filewrite_loop.simps) (simp add: case_option_bind case_prod_beta Let_def)
  qed
qed

lemma quiet_filewrite:
  assumes "\<not> dead (pr s i)" "i < length (ks_procs s)"
  shows "quiet_osum s (filewrite devwrite i k addr n s)"
proof -
  have "quiet_osum s (Option.bind (filewrite_loop i k addr m 0 s) (\<lambda>(dn, s1). Some (Inl (g dn,
      if dn > 0 then agent_notify_file_modified dev inum s1 else s1))))" for m g dev inum
    by (rule quiet_osum_bind_res [OF quiet_filewrite_loop]) (auto simp: quiet_notify)
  then show ?thesis
    unfolding filewrite_def Let_def
    using quiet_pipes(1) [OF assms] quiet_devread(2) [OF _ assms]
    by (auto split: fdtype.splits option.splits)
qed

lemma quiet_results:
  "quiet_osum s m \<Longrightarrow> map_option (read_result f a n) m = Some (out, t) \<Longrightarrow> quiet s t"
  "quiet_osum s m \<Longrightarrow> map_option (write_result f a n) m = Some (out, t) \<Longrightarrow> quiet s t"
  by (cases m; auto simp: quiet_osum_def quiet_sum_def read_result_def write_result_def ret_def split: sum.splits)+

lemma quiet_read_on:
  assumes "\<not> dead (pr s i)" "i < length (ks_procs s)" and r: "read_on i f addr n k s = Some (out, t)"
  shows "quiet s t"
proof -
  have "quiet_osum s (case fl_type (file_of s f) of
       FD_PIPE \<Rightarrow> map_option (\<lambda>r. case r of Inl x \<Rightarrow> Inl x | Inr s1 \<Rightarrow> Inr (0, s1)) (piperead i (fl_pipe (file_of s f)) addr (nat n) s)
     | FD_DEVICE \<Rightarrow> (case devread (fl_major (file_of s f)) of None \<Rightarrow> None | Some d \<Rightarrow> Some (d i addr n k s))
     | _ \<Rightarrow> None)"
    using quiet_pipes(2) [OF assms(1,2)] quiet_devread(1) [OF _ assms(1,2)] by (auto split: fdtype.splits option.splits)
  from quiet_results(1) [OF this r [unfolded read_on_def]] show ?thesis .
qed

lemma quiet_write_on:
  assumes "\<not> dead (pr s i)" "i < length (ks_procs s)" and r: "write_on i f addr n k s = Some (out, t)"
  shows "quiet s t"
proof -
  have "quiet_osum s (case fl_type (file_of s f) of
       FD_PIPE \<Rightarrow> pipewrite i (fl_pipe (file_of s f)) addr (nat n) k s
     | FD_DEVICE \<Rightarrow> (case devwrite (fl_major (file_of s f)) of None \<Rightarrow> None | Some d \<Rightarrow> Some (d i addr n k s))
     | _ \<Rightarrow> None)"
    using quiet_pipes(1) [OF assms(1,2)] quiet_devread(2) [OF _ assms(1,2)] by (auto split: fdtype.splits option.splits)
  from quiet_results(2) [OF this r [unfolded write_on_def]] show ?thesis .
qed

lemma quiet_do_read:
  assumes "\<not> dead (pr s i)" "i < length (ks_procs s)"
  shows "do_read e g i s = Some (out, t) \<Longrightarrow> quiet s t" "do_write e g i s = Some (out, t) \<Longrightarrow> quiet s t"
proof -
  have "quiet_osum s (sys_read devread i fd a n s)" "quiet_osum s (sys_write devwrite i fd a n s)" for fd a n
    using quiet_fileread [OF assms] quiet_filewrite [OF assms] by (auto simp: sys_read_def sys_write_def split: option.splits)
  note q = quiet_results(1) [OF this(1)] quiet_results(2) [OF this(2)]
  show "do_read e g i s = Some (out, t) \<Longrightarrow> quiet s t" "do_write e g i s = Some (out, t) \<Longrightarrow> quiet s t"
    unfolding do_read_def do_write_def by (erule q)+
qed

lemma quiet_filestat: "quiet_res s (filestat i k addr s)"
proof -
  have "quiet_res t (Some (case copyout_proc i addr bs t of (ok, s3) \<Rightarrow> (if ok then 0 else - 1 :: int, s3)))" for t bs
    by (rule quiet_pairI) (simp add: case_prod_beta quiet_copyout)
  then show ?thesis
    unfolding filestat_def Let_def
    by (intro quiet_res_if quiet_res_bind_opt [OF quiet_on_fs]) auto
qed

subsection \<open>Memory\<close>

lemma quiet_growproc: "quiet_res s (growproc i n s)"
proof -
  have 1: "quiet s (upd_proc i (\<lambda>p. p\<lparr>p_pagetable := pt\<rparr>) (s\<lparr>ks_freelist := fl\<rparr>))" for pt fl
    by (rule quiet_trans [OF quiet_fields(1) quiet_proc_mem(1)])
  have 2: "quiet t (upd_proc i (\<lambda>p. p\<lparr>p_sz := z\<rparr>) t)" for t z
    by (rule quiet_upd_proc) (simp add: keeps_defs digest_wf_def)
  have 3: "quiet s (upd_proc i (\<lambda>p. p\<lparr>p_pagetable := pt, p_sz := z\<rparr>) (s\<lparr>ks_freelist := fl\<rparr>))" for pt fl z
    by (rule quiet_trans [OF quiet_fields(1) quiet_upd_proc]) (simp add: keeps_defs digest_wf_def)
  show ?thesis
    unfolding growproc_def Let_def
    by (intro quiet_res_if quiet_res_bind_any) (auto simp: 1 3 intro!: quiet_pairI quiet_trans [OF 1 2])
qed

lemma quiet_mmap_load: "quiet_res s (mmap_load i w va s)"
proof -
  have 1: "quiet s1 (upd_proc i (\<lambda>p. p\<lparr>p_pagetable := h p\<rparr>) (s1\<lparr>ks_fs := fs\<rparr>))" for s1 h fs
    by (rule quiet_trans [OF quiet_fields(2) quiet_upd_proc]) (simp add: keeps_defs digest_wf_def)
  have 2: "quiet_res t (Option.bind (on_fs h t) (\<lambda>u. Some (0 :: int, u)))" for t h
    by (rule quiet_res_bind_opt [OF quiet_on_fs]) auto
  show ?thesis
    unfolding mmap_load_def Let_def
    by (intro quiet_res_bind_opt [OF quiet_on_fs] quiet_res_bind_any)
      (simp only: case_prod_beta, rule quiet_res_trans [OF 1 2])
qed

lemma quiet_mmap_handler: "quiet_res s (mmap_handler i va scause s)"
proof -
  have 1: "quiet s (upd_proc i (\<lambda>p. p\<lparr>p_pagetable := pt\<rparr>) (s\<lparr>ks_freelist := fl\<rparr>))" for pt fl
    by (rule quiet_trans [OF quiet_fields(1) quiet_proc_mem(1)])
  have 2: "quiet_res s (Option.bind m (\<lambda>(ok, pt, fl1).
      let s1 = upd_proc i (\<lambda>p. p\<lparr>p_pagetable := pt\<rparr>) (s\<lparr>ks_freelist := fl1\<rparr>)
      in if \<not> ok then Some (- 5, s1\<lparr>ks_freelist := kfree mem fl1\<rparr>) else mmap_load i w v s1))" for m mem w v
    by (intro quiet_res_bind_any)
      (auto simp: Let_def case_prod_beta intro!: quiet_res_trans [OF 1 quiet_mmap_load] quiet_pairI quiet_trans [OF 1 quiet_fields(1)])
  show ?thesis
    unfolding mmap_handler_def
  proof (rule quiet_res_bind_any)
    fix r show "quiet_res s (case r of None \<Rightarrow> Some (- 1, s) | Some (_, w) \<Rightarrow>
            let v = vma_of s w; va = PGROUNDDOWN va
            in if scause = 13 \<and> vm_permission v AND PTE_R = 0 then Some (-2, s)
               else if scause = 15 \<and> vm_permission v AND PTE_W = 0 then Some (-3, s)
               else (case kalloc (ks_freelist s) of
                       (None, _) \<Rightarrow> Some (-4, s)
                     | (Some mem, fl) \<Rightarrow>
                         do {
                           (ok, pt, fl1) \<leftarrow> mappages (p_pagetable (pr s i)) va
                             \<lparr>pg_pa = mem, pg_flags = 0, pg_data = zero_page\<rparr> (vm_permission v) fl;
                           let s1 = upd_proc i (\<lambda>p. p\<lparr>p_pagetable := pt\<rparr>) (s\<lparr>ks_freelist := fl1\<rparr>);
                           if \<not> ok then Some (-5, s1\<lparr>ks_freelist := kfree mem fl1\<rparr>) else mmap_load i w va s1
                         }))"
      unfolding Let_def [of "vma_of s _"] Let_def [of "PGROUNDDOWN va"]
      by (intro quiet_res_if quiet_res_option quiet_res_prod quiet_res_Some quiet_refl 2)
  qed
qed

subsection \<open>Replacing the image\<close>

lemma keeps_after_exec: "keeps p (agent_after_exec (p\<lparr>p_name := nm, p_pagetable := pt, p_sz := sz\<rparr>))"
proof -
  have 1: "keeps p (p\<lparr>p_name := nm, p_pagetable := pt, p_sz := sz, context_region_start := 0, context_region_size := 0,
      context_path_len := 0, context_node_count := 0, context_dropped_nodes := 0, context_generation := 0,
      context_first_sequence := 0, context_next_sequence := 1, context_offsets := os, context_lengths := ls,
      context_deps := ds\<rparr>)" for os ls ds
    by (simp add: keeps_defs digest_wf_def)
  have 2: "keeps q ((clear_pending_dep q)\<lparr>last_context_query := 0, context_reuse_hit := 0\<rparr>)" for q
    by (simp add: clear_pending_dep_def keeps_defs digest_wf_def)
  show ?thesis
    unfolding agent_after_exec_def by (rule keeps_trans [OF keeps_trans [OF 1 keeps_digest_clear] 2])
qed

lemma quiet_exec_bad: "quiet_res s (exec_bad img ip s)"
proof -
  have 1: "quiet_opt s (case img of None \<Rightarrow> Some s | Some (pt, sz) \<Rightarrow>
      map_option (\<lambda>fl. s\<lparr>ks_freelist := fl\<rparr>) (proc_freepagetable pt sz (ks_freelist s)))"
    by (auto simp: quiet_opt_def split: option.splits)
  have 2: "quiet_opt t (case ip of None \<Rightarrow> Some t | Some k \<Rightarrow> on_fs (iunlockput k) t)" for t
    by (cases ip) (auto simp: quiet_on_fs)
  show ?thesis
    unfolding exec_bad_def by (rule quiet_res_bind_opt [OF 1 quiet_res_bind_opt [OF 2]]) auto
qed

lemma quiet_exec_stack: "quiet_res s (exec_stack i path argv sz pt s)"
proof -
  have c: "quiet_res t (exec_commit i path argv sz pt t)" for sz pt t
    unfolding exec_commit_def
    by (intro quiet_res_bind_any quiet_res_Some quiet_trans [OF quiet_fields(1) quiet_upd_proc] keeps_after_exec)
  have b: "quiet_res t (case b of False \<Rightarrow> exec_bad img ip t | True \<Rightarrow> exec_commit i path argv z p t)" for b img ip z p t
    by (cases b) (simp_all add: c quiet_exec_bad)
  note f = quiet_res_trans [OF quiet_fields(1)]
  show ?thesis
    unfolding exec_stack_def Let_def
    by (intro quiet_res_bind_any quiet_res_prod quiet_res_if f [OF quiet_exec_bad] f [OF b])
qed

lemma quiet_exec_load: "quiet_res s (exec_load i path argv ip hdr pt s)"
proof -
  note f = quiet_res_trans [OF quiet_trans [OF quiet_fields(1) quiet_fields(2)]]
  have e: "quiet_res t (Option.bind (on_fs h t) (exec_stack i path argv sz p))" for h t sz p
    by (rule quiet_res_bind_opt [OF quiet_on_fs quiet_exec_stack])
  show ?thesis
    unfolding exec_load_def Let_def
    by (intro quiet_res_option quiet_res_bind_any quiet_res_prod quiet_res_if f [OF quiet_exec_bad] f [OF e] quiet_exec_bad)
qed

lemma quiet_exec: "quiet_res s (exec tramp i path argv s)"
proof -
  note f = quiet_res_trans [OF quiet_fields(2)]
  note f2 = quiet_res_trans [OF quiet_trans [OF quiet_fields(2) quiet_fields(1)]]
  show ?thesis
    unfolding exec_def Let_def
    by (rule quiet_res_bind [OF quiet_namei], unfold prod.case)
      (intro quiet_res_option quiet_res_Some quiet_refl quiet_res_bind_opt [OF quiet_on_fs] quiet_res_bind_any quiet_res_prod
        quiet_res_if f [OF quiet_exec_bad] f2 [OF quiet_exec_load])
qed

lemma quiet_fetch_args: "quiet s (snd (snd (fetch_args n i a pages args s)))"
proof (induction n i a pages args s rule: fetch_args.induct)
  case (1 i a pages args s)
  then show ?case by simp
next
  case (2 k i a pages args s)
  show ?case
  proof (cases "fetchaddr i (a + 8 * of_nat (length args)) s")
    case None
    then show ?thesis by simp
  next
    case (Some u)
    obtain ro fl where ka: "kalloc (ks_freelist s) = (ro, fl)" by force
    show ?thesis
    proof (cases "u = 0 \<or> ro = None")
      case True
      with Some ka show ?thesis by auto
    next
      case False
      then obtain pg where pg: "ro = Some pg" "u \<noteq> 0" by auto
      show ?thesis
      proof (cases "fetchstr i u 4096 (s\<lparr>ks_freelist := fl\<rparr>)")
        case None
        with Some ka pg show ?thesis by (simp add: Let_def)
      next
        case x: (Some x)
        from "2.IH" [OF Some pg(2) ka [symmetric] pg(1) refl x] show ?thesis
          using Some ka pg x quiet_trans [OF quiet_fields(1) [of s fl]] by (simp add: Let_def)
      qed
    qed
  qed
qed

lemma quiet_sys_exec: "sys_exec e g i s = Some (out, t) \<Longrightarrow> quiet s t"
proof -
  assume r: "sys_exec e g i s = Some (out, t)"
  show "quiet s t"
  proof (cases "fetchstr i (rg_a0 g) MAXPATH s")
    case None
    with r show ?thesis by (simp add: sys_exec_def)
  next
    case (Some path)
    obtain ro pages s1 where f: "fetch_args 32 i (rg_a1 g) [] [] s = (ro, pages, s1)" by (metis prod_cases3)
    have q: "quiet s s1" using quiet_fetch_args [of s 32 i "rg_a1 g" "[]" "[]"] f by simp
    show ?thesis
    proof (cases ro)
      case None
      with r Some f show ?thesis using quiet_trans [OF q quiet_free_pages [of s1 pages]] by (auto simp: sys_exec_def)
    next
      case args: (Some args)
      obtain v u where x: "exec (en_tramp e) i path args s1 = Some (v, u)" and t: "t = free_pages pages u"
        using r Some f args by (auto simp: sys_exec_def ret_def)
      from quiet_trans [OF quiet_trans [OF q quiet_resD [OF quiet_exec x]] quiet_free_pages] show ?thesis by (simp add: t)
    qed
  qed
qed

subsection \<open>Copies\<close>

lemma quiet_copy_struct: "quiet s (snd (copy_struct i dst bs ok s))"
  using quiet_copyout [of s i dst bs] by (auto simp: copy_struct_def split: prod.splits bool.splits)

lemma quiet_lists: "quiet s (snd (sys_tool_list a0 a1 i s))"
  "quiet s (snd (sys_agent_query_agent a0 a1 a2 a3 a4 i s))"
  "quiet s (snd (sys_tool_schema a0 a1 i s))" "quiet s (snd (sys_agent_info pad1 pad2 a0 i s))"
  "quiet s (snd (sys_tool_register a0 a1 i s))"
  by (auto simp: sys_tool_list_def agent_copy_tool_list_def sys_agent_query_agent_def agent_proc_query_agent_def
      sys_tool_schema_def sys_agent_info_def sys_tool_register_def quiet_copy_struct quiet_register
      intro!: quiet_with_page quiet_copy_text split: option.splits)

lemma quiet_context_validate: "quiet s (snd (sys_context_validate a0 a1 i s))"
proof -
  have "quiet s (snd (copyout_proc i dst bs (s\<lparr>ks_file_versions := es\<rparr>)))" for dst bs es
    by (rule quiet_trans [OF quiet_fields(6) quiet_copyout])
  then show ?thesis
    by (simp add: sys_context_validate_def agent_context_validate_def Let_def case_prod_beta)
qed

lemma quiet_sys_reply: "quiet s (snd (sys_tool_reply a0 a1 a2 i s))"
  unfolding sys_tool_reply_def by (rule quiet_with_page) (auto simp: quiet_reply split: option.splits)

end
