(* ===== verification/System.thy ===== *)
theory System
  imports QuietDevices
begin

text \<open>
  The kernel as a transition system: processes trap into the kernel, run a stretch of it, sleep and are woken,
  the scheduler picks the next one, the clock ticks. Every system call, every trap and every call that goes on
  after a sleep keeps the invariant of the kernel state, so it holds in every state that can be reached from
  boot, whatever the processes do.
\<close>

subsection \<open>The calls\<close>

text \<open>The caller goes on, in a state that satisfies the invariant.\<close>

definition good_res :: "nat \<Rightarrow> ('a \<times> kst) option \<Rightarrow> bool" where
  "good_res i m \<longleftrightarrow> (\<forall>out t. m = Some (out, t) \<longrightarrow> good i t)"

lemma good_resI: "(\<And>out t. m = Some (out, t) \<Longrightarrow> good i t) \<Longrightarrow> good_res i m"
  by (simp add: good_res_def)

lemma good_resD: "good_res i m \<Longrightarrow> m = Some (out, t) \<Longrightarrow> good i t"
  by (simp add: good_res_def)

lemma good_Some: "good i t \<Longrightarrow> good_res i (Some (out, t))"
  by (simp add: good_res_def)

lemma good_plain: "good i s \<Longrightarrow> quiet s (snd x) \<Longrightarrow> good_res i (plain x)"
  by (simp add: good_res_def plain_def ret_def good_quiet)

lemma good_plain_pair: "good i s \<Longrightarrow> quiet s t \<Longrightarrow> good_res i (plain (r, t))"
  by (simp add: good_plain)

lemma good_fallible: "good i s \<Longrightarrow> quiet_res s m \<Longrightarrow> good_res i (fallible m)"
  by (auto simp: good_res_def fallible_def ret_def quiet_res_def good_quiet)

lemma good_address: "good i s \<Longrightarrow> quiet_res s m \<Longrightarrow> good_res i (address m)"
  by (auto simp: good_res_def address_def quiet_res_def good_quiet)

lemma good_quietI: "good i s \<Longrightarrow> (\<And>out t. m = Some (out, t) \<Longrightarrow> quiet s t) \<Longrightarrow> good_res i m"
  using good_quiet by (auto simp: good_res_def)

lemma goodD: "good i s \<Longrightarrow> kinv s" "good i s \<Longrightarrow> i < length (ks_procs s)" "good i s \<Longrightarrow> \<not> dead (pr s i)"
  by (simp_all add: good_def)

lemma good_fork_call: "good i s \<Longrightarrow> ks_nextpid s + 1 < 2 ^ 31 \<Longrightarrow> good_res i (fallible (fork tramp i s))"
  by (auto simp: good_res_def fallible_def ret_def intro: good_fork)

lemma good_wait_end:
  assumes "good i s"
  shows "good_res i (map_option (\<lambda>w. case w of Inl x \<Rightarrow> ret x | Inr t \<Rightarrow> (Block p, t)) (wait_scan i addr s))"
proof (rule good_resI)
  fix out t assume r: "map_option (\<lambda>w. case w of Inl x \<Rightarrow> ret x | Inr t \<Rightarrow> (Block p, t)) (wait_scan i addr s) = Some (out, t)"
  then obtain w where w: "wait_scan i addr s = Some w" by auto
  from good_wait_scan [OF assms w] r w show "good i t" by (cases w) (auto simp: ret_def)
qed

lemma good_sys_wait: "good i s \<Longrightarrow> good_res i (sys_wait e g i s)"
  unfolding sys_wait_def by (rule good_wait_end)

lemma good_sys_sbrk: "good i s \<Longrightarrow> good_res i (sys_sbrk e g i s)"
  using quiet_growproc [of s i "int_of_u64 (rg_a0 g)"]
  by (auto simp: good_res_def sys_sbrk_def quiet_res_def good_quiet split: if_splits)

lemma good_sleep_check: "good i s \<Longrightarrow> good i (snd (sleep_check t0 n i s))"
  using good_quiet [OF _ quiet_sleep_on] goodD(3) by (auto simp: sleep_check_def)

lemma good_sys_sleep: "good i s \<Longrightarrow> good_res i (sys_sleep e g i s)"
  using good_sleep_check [of i s] by (auto simp: good_res_def sys_sleep_def) (metis snd_conv)

lemma good_process_calls:
  assumes "good i s" "ks_nextpid s + 1 < 2 ^ 31" "(n, f) \<in> set process_calls" "n \<noteq> 2"
  shows "good_res i (f e g i s)"
  using assms
  by (auto simp: process_calls_def intro!: good_fork_call good_sys_wait good_sys_sbrk good_sys_sleep good_Some
      intro: good_plain quiet_kill good_quietI quiet_sys_exec)

lemma good_io: "good i s \<Longrightarrow> good_res i (do_read e g i s)" "good i s \<Longrightarrow> good_res i (do_write e g i s)"
  using quiet_do_read goodD(2,3) by (blast intro: good_quietI)+

lemma good_file_calls:
  assumes "good i s" "(n, f) \<in> set file_calls"
  shows "good_res i (f e g i s)"
  using assms
  by (auto simp: file_calls_def sys_fstat_def sys_mknod_def sys_mkdir_def
      intro!: good_io good_fallible [OF assms(1)] good_address [OF assms(1)]
        quiet_sys_pipe quiet_filestat quiet_sys_chdir quiet_sys_dup quiet_sys_open quiet_make_node quiet_sys_unlink
        quiet_sys_link quiet_sys_close quiet_sys_mmap quiet_sys_munmap quiet_res_Some quiet_refl
      split: option.splits)

lemma quiet_context_push: "quiet_res s (sys_context_push a0 i s)"
proof (cases "alloc_pages 1 s")
  case None
  then show ?thesis by (simp add: sys_context_push_def quiet_res_Some)
next
  case (Some x)
  obtain pages s1 where x: "x = (pages, s1)" by force
  note q = quiet_alloc_pages [OF Some [unfolded x]]
  have "quiet_res s1 (map_option (\<lambda>(r, s2). (r, free_pages pages s2)) (push_node_of i node s1))" for node
    by (rule quiet_res_map [OF quiet_push_node]) (simp add: quiet_free_pages)
  then show ?thesis
    using Some x quiet_res_trans [OF q] quiet_trans [OF q quiet_free_pages]
    by (auto simp: sys_context_push_def split: option.splits)
qed

lemma quiet_context_calls:
  "quiet s (snd (sys_context_query a0 a1 i s))" "quiet s (snd (sys_context_rollback a0 i s))" "quiet s (snd (sys_context_clear i s))"
  unfolding sys_context_query_def sys_context_rollback_def sys_context_clear_def
  by (rule quiet_on_proc, simp add: keeps_query keeps_rollback keeps_context_clear)+

lemma quiet_sys_lease_begin: "quiet_res s (sys_agent_lease_begin a0 a1 i s)"
  unfolding sys_agent_lease_begin_def
  by (auto intro!: quiet_res_option quiet_res_bind [OF quiet_lease_begin] quiet_pairI quiet_copy_struct split: sum.splits)

lemma good_wait_on: "good i s \<Longrightarrow> good i (snd (wait_on st ue i s))"
  using quiet_wait_iter [OF goodD(3), of i s st ue] good_quiet [of i s]
  by (auto simp: wait_on_def ret_def split: sum.splits)

lemma good_agent_wait:
  assumes "good i s" "quiet s (snd w)"
  shows "good_res i (Some (agent_wait_call ue i w))"
proof -
  obtain v t where w: "w = (v, t)" by force
  have g: "good i t" using good_quiet [OF assms] by (simp add: w)
  have "good i (snd (agent_wait_call ue i w))"
    using g good_wait_on [OF g] by (cases v) (simp_all add: w agent_wait_call_def ret_def)
  then show ?thesis by (metis good_Some prod.collapse)
qed

lemma good_recv_on: "good i s \<Longrightarrow> good i (snd (recv_on ureq i s))"
proof -
  assume g: "good i s"
  have e: "quiet t (snd (sys_tool_recv_end ureq i r t))" for r t
    using quiet_copy_struct by (auto simp: sys_tool_recv_end_def split: sum.splits)
  show ?thesis
  proof (cases "recv_check i s")
    case (Inl x)
    with quiet_recv [OF goodD(3) [OF g]] have "quiet s (snd x)" by (simp add: case_prod_beta)
    from good_quiet [OF g quiet_trans [OF this e]] Inl show ?thesis by (simp add: recv_on_def ret_def case_prod_beta)
  next
    case (Inr t)
    with quiet_recv [OF goodD(3) [OF g]] good_quiet [OF g] show ?thesis by (simp add: recv_on_def)
  qed
qed

lemma quiet_tool_end: "quiet s (snd (sys_tool_call_end a1 i pages resp s))"
  unfolding sys_tool_call_end_def Let_def case_prod_beta snd_conv by (rule quiet_trans [OF quiet_copy_struct quiet_free_pages])

lemma good_tool_state: "good i (call_kst c) \<Longrightarrow> good i (snd (tool_state pages req a1 i c))"
  using good_quiet [OF _ quiet_tool_end] by (cases c) (simp_all add: tool_state_def ret_def)

lemma good_tool_on:
  assumes g: "good i s"
  shows "good_res i (tool_on pages req n rid a1 i s)"
proof (rule good_resI)
  fix out t assume "tool_on pages req n rid a1 i s = Some (out, t)"
  then obtain c where c: "agent_tool_call_check i req n rid s = Some c" "(out, t) = tool_state pages req a1 i c"
    by (auto simp: tool_on_def)
  have "good i (call_kst c)" by (rule good_quiet [OF g quiet_tool_check [OF goodD(3) [OF g] c(1)]])
  from good_tool_state [OF this, of pages req a1] show "good i t" by (simp flip: c(2))
qed

lemma good_tool_call:
  assumes g: "good i s"
  shows "good_res i (sys_tool_call e h i s)"
proof (cases "sys_tool_call_begin (rg_a0 h) i s")
  case None
  then show ?thesis by (simp add: sys_tool_call_def good_res_def)
next
  case (Some b)
  show ?thesis
  proof (cases b)
    case (Inl x)
    have "quiet s (snd x)"
      using Some Inl quiet_trans [OF quiet_alloc_pages quiet_free_pages]
      by (auto simp: sys_tool_call_begin_def Let_def split: option.splits)
    with g Some Inl good_quiet [OF g] show ?thesis by (auto simp: sys_tool_call_def good_res_def ret_def)
  next
    case (Inr y)
    obtain pages req c where y: "y = (pages, req, c)" by (metis prod_cases3)
    obtain s1 where s1: "alloc_pages 2 s = Some (pages, s1)" "agent_tool_call_begin i req s1 = Some c"
      using Some Inr y by (auto simp: sys_tool_call_begin_def Let_def split: option.splits)
    have gc: "good i (call_kst c)"
      by (rule good_quiet [OF g quiet_trans [OF quiet_alloc_pages [OF s1(1)] quiet_tool_call [OF s1(2)]]])
    show ?thesis
    proof (cases c)
      case (Called resp st t)
      with Some Inr y good_tool_state [OF gc] show ?thesis by (simp add: sys_tool_call_def good_res_def) (metis snd_conv)
    next
      case (Waiting n rid t)
      with Some Inr y good_tool_on [of i t] gc show ?thesis by (simp add: sys_tool_call_def)
    qed
  qed
qed

lemma good_tool_batch: "good i s \<Longrightarrow> good_res i (sys_tool_call_batch e h i s)"
  using good_quiet [OF _ quiet_trans [OF quiet_alloc_pages quiet_free_pages]]
  by (auto simp: sys_tool_call_batch_def good_res_def split: option.splits)

lemma good_create: "good i s \<Longrightarrow> good_res i (address (sys_agent_create a0 a1 a2 i s))"
  using good_mark_current [of i s] by (auto simp: address_def sys_agent_create_def good_res_def)

lemma good_heartbeat_calls:
  "good i s \<Longrightarrow> good_res i (fallible (sys_agent_heartbeat_set a0 i s))"
  "good i s \<Longrightarrow> good_res i (fallible (sys_agent_heartbeat_stop i s))"
  by (auto simp: fallible_def ret_def sys_agent_heartbeat_set_def sys_agent_heartbeat_stop_def good_res_def
      intro: good_heartbeat_set good_heartbeat_stop)

lemma quiet_agent_plain:
  "quiet s (snd (sys_agent_watch a0 i s))" "quiet s (snd (sys_agent_unwatch a0 i s))" "quiet s (snd (sys_agent_priority_set a0 i s))"
  "quiet s (snd (sys_agent_sched_set a0 a1 i s))" "quiet s (snd (sys_agent_cap_set a0 i s))" "quiet s (snd (sys_agent_role_set a0 i s))"
  "quiet s (snd (sys_agent_lease_commit a0 b0 i s))" "quiet s (snd (sys_agent_lease_abort b0 i s))"
  "quiet s (snd (sys_agent_wait a0 i s))" "quiet s (snd (sys_agent_wait_timeout a0 a1 i s))"
  unfolding sys_agent_watch_def sys_agent_unwatch_def sys_agent_priority_set_def sys_agent_sched_set_def
      sys_agent_cap_set_def sys_agent_role_set_def sys_agent_lease_commit_def sys_agent_lease_abort_def
      sys_agent_wait_def sys_agent_wait_timeout_def
  by (rule quiet_watch quiet_unwatch quiet_priority_set quiet_sched_set quiet_cap_set quiet_role_set quiet_lease_end
      quiet_wait_enter)+

lemma quiet_agent_rest:
  "quiet s (snd (sys_agent_context_verify i s))" "quiet s (snd (sys_agent_cascade_kill a0 i s))"
  "quiet_res s (sys_agent_watch_file a0 i s)"
  using quiet_cascade quiet_watch_file
  by (auto simp: sys_agent_context_verify_def sys_agent_cascade_kill_def sys_agent_watch_file_def quiet_res_def Let_def)

lemma good_agent_calls:
  assumes "good i s" "(n, f) \<in> set agent_calls"
  shows "good_res i (f e g i s)"
  using assms(2)
  by (auto simp: agent_calls_def
      intro!: good_plain [OF assms(1)] good_fallible [OF assms(1)] quiet_lists quiet_context_push quiet_context_calls
        quiet_agent_plain quiet_context_validate quiet_sys_reply quiet_sys_lease_begin quiet_agent_rest
        good_tool_call [OF assms(1)] good_tool_batch [OF assms(1)] good_create [OF assms(1)]
        good_heartbeat_calls [OF assms(1)] good_agent_wait [OF assms(1)])
    (use good_recv_on [OF assms(1)] in \<open>metis good_Some prod.collapse\<close>)

subsection \<open>Traps\<close>

text \<open>The stretch ends in a state that satisfies the invariant, and unless the process is gone it lives.\<close>

definition sound :: "nat \<Rightarrow> (sys_out \<times> kst) option \<Rightarrow> bool" where
  "sound i m \<longleftrightarrow> (\<forall>out t. m = Some (out, t) \<longrightarrow> kinv t \<and> (out \<noteq> Exited \<longrightarrow> good i t))"

lemma sound_good: "good_res i m \<Longrightarrow> sound i m"
  by (auto simp: sound_def good_res_def good_def)

lemma sound_exit: "good i s \<Longrightarrow> sound i (map_option (Pair Exited) (exit initproc i status s))"
  using kinv_exit(1) by (auto simp: sound_def good_def)

lemma sound_syscall:
  assumes g: "good i s" and np: "ks_nextpid s + 1 < 2 ^ 31"
  shows "sound i (syscall e g' i s)"
proof (cases "map_of syscalls (int_of_u64 (rg_a7 g'))")
  case None
  with g show ?thesis by (auto simp: syscall_def Let_def intro: sound_good good_Some)
next
  case (Some f)
  let ?n = "int_of_u64 (rg_a7 g')"
  let ?s = "if 25 \<le> ?n \<and> ?n \<le> 54 then agent_workflow_metric_syscall i s else s"
  have q: "quiet s ?s" by (simp add: agent_workflow_metric_syscall_def quiet_metrics)
  have g1: "good i ?s" by (rule good_quiet [OF g q])
  have n1: "ks_nextpid ?s + 1 < 2 ^ 31" using quietD(3) [OF q] np by simp
  have "(?n, f) \<in> set process_calls \<or> (?n, f) \<in> set file_calls \<or> (?n, f) \<in> set agent_calls"
    using map_of_SomeD [OF Some] by (auto simp: syscalls_def)
  moreover have "f = sys_exit" if "(?n, f) \<in> set process_calls" "?n = 2" using that by (auto simp: process_calls_def)
  ultimately have "f = sys_exit \<or> good_res i (f e g' i ?s)"
    using good_process_calls [OF g1 n1] good_file_calls [OF g1] good_agent_calls [OF g1] by blast
  then have "sound i (f e g' i ?s)"
    using sound_good sound_exit [OF g1] by (auto simp: sys_exit_def)
  with Some show ?thesis by (simp add: syscall_def Let_def)
qed

lemma good_continue:
  assumes "good i s"
  shows "good_res i (continue_call p i s)"
proof -
  note g = good_quiet [OF assms quiet_wait_wake [of s i]]
  note l = goodD(3,2) [OF g]
  have 1: "good_res i (Some x)" if "good i (snd x)" for x :: "sys_out \<times> kst"
    using that by (metis good_Some prod.collapse)
  show ?thesis
    using good_wait_end [OF g] 1 [OF good_sleep_check [OF g]] good_quietI [OF g quiet_read_on [OF l]]
      good_quietI [OF g quiet_write_on [OF l]] 1 [OF good_wait_on [OF g]] 1 [OF good_recv_on [OF g]] good_tool_on [OF g]
    by (cases p) (simp_all add: continue_call_def Let_def)
qed

lemma sound_user_return:
  assumes r: "kinv (snd r)" "fst r \<noteq> Exited \<Longrightarrow> good i (snd r)"
  shows "sound i (user_return e i timer r)"
proof -
  obtain out s where o: "r = (out, s)" by force
  have "sound i (if p_killed (pr s i) then map_option (Pair Exited) (exit (en_init e) i (-1) s)
      else Some (out, if timer then yield i s else s))" if "out \<noteq> Exited"
  proof -
    have g: "good i s" using r(2) o that by simp
    then have "good i (yield i s)" using good_quiet [OF g quiet_yield] goodD(3) by blast
    with g sound_exit [OF g] show ?thesis by (auto intro: sound_good good_Some)
  qed
  with r o show ?thesis
    by (cases out) (auto simp: user_return_def sound_def)
qed

lemma sound_return:
  assumes "sound i m"
  shows "sound i (Option.bind m (user_return e i timer))"
proof (cases m)
  case (Some r)
  with assms have "kinv (snd r)" "fst r \<noteq> Exited \<Longrightarrow> good i (snd r)" by (cases r; simp add: sound_def)+
  from sound_user_return [OF this] Some show ?thesis by simp
qed (simp add: sound_def)

lemma good_clockintr: "good i s \<Longrightarrow> clockintr j s = Some t \<Longrightarrow> good i t"
proof -
  assume g: "good i s" and r: "clockintr j s = Some t"
  have "quiet s (wakeup j ChanTicks (s\<lparr>ks_ticks := n\<rparr>))" for n by (rule quiet_trans [OF quiet_fields(8) quiet_wakeup])
  from good_agent_tick [OF good_quiet [OF g this]] r show ?thesis by (auto simp: clockintr_def Let_def)
qed

lemma quiet_setkilled: "quiet s (setkilled i s)"
  unfolding setkilled_def by (rule quiet_upd_proc) (simp add: keeps_defs digest_wf_def)

lemma sound_usertrap:
  assumes g: "good i s" and np: "ks_nextpid s + 1 < 2 ^ 31"
  shows "sound i (usertrap e cause i s)"
proof (cases cause)
  case (Ecall g')
  with sound_exit [OF g] sound_return [OF sound_syscall [OF g np]] show ?thesis by (simp add: usertrap_def)
next
  case (PageFault va scause)
  have "good_res i (map_option (\<lambda>(r, s1). (Back, if r < 0 then setkilled i s1 else s1)) (mmap_handler i va scause s))"
    using good_quiet [OF g quiet_resD [OF quiet_mmap_handler]] good_quiet [OF _ quiet_setkilled]
    by (auto simp: good_res_def)
  from sound_return [OF sound_good [OF this]] PageFault show ?thesis
    by (simp add: usertrap_def map_conv_bind_option comp_def case_prod_unfold)
next
  case (Timer first)
  have "good_res i (map_option (Pair Back) (if first then clockintr i s else Some s))"
    using g good_clockintr [OF g] by (auto simp: good_res_def)
  from sound_return [OF sound_good [OF this]] Timer show ?thesis
    by (simp add: usertrap_def map_conv_bind_option comp_def)
next
  case (UartIntr arrived room)
  with sound_user_return [of "(Back, uartintr i arrived room s)"] good_quiet [OF g quiet_uartintr]
  show ?thesis by (simp add: usertrap_def good_def)
next
  case OtherIntr
  with sound_user_return [of "(Back, s)"] g show ?thesis by (simp add: usertrap_def good_def)
next
  case Unexpected
  with sound_user_return [of "(Back, setkilled i s)"] good_quiet [OF g quiet_setkilled]
  show ?thesis by (simp add: usertrap_def good_def)
qed

lemma sound_resume: "good i s \<Longrightarrow> sound i (resume e p i s)"
  unfolding resume_def by (intro sound_return sound_good good_continue)

lemma kinv_clockintr: "kinv s \<Longrightarrow> clockintr j s = Some t \<Longrightarrow> kinv t"
proof -
  assume k: "kinv s" and r: "clockintr j s = Some t"
  have "quiet s (wakeup j ChanTicks (s\<lparr>ks_ticks := n\<rparr>))" for n by (rule quiet_trans [OF quiet_fields(8) quiet_wakeup])
  from kinv_agent_tick(1) [OF kinv_quiet [OF k this]] r show ?thesis by (auto simp: clockintr_def Let_def)
qed

lemma kinv_kerneltrap: "kinv s \<Longrightarrow> kerneltrap cause s = Some t \<Longrightarrow> kinv t"
  using kinv_clockintr kinv_quiet [OF _ quiet_uartintr]
  by (auto simp: kerneltrap_def split: trap_cause.splits if_splits)

subsection \<open>The system\<close>

text \<open>The kernel state, and for each process in the kernel what its call waits for.\<close>

record sys =
  sy_kst :: kst
  sy_pend :: "nat \<Rightarrow> pending option"

text \<open>What can happen: a process that runs traps, or goes on with a call that slept; an idle processor takes an
  interrupt, picks a process and runs it, or accounts for one that gave the processor back.\<close>

datatype event =
    Trap nat trap_cause
  | Resume nat
  | Interrupt trap_cause
  | Dispatch
  | Account nat u64

definition running :: "sys \<Rightarrow> nat \<Rightarrow> bool" where
  "running y i \<longleftrightarrow> i < length (ks_procs (sy_kst y)) \<and> p_state (pr (sy_kst y) i) = RUNNING"

definition stretch :: "nat \<Rightarrow> sys \<Rightarrow> sys_out \<times> kst \<Rightarrow> sys" where
  "stretch i y = (\<lambda>(out, t). \<lparr>sy_kst = t, sy_pend = (sy_pend y)(i := (case out of Block p \<Rightarrow> Some p | _ \<Rightarrow> None))\<rparr>)"

text \<open>The process identifiers are an \<open>int\<close> that only grows: past 2^31 processes C gives the program no meaning.\<close>

definition sys_event :: "env \<Rightarrow> event \<Rightarrow> sys \<Rightarrow> sys option" where
  "sys_event e ev y =
     (let s = sy_kst y
      in case ev of
           Trap i cause \<Rightarrow>
             if running y i \<and> sy_pend y i = None \<and> ks_nextpid s + 1 < 2 ^ 31
             then map_option (stretch i y) (usertrap e cause i s) else None
         | Resume i \<Rightarrow>
             (case sy_pend y i of
                None \<Rightarrow> None
              | Some p \<Rightarrow> if running y i then map_option (stretch i y) (resume e p i s) else None)
         | Interrupt cause \<Rightarrow> map_option (\<lambda>t. y\<lparr>sy_kst := t\<rparr>) (kerneltrap cause s)
         | Dispatch \<Rightarrow>
             (case scheduler_pick (ucast (ks_ticks s)) s of
                (None, t) \<Rightarrow> Some (y\<lparr>sy_kst := t\<rparr>)
              | (Some (i, score), t) \<Rightarrow> Some (y\<lparr>sy_kst := scheduler_run i t\<rparr>))
         | Account i now \<Rightarrow> Some (y\<lparr>sy_kst := upd_proc i (sched_account now) s\<rparr>))"

text \<open>The table of processes at boot, with the pages and the file system the machine starts with.\<close>

definition boot_state :: "u64 list \<Rightarrow> fsk \<Rightarrow> kst" where
  "boot_state fl fs = (boot_kst (replicate NPROC zero_proc))\<lparr>ks_freelist := fl, ks_fs := fs\<rparr>"

inductive reachable :: "env \<Rightarrow> sys \<Rightarrow> bool" for e where
  boot: "userinit (en_tramp e) initcode (boot_state fl fs) = Some (en_init e, s) \<Longrightarrow>
    reachable e \<lparr>sy_kst = s, sy_pend = (\<lambda>_. None)\<rparr>"
| event: "reachable e y \<Longrightarrow> sys_event e ev y = Some z \<Longrightarrow> reachable e z"

text \<open>A sequence of events, one after the other.\<close>

fun sys_run :: "env \<Rightarrow> event list \<Rightarrow> sys \<Rightarrow> sys option" where
  "sys_run e [] y = Some y"
| "sys_run e (ev # evs) y = (case sys_event e ev y of None \<Rightarrow> None | Some z \<Rightarrow> sys_run e evs z)"

lemma reachable_run: "reachable e y \<Longrightarrow> sys_run e evs y = Some z \<Longrightarrow> reachable e z"
  by (induction evs arbitrary: y) (auto split: option.splits intro: reachable.event)

lemma kinv_boot: "kinv (boot_state fl fs)"
proof -
  let ?b = "boot_kst (replicate 64 zero_proc)"
  have "wheel_inv ?b" by (rule wheel_inv_boot) (auto simp: zero_proc_def)
  moreover have "workflow_inv ?b" by (rule workflow_inv_boot) (auto simp: zero_proc_def)
  moreover have "pids_ok ?b" by (auto simp: pids_ok_def live_pid_def boot_kst_def zero_proc_def)
  moreover have "proc_ok zero_proc" by (simp add: proc_ok_def zero_proc_def mailbox_inv_empty digest_wf_def)
  ultimately have "kinv ?b" by (simp add: kinv_def)
  from kinv_quiet [OF this quiet_trans [OF quiet_fields(1) quiet_fields(2)]] show ?thesis by (simp add: boot_state_def)
qed

lemma kinv_userinit:
  assumes inv: "kinv s" and np: "ks_nextpid s + 1 < 2 ^ 31" and r: "userinit tramp code s = Some (i, t)"
  shows "kinv t"
proof -
  obtain s1 pt fl cwd fs where a: "allocproc tramp s = Some (Some i, s1)"
    and t: "t = upd_proc i (\<lambda>p. p\<lparr>p_pagetable := pt, p_sz := 4096, p_name := safestr 16 ''initcode'',
                  p_cwd := cwd, p_state := RUNNABLE\<rparr>) (s1\<lparr>ks_freelist := fl, ks_fs := fs\<rparr>)"
    using r by (auto simp: userinit_def bind_eq_Some_conv)
  note k = kinv_allocproc [OF inv np a]
  have u: "p_state (pr s1 i) = USED" using k(3) [OF refl] by simp
  have "quiet s1 t"
    unfolding t by (intro quiet_trans [OF quiet_trans [OF quiet_fields(1) quiet_fields(2)] quiet_upd_proc])
      (simp add: keeps_defs digest_wf_def u)
  from kinv_quiet [OF k(1) this] show ?thesis .
qed

lemma kinv_dispatch:
  assumes inv: "kinv s" and r: "scheduler_pick now s = (Some (i, score), t)"
  shows "kinv (scheduler_run i t)"
proof -
  note q = quiet_scheduler_pick [of s now, unfolded r snd_conv]
  have "i < length (ks_procs s) \<and> p_state (pr t i) = RUNNABLE"
    using sched_scan [OF order_refl, where s = s and now = now] r by (auto simp: scheduler_pick_def best_of_def)
  then have "\<not> dead (pr t i)" by (simp add: dead_def)
  from kinv_quiet [OF kinv_quiet [OF inv q] quiet_scheduler_run [OF this]] show ?thesis .
qed

lemma kinv_stretch: "sound i m \<Longrightarrow> map_option (stretch i y) m = Some z \<Longrightarrow> kinv (sy_kst z)"
  by (auto simp: sound_def stretch_def)

lemma running_good: "kinv (sy_kst y) \<Longrightarrow> running y i \<Longrightarrow> good i (sy_kst y)"
  by (simp add: good_def running_def dead_def)

lemma kinv_event:
  assumes inv: "kinv (sy_kst y)" and r: "sys_event e ev y = Some z"
  shows "kinv (sy_kst z)"
proof (cases ev)
  case (Trap i cause)
  with r have "running y i" "ks_nextpid (sy_kst y) + 1 < 2 ^ 31" "map_option (stretch i y) (usertrap e cause i (sy_kst y)) = Some z"
    by (auto simp: sys_event_def Let_def split: if_splits)
  with kinv_stretch [OF sound_usertrap [OF running_good [OF inv]]] show ?thesis by blast
next
  case (Resume i)
  with r obtain p where "running y i" "map_option (stretch i y) (resume e p i (sy_kst y)) = Some z"
    by (auto simp: sys_event_def Let_def split: if_splits option.splits)
  with kinv_stretch [OF sound_resume [OF running_good [OF inv]]] show ?thesis by blast
next
  case (Interrupt cause)
  with r kinv_kerneltrap [OF inv] show ?thesis by (auto simp: sys_event_def)
next
  case Dispatch
  obtain b t where p: "scheduler_pick (ucast (ks_ticks (sy_kst y))) (sy_kst y) = (b, t)" by force
  then have "kinv t" using kinv_quiet [OF inv quiet_scheduler_pick, of "ucast (ks_ticks (sy_kst y))"] by simp
  with Dispatch r p kinv_dispatch [OF inv] show ?thesis by (cases b) (auto simp: sys_event_def)
next
  case (Account i now)
  with r kinv_quiet [OF inv quiet_sched_account] show ?thesis by (auto simp: sys_event_def)
qed


definition wit_env :: env where
  "wit_env = \<lparr>en_tramp = wit_tramp, en_init = 0, en_pad1 = [], en_pad2 = []\<rparr>"

lemma wit_userinit:
  "map_option (\<lambda>(i, s). (i, p_state (pr s 0), length (ks_procs s)))
     (userinit wit_tramp ''a'' (boot_state [4096, 8192, 12288, 16384, 20480, 24576, 28672] empty_fs)) = Some (0, RUNNABLE, 64)"
  by code_simp

lemma dispatch_runs:
  assumes "p_state (pr (sy_kst y) j) = RUNNABLE" "j < length (ks_procs (sy_kst y))"
  shows "\<exists>z i. sys_event e Dispatch y = Some z \<and> running z i"
proof -
  let ?s = "sy_kst y" and ?now = "ucast (ks_ticks (sy_kst y)) :: u64"
  obtain b t where p: "fold (sched_step ?now) [0..<length (ks_procs ?s)] (None, ?s) = (b, t)"
    "best_of ?now ?s (length (ks_procs ?s)) b" "length (ks_procs t) = length (ks_procs ?s)"
    using sched_scan [OF order_refl, where s = ?s and now = ?now] by blast
  with assms obtain i score where "b = Some (i, score)" "i < length (ks_procs t)"
    by (auto simp: best_of_def split: option.splits)
  with p(1) show ?thesis by (auto simp: sys_event_def scheduler_pick_def running_def scheduler_run_def Let_def)
qed


subsection \<open>Killed processes\<close>

lemma exit_zombie:
  assumes g: "good i s" and r: "exit initproc i status s = Some t"
  shows "p_state (pr t i) = ZOMBIE" "p_xstate (pr t i) = status"
proof -
  have "i < length (ks_procs t)" using kinv_exit(2) [OF _ _ _ r] g by (simp add: good_def)
  with r show "p_state (pr t i) = ZOMBIE" "p_xstate (pr t i) = status"
    by (auto simp: exit_def Let_def bind_eq_Some_conv split: if_splits)
qed

lemma user_return_killed:
  assumes "user_return e i timer r = Some (out, t)" "out = Back \<or> (\<exists>v. out = Ret v)"
  shows "\<not> p_killed (pr t i)"
proof -
  obtain o1 s where r: "r = (o1, s)" by force
  have y: "p_killed (pr (yield i s) i) = p_killed (pr s i)"
    by (cases "i < length (ks_procs s)") (simp_all add: yield_def upd_proc_def list_update_beyond not_less)
  show ?thesis
    using assms r y by (cases o1) (auto simp: user_return_def split: if_splits)
qed


definition wit_killed :: kst where
  "wit_killed = (boot_kst [wit_agent 1, (wit_agent 2)\<lparr>p_cwd := Some 0, p_killed := True, p_state := RUNNING\<rparr>])
     \<lparr>ks_nextpid := 3, ks_fs := wit_fs\<rparr>"

definition wit_regs :: regs where
  "wit_regs = \<lparr>rg_a0 = 0, rg_a1 = 0, rg_a2 = 0, rg_a3 = 0, rg_a4 = 0, rg_a5 = 0, rg_a7 = 11\<rparr>"

lemma wit_killed_trap: "map_option (\<lambda>(out, t). ks_nextpid t) (usertrap wit_env (Ecall wit_regs) 1 wit_killed) = Some 3"
  by code_simp

lemma good_wit_killed: "good 1 wit_killed"
proof -
  let ?ps = "[wit_agent 1, (wit_agent 2)\<lparr>p_cwd := Some 0, p_killed := True, p_state := RUNNING\<rparr>]"
  have w: "wheel_inv (boot_kst ?ps)" by (rule wheel_inv_boot) (auto simp: wit_agent_def zero_proc_def)
  have f: "workflow_inv (boot_kst ?ps)" by (rule workflow_inv_boot) (auto simp: wit_agent_def zero_proc_def)
  have "wheel_inv wit_killed" using wheel_inv_tag [OF w, of wit_killed] by (simp add: wit_killed_def)
  moreover have "workflow_inv wit_killed" using f workflow_inv_cong [of wit_killed "boot_kst ?ps"] by (simp add: wit_killed_def)
  moreover have "pids_ok wit_killed"
    by (auto simp: pids_ok_def live_pid_def wit_killed_def wit_agent_def less_Suc_eq split: if_splits)
  moreover have "proc_ok (pr wit_killed j)" if "j < 2" for j
    using that by (auto simp: less_Suc_eq numeral_2_eq_2 proc_ok_def dead_def wit_killed_def wit_agent_def zero_proc_def mailbox_inv_empty digest_wf_def)
  ultimately show ?thesis by (auto simp: good_def kinv_def wit_killed_def dead_def)
qed


end
